(* ===== verification/Prelude.thy ===== *)
theory Prelude
  imports "HOL-Library.Word"
begin

text \<open>
  Shared vocabulary of the development: the machine integers of the C code, byte buffers as
  lists, little- and big-endian (de)serialisation, the bytewise exclusive or that the cipher
  modes use, and the generic lemmas on them.  Signed C integers are kept either as
  two's-complement words or, where the code never wraps, as \<^typ>\<open>int\<close>.
\<close>

unbundle bit_operations_syntax

section \<open>Types\<close>

type_synonym u8 = "8 word"
type_synonym u16 = "16 word"
type_synonym u32 = "32 word"
type_synonym u64 = "64 word"
type_synonym bytes = "u8 list"

section \<open>Collections of facts\<close>

named_theorems word_bytes \<open>splitting words into bytes and packing bytes into words\<close>
named_theorems xor_bytes \<open>bytewise exclusive or of buffers\<close>

section \<open>Bytes of a 32-bit word\<close>

text \<open>
  The four bytes of a word, most significant first, the way the C code writes them:
  \<open>x >> 24\<close>, \<open>(x >> 16) & 0xff\<close>, \<open>(x >> 8) & 0xff\<close>, \<open>x & 0xff\<close>.
\<close>

definition b3 :: "u32 \<Rightarrow> u8" where
  "b3 w = ucast (drop_bit 24 w)"

definition b2 :: "u32 \<Rightarrow> u8" where
  "b2 w = ucast (drop_bit 16 w AND 0xff)"

definition b1 :: "u32 \<Rightarrow> u8" where
  "b1 w = ucast (drop_bit 8 w AND 0xff)"

definition b0 :: "u32 \<Rightarrow> u8" where
  "b0 w = ucast (w AND 0xff)"

definition pack :: "u8 \<Rightarrow> u8 \<Rightarrow> u8 \<Rightarrow> u8 \<Rightarrow> u32" where
  "pack a b c d = push_bit 24 (ucast a) OR push_bit 16 (ucast b) OR push_bit 8 (ucast c) OR ucast d"

lemma bit_0xff: "bit (0xff :: 'a::len word) n \<longleftrightarrow> n < 8 \<and> n < LENGTH('a)"
proof -
  have "(0xff :: 'a word) = mask 8" by (simp add: mask_eq_exp_minus_1)
  then show ?thesis by (simp only: bit_mask_iff possible_bit_word) auto
qed

lemma bit_b3: "bit (b3 w) n \<longleftrightarrow> n < 8 \<and> bit w (24 + n)"
  and bit_b2: "bit (b2 w) n \<longleftrightarrow> n < 8 \<and> bit w (16 + n)"
  and bit_b1: "bit (b1 w) n \<longleftrightarrow> n < 8 \<and> bit w (8 + n)"
  and bit_b0: "bit (b0 w) n \<longleftrightarrow> n < 8 \<and> bit w n"
  unfolding b3_def b2_def b1_def b0_def
  by (simp_all only: bit_ucast_iff bit_and_iff bit_drop_bit_eq bit_0xff o_apply)
    (auto dest: bit_imp_le_length)

lemma bit_pack:
  "bit (pack a b c d) n \<longleftrightarrow>
     (if n < 8 then bit d n else if n < 16 then bit c (n - 8)
      else if n < 24 then bit b (n - 16) else n < 32 \<and> bit a (n - 24))"
  by (auto simp: pack_def bit_simps dest: bit_imp_le_length)

lemma pack_bytes [word_bytes, simp]: "pack (b3 w) (b2 w) (b1 w) (b0 w) = w"
  by (rule bit_eqI) (auto simp: bit_pack bit_b3 bit_b2 bit_b1 bit_b0)

lemma bytes_pack [word_bytes, simp]:
  "b3 (pack a b c d) = a" "b2 (pack a b c d) = b" "b1 (pack a b c d) = c" "b0 (pack a b c d) = d"
  by (rule bit_eqI, auto simp: bit_pack bit_b3 bit_b2 bit_b1 bit_b0 dest: bit_imp_le_length)+

lemma xor_pack [word_bytes]:
  "pack a b c d XOR pack a' b' c' d' = pack (a XOR a') (b XOR b') (c XOR c') (d XOR d')"
  by (rule bit_eqI) (auto simp: bit_pack bit_simps)

lemma pack_cases: obtains a b c d where "w = pack a b c d"
  using pack_bytes [of w] by metis

lemma pack_inject [word_bytes, simp]:
  "pack a b c d = pack a' b' c' d' \<longleftrightarrow> a = a' \<and> b = b' \<and> c = c' \<and> d = d'"
  using bytes_pack by metis

lemma unat_b3: "unat (drop_bit 24 w) = unat (b3 w)"
  and unat_b2: "unat (drop_bit 16 w AND 0xff) = unat (b2 w)"
  and unat_b1: "unat (drop_bit 8 w AND 0xff) = unat (b1 w)"
  and unat_b0: "unat (w AND 0xff) = unat (b0 w)" for w :: u32
proof -
  have *: "unat x = unat y" if "\<And>n. bit x n = bit y n" for x :: u32 and y :: u8
  proof -
    have "x = ucast y" by (rule bit_eqI) (auto simp: that bit_simps)
    then show ?thesis by (simp add: unsigned_ucast_eq take_bit_nat_eq_self_iff order_less_le_trans [OF unsigned_less])
  qed
  show "unat (drop_bit 24 w) = unat (b3 w)"
    by (rule *) (auto simp: bit_b3 bit_simps dest: bit_imp_le_length)
  show "unat (drop_bit 16 w AND 0xff) = unat (b2 w)"
    by (rule *, simp only: bit_b2 bit_and_iff bit_drop_bit_eq bit_0xff o_apply) auto
  show "unat (drop_bit 8 w AND 0xff) = unat (b1 w)"
    by (rule *, simp only: bit_b1 bit_and_iff bit_drop_bit_eq bit_0xff o_apply) auto
  show "unat (w AND 0xff) = unat (b0 w)"
    by (rule *, simp only: bit_b0 bit_and_iff bit_0xff) auto
qed

lemmas unat_bytes = unat_b3 unat_b2 unat_b1 unat_b0

lemma pack_arith:
  "pack a b c d = ucast a * 0x1000000 + ucast b * 0x10000 + ucast c * 0x100 + ucast d"
proof -
  have p: "push_bit 24 (ucast a) = ucast a * (0x1000000 :: u32)"
    "push_bit 16 (ucast b) = ucast b * (0x10000 :: u32)"
    "push_bit 8 (ucast c) = ucast c * (0x100 :: u32)"
    by (simp_all add: push_bit_eq_mult)
  have disj: "push_bit 24 (ucast a) AND (push_bit 16 (ucast b) OR push_bit 8 (ucast c) OR ucast d) = (0 :: u32)"
    "push_bit 16 (ucast b) AND (push_bit 8 (ucast c) OR ucast d) = (0 :: u32)"
    "push_bit 8 (ucast c) AND ucast d = (0 :: u32)"
    by (rule bit_eqI, auto simp: bit_simps dest: bit_imp_le_length)+
  show ?thesis
    unfolding pack_def p [symmetric]
    by (simp add: disjunctive_add_eq_or disj or.assoc add.assoc)
qed

section \<open>Buffers in a flat memory\<close>

text \<open>
  \<open>rd p n mem\<close> reads \<open>n\<close> cells at address \<open>p\<close>, \<open>wr p bs mem\<close> stores \<open>bs\<close> there.  Two pointers into one
  memory may alias, which is how the code calls its ciphers on a buffer in place.
\<close>

definition rd :: "nat \<Rightarrow> nat \<Rightarrow> 'a list \<Rightarrow> 'a list" where
  "rd p n mem = take n (drop p mem)"

definition wr :: "nat \<Rightarrow> 'a list \<Rightarrow> 'a list \<Rightarrow> 'a list" where
  "wr p bs mem = take p mem @ bs @ drop (p + length bs) mem"

named_theorems buffer \<open>reading and writing buffers\<close>

lemma length_rd [buffer, simp]: "p + n \<le> length mem \<Longrightarrow> length (rd p n mem) = n"
  by (simp add: rd_def)

lemma length_wr [buffer, simp]: "p + length bs \<le> length mem \<Longrightarrow> length (wr p bs mem) = length mem"
  by (simp add: wr_def)

lemma rd_wr_same [buffer]: "p + length bs \<le> length mem \<Longrightarrow> n = length bs \<Longrightarrow> rd p n (wr p bs mem) = bs"
  by (simp add: rd_def wr_def)

lemma rd_wr_before [buffer]: "p + n \<le> q \<Longrightarrow> q \<le> length mem \<Longrightarrow> rd p n (wr q bs mem) = rd p n mem"
  by (auto simp: rd_def wr_def drop_take min_def)

lemma rd_wr_after [buffer]:
  "q + length bs \<le> p \<Longrightarrow> q + length bs \<le> length mem \<Longrightarrow> rd p n (wr q bs mem) = rd p n mem"
  by (simp add: rd_def wr_def)

lemma rd_append [buffer]: "rd p m mem @ rd (p + m) n mem = rd p (m + n) mem"
  by (simp add: rd_def take_add add.commute)

lemma wr_append [buffer]:
  "p + length bs + length cs \<le> length mem \<Longrightarrow> wr (p + length bs) cs (wr p bs mem) = wr p (bs @ cs) mem"
  by (simp add: wr_def ac_simps)

lemma wr_wr_same [buffer]:
  "p + length bs \<le> length mem \<Longrightarrow> length cs = length bs \<Longrightarrow> wr p cs (wr p bs mem) = wr p cs mem"
  by (simp add: wr_def)

lemma wr_rd [buffer, simp]: "p + n \<le> length mem \<Longrightarrow> wr p (rd p n mem) mem = mem"
  by (simp add: wr_def rd_def flip: take_add) (metis append.assoc append_take_drop_id add.commute drop_drop)

lemma wr_Nil [buffer, simp]: "wr p [] mem = mem"
  by (simp add: wr_def)

lemma rd_0 [buffer, simp]: "rd p 0 mem = []"
  by (simp add: rd_def)

lemma rd_take [buffer]: "m \<le> n \<Longrightarrow> take m (rd p n mem) = rd p m mem"
  by (simp add: rd_def min_def)

lemma rd_drop [buffer]: "m \<le> n \<Longrightarrow> drop m (rd p n mem) = rd (p + m) (n - m) mem"
  by (simp add: rd_def drop_take add.commute)

section \<open>Constants and allocation\<close>

text \<open>String literals as bytes, and the limits of the 32-bit ABI, where \<open>long\<close> has 32 bits.\<close>

definition ascii :: "string \<Rightarrow> bytes" where
  "ascii s = map (\<lambda>c. of_nat (of_char c)) s"

abbreviation INT_MAX :: nat where
  "INT_MAX \<equiv> 2147483647"

abbreviation LONG_MAX :: nat where
  "LONG_MAX \<equiv> 2147483647"

text \<open>Rounding of floating-point numbers: the length of a number in bits, and a quotient rounded to the nearest number, halves to even.\<close>

fun bitlen :: "nat \<Rightarrow> nat" where
  "bitlen n = (if n = 0 then 0 else Suc (bitlen (n div 2)))"

declare bitlen.simps [simp del]

definition round_div :: "nat \<Rightarrow> nat \<Rightarrow> nat" where
  "round_div a b =
     (let q = a div b; r = a mod b in if 2 * r < b \<or> 2 * r = b \<and> even q then q else q + 1)"

text \<open>The array after \<open>_ogg_realloc\<close> to \<open>n\<close> elements; the new ones are unspecified, \<open>fill\<close> here.\<close>

definition resize :: "'a \<Rightarrow> nat \<Rightarrow> 'a list \<Rightarrow> 'a list" where
  "resize fill n xs = take n xs @ replicate (n - length xs) fill"

lemma length_resize [simp]: "length (resize fill n xs) = n"
  by (simp add: resize_def)

lemma take_resize [simp]: "m \<le> n \<Longrightarrow> m \<le> length xs \<Longrightarrow> take m (resize fill n xs) = take m xs"
  by (simp add: resize_def)

lemma wr_Cons: "p < length mem \<Longrightarrow> wr p (b # bs) mem = wr (Suc p) bs (mem[p := b])"
  by (simp add: wr_def upd_conv_take_nth_drop add.commute)

section \<open>Blocks of 16 bytes\<close>

named_theorems blocks16 \<open>positions in a stream of 16-byte blocks\<close>

lemma block_position [blocks16]:
  "i < 16 \<Longrightarrow> (16 * j + i) div 16 = (j :: nat)" "i < 16 \<Longrightarrow> (16 * j + i) mod 16 = (i :: nat)"
  by simp_all

lemma block_round_up [blocks16]:
  "(16 * j + 15) div 16 = (j :: nat)" "0 < r \<Longrightarrow> r < 16 \<Longrightarrow> (16 * j + r + 15) div 16 = Suc j"
proof -
  show "(16 * j + 15) div 16 = (j :: nat)" by simp
  assume r: "0 < r" "r < 16"
  then obtain s where s: "r = Suc s" "s < 16" by (cases r) simp_all
  then have "16 * j + r + 15 = 16 * Suc j + s" by simp
  with s show "(16 * j + r + 15) div 16 = Suc j" by (simp only: block_position)
qed

lemma whole_blocks: "m mod 16 = 0 \<Longrightarrow> 16 * (m div 16) = (m :: nat)"
  using mult_div_mod_eq [of 16 m] by simp

section \<open>Bytewise exclusive or\<close>

definition xorb :: "bytes \<Rightarrow> bytes \<Rightarrow> bytes" where
  "xorb xs ys = map2 (XOR) xs ys"

lemma length_xorb [xor_bytes, simp]: "length (xorb xs ys) = min (length xs) (length ys)"
  by (simp add: xorb_def)

lemma xorb_cancel [xor_bytes]: "length xs \<le> length ys \<Longrightarrow> xorb (xorb xs ys) ys = xs"
  by (rule nth_equalityI) (simp_all add: xorb_def xor.assoc)

lemma xorb_append [xor_bytes]:
  "length xs = length ys \<Longrightarrow> xorb (xs @ xs') (ys @ ys') = xorb xs ys @ xorb xs' ys'"
  by (simp add: xorb_def)

lemma xorb_Nil [xor_bytes, simp]: "xorb [] ys = []" "xorb xs [] = []"
  by (simp_all add: xorb_def)

lemma nth_xorb [xor_bytes]: "i < length xs \<Longrightarrow> i < length ys \<Longrightarrow> xorb xs ys ! i = xs ! i XOR ys ! i"
  by (simp add: xorb_def)

lemma byte_less: "unat (b :: u8) < 256"
  by (rule order.strict_trans2 [OF unsigned_less]) simp

lemma all_less_4: "(\<forall>j < 4. P j) \<longleftrightarrow> P 0 \<and> P 1 \<and> P 2 \<and> P (3 :: nat)"
  by (simp add: eval_nat_numeral All_less_Suc conj_ac)

end
