(* ===== verification/BlockCipher.thy ===== *)
theory BlockCipher
  imports Prelude
begin

text \<open>
  The contracts between the modes of operation and the block cipher below them, as locales.
  \<open>block_fun\<close> is all that a mode needs to run: a function on blocks that gives 16 bytes.
  \<open>block_cipher\<close> adds what it needs to be undone: an encryption and a decryption under scheduled
  keys, where decryption inverts encryption under paired keys.
\<close>

locale block_fun =
  fixes E :: "bytes \<Rightarrow> bytes"
  assumes length_E [simp]: "length (E b) = 16"

locale block_cipher =
  fixes enc :: "bytes \<Rightarrow> 'k \<Rightarrow> bytes"
    and dec :: "bytes \<Rightarrow> 'k \<Rightarrow> bytes"
    and key_pair :: "'k \<Rightarrow> 'k \<Rightarrow> bool"
  assumes length_enc: "length (enc p k) = 16"
    and length_dec: "length (dec p k) = 16"
    and dec_enc: "key_pair ek dk \<Longrightarrow> length p = 16 \<Longrightarrow> dec (enc p ek) dk = p"

context block_cipher
begin

text \<open>There are as many blocks as there are encrypted blocks, so encryption also inverts decryption.\<close>

lemma enc_dec:
  assumes k: "key_pair ek dk" and c: "length c = 16"
  shows "enc (dec c dk) ek = c"
proof -
  let ?B = "{xs :: bytes. set xs \<subseteq> UNIV \<and> length xs = 16}"
  have "finite ?B" by (rule finite_lists_length_eq) simp
  moreover have "(\<lambda>p. enc p ek) ` ?B \<subseteq> ?B" by (auto simp: length_enc)
  moreover have "inj_on (\<lambda>p. enc p ek) ?B" by (rule inj_on_inverseI [of _ "\<lambda>c. dec c dk"]) (simp add: dec_enc [OF k])
  ultimately have "(\<lambda>p. enc p ek) ` ?B = ?B" by (rule endo_inj_surj)
  then obtain p where "length p = 16" "c = enc p ek" using c by (auto simp: image_def set_eq_iff)
  then show ?thesis by (simp add: dec_enc [OF k])
qed

end

sublocale block_cipher \<subseteq> encf: block_fun "\<lambda>b. enc b k" for k
  by unfold_locales (rule length_enc)

sublocale block_cipher \<subseteq> decf: block_fun "\<lambda>b. dec b k" for k
  by unfold_locales (rule length_dec)

end
