(* ===== verification/Aes.thy ===== *)
theory Aes
  imports AesTables BlockCipher
begin

text \<open>
  The portable AES block cipher of \<^verbatim>\<open>boringssl/crypto/fipsmodule/aes/aes.c\<close>: the key
  schedules for encryption and decryption, the two block functions over the lookup tables, and
  the public entry points that dispatch on the CPU.  The main result is that the block decryption
  under a decryption schedule inverts the block encryption under the encryption schedule of the
  same key, for every key size.
\<close>

unbundle bit_operations_syntax

section \<open>Key material\<close>

text \<open>\<open>struct aes_key_st\<close>: the round keys, \<open>uint32_t rd_key[4 * (AES_MAXNR + 1)]\<close>, and the number of rounds.\<close>

record aes_key =
  rd_key :: "u32 list"
  rounds :: u32

definition aes_key_storage :: "aes_key \<Rightarrow> bool" where
  "aes_key_storage k \<longleftrightarrow> length (rd_key k) = 60"

text \<open>Big-endian load and store of a 32-bit word at the head of a buffer.\<close>

definition GETU32 :: "bytes \<Rightarrow> u32" where
  "GETU32 p = pack (p ! 0) (p ! 1) (p ! 2) (p ! 3)"

definition PUTU32 :: "u32 \<Rightarrow> bytes" where
  "PUTU32 v = [b3 v, b2 v, b1 v, b0 v]"

section \<open>Encryption key schedule\<close>

text \<open>
  The word that starts each group of round keys: the previous word rotated, passed through the
  S-box (read off the tables) and xored with the round constant \<open>rcon[i]\<close>.
\<close>

definition sub_rot_word :: "u32 \<Rightarrow> u32" where
  "sub_rot_word temp =
     (Te2 ! unat (drop_bit 16 temp AND 0xff) AND 0xff000000) XOR
     (Te3 ! unat (drop_bit 8 temp AND 0xff) AND 0x00ff0000) XOR
     (Te0 ! unat (temp AND 0xff) AND 0x0000ff00) XOR
     (Te1 ! unat (drop_bit 24 temp) AND 0x000000ff)"

text \<open>The second half of a 256-bit group uses the S-box without the rotation.\<close>

definition sub_word :: "u32 \<Rightarrow> u32" where
  "sub_word temp =
     (Te2 ! unat (drop_bit 24 temp) AND 0xff000000) XOR
     (Te3 ! unat (drop_bit 16 temp AND 0xff) AND 0x00ff0000) XOR
     (Te0 ! unat (drop_bit 8 temp AND 0xff) AND 0x0000ff00) XOR
     (Te1 ! unat (temp AND 0xff) AND 0x000000ff)"

text \<open>
  The pointer \<open>rk\<close> of the code is an offset \<open>p\<close> into \<open>rd_key\<close>.  Each \<open>while (1)\<close> loop counts \<open>i\<close>
  up from 0 by one, so its exit test \<open>++i == N\<close> is \<open>N \<le> Suc i\<close> here.
\<close>

definition expand128_group :: "nat \<Rightarrow> nat \<Rightarrow> u32 list \<Rightarrow> u32 list" where
  "expand128_group i p rk =
     (let rk = rk[p + 4 := rk ! p XOR sub_rot_word (rk ! (p + 3)) XOR rcon ! i];
          rk = rk[p + 5 := rk ! (p + 1) XOR rk ! (p + 4)];
          rk = rk[p + 6 := rk ! (p + 2) XOR rk ! (p + 5)]
      in rk[p + 7 := rk ! (p + 3) XOR rk ! (p + 6)])"

function expand128 :: "nat \<Rightarrow> nat \<Rightarrow> u32 list \<Rightarrow> u32 list" where
  "expand128 i p rk =
     (let rk = expand128_group i p rk
      in if 10 \<le> Suc i then rk else expand128 (Suc i) (p + 4) rk)"
  by pat_completeness auto
termination by (relation "measure (\<lambda>(i, p, rk). 10 - i)") auto

definition expand192_head :: "nat \<Rightarrow> nat \<Rightarrow> u32 list \<Rightarrow> u32 list" where
  "expand192_head i p rk =
     (let rk = rk[p + 6 := rk ! p XOR sub_rot_word (rk ! (p + 5)) XOR rcon ! i];
          rk = rk[p + 7 := rk ! (p + 1) XOR rk ! (p + 6)];
          rk = rk[p + 8 := rk ! (p + 2) XOR rk ! (p + 7)]
      in rk[p + 9 := rk ! (p + 3) XOR rk ! (p + 8)])"

definition expand192_tail :: "nat \<Rightarrow> u32 list \<Rightarrow> u32 list" where
  "expand192_tail p rk =
     (let rk = rk[p + 10 := rk ! (p + 4) XOR rk ! (p + 9)]
      in rk[p + 11 := rk ! (p + 5) XOR rk ! (p + 10)])"

function expand192 :: "nat \<Rightarrow> nat \<Rightarrow> u32 list \<Rightarrow> u32 list" where
  "expand192 i p rk =
     (let rk = expand192_head i p rk
      in if 8 \<le> Suc i then rk else expand192 (Suc i) (p + 6) (expand192_tail p rk))"
  by pat_completeness auto
termination by (relation "measure (\<lambda>(i, p, rk). 8 - i)") auto

definition expand256_head :: "nat \<Rightarrow> nat \<Rightarrow> u32 list \<Rightarrow> u32 list" where
  "expand256_head i p rk =
     (let rk = rk[p + 8 := rk ! p XOR sub_rot_word (rk ! (p + 7)) XOR rcon ! i];
          rk = rk[p + 9 := rk ! (p + 1) XOR rk ! (p + 8)];
          rk = rk[p + 10 := rk ! (p + 2) XOR rk ! (p + 9)]
      in rk[p + 11 := rk ! (p + 3) XOR rk ! (p + 10)])"

definition expand256_tail :: "nat \<Rightarrow> u32 list \<Rightarrow> u32 list" where
  "expand256_tail p rk =
     (let rk = rk[p + 12 := rk ! (p + 4) XOR sub_word (rk ! (p + 11))];
          rk = rk[p + 13 := rk ! (p + 5) XOR rk ! (p + 12)];
          rk = rk[p + 14 := rk ! (p + 6) XOR rk ! (p + 13)]
      in rk[p + 15 := rk ! (p + 7) XOR rk ! (p + 14)])"

function expand256 :: "nat \<Rightarrow> nat \<Rightarrow> u32 list \<Rightarrow> u32 list" where
  "expand256 i p rk =
     (let rk = expand256_head i p rk
      in if 7 \<le> Suc i then rk else expand256 (Suc i) (p + 8) (expand256_tail p rk))"
  by pat_completeness auto
termination by (relation "measure (\<lambda>(i, p, rk). 7 - i)") auto

declare expand128.simps [simp del] expand192.simps [simp del] expand256.simps [simp del]

text \<open>
  \<open>Inl\<close> is a negative status with the key left as it was, \<open>Inr\<close> is status 0 with the new key.
  \<open>None\<close> stands for a null pointer.
\<close>

definition aes_nohw_set_encrypt_key :: "bytes option \<Rightarrow> nat \<Rightarrow> aes_key option \<Rightarrow> int + aes_key" where
  "aes_nohw_set_encrypt_key key bits aeskey =
     (case (key, aeskey) of
        (Some k, Some ak) \<Rightarrow>
          if bits \<noteq> 128 \<and> bits \<noteq> 192 \<and> bits \<noteq> 256 then Inl (-2)
          else
            let nr = (if bits = 128 then 10 else if bits = 192 then 12 else 14);
                rk = rd_key ak;
                rk = rk[0 := GETU32 k];
                rk = rk[1 := GETU32 (drop 4 k)];
                rk = rk[2 := GETU32 (drop 8 k)];
                rk = rk[3 := GETU32 (drop 12 k)]
            in if bits = 128 then Inr (ak\<lparr>rd_key := expand128 0 0 rk, rounds := nr\<rparr>)
               else
                 let rk = rk[4 := GETU32 (drop 16 k)];
                     rk = rk[5 := GETU32 (drop 20 k)]
                 in if bits = 192 then Inr (ak\<lparr>rd_key := expand192 0 0 rk, rounds := nr\<rparr>)
                    else
                      let rk = rk[6 := GETU32 (drop 24 k)];
                          rk = rk[7 := GETU32 (drop 28 k)]
                      in Inr (ak\<lparr>rd_key := expand256 0 0 rk, rounds := nr\<rparr>)
      | _ \<Rightarrow> Inl (-1))"

section \<open>The platform\<close>

text \<open>
  \<open>AES_encrypt\<close> and its companions choose between the ARMv8 or AES-NI instructions, the vector
  permutation code and the portable code.  The first two are assembly made by the build, so they
  are fields of a record that the model takes as a parameter.
\<close>

record aes_platform =
  hwaes_capable :: bool
  vpaes_capable :: bool
  aes_hw_encrypt :: "bytes \<Rightarrow> aes_key \<Rightarrow> bytes"
  aes_hw_decrypt :: "bytes \<Rightarrow> aes_key \<Rightarrow> bytes"
  aes_hw_set_encrypt_key :: "bytes option \<Rightarrow> nat \<Rightarrow> aes_key option \<Rightarrow> int + aes_key"
  aes_hw_set_decrypt_key :: "bytes option \<Rightarrow> nat \<Rightarrow> aes_key option \<Rightarrow> int + aes_key"
  vpaes_encrypt :: "bytes \<Rightarrow> aes_key \<Rightarrow> bytes"
  vpaes_decrypt :: "bytes \<Rightarrow> aes_key \<Rightarrow> bytes"
  vpaes_set_encrypt_key :: "bytes option \<Rightarrow> nat \<Rightarrow> aes_key option \<Rightarrow> int + aes_key"
  vpaes_set_decrypt_key :: "bytes option \<Rightarrow> nat \<Rightarrow> aes_key option \<Rightarrow> int + aes_key"

definition AES_set_encrypt_key :: "aes_platform \<Rightarrow> bytes option \<Rightarrow> nat \<Rightarrow> aes_key option \<Rightarrow> int + aes_key" where
  "AES_set_encrypt_key pf key bits aeskey =
     (if bits \<noteq> 128 \<and> bits \<noteq> 192 \<and> bits \<noteq> 256 then Inl (-2)
      else if hwaes_capable pf then aes_hw_set_encrypt_key pf key bits aeskey
      else if vpaes_capable pf then vpaes_set_encrypt_key pf key bits aeskey
      else aes_nohw_set_encrypt_key key bits aeskey)"

section \<open>Decryption key schedule\<close>

text \<open>One iteration of the reversal: four swaps between the round keys at \<open>i\<close> and \<open>j\<close>.\<close>

definition swap_words :: "nat \<Rightarrow> nat \<Rightarrow> u32 list \<Rightarrow> u32 list" where
  "swap_words i j rk = rk[i := rk ! j, j := rk ! i]"

definition swap_round_keys :: "nat \<Rightarrow> nat \<Rightarrow> u32 list \<Rightarrow> u32 list" where
  "swap_round_keys i j rk =
     swap_words (i + 3) (j + 3) (swap_words (i + 2) (j + 2)
       (swap_words (i + 1) (j + 1) (swap_words i j rk)))"

function reverse_round_keys :: "nat \<Rightarrow> nat \<Rightarrow> u32 list \<Rightarrow> u32 list" where
  "reverse_round_keys i j rk =
     (if i < j
      then reverse_round_keys (i + 4) (j - 4) (swap_round_keys i j rk)
      else rk)"
  by pat_completeness auto
termination by (relation "measure (\<lambda>(i, j, rk). j - i)") auto

declare reverse_round_keys.simps [simp del]

text \<open>The inverse MixColumns transform of a round-key word, by four lookups through the S-box.\<close>

definition inv_mix_word :: "u32 \<Rightarrow> u32" where
  "inv_mix_word w =
     Td0 ! unat (Te1 ! unat (drop_bit 24 w) AND 0xff) XOR
     Td1 ! unat (Te1 ! unat (drop_bit 16 w AND 0xff) AND 0xff) XOR
     Td2 ! unat (Te1 ! unat (drop_bit 8 w AND 0xff) AND 0xff) XOR
     Td3 ! unat (Te1 ! unat (w AND 0xff) AND 0xff)"

function inv_mix_round_keys :: "nat \<Rightarrow> nat \<Rightarrow> u32 list \<Rightarrow> u32 list" where
  "inv_mix_round_keys i nr rk =
     (if i < nr
      then let p = 4 * i;
               rk = rk[p := inv_mix_word (rk ! p)];
               rk = rk[p + 1 := inv_mix_word (rk ! (p + 1))];
               rk = rk[p + 2 := inv_mix_word (rk ! (p + 2))];
               rk = rk[p + 3 := inv_mix_word (rk ! (p + 3))]
           in inv_mix_round_keys (Suc i) nr rk
      else rk)"
  by pat_completeness auto
termination by (relation "measure (\<lambda>(i, nr, rk). nr - i)") auto

declare inv_mix_round_keys.simps [simp del]

text \<open>The encryption schedule comes from the public, dispatching \<open>AES_set_encrypt_key\<close>.\<close>

definition aes_nohw_set_decrypt_key ::
    "aes_platform \<Rightarrow> bytes option \<Rightarrow> nat \<Rightarrow> aes_key option \<Rightarrow> int + aes_key" where
  "aes_nohw_set_decrypt_key pf key bits aeskey =
     (case AES_set_encrypt_key pf key bits aeskey of
        Inl status \<Rightarrow> Inl status
      | Inr ak \<Rightarrow>
          Inr (ak\<lparr>rd_key := inv_mix_round_keys 1 (unat (rounds ak))
                              (reverse_round_keys 0 (4 * unat (rounds ak)) (rd_key ak))\<rparr>))"

section \<open>Block encryption and decryption\<close>

type_synonym aes_state = "u32 \<times> u32 \<times> u32 \<times> u32"

definition load_state :: "bytes \<Rightarrow> u32 list \<Rightarrow> aes_state" where
  "load_state inp rk =
     (GETU32 inp XOR rk ! 0, GETU32 (drop 4 inp) XOR rk ! 1,
      GETU32 (drop 8 inp) XOR rk ! 2, GETU32 (drop 12 inp) XOR rk ! 3)"

text \<open>One output column of a full encryption round, from the four state words it reads.\<close>

definition enc_column :: "u32 \<Rightarrow> u32 \<Rightarrow> u32 \<Rightarrow> u32 \<Rightarrow> u32 \<Rightarrow> u32" where
  "enc_column a b c d k =
     Te0 ! unat (drop_bit 24 a) XOR Te1 ! unat (drop_bit 16 b AND 0xff) XOR
     Te2 ! unat (drop_bit 8 c AND 0xff) XOR Te3 ! unat (d AND 0xff) XOR k"

fun enc_round :: "aes_state \<Rightarrow> u32 \<Rightarrow> u32 \<Rightarrow> u32 \<Rightarrow> u32 \<Rightarrow> aes_state" where
  "enc_round (s0, s1, s2, s3) k0 k1 k2 k3 =
     (enc_column s0 s1 s2 s3 k0, enc_column s1 s2 s3 s0 k1,
      enc_column s2 s3 s0 s1 k2, enc_column s3 s0 s1 s2 k3)"

text \<open>
  The loop does two rounds per iteration and leaves after the first of them when \<open>--r\<close> is 0; the
  round-key pointer is the suffix \<open>rk\<close>.  The key setup makes \<open>r\<close> 5, 6 or 7; \<open>r = 0\<close> is not reached.
\<close>

fun enc_loop :: "nat \<Rightarrow> u32 list \<Rightarrow> aes_state \<Rightarrow> aes_state \<times> u32 list" where
  "enc_loop 0 rk s = (s, rk)"
| "enc_loop (Suc r) rk s =
     (let t = enc_round s (rk ! 4) (rk ! 5) (rk ! 6) (rk ! 7);
          rk = drop 8 rk
      in if r = 0 then (t, rk)
         else enc_loop r rk (enc_round t (rk ! 0) (rk ! 1) (rk ! 2) (rk ! 3)))"

definition enc_last_column :: "u32 \<Rightarrow> u32 \<Rightarrow> u32 \<Rightarrow> u32 \<Rightarrow> u32 \<Rightarrow> u32" where
  "enc_last_column a b c d k =
     (Te2 ! unat (drop_bit 24 a) AND 0xff000000) XOR (Te3 ! unat (drop_bit 16 b AND 0xff) AND 0x00ff0000) XOR
     (Te0 ! unat (drop_bit 8 c AND 0xff) AND 0x0000ff00) XOR (Te1 ! unat (d AND 0xff) AND 0x000000ff) XOR k"

definition aes_nohw_encrypt :: "bytes \<Rightarrow> aes_key \<Rightarrow> bytes" where
  "aes_nohw_encrypt inp key =
     (let rk = rd_key key;
          s = load_state inp rk;
          ((t0, t1, t2, t3), rk) = enc_loop (unat (drop_bit 1 (rounds key))) rk s
      in PUTU32 (enc_last_column t0 t1 t2 t3 (rk ! 0)) @ PUTU32 (enc_last_column t1 t2 t3 t0 (rk ! 1)) @
         PUTU32 (enc_last_column t2 t3 t0 t1 (rk ! 2)) @ PUTU32 (enc_last_column t3 t0 t1 t2 (rk ! 3)))"

definition dec_column :: "u32 \<Rightarrow> u32 \<Rightarrow> u32 \<Rightarrow> u32 \<Rightarrow> u32 \<Rightarrow> u32" where
  "dec_column a b c d k =
     Td0 ! unat (drop_bit 24 a) XOR Td1 ! unat (drop_bit 16 b AND 0xff) XOR
     Td2 ! unat (drop_bit 8 c AND 0xff) XOR Td3 ! unat (d AND 0xff) XOR k"

fun dec_round :: "aes_state \<Rightarrow> u32 \<Rightarrow> u32 \<Rightarrow> u32 \<Rightarrow> u32 \<Rightarrow> aes_state" where
  "dec_round (s0, s1, s2, s3) k0 k1 k2 k3 =
     (dec_column s0 s3 s2 s1 k0, dec_column s1 s0 s3 s2 k1,
      dec_column s2 s1 s0 s3 k2, dec_column s3 s2 s1 s0 k3)"

fun dec_loop :: "nat \<Rightarrow> u32 list \<Rightarrow> aes_state \<Rightarrow> aes_state \<times> u32 list" where
  "dec_loop 0 rk s = (s, rk)"
| "dec_loop (Suc r) rk s =
     (let t = dec_round s (rk ! 4) (rk ! 5) (rk ! 6) (rk ! 7);
          rk = drop 8 rk
      in if r = 0 then (t, rk)
         else dec_loop r rk (dec_round t (rk ! 0) (rk ! 1) (rk ! 2) (rk ! 3)))"

definition dec_last_column :: "u32 \<Rightarrow> u32 \<Rightarrow> u32 \<Rightarrow> u32 \<Rightarrow> u32 \<Rightarrow> u32" where
  "dec_last_column a b c d k =
     push_bit 24 (ucast (Td4 ! unat (drop_bit 24 a))) XOR
     push_bit 16 (ucast (Td4 ! unat (drop_bit 16 b AND 0xff))) XOR
     push_bit 8 (ucast (Td4 ! unat (drop_bit 8 c AND 0xff))) XOR
     ucast (Td4 ! unat (d AND 0xff)) XOR k"

definition aes_nohw_decrypt :: "bytes \<Rightarrow> aes_key \<Rightarrow> bytes" where
  "aes_nohw_decrypt inp key =
     (let rk = rd_key key;
          s = load_state inp rk;
          ((t0, t1, t2, t3), rk) = dec_loop (unat (drop_bit 1 (rounds key))) rk s
      in PUTU32 (dec_last_column t0 t3 t2 t1 (rk ! 0)) @ PUTU32 (dec_last_column t1 t0 t3 t2 (rk ! 1)) @
         PUTU32 (dec_last_column t2 t1 t0 t3 (rk ! 2)) @ PUTU32 (dec_last_column t3 t2 t1 t0 (rk ! 3)))"

section \<open>The public entry points\<close>

definition AES_encrypt :: "aes_platform \<Rightarrow> bytes \<Rightarrow> aes_key \<Rightarrow> bytes" where
  "AES_encrypt pf inp key =
     (if hwaes_capable pf then aes_hw_encrypt pf inp key
      else if vpaes_capable pf then vpaes_encrypt pf inp key
      else aes_nohw_encrypt inp key)"

definition AES_decrypt :: "aes_platform \<Rightarrow> bytes \<Rightarrow> aes_key \<Rightarrow> bytes" where
  "AES_decrypt pf inp key =
     (if hwaes_capable pf then aes_hw_decrypt pf inp key
      else if vpaes_capable pf then vpaes_decrypt pf inp key
      else aes_nohw_decrypt inp key)"

definition AES_set_decrypt_key :: "aes_platform \<Rightarrow> bytes option \<Rightarrow> nat \<Rightarrow> aes_key option \<Rightarrow> int + aes_key" where
  "AES_set_decrypt_key pf key bits aeskey =
     (if bits \<noteq> 128 \<and> bits \<noteq> 192 \<and> bits \<noteq> 256 then Inl (-2)
      else if hwaes_capable pf then aes_hw_set_decrypt_key pf key bits aeskey
      else if vpaes_capable pf then vpaes_set_decrypt_key pf key bits aeskey
      else aes_nohw_set_decrypt_key pf key bits aeskey)"



section \<open>The round functions in terms of the S-box and MixColumns\<close>

definition shift_sub :: "aes_state \<Rightarrow> aes_state" where
  "shift_sub = (\<lambda>(s0, s1, s2, s3).
     (pack (sbox (b3 s0)) (sbox (b2 s1)) (sbox (b1 s2)) (sbox (b0 s3)),
      pack (sbox (b3 s1)) (sbox (b2 s2)) (sbox (b1 s3)) (sbox (b0 s0)),
      pack (sbox (b3 s2)) (sbox (b2 s3)) (sbox (b1 s0)) (sbox (b0 s1)),
      pack (sbox (b3 s3)) (sbox (b2 s0)) (sbox (b1 s1)) (sbox (b0 s2))))"

definition inv_shift_sub :: "aes_state \<Rightarrow> aes_state" where
  "inv_shift_sub = (\<lambda>(s0, s1, s2, s3).
     (pack (isbox (b3 s0)) (isbox (b2 s3)) (isbox (b1 s2)) (isbox (b0 s1)),
      pack (isbox (b3 s1)) (isbox (b2 s0)) (isbox (b1 s3)) (isbox (b0 s2)),
      pack (isbox (b3 s2)) (isbox (b2 s1)) (isbox (b1 s0)) (isbox (b0 s3)),
      pack (isbox (b3 s3)) (isbox (b2 s2)) (isbox (b1 s1)) (isbox (b0 s0))))"

definition map_state :: "(u32 \<Rightarrow> u32) \<Rightarrow> aes_state \<Rightarrow> aes_state" where
  "map_state f = (\<lambda>(s0, s1, s2, s3). (f s0, f s1, f s2, f s3))"

definition xor_state :: "aes_state \<Rightarrow> aes_state \<Rightarrow> aes_state" where
  "xor_state = (\<lambda>(s0, s1, s2, s3) (k0, k1, k2, k3). (s0 XOR k0, s1 XOR k1, s2 XOR k2, s3 XOR k3))"

definition round_key :: "u32 list \<Rightarrow> nat \<Rightarrow> aes_state" where
  "round_key rk r = (rk ! (4 * r), rk ! (4 * r + 1), rk ! (4 * r + 2), rk ! (4 * r + 3))"

definition store_state :: "aes_state \<Rightarrow> bytes" where
  "store_state = (\<lambda>(s0, s1, s2, s3). PUTU32 s0 @ PUTU32 s1 @ PUTU32 s2 @ PUTU32 s3)"

lemma inv_shift_sub_shift_sub [simp]: "inv_shift_sub (shift_sub s) = s"
  by (cases s) (simp add: inv_shift_sub_def shift_sub_def)

lemma map_state_inverse [simp]: "map_state inv_mixcol (map_state mixcol s) = s"
  by (cases s) (simp add: map_state_def)

lemma map_state_xor [simp]:
  "map_state inv_mixcol (xor_state s k) = xor_state (map_state inv_mixcol s) (map_state inv_mixcol k)"
  by (cases s; cases k) (simp add: map_state_def xor_state_def)

lemma xor_state_cancel [simp]: "xor_state (xor_state s k) k = s"
  by (cases s; cases k) (simp add: xor_state_def xor.assoc)

lemma b0_drop_bit [simp]: "b0 (drop_bit 16 w) = b2 w" "b0 (drop_bit 8 w) = b1 w"
  by (simp_all add: b0_def b1_def b2_def)

lemma enc_column_mixcol:
  "enc_column a b c d k = mixcol (pack (sbox (b3 a)) (sbox (b2 b)) (sbox (b1 c)) (sbox (b0 d))) XOR k"
  by (simp add: enc_column_def unat_bytes Te_column [symmetric] xor.assoc)

lemma dec_column_inv_mixcol:
  "dec_column a b c d k = inv_mixcol (pack (isbox (b3 a)) (isbox (b2 b)) (isbox (b1 c)) (isbox (b0 d))) XOR k"
  by (simp add: dec_column_def unat_bytes Td_column [symmetric] xor.assoc)

lemma enc_round_spec:
  "enc_round s k0 k1 k2 k3 = xor_state (map_state mixcol (shift_sub s)) (k0, k1, k2, k3)"
  by (cases s) (simp add: enc_column_mixcol shift_sub_def map_state_def xor_state_def)

lemma dec_round_spec:
  "dec_round s k0 k1 k2 k3 = xor_state (map_state inv_mixcol (inv_shift_sub s)) (k0, k1, k2, k3)"
  by (cases s) (simp add: dec_column_inv_mixcol inv_shift_sub_def map_state_def xor_state_def)

lemma mask_bytes:
  "pack a b c d AND 0xff000000 = pack a 0 0 0" "pack a b c d AND 0x00ff0000 = pack 0 b 0 0"
  "pack a b c d AND 0x0000ff00 = pack 0 0 c 0" "pack a b c d AND 0x000000ff = pack 0 0 0 d"
proof -
  have m: "(0xff000000 :: u32) = push_bit 24 (mask 8)" "(0x00ff0000 :: u32) = push_bit 16 (mask 8)"
    "(0x0000ff00 :: u32) = push_bit 8 (mask 8)" "(0x000000ff :: u32) = mask 8"
    by (simp_all add: mask_eq_exp_minus_1)
  show "pack a b c d AND 0xff000000 = pack a 0 0 0" "pack a b c d AND 0x00ff0000 = pack 0 b 0 0"
    "pack a b c d AND 0x0000ff00 = pack 0 0 c 0" "pack a b c d AND 0x000000ff = pack 0 0 0 d"
    unfolding m
    by (rule bit_eqI, simp only: bit_and_iff bit_pack bit_push_bit_iff bit_mask_iff possible_bit_word,
        auto dest: bit_imp_le_length)+
qed

lemma enc_last_column_spec:
  "enc_last_column a b c d k = pack (sbox (b3 a)) (sbox (b2 b)) (sbox (b1 c)) (sbox (b0 d)) XOR k"
  by (simp add: enc_last_column_def unat_bytes Te_lookup mask_bytes xor_pack
      flip: xor.assoc)

lemma dec_last_column_spec:
  "dec_last_column a b c d k = pack (isbox (b3 a)) (isbox (b2 b)) (isbox (b1 c)) (isbox (b0 d)) XOR k"
proof -
  have p: "push_bit 24 (ucast x) = pack x 0 0 0" "push_bit 16 (ucast x) = pack 0 x 0 0"
    "push_bit 8 (ucast x) = pack 0 0 x 0" "ucast x = pack 0 0 0 x" for x :: u8
    by (simp_all add: pack_def)
  have "push_bit 24 (ucast w) XOR push_bit 16 (ucast x) XOR push_bit 8 (ucast y) XOR ucast z XOR k =
      pack w x y z XOR k" for w x y z :: u8
    unfolding p(1-3) unfolding p(4) by (simp add: xor_pack flip: xor.assoc)
  then show ?thesis
    by (simp add: dec_last_column_def unat_bytes Td_lookup)
qed

section \<open>The loops as iterated rounds\<close>

fun enc_state :: "u32 list \<Rightarrow> aes_state \<Rightarrow> nat \<Rightarrow> aes_state" where
  "enc_state rk s 0 = xor_state s (round_key rk 0)"
| "enc_state rk s (Suc r) =
     xor_state (map_state mixcol (shift_sub (enc_state rk s r))) (round_key rk (Suc r))"

fun dec_state :: "u32 list \<Rightarrow> aes_state \<Rightarrow> nat \<Rightarrow> aes_state" where
  "dec_state rk s 0 = xor_state s (round_key rk 0)"
| "dec_state rk s (Suc r) =
     xor_state (map_state inv_mixcol (inv_shift_sub (dec_state rk s r))) (round_key rk (Suc r))"

lemma enc_loop_spec:
  assumes "4 * (q + 2 * m + 2) \<le> length rk"
  shows "enc_loop (Suc m) (drop (4 * q) rk) (enc_state rk s q) =
           (enc_state rk s (q + 2 * m + 1), drop (4 * (q + 2 * m + 2)) rk)"
  using assms
proof (induction m arbitrary: q)
  case 0
  then show ?case
    by (simp add: enc_round_spec round_key_def algebra_simps)
next
  case (Suc m)
  have "enc_loop (Suc m) (drop (4 * (q + 2)) rk) (enc_state rk s (q + 2)) =
          (enc_state rk s (q + 2 + 2 * m + 1), drop (4 * (q + 2 + 2 * m + 2)) rk)"
    using Suc.prems by (intro Suc.IH) simp
  with Suc.prems show ?case
    by (simp add: enc_round_spec round_key_def algebra_simps)
qed

lemma dec_loop_spec:
  assumes "4 * (q + 2 * m + 2) \<le> length rk"
  shows "dec_loop (Suc m) (drop (4 * q) rk) (dec_state rk s q) =
           (dec_state rk s (q + 2 * m + 1), drop (4 * (q + 2 * m + 2)) rk)"
  using assms
proof (induction m arbitrary: q)
  case 0
  then show ?case
    by (simp add: dec_round_spec round_key_def algebra_simps)
next
  case (Suc m)
  have "dec_loop (Suc m) (drop (4 * (q + 2)) rk) (dec_state rk s (q + 2)) =
          (dec_state rk s (q + 2 + 2 * m + 1), drop (4 * (q + 2 + 2 * m + 2)) rk)"
    using Suc.prems by (intro Suc.IH) simp
  with Suc.prems show ?case
    by (simp add: dec_round_spec round_key_def algebra_simps)
qed

definition block_state :: "bytes \<Rightarrow> aes_state" where
  "block_state p = (GETU32 p, GETU32 (drop 4 p), GETU32 (drop 8 p), GETU32 (drop 12 p))"

lemma load_state_spec: "load_state p rk = xor_state (block_state p) (round_key rk 0)"
  by (simp add: load_state_def block_state_def round_key_def xor_state_def numeral_2_eq_2)

lemma block_state_store_state [simp]: "block_state (store_state s) = s"
  by (cases s) (simp add: block_state_def store_state_def GETU32_def PUTU32_def)

lemma length_store_state [simp]: "length (store_state s) = 16"
  by (cases s) (simp add: store_state_def PUTU32_def)

lemma store_state_block_state:
  assumes "length p = 16"
  shows "store_state (block_state p) = p"
proof -
  from assms have "p = map (\<lambda>i. p ! i) [0..<16]" by (metis map_nth)
  also have "\<dots> = store_state (block_state p)"
    using assms by (simp add: store_state_def block_state_def GETU32_def PUTU32_def upt_conv_Cons eval_nat_numeral)
  finally show ?thesis by simp
qed

text \<open>A schedule of \<open>nr\<close> rounds, \<open>nr\<close> even and positive, that fits its storage.\<close>

definition schedule_ok :: "aes_key \<Rightarrow> bool" where
  "schedule_ok k \<longleftrightarrow> unat (rounds k) \<in> {10, 12, 14} \<and> aes_key_storage k"

lemma schedule_half:
  assumes "schedule_ok k"
  obtains m where "unat (rounds k) = 2 * m + 2" "unat (drop_bit 1 (rounds k)) = Suc m"
    "4 * (2 * m + 2) + 4 \<le> length (rd_key k)"
proof -
  have d: "unat (drop_bit (Suc 0) (rounds k)) = unat (rounds k) div 2"
    by (simp add: drop_bit_eq_div unat_div_distrib)
  from assms have "unat (rounds k) \<in> {10, 12, 14}" "length (rd_key k) = 60"
    by (simp_all add: schedule_ok_def aes_key_storage_def)
  then show thesis
    by (intro that [of "unat (rounds k) div 2 - 1"]) (auto simp: d)
qed

lemma aes_nohw_encrypt_spec:
  assumes "schedule_ok k"
  shows "aes_nohw_encrypt p k =
    store_state (xor_state (shift_sub (enc_state (rd_key k) (block_state p) (unat (rounds k) - 1)))
      (round_key (rd_key k) (unat (rounds k))))"
proof -
  from assms obtain m where m: "unat (rounds k) = 2 * m + 2" "unat (drop_bit 1 (rounds k)) = Suc m"
    "4 * (2 * m + 2) + 4 \<le> length (rd_key k)" by (rule schedule_half)
  have loop: "enc_loop (Suc m) (rd_key k) (load_state p (rd_key k)) =
      (enc_state (rd_key k) (block_state p) (Suc (2 * m)), drop (4 * (2 * m + 2)) (rd_key k))"
    using enc_loop_spec [of 0 m "rd_key k" "block_state p"] m(3) by (simp add: load_state_spec)
  obtain t0 t1 t2 t3 where t: "enc_state (rd_key k) (block_state p) (Suc (2 * m)) = (t0, t1, t2, t3)"
    by (cases "enc_state (rd_key k) (block_state p) (Suc (2 * m))")
  show ?thesis
    using m by (simp only: aes_nohw_encrypt_def Let_def loop t)
      (simp add: t store_state_def xor_state_def shift_sub_def round_key_def
        enc_last_column_spec del: enc_state.simps)
qed

lemma aes_nohw_decrypt_spec:
  assumes "schedule_ok k"
  shows "aes_nohw_decrypt p k =
    store_state (xor_state (inv_shift_sub (dec_state (rd_key k) (block_state p) (unat (rounds k) - 1)))
      (round_key (rd_key k) (unat (rounds k))))"
proof -
  from assms obtain m where m: "unat (rounds k) = 2 * m + 2" "unat (drop_bit 1 (rounds k)) = Suc m"
    "4 * (2 * m + 2) + 4 \<le> length (rd_key k)" by (rule schedule_half)
  have loop: "dec_loop (Suc m) (rd_key k) (load_state p (rd_key k)) =
      (dec_state (rd_key k) (block_state p) (Suc (2 * m)), drop (4 * (2 * m + 2)) (rd_key k))"
    using dec_loop_spec [of 0 m "rd_key k" "block_state p"] m(3) by (simp add: load_state_spec)
  obtain t0 t1 t2 t3 where t: "dec_state (rd_key k) (block_state p) (Suc (2 * m)) = (t0, t1, t2, t3)"
    by (cases "dec_state (rd_key k) (block_state p) (Suc (2 * m))")
  show ?thesis
    using m by (simp only: aes_nohw_decrypt_def Let_def loop t)
      (simp add: t store_state_def xor_state_def inv_shift_sub_def round_key_def
        dec_last_column_spec del: dec_state.simps)
qed

section \<open>The two key schedules of one key\<close>

lemmas group_defs = expand128_group_def expand192_head_def expand192_tail_def
  expand256_head_def expand256_tail_def

lemma length_expand128 [simp]: "length (expand128 i p rk) = length rk"
proof (induction i p rk rule: expand128.induct)
  case (1 i p rk)
  then show ?case by (subst expand128.simps) (simp add: group_defs Let_def)
qed

lemma length_expand192 [simp]: "length (expand192 i p rk) = length rk"
proof (induction i p rk rule: expand192.induct)
  case (1 i p rk)
  then show ?case by (subst expand192.simps) (simp add: group_defs Let_def)
qed

lemma length_expand256 [simp]: "length (expand256 i p rk) = length rk"
proof (induction i p rk rule: expand256.induct)
  case (1 i p rk)
  then show ?case by (subst expand256.simps) (simp add: group_defs Let_def)
qed

lemma set_encrypt_key_schedule:
  assumes "aes_nohw_set_encrypt_key (Some k) bits (Some ak) = Inr ek" and "aes_key_storage ak"
  shows "schedule_ok ek"
  using assms
  by (auto simp: aes_nohw_set_encrypt_key_def schedule_ok_def aes_key_storage_def Let_def split: if_splits)

lemma length_swap_round_keys [simp]: "length (swap_round_keys i j rk) = length rk"
  by (simp add: swap_round_keys_def swap_words_def)

lemma round_key_swap:
  assumes "a < b" and "4 * b + 4 \<le> length rk"
  shows "round_key (swap_round_keys (4 * a) (4 * b) rk) r =
    round_key rk (if r = a then b else if r = b then a else r)"
proof -
  have neq: "4 * x + c \<noteq> 4 * y + d" if "c \<noteq> d" "c < 4" "d < 4" for x y c d :: nat
    using that by presburger
  consider "r = a" | "r = b" | "r \<noteq> a" "r \<noteq> b" by blast
  then show ?thesis
    using assms by cases
     (simp_all add: round_key_def swap_round_keys_def swap_words_def nth_list_update neq [where c = 0, simplified]
       neq [where d = 0, simplified] neq)
qed

lemma round_key_reverse:
  assumes "4 * b + 4 \<le> length rk"
  shows "round_key (reverse_round_keys (4 * a) (4 * b) rk) r =
    round_key rk (if a \<le> r \<and> r \<le> b then a + b - r else r)"
  using assms
proof (induction "b - a" arbitrary: a b rk rule: less_induct)
  case less
  show ?case
  proof (cases "a < b")
    case True
    let ?rk = "swap_round_keys (4 * a) (4 * b) rk"
    have "round_key (reverse_round_keys (4 * Suc a) (4 * (b - 1)) ?rk) r =
        round_key ?rk (if Suc a \<le> r \<and> r \<le> b - 1 then Suc a + (b - 1) - r else r)"
      using True less.prems by (intro less.hyps) auto
    moreover have "reverse_round_keys (4 * a) (4 * b) rk = reverse_round_keys (4 * Suc a) (4 * (b - 1)) ?rk"
      using True by (subst reverse_round_keys.simps) (simp add: diff_mult_distrib2 add.commute [of "4 * a" 4])
    ultimately show ?thesis
      using True less.prems by (auto simp: round_key_swap)
  next
    case False
    then have "a + b - r = r" if "a \<le> r" "r \<le> b" using that by simp
    with False show ?thesis by (subst reverse_round_keys.simps) auto
  qed
qed

lemma length_reverse_round_keys [simp]: "length (reverse_round_keys i j rk) = length rk"
  by (induction i j rk rule: reverse_round_keys.induct) (subst reverse_round_keys.simps, simp)

lemma length_inv_mix_round_keys [simp]: "length (inv_mix_round_keys i nr rk) = length rk"
  by (induction i nr rk rule: inv_mix_round_keys.induct) (subst inv_mix_round_keys.simps, simp add: Let_def)

lemma inv_mix_word_spec: "inv_mix_word w = inv_mixcol w"
proof -
  have t: "b0 (Te1 ! unat (x :: u8)) = sbox x" for x
    by (simp add: Te_lookup)
  obtain a b c d where w: "w = pack a b c d" by (rule pack_cases)
  show ?thesis
    by (simp add: inv_mix_word_def unat_bytes t w Td_column)
qed

lemma round_key_inv_mix:
  assumes "4 * nr \<le> length rk"
  shows "round_key (inv_mix_round_keys i nr rk) r =
    (if i \<le> r \<and> r < nr then map_state inv_mixcol (round_key rk r) else round_key rk r)"
  using assms
proof (induction i nr rk rule: inv_mix_round_keys.induct)
  case (1 i nr rk)
  show ?case
  proof (cases "i < nr")
    case True
    let ?rk = "rk[4 * i := inv_mixcol (rk ! (4 * i)), 4 * i + 1 := inv_mixcol (rk ! (4 * i + 1)),
      4 * i + 2 := inv_mixcol (rk ! (4 * i + 2)), 4 * i + 3 := inv_mixcol (rk ! (4 * i + 3))]"
    have eq: "inv_mix_round_keys i nr rk = inv_mix_round_keys (Suc i) nr ?rk"
      using True by (subst inv_mix_round_keys.simps) (simp add: Let_def inv_mix_word_spec)
    have "round_key (inv_mix_round_keys (Suc i) nr ?rk) r =
        (if Suc i \<le> r \<and> r < nr then map_state inv_mixcol (round_key ?rk r) else round_key ?rk r)"
      using "1.IH" True "1.prems" by (simp add: Let_def inv_mix_word_spec)
    moreover have "round_key ?rk r = (if r = i then map_state inv_mixcol (round_key rk i) else round_key rk r)"
    proof (cases "r = i")
      case True
      with \<open>i < nr\<close> "1.prems" show ?thesis by (simp add: round_key_def map_state_def)
    next
      case False
      have neq: "4 * x + c \<noteq> 4 * y + d" if "c \<noteq> d" "c < 4" "d < 4" for x y c d :: nat
        using that by presburger
      from False show ?thesis
        by (simp add: round_key_def nth_list_update neq [where c = 0, simplified] neq [where d = 0, simplified] neq)
    qed
    ultimately show ?thesis using True eq by auto
  next
    case False
    then show ?thesis by (subst inv_mix_round_keys.simps) auto
  qed
qed

text \<open>
  \<open>inverse_schedule ek dk\<close>: the round keys of \<open>dk\<close> are those of \<open>ek\<close> in reverse order, with inverse
  MixColumns applied to all but the first and the last.
\<close>

definition inverse_schedule :: "aes_key \<Rightarrow> aes_key \<Rightarrow> bool" where
  "inverse_schedule ek dk \<longleftrightarrow> rounds dk = rounds ek \<and>
     (\<forall>r \<le> unat (rounds ek). round_key (rd_key dk) r =
        (if r = 0 \<or> r = unat (rounds ek) then id else map_state inv_mixcol)
          (round_key (rd_key ek) (unat (rounds ek) - r)))"

definition portable :: "aes_platform \<Rightarrow> bool" where
  "portable pf \<longleftrightarrow> \<not> hwaes_capable pf \<and> \<not> vpaes_capable pf"

lemma portable_aes [simp]:
  assumes "portable pf"
  shows "AES_encrypt pf = aes_nohw_encrypt" and "AES_decrypt pf = aes_nohw_decrypt"
    and "AES_set_encrypt_key pf k bits ak = (if bits \<in> {128, 192, 256} then aes_nohw_set_encrypt_key k bits ak else Inl (-2))"
    and "AES_set_decrypt_key pf k bits ak = (if bits \<in> {128, 192, 256} then aes_nohw_set_decrypt_key pf k bits ak else Inl (-2))"
  using assms
  by (auto simp: portable_def AES_encrypt_def AES_decrypt_def AES_set_encrypt_key_def
      AES_set_decrypt_key_def fun_eq_iff)

text \<open>
  The storage that a key setup starts from does not show in the round keys it makes: two keys
  agree on the words of their schedule.
\<close>

definition agree :: "nat \<Rightarrow> u32 list \<Rightarrow> u32 list \<Rightarrow> bool" where
  "agree m xs ys \<longleftrightarrow> length xs = 60 \<and> length ys = 60 \<and> (\<forall>j<m. xs ! j = ys ! j)"

lemma agree_nth: "agree m xs ys \<Longrightarrow> j < m \<Longrightarrow> xs ! j = ys ! j"
  by (simp add: agree_def)

lemma agree_update:
  "agree m xs ys \<Longrightarrow> m < 60 \<Longrightarrow> v = w \<Longrightarrow> n = Suc m \<Longrightarrow> agree n (xs[m := v]) (ys[m := w])"
  by (auto simp: agree_def nth_list_update less_Suc_eq)

lemma agree_length: "agree m xs ys \<Longrightarrow> length xs = 60 \<and> length ys = 60"
  by (simp add: agree_def)

lemma agree_groups:
  "agree (p + 4) xs ys \<Longrightarrow> p \<le> 52 \<Longrightarrow> agree (p + 8) (expand128_group i p xs) (expand128_group i p ys)"
  "agree (p + 6) xs ys \<Longrightarrow> p \<le> 50 \<Longrightarrow> agree (p + 10) (expand192_head i p xs) (expand192_head i p ys)"
  "agree (p + 10) xs ys \<Longrightarrow> p \<le> 48 \<Longrightarrow> agree (p + 12) (expand192_tail p xs) (expand192_tail p ys)"
  "agree (p + 8) xs ys \<Longrightarrow> p \<le> 48 \<Longrightarrow> agree (p + 12) (expand256_head i p xs) (expand256_head i p ys)"
  "agree (p + 12) xs ys \<Longrightarrow> p \<le> 44 \<Longrightarrow> agree (p + 16) (expand256_tail p xs) (expand256_tail p ys)"
  unfolding group_defs Let_def
  by (frule agree_length, intro agree_update; simp add: agree_nth)+

lemma agree_expand128:
  "agree (p + 4) xs ys \<Longrightarrow> i < 10 \<Longrightarrow> p = 4 * i \<Longrightarrow> agree 44 (expand128 i p xs) (expand128 i p ys)"
proof (induction i p xs arbitrary: ys rule: expand128.induct)
  case (1 i p xs)
  have h: "agree (p + 8) (expand128_group i p xs) (expand128_group i p ys)"
    using "1.prems" by (intro agree_groups) auto
  show ?case
  proof (cases "10 \<le> Suc i")
    case True
    with "1.prems" have "i = 9" by simp
    with h "1.prems" show ?thesis by (simp add: expand128.simps [of 9])
  next
    case False
    then show ?thesis
      using "1.IH" [OF refl False, of "expand128_group i p ys"] h "1.prems"
      by (simp add: expand128.simps [of i] add.assoc)
  qed
qed

lemma agree_expand192:
  "agree (p + 6) xs ys \<Longrightarrow> i < 8 \<Longrightarrow> p = 6 * i \<Longrightarrow> agree 52 (expand192 i p xs) (expand192 i p ys)"
proof (induction i p xs arbitrary: ys rule: expand192.induct)
  case (1 i p xs)
  have h: "agree (p + 10) (expand192_head i p xs) (expand192_head i p ys)"
    using "1.prems" by (intro agree_groups) auto
  show ?case
  proof (cases "8 \<le> Suc i")
    case True
    with "1.prems" have "i = 7" by simp
    with h "1.prems" show ?thesis by (simp add: expand192.simps [of 7])
  next
    case False
    with h "1.prems" have "agree (p + 12) (expand192_tail p (expand192_head i p xs))
        (expand192_tail p (expand192_head i p ys))"
      by (intro agree_groups) auto
    then have "agree (p + 6 + 6) (expand192_tail p (expand192_head i p xs))
        (expand192_tail p (expand192_head i p ys))"
      by (simp add: add.assoc)
    then show ?thesis
      using "1.IH" [OF refl False, of "expand192_tail p (expand192_head i p ys)"] False "1.prems"
      by (simp add: expand192.simps [of i])
  qed
qed

lemma agree_expand256:
  "agree (p + 8) xs ys \<Longrightarrow> i < 7 \<Longrightarrow> p = 8 * i \<Longrightarrow> agree 60 (expand256 i p xs) (expand256 i p ys)"
proof (induction i p xs arbitrary: ys rule: expand256.induct)
  case (1 i p xs)
  have h: "agree (p + 12) (expand256_head i p xs) (expand256_head i p ys)"
    using "1.prems" by (intro agree_groups) auto
  show ?case
  proof (cases "7 \<le> Suc i")
    case True
    with "1.prems" have "i = 6" by simp
    with h "1.prems" show ?thesis by (simp add: expand256.simps [of 6])
  next
    case False
    with h "1.prems" have "agree (p + 16) (expand256_tail p (expand256_head i p xs))
        (expand256_tail p (expand256_head i p ys))"
      by (intro agree_groups) auto
    then have "agree (p + 8 + 8) (expand256_tail p (expand256_head i p xs))
        (expand256_tail p (expand256_head i p ys))"
      by (simp add: add.assoc)
    then show ?thesis
      using "1.IH" [OF refl False, of "expand256_tail p (expand256_head i p ys)"] False "1.prems"
      by (simp add: expand256.simps [of i])
  qed
qed

lemma agree_0: "length xs = 60 \<Longrightarrow> length ys = 60 \<Longrightarrow> agree 0 xs ys"
  by (simp add: agree_def)

lemma set_encrypt_key_agree:
  assumes "aes_nohw_set_encrypt_key (Some k) bits (Some ak) = Inr ek"
    and "aes_nohw_set_encrypt_key (Some k) bits (Some ak') = Inr ek'"
    and "aes_key_storage ak" and "aes_key_storage ak'"
  shows "rounds ek' = rounds ek \<and> agree (4 * unat (rounds ek) + 4) (rd_key ek) (rd_key ek')"
proof -
  let ?ld4 = "\<lambda>rk. rk[0 := GETU32 k, 1 := GETU32 (drop 4 k), 2 := GETU32 (drop 8 k), 3 := GETU32 (drop 12 k)]"
  let ?ld6 = "\<lambda>rk. (?ld4 rk)[4 := GETU32 (drop 16 k), 5 := GETU32 (drop 20 k)]"
  let ?ld8 = "\<lambda>rk. (?ld6 rk)[6 := GETU32 (drop 24 k), 7 := GETU32 (drop 28 k)]"
  have a0: "agree 0 (rd_key ak) (rd_key ak')"
    using assms(3,4) by (simp add: agree_0 aes_key_storage_def)
  have a4: "agree 4 (?ld4 (rd_key ak)) (?ld4 (rd_key ak'))"
    by (intro agree_update a0) simp_all
  have a6: "agree 6 (?ld6 (rd_key ak)) (?ld6 (rd_key ak'))"
    by (intro agree_update a4) simp_all
  have a8: "agree 8 (?ld8 (rd_key ak)) (?ld8 (rd_key ak'))"
    by (intro agree_update a6) simp_all
  consider "bits = 128" | "bits = 192" | "bits = 256"
    using assms(1) by (auto simp: aes_nohw_set_encrypt_key_def split: if_splits)
  then show ?thesis
  proof cases
    case 1
    then show ?thesis
      using assms(1,2) agree_expand128 [of 0 _ _ 0] a4
      by (auto simp: aes_nohw_set_encrypt_key_def Let_def)
  next
    case 2
    then show ?thesis
      using assms(1,2) agree_expand192 [of 0 _ _ 0] a6
      by (auto simp: aes_nohw_set_encrypt_key_def Let_def)
  next
    case 3
    then show ?thesis
      using assms(1,2) agree_expand256 [of 0 _ _ 0] a8
      by (auto simp: aes_nohw_set_encrypt_key_def Let_def)
  qed
qed

lemma agree_round_key: "agree m xs ys \<Longrightarrow> 4 * r + 4 \<le> m \<Longrightarrow> round_key xs r = round_key ys r"
  by (simp add: round_key_def agree_nth)

lemma set_keys_inverse_schedule:
  assumes pf: "portable pf"
    and e: "AES_set_encrypt_key pf (Some k) bits (Some ak) = Inr ek"
    and d: "AES_set_decrypt_key pf (Some k) bits (Some ak') = Inr dk"
    and s: "aes_key_storage ak" "aes_key_storage ak'"
  shows "schedule_ok ek \<and> schedule_ok dk \<and> inverse_schedule ek dk"
proof -
  have bits: "bits \<in> {128, 192, 256}" using pf e by (auto split: if_splits)
  then obtain ek' where e': "aes_nohw_set_encrypt_key (Some k) bits (Some ak') = Inr ek'"
    by (auto simp: aes_nohw_set_encrypt_key_def Let_def)
  have en: "aes_nohw_set_encrypt_key (Some k) bits (Some ak) = Inr ek"
    using pf e bits by simp
  have ek: "schedule_ok ek" "schedule_ok ek'"
    using en e' s by (auto intro: set_encrypt_key_schedule)
  have ag: "rounds ek' = rounds ek" "agree (4 * unat (rounds ek) + 4) (rd_key ek) (rd_key ek')"
    using set_encrypt_key_agree [OF en e' s] by simp_all
  let ?n = "unat (rounds ek)"
  have n: "0 < ?n" "4 * ?n + 4 \<le> length (rd_key ek')"
    using ek by (auto simp: schedule_ok_def aes_key_storage_def)
  have dk: "dk = ek'\<lparr>rd_key := inv_mix_round_keys 1 ?n (reverse_round_keys 0 (4 * ?n) (rd_key ek'))\<rparr>"
    using d pf bits e' ag by (simp add: aes_nohw_set_decrypt_key_def)
  have rev: "round_key (reverse_round_keys 0 (4 * ?n) (rd_key ek')) r = round_key (rd_key ek) (?n - r)"
    if "r \<le> ?n" for r
    using round_key_reverse [of ?n "rd_key ek'" 0 r] that n
    by (simp add: agree_round_key [OF ag(2)])
  have "round_key (rd_key dk) r =
      (if 1 \<le> r \<and> r < ?n then map_state inv_mixcol else id) (round_key (rd_key ek) (?n - r))"
    if "r \<le> ?n" for r
    using round_key_inv_mix [of ?n "reverse_round_keys 0 (4 * ?n) (rd_key ek')" 1 r] that n
    by (auto simp: dk rev)
  with ek ag show ?thesis
    by (auto simp: inverse_schedule_def schedule_ok_def aes_key_storage_def dk)
qed

section \<open>Decryption inverts encryption\<close>

lemma dec_state_enc_state:
  assumes "inverse_schedule ek dk" and "unat (rounds ek) = Suc n" and "r \<le> n"
  shows "dec_state (rd_key dk)
      (xor_state (shift_sub (enc_state (rd_key ek) s n)) (round_key (rd_key ek) (Suc n))) r =
    shift_sub (enc_state (rd_key ek) s (n - r))"
  using assms(3)
proof (induction r)
  case 0
  from assms show ?case by (simp add: inverse_schedule_def)
next
  case (Suc r)
  then obtain m where m: "n - r = Suc m" "n - Suc r = m" by (metis Suc_diff_Suc Suc_le_lessD)
  have "round_key (rd_key dk) (Suc r) = map_state inv_mixcol (round_key (rd_key ek) (Suc m))"
    using assms(1,2) Suc.prems m by (simp add: inverse_schedule_def)
  with Suc m show ?case by simp
qed

lemma aes_nohw_decrypt_encrypt:
  assumes "inverse_schedule ek dk" and "schedule_ok ek" and "schedule_ok dk" and "length p = 16"
  shows "aes_nohw_decrypt (aes_nohw_encrypt p ek) dk = p"
proof -
  from assms(2) obtain n where n: "unat (rounds ek) = Suc n"
    by (auto simp: schedule_ok_def)
  have nd: "unat (rounds dk) = Suc n" and k0: "round_key (rd_key dk) (Suc n) = round_key (rd_key ek) 0"
    using assms(1) n by (simp_all add: inverse_schedule_def)
  show ?thesis
    using dec_state_enc_state [OF assms(1) n order_refl, of "block_state p"]
    by (simp add: aes_nohw_encrypt_spec aes_nohw_decrypt_spec assms n nd k0 store_state_block_state)
qed

section \<open>The block cipher interface\<close>

text \<open>The pairs of keys that the two key setups make from the same key bytes and storage.\<close>

definition aes_key_pair :: "aes_key \<Rightarrow> aes_key \<Rightarrow> bool" where
  "aes_key_pair ek dk \<longleftrightarrow> schedule_ok ek \<and> schedule_ok dk \<and> inverse_schedule ek dk"

lemma length_aes_nohw [simp]:
  "length (aes_nohw_encrypt p k) = 16" "length (aes_nohw_decrypt p k) = 16"
  by (simp_all add: aes_nohw_encrypt_def aes_nohw_decrypt_def PUTU32_def Let_def split: prod.split)

interpretation aes: block_cipher aes_nohw_encrypt aes_nohw_decrypt aes_key_pair
  by unfold_locales (simp_all add: aes_key_pair_def aes_nohw_decrypt_encrypt)

lemma set_key_bits:
  "bits \<in> {128, 192, 256} \<Longrightarrow> \<exists>ek. aes_nohw_set_encrypt_key (Some k) bits (Some ak) = Inr ek"
  "bits \<in> {128, 192, 256} \<Longrightarrow> portable pf \<Longrightarrow>
     \<exists>dk. aes_nohw_set_decrypt_key pf (Some k) bits (Some ak) = Inr dk"
  by (auto simp: aes_nohw_set_encrypt_key_def aes_nohw_set_decrypt_key_def Let_def)

text \<open>A key is set up, and what its structure held before does not matter.\<close>

lemma key_exists:
  assumes "portable pf"
  shows "\<exists>ek. AES_set_encrypt_key pf (Some k) 256 (Some ak) = Inr ek"
  using set_key_bits(1) [of 256 k ak] assms by (simp add: AES_set_encrypt_key_def portable_def)

lemma same_key:
  assumes "portable pf" "AES_set_encrypt_key pf (Some k) 256 (Some ak) = Inr ek" "AES_set_encrypt_key pf (Some k) 256 (Some ak') = Inr ek'"
    and "aes_key_storage ak" "aes_key_storage ak'"
  shows "ek' = ek"
proof -
  have n: "aes_nohw_set_encrypt_key (Some k) 256 (Some ak) = Inr ek" "aes_nohw_set_encrypt_key (Some k) 256 (Some ak') = Inr ek'"
    using assms(1-3) by (simp_all add: AES_set_encrypt_key_def portable_def)
  from n(1) have "rounds ek = 14" by (auto simp: aes_nohw_set_encrypt_key_def Let_def)
  with set_encrypt_key_agree [OF n assms(4,5)] have "rounds ek' = rounds ek" "agree 60 (rd_key ek) (rd_key ek')" by simp_all
  then have "rd_key ek' = rd_key ek" by (intro nth_equalityI) (simp_all add: agree_def)
  then show ?thesis using \<open>rounds ek' = rounds ek\<close> by (cases ek; cases ek') simp
qed

text \<open>A portable platform and an unset key, the concrete arguments of the witnesses.\<close>

definition portable_platform :: aes_platform where
  "portable_platform =
     \<lparr>hwaes_capable = False, vpaes_capable = False,
      aes_hw_encrypt = (\<lambda>p k. p), aes_hw_decrypt = (\<lambda>p k. p),
      aes_hw_set_encrypt_key = (\<lambda>k bits ak. Inl (-1)), aes_hw_set_decrypt_key = (\<lambda>k bits ak. Inl (-1)),
      vpaes_encrypt = (\<lambda>p k. p), vpaes_decrypt = (\<lambda>p k. p),
      vpaes_set_encrypt_key = (\<lambda>k bits ak. Inl (-1)), vpaes_set_decrypt_key = (\<lambda>k bits ak. Inl (-1))\<rparr>"

lemma portable_platform [simp]: "portable portable_platform"
  by (simp add: portable_def portable_platform_def)

definition blank_aes_key :: aes_key where
  "blank_aes_key = \<lparr>rd_key = replicate 60 0, rounds = 0\<rparr>"

lemma blank_aes_key [simp]: "aes_key_storage blank_aes_key"
  by (simp add: aes_key_storage_def blank_aes_key_def)

section \<open>The key expansion of the standard\<close>

text \<open>
  FIPS 197, section 5.2: the words of the schedule as a recurrence over the \<open>nk\<close> words of the key, with the S-box and the
  round constants as powers of 2 in the field.
\<close>

definition SubWord :: "u32 \<Rightarrow> u32" where
  "SubWord w = pack (sbox (b3 w)) (sbox (b2 w)) (sbox (b1 w)) (sbox (b0 w))"

definition RotWord :: "u32 \<Rightarrow> u32" where
  "RotWord w = pack (b2 w) (b1 w) (b0 w) (b3 w)"

definition Rcon :: "nat \<Rightarrow> u32" where
  "Rcon i = pack ((mul2 ^^ (i - 1)) 1) 0 0 0"

function schedule_word :: "nat \<Rightarrow> bytes \<Rightarrow> nat \<Rightarrow> u32" where
  "schedule_word nk k j =
     (if nk = 0 \<or> j < nk then GETU32 (drop (4 * j) k)
      else let temp = schedule_word nk k (j - 1)
           in schedule_word nk k (j - nk) XOR
                (if j mod nk = 0 then SubWord (RotWord temp) XOR Rcon (j div nk)
                 else if 6 < nk \<and> j mod nk = 4 then SubWord temp
                 else temp))"
  by pat_completeness auto
termination by (relation "measure (\<lambda>(nk, k, j). j)") auto

declare schedule_word.simps [simp del]

lemma sub_words: "sub_rot_word w = SubWord (RotWord w)" "sub_word w = SubWord w"
  by (simp_all add: sub_rot_word_def sub_word_def SubWord_def RotWord_def unat_bytes Te_lookup mask_bytes xor_pack)

lemma mul2_powers:
  "mul2 1 = 2" "mul2 2 = 4" "mul2 4 = 8" "mul2 8 = 16" "mul2 16 = 32" "mul2 32 = 64" "mul2 64 = 128" "mul2 128 = 0x1b" "mul2 0x1b = 0x36"
  by (simp_all add: mul2_def)

lemma mul2_power:
  "(mul2 ^^ 2) 1 = 4" "(mul2 ^^ 3) 1 = 8" "(mul2 ^^ 4) 1 = 16" "(mul2 ^^ 5) 1 = 32" "(mul2 ^^ 6) 1 = 64" "(mul2 ^^ 7) 1 = 128" "(mul2 ^^ 8) 1 = 0x1b" "(mul2 ^^ 9) 1 = 0x36"
  by (simp_all only: eval_nat_numeral BitM.simps funpow.simps o_apply id_apply mul2_powers)

lemma rcon_powers: "i < 10 \<Longrightarrow> rcon ! i = Rcon (Suc i)"
proof -
  assume "i < 10"
  then have "i \<in> set [0..<10]" by simp
  then have "i = 0 \<or> i = 1 \<or> i = 2 \<or> i = 3 \<or> i = 4 \<or> i = 5 \<or> i = 6 \<or> i = 7 \<or> i = 8 \<or> i = 9"
    by (simp add: upt_conv_Cons eval_nat_numeral)
  then show ?thesis
    by (elim disjE) (simp_all add: rcon_def Rcon_def pack_def mul2_power mul2_powers(1))
qed

text \<open>A schedule of which the first \<open>m\<close> words have been written; the rest of the memory is as it was.\<close>

definition scheduled :: "(nat \<Rightarrow> u32) \<Rightarrow> nat \<Rightarrow> u32 list \<Rightarrow> u32 list" where
  "scheduled W m rk = map W [0..<m] @ drop m rk"

lemma scheduled_nth: "j < m \<Longrightarrow> scheduled W m rk ! j = W j"
  by (simp add: scheduled_def nth_append)

lemma scheduled_put: "m < length rk \<Longrightarrow> x = W m \<Longrightarrow> n = Suc m \<Longrightarrow> (scheduled W m rk)[m := x] = scheduled W n rk"
  by (simp add: scheduled_def list_update_append Cons_nth_drop_Suc [symmetric])

lemma scheduled_4:
  assumes len: "p + 8 \<le> length rk"
    and W: "W (p + 4) = W p XOR sub_rot_word (W (p + 3)) XOR rcon ! i" "W (p + 5) = W (p + 1) XOR W (p + 4)"
    "W (p + 6) = W (p + 2) XOR W (p + 5)" "W (p + 7) = W (p + 3) XOR W (p + 6)"
  shows "expand128_group i p (scheduled W (p + 4) rk) = scheduled W (p + 8) rk"
proof -
  have s: "(scheduled W (p + 4) rk)[p + 4 := W (p + 4)] = scheduled W (p + 5) rk"
    "(scheduled W (p + 5) rk)[p + 5 := W (p + 5)] = scheduled W (p + 6) rk"
    "(scheduled W (p + 6) rk)[p + 6 := W (p + 6)] = scheduled W (p + 7) rk"
    "(scheduled W (p + 7) rk)[p + 7 := W (p + 7)] = scheduled W (p + 8) rk"
    by (rule scheduled_put; use len in simp)+
  have n: "scheduled W (p + 4) rk ! p = W p" "scheduled W (p + 4) rk ! (p + 3) = W (p + 3)"
    "scheduled W (p + 5) rk ! (p + 1) = W (p + 1)" "scheduled W (p + 5) rk ! (p + 4) = W (p + 4)"
    "scheduled W (p + 6) rk ! (p + 2) = W (p + 2)" "scheduled W (p + 6) rk ! (p + 5) = W (p + 5)"
    "scheduled W (p + 7) rk ! (p + 3) = W (p + 3)" "scheduled W (p + 7) rk ! (p + 6) = W (p + 6)"
    by (rule scheduled_nth; simp)+
  show ?thesis unfolding expand128_group_def Let_def by (simp only: n s W [symmetric])
qed

lemma scheduled_6:
  assumes len: "p + 10 \<le> length rk"
    and W: "W (p + 6) = W p XOR sub_rot_word (W (p + 5)) XOR rcon ! i" "W (p + 7) = W (p + 1) XOR W (p + 6)" "W (p + 8) = W (p + 2) XOR W (p + 7)" "W (p + 9) = W (p + 3) XOR W (p + 8)"
  shows "expand192_head i p (scheduled W (p + 6) rk) = scheduled W (p + 10) rk"
proof -
  have s: "(scheduled W (p + 6) rk)[p + 6 := W (p + 6)] = scheduled W (p + 7) rk"
    "(scheduled W (p + 7) rk)[p + 7 := W (p + 7)] = scheduled W (p + 8) rk"
    "(scheduled W (p + 8) rk)[p + 8 := W (p + 8)] = scheduled W (p + 9) rk"
    "(scheduled W (p + 9) rk)[p + 9 := W (p + 9)] = scheduled W (p + 10) rk"
    by (rule scheduled_put; use len in simp)+
  have n: "scheduled W (p + 6) rk ! p = W p"
    "scheduled W (p + 6) rk ! (p + 5) = W (p + 5)"
    "scheduled W (p + 7) rk ! (p + 1) = W (p + 1)"
    "scheduled W (p + 7) rk ! (p + 6) = W (p + 6)"
    "scheduled W (p + 8) rk ! (p + 2) = W (p + 2)"
    "scheduled W (p + 8) rk ! (p + 7) = W (p + 7)"
    "scheduled W (p + 9) rk ! (p + 3) = W (p + 3)"
    "scheduled W (p + 9) rk ! (p + 8) = W (p + 8)"
    by (rule scheduled_nth; simp)+
  show ?thesis unfolding expand192_head_def Let_def by (simp only: n s W [symmetric])
qed

lemma scheduled_10:
  assumes len: "p + 12 \<le> length rk"
    and W: "W (p + 10) = W (p + 4) XOR W (p + 9)" "W (p + 11) = W (p + 5) XOR W (p + 10)"
  shows "expand192_tail p (scheduled W (p + 10) rk) = scheduled W (p + 12) rk"
proof -
  have s: "(scheduled W (p + 10) rk)[p + 10 := W (p + 10)] = scheduled W (p + 11) rk"
    "(scheduled W (p + 11) rk)[p + 11 := W (p + 11)] = scheduled W (p + 12) rk"
    by (rule scheduled_put; use len in simp)+
  have n: "scheduled W (p + 10) rk ! (p + 4) = W (p + 4)"
    "scheduled W (p + 10) rk ! (p + 9) = W (p + 9)"
    "scheduled W (p + 11) rk ! (p + 5) = W (p + 5)"
    "scheduled W (p + 11) rk ! (p + 10) = W (p + 10)"
    by (rule scheduled_nth; simp)+
  show ?thesis unfolding expand192_tail_def Let_def by (simp only: n s W [symmetric])
qed

lemma scheduled_8:
  assumes len: "p + 12 \<le> length rk"
    and W: "W (p + 8) = W p XOR sub_rot_word (W (p + 7)) XOR rcon ! i" "W (p + 9) = W (p + 1) XOR W (p + 8)" "W (p + 10) = W (p + 2) XOR W (p + 9)" "W (p + 11) = W (p + 3) XOR W (p + 10)"
  shows "expand256_head i p (scheduled W (p + 8) rk) = scheduled W (p + 12) rk"
proof -
  have s: "(scheduled W (p + 8) rk)[p + 8 := W (p + 8)] = scheduled W (p + 9) rk"
    "(scheduled W (p + 9) rk)[p + 9 := W (p + 9)] = scheduled W (p + 10) rk"
    "(scheduled W (p + 10) rk)[p + 10 := W (p + 10)] = scheduled W (p + 11) rk"
    "(scheduled W (p + 11) rk)[p + 11 := W (p + 11)] = scheduled W (p + 12) rk"
    by (rule scheduled_put; use len in simp)+
  have n: "scheduled W (p + 8) rk ! p = W p"
    "scheduled W (p + 8) rk ! (p + 7) = W (p + 7)"
    "scheduled W (p + 9) rk ! (p + 1) = W (p + 1)"
    "scheduled W (p + 9) rk ! (p + 8) = W (p + 8)"
    "scheduled W (p + 10) rk ! (p + 2) = W (p + 2)"
    "scheduled W (p + 10) rk ! (p + 9) = W (p + 9)"
    "scheduled W (p + 11) rk ! (p + 3) = W (p + 3)"
    "scheduled W (p + 11) rk ! (p + 10) = W (p + 10)"
    by (rule scheduled_nth; simp)+
  show ?thesis unfolding expand256_head_def Let_def by (simp only: n s W [symmetric])
qed

lemma scheduled_12:
  assumes len: "p + 16 \<le> length rk"
    and W: "W (p + 12) = W (p + 4) XOR sub_word (W (p + 11))" "W (p + 13) = W (p + 5) XOR W (p + 12)" "W (p + 14) = W (p + 6) XOR W (p + 13)" "W (p + 15) = W (p + 7) XOR W (p + 14)"
  shows "expand256_tail p (scheduled W (p + 12) rk) = scheduled W (p + 16) rk"
proof -
  have s: "(scheduled W (p + 12) rk)[p + 12 := W (p + 12)] = scheduled W (p + 13) rk"
    "(scheduled W (p + 13) rk)[p + 13 := W (p + 13)] = scheduled W (p + 14) rk"
    "(scheduled W (p + 14) rk)[p + 14 := W (p + 14)] = scheduled W (p + 15) rk"
    "(scheduled W (p + 15) rk)[p + 15 := W (p + 15)] = scheduled W (p + 16) rk"
    by (rule scheduled_put; use len in simp)+
  have n: "scheduled W (p + 12) rk ! (p + 4) = W (p + 4)"
    "scheduled W (p + 12) rk ! (p + 11) = W (p + 11)"
    "scheduled W (p + 13) rk ! (p + 5) = W (p + 5)"
    "scheduled W (p + 13) rk ! (p + 12) = W (p + 12)"
    "scheduled W (p + 14) rk ! (p + 6) = W (p + 6)"
    "scheduled W (p + 14) rk ! (p + 13) = W (p + 13)"
    "scheduled W (p + 15) rk ! (p + 7) = W (p + 7)"
    "scheduled W (p + 15) rk ! (p + 14) = W (p + 14)"
    by (rule scheduled_nth; simp)+
  show ?thesis unfolding expand256_tail_def Let_def by (simp only: n s W [symmetric])
qed

text \<open>The recurrence, where the loops use it.\<close>

lemma word_first:
  assumes "0 < nk" "m = nk * i + nk" "b = m - 1" "i < 10"
  shows "schedule_word nk k m = schedule_word nk k (nk * i) XOR sub_rot_word (schedule_word nk k b) XOR rcon ! i"
  using assms by (subst schedule_word.simps) (simp add: sub_words xor.assoc Let_def rcon_powers)

lemma word_next:
  assumes "0 < j" "j < nk" "\<not> (6 < nk \<and> j = 4)" "m = nk * i + nk + j" "a = nk * i + j" "b = nk * i + nk + j - 1"
  shows "schedule_word nk k m = schedule_word nk k a XOR schedule_word nk k b"
proof -
  have "m mod nk = j" "m - nk = a" "\<not> (nk = 0 \<or> m < nk)" "b = m - 1" using assms by (simp_all add: add.assoc)
  then show ?thesis using assms(1,3) by (subst schedule_word.simps) (auto simp: Let_def)
qed

lemma word_middle: "schedule_word 8 k (8 * i + 12) = schedule_word 8 k (8 * i + 4) XOR sub_word (schedule_word 8 k (8 * i + 11))"
proof -
  have "(8 * i + 12) mod 8 = 4" "8 * i + 12 - 8 = 8 * i + 4" "8 * i + 12 - 1 = 8 * i + 11" by presburger+
  then show ?thesis by (subst schedule_word.simps) (simp only: Let_def sub_words, simp)
qed

lemma group_4:
  assumes "i < 10" "4 * i + 8 \<le> length rk"
  shows "expand128_group i (4 * i) (scheduled (schedule_word 4 k) (4 * i + 4) rk) = scheduled (schedule_word 4 k) (4 * i + 8) rk"
proof (rule scheduled_4)
  show "4 * i + 8 \<le> length rk" by fact
  show "schedule_word 4 k (4 * i + 4) = schedule_word 4 k (4 * i) XOR sub_rot_word (schedule_word 4 k (4 * i + 3)) XOR rcon ! i"
    using assms(1) by (intro word_first) simp_all
  show "schedule_word 4 k (4 * i + 5) = schedule_word 4 k (4 * i + 1) XOR schedule_word 4 k (4 * i + 4)"
    by (rule word_next [where i = i and j = 1]) simp_all
  show "schedule_word 4 k (4 * i + 6) = schedule_word 4 k (4 * i + 2) XOR schedule_word 4 k (4 * i + 5)"
    by (rule word_next [where i = i and j = 2]) simp_all
  show "schedule_word 4 k (4 * i + 7) = schedule_word 4 k (4 * i + 3) XOR schedule_word 4 k (4 * i + 6)"
    by (rule word_next [where i = i and j = 3]) simp_all
qed

lemma group_6:
  assumes "i < 10" "6 * i + 10 \<le> length rk"
  shows "expand192_head i (6 * i) (scheduled (schedule_word 6 k) (6 * i + 6) rk) = scheduled (schedule_word 6 k) (6 * i + 10) rk"
proof (rule scheduled_6)
  show "6 * i + 10 \<le> length rk" by fact
  show "schedule_word 6 k (6 * i + 6) = schedule_word 6 k (6 * i) XOR sub_rot_word (schedule_word 6 k (6 * i + 5)) XOR rcon ! i"
    using assms(1) by (intro word_first) simp_all
  show "schedule_word 6 k (6 * i + 7) = schedule_word 6 k (6 * i + 1) XOR schedule_word 6 k (6 * i + 6)"
    by (rule word_next [where i = i and j = 1]) simp_all
  show "schedule_word 6 k (6 * i + 8) = schedule_word 6 k (6 * i + 2) XOR schedule_word 6 k (6 * i + 7)"
    by (rule word_next [where i = i and j = 2]) simp_all
  show "schedule_word 6 k (6 * i + 9) = schedule_word 6 k (6 * i + 3) XOR schedule_word 6 k (6 * i + 8)"
    by (rule word_next [where i = i and j = 3]) simp_all
qed

lemma group_10:
  assumes "i < 10" "6 * i + 12 \<le> length rk"
  shows "expand192_tail (6 * i) (scheduled (schedule_word 6 k) (6 * i + 10) rk) = scheduled (schedule_word 6 k) (6 * i + 12) rk"
proof (rule scheduled_10)
  show "6 * i + 12 \<le> length rk" by fact
  show "schedule_word 6 k (6 * i + 10) = schedule_word 6 k (6 * i + 4) XOR schedule_word 6 k (6 * i + 9)"
    by (rule word_next [where i = i and j = 4]) simp_all
  show "schedule_word 6 k (6 * i + 11) = schedule_word 6 k (6 * i + 5) XOR schedule_word 6 k (6 * i + 10)"
    by (rule word_next [where i = i and j = 5]) simp_all
qed

lemma group_8:
  assumes "i < 10" "8 * i + 12 \<le> length rk"
  shows "expand256_head i (8 * i) (scheduled (schedule_word 8 k) (8 * i + 8) rk) = scheduled (schedule_word 8 k) (8 * i + 12) rk"
proof (rule scheduled_8)
  show "8 * i + 12 \<le> length rk" by fact
  show "schedule_word 8 k (8 * i + 8) = schedule_word 8 k (8 * i) XOR sub_rot_word (schedule_word 8 k (8 * i + 7)) XOR rcon ! i"
    using assms(1) by (intro word_first) simp_all
  show "schedule_word 8 k (8 * i + 9) = schedule_word 8 k (8 * i + 1) XOR schedule_word 8 k (8 * i + 8)"
    by (rule word_next [where i = i and j = 1]) simp_all
  show "schedule_word 8 k (8 * i + 10) = schedule_word 8 k (8 * i + 2) XOR schedule_word 8 k (8 * i + 9)"
    by (rule word_next [where i = i and j = 2]) simp_all
  show "schedule_word 8 k (8 * i + 11) = schedule_word 8 k (8 * i + 3) XOR schedule_word 8 k (8 * i + 10)"
    by (rule word_next [where i = i and j = 3]) simp_all
qed

lemma group_12:
  assumes "i < 10" "8 * i + 16 \<le> length rk"
  shows "expand256_tail (8 * i) (scheduled (schedule_word 8 k) (8 * i + 12) rk) = scheduled (schedule_word 8 k) (8 * i + 16) rk"
proof (rule scheduled_12)
  show "8 * i + 16 \<le> length rk" by fact
  show "schedule_word 8 k (8 * i + 12) = schedule_word 8 k (8 * i + 4) XOR sub_word (schedule_word 8 k (8 * i + 11))" by (rule word_middle)
  show "schedule_word 8 k (8 * i + 13) = schedule_word 8 k (8 * i + 5) XOR schedule_word 8 k (8 * i + 12)"
    by (rule word_next [where i = i and j = 5]) simp_all
  show "schedule_word 8 k (8 * i + 14) = schedule_word 8 k (8 * i + 6) XOR schedule_word 8 k (8 * i + 13)"
    by (rule word_next [where i = i and j = 6]) simp_all
  show "schedule_word 8 k (8 * i + 15) = schedule_word 8 k (8 * i + 7) XOR schedule_word 8 k (8 * i + 14)"
    by (rule word_next [where i = i and j = 7]) simp_all
qed

lemma expand128_scheduled:
  assumes len: "44 \<le> length rk"
  shows "i < 10 \<Longrightarrow> expand128 i (4 * i) (scheduled (schedule_word 4 k) (4 * i + 4) rk) = scheduled (schedule_word 4 k) 44 rk"
proof (induction "9 - i" arbitrary: i)
  case (0 i)
  then have i: "i = 9" by simp
  show ?case using group_4 [of 9 rk k] len by (subst expand128.simps) (simp add: i)
next
  case (Suc x i)
  have e: "4 * i + 4 = 4 * Suc i" "4 * i + 8 = 4 * Suc i + 4" "\<not> 10 \<le> Suc i" using Suc(2) by simp_all
  have i: "i < 10" "4 * i + 8 \<le> length rk" using Suc(2,3) len by simp_all
  have "expand128 i (4 * i) (scheduled (schedule_word 4 k) (4 * i + 4) rk) = expand128 (Suc i) (4 * i + 4) (scheduled (schedule_word 4 k) (4 * i + 8) rk)"
    by (subst expand128.simps) (simp only: Let_def group_4 [OF i(1,2)] e(3) if_False)
  then show ?case using Suc(1) [of "Suc i"] Suc(2) unfolding e(1,2) by simp
qed

lemma expand192_scheduled:
  assumes len: "52 \<le> length rk"
  shows "i < 8 \<Longrightarrow> expand192 i (6 * i) (scheduled (schedule_word 6 k) (6 * i + 6) rk) = scheduled (schedule_word 6 k) 52 rk"
proof (induction "7 - i" arbitrary: i)
  case (0 i)
  then have i: "i = 7" by simp
  show ?case using group_6 [of 7 rk k] len by (subst expand192.simps) (simp add: i)
next
  case (Suc x i)
  have e: "6 * i + 6 = 6 * Suc i" "6 * i + 12 = 6 * Suc i + 6" "\<not> 8 \<le> Suc i" using Suc(2) by simp_all
  have i: "i < 10" "6 * i + 10 \<le> length rk" "6 * i + 12 \<le> length rk" using Suc(2,3) len by simp_all
  have "expand192 i (6 * i) (scheduled (schedule_word 6 k) (6 * i + 6) rk) = expand192 (Suc i) (6 * i + 6) (scheduled (schedule_word 6 k) (6 * i + 12) rk)"
    by (subst expand192.simps) (simp only: Let_def group_6 [OF i(1,2)] group_10 [OF i(1,3)] e(3) if_False)
  then show ?case using Suc(1) [of "Suc i"] Suc(2) unfolding e(1,2) by simp
qed

lemma expand256_scheduled:
  assumes len: "60 \<le> length rk"
  shows "i < 7 \<Longrightarrow> expand256 i (8 * i) (scheduled (schedule_word 8 k) (8 * i + 8) rk) = scheduled (schedule_word 8 k) 60 rk"
proof (induction "6 - i" arbitrary: i)
  case (0 i)
  then have i: "i = 6" by simp
  show ?case using group_8 [of 6 rk k] len by (subst expand256.simps) (simp add: i)
next
  case (Suc x i)
  have e: "8 * i + 8 = 8 * Suc i" "8 * i + 16 = 8 * Suc i + 8" "\<not> 7 \<le> Suc i" using Suc(2) by simp_all
  have i: "i < 10" "8 * i + 12 \<le> length rk" "8 * i + 16 \<le> length rk" using Suc(2,3) len by simp_all
  have "expand256 i (8 * i) (scheduled (schedule_word 8 k) (8 * i + 8) rk) = expand256 (Suc i) (8 * i + 8) (scheduled (schedule_word 8 k) (8 * i + 16) rk)"
    by (subst expand256.simps) (simp only: Let_def group_8 [OF i(1,2)] group_12 [OF i(1,3)] e(3) if_False)
  then show ?case using Suc(1) [of "Suc i"] Suc(2) unfolding e(1,2) by simp
qed

lemma key_word: "j < nk \<Longrightarrow> schedule_word nk k j = GETU32 (drop (4 * j) k)"
  by (subst schedule_word.simps) simp

lemma key_words:
  fixes nk :: nat and k :: bytes
  assumes "nk \<le> length rk" "4 \<le> nk"
  defines "W \<equiv> schedule_word nk k"
  shows "rk[0 := GETU32 k, 1 := GETU32 (drop 4 k), 2 := GETU32 (drop 8 k), 3 := GETU32 (drop 12 k)] = scheduled W 4 rk"
    and "6 \<le> nk \<Longrightarrow> (scheduled W 4 rk)[4 := GETU32 (drop 16 k), 5 := GETU32 (drop 20 k)] = scheduled W 6 rk"
    and "8 \<le> nk \<Longrightarrow> (scheduled W 6 rk)[6 := GETU32 (drop 24 k), 7 := GETU32 (drop 28 k)] = scheduled W 8 rk"
proof -
  have put: "(scheduled W j rk)[j := GETU32 (drop a k)] = scheduled W n rk" if "j < nk" "a = 4 * j" "n = Suc j" for j a n
    by (rule scheduled_put) (use that assms(1) key_word [of j nk k] in \<open>simp_all add: W_def\<close>)
  have "0 < nk" "(0 :: nat) = 4 * 0" "1 = Suc 0" using assms(2) by simp_all
  from put [OF this] have "rk[0 := GETU32 k] = scheduled W 1 rk" by (simp only: scheduled_def drop_0 upt_conv_Nil list.map append_Nil)
  moreover have "(scheduled W 1 rk)[1 := GETU32 (drop 4 k)] = scheduled W 2 rk" "(scheduled W 2 rk)[2 := GETU32 (drop 8 k)] = scheduled W 3 rk"
    "(scheduled W 3 rk)[3 := GETU32 (drop 12 k)] = scheduled W 4 rk"
    by (rule put; use assms(2) in simp)+
  ultimately show "rk[0 := GETU32 k, 1 := GETU32 (drop 4 k), 2 := GETU32 (drop 8 k), 3 := GETU32 (drop 12 k)] = scheduled W 4 rk"
    by (simp only:)
  show "(scheduled W 4 rk)[4 := GETU32 (drop 16 k), 5 := GETU32 (drop 20 k)] = scheduled W 6 rk" if "6 \<le> nk"
  proof -
    have "(scheduled W 4 rk)[4 := GETU32 (drop 16 k)] = scheduled W 5 rk" "(scheduled W 5 rk)[5 := GETU32 (drop 20 k)] = scheduled W 6 rk"
      by (rule put; use that in simp)+
    then show ?thesis by (simp only:)
  qed
  show "(scheduled W 6 rk)[6 := GETU32 (drop 24 k), 7 := GETU32 (drop 28 k)] = scheduled W 8 rk" if "8 \<le> nk"
  proof -
    have "(scheduled W 6 rk)[6 := GETU32 (drop 24 k)] = scheduled W 7 rk" "(scheduled W 7 rk)[7 := GETU32 (drop 28 k)] = scheduled W 8 rk"
      by (rule put; use that in simp)+
    then show ?thesis by (simp only:)
  qed
qed

section \<open>Properties\<close>

text \<open>
  C1. On a CPU without AES assembly, for 128-, 192- and 256-bit keys, decrypting a 16-byte block
  under the schedule of \<open>AES_set_decrypt_key\<close> undoes encrypting it under the schedule of
  \<open>AES_set_encrypt_key\<close> for the same key bytes, whatever the two key structures held before.
\<close>

theorem aes_decrypt_inverts_encrypt:
  assumes "portable pf" and "aes_key_storage ak" and "aes_key_storage ak'"
    and "AES_set_encrypt_key pf (Some k) bits (Some ak) = Inr ek"
    and "AES_set_decrypt_key pf (Some k) bits (Some ak') = Inr dk"
    and "length p = 16"
  shows "AES_decrypt pf (AES_encrypt pf p ek) dk = p"
proof -
  have "aes_key_pair ek dk"
    unfolding aes_key_pair_def using assms by (intro set_keys_inverse_schedule)
  with assms show ?thesis by (simp add: aes.dec_enc)
qed

theorem aes_decrypt_inverts_encrypt_witness:
  "\<exists>ek dk. AES_set_encrypt_key portable_platform (Some (map of_nat [0..<16])) 128 (Some blank_aes_key) = Inr ek \<and>
     AES_set_decrypt_key portable_platform (Some (map of_nat [0..<16])) 128 (Some blank_aes_key) = Inr dk \<and>
     AES_decrypt portable_platform (AES_encrypt portable_platform (replicate 16 7) ek) dk = replicate 16 7"
proof -
  obtain ek where ek: "AES_set_encrypt_key portable_platform (Some (map of_nat [0..<16])) 128 (Some blank_aes_key) = Inr ek"
    using set_key_bits(1) [of 128 "(map of_nat [0..<16])" blank_aes_key] by auto
  obtain dk where dk: "AES_set_decrypt_key portable_platform (Some (map of_nat [0..<16])) 128 (Some blank_aes_key) = Inr dk"
    using set_key_bits(2) [of 128 portable_platform "map of_nat [0..<16]" blank_aes_key] by auto
  show ?thesis
    using ek dk aes_decrypt_inverts_encrypt [OF portable_platform blank_aes_key blank_aes_key ek dk]
    by auto
qed

text \<open>
  C2. A key setup that succeeds was given a supported size and sets \<open>bits / 32 + 6\<close> rounds.  The words that it
  writes are exactly those of the key expansion of FIPS 197, four for each round key and four more; every other word is as it was.  The array is
  taken as the start of a memory of any length, so that a write behind the last round key, inside \<open>rd_key\<close> or behind it, would show;
  the 60 words of \<open>rd_key\<close> are enough for every size.
\<close>

theorem aes_set_encrypt_key_schedule:
  assumes "aes_nohw_set_encrypt_key (Some k) bits (Some ak) = Inr ek" and "4 * (bits div 32 + 7) \<le> length (rd_key ak)"
  shows "bits \<in> {128, 192, 256} \<and> unat (rounds ek) = bits div 32 + 6 \<and> 4 * (bits div 32 + 7) \<le> 60 \<and>
    rd_key ek = map (schedule_word (bits div 32) k) [0..<4 * (bits div 32 + 7)] @ drop (4 * (bits div 32 + 7)) (rd_key ak)"
proof -
  let ?rk = "rd_key ak"
  consider "bits = 128" | "bits = 192" | "bits = 256"
    using assms(1) by (auto simp: aes_nohw_set_encrypt_key_def split: if_splits)
  then have "bits \<in> {128, 192, 256} \<and> unat (rounds ek) = bits div 32 + 6 \<and>
      rd_key ek = scheduled (schedule_word (bits div 32) k) (4 * (bits div 32 + 7)) ?rk"
  proof cases
    case 1
    then have len: "44 \<le> length ?rk" using assms(2) by simp
    have w4: "4 \<le> length ?rk" "4 \<le> (4 :: nat)" using len by simp_all
    have ek: "ek = ak\<lparr>rd_key := expand128 0 0 (?rk[0 := GETU32 k, 1 := GETU32 (drop 4 k), 2 := GETU32 (drop 8 k), 3 := GETU32 (drop 12 k)]), rounds := 10\<rparr>"
      using assms(1) 1 by (simp add: aes_nohw_set_encrypt_key_def Let_def)
    have "?rk[0 := GETU32 k, 1 := GETU32 (drop 4 k), 2 := GETU32 (drop 8 k), 3 := GETU32 (drop 12 k)] = scheduled (schedule_word 4 k) 4 ?rk" 
      by (simp only: key_words(1) [OF w4])
    then have "rd_key ek = scheduled (schedule_word 4 k) 44 ?rk"
      using expand128_scheduled [OF len, of 0 k] unfolding ek by simp
    then show ?thesis using 1 by (simp add: ek)
  next
    case 2
    then have len: "52 \<le> length ?rk" using assms(2) by simp
    have w6: "6 \<le> length ?rk" "4 \<le> (6 :: nat)" "6 \<le> (6 :: nat)" using len by simp_all
    have ek: "ek = ak\<lparr>rd_key := expand192 0 0 ((?rk[0 := GETU32 k, 1 := GETU32 (drop 4 k), 2 := GETU32 (drop 8 k), 3 := GETU32 (drop 12 k)])[4 := GETU32 (drop 16 k), 5 := GETU32 (drop 20 k)]), rounds := 12\<rparr>"
      using assms(1) 2 by (simp add: aes_nohw_set_encrypt_key_def Let_def)
    have "(?rk[0 := GETU32 k, 1 := GETU32 (drop 4 k), 2 := GETU32 (drop 8 k), 3 := GETU32 (drop 12 k)])[4 := GETU32 (drop 16 k), 5 := GETU32 (drop 20 k)] = scheduled (schedule_word 6 k) 6 ?rk" 
      by (simp only: key_words(1) [OF w6(1,2)] key_words(2) [OF w6])
    then have "rd_key ek = scheduled (schedule_word 6 k) 52 ?rk"
      using expand192_scheduled [OF len, of 0 k] unfolding ek by simp
    then show ?thesis using 2 by (simp add: ek)
  next
    case 3
    then have len: "60 \<le> length ?rk" using assms(2) by simp
    have w8: "8 \<le> length ?rk" "4 \<le> (8 :: nat)" "6 \<le> (8 :: nat)" "8 \<le> (8 :: nat)" using len by simp_all
    have ek: "ek = ak\<lparr>rd_key := expand256 0 0 (((?rk[0 := GETU32 k, 1 := GETU32 (drop 4 k), 2 := GETU32 (drop 8 k), 3 := GETU32 (drop 12 k)])[4 := GETU32 (drop 16 k), 5 := GETU32 (drop 20 k)])[6 := GETU32 (drop 24 k), 7 := GETU32 (drop 28 k)]), rounds := 14\<rparr>"
      using assms(1) 3 by (simp add: aes_nohw_set_encrypt_key_def Let_def)
    have "((?rk[0 := GETU32 k, 1 := GETU32 (drop 4 k), 2 := GETU32 (drop 8 k), 3 := GETU32 (drop 12 k)])[4 := GETU32 (drop 16 k), 5 := GETU32 (drop 20 k)])[6 := GETU32 (drop 24 k), 7 := GETU32 (drop 28 k)] = scheduled (schedule_word 8 k) 8 ?rk" 
      by (simp only: key_words(1) [OF w8(1,2)] key_words(2) [OF w8(1-3)] key_words(3) [OF w8(1,2,4)])
    then have "rd_key ek = scheduled (schedule_word 8 k) 60 ?rk"
      using expand256_scheduled [OF len, of 0 k] unfolding ek by simp
    then show ?thesis using 3 by (simp add: ek)
  qed
  then show ?thesis by (auto simp: scheduled_def)
qed

definition fips_key :: bytes where
  "fips_key = [0x2b, 0x7e, 0x15, 0x16, 0x28, 0xae, 0xd2, 0xa6, 0xab, 0xf7, 0x15, 0x88, 0x09, 0xcf, 0x4f, 0x3c]"

lemma fips_word: "schedule_word 4 fips_key 4 = 0xa0fafe17"
proof -
  have "schedule_word 4 fips_key 0 = 0x2b7e1516" "schedule_word 4 fips_key 3 = 0x09cf4f3c"
    by (subst schedule_word.simps; simp add: GETU32_def fips_key_def pack_def)+
  then show ?thesis
    by (subst schedule_word.simps) (simp add: Let_def SubWord_def RotWord_def Rcon_def sbox_def sbox_list_def pack_def b3_def b2_def b1_def b0_def)
qed

theorem aes_set_encrypt_key_schedule_witness:
  "\<exists>ek. aes_nohw_set_encrypt_key (Some fips_key) 128 (Some blank_aes_key) = Inr ek \<and> unat (rounds ek) = 10 \<and>
     rd_key ek ! 4 = 0xa0fafe17 \<and> rd_key ek ! 44 = 0"
proof -
  obtain ek where ek: "aes_nohw_set_encrypt_key (Some fips_key) 128 (Some blank_aes_key) = Inr ek"
    using set_key_bits(1) [of 128 fips_key blank_aes_key] by auto
  have "4 * (128 div 32 + 7) \<le> length (rd_key blank_aes_key)" by (simp add: blank_aes_key_def)
  from aes_set_encrypt_key_schedule [OF ek this]
  have r: "unat (rounds ek) = 10" "rd_key ek = map (schedule_word 4 fips_key) [0..<44] @ drop 44 (rd_key blank_aes_key)" by simp_all
  have "rd_key ek ! 4 = schedule_word 4 fips_key 4" "rd_key ek ! 44 = 0"
    unfolding r(2) by (simp_all add: nth_append blank_aes_key_def del: upt_rec_numeral)
  then show ?thesis using ek r(1) fips_word by simp
qed

end
