(* ===== verification/BlockModes.thy ===== *)
theory BlockModes
  imports Aes
begin

text \<open>
  The modes of operation of \<^verbatim>\<open>boringssl/crypto/fipsmodule\<close> that the native crypto entry points
  call: IGE (\<^verbatim>\<open>aes/aes_ige.c\<close>), CBC (\<^verbatim>\<open>modes/cbc.c\<close>), CTR (\<^verbatim>\<open>modes/ctr.c\<close>) and their AES
  wrappers (\<^verbatim>\<open>aes/mode_wrappers.c\<close>).  The functions work on a flat memory \<open>mem\<close> with the input at
  address \<open>inp\<close> and the output at address \<open>out\<close>, so that \<open>inp = out\<close> is the in-place call; the IV
  lives in an array of its own.  A block cipher call \<open>(*block)(a, b, key)\<close> is a function on the 16
  bytes at \<open>a\<close> whose result is stored at \<open>b\<close>.  The word-wise exclusive ors of the code are bytewise
  ones here.
\<close>

unbundle bit_operations_syntax

section \<open>Infinite garble extension\<close>

text \<open>A pointer to a block that is either in the IV array or in the memory.\<close>

datatype block_ptr = Iv nat | Mem nat

fun deref :: "block_ptr \<Rightarrow> bytes \<Rightarrow> bytes \<Rightarrow> bytes" where
  "deref (Iv a) ivec mem = rd a 16 ivec"
| "deref (Mem a) ivec mem = rd a 16 mem"

text \<open>Encryption when \<open>inp \<noteq> out\<close> and unaligned accesses are fine: the chaining blocks stay in the buffers.\<close>

fun ige_encrypt_ptr ::
    "(bytes \<Rightarrow> bytes) \<Rightarrow> nat \<Rightarrow> nat \<Rightarrow> nat \<Rightarrow> bytes \<Rightarrow> bytes \<Rightarrow> block_ptr \<Rightarrow> block_ptr \<Rightarrow> bytes \<times> bytes" where
  "ige_encrypt_ptr E 0 inp out mem ivec ivp iv2p = (mem, deref ivp ivec mem @ deref iv2p ivec mem)"
| "ige_encrypt_ptr E (Suc len) inp out mem ivec ivp iv2p =
     (let mem = wr out (xorb (rd inp 16 mem) (deref ivp ivec mem)) mem;
          mem = wr out (E (rd out 16 mem)) mem;
          mem = wr out (xorb (rd out 16 mem) (deref iv2p ivec mem)) mem
      in ige_encrypt_ptr E len (inp + 16) (out + 16) mem ivec (Mem out) (Mem inp))"

text \<open>Encryption in place (or with slow unaligned accesses): the chaining blocks are copied.\<close>

fun ige_encrypt_copy ::
    "(bytes \<Rightarrow> bytes) \<Rightarrow> nat \<Rightarrow> nat \<Rightarrow> nat \<Rightarrow> bytes \<Rightarrow> bytes \<Rightarrow> bytes \<Rightarrow> bytes \<times> bytes" where
  "ige_encrypt_copy E 0 inp out mem iv iv2 = (mem, iv @ iv2)"
| "ige_encrypt_copy E (Suc len) inp out mem iv iv2 =
     (let tmp = rd inp 16 mem;
          tmp2 = xorb tmp iv;
          tmp2 = E tmp2;
          tmp2 = xorb tmp2 iv2;
          mem = wr out tmp2 mem
      in ige_encrypt_copy E len (inp + 16) (out + 16) mem tmp2 tmp)"

fun ige_decrypt_ptr ::
    "(bytes \<Rightarrow> bytes) \<Rightarrow> nat \<Rightarrow> nat \<Rightarrow> nat \<Rightarrow> bytes \<Rightarrow> bytes \<Rightarrow> block_ptr \<Rightarrow> block_ptr \<Rightarrow> bytes \<times> bytes" where
  "ige_decrypt_ptr D 0 inp out mem ivec ivp iv2p = (mem, deref ivp ivec mem @ deref iv2p ivec mem)"
| "ige_decrypt_ptr D (Suc len) inp out mem ivec ivp iv2p =
     (let tmp = xorb (rd inp 16 mem) (deref iv2p ivec mem);
          mem = wr out (D tmp) mem;
          mem = wr out (xorb (rd out 16 mem) (deref ivp ivec mem)) mem
      in ige_decrypt_ptr D len (inp + 16) (out + 16) mem ivec (Mem inp) (Mem out))"

fun ige_decrypt_copy ::
    "(bytes \<Rightarrow> bytes) \<Rightarrow> nat \<Rightarrow> nat \<Rightarrow> nat \<Rightarrow> bytes \<Rightarrow> bytes \<Rightarrow> bytes \<Rightarrow> bytes \<times> bytes" where
  "ige_decrypt_copy D 0 inp out mem iv iv2 = (mem, iv @ iv2)"
| "ige_decrypt_copy D (Suc len) inp out mem iv iv2 =
     (let tmp = rd inp 16 mem;
          tmp2 = tmp;
          tmp = xorb tmp iv2;
          tmp = D tmp;
          tmp = xorb tmp iv;
          mem = wr out tmp mem
      in ige_decrypt_copy D len (inp + 16) (out + 16) mem tmp2 tmp)"

text \<open>
  \<open>AES_ige_encrypt\<close>: \<open>fast\<close> is the test \<open>UNALIGNED_MEMOPS_ARE_FAST || all pointers are aligned\<close>;
  \<open>E\<close> and \<open>D\<close> are \<open>AES_encrypt\<close> and \<open>AES_decrypt\<close> under \<open>key\<close>.  The results are the memory and
  the updated 32-byte \<open>ivec\<close>.
\<close>

definition ige_encrypt ::
    "bool \<Rightarrow> (bytes \<Rightarrow> 'k \<Rightarrow> bytes) \<Rightarrow> (bytes \<Rightarrow> 'k \<Rightarrow> bytes) \<Rightarrow>
     nat \<Rightarrow> nat \<Rightarrow> nat \<Rightarrow> 'k \<Rightarrow> bytes \<Rightarrow> bool \<Rightarrow> bytes \<Rightarrow> bytes \<times> bytes" where
  "ige_encrypt fast E D inp out length' key ivec enc mem =
     (let len = length' div 16
      in if enc then
           if inp \<noteq> out \<and> fast
           then ige_encrypt_ptr (\<lambda>b. E b key) len inp out mem ivec (Iv 0) (Iv 16)
           else ige_encrypt_copy (\<lambda>b. E b key) len inp out mem (rd 0 16 ivec) (rd 16 16 ivec)
         else
           if inp \<noteq> out \<and> fast
           then ige_decrypt_ptr (\<lambda>b. D b key) len inp out mem ivec (Iv 0) (Iv 16)
           else ige_decrypt_copy (\<lambda>b. D b key) len inp out mem (rd 0 16 ivec) (rd 16 16 ivec))"

definition AES_ige_encrypt ::
    "aes_platform \<Rightarrow> bool \<Rightarrow> nat \<Rightarrow> nat \<Rightarrow> nat \<Rightarrow> aes_key \<Rightarrow> bytes \<Rightarrow> bool \<Rightarrow> bytes \<Rightarrow> bytes \<times> bytes" where
  "AES_ige_encrypt pf fast = ige_encrypt fast (AES_encrypt pf) (AES_decrypt pf)"

section \<open>Cipher block chaining\<close>

function cbc_encrypt_blocks ::
    "(bytes \<Rightarrow> bytes) \<Rightarrow> nat \<Rightarrow> nat \<Rightarrow> nat \<Rightarrow> bytes \<Rightarrow> bytes \<Rightarrow> block_ptr \<Rightarrow>
     nat \<times> nat \<times> nat \<times> bytes \<times> block_ptr" where
  "cbc_encrypt_blocks E len inp out mem ivec iv =
     (if 16 \<le> len
      then let mem = wr out (xorb (rd inp 16 mem) (deref iv ivec mem)) mem;
               mem = wr out (E (rd out 16 mem)) mem
           in cbc_encrypt_blocks E (len - 16) (inp + 16) (out + 16) mem ivec (Mem out)
      else (len, inp, out, mem, iv))"
  by pat_completeness auto
termination by (relation "measure (\<lambda>(E, len, inp, out, mem, ivec, iv). len)") auto

text \<open>
  The last, short block: the input is padded with the bytes of the chaining block, so a whole
  block is written at \<open>out\<close>.  After the block loop \<open>len < 16\<close>, so the body runs once and breaks.
\<close>

definition cbc_encrypt_tail ::
    "(bytes \<Rightarrow> bytes) \<Rightarrow> nat \<Rightarrow> nat \<Rightarrow> nat \<Rightarrow> bytes \<Rightarrow> bytes \<Rightarrow> block_ptr \<Rightarrow> bytes \<times> block_ptr" where
  "cbc_encrypt_tail E len inp out mem ivec iv =
     (if len = 0 then (mem, iv)
      else let ivb = deref iv ivec mem;
               mem = wr out (xorb (rd inp len mem) (take len ivb) @ drop len ivb) mem;
               mem = wr out (E (rd out 16 mem)) mem
           in (mem, Mem out))"

definition CRYPTO_cbc128_encrypt ::
    "nat \<Rightarrow> nat \<Rightarrow> nat \<Rightarrow> 'k \<Rightarrow> bytes \<Rightarrow> (bytes \<Rightarrow> 'k \<Rightarrow> bytes) \<Rightarrow> bytes \<Rightarrow> bytes \<times> bytes" where
  "CRYPTO_cbc128_encrypt inp out len key ivec block mem =
     (let (len, inp, out, mem, iv) = cbc_encrypt_blocks (\<lambda>b. block b key) len inp out mem ivec (Iv 0);
          (mem, iv) = cbc_encrypt_tail (\<lambda>b. block b key) len inp out mem ivec iv
      in (mem, deref iv ivec mem))"

text \<open>Decryption into a buffer at least two blocks behind the input, or wholly apart from it.\<close>

function cbc_decrypt_ptr ::
    "(bytes \<Rightarrow> bytes) \<Rightarrow> nat \<Rightarrow> nat \<Rightarrow> nat \<Rightarrow> bytes \<Rightarrow> bytes \<Rightarrow> block_ptr \<Rightarrow>
     nat \<times> nat \<times> nat \<times> bytes \<times> bytes" where
  "cbc_decrypt_ptr D len inp out mem ivec iv =
     (if 16 \<le> len
      then let mem = wr out (D (rd inp 16 mem)) mem;
               mem = wr out (xorb (rd out 16 mem) (deref iv ivec mem)) mem
           in cbc_decrypt_ptr D (len - 16) (inp + 16) (out + 16) mem ivec (Mem inp)
      else (len, inp, out, mem, deref iv ivec mem))"
  by pat_completeness auto
termination by (relation "measure (\<lambda>(D, len, inp, out, mem, ivec, iv). len)") auto

text \<open>Decryption through a temporary block; \<open>ivec\<close> takes each ciphertext block as it is read.\<close>

function cbc_decrypt_copy ::
    "(bytes \<Rightarrow> bytes) \<Rightarrow> nat \<Rightarrow> nat \<Rightarrow> nat \<Rightarrow> bytes \<Rightarrow> bytes \<Rightarrow>
     nat \<times> nat \<times> nat \<times> bytes \<times> bytes" where
  "cbc_decrypt_copy D len inp out mem ivec =
     (if 16 \<le> len
      then let tmp = D (rd inp 16 mem);
               c = rd inp 16 mem;
               mem = wr out (xorb tmp ivec) mem
           in cbc_decrypt_copy D (len - 16) (inp + 16) (out + 16) mem c
      else (len, inp, out, mem, ivec))"
  by pat_completeness auto
termination by (relation "measure (\<lambda>(D, len, inp, out, mem, ivec). len)") auto

text \<open>The short last block: only \<open>len\<close> bytes are written, and \<open>ivec\<close> becomes the whole input block.\<close>

definition cbc_decrypt_tail ::
    "(bytes \<Rightarrow> bytes) \<Rightarrow> nat \<Rightarrow> nat \<Rightarrow> nat \<Rightarrow> bytes \<Rightarrow> bytes \<Rightarrow> bytes \<times> bytes" where
  "cbc_decrypt_tail D len inp out mem ivec =
     (if len = 0 then (mem, ivec)
      else let tmp = D (rd inp 16 mem);
               c = rd inp len mem;
               mem = wr out (xorb (take len tmp) ivec) mem
           in (mem, c @ rd (inp + len) (16 - len) mem))"

definition CRYPTO_cbc128_decrypt ::
    "nat \<Rightarrow> nat \<Rightarrow> nat \<Rightarrow> 'k \<Rightarrow> bytes \<Rightarrow> (bytes \<Rightarrow> 'k \<Rightarrow> bytes) \<Rightarrow> bytes \<Rightarrow> bytes \<times> bytes" where
  "CRYPTO_cbc128_decrypt inp out len key ivec block mem =
     (let (len, inp, out, mem, ivec) =
            (if (32 \<le> inp \<and> out \<le> inp - 32) \<or> inp < out
             then cbc_decrypt_ptr (\<lambda>b. block b key) len inp out mem ivec (Iv 0)
             else cbc_decrypt_copy (\<lambda>b. block b key) len inp out mem ivec)
      in cbc_decrypt_tail (\<lambda>b. block b key) len inp out mem ivec)"

text \<open>
  \<open>AES_cbc_encrypt\<close> on a build without the x86 CBC assembly; \<open>hw_cbc\<close> is \<open>aes_hw_cbc_encrypt\<close>, which
  is assembly and so a parameter.
\<close>

definition AES_cbc_encrypt ::
    "aes_platform \<Rightarrow> (nat \<Rightarrow> nat \<Rightarrow> nat \<Rightarrow> aes_key \<Rightarrow> bytes \<Rightarrow> bool \<Rightarrow> bytes \<Rightarrow> bytes \<times> bytes) \<Rightarrow>
     nat \<Rightarrow> nat \<Rightarrow> nat \<Rightarrow> aes_key \<Rightarrow> bytes \<Rightarrow> bool \<Rightarrow> bytes \<Rightarrow> bytes \<times> bytes" where
  "AES_cbc_encrypt pf hw_cbc inp out len key ivec enc mem =
     (if hwaes_capable pf then hw_cbc inp out len key ivec enc mem
      else if enc then CRYPTO_cbc128_encrypt inp out len key ivec (AES_encrypt pf) mem
      else CRYPTO_cbc128_decrypt inp out len key ivec (AES_decrypt pf) mem)"

section \<open>Counter mode\<close>

text \<open>The big-endian increment: \<open>n\<close> walks down from 16, \<open>c\<close> is the carry plus the byte at \<open>n\<close>.\<close>

fun ctr128_inc_loop :: "nat \<Rightarrow> u32 \<Rightarrow> bytes \<Rightarrow> bytes" where
  "ctr128_inc_loop 0 c counter = counter"
| "ctr128_inc_loop (Suc n) c counter =
     (let c = c + ucast (counter ! n)
      in ctr128_inc_loop n (drop_bit 8 c) (counter[n := ucast c]))"

definition ctr128_inc :: "bytes \<Rightarrow> bytes" where
  "ctr128_inc counter = ctr128_inc_loop 16 1 counter"

text \<open>The first loop uses up what is left of the encrypted counter block: \<open>while (n && len)\<close>.\<close>

fun ctr_head :: "nat \<Rightarrow> nat \<Rightarrow> nat \<Rightarrow> bytes \<Rightarrow> nat \<Rightarrow> bytes \<Rightarrow> nat \<times> nat \<times> nat \<times> nat \<times> bytes" where
  "ctr_head 0 inp out ecount n mem = (0, inp, out, n, mem)"
| "ctr_head (Suc len) inp out ecount n mem =
     (if n \<noteq> 0
      then ctr_head len (inp + 1) (out + 1) ecount ((n + 1) mod 16)
             (wr out [mem ! inp XOR ecount ! n] mem)
      else (Suc len, inp, out, n, mem))"

function ctr_blocks ::
    "(bytes \<Rightarrow> bytes) \<Rightarrow> nat \<Rightarrow> nat \<Rightarrow> nat \<Rightarrow> bytes \<Rightarrow> bytes \<Rightarrow> nat \<Rightarrow> bytes \<Rightarrow>
     nat \<times> nat \<times> nat \<times> bytes \<times> bytes \<times> nat \<times> bytes" where
  "ctr_blocks E len inp out ivec ecount n mem =
     (if 16 \<le> len
      then let ecount = E ivec;
               ivec = ctr128_inc ivec;
               mem = wr out (xorb (rd inp 16 mem) ecount) mem
           in ctr_blocks E (len - 16) (inp + 16) (out + 16) ivec ecount 0 mem
      else (len, inp, out, ivec, ecount, n, mem))"
  by pat_completeness auto
termination by (relation "measure (\<lambda>(E, len, inp, out, ivec, ecount, n, mem). len)") auto

fun ctr_tail_bytes :: "nat \<Rightarrow> nat \<Rightarrow> nat \<Rightarrow> bytes \<Rightarrow> nat \<Rightarrow> bytes \<Rightarrow> nat \<times> bytes" where
  "ctr_tail_bytes 0 inp out ecount n mem = (n, mem)"
| "ctr_tail_bytes (Suc len) inp out ecount n mem =
     ctr_tail_bytes len inp out ecount (n + 1) (wr (out + n) [mem ! (inp + n) XOR ecount ! n] mem)"

definition CRYPTO_ctr128_encrypt ::
    "nat \<Rightarrow> nat \<Rightarrow> nat \<Rightarrow> 'k \<Rightarrow> bytes \<Rightarrow> bytes \<Rightarrow> nat \<Rightarrow> (bytes \<Rightarrow> 'k \<Rightarrow> bytes) \<Rightarrow> bytes \<Rightarrow>
     bytes \<times> bytes \<times> bytes \<times> nat" where
  "CRYPTO_ctr128_encrypt inp out len key ivec ecount num block mem =
     (let (len, inp, out, n, mem) = ctr_head len inp out ecount num mem;
          (len, inp, out, ivec, ecount, n, mem) = ctr_blocks (\<lambda>b. block b key) len inp out ivec ecount n mem
      in if len \<noteq> 0
         then let ecount = block ivec key;
                  ivec = ctr128_inc ivec;
                  (n, mem) = ctr_tail_bytes len inp out ecount n mem
              in (mem, ivec, ecount, n)
         else (mem, ivec, ecount, n))"

definition AES_ctr128_encrypt ::
    "aes_platform \<Rightarrow> nat \<Rightarrow> nat \<Rightarrow> nat \<Rightarrow> aes_key \<Rightarrow> bytes \<Rightarrow> bytes \<Rightarrow> nat \<Rightarrow> bytes \<Rightarrow>
     bytes \<times> bytes \<times> bytes \<times> nat" where
  "AES_ctr128_encrypt pf inp out len key ivec ecount num mem =
     CRYPTO_ctr128_encrypt inp out len key ivec ecount num (AES_encrypt pf) mem"

declare cbc_encrypt_blocks.simps [simp del] cbc_decrypt_ptr.simps [simp del]
  cbc_decrypt_copy.simps [simp del] ctr_blocks.simps [simp del]

section \<open>The modes on lists\<close>

text \<open>
  The reference definitions of the modes on the text itself, with no memory and no aliasing.
\<close>

fun ige_enc_text :: "(bytes \<Rightarrow> bytes) \<Rightarrow> nat \<Rightarrow> bytes \<Rightarrow> bytes \<Rightarrow> bytes \<Rightarrow> bytes" where
  "ige_enc_text E 0 iv iv2 xs = []"
| "ige_enc_text E (Suc n) iv iv2 xs =
     (let c = xorb (E (xorb (take 16 xs) iv)) iv2
      in c @ ige_enc_text E n c (take 16 xs) (drop 16 xs))"

fun ige_dec_text :: "(bytes \<Rightarrow> bytes) \<Rightarrow> nat \<Rightarrow> bytes \<Rightarrow> bytes \<Rightarrow> bytes \<Rightarrow> bytes" where
  "ige_dec_text D 0 iv iv2 xs = []"
| "ige_dec_text D (Suc n) iv iv2 xs =
     (let p = xorb (D (xorb (take 16 xs) iv2)) iv
      in p @ ige_dec_text D n (take 16 xs) p (drop 16 xs))"

fun cbc_enc_text :: "(bytes \<Rightarrow> bytes) \<Rightarrow> nat \<Rightarrow> bytes \<Rightarrow> bytes \<Rightarrow> bytes" where
  "cbc_enc_text E 0 iv xs = []"
| "cbc_enc_text E (Suc n) iv xs =
     (let c = E (xorb (take 16 xs) iv) in c @ cbc_enc_text E n c (drop 16 xs))"

fun cbc_dec_text :: "(bytes \<Rightarrow> bytes) \<Rightarrow> nat \<Rightarrow> bytes \<Rightarrow> bytes \<Rightarrow> bytes" where
  "cbc_dec_text D 0 iv xs = []"
| "cbc_dec_text D (Suc n) iv xs =
     xorb (D (take 16 xs)) iv @ cbc_dec_text D n (take 16 xs) (drop 16 xs)"

definition key_stream :: "(bytes \<Rightarrow> bytes) \<Rightarrow> bytes \<Rightarrow> nat \<Rightarrow> u8" where
  "key_stream E iv a = E ((ctr128_inc ^^ (a div 16)) iv) ! (a mod 16)"

definition ctr_text :: "(bytes \<Rightarrow> bytes) \<Rightarrow> bytes \<Rightarrow> nat \<Rightarrow> bytes \<Rightarrow> bytes" where
  "ctr_text E iv a xs = xorb xs (map (key_stream E iv) [a..<a + length xs])"

text \<open>The two ways the code is called: in place, or between buffers that do not overlap.\<close>

definition apart :: "nat \<Rightarrow> nat \<Rightarrow> nat \<Rightarrow> bool" where
  "apart inp out n \<longleftrightarrow> inp = out \<or> inp + n \<le> out \<or> out + n \<le> inp"

lemma rd_wr_apart:
  assumes "apart inp out (m + n)" and "length bs = m" and "out + (m + n) \<le> length mem"
  shows "rd (inp + m) n (wr out bs mem) = rd (inp + m) n mem"
  using assms by (auto simp: apart_def rd_wr_before rd_wr_after)

lemma apart_shift: "apart inp out (m + n) \<Longrightarrow> apart (inp + m) (out + m) n"
  by (auto simp: apart_def)

lemma rd_Suc_block: "rd p (16 * Suc n) mem = rd p 16 mem @ rd (p + 16) (16 * n) mem"
  by (simp add: rd_append)

text \<open>A chaining block that no store to the next \<open>n\<close> bytes of the output touches.\<close>

fun kept :: "block_ptr \<Rightarrow> nat \<Rightarrow> nat \<Rightarrow> bytes \<Rightarrow> bytes \<Rightarrow> bool" where
  "kept (Iv a) out n ivec mem \<longleftrightarrow> a + 16 \<le> length ivec"
| "kept (Mem a) out n ivec mem \<longleftrightarrow> a + 16 \<le> length mem \<and> (a + 16 \<le> out \<or> out + n \<le> a)"

lemma kept_length: "kept p out n ivec mem \<Longrightarrow> length (deref p ivec mem) = 16"
  by (cases p) simp_all

lemma kept_deref:
  "kept p out n ivec mem \<Longrightarrow> length b \<le> n \<Longrightarrow> out + n \<le> length mem \<Longrightarrow>
     deref p ivec (wr out b mem) = deref p ivec mem"
  by (cases p) (auto simp: rd_wr_before rd_wr_after)

section \<open>The memory functions compute the reference texts\<close>

context block_fun
begin

lemma length_ige_enc_text [simp]:
  "length iv2 = 16 \<Longrightarrow> 16 * n \<le> length xs \<Longrightarrow> length (ige_enc_text E n iv iv2 xs) = 16 * n"
  by (induction n arbitrary: iv iv2 xs) (simp_all add: Let_def)

lemma length_ige_dec_text [simp]:
  "length iv = 16 \<Longrightarrow> 16 * n \<le> length xs \<Longrightarrow> length (ige_dec_text E n iv iv2 xs) = 16 * n"
  by (induction n arbitrary: iv iv2 xs) (simp_all add: Let_def)

lemma length_cbc_enc_text [simp]: "length (cbc_enc_text E n iv xs) = 16 * n"
  by (induction n arbitrary: iv xs) (simp_all add: Let_def)

lemma length_cbc_dec_text [simp]:
  "length iv = 16 \<Longrightarrow> 16 * n \<le> length xs \<Longrightarrow> length (cbc_dec_text E n iv xs) = 16 * n"
  by (induction n arbitrary: iv xs) simp_all

lemma ige_encrypt_copy_text:
  assumes "apart inp out (16 * n)" "inp + 16 * n \<le> length mem" "out + 16 * n \<le> length mem"
    and "length iv = 16" "length iv2 = 16"
  shows "fst (ige_encrypt_copy E n inp out mem iv iv2) =
    wr out (ige_enc_text E n iv iv2 (rd inp (16 * n) mem)) mem"
  using assms
proof (induction n arbitrary: inp out mem iv iv2)
  case 0
  then show ?case by simp
next
  case (Suc n)
  let ?c = "xorb (E (xorb (rd inp 16 mem) iv)) iv2"
  let ?mem = "wr out ?c mem"
  have ap: "apart (inp + 16) (out + 16) (16 * n)"
    using Suc.prems by (intro apart_shift) simp
  have c: "length ?c = 16" using Suc.prems by simp
  have rest: "rd (inp + 16) (16 * n) ?mem = rd (inp + 16) (16 * n) mem"
    using Suc.prems c by (intro rd_wr_apart) simp_all
  have "fst (ige_encrypt_copy E n (inp + 16) (out + 16) ?mem ?c (rd inp 16 mem)) =
      wr (out + 16) (ige_enc_text E n ?c (rd inp 16 mem) (rd (inp + 16) (16 * n) ?mem)) ?mem"
    using Suc.prems ap c by (intro Suc.IH) simp_all
  also have "\<dots> = wr out (?c @ ige_enc_text E n ?c (rd inp 16 mem) (rd (inp + 16) (16 * n) mem)) mem"
    unfolding rest using wr_append [of out ?c _ mem] Suc.prems c by simp
  finally show ?case
    using Suc.prems by (simp add: Let_def rd_take rd_drop)
qed

lemma ige_decrypt_copy_text:
  assumes "apart inp out (16 * n)" "inp + 16 * n \<le> length mem" "out + 16 * n \<le> length mem"
    and "length iv = 16" "length iv2 = 16"
  shows "fst (ige_decrypt_copy E n inp out mem iv iv2) =
    wr out (ige_dec_text E n iv iv2 (rd inp (16 * n) mem)) mem"
  using assms
proof (induction n arbitrary: inp out mem iv iv2)
  case 0
  then show ?case by simp
next
  case (Suc n)
  let ?p = "xorb (E (xorb (rd inp 16 mem) iv2)) iv"
  let ?mem = "wr out ?p mem"
  have ap: "apart (inp + 16) (out + 16) (16 * n)"
    using Suc.prems by (intro apart_shift) simp
  have p: "length ?p = 16" using Suc.prems by simp
  have rest: "rd (inp + 16) (16 * n) ?mem = rd (inp + 16) (16 * n) mem"
    using Suc.prems p by (intro rd_wr_apart) simp_all
  have "fst (ige_decrypt_copy E n (inp + 16) (out + 16) ?mem (rd inp 16 mem) ?p) =
      wr (out + 16) (ige_dec_text E n (rd inp 16 mem) ?p (rd (inp + 16) (16 * n) ?mem)) ?mem"
    using Suc.prems ap p by (intro Suc.IH) simp_all
  also have "\<dots> = wr out (?p @ ige_dec_text E n (rd inp 16 mem) ?p (rd (inp + 16) (16 * n) mem)) mem"
    unfolding rest using wr_append [of out ?p _ mem] Suc.prems p by simp
  finally show ?case
    using Suc.prems by (simp add: Let_def rd_take rd_drop)
qed

text \<open>
  The pointer variants read their chaining blocks from the buffers.  That is the same as copying
  them, because no later store of the loop reaches them.
\<close>

lemma ige_encrypt_ptr_copy:
  assumes "inp + 16 * n \<le> out \<or> out + 16 * n \<le> inp"
    and "inp + 16 * n \<le> length mem" "out + 16 * n \<le> length mem"
    and "kept ivp out (16 * n) ivec mem" "kept iv2p out (16 * n) ivec mem"
  shows "ige_encrypt_ptr E n inp out mem ivec ivp iv2p =
    ige_encrypt_copy E n inp out mem (deref ivp ivec mem) (deref iv2p ivec mem)"
  using assms
proof (induction n arbitrary: inp out mem ivp iv2p)
  case 0
  then show ?case by simp
next
  case (Suc n)
  let ?x = "xorb (rd inp 16 mem) (deref ivp ivec mem)"
  let ?c = "xorb (E ?x) (deref iv2p ivec mem)"
  have len: "length (deref ivp ivec mem) = 16" "length (deref iv2p ivec mem) = 16" "length ?x = 16"
    using Suc.prems by (simp_all add: kept_length)
  have k: "deref iv2p ivec (wr out b mem) = deref iv2p ivec mem" if "length b = 16" for b
    using Suc.prems that by (intro kept_deref [of _ _ "16 * Suc n"]) simp_all
  have inp: "rd inp 16 (wr out ?c mem) = rd inp 16 mem"
    using Suc.prems len by (auto simp: rd_wr_before rd_wr_after)
  have "ige_encrypt_ptr E n (inp + 16) (out + 16) (wr out ?c mem) ivec (Mem out) (Mem inp) =
      ige_encrypt_copy E n (inp + 16) (out + 16) (wr out ?c mem) ?c (rd inp 16 mem)"
    using Suc.prems len by (subst Suc.IH) (auto simp: inp rd_wr_same)
  with Suc.prems len show ?case
    by (simp add: Let_def rd_wr_same wr_wr_same k)
qed

lemma ige_decrypt_ptr_copy:
  assumes "inp + 16 * n \<le> out \<or> out + 16 * n \<le> inp"
    and "inp + 16 * n \<le> length mem" "out + 16 * n \<le> length mem"
    and "kept ivp out (16 * n) ivec mem" "kept iv2p out (16 * n) ivec mem"
  shows "ige_decrypt_ptr E n inp out mem ivec ivp iv2p =
    ige_decrypt_copy E n inp out mem (deref ivp ivec mem) (deref iv2p ivec mem)"
  using assms
proof (induction n arbitrary: inp out mem ivp iv2p)
  case 0
  then show ?case by simp
next
  case (Suc n)
  let ?x = "xorb (rd inp 16 mem) (deref iv2p ivec mem)"
  let ?p = "xorb (E ?x) (deref ivp ivec mem)"
  have len: "length (deref ivp ivec mem) = 16" "length (deref iv2p ivec mem) = 16" "length ?x = 16"
    using Suc.prems by (simp_all add: kept_length)
  have k: "deref ivp ivec (wr out b mem) = deref ivp ivec mem" if "length b = 16" for b
    using Suc.prems that by (intro kept_deref [of _ _ "16 * Suc n"]) simp_all
  have inp: "rd inp 16 (wr out ?p mem) = rd inp 16 mem"
    using Suc.prems len by (auto simp: rd_wr_before rd_wr_after)
  have "ige_decrypt_ptr E n (inp + 16) (out + 16) (wr out ?p mem) ivec (Mem inp) (Mem out) =
      ige_decrypt_copy E n (inp + 16) (out + 16) (wr out ?p mem) (rd inp 16 mem) ?p"
    using Suc.prems len by (subst Suc.IH) (auto simp: inp rd_wr_same)
  with Suc.prems len show ?case
    by (simp add: Let_def rd_wr_same wr_wr_same k)
qed

lemma cbc_encrypt_blocks_text:
  assumes "apart inp out (16 * n)" "inp + 16 * n \<le> length mem" "out + 16 * n \<le> length mem"
    and "kept iv out (16 * n) ivec mem"
  shows "cbc_encrypt_blocks E (16 * n) inp out mem ivec iv =
    (0, inp + 16 * n, out + 16 * n, wr out (cbc_enc_text E n (deref iv ivec mem) (rd inp (16 * n) mem)) mem,
     if n = 0 then iv else Mem (out + 16 * n - 16))"
  using assms
proof (induction n arbitrary: inp out mem iv)
  case 0
  then show ?case by (simp add: cbc_encrypt_blocks.simps)
next
  case (Suc n)
  let ?x = "xorb (rd inp 16 mem) (deref iv ivec mem)"
  let ?c = "E ?x"
  let ?mem = "wr out ?c mem"
  have x: "length ?x = 16" using Suc.prems by (simp add: kept_length)
  have ap: "apart (inp + 16) (out + 16) (16 * n)"
    using Suc.prems by (intro apart_shift) simp
  have rest: "rd (inp + 16) (16 * n) ?mem = rd (inp + 16) (16 * n) mem"
    using Suc.prems by (intro rd_wr_apart) simp_all
  have "cbc_encrypt_blocks E (16 * n) (inp + 16) (out + 16) ?mem ivec (Mem out) =
    (0, inp + 16 + 16 * n, out + 16 + 16 * n,
     wr (out + 16) (cbc_enc_text E n (deref (Mem out) ivec ?mem) (rd (inp + 16) (16 * n) ?mem)) ?mem,
     if n = 0 then Mem out else Mem (out + 16 + 16 * n - 16))"
    using Suc.prems ap by (intro Suc.IH) simp_all
  also have "wr (out + 16) (cbc_enc_text E n (deref (Mem out) ivec ?mem) (rd (inp + 16) (16 * n) ?mem)) ?mem =
      wr out (?c @ cbc_enc_text E n ?c (rd (inp + 16) (16 * n) mem)) mem"
    unfolding rest using wr_append [of out ?c _ mem] Suc.prems by (simp add: rd_wr_same)
  finally show ?case
    using Suc.prems x
    by (simp add: cbc_encrypt_blocks.simps [of _ "16 + 16 * n"] Let_def rd_wr_same wr_wr_same rd_take rd_drop)
qed

lemma cbc_decrypt_copy_text:
  assumes "apart inp out (16 * n)" "inp + 16 * n \<le> length mem" "out + 16 * n \<le> length mem"
    and "length iv = 16"
  shows "cbc_decrypt_copy E (16 * n) inp out mem iv =
    (0, inp + 16 * n, out + 16 * n, wr out (cbc_dec_text E n iv (rd inp (16 * n) mem)) mem,
     if n = 0 then iv else rd (inp + 16 * n - 16) 16 mem)"
  using assms
proof (induction n arbitrary: inp out mem iv)
  case 0
  then show ?case by (simp add: cbc_decrypt_copy.simps)
next
  case (Suc n)
  let ?p = "xorb (E (rd inp 16 mem)) iv"
  let ?mem = "wr out ?p mem"
  have p: "length ?p = 16" using Suc.prems by simp
  have ap: "apart (inp + 16) (out + 16) (16 * n)"
    using Suc.prems by (intro apart_shift) simp
  have rest: "rd (inp + 16) (16 * n) ?mem = rd (inp + 16) (16 * n) mem"
    using Suc.prems by (intro rd_wr_apart) simp_all
  have last: "rd (inp + 16 + 16 * n - 16) 16 ?mem = rd (inp + 16 + 16 * n - 16) 16 mem" if "n \<noteq> 0"
    using Suc.prems p that by (auto simp: apart_def rd_wr_before rd_wr_after)
  have "cbc_decrypt_copy E (16 * n) (inp + 16) (out + 16) ?mem (rd inp 16 mem) =
    (0, inp + 16 + 16 * n, out + 16 + 16 * n,
     wr (out + 16) (cbc_dec_text E n (rd inp 16 mem) (rd (inp + 16) (16 * n) ?mem)) ?mem,
     if n = 0 then rd inp 16 mem else rd (inp + 16 + 16 * n - 16) 16 ?mem)"
    using Suc.prems ap p by (intro Suc.IH) simp_all
  also have "wr (out + 16) (cbc_dec_text E n (rd inp 16 mem) (rd (inp + 16) (16 * n) ?mem)) ?mem =
      wr out (?p @ cbc_dec_text E n (rd inp 16 mem) (rd (inp + 16) (16 * n) mem)) mem"
    unfolding rest using wr_append [of out ?p _ mem] Suc.prems p by simp
  finally show ?case
    using Suc.prems last
    by (simp add: cbc_decrypt_copy.simps [of _ "16 + 16 * n"] Let_def rd_take rd_drop)
qed

lemma cbc_decrypt_ptr_text:
  assumes "inp + 16 * n \<le> out \<or> out + 16 * n \<le> inp"
    and "inp + 16 * n \<le> length mem" "out + 16 * n \<le> length mem"
    and "kept iv out (16 * n) ivec mem"
  shows "cbc_decrypt_ptr E (16 * n) inp out mem ivec iv =
    (0, inp + 16 * n, out + 16 * n, wr out (cbc_dec_text E n (deref iv ivec mem) (rd inp (16 * n) mem)) mem,
     if n = 0 then deref iv ivec mem else rd (inp + 16 * n - 16) 16 mem)"
  using assms
proof (induction n arbitrary: inp out mem iv)
  case 0
  then show ?case by (simp add: cbc_decrypt_ptr.simps)
next
  case (Suc n)
  let ?p = "xorb (E (rd inp 16 mem)) (deref iv ivec mem)"
  let ?mem = "wr out ?p mem"
  have iv: "length (deref iv ivec mem) = 16" using Suc.prems by (simp add: kept_length)
  have k: "deref iv ivec (wr out b mem) = deref iv ivec mem" if "length b = 16" for b
    using Suc.prems that by (intro kept_deref [of _ _ "16 * Suc n"]) simp_all
  have inp: "rd inp 16 ?mem = rd inp 16 mem"
    using Suc.prems iv by (auto simp: rd_wr_before rd_wr_after)
  have rest: "rd (inp + 16) (16 * n) ?mem = rd (inp + 16) (16 * n) mem"
    using Suc.prems by (intro rd_wr_apart) (auto simp: apart_def iv)
  have last: "rd (inp + 16 + 16 * n - 16) 16 ?mem = rd (inp + 16 + 16 * n - 16) 16 mem" if "n \<noteq> 0"
    using Suc.prems iv that by (auto simp: rd_wr_before rd_wr_after)
  have "cbc_decrypt_ptr E (16 * n) (inp + 16) (out + 16) ?mem ivec (Mem inp) =
    (0, inp + 16 + 16 * n, out + 16 + 16 * n,
     wr (out + 16) (cbc_dec_text E n (deref (Mem inp) ivec ?mem) (rd (inp + 16) (16 * n) ?mem)) ?mem,
     if n = 0 then deref (Mem inp) ivec ?mem else rd (inp + 16 + 16 * n - 16) 16 ?mem)"
    using Suc.prems iv by (intro Suc.IH) auto
  also have "wr (out + 16) (cbc_dec_text E n (deref (Mem inp) ivec ?mem) (rd (inp + 16) (16 * n) ?mem)) ?mem =
      wr out (?p @ cbc_dec_text E n (rd inp 16 mem) (rd (inp + 16) (16 * n) mem)) mem"
    unfolding rest using wr_append [of out ?p _ mem] Suc.prems iv by (simp add: inp)
  finally show ?case
    using Suc.prems last iv
    by (simp add: cbc_decrypt_ptr.simps [of _ "16 + 16 * n"] Let_def rd_wr_same wr_wr_same rd_take rd_drop k inp)
qed

end
section \<open>Counter mode computes the key stream\<close>

text \<open>
  \<open>ctr_at E iv a ivec ecount n\<close>: what the state of the counter mode is after \<open>a\<close> bytes of the stream that
  starts at the counter block \<open>iv\<close>.  A partly used block leaves its key stream in \<open>ecount\<close>.
\<close>

definition ctr_at :: "(bytes \<Rightarrow> bytes) \<Rightarrow> bytes \<Rightarrow> nat \<Rightarrow> bytes \<Rightarrow> bytes \<Rightarrow> nat \<Rightarrow> bool" where
  "ctr_at E iv a ivec ecount n \<longleftrightarrow>
     n = a mod 16 \<and> ivec = (ctr128_inc ^^ ((a + 15) div 16)) iv \<and>
     (n \<noteq> 0 \<longrightarrow> ecount = E ((ctr128_inc ^^ (a div 16)) iv))"

lemma length_ctr_text [simp]: "length (ctr_text E iv a xs) = length xs"
  by (simp add: ctr_text_def)

lemma ctr_text_append:
  "ctr_text E iv a (xs @ ys) = ctr_text E iv a xs @ ctr_text E iv (a + length xs) ys"
proof -
  have "[a..<a + length (xs @ ys)] = [a..<a + length xs] @ [a + length xs..<a + length xs + length ys]"
    using upt_add_eq_append [of a "a + length xs" "length ys"] by (simp add: add.assoc)
  then show ?thesis by (simp add: ctr_text_def xorb_append)
qed

lemma ctr_text_Nil [simp]: "ctr_text E iv a [] = []"
  by (simp add: ctr_text_def)

lemma ctr_text_one: "ctr_text E iv a [x] = [x XOR key_stream E iv a]"
  by (simp add: ctr_text_def xorb_def)

lemma ctr_text_involution: "ctr_text E iv a (ctr_text E iv a xs) = xs"
  by (simp add: ctr_text_def xorb_cancel)

lemma ctr_text_nth:
  "i < length xs \<Longrightarrow> ctr_text E iv a xs ! i = xs ! i XOR key_stream E iv (a + i)"
  by (simp add: ctr_text_def nth_xorb)

lemma funpow_add_apply: "(f ^^ (m + n)) x = (f ^^ n) ((f ^^ m) x)"
  by (subst add.commute) (simp add: funpow_add)

lemma rd_Suc_byte: "p < length mem \<Longrightarrow> rd p (Suc n) mem = mem ! p # rd (p + 1) n mem"
  by (simp add: rd_def flip: Cons_nth_drop_Suc)

lemma wr_text_step:
  assumes "apart inp out (m + k)" "inp + (m + k) \<le> length mem" "out + (m + k) \<le> length mem"
    and "length bs = m" "bs = ctr_text E iv a (rd inp m mem)"
  shows "wr (out + m) (ctr_text E iv (a + m) (rd (inp + m) k (wr out bs mem))) (wr out bs mem) =
    wr out (ctr_text E iv a (rd inp (m + k) mem)) mem"
proof -
  have "rd (inp + m) k (wr out bs mem) = rd (inp + m) k mem"
    using assms by (intro rd_wr_apart) simp_all
  moreover have "ctr_text E iv a (rd inp (m + k) mem) = bs @ ctr_text E iv (a + m) (rd (inp + m) k mem)"
    using assms by (simp add: ctr_text_append flip: rd_append)
  ultimately show ?thesis
    using assms wr_append [of out bs "ctr_text E iv (a + m) (rd (inp + m) k mem)" mem] by simp
qed

lemma apart_mono: "apart inp out n \<Longrightarrow> m \<le> n \<Longrightarrow> apart inp out m"
  by (auto simp: apart_def)

lemma ctr_at_byte:
  assumes "ctr_at E iv a ivec ecount n" "n \<noteq> 0"
  shows "ctr_at E iv (a + 1) ivec ecount ((n + 1) mod 16)" "ecount ! n = key_stream E iv a"
proof -
  have n: "a mod 16 \<noteq> 0" "n = a mod 16" using assms by (auto simp: ctr_at_def)
  obtain j i where a: "a = 16 * j + i" "i < 16" by (rule that [of "a div 16" "a mod 16"]) simp_all
  then have i: "0 < i" using n(1) by (cases i) simp_all
  have "(a + 15) div 16 = Suc j" unfolding a using a i by (intro block_round_up)
  moreover have "(a + 1 + 15) div 16 = Suc j"
  proof -
    have "a + 1 + 15 = 16 * Suc j + i" using a by simp
    with a(2) show ?thesis by (simp only: block_position)
  qed
  moreover have "(a + 1) div 16 = a div 16" if "(a + 1) mod 16 \<noteq> 0"
    using that by (metis Suc_eq_plus1 div_Suc)
  ultimately show "ctr_at E iv (a + 1) ivec ecount ((n + 1) mod 16)"
    using assms n by (auto simp: ctr_at_def mod_Suc_eq)
  show "ecount ! n = key_stream E iv a"
    using assms n by (simp add: ctr_at_def key_stream_def)
qed

lemma ctr_head_text:
  assumes "ctr_at E iv a ivec ecount n" "apart inp out len"
    and "inp + len \<le> length mem" "out + len \<le> length mem"
  shows "\<exists>k \<le> len. ctr_head len inp out ecount n mem =
      (len - k, inp + k, out + k, (a + k) mod 16, wr out (ctr_text E iv a (rd inp k mem)) mem) \<and>
    (k = len \<or> (a + k) mod 16 = 0) \<and> ctr_at E iv (a + k) ivec ecount ((a + k) mod 16)"
  using assms
proof (induction len arbitrary: inp out a n mem)
  case 0
  then show ?case by (auto simp: ctr_at_def)
next
  case (Suc len)
  show ?case
  proof (cases "n = 0")
    case True
    with Suc.prems show ?thesis by (intro exI [of _ 0]) (auto simp: ctr_at_def)
  next
    case False
    let ?bs = "[mem ! inp XOR ecount ! n]"
    have bs: "?bs = ctr_text E iv a (rd inp 1 mem)"
      using Suc.prems ctr_at_byte(2) [OF Suc.prems(1) False] by (simp add: rd_Suc_byte ctr_text_one)
    have ap: "apart (inp + 1) (out + 1) len" using Suc.prems(2) by (auto simp: apart_def)
    obtain k where k: "k \<le> len"
      "ctr_head len (inp + 1) (out + 1) ecount ((n + 1) mod 16) (wr out ?bs mem) =
        (len - k, inp + 1 + k, out + 1 + k, (a + 1 + k) mod 16,
         wr (out + 1) (ctr_text E iv (a + 1) (rd (inp + 1) k (wr out ?bs mem))) (wr out ?bs mem))"
      "k = len \<or> (a + 1 + k) mod 16 = 0" "ctr_at E iv (a + 1 + k) ivec ecount ((a + 1 + k) mod 16)"
      using Suc.IH [OF ctr_at_byte(1) [OF Suc.prems(1) False] ap, of "wr out ?bs mem"] Suc.prems
      by auto
    have "wr (out + 1) (ctr_text E iv (a + 1) (rd (inp + 1) k (wr out ?bs mem))) (wr out ?bs mem) =
        wr out (ctr_text E iv a (rd inp (1 + k) mem)) mem"
      using Suc.prems k(1) bs by (intro wr_text_step) (auto intro: apart_mono)
    with k False show ?thesis by (intro exI [of _ "1 + k"]) (auto simp: add.assoc)
  qed
qed

context block_fun
begin

lemma ctr_text_block:
  "length xs = 16 \<Longrightarrow> ctr_text E iv (16 * j) xs = xorb xs (E ((ctr128_inc ^^ j) iv))"
  by (rule nth_equalityI) (simp_all add: ctr_text_nth nth_xorb key_stream_def)

lemma ctr_blocks_text:
  assumes "apart inp out len" "inp + len \<le> length mem" "out + len \<le> length mem"
  shows "\<exists>ec. ctr_blocks E len inp out ((ctr128_inc ^^ j) iv) ecount 0 mem =
    (len mod 16, inp + 16 * (len div 16), out + 16 * (len div 16),
     (ctr128_inc ^^ (j + len div 16)) iv, ec, 0,
     wr out (ctr_text E iv (16 * j) (rd inp (16 * (len div 16)) mem)) mem)"
  using assms
proof (induction len arbitrary: inp out j ecount mem rule: less_induct)
  case (less len)
  show ?case
  proof (cases "16 \<le> len")
    case False
    then show ?thesis by (simp add: ctr_blocks.simps)
  next
    case True
    let ?bs = "xorb (rd inp 16 mem) (E ((ctr128_inc ^^ j) iv))"
    have bs: "?bs = ctr_text E iv (16 * j) (rd inp 16 mem)"
      using less.prems True by (simp add: ctr_text_block)
    have len: "length ?bs = 16" using less.prems True by simp
    have q: "16 * (len div 16) = 16 + 16 * ((len - 16) div 16)" "len div 16 = Suc ((len - 16) div 16)"
      "(len - 16) mod 16 = len mod 16"
      using True by (simp_all add: le_div_geq le_mod_geq)
    have ap: "apart (inp + 16) (out + 16) (len - 16)" using less.prems True by (auto simp: apart_def)
    have step: "wr (out + 16) (ctr_text E iv (16 * j + 16) (rd (inp + 16) (16 * ((len - 16) div 16)) (wr out ?bs mem)))
        (wr out ?bs mem) = wr out (ctr_text E iv (16 * j) (rd inp (16 + 16 * ((len - 16) div 16)) mem)) mem"
      using less.prems True len bs
      by (intro wr_text_step) (auto intro: apart_mono)
    have inc: "ctr128_inc ((ctr128_inc ^^ j) iv) = (ctr128_inc ^^ Suc j) iv" by simp
    obtain ec where "ctr_blocks E (len - 16) (inp + 16) (out + 16) ((ctr128_inc ^^ Suc j) iv)
          (E ((ctr128_inc ^^ j) iv)) 0 (wr out ?bs mem) =
       ((len - 16) mod 16, inp + 16 + 16 * ((len - 16) div 16), out + 16 + 16 * ((len - 16) div 16),
        (ctr128_inc ^^ (Suc j + (len - 16) div 16)) iv, ec, 0,
        wr (out + 16) (ctr_text E iv (16 * Suc j) (rd (inp + 16) (16 * ((len - 16) div 16)) (wr out ?bs mem)))
          (wr out ?bs mem))"
      using less.IH [OF _ ap, of "wr out ?bs mem" "Suc j" "E ((ctr128_inc ^^ j) iv)"] less.prems True len
      by auto
    then show ?thesis
      using True step q
      by (subst ctr_blocks.simps) (simp only: Let_def inc if_True, simp add: add.assoc add.commute)
  qed
qed

lemma ctr_tail_text:
  assumes "apart inp out (n + len)" "inp + (n + len) \<le> length mem" "out + (n + len) \<le> length mem"
    and "\<And>i. i < len \<Longrightarrow> ec ! (n + i) = key_stream E iv (a + i)"
  shows "ctr_tail_bytes len inp out ec n mem =
    (n + len, wr (out + n) (ctr_text E iv a (rd (inp + n) len mem)) mem)"
  using assms
proof (induction len arbitrary: n a mem)
  case 0
  then show ?case by simp
next
  case (Suc len)
  let ?bs = "[mem ! (inp + n) XOR ec ! n]"
  have bs: "?bs = ctr_text E iv a (rd (inp + n) 1 mem)"
    using Suc.prems(1-3) Suc.prems(4) [of 0] by (simp add: rd_Suc_byte ctr_text_one)
  have "ctr_tail_bytes len inp out ec (n + 1) (wr (out + n) ?bs mem) =
    (n + 1 + len, wr (out + n + 1) (ctr_text E iv (a + 1) (rd (inp + n + 1) len (wr (out + n) ?bs mem)))
       (wr (out + n) ?bs mem))"
    using Suc.prems(1-3) Suc.prems(4) [of "Suc _"] by (subst Suc.IH [of _ _ "a + 1"]) (simp_all add: add.assoc)
  also have "wr (out + n + 1) (ctr_text E iv (a + 1) (rd (inp + n + 1) len (wr (out + n) ?bs mem)))
       (wr (out + n) ?bs mem) = wr (out + n) (ctr_text E iv a (rd (inp + n) (1 + len) mem)) mem"
    using Suc.prems(1-3) bs by (intro wr_text_step) (auto simp: apart_def)
  finally show ?case by simp
qed

end
context block_fun
begin

lemma ctr_blocks_count:
  assumes "apart inp out (16 * q + r)" "inp + (16 * q + r) \<le> length mem" "out + (16 * q + r) \<le> length mem"
    and "r < 16"
  shows "\<exists>ec. ctr_blocks E (16 * q + r) inp out ((ctr128_inc ^^ j) iv) ecount 0 mem =
    (r, inp + 16 * q, out + 16 * q, (ctr128_inc ^^ (j + q)) iv, ec, 0,
     wr out (ctr_text E iv (16 * j) (rd inp (16 * q) mem)) mem)"
  using ctr_blocks_text [OF assms(1-3), of j iv ecount] assms(4) by simp

lemma ctr_blocks_0: "ctr_blocks F 0 inp out ivec ecount n mem = (0, inp, out, ivec, ecount, n, mem)"
  by (subst ctr_blocks.simps) simp

text \<open>The block loop and the tail, from a block boundary.\<close>

lemma ctr_from_boundary:
  assumes "apart inp out (16 * q + r)" "inp + (16 * q + r) \<le> length mem" "out + (16 * q + r) \<le> length mem"
    and "r < 16" "0 < r"
  shows "\<exists>ec. ctr_blocks E (16 * q + r) inp out ((ctr128_inc ^^ j) iv) ecount 0 mem =
      (r, inp + 16 * q, out + 16 * q, (ctr128_inc ^^ (j + q)) iv, ec, 0,
       wr out (ctr_text E iv (16 * j) (rd inp (16 * q) mem)) mem)" (is ?blocks)
    and "ctr_tail_bytes r (inp + 16 * q) (out + 16 * q) (E ((ctr128_inc ^^ (j + q)) iv)) 0
        (wr out (ctr_text E iv (16 * j) (rd inp (16 * q) mem)) mem) =
      (r, wr out (ctr_text E iv (16 * j) (rd inp (16 * q + r) mem)) mem)" (is ?tail)
proof -
  show ?blocks using assms(1-4) by (rule ctr_blocks_count)
  let ?m = "wr out (ctr_text E iv (16 * j) (rd inp (16 * q) mem)) mem"
  have ap: "apart (inp + 16 * q) (out + 16 * q) (0 + r)"
    using apart_shift [OF assms(1)] by simp
  have len: "length (ctr_text E iv (16 * j) (rd inp (16 * q) mem)) = 16 * q" using assms by simp
  have lm: "length ?m = length mem" using assms len by simp
  have ks: "E ((ctr128_inc ^^ (j + q)) iv) ! (0 + i) = key_stream E iv (16 * j + 16 * q + i)" if "i < r" for i
  proof -
    have "16 * j + 16 * q + i = 16 * (j + q) + i" "i < 16" using that assms(4) by simp_all
    then have "(16 * j + 16 * q + i) div 16 = j + q" "(16 * j + 16 * q + i) mod 16 = i"
      by (simp_all only: blocks16)
    then show ?thesis by (simp add: key_stream_def)
  qed
  have "ctr_tail_bytes r (inp + 16 * q) (out + 16 * q) (E ((ctr128_inc ^^ (j + q)) iv)) 0 ?m =
      (0 + r, wr (out + 16 * q + 0) (ctr_text E iv (16 * j + 16 * q) (rd (inp + 16 * q + 0) r ?m)) ?m)"
    using ks lm assms by (intro ctr_tail_text [OF ap]) simp_all
  also have "wr (out + 16 * q + 0) (ctr_text E iv (16 * j + 16 * q) (rd (inp + 16 * q + 0) r ?m)) ?m =
      wr out (ctr_text E iv (16 * j) (rd inp (16 * q + r) mem)) mem"
    using wr_text_step [OF assms(1-3) len refl] by simp
  finally show ?tail by simp
qed

text \<open>The whole call from a block boundary: nothing is left of a previous block.\<close>

lemma ctr_aligned:
  assumes "apart inp out len" "inp + len \<le> length mem" "out + len \<le> length mem"
    and E: "(\<lambda>b. block b key) = E"
  shows "\<exists>ivec' ecount' n'. (let (len, inp, out, ivec, ecount, n, mem) =
        ctr_blocks (\<lambda>b. block b key) len inp out ((ctr128_inc ^^ j) iv) ecount 0 mem
      in if len \<noteq> 0
         then let ecount = block ivec key;
                  ivec = ctr128_inc ivec;
                  (n, mem) = ctr_tail_bytes len inp out ecount n mem
              in (mem, ivec, ecount, n)
         else (mem, ivec, ecount, n)) =
      (wr out (ctr_text E iv (16 * j) (rd inp len mem)) mem, ivec', ecount', n') \<and>
    ctr_at E iv (16 * j + len) ivec' ecount' n'"
proof -
  obtain q r where len: "len = 16 * q + r" and r: "r < 16"
    by (rule that [of "len div 16" "len mod 16"]) simp_all
  note a = assms(1-3) [unfolded len]
  have b: "block b key = E b" for b using E by (auto dest: fun_cong)
  show ?thesis
  proof (cases "r = 0")
    case True
    obtain ec where "ctr_blocks E (16 * q) inp out ((ctr128_inc ^^ j) iv) ecount 0 mem =
      (0, inp + 16 * q, out + 16 * q, (ctr128_inc ^^ (j + q)) iv, ec, 0,
       wr out (ctr_text E iv (16 * j) (rd inp (16 * q) mem)) mem)"
      using ctr_blocks_count [OF a r, of j iv ecount] True by auto
    moreover have "ctr_at E iv (16 * j + 16 * q) ((ctr128_inc ^^ (j + q)) iv) ec 0"
    proof -
      have "16 * j + 16 * q = 16 * (j + q)" by simp
      then have "(16 * j + 16 * q) mod 16 = 0" "(16 * j + 16 * q + 15) div 16 = j + q"
        by (simp_all only: blocks16 mod_mult_self1_is_0)
      then show ?thesis by (simp only: ctr_at_def) simp
    qed
    ultimately show ?thesis using True by (simp add: len E)
  next
    case False
    then have r0: "0 < r" by simp
    obtain ec where "ctr_blocks E (16 * q + r) inp out ((ctr128_inc ^^ j) iv) ecount 0 mem =
      (r, inp + 16 * q, out + 16 * q, (ctr128_inc ^^ (j + q)) iv, ec, 0,
       wr out (ctr_text E iv (16 * j) (rd inp (16 * q) mem)) mem)"
      using ctr_from_boundary(1) [OF a r r0, of j iv ecount] by auto
    moreover note ctr_from_boundary(2) [OF a r r0, of j iv]
    moreover have "ctr_at E iv (16 * j + (16 * q + r)) (ctr128_inc ((ctr128_inc ^^ (j + q)) iv))
        (E ((ctr128_inc ^^ (j + q)) iv)) r"
    proof -
      have "16 * j + (16 * q + r) = 16 * (j + q) + r" by simp
      then have "(16 * j + (16 * q + r)) mod 16 = r" "(16 * j + (16 * q + r)) div 16 = j + q"
        "(16 * j + (16 * q + r) + 15) div 16 = Suc (j + q)"
        using r r0 by (simp_all only: blocks16)
      then show ?thesis by (simp add: ctr_at_def)
    qed
    ultimately show ?thesis using r0 by (simp add: len E b)
  qed
qed

theorem ctr_encrypt_text:
  assumes "ctr_at E iv a ivec ecount n" "apart inp out len"
    and "inp + len \<le> length mem" "out + len \<le> length mem" and E: "(\<lambda>b. block b key) = E"
  shows "\<exists>ivec' ecount' n'. CRYPTO_ctr128_encrypt inp out len key ivec ecount n block mem =
      (wr out (ctr_text E iv a (rd inp len mem)) mem, ivec', ecount', n') \<and>
    ctr_at E iv (a + len) ivec' ecount' n'"
proof -
  obtain k where k: "k \<le> len" "ctr_head len inp out ecount n mem =
      (len - k, inp + k, out + k, (a + k) mod 16, wr out (ctr_text E iv a (rd inp k mem)) mem)"
      "k = len \<or> (a + k) mod 16 = 0" "ctr_at E iv (a + k) ivec ecount ((a + k) mod 16)"
    using ctr_head_text [OF assms(1-4)] by (elim exE conjE) (rule that)
  show ?thesis
  proof (cases "(a + k) mod 16 = 0")
    case False
    then have "k = len" using k(3) by simp
    with k show ?thesis
      by (auto simp: CRYPTO_ctr128_encrypt_def ctr_blocks_0)
  next
    case True
    then obtain j where j: "a + k = 16 * j" by (metis mod_0_imp_dvd dvdE)
    have iv: "ivec = (ctr128_inc ^^ j) iv" using k(4) j by (simp add: ctr_at_def)
    let ?m = "wr out (ctr_text E iv a (rd inp k mem)) mem"
    obtain l where l: "len = k + l" using k(1) by (auto simp: le_iff_add)
    note as = assms(2-4) [unfolded l]
    have len: "length (ctr_text E iv a (rd inp k mem)) = k" using as by simp
    have lm: "length ?m = length mem" using as len by simp
    have t: "wr (out + k) (ctr_text E iv (16 * j) (rd (inp + k) l ?m)) ?m =
        wr out (ctr_text E iv a (rd inp len mem)) mem"
      using wr_text_step [OF as len refl] j l by simp
    have l': "len - k = l" and al: "16 * j + l = a + len" using l j by simp_all
    have "inp + k + l \<le> length ?m" "out + k + l \<le> length ?m" using as lm by simp_all
    from ctr_aligned [of "inp + k" "out + k" l ?m block key, OF apart_shift [OF as(1)] this E, of j iv ecount]
    show ?thesis
      unfolding t al CRYPTO_ctr128_encrypt_def k(2) l' iv True by (simp only: Let_def prod.case)
  qed
qed

end

section \<open>The counter\<close>

text \<open>The value of a big-endian counter block, and the increment as addition modulo \<open>2 ^ 128\<close>.\<close>

fun be_nat :: "bytes \<Rightarrow> nat" where
  "be_nat [] = 0"
| "be_nat (b # bs) = unat b * 256 ^ length bs + be_nat bs"

lemma be_nat_append: "be_nat (xs @ ys) = be_nat xs * 256 ^ length ys + be_nat ys"
  by (induction xs) (simp_all add: algebra_simps power_add)

lemma be_nat_less: "be_nat xs < 256 ^ length xs"
proof (induction xs)
  case (Cons x xs)
  have "unat x + 1 \<le> 256" using byte_less [of x] by linarith
  then have "(unat x + 1) * 256 ^ length xs \<le> 256 * 256 ^ length xs" by (rule mult_le_mono1)
  then have "unat x * 256 ^ length xs + 256 ^ length xs \<le> 256 ^ length (x # xs)"
    unfolding add_mult_distrib by (simp del: mult_le_cancel2)
  with Cons show ?case unfolding be_nat.simps by linarith
qed simp

lemma length_ctr128_inc_loop [simp]: "length (ctr128_inc_loop n c xs) = length xs"
  by (induction n arbitrary: c xs) (simp_all add: Let_def)

lemma length_ctr128_inc [simp]: "length (ctr128_inc xs) = length xs"
  by (simp add: ctr128_inc_def)

lemma length_ctr128_incs [simp]: "length ((ctr128_inc ^^ n) xs) = length xs"
  by (induction n) simp_all

lemma carry_step:
  assumes "unat (c :: u32) \<le> 1"
  shows "unat (drop_bit 8 (c + ucast (b :: u8))) * 256 + unat (ucast (c + ucast b) :: u8) = unat c + unat b"
    and "unat (drop_bit 8 (c + ucast (b :: u8))) \<le> 1"
proof -
  have b: "unat b < 256" using unsigned_less [of b] by simp
  have s: "unat (c + ucast b) = unat c + unat b"
  proof -
    have u: "unat (ucast b :: u32) = unat b"
      unfolding unsigned_ucast_eq by (rule take_bit_nat_eq_self, rule less_le_trans [OF b]) simp
    have "unat c + unat b < 512" using assms b by linarith
    then have "unat c + unat (ucast b :: u32) < 2 ^ LENGTH(32)" unfolding u by simp
    then show ?thesis using u by (simp only: unat_add_lem [THEN iffD1])
  qed
  have d: "unat (drop_bit 8 (c + ucast b)) = (unat c + unat b) div 256"
  proof -
    have "(unat c + unat b) mod 4294967296 = unat c + unat b"
      using assms b by (intro mod_less) linarith
    then show ?thesis by (simp add: unsigned_drop_bit_eq s drop_bit_nat_def take_bit_nat_def)
  qed
  have u: "unat (ucast (c + ucast b) :: u8) = (unat c + unat b) mod 256"
    by (simp add: unsigned_ucast_eq s take_bit_nat_def)
  show "unat (drop_bit 8 (c + ucast b)) * 256 + unat (ucast (c + ucast b) :: u8) = unat c + unat b"
    unfolding d u by simp
  show "unat (drop_bit 8 (c + ucast b)) \<le> 1"
  proof -
    have "unat c + unat b \<le> 256" using assms b by linarith
    then have "(unat c + unat b) div 256 \<le> 256 div 256" by (rule div_le_mono)
    then show ?thesis unfolding d by simp
  qed
qed

lemma ctr128_inc_loop_value:
  "n \<le> length xs \<Longrightarrow> unat c \<le> 1 \<Longrightarrow>
     be_nat (take n (ctr128_inc_loop n c xs)) = (be_nat (take n xs) + unat c) mod 256 ^ n \<and>
     drop n (ctr128_inc_loop n c xs) = drop n xs"
proof (induction n arbitrary: c xs)
  case 0
  then show ?case by simp
next
  case (Suc n)
  let ?c = "c + ucast (xs ! n)"
  let ?xs = "xs[n := ucast ?c]"
  let ?d = "drop_bit 8 ?c"
  have IH: "be_nat (take n (ctr128_inc_loop n ?d ?xs)) = (be_nat (take n ?xs) + unat ?d) mod 256 ^ n"
    "drop n (ctr128_inc_loop n ?d ?xs) = drop n ?xs"
    using Suc.IH [of ?xs ?d] Suc.prems carry_step(2) [of c "xs ! n"] by auto
  let ?ys = "ctr128_inc_loop n ?d ?xs"
  have "take (Suc n) ?ys = take n ?ys @ [?ys ! n]"
    using Suc.prems by (simp add: take_Suc_conv_app_nth)
  moreover have "?ys ! n = ucast ?c"
    using IH(2) Suc.prems by (metis length_ctr128_inc_loop length_list_update nth_via_drop
        Suc_le_lessD nth_list_update_eq Cons_nth_drop_Suc)
  ultimately have "be_nat (take (Suc n) ?ys) = (be_nat (take n xs) + unat ?d) mod 256 ^ n * 256 + unat (ucast ?c :: u8)"
    using IH(1) Suc.prems by (simp add: be_nat_append)
  also have "\<dots> = ((be_nat (take n xs) + unat ?d) * 256 + unat (ucast ?c :: u8)) mod 256 ^ Suc n"
  proof -
    have r: "unat (ucast ?c :: u8) < 256" using unsigned_less [of "ucast ?c :: u8"] by simp
    have m: "(x * 256 + r) mod 256 ^ Suc n = x mod 256 ^ n * 256 + r" if "r < 256" for x r :: nat
    proof -
      have "(x * 256 + r) mod (256 * 256 ^ n) = 256 * ((x * 256 + r) div 256 mod 256 ^ n) + (x * 256 + r) mod 256"
        by (rule mod_mult2_eq)
      with that show ?thesis by simp
    qed
    show ?thesis by (rule m [OF r, symmetric])
  qed
  also have "(be_nat (take n xs) + unat ?d) * 256 + unat (ucast ?c :: u8) = be_nat (take (Suc n) xs) + unat c"
    using carry_step(1) [of c "xs ! n"] Suc.prems
    by (simp add: take_Suc_conv_app_nth be_nat_append algebra_simps)
  finally have "be_nat (take (Suc n) ?ys) = (be_nat (take (Suc n) xs) + unat c) mod 256 ^ Suc n" .
  moreover have "drop (Suc n) ?ys = drop (Suc n) xs"
    using IH(2) by (metis drop_Suc drop_update_cancel lessI tl_drop)
  ultimately show ?case by (simp add: Let_def)
qed

theorem be_nat_ctr128_inc:
  assumes "length xs = 16"
  shows "be_nat (ctr128_inc xs) = (be_nat xs + 1) mod 2 ^ 128"
  using ctr128_inc_loop_value [of 16 xs 1] assms by (simp add: ctr128_inc_def)

lemma be_nat_ctr128_incs:
  "length xs = 16 \<Longrightarrow> be_nat ((ctr128_inc ^^ n) xs) = (be_nat xs + n) mod 2 ^ 128"
  using be_nat_less [of xs]
  by (induction n) (simp_all add: be_nat_ctr128_inc mod_Suc_eq del: power_Suc)

lemma be_nat_inject:
  "length xs = length ys \<Longrightarrow> be_nat xs = be_nat ys \<Longrightarrow> xs = ys"
proof (induction xs ys rule: list_induct2)
  case (Cons x xs y ys)
  have l: "be_nat xs < 256 ^ length xs" "be_nat ys < 256 ^ length xs"
    using be_nat_less [of xs] be_nat_less [of ys] Cons(1) by simp_all
  have eq: "unat x * 256 ^ length xs + be_nat xs = unat y * 256 ^ length xs + be_nat ys"
    using Cons by simp
  have "(unat x * 256 ^ length xs + be_nat xs) div 256 ^ length xs = unat x"
    "(unat y * 256 ^ length xs + be_nat ys) div 256 ^ length xs = unat y"
    using l by simp_all
  with eq have "unat x = unat y" by simp
  with eq Cons show ?case by (simp add: word_unat_eq_iff)
qed simp

section \<open>The whole operations\<close>

context block_cipher
begin

lemma ige_dec_enc_text:
  assumes "key_pair ek dk"
  shows "length xs = 16 * n \<Longrightarrow> length iv = 16 \<Longrightarrow> length iv2 = 16 \<Longrightarrow>
    ige_dec_text (\<lambda>b. dec b dk) n iv iv2 (ige_enc_text (\<lambda>b. enc b ek) n iv iv2 xs) = xs"
proof (induction n arbitrary: iv iv2 xs)
  case (Suc n)
  let ?x = "xorb (take 16 xs) iv"
  let ?c = "xorb (enc ?x ek) iv2"
  have l: "length (take 16 xs) = 16" "length ?x = 16" "length ?c = 16"
    using Suc.prems by (simp_all add: length_enc)
  have "xorb (dec (xorb ?c iv2) dk) iv = take 16 xs"
    using assms l Suc.prems by (simp add: xorb_cancel dec_enc length_enc)
  then show ?case
    using Suc.IH [of "drop 16 xs" ?c "take 16 xs"] Suc.prems l by (simp add: Let_def)
qed simp

lemma ige_enc_dec_text:
  assumes "key_pair ek dk"
  shows "length xs = 16 * n \<Longrightarrow> length iv = 16 \<Longrightarrow> length iv2 = 16 \<Longrightarrow>
    ige_enc_text (\<lambda>b. enc b ek) n iv iv2 (ige_dec_text (\<lambda>b. dec b dk) n iv iv2 xs) = xs"
proof (induction n arbitrary: iv iv2 xs)
  case (Suc n)
  let ?x = "xorb (take 16 xs) iv2"
  let ?p = "xorb (dec ?x dk) iv"
  have l: "length (take 16 xs) = 16" "length ?x = 16" "length ?p = 16"
    using Suc.prems by (simp_all add: length_dec)
  have "xorb (enc (xorb ?p iv) ek) iv2 = take 16 xs"
    using assms l Suc.prems by (simp add: xorb_cancel enc_dec length_dec)
  then show ?case
    using Suc.IH [of "drop 16 xs" "take 16 xs" ?p] Suc.prems l by (simp add: Let_def)
qed simp

lemma cbc_dec_enc_text:
  assumes "key_pair ek dk"
  shows "length xs = 16 * n \<Longrightarrow> length iv = 16 \<Longrightarrow>
    cbc_dec_text (\<lambda>b. dec b dk) n iv (cbc_enc_text (\<lambda>b. enc b ek) n iv xs) = xs"
proof (induction n arbitrary: iv xs)
  case (Suc n)
  let ?x = "xorb (take 16 xs) iv"
  have "xorb (dec (enc ?x ek) dk) iv = take 16 xs"
    using assms Suc.prems by (simp add: xorb_cancel dec_enc)
  then show ?case
    using Suc.IH [of "drop 16 xs" "enc ?x ek"] Suc.prems by (simp add: Let_def length_enc)
qed simp

text \<open>The pointer variant and the copying variant of IGE agree, so \<open>fast\<close> does not show.\<close>

lemma ige_encrypt_fast:
  assumes "apart inp out len" "inp + len \<le> length mem" "out + len \<le> length mem"
    and "len mod 16 = 0" "length ivec = 32"
  shows "ige_encrypt fast enc dec inp out len key ivec e mem = ige_encrypt False enc dec inp out len key ivec e mem"
proof -
  have n: "16 * (len div 16) = len" using assms(4) by (rule whole_blocks)
  have "inp + 16 * (len div 16) \<le> out \<or> out + 16 * (len div 16) \<le> inp" if "inp \<noteq> out"
    using assms(1) that unfolding n by (simp add: apart_def)
  with assms show ?thesis
    by (simp add: ige_encrypt_def Let_def encf.ige_encrypt_ptr_copy decf.ige_decrypt_ptr_copy n)
qed

lemma ige_encrypt_mem:
  assumes "apart inp out len" "inp + len \<le> length mem" "out + len \<le> length mem"
    and "len mod 16 = 0" "length ivec = 32"
  shows "fst (ige_encrypt fast enc dec inp out len key ivec True mem) =
      wr out (ige_enc_text (\<lambda>b. enc b key) (len div 16) (rd 0 16 ivec) (rd 16 16 ivec) (rd inp len mem)) mem"
    and "fst (ige_encrypt fast enc dec inp out len key ivec False mem) =
      wr out (ige_dec_text (\<lambda>b. dec b key) (len div 16) (rd 0 16 ivec) (rd 16 16 ivec) (rd inp len mem)) mem"
proof -
  have n: "16 * (len div 16) = len" using assms(4) by (rule whole_blocks)
  show "fst (ige_encrypt fast enc dec inp out len key ivec True mem) =
      wr out (ige_enc_text (\<lambda>b. enc b key) (len div 16) (rd 0 16 ivec) (rd 16 16 ivec) (rd inp len mem)) mem"
    "fst (ige_encrypt fast enc dec inp out len key ivec False mem) =
      wr out (ige_dec_text (\<lambda>b. dec b key) (len div 16) (rd 0 16 ivec) (rd 16 16 ivec) (rd inp len mem)) mem"
    unfolding ige_encrypt_fast [OF assms, of fast]
    using encf.ige_encrypt_copy_text [of inp out "len div 16" mem "rd 0 16 ivec" "rd 16 16 ivec" key]
      decf.ige_decrypt_copy_text [of inp out "len div 16" mem "rd 0 16 ivec" "rd 16 16 ivec" key] assms
    by (simp_all add: ige_encrypt_def Let_def n)
qed

lemma ige_round_trip:
  assumes "key_pair ek dk" "apart inp out len" "apart out back len"
    and "inp + len \<le> length mem" "out + len \<le> length mem" "back + len \<le> length mem"
    and "len mod 16 = 0" "length ivec = 32"
    and "ige_encrypt fast enc dec inp out len ek ivec True mem = (mem1, iv1)"
    and "ige_encrypt fast' enc dec out back len dk ivec False mem1 = (mem2, iv2)"
  shows "mem2 = wr back (rd inp len mem) mem1"
proof -
  have n: "16 * (len div 16) = len" using assms(7) by (rule whole_blocks)
  let ?c = "ige_enc_text (\<lambda>b. enc b ek) (len div 16) (rd 0 16 ivec) (rd 16 16 ivec) (rd inp len mem)"
  have m1: "mem1 = wr out ?c mem"
    using ige_encrypt_mem(1) [OF assms(2,4,5,7,8), of fast ek] assms(9) by simp
  have c: "length ?c = len" using assms n by simp
  then have l1: "length mem1 = length mem" "rd out len mem1 = ?c"
    unfolding m1 using assms(5) by (simp_all add: rd_wr_same)
  have "mem2 = wr back (ige_dec_text (\<lambda>b. dec b dk) (len div 16) (rd 0 16 ivec) (rd 16 16 ivec) (rd out len mem1)) mem1"
    using ige_encrypt_mem(2) [OF assms(3) _ _ assms(7,8), of mem1 fast' dk] assms(5,6,10) l1 by simp
  then show ?thesis
    unfolding l1 using assms n by (simp add: ige_dec_enc_text)
qed

end
context block_fun
begin

lemma ige_encrypt_copy_iv:
  assumes "apart inp out (16 * n)" "inp + 16 * n \<le> length mem" "out + 16 * n \<le> length mem"
    and "length iv = 16" "length iv2 = 16"
  shows "length (snd (ige_encrypt_copy E n inp out mem iv iv2)) = 32 \<and>
    length (snd (ige_decrypt_copy E n inp out mem iv iv2)) = 32"
  using assms
proof (induction n arbitrary: inp out mem iv iv2)
  case (Suc n)
  then have "apart (inp + 16) (out + 16) (16 * n)" by (intro apart_shift) simp
  then show ?case using Suc by (simp add: Let_def)
qed simp

lemma ige_encrypt_copy_append:
  assumes "length iv = 16" "length iv2 = 16" "inp + 16 * n \<le> length mem" "out + 16 * n \<le> length mem"
  shows "ige_encrypt_copy E (n + m) inp out mem iv iv2 =
    (let (mem, ivec) = ige_encrypt_copy E n inp out mem iv iv2
     in ige_encrypt_copy E m (inp + 16 * n) (out + 16 * n) mem (rd 0 16 ivec) (rd 16 16 ivec))"
  using assms
proof (induction n arbitrary: inp out mem iv iv2)
  case 0
  then show ?case by (simp add: rd_def)
next
  case (Suc n)
  then show ?case by (simp add: Let_def add.assoc)
qed

lemma ige_decrypt_copy_append:
  assumes "length iv = 16" "length iv2 = 16" "inp + 16 * n \<le> length mem" "out + 16 * n \<le> length mem"
  shows "ige_decrypt_copy E (n + m) inp out mem iv iv2 =
    (let (mem, ivec) = ige_decrypt_copy E n inp out mem iv iv2
     in ige_decrypt_copy E m (inp + 16 * n) (out + 16 * n) mem (rd 0 16 ivec) (rd 16 16 ivec))"
  using assms
proof (induction n arbitrary: inp out mem iv iv2)
  case 0
  then show ?case by (simp add: rd_def)
next
  case (Suc n)
  then show ?case by (simp add: Let_def add.assoc)
qed

lemma cbc_encrypt_mem:
  assumes "apart inp out len" "inp + len \<le> length mem" "out + len \<le> length mem"
    and "len mod 16 = 0" "length ivec = 16" and F: "(\<lambda>b. block b key) = E"
  shows "CRYPTO_cbc128_encrypt inp out len key ivec block mem =
    (wr out (cbc_enc_text E (len div 16) ivec (rd inp len mem)) mem,
     if len = 0 then ivec else rd (len - 16) 16 (cbc_enc_text E (len div 16) ivec (rd inp len mem)))"
proof -
  obtain n where n: "len = 16 * n" using assms(4) by (metis mod_0_imp_dvd dvdE)
  have iv: "rd 0 16 ivec = ivec" using assms(5) by (simp add: rd_def)
  note b = cbc_encrypt_blocks_text [OF assms(1-3) [unfolded n], of "Iv 0" ivec, simplified deref.simps iv]
  have "rd (out + 16 * n - 16) 16 (wr out (cbc_enc_text E n ivec (rd inp (16 * n) mem)) mem) =
      rd (16 * n - 16) 16 (cbc_enc_text E n ivec (rd inp (16 * n) mem))" if "n \<noteq> 0"
    using assms(3) that unfolding n by (simp add: rd_def wr_def)
  with b assms(5) F n show ?thesis
    by (simp add: CRYPTO_cbc128_encrypt_def cbc_encrypt_tail_def iv)
qed

lemma cbc_decrypt_mem:
  assumes "apart inp out len" "inp + len \<le> length mem" "out + len \<le> length mem"
    and "len mod 16 = 0" "length ivec = 16" and F: "(\<lambda>b. block b key) = E"
  shows "CRYPTO_cbc128_decrypt inp out len key ivec block mem =
    (wr out (cbc_dec_text E (len div 16) ivec (rd inp len mem)) mem,
     if len = 0 then ivec else rd (inp + len - 16) 16 mem)"
proof -
  obtain n where n: "len = 16 * n" using assms(4) by (metis mod_0_imp_dvd dvdE)
  have iv: "rd 0 16 ivec = ivec" using assms(5) by (simp add: rd_def)
  note c = cbc_decrypt_copy_text [OF assms(1-3) [unfolded n] assms(5)]
  have p: "cbc_decrypt_ptr E (16 * n) inp out mem ivec (Iv 0) = cbc_decrypt_copy E (16 * n) inp out mem ivec"
    if "inp + 16 * n \<le> out \<or> out + 16 * n \<le> inp"
    using cbc_decrypt_ptr_text [OF that assms(2,3) [unfolded n], of "Iv 0" ivec] assms(5)
    unfolding c by (simp add: iv)
  have sel: "(if (32 \<le> inp \<and> out \<le> inp - 32) \<or> inp < out
      then cbc_decrypt_ptr E (16 * n) inp out mem ivec (Iv 0) else cbc_decrypt_copy E (16 * n) inp out mem ivec) =
    cbc_decrypt_copy E (16 * n) inp out mem ivec"
    using p assms(1) unfolding n by (auto simp: apart_def)
  show ?thesis
    unfolding CRYPTO_cbc128_decrypt_def F n sel unfolding c by (simp add: cbc_decrypt_tail_def)
qed

end

context block_cipher
begin

lemma ige_encrypt_lengths:
  assumes "apart inp out len" "inp + len \<le> length mem" "out + len \<le> length mem"
    and "len mod 16 = 0" "length ivec = 32"
    and "ige_encrypt False enc dec inp out len key ivec e mem = (mem1, iv1)"
  shows "length mem1 = length mem" "length iv1 = 32"
proof -
  have n: "16 * (len div 16) = len" using assms(4) by (rule whole_blocks)
  have "mem1 = fst (ige_encrypt False enc dec inp out len key ivec e mem)"
    and iv1: "iv1 = snd (ige_encrypt False enc dec inp out len key ivec e mem)"
    using assms(6) by simp_all
  then show "length mem1 = length mem"
    using ige_encrypt_mem [OF assms(1-5), of False key] assms n by (cases e) simp_all
  show "length iv1 = 32"
    unfolding iv1
    using encf.ige_encrypt_copy_iv [of inp out "len div 16" mem "rd 0 16 ivec" "rd 16 16 ivec" key]
      decf.ige_encrypt_copy_iv [of inp out "len div 16" mem "rd 0 16 ivec" "rd 16 16 ivec" key] assms n
    by (cases e) (simp_all add: ige_encrypt_def)
qed

lemma ige_encrypt_pieces:
  assumes "inp + 16 * i \<le> length mem" "out + 16 * i \<le> length mem" "length ivec = 32"
    and "ige_encrypt False enc dec inp out (16 * i) key ivec e mem = (mem1, iv1)"
  shows "ige_encrypt False enc dec inp out (16 * i + 16 * j) key ivec e mem =
    ige_encrypt False enc dec (inp + 16 * i) (out + 16 * i) (16 * j) key iv1 e mem1"
proof -
  have d: "(16 * i + 16 * j) div 16 = i + j"
    using nonzero_mult_div_cancel_left [of 16 "i + j"] by (simp add: add_mult_distrib2)
  have iv: "length (rd 0 16 ivec) = 16" "length (rd 16 16 ivec) = 16" using assms(3) by simp_all
  show ?thesis
  proof (cases e)
    case True
    with assms(4) have "ige_encrypt_copy (\<lambda>b. enc b key) i inp out mem (rd 0 16 ivec) (rd 16 16 ivec) = (mem1, iv1)"
      by (simp add: ige_encrypt_def)
    with True encf.ige_encrypt_copy_append [OF iv assms(1,2), of key j] show ?thesis
      by (simp add: ige_encrypt_def d)
  next
    case False
    with assms(4) have "ige_decrypt_copy (\<lambda>b. dec b key) i inp out mem (rd 0 16 ivec) (rd 16 16 ivec) = (mem1, iv1)"
      by (simp add: ige_encrypt_def)
    with False decf.ige_decrypt_copy_append [OF iv assms(1,2), of key j] show ?thesis
      by (simp add: ige_encrypt_def d)
  qed
qed

end

section \<open>Properties\<close>

lemma key_pair_exists: "\<exists>ek dk. aes_key_pair ek dk"
proof -
  let ?k = "replicate 32 (1 :: u8)"
  obtain ek dk where ek: "AES_set_encrypt_key portable_platform (Some ?k) 256 (Some blank_aes_key) = Inr ek"
    and dk: "AES_set_decrypt_key portable_platform (Some ?k) 256 (Some blank_aes_key) = Inr dk"
    using set_key_bits(1) [of 256 ?k blank_aes_key]
      set_key_bits(2) [of 256 portable_platform ?k blank_aes_key] by auto
  have "aes_key_pair ek dk"
    unfolding aes_key_pair_def
    by (rule set_keys_inverse_schedule [OF portable_platform ek dk blank_aes_key blank_aes_key])
  then show ?thesis by blast
qed


text \<open>
  C3. IGE decryption undoes IGE encryption: on whole blocks, in place or between buffers that do not
  overlap, whichever of the two loops the alignment of the pointers picks, decrypting the ciphertext
  from the same IV stores the plaintext at \<open>back\<close> and changes no other byte.
\<close>

theorem aes_ige_round_trip:
  assumes "portable pf" "aes_key_pair ek dk" "apart inp out len" "apart out back len"
    and "inp + len \<le> length mem" "out + len \<le> length mem" "back + len \<le> length mem"
    and "len mod 16 = 0" "length ivec = 32"
    and "AES_ige_encrypt pf fast inp out len ek ivec True mem = (mem1, iv1)"
    and "AES_ige_encrypt pf fast' out back len dk ivec False mem1 = (mem2, iv2)"
  shows "mem2 = wr back (rd inp len mem) mem1"
  using assms by (intro aes.ige_round_trip) (simp_all add: AES_ige_encrypt_def)

theorem aes_ige_round_trip_witness:
  "\<exists>ek dk mem1 iv1 mem2 iv2.
     AES_ige_encrypt portable_platform True 0 32 32 ek (replicate 32 1) True (replicate 64 9) = (mem1, iv1) \<and>
     AES_ige_encrypt portable_platform False 32 32 32 dk (replicate 32 1) False mem1 = (mem2, iv2) \<and>
     mem2 = wr 32 (rd 0 32 (replicate 64 9)) mem1"
proof -
  obtain ek dk where k: "aes_key_pair ek dk" using key_pair_exists by blast
  obtain mem1 iv1 where e: "AES_ige_encrypt portable_platform True 0 32 32 ek (replicate 32 1) True (replicate 64 9) = (mem1, iv1)"
    by fastforce
  obtain mem2 iv2 where d: "AES_ige_encrypt portable_platform False 32 32 32 dk (replicate 32 1) False mem1 = (mem2, iv2)"
    by fastforce
  have "mem2 = wr 32 (rd 0 32 (replicate 64 9)) mem1"
    by (rule aes_ige_round_trip [OF portable_platform k _ _ _ _ _ _ _ e d]) (simp_all add: apart_def)
  with e d show ?thesis by blast
qed

text \<open>
  C4. A message that is encrypted in two pieces, the second one starting from the IV the first one
  left behind, is the message encrypted in one call; decryption likewise.
\<close>

theorem aes_ige_pieces:
  assumes "apart inp out (m + n)" "inp + (m + n) \<le> length mem" "out + (m + n) \<le> length mem"
    and "m mod 16 = 0" "n mod 16 = 0" "length ivec = 32"
    and "portable pf" and "AES_ige_encrypt pf fast inp out m key ivec enc mem = (mem1, iv1)"
  shows "AES_ige_encrypt pf fast inp out (m + n) key ivec enc mem =
    AES_ige_encrypt pf fast (inp + m) (out + m) n key iv1 enc mem1"
proof -
  have am: "apart inp out m" "apart (inp + m) (out + m) n"
    using assms(1) by (auto simp: apart_def)
  obtain i j where ij: "m = 16 * i" "n = 16 * j" using assms(4,5) by (metis mod_0_imp_dvd dvdE)
  have mn: "(m + n) mod 16 = 0" unfolding ij by (simp only: add_mult_distrib2 [symmetric] mod_mult_self1_is_0)
  let ?r = "ige_encrypt False aes_nohw_encrypt aes_nohw_decrypt"
  have one: "?r inp out m key ivec enc mem = (mem1, iv1)"
    using assms am aes.ige_encrypt_fast [of inp out m mem ivec fast key enc]
    by (simp add: AES_ige_encrypt_def)
  have l1: "length mem1 = length mem" "length iv1 = 32"
    using aes.ige_encrypt_lengths [OF am(1) _ _ _ _ one] assms by simp_all
  have "?r inp out (m + n) key ivec enc mem = ?r (inp + m) (out + m) n key iv1 enc mem1"
    using assms(2,3) unfolding ij
    by (intro aes.ige_encrypt_pieces [OF _ _ assms(6)] one [unfolded ij]) simp_all
  moreover have "ige_encrypt fast aes_nohw_encrypt aes_nohw_decrypt inp out (m + n) key ivec enc mem =
      ?r inp out (m + n) key ivec enc mem"
    using assms mn by (intro aes.ige_encrypt_fast) simp_all
  moreover have "ige_encrypt fast aes_nohw_encrypt aes_nohw_decrypt (inp + m) (out + m) n key iv1 enc mem1 =
      ?r (inp + m) (out + m) n key iv1 enc mem1"
    using assms am l1 by (intro aes.ige_encrypt_fast) simp_all
  ultimately show ?thesis using assms(7) by (simp add: AES_ige_encrypt_def)
qed

theorem aes_ige_pieces_witness:
  "\<exists>mem1 iv1. AES_ige_encrypt portable_platform True 0 64 16 blank_aes_key (replicate 32 1) True (replicate 128 9) = (mem1, iv1) \<and>
     AES_ige_encrypt portable_platform True 0 64 48 blank_aes_key (replicate 32 1) True (replicate 128 9) =
     AES_ige_encrypt portable_platform True 16 80 32 blank_aes_key iv1 True mem1"
proof -
  obtain mem1 iv1 where e: "AES_ige_encrypt portable_platform True 0 64 16 blank_aes_key (replicate 32 1) True (replicate 128 9) = (mem1, iv1)"
    by fastforce
  show ?thesis
    using e aes_ige_pieces [OF _ _ _ _ _ _ portable_platform e, of 32] by (simp add: apart_def)
qed

text \<open>
  C5. CBC decryption undoes CBC encryption on whole blocks, in place or apart, and both leave the
  last ciphertext block as the IV of the next call.
\<close>

theorem aes_cbc_round_trip:
  assumes "portable pf" "aes_key_pair ek dk" "apart inp out len" "apart out back len"
    and "inp + len \<le> length mem" "out + len \<le> length mem" "back + len \<le> length mem"
    and "len mod 16 = 0" "length ivec = 16"
    and "AES_cbc_encrypt pf hw inp out len ek ivec True mem = (mem1, iv1)"
    and "AES_cbc_encrypt pf hw out back len dk ivec False mem1 = (mem2, iv2)"
  shows "mem2 = wr back (rd inp len mem) mem1 \<and> iv1 = iv2"
proof -
  have n: "16 * (len div 16) = len" using assms(8) by (rule whole_blocks)
  let ?c = "cbc_enc_text (\<lambda>b. aes_nohw_encrypt b ek) (len div 16) ivec (rd inp len mem)"
  have e: "mem1 = wr out ?c mem" "iv1 = (if len = 0 then ivec else rd (len - 16) 16 ?c)"
    using aes.encf.cbc_encrypt_mem [OF assms(3,5,6,8,9), of aes_nohw_encrypt ek ek] assms(1,10)
    by (auto simp: AES_cbc_encrypt_def portable_def)
  have c: "length ?c = len" using n by (simp add: aes.encf.length_cbc_enc_text)
  then have l1: "length mem1 = length mem" "rd out len mem1 = ?c"
    unfolding e using assms(6) by (simp_all add: rd_wr_same)
  have "rd (out + len - 16) 16 mem1 = rd (len - 16) 16 ?c" if "len \<noteq> 0"
  proof -
    have "16 \<le> len" using that assms(8) by (cases "len < 16") simp_all
    then have "rd (out + len - 16) 16 mem1 = rd (len - 16) 16 (rd out len mem1)"
      by (simp add: rd_def drop_take add.commute)
    then show ?thesis unfolding l1 .
  qed
  with e show ?thesis
    using aes.decf.cbc_decrypt_mem [OF assms(4) _ _ assms(8,9), of mem1 aes_nohw_decrypt dk dk]
      aes.cbc_dec_enc_text [OF assms(2), of "rd inp len mem" "len div 16" ivec] assms l1 n
    by (auto simp: AES_cbc_encrypt_def portable_def)
qed

theorem aes_cbc_round_trip_witness:
  "\<exists>hw ek dk mem1 iv1 mem2 iv2.
     AES_cbc_encrypt portable_platform hw 8 8 48 ek (replicate 16 1) True (replicate 64 9) = (mem1, iv1) \<and>
     AES_cbc_encrypt portable_platform hw 8 8 48 dk (replicate 16 1) False mem1 = (mem2, iv2) \<and>
     mem2 = wr 8 (rd 8 48 (replicate 64 9)) mem1 \<and> iv1 = iv2"
proof -
  let ?hw = "\<lambda>inp out len key ivec e mem. (mem, ivec)"
  obtain ek dk where k: "aes_key_pair ek dk" using key_pair_exists by blast
  obtain mem1 iv1 where e: "AES_cbc_encrypt portable_platform ?hw 8 8 48 ek (replicate 16 1) True (replicate 64 9) = (mem1, iv1)"
    by fastforce
  obtain mem2 iv2 where d: "AES_cbc_encrypt portable_platform ?hw 8 8 48 dk (replicate 16 1) False mem1 = (mem2, iv2)"
    by fastforce
  have "mem2 = wr 8 (rd 8 48 (replicate 64 9)) mem1 \<and> iv1 = iv2"
    by (rule aes_cbc_round_trip [OF portable_platform k _ _ _ _ _ _ _ e d]) (simp_all add: apart_def)
  with e d show ?thesis by blast
qed

text \<open>
  C6. Counter mode from a state that stands at byte \<open>a\<close> of the key stream xors the input with the key
  stream from there on and leaves a state that stands at \<open>a + len\<close>; so calls of any sizes compose,
  and running the same call on the output gives the input back.
\<close>

theorem aes_ctr_key_stream:
  assumes "ctr_at (\<lambda>b. AES_encrypt pf b key) iv a ivec ecount n" "portable pf" "apart inp out len"
    and "inp + len \<le> length mem" "out + len \<le> length mem"
  shows "\<exists>ivec' ecount' n'. AES_ctr128_encrypt pf inp out len key ivec ecount n mem =
      (wr out (ctr_text (\<lambda>b. AES_encrypt pf b key) iv a (rd inp len mem)) mem, ivec', ecount', n') \<and>
    ctr_at (\<lambda>b. AES_encrypt pf b key) iv (a + len) ivec' ecount' n'"
  using aes.encf.ctr_encrypt_text [of key iv a ivec ecount n inp out len mem aes_nohw_encrypt key] assms
  by (simp add: AES_ctr128_encrypt_def)

theorem aes_ctr_key_stream_witness:
  "\<exists>ivec' ecount' n'. AES_ctr128_encrypt portable_platform 3 3 40 blank_aes_key (replicate 16 255) [] 0 (replicate 64 9) =
      (wr 3 (ctr_text (\<lambda>b. AES_encrypt portable_platform b blank_aes_key) (replicate 16 255) 0 (rd 3 40 (replicate 64 9)))
         (replicate 64 9), ivec', ecount', n') \<and>
    ctr_at (\<lambda>b. AES_encrypt portable_platform b blank_aes_key) (replicate 16 255) (0 + 40) ivec' ecount' n'"
  by (rule aes_ctr_key_stream) (simp_all add: ctr_at_def apart_def)

end
