(* ===== verification/JniCrypto.thy ===== *)
theory JniCrypto
  imports BlockModes "HOL-Library.Signed_Division"
begin

text \<open>
  The crypto entry points of \<^verbatim>\<open>app/jni/jni.c\<close> that \<^verbatim>\<open>Utilities.java\<close> calls.  A Java array is the list
  of its bytes and a direct buffer is the list of the bytes behind it, with the address 0 for
  \<open>GetDirectBufferAddress\<close>.  Each entry point returns the arrays and buffers as the Java caller sees
  them afterwards.  A \<open>jint\<close> is an \<^typ>\<open>int\<close>; the sums the code forms stay in its range under the
  bounds of the theorems.
\<close>

unbundle bit_operations_syntax

type_synonym jint = int

section \<open>The Java native interface\<close>

text \<open>
  \<open>GetByteArrayElements\<close> gives either a copy of the array or the array itself (\<open>is_copy\<close>).
  \<open>ReleaseByteArrayElements\<close> with mode 0 copies a copy back, with \<open>JNI_ABORT\<close> it drops it.
\<close>

datatype release_mode = CopyBack | JNI_ABORT

definition ReleaseByteArrayElements :: "bool \<Rightarrow> bytes \<Rightarrow> bytes \<Rightarrow> release_mode \<Rightarrow> bytes" where
  "ReleaseByteArrayElements is_copy array elems mode =
     (if is_copy \<and> mode = JNI_ABORT then array else elems)"

text \<open>The implicit conversion of a \<open>jint\<close> to \<open>size_t\<close>.\<close>

definition size_t :: "jint \<Rightarrow> nat" where
  "size_t n = unat (word_of_int n :: u64)"

text \<open>The status of the key setup is not looked at: after an error \<open>akey\<close> is what it was.\<close>

definition ignore_status :: "aes_key \<Rightarrow> int + aes_key \<Rightarrow> aes_key" where
  "ignore_status akey r = (case r of Inl e \<Rightarrow> akey | Inr k \<Rightarrow> k)"

text \<open>
  The context of a call: the CPU, whether \<open>AES_ige_encrypt\<close> may work on words in place, whether the
  virtual machine copies arrays, what the stack held where \<open>akey\<close> and \<open>count\<close> are, and the assembly
  CBC routine.
\<close>

record call_env =
  platform :: aes_platform
  fast_unaligned :: bool
  is_copy :: bool
  stack_key :: aes_key
  stack_count :: bytes
  hw_cbc :: "nat \<Rightarrow> nat \<Rightarrow> nat \<Rightarrow> aes_key \<Rightarrow> bytes \<Rightarrow> bool \<Rightarrow> bytes \<Rightarrow> bytes \<times> bytes"

section \<open>The entry points\<close>

definition aesIgeEncryption ::
    "call_env \<Rightarrow> bytes \<Rightarrow> bytes \<Rightarrow> bytes \<Rightarrow> bool \<Rightarrow> jint \<Rightarrow> jint \<Rightarrow> bytes \<times> bytes \<times> bytes" where
  "aesIgeEncryption env buffer key iv encrypt offset length' =
     (let what = nat offset; keyBuff = key; ivBuff = iv; akey = stack_key env;
          (buffer, iv') =
            (if \<not> encrypt
             then let akey = ignore_status akey (AES_set_decrypt_key (platform env) (Some keyBuff) (32 * 8) (Some akey))
                  in AES_ige_encrypt (platform env) (fast_unaligned env) what what (size_t length') akey ivBuff False buffer
             else let akey = ignore_status akey (AES_set_encrypt_key (platform env) (Some keyBuff) (32 * 8) (Some akey))
                  in AES_ige_encrypt (platform env) (fast_unaligned env) what what (size_t length') akey ivBuff True buffer);
          ivBuff = wr 0 iv' ivBuff
      in (buffer,
          ReleaseByteArrayElements (is_copy env) key keyBuff JNI_ABORT,
          ReleaseByteArrayElements (is_copy env) iv ivBuff CopyBack))"

definition aesIgeEncryptionByteArray ::
    "call_env \<Rightarrow> bytes \<Rightarrow> bytes \<Rightarrow> bytes \<Rightarrow> bool \<Rightarrow> jint \<Rightarrow> jint \<Rightarrow> bytes \<times> bytes \<times> bytes" where
  "aesIgeEncryptionByteArray env buffer key iv encrypt offset length' =
     (let bufferBuff = buffer; keyBuff = key; ivBuff = iv; akey = stack_key env;
          (bufferBuff, iv') =
            (if \<not> encrypt
             then let akey = ignore_status akey (AES_set_decrypt_key (platform env) (Some keyBuff) (32 * 8) (Some akey))
                  in AES_ige_encrypt (platform env) (fast_unaligned env) 0 0 (size_t length') akey ivBuff False bufferBuff
             else let akey = ignore_status akey (AES_set_encrypt_key (platform env) (Some keyBuff) (32 * 8) (Some akey))
                  in AES_ige_encrypt (platform env) (fast_unaligned env) 0 0 (size_t length') akey ivBuff True bufferBuff);
          ivBuff = wr 0 iv' ivBuff
      in (ReleaseByteArrayElements (is_copy env) buffer bufferBuff CopyBack,
          ReleaseByteArrayElements (is_copy env) key keyBuff JNI_ABORT,
          ReleaseByteArrayElements (is_copy env) iv ivBuff CopyBack))"

text \<open>
  \<open>PKCS5_PBKDF2_HMAC\<close> over SHA-512 is not modelled and so a parameter: it takes the password, the
  salt, the iteration count and the output length, and gives the status and the derived bytes.
\<close>

definition pbkdf2 ::
    "(bytes \<Rightarrow> nat \<Rightarrow> bytes \<Rightarrow> nat \<Rightarrow> u32 \<Rightarrow> nat \<Rightarrow> jint \<times> bytes) \<Rightarrow> call_env \<Rightarrow>
     bytes \<Rightarrow> bytes \<Rightarrow> bytes \<Rightarrow> jint \<Rightarrow> jint \<times> bytes \<times> bytes \<times> bytes" where
  "pbkdf2 PKCS5_PBKDF2_HMAC env password salt dst iterations =
     (let passwordBuff = password; passwordLength = length password;
          saltBuff = salt; saltLength = length salt;
          dstBuff = dst; dstLength = length dst;
          (result, derived) = PKCS5_PBKDF2_HMAC passwordBuff passwordLength saltBuff saltLength
             (word_of_int iterations) dstLength;
          dstBuff = wr 0 derived dstBuff
      in (result,
          ReleaseByteArrayElements (is_copy env) password passwordBuff JNI_ABORT,
          ReleaseByteArrayElements (is_copy env) salt saltBuff JNI_ABORT,
          ReleaseByteArrayElements (is_copy env) dst dstBuff CopyBack))"

definition aesCtrDecryption ::
    "call_env \<Rightarrow> bytes \<Rightarrow> bytes \<Rightarrow> bytes \<Rightarrow> jint \<Rightarrow> jint \<Rightarrow> bytes \<times> bytes \<times> bytes" where
  "aesCtrDecryption env buffer key iv offset length' =
     (let what = nat offset; keyBuff = key; ivBuff = iv; num = 0; count = replicate 16 0;
          akey = ignore_status (stack_key env)
                   (AES_set_encrypt_key (platform env) (Some keyBuff) (32 * 8) (Some (stack_key env)));
          (buffer, ivBuff, count, num) =
            AES_ctr128_encrypt (platform env) what what (size_t length') akey ivBuff count num buffer
      in (buffer,
          ReleaseByteArrayElements (is_copy env) key keyBuff JNI_ABORT,
          ReleaseByteArrayElements (is_copy env) iv ivBuff JNI_ABORT))"

text \<open>The four stores that put the block number \<open>b\<close> in the last four bytes of the counter block.\<close>

definition put_block_number :: "jint \<Rightarrow> bytes \<Rightarrow> bytes" where
  "put_block_number b ivBuff =
     ivBuff[15 := word_of_int (b AND 0xff),
            14 := word_of_int (drop_bit 8 b AND 0xff),
            13 := word_of_int (drop_bit 16 b AND 0xff),
            12 := word_of_int (drop_bit 24 b AND 0xff)]"

definition aesCtrDecryptionByteArray ::
    "call_env \<Rightarrow> bytes \<Rightarrow> bytes \<Rightarrow> bytes \<Rightarrow> jint \<Rightarrow> jint \<Rightarrow> jint \<Rightarrow> bytes \<times> bytes \<times> bytes" where
  "aesCtrDecryptionByteArray env buffer key iv offset length' fileOffset =
     (let bufferBuff = buffer; keyBuff = key; ivBuff = iv;
          akey = ignore_status (stack_key env)
                   (AES_set_encrypt_key (platform env) (Some keyBuff) (32 * 8) (Some (stack_key env)));
          num = unat (word_of_int (fileOffset smod 16) :: u32);
          b = fileOffset sdiv 16;
          ivBuff = put_block_number b ivBuff;
          count = AES_encrypt (platform env) ivBuff akey;
          b = (fileOffset + 15) sdiv 16;
          ivBuff = put_block_number b ivBuff;
          (bufferBuff, ivBuff, count, num) =
            AES_ctr128_encrypt (platform env) (nat offset) (nat offset) (size_t length') akey ivBuff count num bufferBuff
      in (ReleaseByteArrayElements (is_copy env) buffer bufferBuff CopyBack,
          ReleaseByteArrayElements (is_copy env) key keyBuff JNI_ABORT,
          ReleaseByteArrayElements (is_copy env) iv ivBuff JNI_ABORT))"

text \<open>The offset parameter is not used, as in the code; \<open>encrypt\<close> is a \<open>jint\<close> tested for zero.\<close>

definition aesCbcEncryptionByteArray ::
    "call_env \<Rightarrow> bytes \<Rightarrow> bytes \<Rightarrow> bytes \<Rightarrow> jint \<Rightarrow> jint \<Rightarrow> jint \<Rightarrow> jint \<Rightarrow> bytes \<times> bytes \<times> bytes" where
  "aesCbcEncryptionByteArray env buffer key iv offset length' fileOffset encrypt =
     (let bufferBuff = buffer; keyBuff = key; ivBuff = iv; akey = stack_key env;
          (akey, ivBuff) =
            (if encrypt \<noteq> 0
             then (ignore_status akey (AES_set_encrypt_key (platform env) (Some keyBuff) (32 * 8) (Some akey)), ivBuff)
             else (ignore_status akey (AES_set_decrypt_key (platform env) (Some keyBuff) (32 * 8) (Some akey)),
                   if fileOffset \<noteq> 0 then put_block_number ((fileOffset + 15) sdiv 16) ivBuff else ivBuff));
          (bufferBuff, iv') =
            AES_cbc_encrypt (platform env) (hw_cbc env) 0 0 (size_t length') akey ivBuff (encrypt \<noteq> 0) bufferBuff;
          ivBuff = wr 0 iv' ivBuff
      in (ReleaseByteArrayElements (is_copy env) buffer bufferBuff CopyBack,
          ReleaseByteArrayElements (is_copy env) key keyBuff JNI_ABORT,
          ReleaseByteArrayElements (is_copy env) iv ivBuff JNI_ABORT))"

text \<open>The offset is added twice: once to the address of the buffer and once in the call.\<close>

definition aesCbcEncryption ::
    "call_env \<Rightarrow> bytes \<Rightarrow> bytes \<Rightarrow> bytes \<Rightarrow> jint \<Rightarrow> jint \<Rightarrow> jint \<Rightarrow> bytes \<times> bytes \<times> bytes" where
  "aesCbcEncryption env buffer key iv offset length' encrypt =
     (let bufferBuff = nat offset; keyBuff = key; ivBuff = iv; akey = stack_key env;
          akey =
            (if encrypt \<noteq> 0
             then ignore_status akey (AES_set_encrypt_key (platform env) (Some keyBuff) (32 * 8) (Some akey))
             else ignore_status akey (AES_set_decrypt_key (platform env) (Some keyBuff) (32 * 8) (Some akey)));
          (buffer, iv') =
            AES_cbc_encrypt (platform env) (hw_cbc env) (bufferBuff + nat offset) (bufferBuff + nat offset)
              (size_t length') akey ivBuff (encrypt \<noteq> 0) buffer;
          ivBuff = wr 0 iv' ivBuff
      in (buffer,
          ReleaseByteArrayElements (is_copy env) key keyBuff JNI_ABORT,
          ReleaseByteArrayElements (is_copy env) iv ivBuff JNI_ABORT))"

section \<open>Loading the library\<close>

text \<open>
  \<open>JNI_OnLoad\<close>: the three fatal registrations run in this order, each only when the ones before it
  gave \<open>JNI_TRUE\<close>; the last registration is not checked.  The registrations live in other languages'
  files and are parameters; the log of calls is what the function does.
\<close>

datatype on_load_call = GetEnv | ImageOnLoad | VideoOnLoad | RegisterTgNet | TgvoipOnLoad

definition JNI_OnLoad :: "(on_load_call \<Rightarrow> jint) \<Rightarrow> jint \<times> on_load_call list" where
  "JNI_OnLoad result =
     (if result GetEnv \<noteq> 0 then (-1, [GetEnv])
      else if result ImageOnLoad \<noteq> 1 then (-1, [GetEnv, ImageOnLoad])
      else if result VideoOnLoad \<noteq> 1 then (-1, [GetEnv, ImageOnLoad, VideoOnLoad])
      else if result RegisterTgNet \<noteq> 1 then (-1, [GetEnv, ImageOnLoad, VideoOnLoad, RegisterTgNet])
      else (0x00010006, [GetEnv, ImageOnLoad, VideoOnLoad, RegisterTgNet, TgvoipOnLoad]))"

section \<open>Lemmas\<close>

lemma size_t_nat: "0 \<le> n \<Longrightarrow> n < 2 ^ 31 \<Longrightarrow> size_t n = nat n"
  by (simp add: size_t_def unat_eq_nat_uint uint_word_of_int)

lemma ignore_status_Inr [simp]: "ignore_status k (Inr k') = k'"
  by (simp add: ignore_status_def)

lemma key_setup:
  assumes "portable pf" "aes_key_storage ak" "aes_key_storage ak'"
  obtains ek dk where "AES_set_encrypt_key pf (Some key) 256 (Some ak) = Inr ek"
    and "AES_set_decrypt_key pf (Some key) 256 (Some ak') = Inr dk"
    and "aes_key_pair ek dk"
proof -
  obtain ek dk where k: "AES_set_encrypt_key pf (Some key) 256 (Some ak) = Inr ek"
    "AES_set_decrypt_key pf (Some key) 256 (Some ak') = Inr dk"
    using set_key_bits(1) [of 256 key ak] set_key_bits(2) [of 256 pf key ak'] assms(1) by auto
  moreover have "aes_key_pair ek dk"
    unfolding aes_key_pair_def by (rule set_keys_inverse_schedule [OF assms(1) k assms(2,3)])
  ultimately show ?thesis using that by blast
qed

lemma length_put_block_number [simp]: "length (put_block_number b iv) = length iv"
  by (simp add: put_block_number_def)

text \<open>The stores make the last four bytes the big-endian 32-bit block number.\<close>

lemma be_bytes_32:
  assumes "0 \<le> b" "b < 2 ^ 32"
  shows "be_nat [word_of_int (drop_bit 24 b AND 0xff), word_of_int (drop_bit 16 b AND 0xff),
     word_of_int (drop_bit 8 b AND 0xff), word_of_int (b AND 0xff)] = nat b"
proof -
  have m: "x AND 0xff = x mod 256" for x :: int
    using take_bit_eq_mask [of 8 x] by (simp add: mask_eq_exp_minus_1 take_bit_eq_mod)
  have u: "unat (word_of_int (x mod 256) :: u8) = nat (x mod 256)" for x
    by (simp add: unat_eq_nat_uint uint_word_of_int)
  obtain n where n: "b = int n" using assms(1) zero_le_imp_eq_int by blast
  have q: "n div 65536 = n div 256 div 256" "n div 16777216 = n div 256 div 256 div 256"
    by (simp_all flip: div_mult2_eq)
  have "n div 256 div 256 div 256 < 256" using assms(2) unfolding n by (simp flip: div_mult2_eq)
  then have "n div 256 div 256 div 256 mod 256 = n div 256 div 256 div 256" by (rule mod_less)
  moreover have "a = a div 256 * 256 + a mod 256" for a :: nat by simp
  note this [of n] this [of "n div 256"] this [of "n div 256 div 256"]
  ultimately have "n div 256 div 256 div 256 mod 256 * 16777216 + (n div 256 div 256 mod 256 * 65536 +
      (n div 256 mod 256 * 256 + n mod 256)) = n" by linarith
  moreover have "nat (int n mod 256) = n mod 256" "nat (int n div 256 mod 256) = n div 256 mod 256"
    "nat (int n div 65536 mod 256) = n div 256 div 256 mod 256"
    "nat (int n div 16777216 mod 256) = n div 256 div 256 div 256 mod 256"
    using q by (simp_all add: nat_mod_distrib nat_div_distrib)
  ultimately show ?thesis
    unfolding m drop_bit_eq_div be_nat.simps u n by simp
qed

lemma put_block_number_twice: "put_block_number b (put_block_number a iv) = put_block_number b iv"
  by (simp add: put_block_number_def list_update_swap)

lemma put_block_number_append:
  assumes "length iv = 16"
  shows "put_block_number b iv = take 12 iv @
    [word_of_int (drop_bit 24 b AND 0xff), word_of_int (drop_bit 16 b AND 0xff),
     word_of_int (drop_bit 8 b AND 0xff), word_of_int (b AND 0xff)]"
proof -
  obtain p d where p: "iv = p @ d" "length p = 12" "length d = 4"
    by (rule that [of "take 12 iv" "drop 12 iv"]) (use assms in simp_all)
  from p(3) obtain x y z w where "d = [x, y, z, w]"
    by (auto simp: numeral_eq_Suc length_Suc_conv)
  with p show ?thesis by (simp add: put_block_number_def list_update_append)
qed

lemma counter_at_block:
  assumes "length iv = 16" "0 \<le> b" "b < 2 ^ 32"
  shows "(ctr128_inc ^^ nat b) (put_block_number 0 iv) = put_block_number b iv"
proof (rule be_nat_inject)
  have v: "be_nat (put_block_number c iv) = be_nat (take 12 iv) * 256 ^ 4 + nat c" if "0 \<le> c" "c < 2 ^ 32" for c
    using be_bytes_32 [OF that] assms(1) unfolding put_block_number_append [OF assms(1)] be_nat_append by simp
  have "be_nat (take 12 iv) < 256 ^ 12" using be_nat_less [of "take 12 iv"] assms(1) by simp
  then have "be_nat (take 12 iv) * 256 ^ 4 + nat b < 2 ^ 128" using assms(2,3) by simp
  then show "be_nat ((ctr128_inc ^^ nat b) (put_block_number 0 iv)) = be_nat (put_block_number b iv)"
    using v [of 0] v [OF assms(2,3)] assms(1) by (simp add: be_nat_ctr128_incs)
qed simp

lemma blocks_of_offset:
  assumes "0 \<le> f" "f < 2 ^ 31 - 15"
  shows "f sdiv 16 = int (nat f div 16)" "(f + 15) sdiv 16 = int ((nat f + 15) div 16)"
    "unat (word_of_int (f smod 16) :: u32) = nat f mod 16"
proof -
  obtain n where n: "f = int n" using assms(1) zero_le_imp_eq_int by blast
  show "f sdiv 16 = int (nat f div 16)" "(f + 15) sdiv 16 = int ((nat f + 15) div 16)"
    unfolding n by (simp_all add: signed_divide_int_def zdiv_int) (auto simp: sgn_if)
  have "f smod 16 = int (n mod 16)" unfolding n by (simp add: smod_mod_positive zmod_int)
  then show "unat (word_of_int (f smod 16) :: u32) = nat f mod 16"
    using n by (simp add: unat_of_nat)
qed

text \<open>The state that \<open>aesCtrDecryptionByteArray\<close> sets up stands at byte \<open>fileOffset\<close> of the key stream.\<close>

lemma ctr_state_at_offset:
  assumes "length iv = 16" "0 \<le> f" "f < 2 ^ 31 - 15"
  shows "ctr_at E (put_block_number 0 iv) (nat f)
    (put_block_number ((f + 15) sdiv 16) (put_block_number (f sdiv 16) iv))
    (E (put_block_number (f sdiv 16) iv)) (unat (word_of_int (f smod 16) :: u32))"
proof -
  have l: "int (nat f div 16) < 2 ^ 32" "int ((nat f + 15) div 16) < 2 ^ 32" using assms(2,3) by auto
  show ?thesis
    unfolding ctr_at_def blocks_of_offset [OF assms(2,3)] put_block_number_twice
    using counter_at_block [OF assms(1) _ l(1)] counter_at_block [OF assms(1) _ l(2)] by simp
qed

lemma AES_cbc_encrypt_portable:
  "portable pf \<Longrightarrow> AES_cbc_encrypt pf hw inp out len key ivec enc mem =
     (if enc then CRYPTO_cbc128_encrypt inp out len key ivec aes_nohw_encrypt mem
      else CRYPTO_cbc128_decrypt inp out len key ivec aes_nohw_decrypt mem)"
  by (simp add: AES_cbc_encrypt_def portable_def [symmetric]) (simp add: portable_def)

text \<open>A call on a portable CPU and a virtual machine that copies arrays, for the witnesses.\<close>

definition copying_env :: call_env where
  "copying_env = \<lparr>platform = portable_platform, fast_unaligned = True, is_copy = True,
     stack_key = blank_aes_key, stack_count = [], hw_cbc = (\<lambda>inp out len key ivec enc mem. (mem, ivec))\<rparr>"

lemma copying_env [simp]:
  "platform copying_env = portable_platform" "is_copy copying_env" "stack_key copying_env = blank_aes_key"
  by (simp_all add: copying_env_def)

section \<open>Properties\<close>

text \<open>
  What \<open>aesIgeEncryption\<close> encrypts in a direct buffer, \<open>aesIgeEncryption\<close> decrypts: with the same key
  and the IV the caller started from, the buffer is what it was, whatever the stack held, whether or
  not the virtual machine copies arrays, and the caller's key array is not changed.
\<close>

theorem aesIgeEncryption_round_trip:
  assumes "portable (platform env)" "platform env' = platform env"
    and "aes_key_storage (stack_key env)" "aes_key_storage (stack_key env')"
    and "0 \<le> offset" "0 \<le> len" "len < 2 ^ 31" "nat offset + nat len \<le> length buffer"
    and "nat len mod 16 = 0" "length iv = 32"
    and "aesIgeEncryption env buffer key iv True offset len = (buffer1, key1, iv1)"
    and "aesIgeEncryption env' buffer1 key iv False offset len = (buffer2, key2, iv2)"
  shows "buffer2 = buffer \<and> key1 = key \<and> key2 = key"
proof -
  obtain ek dk where e: "AES_set_encrypt_key (platform env) (Some key) 256 (Some (stack_key env)) = Inr ek"
    and d: "AES_set_decrypt_key (platform env) (Some key) 256 (Some (stack_key env')) = Inr dk"
    and k: "aes_key_pair ek dk"
    using key_setup [OF assms(1,3,4)] by blast
  have len: "size_t len = nat len" using assms(6,7) by (rule size_t_nat)
  obtain ivb1 where 1: "AES_ige_encrypt (platform env) (fast_unaligned env) (nat offset) (nat offset)
      (nat len) ek iv True buffer = (buffer1, ivb1)"
    using assms(11) unfolding aesIgeEncryption_def by (simp add: e len Let_def split: prod.splits)
  obtain ivb2 where 2: "AES_ige_encrypt (platform env) (fast_unaligned env') (nat offset) (nat offset)
      (nat len) dk iv False buffer1 = (buffer2, ivb2)"
    using assms(12) unfolding aesIgeEncryption_def by (simp add: d len assms(2) Let_def split: prod.splits)
  have in_place: "apart (nat offset) (nat offset) (nat len)" by (simp add: apart_def)
  have r: "buffer2 = wr (nat offset) (rd (nat offset) (nat len) buffer) buffer1"
    using aes.ige_round_trip [OF k in_place in_place, of buffer iv "fast_unaligned env" buffer1 ivb1 "fast_unaligned env'" buffer2 ivb2]
      assms 1 2 by (simp add: AES_ige_encrypt_def)
  have "buffer1 = wr (nat offset) (ige_enc_text (\<lambda>b. aes_nohw_encrypt b ek) (nat len div 16) (rd 0 16 iv) (rd 16 16 iv)
      (rd (nat offset) (nat len) buffer)) buffer"
    using aes.ige_encrypt_mem(1) [OF in_place, of buffer iv "fast_unaligned env" ek] assms 1
    by (simp add: AES_ige_encrypt_def)
  moreover have "16 * (nat len div 16) = nat len" using assms(9) by (rule whole_blocks)
  ultimately have "buffer2 = buffer"
    using r assms(8,10) by (simp add: wr_wr_same)
  with assms(11,12) show ?thesis
    by (auto simp: aesIgeEncryption_def ReleaseByteArrayElements_def Let_def split: prod.splits)
qed

theorem aesIgeEncryption_round_trip_witness:
  "\<exists>buffer1 key1 iv1 buffer2 key2 iv2.
     aesIgeEncryption copying_env (replicate 50 7) (replicate 32 5) (replicate 32 1) True 2 48 = (buffer1, key1, iv1) \<and>
     aesIgeEncryption copying_env buffer1 (replicate 32 5) (replicate 32 1) False 2 48 = (buffer2, key2, iv2) \<and>
     buffer2 = replicate 50 7 \<and> key1 = replicate 32 5 \<and> key2 = replicate 32 5"
proof -
  obtain buffer1 key1 iv1 where e: "aesIgeEncryption copying_env (replicate 50 7) (replicate 32 5) (replicate 32 1) True 2 48 = (buffer1, key1, iv1)"
    using prod_cases3 by blast
  obtain buffer2 key2 iv2 where d: "aesIgeEncryption copying_env buffer1 (replicate 32 5) (replicate 32 1) False 2 48 = (buffer2, key2, iv2)"
    using prod_cases3 by blast
  have "buffer2 = replicate 50 7 \<and> key1 = replicate 32 5 \<and> key2 = replicate 32 5"
    by (rule aesIgeEncryption_round_trip [OF _ _ _ _ _ _ _ _ _ _ e d]) simp_all
  with e d show ?thesis by blast
qed

lemma ctr_byte_array_text:
  assumes "portable (platform env)" "aes_key_storage (stack_key env)"
    and "AES_set_encrypt_key (platform env) (Some key) 256 (Some (stack_key env)) = Inr ek"
    and "0 \<le> offset" "0 \<le> len" "len < 2 ^ 31" "nat offset + nat len \<le> length buffer"
    and "length iv = 16" "0 \<le> fileOffset" "fileOffset < 2 ^ 31 - 15"
  shows "fst (aesCtrDecryptionByteArray env buffer key iv offset len fileOffset) =
    wr (nat offset)
      (ctr_text (\<lambda>b. AES_encrypt (platform env) b ek) (put_block_number 0 iv) (nat fileOffset)
         (rd (nat offset) (nat len) buffer)) buffer"
proof -
  let ?E = "\<lambda>b. AES_encrypt (platform env) b ek"
  have at: "ctr_at ?E (put_block_number 0 iv) (nat fileOffset)
    (put_block_number ((fileOffset + 15) sdiv 16) (put_block_number (fileOffset sdiv 16) iv))
    (?E (put_block_number (fileOffset sdiv 16) iv)) (unat (word_of_int (fileOffset smod 16) :: u32))"
    by (rule ctr_state_at_offset [OF assms(8-10)])
  have in_place: "apart (nat offset) (nat offset) (nat len)" by (simp add: apart_def)
  obtain ivec' ecount' n' where r: "AES_ctr128_encrypt (platform env) (nat offset) (nat offset) (nat len) ek
      (put_block_number ((fileOffset + 15) sdiv 16) (put_block_number (fileOffset sdiv 16) iv))
      (?E (put_block_number (fileOffset sdiv 16) iv)) (unat (word_of_int (fileOffset smod 16) :: u32)) buffer =
    (wr (nat offset) (ctr_text ?E (put_block_number 0 iv) (nat fileOffset) (rd (nat offset) (nat len) buffer)) buffer,
     ivec', ecount', n')"
    using aes.encf.ctr_encrypt_text [of ek _ _ _ _ _ _ _ _ _ aes_nohw_encrypt ek, OF at [unfolded portable_aes [OF assms(1)]] in_place assms(7,7)]
      assms(1) by (auto simp: AES_ctr128_encrypt_def)
  have len: "size_t len = nat len" using assms(5,6) by (rule size_t_nat)
  show ?thesis
    unfolding aesCtrDecryptionByteArray_def Let_def
    by (simp add: assms(3) len r ReleaseByteArrayElements_def del: portable_aes)
qed

text \<open>
  C33. \<open>aesCtrDecryptionByteArray\<close> is random access into the stream of the file: reading \<open>length\<close> bytes
  that stand at \<open>fileOffset\<close> of the encrypted file into the array at \<open>offset\<close> xors them with the
  key stream from byte \<open>fileOffset\<close> on, where the stream starts from the block number 0.  No other byte
  of the array changes.
\<close>

theorem aesCtrDecryptionByteArray_random_access:
  assumes "portable (platform env)" "aes_key_storage (stack_key env)"
    and "AES_set_encrypt_key (platform env) (Some key) 256 (Some (stack_key env)) = Inr ek"
    and "0 \<le> offset" "0 \<le> len" "len < 2 ^ 31" "nat offset + nat len \<le> length buffer"
    and "length iv = 16" "0 \<le> fileOffset" "fileOffset < 2 ^ 31 - 15"
  shows "fst (aesCtrDecryptionByteArray env buffer key iv offset len fileOffset) =
    wr (nat offset)
      (ctr_text (\<lambda>b. AES_encrypt (platform env) b ek) (put_block_number 0 iv) (nat fileOffset)
         (rd (nat offset) (nat len) buffer)) buffer"
  using assms by (rule ctr_byte_array_text)

theorem aesCtrDecryptionByteArray_random_access_witness:
  "\<exists>ek. AES_set_encrypt_key portable_platform (Some (replicate 32 5)) 256 (Some blank_aes_key) = Inr ek \<and>
     fst (aesCtrDecryptionByteArray copying_env (replicate 50 7) (replicate 32 5) (replicate 16 1) 3 40 1000) =
     wr (nat 3) (ctr_text (\<lambda>b. AES_encrypt portable_platform b ek) (put_block_number 0 (replicate 16 1)) (nat 1000)
         (rd (nat 3) (nat 40) (replicate 50 7))) (replicate 50 7)"
proof -
  obtain ek where ek: "AES_set_encrypt_key (platform copying_env) (Some (replicate 32 5)) 256 (Some (stack_key copying_env)) = Inr ek"
    using set_key_bits(1) [of 256 "replicate 32 5" blank_aes_key] by auto
  have "fst (aesCtrDecryptionByteArray copying_env (replicate 50 7) (replicate 32 5) (replicate 16 1) 3 40 1000) =
     wr (nat 3) (ctr_text (\<lambda>b. AES_encrypt (platform copying_env) b ek) (put_block_number 0 (replicate 16 1)) (nat 1000)
         (rd (nat 3) (nat 40) (replicate 50 7))) (replicate 50 7)"
    by (rule aesCtrDecryptionByteArray_random_access [OF _ _ ek]) simp_all
  with ek show ?thesis by (auto simp del: portable_aes)
qed

text \<open>
  Seeking does not show: decrypting \<open>m + n\<close> bytes at \<open>fileOffset\<close> gives what decrypting the first
  \<open>m\<close> bytes there and the other \<open>n\<close> bytes at \<open>fileOffset + m\<close> gives.
\<close>

theorem aesCtrDecryptionByteArray_seek:
  assumes "portable (platform env)" "aes_key_storage (stack_key env)"
    and "0 \<le> offset" "0 \<le> m" "0 \<le> n" "m + n < 2 ^ 31" "nat offset + nat (m + n) \<le> length buffer"
    and "length iv = 16" "0 \<le> fileOffset" "fileOffset + m < 2 ^ 31 - 15"
  shows "fst (aesCtrDecryptionByteArray env buffer key iv offset (m + n) fileOffset) =
    fst (aesCtrDecryptionByteArray env (fst (aesCtrDecryptionByteArray env buffer key iv offset m fileOffset))
           key iv (offset + m) n (fileOffset + m))"
proof -
  obtain ek where ek: "AES_set_encrypt_key (platform env) (Some key) 256 (Some (stack_key env)) = Inr ek"
    using key_setup [OF assms(1,2,2)] by blast
  let ?T = "ctr_text (\<lambda>b. AES_encrypt (platform env) b ek) (put_block_number 0 iv)"
  let ?o = "nat offset" and ?f = "nat fileOffset" and ?M = "nat m" and ?N = "nat n"
  let ?one = "wr ?o (?T ?f (rd ?o ?M buffer)) buffer"
  have mn: "nat (m + n) = ?M + ?N" "nat (offset + m) = ?o + ?M" "nat (fileOffset + m) = ?f + ?M"
    using assms by simp_all
  have first: "fst (aesCtrDecryptionByteArray env buffer key iv offset m fileOffset) = ?one"
    using assms ek mn by (intro ctr_byte_array_text) simp_all
  have "length (?T ?f (rd ?o ?M buffer)) = ?M" using assms(7) unfolding mn by simp
  then have "length ?one = length buffer" using assms(7) unfolding mn by simp
  then have "fst (aesCtrDecryptionByteArray env ?one key iv (offset + m) n (fileOffset + m)) =
      wr (nat (offset + m)) (?T (nat (fileOffset + m)) (rd (nat (offset + m)) ?N ?one)) ?one"
    using assms ek mn by (intro ctr_byte_array_text) simp_all
  also have "\<dots> = wr ?o (?T ?f (rd ?o (?M + ?N) buffer)) buffer"
    unfolding mn using assms(7) by (intro wr_text_step) (simp_all add: mn apart_def)
  also have "\<dots> = fst (aesCtrDecryptionByteArray env buffer key iv offset (m + n) fileOffset)"
    unfolding mn(1) [symmetric] using assms ek mn by (intro ctr_byte_array_text [symmetric]) simp_all
  finally show ?thesis by (simp only: first)
qed

theorem aesCtrDecryptionByteArray_seek_witness:
  "fst (aesCtrDecryptionByteArray copying_env (replicate 50 7) (replicate 32 5) (replicate 16 1) 3 (5 + 30) 1000) =
    fst (aesCtrDecryptionByteArray copying_env
           (fst (aesCtrDecryptionByteArray copying_env (replicate 50 7) (replicate 32 5) (replicate 16 1) 3 5 1000))
           (replicate 32 5) (replicate 16 1) (3 + 5) 30 (1000 + 5))"
  by (rule aesCtrDecryptionByteArray_seek) simp_all

text \<open>
  CBC on a whole array: with \<open>fileOffset\<close> 0, decryption with the caller's IV undoes encryption, the
  offset argument makes no difference, and on a virtual machine that copies arrays the caller's
  IV is left as it was.
\<close>

theorem aesCbcEncryptionByteArray_round_trip:
  assumes "portable (platform env)" "platform env' = platform env" "is_copy env"
    and "aes_key_storage (stack_key env)" "aes_key_storage (stack_key env')"
    and "0 \<le> len" "len < 2 ^ 31" "nat len \<le> length buffer" "nat len mod 16 = 0" "length iv = 16" "flag \<noteq> 0"
    and "aesCbcEncryptionByteArray env buffer key iv offset len 0 flag = (buffer1, key1, iv1)"
    and "aesCbcEncryptionByteArray env' buffer1 key iv offset' len 0 0 = (buffer2, key2, iv2)"
  shows "buffer2 = buffer \<and> iv1 = iv"
proof -
  obtain ek dk where e: "AES_set_encrypt_key (platform env) (Some key) 256 (Some (stack_key env)) = Inr ek"
    and d: "AES_set_decrypt_key (platform env) (Some key) 256 (Some (stack_key env')) = Inr dk"
    and k: "aes_key_pair ek dk"
    using key_setup [OF assms(1,4,5)] by blast
  have len: "size_t len = nat len" using assms(6,7) by (rule size_t_nat)
  have in_place: "apart 0 0 (nat len)" by (simp add: apart_def)
  have n: "16 * (nat len div 16) = nat len" using assms(9) by (rule whole_blocks)
  let ?c = "cbc_enc_text (\<lambda>b. aes_nohw_encrypt b ek) (nat len div 16) iv (rd 0 (nat len) buffer)"
  have c: "length ?c = nat len" using n by (simp add: aes.encf.length_cbc_enc_text)
  have "buffer1 = wr 0 ?c buffer" "iv1 = iv"
    using aes.encf.cbc_encrypt_mem [OF in_place, of buffer iv aes_nohw_encrypt ek ek] assms
    by (auto simp: aesCbcEncryptionByteArray_def e len AES_cbc_encrypt_portable Let_def
        ReleaseByteArrayElements_def simp del: portable_aes split: prod.splits)
  moreover have "rd 0 (nat len) (wr 0 ?c buffer) = ?c" "length (wr 0 ?c buffer) = length buffer"
    using assms(8) c by (simp_all add: rd_wr_same)
  moreover have "fst (aesCbcEncryptionByteArray env' (wr 0 ?c buffer) key iv offset' len 0 0) =
      wr 0 (cbc_dec_text (\<lambda>b. aes_nohw_decrypt b dk) (nat len div 16) iv (rd 0 (nat len) (wr 0 ?c buffer))) (wr 0 ?c buffer)"
    using aes.decf.cbc_decrypt_mem [OF in_place, of "wr 0 ?c buffer" iv aes_nohw_decrypt dk dk] assms c
    by (simp add: aesCbcEncryptionByteArray_def d len AES_cbc_encrypt_portable Let_def
        ReleaseByteArrayElements_def del: portable_aes)
  moreover have "cbc_dec_text (\<lambda>b. aes_nohw_decrypt b dk) (nat len div 16) iv ?c = rd 0 (nat len) buffer"
    using aes.cbc_dec_enc_text [OF k, of "rd 0 (nat len) buffer" "nat len div 16" iv] assms(8,10) n by simp
  ultimately show ?thesis
    using assms(8,13) c by (simp add: wr_wr_same)
qed

theorem aesCbcEncryptionByteArray_round_trip_witness:
  "\<exists>buffer1 key1 iv1 buffer2 key2 iv2.
     aesCbcEncryptionByteArray copying_env (replicate 50 7) (replicate 32 5) (replicate 16 1) 0 48 0 1 = (buffer1, key1, iv1) \<and>
     aesCbcEncryptionByteArray copying_env buffer1 (replicate 32 5) (replicate 16 1) 9 48 0 0 = (buffer2, key2, iv2) \<and>
     buffer2 = replicate 50 7 \<and> iv1 = replicate 16 1"
proof -
  obtain buffer1 key1 iv1 where e: "aesCbcEncryptionByteArray copying_env (replicate 50 7) (replicate 32 5) (replicate 16 1) 0 48 0 1 = (buffer1, key1, iv1)"
    using prod_cases3 by blast
  obtain buffer2 key2 iv2 where d: "aesCbcEncryptionByteArray copying_env buffer1 (replicate 32 5) (replicate 16 1) 9 48 0 0 = (buffer2, key2, iv2)"
    using prod_cases3 by blast
  have "buffer2 = replicate 50 7 \<and> iv1 = replicate 16 1"
    by (rule aesCbcEncryptionByteArray_round_trip [OF _ _ _ _ _ _ _ _ _ _ _ e d]) simp_all
  with e d show ?thesis by blast
qed

text \<open>
  \<open>aesCbcEncryption\<close> works at twice the offset it is given: when \<open>2 * offset + length\<close> bytes are
  there, the bytes before \<open>2 * offset\<close> stay as they are and the \<open>length\<close> bytes from there on are
  encrypted.
\<close>

theorem aesCbcEncryption_at_twice_offset:
  assumes "portable (platform env)" "aes_key_storage (stack_key env)"
    and "AES_set_encrypt_key (platform env) (Some key) 256 (Some (stack_key env)) = Inr ek"
    and "0 \<le> offset" "0 \<le> len" "len < 2 ^ 31" "2 * nat offset + nat len \<le> length buffer"
    and "nat len mod 16 = 0" "length iv = 16" "flag \<noteq> 0"
  shows "fst (aesCbcEncryption env buffer key iv offset len flag) =
    wr (2 * nat offset) (cbc_enc_text (\<lambda>b. aes_nohw_encrypt b ek) (nat len div 16) iv
      (rd (2 * nat offset) (nat len) buffer)) buffer"
proof -
  have in_place: "apart (2 * nat offset) (2 * nat offset) (nat len)" by (simp add: apart_def)
  have len: "size_t len = nat len" using assms(5,6) by (rule size_t_nat)
  show ?thesis
    using aes.encf.cbc_encrypt_mem [OF in_place, of buffer iv aes_nohw_encrypt ek ek] assms
    by (simp add: aesCbcEncryption_def len AES_cbc_encrypt_portable Let_def mult_2 del: portable_aes)
qed

theorem aesCbcEncryption_at_twice_offset_witness:
  "\<exists>ek. fst (aesCbcEncryption copying_env (replicate 50 7) (replicate 32 5) (replicate 16 1) 1 48 1) =
    wr (2 * nat 1) (cbc_enc_text (\<lambda>b. aes_nohw_encrypt b ek) (nat 48 div 16) (replicate 16 1)
      (rd (2 * nat 1) (nat 48) (replicate 50 7))) (replicate 50 7)"
proof -
  obtain ek where ek: "AES_set_encrypt_key (platform copying_env) (Some (replicate 32 5)) 256 (Some (stack_key copying_env)) = Inr ek"
    using set_key_bits(1) [of 256 "replicate 32 5" blank_aes_key] by auto
  have "fst (aesCbcEncryption copying_env (replicate 50 7) (replicate 32 5) (replicate 16 1) 1 48 1) =
    wr (2 * nat 1) (cbc_enc_text (\<lambda>b. aes_nohw_encrypt b ek) (nat 48 div 16) (replicate 16 1)
      (rd (2 * nat 1) (nat 48) (replicate 50 7))) (replicate 50 7)"
    by (rule aesCbcEncryption_at_twice_offset [OF _ _ ek]) simp_all
  then show ?thesis by blast
qed

text \<open>
  Loading succeeds exactly when the three checked registrations give \<open>JNI_TRUE\<close>; the calls made are
  a prefix of the fixed order, and the last registration runs only when the library loads.
\<close>

theorem JNI_OnLoad_order:
  "(fst (JNI_OnLoad r) = 0x00010006 \<longleftrightarrow>
      r GetEnv = 0 \<and> r ImageOnLoad = 1 \<and> r VideoOnLoad = 1 \<and> r RegisterTgNet = 1) \<and>
    (fst (JNI_OnLoad r) = 0x00010006 \<or> fst (JNI_OnLoad r) = -1) \<and>
    (\<exists>n. snd (JNI_OnLoad r) = take n [GetEnv, ImageOnLoad, VideoOnLoad, RegisterTgNet, TgvoipOnLoad]) \<and>
    (TgvoipOnLoad \<in> set (snd (JNI_OnLoad r)) \<longleftrightarrow> fst (JNI_OnLoad r) = 0x00010006)"
proof -
  have p: "\<exists>n. [GetEnv] = take n [GetEnv, ImageOnLoad, VideoOnLoad, RegisterTgNet, TgvoipOnLoad]"
    "\<exists>n. [GetEnv, ImageOnLoad] = take n [GetEnv, ImageOnLoad, VideoOnLoad, RegisterTgNet, TgvoipOnLoad]"
    "\<exists>n. [GetEnv, ImageOnLoad, VideoOnLoad] = take n [GetEnv, ImageOnLoad, VideoOnLoad, RegisterTgNet, TgvoipOnLoad]"
    "\<exists>n. [GetEnv, ImageOnLoad, VideoOnLoad, RegisterTgNet] = take n [GetEnv, ImageOnLoad, VideoOnLoad, RegisterTgNet, TgvoipOnLoad]"
    "\<exists>n. [GetEnv, ImageOnLoad, VideoOnLoad, RegisterTgNet, TgvoipOnLoad] = take n [GetEnv, ImageOnLoad, VideoOnLoad, RegisterTgNet, TgvoipOnLoad]"
    by (rule exI [of _ 1], simp, rule exI [of _ 2], simp, rule exI [of _ 3], simp, rule exI [of _ 4], simp, rule exI [of _ 5], simp)
  show ?thesis by (auto simp: JNI_OnLoad_def intro: p)
qed

end
