(* ===== verification/FileTree.thy ===== *)
theory FileTree
  imports Prelude
begin

text \<open>
  The directory scans of \<^verbatim>\<open>app/jni/jni.c\<close>: \<open>listdir\<close> and its entry points \<open>getDirSize\<close> and
  \<open>clearDir\<close>.  The file system below the scanned path is a tree; a scan gives the sum it returns
  and the tree it leaves behind.  The code builds the path of an entry in a buffer of 4096 bytes and
  does not check that it fits: a path that does not is undefined behaviour and the result is \<open>None\<close>.
\<close>

section \<open>The file system\<close>

text \<open>
  What \<open>stat\<close> and \<open>remove\<close> see of an entry that is not a directory.  A directory has a flag that says
  if \<open>opendir\<close> can open it.
\<close>

record file_info =
  st_blocks :: int
  st_atim :: int
  st_mtim :: int
  removable :: bool

datatype node = File file_info | Dir bool "(string \<times> node) list"

section \<open>The code\<close>

text \<open>The names the scan passes over: hidden ones, and for the two document types the other type's.\<close>

definition is_music_name :: "string \<Rightarrow> bool" where
  "is_music_name name =
     (let len = length name
      in name ! (len - 4) = CHR ''.'' \<and>
         (((name ! (len - 3) = CHR ''m'' \<or> name ! (len - 3) = CHR ''M'') \<and>
           (name ! (len - 2) = CHR ''p'' \<or> name ! (len - 2) = CHR ''P'') \<and> name ! (len - 1) = CHR ''3'') \<or>
          ((name ! (len - 3) = CHR ''m'' \<or> name ! (len - 3) = CHR ''M'') \<and>
           name ! (len - 2) = CHR ''4'' \<and> (name ! (len - 1) = CHR ''a'' \<or> name ! (len - 1) = CHR ''A''))))"

definition skipped :: "int \<Rightarrow> string \<Rightarrow> bool" where
  "skipped docType name =
     (let len = length name
      in if name \<noteq> [] \<and> hd name = CHR ''.'' then True
         else if (docType = 1 \<or> docType = 2) \<and> len > 4
         then if is_music_name name then docType = 1 else docType = 2
         else False)"

definition path_fits :: "string \<Rightarrow> string \<Rightarrow> bool" where
  "path_fits fileName name \<longleftrightarrow> length fileName + 1 + length name < 4096"

text \<open>The test of mode 1: the access time if there is one, else the modification time.\<close>

definition expired :: "int \<Rightarrow> file_info \<Rightarrow> bool" where
  "expired time attrib =
     (if st_atim attrib \<noteq> 0 then st_atim attrib < time else st_mtim attrib < time)"

text \<open>
  \<open>listdir\<close> opens the path and closes it again; \<open>list_entries\<close> is its loop over \<open>readdir\<close>, which
  goes over the entries there were when the directory was opened.
\<close>

fun listdir :: "int \<Rightarrow> int \<Rightarrow> int \<Rightarrow> bool \<Rightarrow> string \<Rightarrow> node \<Rightarrow> (int \<times> node) option"
  and list_entries ::
    "int \<Rightarrow> int \<Rightarrow> int \<Rightarrow> bool \<Rightarrow> string \<Rightarrow> (string \<times> node) list \<Rightarrow> (int \<times> (string \<times> node) list) option" where
  "listdir mode docType time subdirs fileName (File attrib) = Some (0, File attrib)"
| "listdir mode docType time subdirs fileName (Dir opens entries) =
     (if opens
      then (case list_entries mode docType time subdirs fileName entries of
              None \<Rightarrow> None
            | Some (value, entries) \<Rightarrow> Some (value, Dir opens entries))
      else Some (0, Dir opens entries))"
| "list_entries mode docType time subdirs fileName [] = Some (0, [])"
| "list_entries mode docType time subdirs fileName ((name, entry) # entries) =
     (if skipped docType name
      then (case list_entries mode docType time subdirs fileName entries of
              None \<Rightarrow> None
            | Some (value, entries) \<Rightarrow> Some (value, (name, entry) # entries))
      else if \<not> path_fits fileName name then None
      else let buff = fileName @ ''/'' @ name
           in case (case entry of
                      Dir opens below \<Rightarrow>
                        if subdirs
                        then (case listdir mode docType time subdirs buff (Dir opens below) of
                                None \<Rightarrow> None
                              | Some (value, entry) \<Rightarrow> Some (value, [(name, entry)]))
                        else Some (0, [(name, entry)])
                    | File attrib \<Rightarrow>
                        if mode = 0 then Some (512 * st_blocks attrib, [(name, entry)])
                        else if mode = 1
                        then if expired time attrib \<and> removable attrib then Some (0, [])
                             else Some (0, [(name, entry)])
                        else Some (0, [(name, entry)])) of
                None \<Rightarrow> None
              | Some (value1, entry1) \<Rightarrow>
                  (case list_entries mode docType time subdirs fileName entries of
                     None \<Rightarrow> None
                   | Some (value, entries) \<Rightarrow> Some (value1 + value, entry1 @ entries)))"

definition getDirSize :: "string \<Rightarrow> int \<Rightarrow> bool \<Rightarrow> node \<Rightarrow> (int \<times> node) option" where
  "getDirSize path docType subdirs tree = listdir 0 docType 0 subdirs path tree"

definition clearDir :: "string \<Rightarrow> int \<Rightarrow> int \<Rightarrow> bool \<Rightarrow> node \<Rightarrow> node option" where
  "clearDir path docType time subdirs tree =
     (case listdir 1 docType time subdirs path tree of
        None \<Rightarrow> None
      | Some (value, tree) \<Rightarrow> Some tree)"

section \<open>What a scan sees\<close>

text \<open>
  The reference: the files a scan looks at, the tree without those of them that fail a test, and
  the paths it forms fitting their buffer.
\<close>

fun scanned :: "int \<Rightarrow> bool \<Rightarrow> node \<Rightarrow> file_info list"
  and scanned_entries :: "int \<Rightarrow> bool \<Rightarrow> (string \<times> node) list \<Rightarrow> file_info list" where
  "scanned docType subdirs (File attrib) = []"
| "scanned docType subdirs (Dir opens entries) =
     (if opens then scanned_entries docType subdirs entries else [])"
| "scanned_entries docType subdirs [] = []"
| "scanned_entries docType subdirs ((name, entry) # entries) =
     (if skipped docType name then []
      else case entry of
             File attrib \<Rightarrow> [attrib]
           | Dir opens below \<Rightarrow> if subdirs then scanned docType subdirs (Dir opens below) else []) @
     scanned_entries docType subdirs entries"

fun paths_fit :: "int \<Rightarrow> bool \<Rightarrow> string \<Rightarrow> node \<Rightarrow> bool"
  and paths_fit_entries :: "int \<Rightarrow> bool \<Rightarrow> string \<Rightarrow> (string \<times> node) list \<Rightarrow> bool" where
  "paths_fit docType subdirs fileName (File attrib) = True"
| "paths_fit docType subdirs fileName (Dir opens entries) =
     (opens \<longrightarrow> paths_fit_entries docType subdirs fileName entries)"
| "paths_fit_entries docType subdirs fileName [] = True"
| "paths_fit_entries docType subdirs fileName ((name, entry) # entries) =
     ((\<not> skipped docType name \<longrightarrow> path_fits fileName name \<and>
        (case entry of File attrib \<Rightarrow> True
         | Dir opens below \<Rightarrow> subdirs \<longrightarrow>
             paths_fit docType subdirs (fileName @ ''/'' @ name) (Dir opens below))) \<and>
      paths_fit_entries docType subdirs fileName entries)"

lemma size_scan:
  "listdir 0 docType time subdirs fileName n =
     (if paths_fit docType subdirs fileName n
      then Some (\<Sum>i\<leftarrow>scanned docType subdirs n. 512 * st_blocks i, n) else None)"
  "list_entries 0 docType time subdirs fileName es =
     (if paths_fit_entries docType subdirs fileName es
      then Some (\<Sum>i\<leftarrow>scanned_entries docType subdirs es. 512 * st_blocks i, es) else None)"
  by (induction "0 :: int" docType time subdirs fileName n and "0 :: int" docType time subdirs fileName es
      rule: listdir_list_entries.induct)
    (auto simp: Let_def split: node.splits)

fun prune :: "int \<Rightarrow> int \<Rightarrow> bool \<Rightarrow> node \<Rightarrow> node"
  and prune_entries :: "int \<Rightarrow> int \<Rightarrow> bool \<Rightarrow> (string \<times> node) list \<Rightarrow> (string \<times> node) list" where
  "prune docType time subdirs (File attrib) = File attrib"
| "prune docType time subdirs (Dir opens entries) =
     Dir opens (if opens then prune_entries docType time subdirs entries else entries)"
| "prune_entries docType time subdirs [] = []"
| "prune_entries docType time subdirs ((name, entry) # entries) =
     (if skipped docType name then [(name, entry)]
      else case entry of
             File attrib \<Rightarrow> if expired time attrib \<and> removable attrib then [] else [(name, File attrib)]
           | Dir opens below \<Rightarrow>
               [(name, if subdirs then prune docType time subdirs (Dir opens below) else Dir opens below)]) @
     prune_entries docType time subdirs entries"

lemma clear_scan:
  "listdir 1 docType time subdirs fileName n =
     (if paths_fit docType subdirs fileName n then Some (0, prune docType time subdirs n) else None)"
  "list_entries 1 docType time subdirs fileName es =
     (if paths_fit_entries docType subdirs fileName es then Some (0, prune_entries docType time subdirs es) else None)"
  by (induction "1 :: int" docType time subdirs fileName n and "1 :: int" docType time subdirs fileName es
      rule: listdir_list_entries.induct)
    (auto simp: Let_def split: node.splits)

lemma scanned_append:
  "scanned_entries docType subdirs (es @ es') = scanned_entries docType subdirs es @ scanned_entries docType subdirs es'"
  by (induction es) auto

lemma prune_entries_append:
  "prune_entries docType time subdirs (es @ es') = prune_entries docType time subdirs es @ prune_entries docType time subdirs es'"
  by (induction es) auto

lemma scanned_prune:
  "scanned docType subdirs (prune docType time subdirs n) =
     filter (\<lambda>i. \<not> (expired time i \<and> removable i)) (scanned docType subdirs n)"
  "scanned_entries docType subdirs (prune_entries docType time subdirs es) =
     filter (\<lambda>i. \<not> (expired time i \<and> removable i)) (scanned_entries docType subdirs es)"
  by (induction docType time subdirs n and docType time subdirs es rule: prune_prune_entries.induct)
    (auto simp: scanned_append split: node.splits)

lemma prune_idem:
  "prune docType time subdirs (prune docType time subdirs n) = prune docType time subdirs n"
  "prune_entries docType time subdirs (prune_entries docType time subdirs es) = prune_entries docType time subdirs es"
  by (induction docType time subdirs n and docType time subdirs es rule: prune_prune_entries.induct)
    (auto simp: prune_entries_append split: node.splits)

lemma paths_fit_append:
  "paths_fit_entries docType subdirs fileName (es @ es') \<longleftrightarrow>
     paths_fit_entries docType subdirs fileName es \<and> paths_fit_entries docType subdirs fileName es'"
  by (induction es) auto

lemma paths_fit_prune:
  "paths_fit docType subdirs fileName n \<Longrightarrow> paths_fit docType subdirs fileName (prune docType time subdirs n)"
  "paths_fit_entries docType subdirs fileName es \<Longrightarrow>
     paths_fit_entries docType subdirs fileName (prune_entries docType time subdirs es)"
  by (induction docType subdirs fileName n and docType subdirs fileName es rule: paths_fit_paths_fit_entries.induct)
    (auto simp: paths_fit_append split: node.splits if_splits)

lemma music_sum:
  "\<not> subdirs \<Longrightarrow> \<forall>(name, entry) \<in> set es. 4 < length name \<Longrightarrow>
     (\<Sum>i\<leftarrow>scanned_entries 0 subdirs es. 512 * st_blocks i) =
     (\<Sum>i\<leftarrow>scanned_entries 1 subdirs es. 512 * st_blocks i) + (\<Sum>i\<leftarrow>scanned_entries 2 subdirs es. 512 * st_blocks i)"
proof (induction es)
  case (Cons e es)
  then show ?case by (cases e) (auto simp: skipped_def Let_def split: node.splits)
qed simp

text \<open>A small tree for the witnesses: two pieces of music, one of them old, a document and a hidden file.\<close>

definition sample_file :: "int \<Rightarrow> file_info" where
  "sample_file t = \<lparr>st_blocks = 8, st_atim = t, st_mtim = 5, removable = True\<rparr>"

definition sample_entries :: "(string \<times> node) list" where
  "sample_entries = [(''old.mp3'', File (sample_file 50)), (''new.M4A'', File (sample_file 200)),
     (''letter.txt'', File (sample_file 50)), (''.nomedia'', File (sample_file 0))]"

definition sample_tree :: node where
  "sample_tree = Dir True sample_entries"

lemmas sample_defs = sample_file_def path_fits_def skipped_def is_music_name_def expired_def

section \<open>Properties\<close>

text \<open>
  When every path fits the buffer, \<open>getDirSize\<close> gives 512 times the blocks of the files it scans and
  leaves the tree as it was.
\<close>

theorem getDirSize_sum:
  assumes "paths_fit docType subdirs path tree"
  shows "getDirSize path docType subdirs tree =
    Some (512 * (\<Sum>i\<leftarrow>scanned docType subdirs tree. st_blocks i), tree)"
  using assms by (simp add: getDirSize_def size_scan sum_list_const_mult)

theorem getDirSize_sum_witness:
  "getDirSize ''/cache'' 2 False sample_tree = Some (512 * (8 + 8), sample_tree)"
proof -
  have "paths_fit 2 False ''/cache'' sample_tree"
    by (simp add: sample_tree_def sample_entries_def sample_defs)
  from getDirSize_sum [OF this] show ?thesis
    by (simp add: sample_tree_def sample_entries_def sample_defs)
qed

text \<open>
  When no path overruns its buffer, \<open>clearDir\<close> removes from the files it scans exactly the expired ones
  that can be removed, keeps the others in their order, and clearing again changes nothing.
\<close>

theorem clearDir_files:
  assumes "clearDir path docType time subdirs tree = Some tree'"
  shows "scanned docType subdirs tree' =
      filter (\<lambda>i. \<not> (expired time i \<and> removable i)) (scanned docType subdirs tree) \<and>
    clearDir path docType time subdirs tree' = Some tree'"
  using assms by (auto simp: clearDir_def clear_scan scanned_prune prune_idem paths_fit_prune split: if_splits)

theorem clearDir_files_witness:
  "clearDir ''/cache'' 2 100 True sample_tree = Some (Dir True (tl sample_entries)) \<and>
     scanned 2 True (Dir True (tl sample_entries)) =
       filter (\<lambda>i. \<not> (expired 100 i \<and> removable i)) (scanned 2 True sample_tree)"
proof -
  have c: "clearDir ''/cache'' 2 100 True sample_tree = Some (Dir True (tl sample_entries))"
    by (simp add: sample_tree_def sample_entries_def clearDir_def sample_defs)
  from clearDir_files [OF c] c show ?thesis by simp
qed

text \<open>
  Without subdirectories, the sizes of the documents and of the music of a directory add up to its
  whole size, as long as every name has more than four characters.
\<close>

theorem getDirSize_music_split:
  assumes "\<forall>(name, entry) \<in> set es. 4 < length name"
    and "getDirSize path 0 False (Dir True es) = Some (whole, t0)"
    and "getDirSize path 1 False (Dir True es) = Some (documents, t1)"
    and "getDirSize path 2 False (Dir True es) = Some (music, t2)"
  shows "whole = documents + music"
  using assms music_sum [OF _ assms(1), of False]
  by (auto simp: getDirSize_def size_scan split: if_splits)

theorem getDirSize_music_split_witness:
  "\<exists>whole documents music. getDirSize ''/cache'' 0 False sample_tree = Some (whole, sample_tree) \<and>
     getDirSize ''/cache'' 1 False sample_tree = Some (documents, sample_tree) \<and>
     getDirSize ''/cache'' 2 False sample_tree = Some (music, sample_tree) \<and> whole = documents + music"
proof -
  have fit: "paths_fit docType False ''/cache'' sample_tree" for docType
    by (simp add: sample_tree_def sample_entries_def sample_defs)
  have g: "getDirSize ''/cache'' docType False sample_tree =
      Some (512 * (\<Sum>i\<leftarrow>scanned docType False sample_tree. st_blocks i), sample_tree)" for docType
    using fit by (simp add: getDirSize_def size_scan sum_list_const_mult)
  have "\<forall>(name, entry) \<in> set sample_entries. 4 < length name" by (simp add: sample_entries_def)
  from getDirSize_music_split [OF this g [of 0, unfolded sample_tree_def] g [of 1, unfolded sample_tree_def] g [of 2, unfolded sample_tree_def]]
  show ?thesis using g unfolding sample_tree_def by blast
qed

end
