(* ===== verification/VideoFrame.thy ===== *)
theory VideoFrame
  imports Prelude "HOL-Library.Signed_Division"
begin

text \<open>
  The video frame conversion of \<^verbatim>\<open>app/jni/video.c\<close>.  The colour conversions belong to libyuv, which
  is not modelled: what the code does is to choose one of them and to lay out the planes of the
  destination buffer, so the model gives the status and the call that is made.
\<close>

section \<open>Colour formats\<close>

datatype (plugins only: size) COLOR_FORMATTYPE =
  COLOR_FormatMonochrome | COLOR_Format8bitRGB332
  | COLOR_Format12bitRGB444 | COLOR_Format16bitARGB4444
  | COLOR_Format16bitARGB1555 | COLOR_Format16bitRGB565
  | COLOR_Format16bitBGR565 | COLOR_Format18bitRGB666
  | COLOR_Format18bitARGB1665 | COLOR_Format19bitARGB1666
  | COLOR_Format24bitRGB888 | COLOR_Format24bitBGR888
  | COLOR_Format24bitARGB1887 | COLOR_Format25bitARGB1888
  | COLOR_Format32bitBGRA8888 | COLOR_Format32bitARGB8888
  | COLOR_FormatYUV411Planar | COLOR_FormatYUV411PackedPlanar
  | COLOR_FormatYUV420Planar | COLOR_FormatYUV420PackedPlanar
  | COLOR_FormatYUV420SemiPlanar | COLOR_FormatYUV422Planar
  | COLOR_FormatYUV422PackedPlanar | COLOR_FormatYUV422SemiPlanar
  | COLOR_FormatYCbYCr | COLOR_FormatYCrYCb
  | COLOR_FormatCbYCrY | COLOR_FormatCrYCbY
  | COLOR_FormatYUV444Interleaved | COLOR_FormatRawBayer8bit
  | COLOR_FormatRawBayer10bit | COLOR_FormatRawBayer8bitcompressed
  | COLOR_FormatL2 | COLOR_FormatL4
  | COLOR_FormatL8 | COLOR_FormatL16
  | COLOR_FormatL24 | COLOR_FormatL32
  | COLOR_FormatYUV420PackedSemiPlanar | COLOR_FormatYUV422PackedSemiPlanar
  | COLOR_Format18BitBGR666 | COLOR_Format24BitARGB6666
  | COLOR_Format24BitABGR6666 | COLOR_TI_FormatYUV420PackedSemiPlanar
  | COLOR_FormatSurface | COLOR_QCOM_FormatYUV420SemiPlanar

fun format_value :: "COLOR_FORMATTYPE \<Rightarrow> int" where
  "format_value COLOR_FormatMonochrome = 1"
| "format_value COLOR_Format8bitRGB332 = 2"
| "format_value COLOR_Format12bitRGB444 = 3"
| "format_value COLOR_Format16bitARGB4444 = 4"
| "format_value COLOR_Format16bitARGB1555 = 5"
| "format_value COLOR_Format16bitRGB565 = 6"
| "format_value COLOR_Format16bitBGR565 = 7"
| "format_value COLOR_Format18bitRGB666 = 8"
| "format_value COLOR_Format18bitARGB1665 = 9"
| "format_value COLOR_Format19bitARGB1666 = 10"
| "format_value COLOR_Format24bitRGB888 = 11"
| "format_value COLOR_Format24bitBGR888 = 12"
| "format_value COLOR_Format24bitARGB1887 = 13"
| "format_value COLOR_Format25bitARGB1888 = 14"
| "format_value COLOR_Format32bitBGRA8888 = 15"
| "format_value COLOR_Format32bitARGB8888 = 16"
| "format_value COLOR_FormatYUV411Planar = 17"
| "format_value COLOR_FormatYUV411PackedPlanar = 18"
| "format_value COLOR_FormatYUV420Planar = 19"
| "format_value COLOR_FormatYUV420PackedPlanar = 20"
| "format_value COLOR_FormatYUV420SemiPlanar = 21"
| "format_value COLOR_FormatYUV422Planar = 22"
| "format_value COLOR_FormatYUV422PackedPlanar = 23"
| "format_value COLOR_FormatYUV422SemiPlanar = 24"
| "format_value COLOR_FormatYCbYCr = 25"
| "format_value COLOR_FormatYCrYCb = 26"
| "format_value COLOR_FormatCbYCrY = 27"
| "format_value COLOR_FormatCrYCbY = 28"
| "format_value COLOR_FormatYUV444Interleaved = 29"
| "format_value COLOR_FormatRawBayer8bit = 30"
| "format_value COLOR_FormatRawBayer10bit = 31"
| "format_value COLOR_FormatRawBayer8bitcompressed = 32"
| "format_value COLOR_FormatL2 = 33"
| "format_value COLOR_FormatL4 = 34"
| "format_value COLOR_FormatL8 = 35"
| "format_value COLOR_FormatL16 = 36"
| "format_value COLOR_FormatL24 = 37"
| "format_value COLOR_FormatL32 = 38"
| "format_value COLOR_FormatYUV420PackedSemiPlanar = 39"
| "format_value COLOR_FormatYUV422PackedSemiPlanar = 40"
| "format_value COLOR_Format18BitBGR666 = 41"
| "format_value COLOR_Format24BitARGB6666 = 42"
| "format_value COLOR_Format24BitABGR6666 = 43"
| "format_value COLOR_TI_FormatYUV420PackedSemiPlanar = 0x7f000100"
| "format_value COLOR_FormatSurface = 0x7F000789"
| "format_value COLOR_QCOM_FormatYUV420SemiPlanar = 0x7fa30c00"

definition isSemiPlanarYUV :: "int \<Rightarrow> int" where
  "isSemiPlanarYUV colorFormat =
     (if colorFormat = format_value COLOR_FormatYUV420Planar \<or>
         colorFormat = format_value COLOR_FormatYUV420PackedPlanar then 0
      else if colorFormat = format_value COLOR_FormatYUV420SemiPlanar \<or>
         colorFormat = format_value COLOR_FormatYUV420PackedSemiPlanar \<or>
         colorFormat = format_value COLOR_TI_FormatYUV420PackedSemiPlanar then 1
      else 0)"

section \<open>The conversion\<close>

text \<open>A plane of a buffer is given by the offset of its first byte and the stride of its rows.\<close>

record plane =
  start :: int
  stride :: int

datatype yuv_call =
    ARGBToI420 plane plane plane plane int int
  | ARGBToNV21 plane plane plane int int
  | ARGBToNV12 plane plane plane int int

text \<open>
  \<open>int\<close> has 32 bits.  An overflow is undefined in C; here the result wraps, so that the theorems need bounds where
  the code needs them.  Additions to a pointer are made at the width of addresses.
\<close>

definition int32 :: "int \<Rightarrow> int" where
  "int32 x = signed_take_bit 31 x"

definition convertVideoFrame ::
    "bool \<Rightarrow> bool \<Rightarrow> int \<Rightarrow> int \<Rightarrow> int \<Rightarrow> int \<Rightarrow> int \<Rightarrow> int \<times> yuv_call option" where
  "convertVideoFrame src dest destFormat width height padding swap =
     (if \<not> src \<or> \<not> dest \<or> destFormat = 0 then (0, None)
      else
        let half_width = int32 (width + 1) sdiv 2;
            half_height = int32 (height + 1) sdiv 2;
            src_plane = \<lparr>start = 0, stride = int32 (width * 4)\<rparr>;
            y = \<lparr>start = 0, stride = width\<rparr>
        in if isSemiPlanarYUV destFormat = 0
           then if swap = 0
                then (1, Some (ARGBToI420 src_plane y
                       \<lparr>start = int32 (width * height) + int32 (half_width * half_height) + int32 (padding * 5) sdiv 4, stride = half_width\<rparr>
                       \<lparr>start = int32 (width * height) + padding, stride = half_width\<rparr> width height))
                else (1, Some (ARGBToI420 src_plane y
                       \<lparr>start = int32 (width * height) + padding, stride = half_width\<rparr>
                       \<lparr>start = int32 (width * height) + int32 (half_width * half_height) + int32 (padding * 5) sdiv 4, stride = half_width\<rparr>
                       width height))
           else if swap = 0
                then (1, Some (ARGBToNV21 src_plane y
                       \<lparr>start = int32 (width * height) + padding, stride = int32 (half_width * 2)\<rparr> width height))
                else (1, Some (ARGBToNV12 src_plane y
                       \<lparr>start = int32 (width * height) + padding, stride = int32 (half_width * 2)\<rparr> width height)))"

section \<open>Where the planes lie\<close>

text \<open>The bytes that a conversion writes into a plane with the given number of rows and bytes per row.\<close>

definition plane_bytes :: "plane \<Rightarrow> int \<Rightarrow> int \<Rightarrow> int set" where
  "plane_bytes p row_bytes rows = {a. \<exists>r c. 0 \<le> r \<and> r < rows \<and> 0 \<le> c \<and> c < row_bytes \<and> a = start p + r * stride p + c}"

text \<open>The planes of a call: the two chroma planes of I420, or the interleaved one.\<close>

fun call_planes :: "yuv_call \<Rightarrow> int set list" where
  "call_planes (ARGBToI420 s y u v w h) =
     [plane_bytes y w h, plane_bytes u ((w + 1) div 2) ((h + 1) div 2), plane_bytes v ((w + 1) div 2) ((h + 1) div 2)]"
| "call_planes (ARGBToNV21 s y uv w h) = [plane_bytes y w h, plane_bytes uv (2 * ((w + 1) div 2)) ((h + 1) div 2)]"
| "call_planes (ARGBToNV12 s y uv w h) = [plane_bytes y w h, plane_bytes uv (2 * ((w + 1) div 2)) ((h + 1) div 2)]"

fun disjoint_planes :: "int set list \<Rightarrow> bool" where
  "disjoint_planes [] = True"
| "disjoint_planes (p # ps) = ((\<forall>q \<in> set ps. p \<inter> q = {}) \<and> disjoint_planes ps)"

lemma plane_bytes_bounds:
  assumes "row_bytes \<le> stride p" "a \<in> plane_bytes p row_bytes rows"
  shows "start p \<le> a" "a < start p + rows * stride p"
proof -
  obtain r c where rc: "0 \<le> r" "r < rows" "0 \<le> c" "c < row_bytes" "a = start p + r * stride p + c"
    using assms(2) by (auto simp: plane_bytes_def)
  have st: "0 \<le> stride p" using rc assms(1) by linarith
  then show "start p \<le> a" using rc by simp
  have "(r + 1) * stride p \<le> rows * stride p" using rc st by (intro mult_right_mono) simp_all
  with rc assms(1) show "a < start p + rows * stride p" by (simp add: algebra_simps)
qed

lemma sdiv_nonneg: "0 \<le> a \<Longrightarrow> 0 < b \<Longrightarrow> a sdiv b = a div (b :: int)"
  by (auto simp: signed_divide_int_def sgn_if)

text \<open>Two planes of which the second starts at or after the end of the first do not meet.\<close>

lemma planes_disjoint:
  assumes "row_bytes \<le> stride p" "row_bytes' \<le> stride q" "start p + rows * stride p \<le> start q"
  shows "plane_bytes p row_bytes rows \<inter> plane_bytes q row_bytes' rows' = {}"
proof -
  have "a < a" if "a \<in> plane_bytes p row_bytes rows" "a \<in> plane_bytes q row_bytes' rows'" for a
    using plane_bytes_bounds [OF assms(1) that(1)] plane_bytes_bounds [OF assms(2) that(2)] assms(3) by linarith
  then show ?thesis by blast
qed

lemma plane_inside:
  assumes "row_bytes \<le> stride p" "0 \<le> start p" "start p + rows * stride p \<le> n"
  shows "plane_bytes p row_bytes rows \<subseteq> {0..<n}"
proof
  fix a assume "a \<in> plane_bytes p row_bytes rows"
  from plane_bytes_bounds [OF assms(1) this] assms(2,3) show "a \<in> {0..<n}" by simp
qed

lemma planes_layout:
  assumes "0 \<le> hw" "0 \<le> hh" "0 \<le> w" "0 \<le> h" "0 \<le> pad" "pad \<le> (pad2 :: int)"
  shows "plane_bytes \<lparr>start = 0, stride = w\<rparr> w h \<inter> plane_bytes \<lparr>start = w * h + pad, stride = hw\<rparr> hw hh = {}"
    and "plane_bytes \<lparr>start = 0, stride = w\<rparr> w h \<inter> plane_bytes \<lparr>start = w * h + hw * hh + pad2, stride = hw\<rparr> hw hh = {}"
    and "plane_bytes \<lparr>start = w * h + pad, stride = hw\<rparr> hw hh \<inter>
      plane_bytes \<lparr>start = w * h + hw * hh + pad2, stride = hw\<rparr> hw hh = {}"
    and "plane_bytes \<lparr>start = 0, stride = w\<rparr> w h \<inter> plane_bytes \<lparr>start = w * h + pad, stride = hw * 2\<rparr> (2 * hw) hh = {}"
    and "plane_bytes \<lparr>start = 0, stride = w\<rparr> w h \<subseteq> {0..<w * h + 2 * (hw * hh) + pad2}"
    and "plane_bytes \<lparr>start = w * h + pad, stride = hw\<rparr> hw hh \<subseteq> {0..<w * h + 2 * (hw * hh) + pad2}"
    and "plane_bytes \<lparr>start = w * h + hw * hh + pad2, stride = hw\<rparr> hw hh \<subseteq> {0..<w * h + 2 * (hw * hh) + pad2}"
    and "plane_bytes \<lparr>start = w * h + pad, stride = hw * 2\<rparr> (2 * hw) hh \<subseteq> {0..<w * h + 2 * (hw * hh) + pad2}"
proof -
  have m: "h * w = w * h" "hh * hw = hw * hh" "hh * (hw * 2) = 2 * (hw * hh)" "0 \<le> w * h" "0 \<le> hw * hh"
    using assms by simp_all
  show "plane_bytes \<lparr>start = 0, stride = w\<rparr> w h \<inter> plane_bytes \<lparr>start = w * h + pad, stride = hw\<rparr> hw hh = {}"
    "plane_bytes \<lparr>start = 0, stride = w\<rparr> w h \<inter> plane_bytes \<lparr>start = w * h + hw * hh + pad2, stride = hw\<rparr> hw hh = {}"
    "plane_bytes \<lparr>start = w * h + pad, stride = hw\<rparr> hw hh \<inter>
      plane_bytes \<lparr>start = w * h + hw * hh + pad2, stride = hw\<rparr> hw hh = {}"
    "plane_bytes \<lparr>start = 0, stride = w\<rparr> w h \<inter> plane_bytes \<lparr>start = w * h + pad, stride = hw * 2\<rparr> (2 * hw) hh = {}"
    using assms m by (intro planes_disjoint; simp only: plane.simps; linarith)+
  show "plane_bytes \<lparr>start = 0, stride = w\<rparr> w h \<subseteq> {0..<w * h + 2 * (hw * hh) + pad2}"
    "plane_bytes \<lparr>start = w * h + pad, stride = hw\<rparr> hw hh \<subseteq> {0..<w * h + 2 * (hw * hh) + pad2}"
    "plane_bytes \<lparr>start = w * h + hw * hh + pad2, stride = hw\<rparr> hw hh \<subseteq> {0..<w * h + 2 * (hw * hh) + pad2}"
    "plane_bytes \<lparr>start = w * h + pad, stride = hw * 2\<rparr> (2 * hw) hh \<subseteq> {0..<w * h + 2 * (hw * hh) + pad2}"
    using assms m by (intro plane_inside; simp only: plane.simps; linarith)+
qed

text \<open>A call with the two chroma channels exchanged.\<close>

fun swap_chroma :: "yuv_call \<Rightarrow> yuv_call" where
  "swap_chroma (ARGBToI420 s y u v w h) = ARGBToI420 s y v u w h"
| "swap_chroma (ARGBToNV21 s y uv w h) = ARGBToNV12 s y uv w h"
| "swap_chroma (ARGBToNV12 s y uv w h) = ARGBToNV21 s y uv w h"

section \<open>Properties\<close>

lemma int32_id: "0 \<le> x \<Longrightarrow> x < 2 ^ 31 \<Longrightarrow> int32 x = x"
  by (simp add: int32_def signed_take_bit_int_eq_self)

text \<open>
  C39. For a frame of positive size and a padding that is not negative, for which no multiplication of the code overflows an
  \<open>int\<close>, the planes the conversion writes do not overlap and lie within the first \<open>w h + 2 hw hh + 5 padding / 4\<close> bytes of the
  destination, where \<open>hw\<close> and \<open>hh\<close> are the halves of the width and the height, rounded up.  It is enough that
  \<open>4 width\<close>, \<open>width height\<close>, \<open>height + 1\<close> and \<open>5 padding\<close> are below \<open>2 ^ 31\<close>.
\<close>

theorem convertVideoFrame_planes:
  assumes "convertVideoFrame src dest destFormat width height padding swap = (status, Some call)"
    and "0 < width" "0 < height" "0 \<le> padding"
    and "width * 4 < 2 ^ 31" "height + 1 < 2 ^ 31" "width * height < 2 ^ 31" "padding * 5 < 2 ^ 31"
  shows "status = 1 \<and> disjoint_planes (call_planes call) \<and>
    \<Union> (set (call_planes call)) \<subseteq>
      {0..<width * height + 2 * ((width + 1) div 2 * ((height + 1) div 2)) + padding * 5 div 4}"
proof -
  let ?hw = "(width + 1) div 2" and ?hh = "(height + 1) div 2"
  let ?total = "width * height + 2 * (?hw * ?hh) + padding * 5 div 4"
  have "?hw \<le> width" "?hh \<le> height" using assms(2,3) by linarith+
  then have "?hw * ?hh \<le> width * height" using assms(2,3) by (intro mult_mono) simp_all
  then have "?hw * ?hh < 2 ^ 31" using assms(7) by linarith
  moreover have "?hw * 2 \<le> width * 4" using \<open>?hw \<le> width\<close> assms(2) by linarith
  then have "?hw * 2 < 2 ^ 31" using assms(5) by linarith
  ultimately have sd: "int32 (width + 1) sdiv 2 = ?hw" "int32 (height + 1) sdiv 2 = ?hh" "int32 (padding * 5) sdiv 4 = padding * 5 div 4"
    "int32 (width * height) = width * height" "int32 (?hw * ?hh) = ?hw * ?hh" "int32 (?hw * 2) = ?hw * 2"
    using assms by (simp_all add: sdiv_nonneg int32_id)
  have pos: "0 \<le> ?hw" "0 \<le> ?hh" "0 \<le> width" "0 \<le> height" "0 \<le> padding" "padding \<le> padding * 5 div 4"
    using assms by simp_all
  let ?y = "plane_bytes \<lparr>start = 0, stride = width\<rparr> width height"
  let ?lo = "plane_bytes \<lparr>start = width * height + padding, stride = ?hw\<rparr> ?hw ?hh"
  let ?hi = "plane_bytes \<lparr>start = width * height + ?hw * ?hh + padding * 5 div 4, stride = ?hw\<rparr> ?hw ?hh"
  let ?uv = "plane_bytes \<lparr>start = width * height + padding, stride = ?hw * 2\<rparr> (2 * ?hw) ?hh"
  note disj = planes_layout(1-4) [OF pos] and inside = planes_layout(5-8) [OF pos]
  consider "status = 1" "call_planes call = [?y, ?lo, ?hi]" | "status = 1" "call_planes call = [?y, ?hi, ?lo]"
    | "status = 1" "call_planes call = [?y, ?uv]"
  proof -
    have "src \<and> dest \<and> destFormat \<noteq> 0"
      using assms(1) by (rule contrapos_pp) (simp add: convertVideoFrame_def)
    then have "call_planes call = [?y, ?lo, ?hi] \<or> call_planes call = [?y, ?hi, ?lo] \<or> call_planes call = [?y, ?uv]"
      "status = 1"
      using assms(1) unfolding convertVideoFrame_def Let_def sd
      by (cases "isSemiPlanarYUV destFormat = 0"; cases "swap = 0"; force)+
    then show ?thesis using that by blast
  qed
  then show ?thesis
    using disj inside by cases (simp_all add: Int_commute)
qed

theorem convertVideoFrame_planes_witness:
  "\<exists>call. convertVideoFrame True True 21 5 3 4 1 = (1, Some call) \<and> disjoint_planes (call_planes call) \<and>
     \<Union> (set (call_planes call)) \<subseteq> {0..<32}"
proof -
  have "convertVideoFrame True True 21 5 3 4 1 = (1, Some (ARGBToNV12 \<lparr>start = 0, stride = 20\<rparr>
      \<lparr>start = 0, stride = 5\<rparr> \<lparr>start = 15 + 4, stride = 6\<rparr> 5 3))"
    by (simp add: convertVideoFrame_def isSemiPlanarYUV_def signed_divide_int_def int32_id)
  from convertVideoFrame_planes [OF this] this show ?thesis by simp
qed

text \<open>
  Swapping changes only which chroma plane comes first: the planes and the byte order of an
  interleaved plane are exchanged, the layout of the destination is the same.
\<close>

theorem convertVideoFrame_swap:
  assumes "swap \<noteq> 0"
  shows "convertVideoFrame src dest destFormat width height padding swap =
    map_prod id (map_option swap_chroma) (convertVideoFrame src dest destFormat width height padding 0)"
  using assms by (simp add: convertVideoFrame_def Let_def)

theorem convertVideoFrame_swap_witness:
  "convertVideoFrame True True 19 4 4 0 1 =
    map_prod id (map_option swap_chroma) (convertVideoFrame True True 19 4 4 0 0)"
  by (rule convertVideoFrame_swap) simp

end
