(* ===== verification/OpusInfo.thy ===== *)
theory OpusInfo
  imports Prelude
begin

text \<open>
  The header and comment packets of an Ogg Opus file as \<^verbatim>\<open>opus/opusfile/info.c\<close> reads them:
  \<open>opus_head_parse\<close>, \<open>opus_tags_parse\<close> and the operations on comments.  A packet is the list of its
  bytes.  A C string is the list of its characters without the terminating zero; a null pointer is
  \<open>None\<close>.  Memory comes from an allocator that may refuse a request: \<open>alloc size\<close> says whether
  \<open>_ogg_malloc\<close> or \<open>_ogg_realloc\<close> gives \<open>size\<close> bytes.
\<close>

unbundle bit_operations_syntax

section \<open>Errors\<close>

datatype op_error = OP_FALSE | OP_EFAULT | OP_EIMPL | OP_ENOTFORMAT | OP_EBADHEADER | OP_EVERSION

fun op_code :: "op_error \<Rightarrow> int" where
  "op_code OP_FALSE = -1"
| "op_code OP_EFAULT = -129"
| "op_code OP_EIMPL = -130"
| "op_code OP_ENOTFORMAT = -132"
| "op_code OP_EBADHEADER = -133"
| "op_code OP_EVERSION = -134"

section \<open>Integers in a packet\<close>

definition op_parse_uint16le :: "bytes \<Rightarrow> u32" where
  "op_parse_uint16le d = ucast (d ! 0) OR push_bit 8 (ucast (d ! 1))"

definition op_parse_int16le :: "bytes \<Rightarrow> int" where
  "op_parse_int16le d =
     (let ret = uint (d ! 0) OR push_bit 8 (uint (d ! 1)) in (ret XOR 0x8000) - 0x8000)"

definition op_parse_uint32le :: "bytes \<Rightarrow> u32" where
  "op_parse_uint32le d =
     ucast (d ! 0) OR push_bit 8 (ucast (d ! 1)) OR push_bit 16 (ucast (d ! 2)) OR push_bit 24 (ucast (d ! 3))"

definition op_parse_uint32be :: "bytes \<Rightarrow> u32" where
  "op_parse_uint32be d =
     ucast (d ! 3) OR push_bit 8 (ucast (d ! 2)) OR push_bit 16 (ucast (d ! 1)) OR push_bit 24 (ucast (d ! 0))"

section \<open>The identification header\<close>

record opus_head =
  version :: int
  channel_count :: int
  pre_skip :: u32
  input_sample_rate :: u32
  output_gain :: int
  mapping_family :: int
  stream_count :: int
  coupled_count :: int
  mapping :: bytes

text \<open>
  The result of a successful parse: the caller's structure, if there is one, with all fields but the
  tail of \<open>mapping\<close> replaced.  The loop over the channels stops at the first bad index.
\<close>

definition opus_head_parse :: "opus_head option \<Rightarrow> bytes \<Rightarrow> op_error + opus_head option" where
  "opus_head_parse out data =
     (let len = length data in
      if len < 8 then Inl OP_ENOTFORMAT
      else if take 8 data \<noteq> ascii ''OpusHead'' then Inl OP_ENOTFORMAT
      else if len < 9 then Inl OP_EBADHEADER
      else let ver = uint (data ! 8) in
      if ver > 15 then Inl OP_EVERSION
      else if len < 19 then Inl OP_EBADHEADER
      else
        let channels = uint (data ! 9);
            skip = op_parse_uint16le (drop 10 data);
            rate = op_parse_uint32le (drop 12 data);
            gain = op_parse_int16le (drop 16 data);
            family = uint (data ! 18);
            store = (\<lambda>streams coupled map_bytes.
              Inr (case out of None \<Rightarrow> None
                   | Some h \<Rightarrow> Some \<lparr>version = ver, channel_count = channels, pre_skip = skip,
                       input_sample_rate = rate, output_gain = gain, mapping_family = family,
                       stream_count = streams, coupled_count = coupled,
                       mapping = map_bytes @ drop (length map_bytes) (mapping h)\<rparr>))
        in if family = 0
           then if channels < 1 \<or> channels > 2 then Inl OP_EBADHEADER
                else if ver \<le> 1 \<and> len > 19 then Inl OP_EBADHEADER
                else store 1 (channels - 1) [0, 1]
           else if family = 1
           then if channels < 1 \<or> channels > 8 then Inl OP_EBADHEADER
                else let size = nat (21 + channels) in
                if len < size \<or> ver \<le> 1 \<and> len > size then Inl OP_EBADHEADER
                else let streams = uint (data ! 19) in
                if streams < 1 then Inl OP_EBADHEADER
                else let coupled = uint (data ! 20) in
                if coupled > streams then Inl OP_EBADHEADER
                else if \<exists>d \<in> set (take (nat channels) (drop 21 data)). uint d \<ge> streams + coupled \<and> uint d \<noteq> 255
                then Inl OP_EBADHEADER
                else store streams coupled (take (nat channels) (drop 21 data))
           else if family = 255 then Inl OP_EIMPL
           else Inl OP_EBADHEADER)"

section \<open>The comment header\<close>

record opus_tags =
  user_comments :: "bytes option list"
  comment_lengths :: "int list"
  comments :: int
  vendor :: "bytes option"

definition opus_tags_init :: opus_tags where
  "opus_tags_init = \<lparr>user_comments = [], comment_lengths = [], comments = 0, vendor = None\<rparr>"

text \<open>The status and the structure, whose lengths have grown even when the comments could not.\<close>

definition op_tags_ensure_capacity :: "(nat \<Rightarrow> bool) \<Rightarrow> opus_tags \<Rightarrow> nat \<Rightarrow> op_error option \<times> opus_tags" where
  "op_tags_ensure_capacity alloc tags ncomments =
     (if ncomments \<ge> INT_MAX then (Some OP_EFAULT, tags)
      else let size = (4 * (ncomments + 1)) mod 2 ^ 64 in
      if size div 4 \<noteq> ncomments + 1 then (Some OP_EFAULT, tags)
      else if \<not> alloc size then (Some OP_EFAULT, tags)
      else let tags = tags\<lparr>comment_lengths := (resize 0 (ncomments + 1) (comment_lengths tags))[ncomments := 0]\<rparr>;
               size = (8 * (ncomments + 1)) mod 2 ^ 64 in
      if size div 8 \<noteq> ncomments + 1 then (Some OP_EFAULT, tags)
      else if \<not> alloc size then (Some OP_EFAULT, tags)
      else (None, tags\<lparr>user_comments := (resize None (ncomments + 1) (user_comments tags))[ncomments := None]\<rparr>))"

definition op_strdup_with_len :: "(nat \<Rightarrow> bool) \<Rightarrow> bytes \<Rightarrow> nat \<Rightarrow> bytes option" where
  "op_strdup_with_len alloc s len =
     (let size = (len + 1) mod 2 ^ 64 in
      if size < len then None else if alloc size then Some (take len s) else None)"

text \<open>The loop of \<open>opus_tags_parse_impl\<close>, with \<open>ncomments - ci\<close> comments left to read.\<close>

fun parse_comments ::
    "(nat \<Rightarrow> bool) \<Rightarrow> nat \<Rightarrow> nat \<Rightarrow> opus_tags option \<Rightarrow> bytes \<Rightarrow> op_error + opus_tags option" where
  "parse_comments alloc 0 ci tags data = Inr tags"
| "parse_comments alloc (Suc left) ci tags data =
     (if Suc left > length data div 4 then Inl OP_EBADHEADER
      else let count = unat (op_parse_uint32le data); data = drop 4 data in
      if count > length data then Inl OP_EBADHEADER
      else if count > INT_MAX then Inl OP_EFAULT
      else case tags of
             None \<Rightarrow> parse_comments alloc left (Suc ci) None (drop count data)
           | Some t \<Rightarrow>
               (case op_strdup_with_len alloc data count of
                  None \<Rightarrow> Inl OP_EFAULT
                | Some s \<Rightarrow>
                    parse_comments alloc left (Suc ci)
                      (Some (t\<lparr>user_comments := (user_comments t)[ci := Some s],
                               comment_lengths := (comment_lengths t)[ci := int count],
                               comments := int ci + 1\<rparr>)) (drop count data)))"

definition opus_tags_parse_impl ::
    "(nat \<Rightarrow> bool) \<Rightarrow> opus_tags option \<Rightarrow> bytes \<Rightarrow> op_error + opus_tags option" where
  "opus_tags_parse_impl alloc tags data =
     (if length data < 8 then Inl OP_ENOTFORMAT
      else if take 8 data \<noteq> ascii ''OpusTags'' then Inl OP_ENOTFORMAT
      else if length data < 16 then Inl OP_EBADHEADER
      else let data = drop 8 data; count = unat (op_parse_uint32le data); data = drop 4 data in
      if count > length data then Inl OP_EBADHEADER
      else case (case tags of
                   None \<Rightarrow> Inr None
                 | Some t \<Rightarrow> (case op_strdup_with_len alloc data count of
                               None \<Rightarrow> Inl OP_EFAULT
                             | Some s \<Rightarrow> Inr (Some (t\<lparr>vendor := Some s\<rparr>)))) of
             Inl e \<Rightarrow> Inl e
           | Inr tags \<Rightarrow>
               let data = drop count data in
               if length data < 4 then Inl OP_EBADHEADER
               else let count = unat (op_parse_uint32le data); data = drop 4 data in
               if count > length data div 4 then Inl OP_EBADHEADER
               else if count > INT_MAX - 1 then Inl OP_EFAULT
               else case (case tags of
                            None \<Rightarrow> Inr None
                          | Some t \<Rightarrow> (case op_tags_ensure_capacity alloc t count of
                                        (Some e, t) \<Rightarrow> Inl e | (None, t) \<Rightarrow> Inr (Some t))) of
                      Inl e \<Rightarrow> Inl e
                    | Inr tags \<Rightarrow> parse_comments alloc count 0 tags data)"

text \<open>
  \<open>opus_tags_parse\<close> parses into a fresh structure and replaces the caller's only on success; the
  first component is the status.
\<close>

definition opus_tags_parse :: "(nat \<Rightarrow> bool) \<Rightarrow> opus_tags option \<Rightarrow> bytes \<Rightarrow> int \<times> opus_tags option" where
  "opus_tags_parse alloc tags data =
     (case tags of
        Some old \<Rightarrow>
          (case opus_tags_parse_impl alloc (Some opus_tags_init) data of
             Inl e \<Rightarrow> (op_code e, Some old)
           | Inr new \<Rightarrow> (0, new))
      | None \<Rightarrow>
          (case opus_tags_parse_impl alloc None data of Inl e \<Rightarrow> (op_code e, None) | Inr new \<Rightarrow> (0, None)))"

section \<open>Copying and adding comments\<close>

text \<open>A C string ends at its first zero.\<close>

definition cstring :: "bytes \<Rightarrow> bytes" where
  "cstring s = takeWhile (\<lambda>c. c \<noteq> 0) s"

fun copy_comments :: "(nat \<Rightarrow> bool) \<Rightarrow> nat \<Rightarrow> nat \<Rightarrow> opus_tags \<Rightarrow> opus_tags \<Rightarrow> op_error + opus_tags" where
  "copy_comments alloc 0 ci dst src = Inr dst"
| "copy_comments alloc (Suc left) ci dst src =
     (let len = comment_lengths src ! ci in
      case op_strdup_with_len alloc (the (user_comments src ! ci)) (nat len) of
        None \<Rightarrow> Inl OP_EFAULT
      | Some s \<Rightarrow>
          copy_comments alloc left (Suc ci)
            (dst\<lparr>user_comments := (user_comments dst)[ci := Some s],
                 comment_lengths := (comment_lengths dst)[ci := len],
                 comments := int ci + 1\<rparr>) src)"

definition opus_tags_copy_impl :: "(nat \<Rightarrow> bool) \<Rightarrow> opus_tags \<Rightarrow> opus_tags \<Rightarrow> op_error + opus_tags" where
  "opus_tags_copy_impl alloc dst src =
     (let v = cstring (the (vendor src)) in
      case op_strdup_with_len alloc v (length v) of
        None \<Rightarrow> Inl OP_EFAULT
      | Some s \<Rightarrow>
          (case op_tags_ensure_capacity alloc (dst\<lparr>vendor := Some s\<rparr>) (nat (comments src)) of
             (Some e, dst) \<Rightarrow> Inl e
           | (None, dst) \<Rightarrow> copy_comments alloc (nat (comments src)) 0 dst src))"

text \<open>The status is 0 even when the copy failed and the destination was left alone.\<close>

definition opus_tags_copy :: "(nat \<Rightarrow> bool) \<Rightarrow> opus_tags \<Rightarrow> opus_tags \<Rightarrow> int \<times> opus_tags" where
  "opus_tags_copy alloc dst src =
     (case opus_tags_copy_impl alloc opus_tags_init src of Inl e \<Rightarrow> (0, dst) | Inr new \<Rightarrow> (0, new))"

text \<open>Both ways to add a comment store it one past the last one and do not count it in \<open>comments\<close>.\<close>

definition opus_tags_add :: "(nat \<Rightarrow> bool) \<Rightarrow> opus_tags \<Rightarrow> bytes \<Rightarrow> bytes \<Rightarrow> int \<times> opus_tags" where
  "opus_tags_add alloc tags tag value =
     (let ncomments = nat (comments tags) in
      case op_tags_ensure_capacity alloc tags (ncomments + 1) of
        (Some e, tags) \<Rightarrow> (op_code e, tags)
      | (None, tags) \<Rightarrow>
          let tag_len = length (cstring tag); value_len = length (cstring value);
              tags = tags\<lparr>comment_lengths := (comment_lengths tags)[ncomments := 0]\<rparr> in
          if \<not> alloc (tag_len + value_len + 2)
          then (op_code OP_EFAULT, tags\<lparr>user_comments := (user_comments tags)[ncomments := None]\<rparr>)
          else (0, tags\<lparr>comment_lengths := (comment_lengths tags)[ncomments := int (tag_len + value_len + 1)],
                        user_comments := (user_comments tags)[ncomments := Some (cstring tag @ [0x3D] @ cstring value)]\<rparr>))"

definition opus_tags_add_comment :: "(nat \<Rightarrow> bool) \<Rightarrow> opus_tags \<Rightarrow> bytes \<Rightarrow> int \<times> opus_tags" where
  "opus_tags_add_comment alloc tags comment =
     (let ncomments = nat (comments tags) in
      case op_tags_ensure_capacity alloc tags (ncomments + 1) of
        (Some e, tags) \<Rightarrow> (op_code e, tags)
      | (None, tags) \<Rightarrow>
          let comment_len = length (cstring comment);
              tags = tags\<lparr>comment_lengths := (comment_lengths tags)[ncomments := 0]\<rparr> in
          case op_strdup_with_len alloc comment comment_len of
            None \<Rightarrow> (op_code OP_EFAULT, tags\<lparr>user_comments := (user_comments tags)[ncomments := None]\<rparr>)
          | Some s \<Rightarrow>
              (0, tags\<lparr>user_comments := (user_comments tags)[ncomments := Some s],
                       comment_lengths := (comment_lengths tags)[ncomments := int comment_len]\<rparr>))"

section \<open>Looking for a tag\<close>

text \<open>Character \<open>i\<close> of a C string; the terminating zero is at its length.\<close>

definition char_at :: "bytes \<Rightarrow> nat \<Rightarrow> int" where
  "char_at s i = (if i < length s then uint (s ! i) else 0)"

definition upcase :: "int \<Rightarrow> int" where
  "upcase a = (if a \<ge> 0x61 \<and> a \<le> 0x7A then a - (0x61 - 0x41) else a)"

fun strncasecmp_from :: "bytes \<Rightarrow> bytes \<Rightarrow> nat \<Rightarrow> nat \<Rightarrow> int" where
  "strncasecmp_from a b i 0 = 0"
| "strncasecmp_from a b i (Suc n) =
     (let d = upcase (char_at a i) - upcase (char_at b i)
      in if d \<noteq> 0 then d else strncasecmp_from a b (Suc i) n)"

definition op_strncasecmp :: "bytes \<Rightarrow> bytes \<Rightarrow> nat \<Rightarrow> int" where
  "op_strncasecmp a b n = strncasecmp_from a b 0 n"

definition opus_tagncompare :: "bytes \<Rightarrow> nat \<Rightarrow> bytes \<Rightarrow> int" where
  "opus_tagncompare tag_name tag_len comment =
     (let ret = op_strncasecmp tag_name comment tag_len
      in if ret \<noteq> 0 then ret else 0x3D - char_at comment tag_len)"

definition opus_tagcompare :: "bytes \<Rightarrow> bytes \<Rightarrow> int" where
  "opus_tagcompare tag_name comment = opus_tagncompare tag_name (length (cstring tag_name)) comment"

fun query_from :: "bytes option list \<Rightarrow> bytes \<Rightarrow> nat \<Rightarrow> int \<Rightarrow> int \<Rightarrow> nat \<Rightarrow> nat \<Rightarrow> bytes option" where
  "query_from user tag tag_len count found ci 0 = None"
| "query_from user tag tag_len count found ci (Suc left) =
     (if opus_tagncompare tag tag_len (the (user ! ci)) = 0
      then if count = found then Some (drop (tag_len + 1) (the (user ! ci)))
           else query_from user tag tag_len count (found + 1) (Suc ci) left
      else query_from user tag tag_len count found (Suc ci) left)"

definition opus_tags_query :: "opus_tags \<Rightarrow> bytes \<Rightarrow> int \<Rightarrow> bytes option" where
  "opus_tags_query tags tag count =
     query_from (user_comments tags) tag (length (cstring tag)) count 0 0 (nat (comments tags))"

fun count_from :: "bytes option list \<Rightarrow> bytes \<Rightarrow> nat \<Rightarrow> int \<Rightarrow> nat \<Rightarrow> nat \<Rightarrow> int" where
  "count_from user tag tag_len found ci 0 = found"
| "count_from user tag tag_len found ci (Suc left) =
     count_from user tag tag_len
       (if opus_tagncompare tag tag_len (the (user ! ci)) = 0 then found + 1 else found) (Suc ci) left"

definition opus_tags_query_count :: "opus_tags \<Rightarrow> bytes \<Rightarrow> int" where
  "opus_tags_query_count tags tag =
     count_from (user_comments tags) tag (length (cstring tag)) 0 0 (nat (comments tags))"

section \<open>The track gain\<close>

text \<open>The digit loop: it stops at a character that is not a digit, or past the bound with the digit unread.\<close>

function gain_digits :: "bytes \<Rightarrow> int \<Rightarrow> int \<Rightarrow> nat \<Rightarrow> int \<times> nat" where
  "gain_digits s negative gain p =
     (if p < length s \<and> char_at s p \<ge> 0x30 \<and> char_at s p \<le> 0x39
      then let gain = 10 * gain + char_at s p - 0x30
           in if gain > 32767 - negative then (gain, p) else gain_digits s negative gain (p + 1)
      else (gain, p))"
  by pat_completeness auto
termination by (relation "measure (\<lambda>(s, negative, gain, p). length s - p)") auto

declare gain_digits.simps [simp del]

fun track_gain_from :: "bytes option list \<Rightarrow> nat \<Rightarrow> nat \<Rightarrow> op_error + int" where
  "track_gain_from user ci 0 = Inl OP_FALSE"
| "track_gain_from user ci (Suc left) =
     (let comment = the (user ! ci) in
      if opus_tagncompare (ascii ''R128_TRACK_GAIN'') 15 comment = 0
      then let p = 16;
               negative = (if char_at comment p = 0x2D then -1 else 0);
               p = (if char_at comment p = 0x2D then p + 1 else if char_at comment p = 0x2B then p + 1 else p);
               (gain_q8, p) = gain_digits comment negative 0 p
           in if char_at comment p \<noteq> 0 then track_gain_from user (Suc ci) left
              else Inr ((gain_q8 + negative) XOR negative)
      else track_gain_from user (Suc ci) left)"

definition opus_tags_get_track_gain :: "opus_tags \<Rightarrow> op_error + int" where
  "opus_tags_get_track_gain tags = track_gain_from (user_comments tags) 0 (nat (comments tags))"

section \<open>The wire format\<close>

text \<open>The reference: a 32-bit little-endian integer, a counted string and a comment packet.\<close>

definition le32 :: "nat \<Rightarrow> bytes" where
  "le32 n = (let w = of_nat n in [b0 w, b1 w, b2 w, b3 w])"

definition counted :: "bytes \<Rightarrow> bytes" where
  "counted s = le32 (length s) @ s"

definition encode_tags :: "bytes \<Rightarrow> bytes list \<Rightarrow> bytes" where
  "encode_tags v cs = ascii ''OpusTags'' @ counted v @ le32 (length cs) @ concat (map counted cs)"

lemma length_le32 [simp]: "length (le32 n) = 4"
  by (simp add: le32_def Let_def)

lemma uint32le_pack: "op_parse_uint32le d = pack (d ! 3) (d ! 2) (d ! 1) (d ! 0)"
  unfolding op_parse_uint32le_def pack_def by (simp add: or.assoc or.left_commute or.commute)

lemma parse_le32 [simp]: "n < 2 ^ 32 \<Longrightarrow> unat (op_parse_uint32le (le32 n @ xs)) = n"
  by (simp add: uint32le_pack le32_def Let_def nth_append unat_of_nat)

lemma le32_parse:
  assumes "4 \<le> length xs"
  shows "xs = le32 (unat (op_parse_uint32le xs)) @ drop 4 xs"
proof -
  obtain a b c d ys where xs: "xs = a # b # c # d # ys"
    using assms by (auto simp: numeral_eq_Suc Suc_le_length_iff)
  show ?thesis unfolding xs by (simp add: le32_def uint32le_pack Let_def)
qed

lemma op_strdup: "alloc (len + 1) \<Longrightarrow> len < 2 ^ 63 \<Longrightarrow> op_strdup_with_len alloc s len = Some (take len s)"
  by (simp add: op_strdup_with_len_def)

lemma op_strdup_SomeD: "op_strdup_with_len alloc s len = Some t \<Longrightarrow> t = take len s"
  by (auto simp: op_strdup_with_len_def Let_def split: if_splits)

text \<open>The part of a tag structure that counts: the first \<open>comments\<close> entries.\<close>

definition tags_hold :: "opus_tags \<Rightarrow> nat \<Rightarrow> bytes list \<Rightarrow> bool" where
  "tags_hold t n cs \<longleftrightarrow> length cs \<le> n \<and> length (user_comments t) = n + 1 \<and> length (comment_lengths t) = n + 1 \<and>
     comments t = int (length cs) \<and> take (length cs) (user_comments t) = map Some cs \<and>
     take (length cs) (comment_lengths t) = map (\<lambda>c. int (length c)) cs"

lemma tags_hold_store:
  assumes "tags_hold t n cs" "length cs < n" "ci = length cs" "count = length c"
  shows "tags_hold (t\<lparr>user_comments := (user_comments t)[ci := Some c],
      comment_lengths := (comment_lengths t)[ci := int count], comments := int ci + 1\<rparr>) n (cs @ [c])"
  using assms by (simp add: tags_hold_def take_Suc_conv_app_nth)

lemma parse_comments_encoded:
  assumes "alloc = (\<lambda>n. True)" "tags_hold t n cs" "length cs + length ds = n" "\<forall>d \<in> set ds. length d \<le> INT_MAX"
  shows "\<exists>t'. parse_comments alloc (length ds) (length cs) (Some t) (concat (map counted ds) @ rest) = Inr (Some t') \<and>
    tags_hold t' n (cs @ ds) \<and> vendor t' = vendor t"
  using assms
proof (induction ds arbitrary: cs t)
  case Nil
  then show ?case by simp
next
  case (Cons d ds)
  let ?data = "concat (map counted (d # ds)) @ rest"
  let ?t = "t\<lparr>user_comments := (user_comments t)[length cs := Some d],
      comment_lengths := (comment_lengths t)[length cs := int (length d)], comments := int (length cs) + 1\<rparr>"
  have d: "length d < 2 ^ 32" "\<not> length d > INT_MAX" using Cons.prems(4) by simp_all
  have data: "?data = le32 (length d) @ d @ concat (map counted ds) @ rest" by (simp add: counted_def)
  have four: "4 * length es \<le> length (concat (map counted es))" for es
    by (induction es) (simp_all add: counted_def)
  have room: "\<not> Suc (length ds) > length ?data div 4"
    using four [of "d # ds"] by (simp add: less_eq_div_iff_mult_less_eq mult.commute del: concat.simps)
  have hold: "tags_hold ?t n (cs @ [d])"
    using Cons.prems by (intro tags_hold_store) simp_all
  have dup: "op_strdup_with_len alloc (d @ concat (map counted ds) @ rest) (length d) = Some d"
    using Cons.prems(1) d by (subst op_strdup) simp_all
  have step: "parse_comments alloc (length (d # ds)) (length cs) (Some t) ?data =
      parse_comments alloc (length ds) (length (cs @ [d])) (Some ?t) (concat (map counted ds) @ rest)"
    unfolding data list.size using room [unfolded data] d dup
    by (simp add: Let_def)
  show ?case
    unfolding step using Cons.IH [OF Cons.prems(1) hold] Cons.prems by simp
qed

lemma ensure_capacity:
  assumes "alloc = (\<lambda>n. True)" "n < INT_MAX"
  shows "\<exists>t'. op_tags_ensure_capacity alloc t n = (None, t') \<and> vendor t' = vendor t \<and> comments t' = comments t \<and>
    length (user_comments t') = n + 1 \<and> length (comment_lengths t') = n + 1 \<and>
    (\<forall>m \<le> n. (m \<le> length (user_comments t) \<longrightarrow> take m (user_comments t') = take m (user_comments t)) \<and>
              (m \<le> length (comment_lengths t) \<longrightarrow> take m (comment_lengths t') = take m (comment_lengths t)))"
  using assms by (auto simp: op_tags_ensure_capacity_def Let_def)

lemma length_concat_counted: "4 * length cs \<le> length (concat (map counted cs))"
  by (induction cs) (simp_all add: counted_def)

lemma ascii_8 [simp]: "length (ascii s) = length s"
  by (simp add: ascii_def)

theorem parse_impl_encoded:
  assumes "alloc = (\<lambda>n. True)" "length v < 2 ^ 32" "length cs < INT_MAX" "\<forall>c \<in> set cs. length c \<le> INT_MAX"
  shows "\<exists>t. opus_tags_parse_impl alloc (Some opus_tags_init) (encode_tags v cs @ rest) = Inr (Some t) \<and>
    tags_hold t (length cs) cs \<and> vendor t = Some v"
proof -
  obtain t where t: "op_tags_ensure_capacity alloc (opus_tags_init\<lparr>vendor := Some v\<rparr>) (length cs) = (None, t)"
    "vendor t = Some v" "comments t = 0" "length (user_comments t) = length cs + 1" "length (comment_lengths t) = length cs + 1"
    using ensure_capacity [OF assms(1,3), where t = "opus_tags_init\<lparr>vendor := Some v\<rparr>"] by (auto simp: opus_tags_init_def)
  have hold: "tags_hold t (length cs) []" using t by (simp add: tags_hold_def)
  have room: "\<not> length cs > length (concat (map counted cs) @ rest) div 4"
    using length_concat_counted [of cs] by (simp add: less_eq_div_iff_mult_less_eq mult.commute)
  have dup: "op_strdup_with_len alloc (v @ le32 (length cs) @ concat (map counted cs) @ rest) (length v) = Some v"
    using assms by (subst op_strdup) simp_all
  obtain t' where "parse_comments alloc (length cs) (length ([] :: bytes list)) (Some t) (concat (map counted cs) @ rest) = Inr (Some t')"
    "tags_hold t' (length cs) ([] @ cs)" "vendor t' = vendor t"
    using parse_comments_encoded [OF assms(1) hold _ assms(4)] by auto
  moreover have "encode_tags v cs @ rest =
      ascii ''OpusTags'' @ le32 (length v) @ v @ le32 (length cs) @ concat (map counted cs) @ rest"
    by (simp add: encode_tags_def counted_def)
  ultimately show ?thesis
    using assms(2,3) t room dup
    by (simp add: opus_tags_parse_impl_def Let_def)
qed

text \<open>The converse: whatever parses is an encoding, followed by bytes that are not looked at.\<close>

lemma parse_comments_sound:
  assumes "parse_comments alloc left (length cs) (Some t) data = Inr (Some t')" "tags_hold t n cs" "length cs + left = n"
  shows "\<exists>ds rest. data = concat (map counted ds) @ rest \<and> length ds = left \<and> tags_hold t' n (cs @ ds) \<and>
    vendor t' = vendor t \<and> (\<forall>d \<in> set ds. length d \<le> INT_MAX)"
  using assms
proof (induction left arbitrary: cs t data)
  case 0
  then show ?case by simp
next
  case (Suc left)
  let ?n = "unat (op_parse_uint32le data)" and ?d = "drop 4 data"
  let ?s = "take ?n ?d"
  let ?t = "t\<lparr>user_comments := (user_comments t)[length cs := Some ?s],
      comment_lengths := (comment_lengths t)[length cs := int ?n], comments := int (length cs) + 1\<rparr>"
  have c: "Suc left \<le> length data div 4" "?n \<le> length ?d" "?n \<le> INT_MAX"
    "parse_comments alloc left (length (cs @ [?s])) (Some ?t) (drop ?n ?d) = Inr (Some t')"
    using Suc.prems(1) by (auto simp: Let_def split: if_splits option.splits dest: op_strdup_SomeD)
  have len: "length ?s = ?n" using c(2) by simp
  have hold: "tags_hold ?t n (cs @ [?s])"
    using Suc.prems(2,3) len by (intro tags_hold_store) simp_all
  obtain ds rest where ds: "drop ?n ?d = concat (map counted ds) @ rest" "length ds = left"
    "tags_hold t' n ((cs @ [?s]) @ ds)" "vendor t' = vendor ?t" "\<forall>d \<in> set ds. length d \<le> INT_MAX"
    using Suc.IH [OF c(4) hold] Suc.prems(3) by auto
  have "4 \<le> length data" using c(1) by linarith
  then have "data = le32 ?n @ ?d" by (rule le32_parse)
  also have "?d = ?s @ drop ?n ?d" by (simp only: append_take_drop_id)
  finally have "data = counted ?s @ concat (map counted ds) @ rest"
    unfolding ds(1) counted_def len by simp
  with ds c(3) len show ?case
    by (intro exI [of _ "?s # ds"] exI [of _ rest]) simp
qed

theorem parse_impl_sound:
  assumes "opus_tags_parse_impl alloc (Some opus_tags_init) data = Inr (Some t)"
  shows "\<exists>v cs rest. data = encode_tags v cs @ rest \<and> tags_hold t (length cs) cs \<and> vendor t = Some v"
proof -
  let ?d1 = "drop 8 data"
  let ?n = "unat (op_parse_uint32le ?d1)" and ?d2 = "drop 4 (drop 8 data)"
  let ?v = "take ?n ?d2" and ?d3 = "drop ?n ?d2"
  let ?m = "unat (op_parse_uint32le ?d3)" and ?d4 = "drop 4 ?d3"
  have c: "take 8 data = ascii ''OpusTags''" "16 \<le> length data" "?n \<le> length ?d2" "4 \<le> length ?d3" "?m \<le> INT_MAX - 1"
    and r: "\<exists>t0. op_tags_ensure_capacity alloc (opus_tags_init\<lparr>vendor := Some ?v\<rparr>) ?m = (None, t0) \<and>
      parse_comments alloc ?m 0 (Some t0) ?d4 = Inr (Some t)"
    using assms
    by (auto simp: opus_tags_parse_impl_def Let_def split: if_splits option.splits prod.splits sum.splits
        dest!: op_strdup_SomeD)
  then obtain t0 where t0: "op_tags_ensure_capacity alloc (opus_tags_init\<lparr>vendor := Some ?v\<rparr>) ?m = (None, t0)"
    "parse_comments alloc ?m (length ([] :: bytes list)) (Some t0) ?d4 = Inr (Some t)" by auto
  have "tags_hold t0 ?m []" "vendor t0 = Some ?v"
    using t0(1) by (auto simp: op_tags_ensure_capacity_def tags_hold_def opus_tags_init_def Let_def split: if_splits)
  then obtain ds rest where ds: "?d4 = concat (map counted ds) @ rest" "length ds = ?m" "tags_hold t ?m ([] @ ds)"
    "vendor t = Some ?v"
    using parse_comments_sound [OF t0(2), of ?m] by fastforce
  have d1: "?d1 = le32 ?n @ ?d2" using c(2) by (intro le32_parse) simp
  have d3: "?d3 = le32 ?m @ ?d4" using c(4) by (rule le32_parse)
  have d2: "?d2 = ?v @ ?d3" by (simp only: append_take_drop_id)
  have "data = take 8 data @ ?d1" by simp
  also have "\<dots> = ascii ''OpusTags'' @ le32 ?n @ ?v @ ?d3" unfolding c(1)
    by (rule arg_cong [OF trans [OF d1 arg_cong [OF d2, of "append (le32 ?n)"]]])
  also have "?d3 = le32 ?m @ concat (map counted ds) @ rest" using d3 ds(1) by simp
  finally have "data = encode_tags ?v ds @ rest"
    using c(3) ds(2) by (simp add: encode_tags_def counted_def)
  with ds show ?thesis by auto
qed

section \<open>Queries\<close>

lemma upcase_0: "upcase (uint (c :: u8)) = 0 \<longleftrightarrow> c = 0"
  by (auto simp: upcase_def uint_0_iff)

text \<open>The comparison looks at the first \<open>n\<close> characters, ignoring the case of letters.\<close>

lemma strncasecmp_from_0:
  "strncasecmp_from a b i n = 0 \<longleftrightarrow> (\<forall>j. i \<le> j \<and> j < i + n \<longrightarrow> upcase (char_at a j) = upcase (char_at b j))"
proof (induction n arbitrary: i)
  case 0
  then show ?case by simp
next
  case (Suc n)
  have "(\<forall>j. i \<le> j \<and> j < i + Suc n \<longrightarrow> P j) \<longleftrightarrow> P i \<and> (\<forall>j. Suc i \<le> j \<and> j < Suc i + n \<longrightarrow> P j)" for P
    by (metis add_Suc add_Suc_right le_eq_less_or_eq less_add_Suc1 Suc_le_eq)
  then show ?case using Suc by (auto simp: Let_def)
qed

definition same_name :: "bytes \<Rightarrow> bytes \<Rightarrow> bool" where
  "same_name a b \<longleftrightarrow> map (\<lambda>c. upcase (uint c)) a = map (\<lambda>c. upcase (uint c)) b"

theorem tagncompare_0:
  "opus_tagncompare tag (length tag) comment = 0 \<longleftrightarrow>
    (\<exists>name value. comment = name @ 0x3D # value \<and> same_name tag name)"
proof
  assume "opus_tagncompare tag (length tag) comment = 0"
  then have cmp: "strncasecmp_from tag comment 0 (length tag) = 0" and sep: "char_at comment (length tag) = 0x3D"
    by (simp_all add: opus_tagncompare_def op_strncasecmp_def Let_def split: if_splits)
  from cmp have eq: "\<forall>j < length tag. upcase (char_at tag j) = upcase (char_at comment j)"
    by (simp add: strncasecmp_from_0)
  have len: "length tag < length comment" using sep by (auto simp: char_at_def split: if_splits)
  have same: "same_name tag (take (length tag) comment)"
    unfolding same_name_def using eq len by (intro nth_equalityI) (simp_all add: char_at_def)
  have "uint (comment ! length tag) = 0x3D" using sep len by (simp add: char_at_def)
  then have "word_of_int (uint (comment ! length tag)) = (word_of_int 0x3D :: u8)" by (rule arg_cong)
  then have "comment ! length tag = 0x3D" by (simp only: word_of_int_uint word_of_int_numeral)
  then have "comment = take (length tag) comment @ 0x3D # drop (Suc (length tag)) comment"
    using id_take_nth_drop [OF len] by simp
  with same show "\<exists>name value. comment = name @ 0x3D # value \<and> same_name tag name"
    by (intro exI conjI)
next
  assume "\<exists>name value. comment = name @ 0x3D # value \<and> same_name tag name"
  then obtain name val where c: "comment = name @ 0x3D # val" "same_name tag name" by (elim exE conjE)
  have len: "length tag = length name" using c(2) unfolding same_name_def by (rule map_eq_imp_length_eq)
  have "upcase (uint (tag ! j)) = upcase (uint (name ! j))" if "j < length tag" for j
    using arg_cong [OF c(2) [unfolded same_name_def], of "\<lambda>xs. xs ! j"] that len by simp
  then have "strncasecmp_from tag comment 0 (length tag) = 0"
    unfolding strncasecmp_from_0 using c(1) len by (simp add: char_at_def nth_append)
  then show "opus_tagncompare tag (length tag) comment = 0"
    using c(1) len by (simp add: opus_tagncompare_def op_strncasecmp_def char_at_def Let_def)
qed

lemma cstring_id: "0 \<notin> set s \<Longrightarrow> cstring s = s"
  unfolding cstring_def by (intro takeWhile_eq_all_conv [THEN iffD2]) auto

text \<open>The values of a tag among a list of comments, in order.\<close>

definition tag_values :: "bytes \<Rightarrow> bytes list \<Rightarrow> bytes list" where
  "tag_values tag cs = map (drop (length tag + 1)) (filter (\<lambda>c. opus_tagncompare tag (length tag) c = 0) cs)"

lemma the_user_nth:
  "take (length cs) user = map Some cs \<Longrightarrow> i < length cs \<Longrightarrow> the (user ! i) = cs ! i"
  by (metis length_map length_take nth_map nth_take option.sel min_def not_less)

lemma query_from_values:
  assumes "take (length cs) user = map Some cs" "ci \<le> length cs" "0 \<le> count - found"
  shows "query_from user tag (length tag) count found ci (length cs - ci) =
    (let vs = tag_values tag (drop ci cs) in
     if nat (count - found) < length vs then Some (vs ! nat (count - found)) else None)"
  using assms
proof (induction "length cs - ci" arbitrary: ci found)
  case 0
  then show ?case by (simp add: tag_values_def)
next
  case (Suc k)
  then have ci: "ci < length cs" by simp
  have l: "length cs - ci = Suc (length cs - Suc ci)" using ci by simp
  have d: "drop ci cs = cs ! ci # drop (Suc ci) cs" using ci by (rule Cons_nth_drop_Suc [symmetric])
  have n: "the (user ! ci) = cs ! ci" using the_user_nth [OF Suc.prems(1) ci] .
  have k: "k = length cs - Suc ci" using Suc.hyps(2) by simp
  have IH: "0 \<le> count - f \<Longrightarrow> query_from user tag (length tag) count f (Suc ci) (length cs - Suc ci) =
    (let vs = tag_values tag (drop (Suc ci) cs) in
     if nat (count - f) < length vs then Some (vs ! nat (count - f)) else None)" for f
    using Suc.hyps(1) [OF k Suc.prems(1)] ci by simp
  show ?case
  proof (cases "opus_tagncompare tag (length tag) (cs ! ci) = 0 \<and> count \<noteq> found")
    case True
    then have "nat (count - found) = Suc (nat (count - (found + 1)))" "0 \<le> count - (found + 1)"
      using Suc.prems(3) True by (simp_all add: Suc_nat_eq_nat_zadd1)
    with True IH [of "found + 1"] show ?thesis
      unfolding l d by (simp add: n tag_values_def Let_def)
  next
    case False
    then show ?thesis
      unfolding l d using IH [of found] Suc.prems(3) by (auto simp: n tag_values_def Let_def)
  qed
qed

lemma count_from_values:
  assumes "take (length cs) user = map Some cs" "ci \<le> length cs"
  shows "count_from user tag (length tag) found ci (length cs - ci) =
    found + int (length (tag_values tag (drop ci cs)))"
  using assms
proof (induction "length cs - ci" arbitrary: ci found)
  case 0
  then show ?case by (simp add: tag_values_def)
next
  case (Suc k)
  then have ci: "ci < length cs" by simp
  have l: "length cs - ci = Suc (length cs - Suc ci)" using ci by simp
  have d: "drop ci cs = cs ! ci # drop (Suc ci) cs" using ci by (rule Cons_nth_drop_Suc [symmetric])
  have n: "the (user ! ci) = cs ! ci" using the_user_nth [OF Suc.prems(1) ci] .
  have k: "k = length cs - Suc ci" using Suc.hyps(2) by simp
  from Suc.hyps(1) [OF k Suc.prems(1)] ci show ?case
    unfolding l d by (auto simp: n tag_values_def)
qed

lemma query_values:
  assumes "tags_hold t n cs" "0 \<notin> set tag" "0 \<le> count"
  shows "opus_tags_query t tag count =
      (if nat count < length (tag_values tag cs) then Some (tag_values tag cs ! nat count) else None)"
    and "opus_tags_query_count t tag = int (length (tag_values tag cs))"
  using assms query_from_values [of cs "user_comments t" 0 count 0 tag]
    count_from_values [of cs "user_comments t" 0 tag 0]
  by (simp_all add: opus_tags_query_def opus_tags_query_count_def tags_hold_def cstring_id Let_def)

section \<open>Copies\<close>

lemma copy_comments_hold:
  assumes "alloc = (\<lambda>n. True)" "tags_hold src n cs" "tags_hold dst m (take ci cs)" "ci + left = length cs"
    and "length cs \<le> m" "\<forall>c \<in> set cs. length c < 2 ^ 63"
  shows "\<exists>new. copy_comments alloc left ci dst src = Inr new \<and> tags_hold new m cs \<and> vendor new = vendor dst"
  using assms
proof (induction left arbitrary: ci dst)
  case 0
  then show ?case by simp
next
  case (Suc left)
  then have ci: "ci < length cs" by simp
  have src: "the (user_comments src ! ci) = cs ! ci" "comment_lengths src ! ci = int (length (cs ! ci))"
    using Suc.prems(2) ci the_user_nth [of cs "user_comments src"]
    by (auto simp: tags_hold_def dest: arg_cong [where f = "\<lambda>xs. xs ! ci"])
  have dup: "op_strdup_with_len alloc (cs ! ci) (length (cs ! ci)) = Some (cs ! ci)"
    using Suc.prems(1,6) ci by (subst op_strdup) simp_all
  let ?dst = "dst\<lparr>user_comments := (user_comments dst)[ci := Some (cs ! ci)],
    comment_lengths := (comment_lengths dst)[ci := int (length (cs ! ci))], comments := int ci + 1\<rparr>"
  have "tags_hold ?dst m (take ci cs @ [cs ! ci])"
    using Suc.prems ci by (intro tags_hold_store) simp_all
  then have "tags_hold ?dst m (take (Suc ci) cs)" using ci by (simp add: take_Suc_conv_app_nth)
  from Suc.IH [OF Suc.prems(1,2) this] Suc.prems show ?case by (simp add: src dup [unfolded Suc.prems(1)])
qed

theorem copy_impl_hold:
  assumes "alloc = (\<lambda>n. True)" "tags_hold src n cs" "vendor src = Some v" "length v < 2 ^ 63"
    and "length cs < INT_MAX" "\<forall>c \<in> set cs. length c < 2 ^ 63"
  shows "\<exists>new. opus_tags_copy_impl alloc opus_tags_init src = Inr new \<and> tags_hold new (length cs) cs \<and>
    vendor new = Some (cstring v)"
proof -
  have "length (cstring v) \<le> length v" unfolding cstring_def by (rule length_takeWhile_le)
  then have dup: "op_strdup_with_len alloc (cstring v) (length (cstring v)) = Some (cstring v)"
    using assms by (subst op_strdup) simp_all
  obtain dst where dst: "op_tags_ensure_capacity alloc (opus_tags_init\<lparr>vendor := Some (cstring v)\<rparr>) (length cs) = (None, dst)"
    "vendor dst = Some (cstring v)" "comments dst = 0" "length (user_comments dst) = length cs + 1"
    "length (comment_lengths dst) = length cs + 1"
    using ensure_capacity [OF assms(1,5), where t = "opus_tags_init\<lparr>vendor := Some (cstring v)\<rparr>"]
    by (auto simp: opus_tags_init_def)
  then have "tags_hold dst (length cs) (take 0 cs)" by (simp add: tags_hold_def)
  then obtain new where "copy_comments alloc (length cs) 0 dst src = Inr new" "tags_hold new (length cs) cs"
    "vendor new = vendor dst"
    using copy_comments_hold [OF assms(1,2), of dst "length cs" 0 "length cs"] assms(6) by auto
  moreover have "nat (comments src) = length cs" using assms(2) by (simp add: tags_hold_def)
  ultimately show ?thesis
    using dst dup assms(3) by (simp add: opus_tags_copy_impl_def Let_def)
qed

text \<open>Storing one past the last comment does not change the comments that count.\<close>

lemma tags_hold_beyond:
  assumes "tags_hold t n cs" "length cs < m" "length (user_comments t') = m + 1" "length (comment_lengths t') = m + 1"
    and "comments t' = comments t"
    and "take (length cs) (user_comments t') = take (length cs) (user_comments t)"
    and "take (length cs) (comment_lengths t') = take (length cs) (comment_lengths t)"
  shows "tags_hold t' m cs"
  using assms by (simp add: tags_hold_def)

lemma add_hold:
  assumes "tags_hold t n cs" "opus_tags_add alloc t tag val = (0, t')"
  shows "tags_hold t' (length cs + 1) cs"
proof -
  have n: "nat (comments t) = length cs" "length cs \<le> length (user_comments t)" "length cs \<le> length (comment_lengths t)"
    using assms(1) by (simp_all add: tags_hold_def)
  show ?thesis
    using assms(2) n
    by (auto simp: opus_tags_add_def op_tags_ensure_capacity_def Let_def split: if_splits
        intro!: tags_hold_beyond [OF assms(1)])
qed

lemma add_comment_hold:
  assumes "tags_hold t n cs" "opus_tags_add_comment alloc t comment = (0, t')"
  shows "tags_hold t' (length cs + 1) cs"
proof -
  have n: "nat (comments t) = length cs" "length cs \<le> length (user_comments t)" "length cs \<le> length (comment_lengths t)"
    using assms(1) by (simp_all add: tags_hold_def)
  show ?thesis
    using assms(2) n
    by (auto simp: opus_tags_add_comment_def op_tags_ensure_capacity_def Let_def split: if_splits option.splits
        intro!: tags_hold_beyond [OF assms(1)])
qed

section \<open>The track gain stays in 16 bits\<close>

lemma gain_digits_bounds:
  assumes "gain_digits s negative gain p = (g, q)" "0 \<le> gain" "gain \<le> 32767 - negative" "char_at s q = 0"
  shows "0 \<le> g \<and> g \<le> 32767 - negative"
  using assms
proof (induction s negative gain p rule: gain_digits.induct)
  case (1 s negative gain p)
  show ?case
  proof (cases "p < length s \<and> char_at s p \<ge> 0x30 \<and> char_at s p \<le> 0x39")
    case False
    with 1(2) 1(3,4) show ?thesis by (simp add: gain_digits.simps [of s negative gain p])
  next
    case True
    let ?gain = "10 * gain + char_at s p - 0x30"
    show ?thesis
    proof (cases "?gain > 32767 - negative")
      case True': True
      then have "q = p" using 1(2) True by (simp add: gain_digits.simps [of s negative gain p])
      with 1(5) True show ?thesis by simp
    next
      case False
      then have "gain_digits s negative ?gain (p + 1) = (g, q)"
        using 1(2) True by (simp add: gain_digits.simps [of s negative gain p])
      with 1(1) [OF True refl] False True 1(3,5) show ?thesis by simp
    qed
  qed
qed

lemma xor_minus_1: "(g + -1) XOR -1 = - (g :: int)"
  using minus_eq_not_minus_1 [of g] by simp

lemma track_gain_from_bounds:
  "track_gain_from user ci left = Inr gain \<Longrightarrow> -32768 \<le> gain \<and> gain \<le> 32767"
proof (induction left arbitrary: ci)
  case (Suc left)
  show ?case
  proof (cases "track_gain_from user (Suc ci) left = Inr gain")
    case True
    then show ?thesis by (rule Suc.IH)
  next
    case False
    let ?c = "the (user ! ci)"
    define negative :: int where "negative = (if char_at ?c 16 = 0x2D then -1 else 0)"
    define p where "p = (if char_at ?c 16 = 0x2D then 16 + 1 else if char_at ?c 16 = 0x2B then 16 + 1 else (16 :: nat))"
    obtain g q where g: "gain_digits ?c negative 0 p = (g, q)" by fastforce
    have r: "char_at ?c q = 0" "gain = (g + negative) XOR negative"
      using Suc.prems False g unfolding negative_def p_def
      by (auto simp: Let_def split: if_splits)
    have "0 \<le> g \<and> g \<le> 32767 - negative"
      using gain_digits_bounds [OF g] r(1) by (simp add: negative_def)
    then show ?thesis
      unfolding r(2) by (cases "negative = 0") (auto simp: negative_def simp flip: minus_eq_not_minus_1)
  qed
qed simp

section \<open>Properties\<close>

lemma int16_range: "0 \<le> x \<Longrightarrow> x < 65536 \<Longrightarrow> -32768 \<le> (x XOR 0x8000) - 0x8000 \<and> (x XOR 0x8000) - 0x8000 \<le> (32767 :: int)"
proof -
  assume x: "0 \<le> x" "x < 65536"
  have "0 \<le> x XOR 0x8000" using x by simp
  moreover have "x XOR 0x8000 < 2 ^ 16" using x by (intro XOR_upper) simp_all
  ultimately show ?thesis by simp
qed

lemma int16le_range: "-32768 \<le> op_parse_int16le d \<and> op_parse_int16le d \<le> 32767"
proof -
  have "uint (d ! 0) OR push_bit 8 (uint (d ! 1)) < 2 ^ 16"
  proof (rule OR_upper)
    show "0 \<le> uint (d ! 0)" "uint (d ! 0) < 2 ^ 16"
      using uint_lt2p [of "d ! 0"] by simp_all
    show "push_bit 8 (uint (d ! 1)) < 2 ^ 16"
      using uint_lt2p [of "d ! 1"] by (simp add: push_bit_eq_mult)
  qed
  moreover have "0 \<le> uint (d ! 0) OR push_bit 8 (uint (d ! 1))"
    by (simp add: push_bit_eq_mult)
  ultimately show ?thesis
    using int16_range by (simp add: op_parse_int16le_def)
qed

lemma uint_255: "uint (d :: u8) = 255 \<Longrightarrow> d = 255"
proof -
  assume "uint d = 255"
  then have "word_of_int (uint d) = (word_of_int 255 :: u8)" by (rule arg_cong)
  then show "d = 255" by (simp only: word_of_int_uint word_of_int_numeral)
qed

text \<open>Tags with one comment, for the witnesses.\<close>

definition sample_tags :: opus_tags where
  "sample_tags = \<lparr>user_comments = [Some (ascii ''R128_TRACK_GAIN=-256''), None], comment_lengths = [20, 0],
     comments = 1, vendor = Some (ascii ''libopus'')\<rparr>"

lemma sample_tags_hold: "tags_hold sample_tags 1 [ascii ''R128_TRACK_GAIN=-256'']"
  by (simp add: sample_tags_def tags_hold_def)

text \<open>
  A header that parses is a valid one: 1 or 2 channels of family 0 in a single stream, or 1 to 8
  channels of family 1 with at least one stream, no more coupled streams than streams, and every
  channel mapped to a decoded channel or to silence; the version is below 16 and the gain fits 16 bits.
\<close>

theorem opus_head_parse_valid:
  assumes "opus_head_parse (Some old) data = Inr (Some h)" and "length (mapping old) = 255"
  shows "0 \<le> version h \<and> version h \<le> 15 \<and> length (mapping h) = 255 \<and>
    -32768 \<le> output_gain h \<and> output_gain h \<le> 32767 \<and>
    (mapping_family h = 0 \<and> channel_count h \<in> {1, 2} \<and> stream_count h = 1 \<and>
        coupled_count h = channel_count h - 1 \<and> take 2 (mapping h) = [0, 1] \<or>
     mapping_family h = 1 \<and> channel_count h \<in> {1..8} \<and> 1 \<le> stream_count h \<and>
        coupled_count h \<in> {0..stream_count h} \<and>
        (\<forall>d \<in> set (take (nat (channel_count h)) (mapping h)).
           uint d < stream_count h + coupled_count h \<or> d = 255))"
proof -
  have family: "uint (data ! 18) = 0 \<or> uint (data ! 18) = 1"
    using assms(1) by (auto simp: opus_head_parse_def Let_def split: if_splits)
  then show ?thesis
  proof
    assume f: "uint (data ! 18) = 0"
    show ?thesis
      using assms f int16le_range [of "drop 16 data"]
      by (auto simp: opus_head_parse_def Let_def split: if_splits)
  next
    assume f: "uint (data ! 18) = 1"
    let ?ch = "uint (data ! 9)"
    have c: "1 \<le> ?ch" "?ch \<le> 8" "nat (21 + ?ch) \<le> length data" "uint (data ! 8) \<le> 15" "1 \<le> uint (data ! 19)"
      "uint (data ! 20) \<le> uint (data ! 19)"
      "\<not> (\<exists>d \<in> set (take (nat ?ch) (drop 21 data)). uint d \<ge> uint (data ! 19) + uint (data ! 20) \<and> uint d \<noteq> 255)"
      "h = \<lparr>version = uint (data ! 8), channel_count = ?ch, pre_skip = op_parse_uint16le (drop 10 data),
        input_sample_rate = op_parse_uint32le (drop 12 data), output_gain = op_parse_int16le (drop 16 data),
        mapping_family = 1, stream_count = uint (data ! 19), coupled_count = uint (data ! 20),
        mapping = take (nat ?ch) (drop 21 data) @ drop (length (take (nat ?ch) (drop 21 data))) (mapping old)\<rparr>"
      using assms(1) f by (simp_all add: opus_head_parse_def Let_def split: if_splits)
    have "21 + nat ?ch \<le> length data" using c(1,3) by linarith
    then have len: "length (take (nat ?ch) (drop 21 data)) = nat ?ch" by simp
    moreover have "nat ?ch \<le> 8" using c(2) by linarith
    ultimately have "length (mapping h) = 255" "take (nat ?ch) (mapping h) = take (nat ?ch) (drop 21 data)"
      using c(8) assms(2) by simp_all
    then show ?thesis
      using c int16le_range [of "drop 16 data"] by (auto dest: uint_255 simp: not_le)
  qed
qed

text \<open>A stereo header of family 0, for the witnesses.\<close>

definition stereo_packet :: bytes where
  "stereo_packet = ascii ''OpusHead'' @ [1, 2, 0x38, 0x01, 0x80, 0xBB, 0, 0, 0, 0, 0]"

definition blank_head :: opus_head where
  "blank_head = \<lparr>version = 0, channel_count = 0, pre_skip = 0, input_sample_rate = 0, output_gain = 0,
     mapping_family = 0, stream_count = 0, coupled_count = 0, mapping = replicate 255 0\<rparr>"

theorem opus_head_parse_valid_witness:
  "\<exists>h. opus_head_parse (Some blank_head) stereo_packet = Inr (Some h) \<and> channel_count h = 2 \<and>
     coupled_count h = 1 \<and> length (mapping h) = 255 \<and> take 2 (mapping h) = [0, 1]"
proof -
  have "length stereo_packet = 19" "take 8 stereo_packet = ascii ''OpusHead''"
    "stereo_packet ! 8 = 1" "stereo_packet ! 9 = 2" "stereo_packet ! 18 = 0"
    by (simp_all add: stereo_packet_def ascii_def)
  then obtain h where h: "opus_head_parse (Some blank_head) stereo_packet = Inr (Some h)" "channel_count h = 2" "mapping_family h = 0"
    by (simp add: opus_head_parse_def Let_def)
  have "length (mapping blank_head) = 255" by (simp add: blank_head_def)
  from opus_head_parse_valid [OF h(1) this] h show ?thesis by auto
qed

text \<open>
  A comment packet that holds a vendor string and comments in the counted-string format, with
  anything after them, parses into exactly these, when the allocator gives memory.
\<close>

theorem opus_tags_parse_encoded:
  assumes "length v < 2 ^ 32" "length cs < INT_MAX" "\<forall>c \<in> set cs. length c \<le> INT_MAX"
  shows "\<exists>t. opus_tags_parse (\<lambda>n. True) (Some old) (encode_tags v cs @ rest) = (0, Some t) \<and>
    tags_hold t (length cs) cs \<and> vendor t = Some v"
  using parse_impl_encoded [OF refl assms, of rest] by (auto simp: opus_tags_parse_def)

theorem opus_tags_parse_encoded_witness:
  "\<exists>t. opus_tags_parse (\<lambda>n. True) (Some opus_tags_init)
       (encode_tags (ascii ''libopus'') [ascii ''TITLE=x'', ascii ''ARTIST=y''] @ [0, 0]) = (0, Some t) \<and>
     tags_hold t 2 [ascii ''TITLE=x'', ascii ''ARTIST=y''] \<and> vendor t = Some (ascii ''libopus'')"
  using opus_tags_parse_encoded [of "ascii ''libopus''" "[ascii ''TITLE=x'', ascii ''ARTIST=y'']" opus_tags_init "[0, 0]"]
  by (simp flip: numeral_2_eq_2)

text \<open>
  C40. Whatever packet parses, with any allocator, starts with an encoding of the vendor string and the
  comments the caller gets, so nothing is invented; a failed parse leaves the caller's tags alone.
\<close>

theorem opus_tags_parse_sound:
  assumes "opus_tags_parse alloc (Some old) data = (status, Some t)"
  shows "status = 0 \<and> (\<exists>v cs rest. data = encode_tags v cs @ rest \<and> tags_hold t (length cs) cs \<and> vendor t = Some v) \<or>
    status < 0 \<and> t = old"
proof (cases "opus_tags_parse_impl alloc (Some opus_tags_init) data")
  case (Inl e)
  have "op_code e < 0" by (cases e) simp_all
  with Inl assms show ?thesis by (simp add: opus_tags_parse_def)
next
  case (Inr t')
  with assms have "status = 0" "opus_tags_parse_impl alloc (Some opus_tags_init) data = Inr (Some t)"
    by (simp_all add: opus_tags_parse_def)
  with parse_impl_sound show ?thesis by blast
qed

theorem opus_tags_parse_sound_witness:
  "\<exists>status. opus_tags_parse (\<lambda>n. False) (Some opus_tags_init) stereo_packet = (status, Some opus_tags_init) \<and> status < 0"
proof -
  have "length stereo_packet = 19" "take 8 stereo_packet \<noteq> ascii ''OpusTags''"
    by (simp_all add: stereo_packet_def ascii_def)
  then have p: "opus_tags_parse (\<lambda>n. False) (Some opus_tags_init) stereo_packet = (-132, Some opus_tags_init)"
    by (simp add: opus_tags_parse_def opus_tags_parse_impl_def)
  from opus_tags_parse_sound [OF this] p show ?thesis by auto
qed

text \<open>
  On tags that hold the comments \<open>cs\<close>, query number \<open>k\<close> of a tag gives the value of the \<open>k\<close>-th comment of the form
  name, equals sign, value whose name is the tag up to case, and nothing from the query count on.
\<close>

theorem opus_tags_query_values:
  assumes "tags_hold t n cs" "0 \<notin> set tag" "0 \<le> k"
  shows "opus_tags_query t tag k =
      (if k < opus_tags_query_count t tag then Some (tag_values tag cs ! nat k) else None) \<and>
    opus_tags_query_count t tag = int (length (filter
      (\<lambda>c. \<exists>name value. c = name @ 0x3D # value \<and> same_name tag name) cs))"
proof -
  have "length (tag_values tag cs) = length (filter (\<lambda>c. \<exists>name value. c = name @ 0x3D # value \<and> same_name tag name) cs)"
    unfolding tag_values_def length_map by (simp only: tagncompare_0)
  with query_values [OF assms] assms(3) show ?thesis by (simp add: nat_less_iff)
qed

theorem opus_tags_query_values_witness:
  "opus_tags_query_count sample_tags (ascii ''r128_track_gain'') = 1 \<and>
   opus_tags_query sample_tags (ascii ''r128_track_gain'') 0 =
     Some (tag_values (ascii ''r128_track_gain'') [ascii ''R128_TRACK_GAIN=-256''] ! 0)"
proof -
  have count: "opus_tags_query_count sample_tags (ascii ''r128_track_gain'') = 1" by code_simp
  have "0 \<notin> set (ascii ''r128_track_gain'')" by (simp add: ascii_def)
  from conjunct1 [OF opus_tags_query_values [OF sample_tags_hold this, of 0]] count show ?thesis by simp
qed

text \<open>
  Adding a comment does not take: both ways to add one report success and leave the number of
  comments as it was, so every query answers as before.
\<close>

theorem opus_tags_add_not_counted:
  assumes "tags_hold t n cs" "0 \<notin> set tag" "0 \<le> k"
    and "opus_tags_add alloc t tag' value' = (0, t') \<or> opus_tags_add_comment alloc t comment = (0, t')"
  shows "comments t' = comments t \<and> opus_tags_query t' tag k = opus_tags_query t tag k"
proof -
  obtain m where "tags_hold t' m cs"
    using assms(1,4) add_hold add_comment_hold by blast
  from query_values [OF this assms(2,3)] query_values [OF assms(1-3)] this assms(1)
  show ?thesis by (simp add: tags_hold_def)
qed

theorem opus_tags_add_not_counted_witness:
  "\<exists>t'. opus_tags_add (\<lambda>n. True) sample_tags (ascii ''TITLE'') (ascii ''x'') = (0, t') \<and>
     comments t' = 1 \<and> opus_tags_query t' (ascii ''TITLE'') 0 = opus_tags_query sample_tags (ascii ''TITLE'') 0"
proof -
  obtain t' where t': "opus_tags_add (\<lambda>n. True) sample_tags (ascii ''TITLE'') (ascii ''x'') = (0, t')"
    by (simp add: opus_tags_add_def op_tags_ensure_capacity_def sample_tags_def)
  have "0 \<notin> set (ascii ''TITLE'')" by (simp add: ascii_def)
  from opus_tags_add_not_counted [OF sample_tags_hold this, of 0 _ _ _ t'] t' show ?thesis
    by (auto simp: sample_tags_def)
qed

text \<open>
  A copy of tags holds the same comments and the vendor string up to its first zero, when memory
  is there; when it is not, the destination is left alone and the status is 0 all the same.
\<close>

theorem opus_tags_copy_result:
  assumes "tags_hold src n cs" "vendor src = Some v" "length v < 2 ^ 63"
    and "length cs < INT_MAX" "\<forall>c \<in> set cs. length c < 2 ^ 63"
  shows "(\<exists>new. opus_tags_copy (\<lambda>n. True) dst src = (0, new) \<and> tags_hold new (length cs) cs \<and> vendor new = Some (cstring v)) \<and>
    opus_tags_copy (\<lambda>n. False) dst src = (0, dst)"
proof
  show "\<exists>new. opus_tags_copy (\<lambda>n. True) dst src = (0, new) \<and> tags_hold new (length cs) cs \<and> vendor new = Some (cstring v)"
    using copy_impl_hold [OF refl assms] by (auto simp: opus_tags_copy_def)
  show "opus_tags_copy (\<lambda>n. False) dst src = (0, dst)"
    by (simp add: opus_tags_copy_def opus_tags_copy_impl_def op_strdup_with_len_def Let_def)
qed

theorem opus_tags_copy_result_witness:
  "\<exists>new. opus_tags_copy (\<lambda>n. True) opus_tags_init sample_tags = (0, new) \<and>
     tags_hold new 1 [ascii ''R128_TRACK_GAIN=-256''] \<and>
     opus_tags_copy (\<lambda>n. False) opus_tags_init sample_tags = (0, opus_tags_init)"
proof -
  have "vendor sample_tags = Some (ascii ''libopus'')" by (simp add: sample_tags_def)
  from opus_tags_copy_result [OF sample_tags_hold this, of opus_tags_init] show ?thesis by auto
qed

text \<open>A track gain that is reported is a signed 16-bit number, however many digits the comment has.\<close>

theorem opus_tags_get_track_gain_bounds:
  assumes "opus_tags_get_track_gain t = Inr gain_q8"
  shows "-32768 \<le> gain_q8 \<and> gain_q8 \<le> 32767"
  using assms unfolding opus_tags_get_track_gain_def by (rule track_gain_from_bounds)

theorem opus_tags_get_track_gain_bounds_witness:
  "opus_tags_get_track_gain sample_tags = Inr (-256) \<and> (-32768 :: int) \<le> -256 \<and> (-256 :: int) \<le> 32767"
proof -
  have g: "opus_tags_get_track_gain sample_tags = Inr (-256)"
    by code_simp
  from opus_tags_get_track_gain_bounds [OF g] g show ?thesis by simp
qed

end
