(* ===== verification/OpusHeader.thy ===== *)
theory OpusHeader
  imports OpusInfo
begin

text \<open>
  The writers of \<^verbatim>\<open>app/jni/audio.c\<close> for the two header packets of a voice message: the bounded packet
  buffer, \<open>opus_header_to_packet\<close>, \<open>comment_init\<close> and \<open>comment_pad\<close>, and the readers that go with the
  buffer.  The two packets are what \<^verbatim>\<open>opusfile/info.c\<close> parses.
\<close>

unbundle bit_operations_syntax

section \<open>Packets\<close>

record OpusHeader =
  hdr_version :: int
  channels :: int
  preskip :: int
  hdr_input_sample_rate :: u32
  gain :: int
  channel_mapping :: int
  nb_streams :: int
  nb_coupled :: int
  stream_map :: bytes

record packet =
  data :: bytes
  maxlen :: int
  pos :: int

text \<open>
  A writer gives \<open>None\<close> where the code returns 0: then it has stored nothing.
\<close>

definition write_uint32 :: "u32 \<Rightarrow> packet \<Rightarrow> packet option" where
  "write_uint32 val p =
     (if pos p > maxlen p - 4 then None
      else let i = nat (pos p) in
        Some (p\<lparr>data := (data p)[i := ucast (val AND 0xFF),
                              i + 1 := ucast (drop_bit 8 val AND 0xFF),
                              i + 2 := ucast (drop_bit 16 val AND 0xFF),
                              i + 3 := ucast (drop_bit 24 val AND 0xFF)],
                pos := pos p + 4\<rparr>))"

definition write_uint16 :: "u16 \<Rightarrow> packet \<Rightarrow> packet option" where
  "write_uint16 val p =
     (if pos p > maxlen p - 2 then None
      else let i = nat (pos p) in
        Some (p\<lparr>data := (data p)[i := ucast (val AND 0xFF), i + 1 := ucast (drop_bit 8 val AND 0xFF)],
                pos := pos p + 2\<rparr>))"

fun store_chars :: "bytes \<Rightarrow> packet \<Rightarrow> packet" where
  "store_chars [] p = p"
| "store_chars (c # str) p = store_chars str (p\<lparr>data := (data p)[nat (pos p) := c], pos := pos p + 1\<rparr>)"

definition write_chars :: "bytes \<Rightarrow> int \<Rightarrow> packet \<Rightarrow> packet option" where
  "write_chars str nb_chars p =
     (if pos p > maxlen p - nb_chars then None else Some (store_chars (take (nat nb_chars) str) p))"

definition read_uint32 :: "packet \<Rightarrow> (u32 \<times> packet) option" where
  "read_uint32 p =
     (if pos p > maxlen p - 4 then None
      else let i = nat (pos p) in
        Some (ucast (data p ! i) OR push_bit 8 (ucast (data p ! (i + 1))) OR
              push_bit 16 (ucast (data p ! (i + 2))) OR push_bit 24 (ucast (data p ! (i + 3))),
              p\<lparr>pos := pos p + 4\<rparr>))"

definition read_uint16 :: "packet \<Rightarrow> (u16 \<times> packet) option" where
  "read_uint16 p =
     (if pos p > maxlen p - 2 then None
      else let i = nat (pos p) in
        Some (ucast (data p ! i) OR push_bit 8 (ucast (data p ! (i + 1))), p\<lparr>pos := pos p + 2\<rparr>))"

definition read_chars :: "int \<Rightarrow> packet \<Rightarrow> (bytes \<times> packet) option" where
  "read_chars nb_chars p =
     (if pos p > maxlen p - nb_chars then None
      else Some (rd (nat (pos p)) (nat nb_chars) (data p), p\<lparr>pos := pos p + int (nat nb_chars)\<rparr>))"

section \<open>The identification header\<close>

text \<open>A sequence of writes, each followed by \<open>return 0\<close> when it fails.\<close>

fun write_all :: "(packet \<Rightarrow> packet option) list \<Rightarrow> packet \<Rightarrow> bool \<times> packet" where
  "write_all [] p = (True, p)"
| "write_all (w # ws) p = (case w p of None \<Rightarrow> (False, p) | Some p \<Rightarrow> write_all ws p)"

text \<open>The result is the length, or 0, and the contents of the buffer.\<close>

definition opus_header_to_packet :: "OpusHeader \<Rightarrow> bytes \<Rightarrow> int \<Rightarrow> int \<times> bytes" where
  "opus_header_to_packet h packet len =
     (let p = \<lparr>data = packet, maxlen = len, pos = 0\<rparr> in
      if len < 19 then (0, packet)
      else let (ok, p) = write_all
             ([write_chars (ascii ''OpusHead'') 8,
               write_chars [1] 1,
               write_chars [word_of_int (channels h)] 1,
               write_uint16 (word_of_int (preskip h)),
               write_uint32 (hdr_input_sample_rate h),
               write_uint16 (word_of_int (gain h)),
               write_chars [word_of_int (channel_mapping h)] 1] @
              (if channel_mapping h \<noteq> 0
               then [write_chars [word_of_int (nb_streams h)] 1,
                     write_chars [word_of_int (nb_coupled h)] 1] @
                    map (\<lambda>i. write_chars [stream_map h ! i] 1) [0..<nat (channels h)]
               else [])) p
           in (if ok then pos p else 0, data p))"

section \<open>The comment header\<close>

definition writeint :: "bytes \<Rightarrow> nat \<Rightarrow> u32 \<Rightarrow> bytes" where
  "writeint buf base val =
     buf[base + 3 := ucast (drop_bit 24 val AND 0xff),
         base + 2 := ucast (drop_bit 16 val AND 0xff),
         base + 1 := ucast (drop_bit 8 val AND 0xff),
         base := ucast (val AND 0xff)]"

text \<open>\<open>block\<close> is what the memory that \<open>malloc\<close> gives held before.\<close>

definition comment_init :: "(nat \<Rightarrow> bytes) \<Rightarrow> bytes \<Rightarrow> bytes \<times> nat" where
  "comment_init block vendor_string =
     (let vendor_length = length (cstring vendor_string);
          len = 8 + 4 + vendor_length + 4;
          p = block len;
          p = wr 0 (ascii ''OpusTags'') p;
          p = writeint p 8 (of_nat vendor_length);
          p = wr 12 (take vendor_length vendor_string) p;
          p = writeint p (12 + vendor_length) 0
      in (p, len))"

fun zero_fill :: "nat \<Rightarrow> nat \<Rightarrow> bytes \<Rightarrow> bytes" where
  "zero_fill i 0 p = p"
| "zero_fill i (Suc left) p = zero_fill (i + 1) left (p[i := 0])"

definition comment_pad :: "(nat \<Rightarrow> bytes) \<Rightarrow> bytes \<Rightarrow> nat \<Rightarrow> nat \<Rightarrow> bytes \<times> nat" where
  "comment_pad block comments' length' amount =
     (if amount > 0
      then let newlen = (length' + amount + 255) div 255 * 255 - 1;
               p = take newlen comments' @ drop (length comments') (block newlen);
               p = zero_fill length' (newlen - length') p
           in (p, newlen)
      else (comments', length'))"

section \<open>Writing is appending\<close>

text \<open>What each writer does: it stores \<open>bs\<close> at the position, or refuses.\<close>

definition writes :: "bytes \<Rightarrow> (packet \<Rightarrow> packet option) \<Rightarrow> bool" where
  "writes bs f \<longleftrightarrow> (\<forall>p. 0 \<le> pos p \<longrightarrow> maxlen p \<le> int (length (data p)) \<longrightarrow>
     f p = (if pos p > maxlen p - int (length bs) then None
            else Some (p\<lparr>data := wr (nat (pos p)) bs (data p), pos := pos p + int (length bs)\<rparr>)))"

lemma store_chars_wr:
  "0 \<le> pos p \<Longrightarrow> nat (pos p) + length str \<le> length (data p) \<Longrightarrow>
     store_chars str p = p\<lparr>data := wr (nat (pos p)) str (data p), pos := pos p + int (length str)\<rparr>"
proof (induction str arbitrary: p)
  case (Cons c str)
  then show ?case by (simp add: wr_Cons nat_add_distrib ac_simps)
qed simp

lemma writes_chars: "length str = nat n \<Longrightarrow> 0 \<le> n \<Longrightarrow> writes str (write_chars str n)"
  by (auto simp: writes_def write_chars_def store_chars_wr)

lemma writes_char [simp]: "writes [c] (write_chars [c] 1)"
  by (rule writes_chars) simp_all

definition le16 :: "u16 \<Rightarrow> bytes" where
  "le16 w = [ucast (w AND 0xFF), ucast (drop_bit 8 w AND 0xFF)]"

definition le32w :: "u32 \<Rightarrow> bytes" where
  "le32w w = [b0 w, b1 w, b2 w, ucast (drop_bit 24 w AND 0xFF)]"

lemma writes_uint16 [simp]: "writes (le16 w) (write_uint16 w)"
  by (auto simp: writes_def write_uint16_def le16_def Let_def wr_Cons)

lemma writes_uint32 [simp]: "writes (le32w w) (write_uint32 w)"
  by (auto simp: writes_def write_uint32_def le32w_def b0_def b1_def b2_def Let_def wr_Cons numeral_3_eq_3)

lemma le32w: "le32w w = [b0 w, b1 w, b2 w, b3 w]"
proof -
  have "ucast (drop_bit 24 w AND 0xFF) = b3 w"
    by (rule bit_eqI, simp only: bit_b3 bit_ucast_iff bit_and_iff bit_drop_bit_eq bit_0xff o_apply)
      (auto dest: bit_imp_le_length)
  then show ?thesis by (simp add: le32w_def)
qed

lemma write_all_writes:
  assumes "list_all2 writes bss ws" "0 \<le> pos p" "maxlen p \<le> int (length (data p))"
    and "pos p + int (length (concat bss)) \<le> maxlen p"
  shows "write_all ws p = (True, p\<lparr>data := wr (nat (pos p)) (concat bss) (data p),
    pos := pos p + int (length (concat bss))\<rparr>)"
  using assms
proof (induction bss ws arbitrary: p rule: list_all2_induct)
  case Nil
  then show ?case by simp
next
  case (Cons bs bss w ws)
  let ?p = "p\<lparr>data := wr (nat (pos p)) bs (data p), pos := pos p + int (length bs)\<rparr>"
  have fit: "nat (pos p) + length bs + length (concat bss) \<le> length (data p)" using Cons.prems by simp
  have "w p = Some ?p" using Cons.hyps(1) Cons.prems by (auto simp: writes_def)
  moreover have "write_all ws ?p = (True, ?p\<lparr>data := wr (nat (pos ?p)) (concat bss) (data ?p),
      pos := pos ?p + int (length (concat bss))\<rparr>)"
    using Cons.prems fit by (intro Cons.IH) simp_all
  moreover have "nat (pos p + int (length bs)) = nat (pos p) + length bs" using Cons.prems by simp
  ultimately show ?case using fit by (simp add: wr_append add.assoc)
qed

text \<open>Whether or not the sequence comes to its end, it stays below \<open>maxlen\<close>.\<close>

lemma write_all_bounded:
  assumes "list_all2 writes bss ws" "0 \<le> pos p" "pos p \<le> maxlen p" "maxlen p \<le> int (length (data p))"
    and "write_all ws p = (ok, q)"
  shows "length (data q) = length (data p) \<and> maxlen q = maxlen p \<and> 0 \<le> pos q \<and> pos q \<le> maxlen p \<and>
    drop (nat (maxlen p)) (data q) = drop (nat (maxlen p)) (data p)"
  using assms
proof (induction bss ws arbitrary: p rule: list_all2_induct)
  case Nil
  then show ?case by simp
next
  case (Cons bs bss w ws)
  let ?p = "p\<lparr>data := wr (nat (pos p)) bs (data p), pos := pos p + int (length bs)\<rparr>"
  have w: "w p = (if pos p > maxlen p - int (length bs) then None else Some ?p)"
    using Cons.hyps(1) Cons.prems by (auto simp: writes_def)
  show ?case
  proof (cases "pos p > maxlen p - int (length bs)")
    case True
    with w Cons.prems show ?thesis by auto
  next
    case False
    then have fit: "nat (pos p) + length bs \<le> nat (maxlen p)" "nat (pos p) + length bs \<le> length (data p)"
      using Cons.prems by linarith+
    have "length (data q) = length (data ?p) \<and> maxlen q = maxlen ?p \<and> 0 \<le> pos q \<and> pos q \<le> maxlen ?p \<and>
      drop (nat (maxlen ?p)) (data q) = drop (nat (maxlen ?p)) (data ?p)"
      using Cons.prems w False fit by (intro Cons.IH) auto
    moreover have "drop (nat (maxlen p)) (wr (nat (pos p)) bs (data p)) = drop (nat (maxlen p)) (data p)"
      using fit by (simp add: wr_def)
    ultimately show ?thesis using fit by simp
  qed
qed

section \<open>The header packet\<close>

text \<open>The bytes of the identification header.\<close>

definition header_chunks :: "OpusHeader \<Rightarrow> bytes list" where
  "header_chunks h =
     [ascii ''OpusHead'', [1], [word_of_int (channels h)], le16 (word_of_int (preskip h)),
      le32w (hdr_input_sample_rate h), le16 (word_of_int (gain h)), [word_of_int (channel_mapping h)]] @
     (if channel_mapping h \<noteq> 0
      then [[word_of_int (nb_streams h)], [word_of_int (nb_coupled h)]] @
           map (\<lambda>i. [stream_map h ! i]) [0..<nat (channels h)]
      else [])"

abbreviation header_bytes :: "OpusHeader \<Rightarrow> bytes" where
  "header_bytes h \<equiv> concat (header_chunks h)"

lemma length_le [simp]: "length (le16 w) = 2" "length (le32w x) = 4"
  by (simp_all add: le16_def le32w_def)

lemma length_header_bytes:
  "length (header_bytes h) = (if channel_mapping h = 0 then 19 else 21 + nat (channels h))"
  by (simp add: header_chunks_def length_concat comp_def sum_list_triv)

lemma header_writes:
  "list_all2 writes (header_chunks h)
     ([write_chars (ascii ''OpusHead'') 8, write_chars [1] 1, write_chars [word_of_int (channels h)] 1,
       write_uint16 (word_of_int (preskip h)), write_uint32 (hdr_input_sample_rate h),
       write_uint16 (word_of_int (gain h)), write_chars [word_of_int (channel_mapping h)] 1] @
      (if channel_mapping h \<noteq> 0
       then [write_chars [word_of_int (nb_streams h)] 1, write_chars [word_of_int (nb_coupled h)] 1] @
            map (\<lambda>i. write_chars [stream_map h ! i] 1) [0..<nat (channels h)]
       else []))"
  by (simp add: header_chunks_def list_all2_append list.rel_map list_all2_same writes_chars)

lemma header_to_packet:
  assumes "int (length (header_bytes h)) \<le> len" "len \<le> int (length packet)"
  shows "opus_header_to_packet h packet len = (int (length (header_bytes h)), wr 0 (header_bytes h) packet)"
proof -
  have "19 \<le> len" using assms(1) by (simp add: length_header_bytes split: if_splits)
  then show ?thesis
    using write_all_writes [OF header_writes [of h], of "\<lparr>data = packet, maxlen = len, pos = 0\<rparr>"] assms
    by (simp add: opus_header_to_packet_def Let_def del: concat.simps)
qed

section \<open>Reading it back\<close>

lemma le16_value: "unat (op_parse_uint16le (le16 w @ xs)) = unat w"
proof -
  have "ucast (ucast (w AND 0xFF) :: u8) OR push_bit 8 (ucast (ucast (drop_bit 8 w AND 0xFF) :: u8)) = (ucast w :: u32)"
    by (rule bit_eqI, simp only: bit_or_iff bit_push_bit_iff bit_ucast_iff bit_and_iff bit_drop_bit_eq
        bit_0xff o_apply possible_bit_word) (auto dest: bit_imp_le_length)
  then have "op_parse_uint16le (le16 w @ xs) = ucast w"
    by (simp add: op_parse_uint16le_def le16_def)
  then show ?thesis
    by (simp add: unsigned_ucast_eq take_bit_nat_eq_self_iff order_less_le_trans [OF unsigned_less])
qed

lemma le32w_value: "op_parse_uint32le (le32w w @ xs) = w"
  by (simp add: uint32le_pack le32w)

lemma uint_or_bytes: "uint (d0 :: u8) OR push_bit 8 (uint (d1 :: u8)) = uint (ucast d0 OR push_bit 8 (ucast d1) :: u16)"
  by (rule bit_eqI) (auto simp: bit_simps dest: bit_imp_le_length)

lemma int16le_value: "op_parse_int16le (le16 w @ xs) = (uint w XOR 0x8000) - 0x8000"
proof -
  have "ucast (ucast (w AND 0xFF) :: u8) OR push_bit 8 (ucast (ucast (drop_bit 8 w AND 0xFF) :: u8)) = w"
    by (rule bit_eqI, simp only: bit_or_iff bit_push_bit_iff bit_ucast_iff bit_and_iff bit_drop_bit_eq
        bit_0xff o_apply possible_bit_word) (auto dest: bit_imp_le_length)
  then show ?thesis
    unfolding op_parse_int16le_def le16_def Let_def by (simp add: uint_or_bytes)
qed

text \<open>The sign trick of the parser reads a 16-bit two's complement number.\<close>

lemma xor_32768: "0 \<le> v \<Longrightarrow> v < 32768 \<Longrightarrow> v XOR 32768 = v + (32768 :: int)"
proof -
  assume v: "0 \<le> v" "v < 32768"
  then have "\<not> bit v 15" by (simp add: bit_iff_odd)
  then have z: "v AND 2 ^ 15 = 0" by (simp only: and_exp_eq_0_iff_not_bit not_False_eq_True)
  then have "v + 2 ^ 15 = v OR 2 ^ 15" by (rule disjunctive_add_eq_or)
  moreover have "v XOR 2 ^ 15 = v OR 2 ^ 15" using z by (rule disjunctive_xor_eq_or)
  ultimately show ?thesis by simp
qed

lemma xor_sign:
  assumes "-32768 \<le> g" "g \<le> 32767"
  shows "(uint (word_of_int g :: u16) XOR 0x8000) - 0x8000 = g"
proof (cases "0 \<le> g")
  case True
  then have "uint (word_of_int g :: u16) = g" using assms by (simp add: uint_word_of_int)
  with xor_32768 [of g] True assms show ?thesis by simp
next
  case False
  have "uint (word_of_int g :: u16) = (g + 32768) + 32768"
  proof -
    have "g mod 65536 = (g + 65536) mod 65536" by simp
    also have "\<dots> = g + 65536" using False assms by (intro mod_pos_pos_trivial) simp_all
    finally show ?thesis by (simp add: uint_word_of_int)
  qed
  also have "\<dots> = (g + 32768) XOR 32768" using xor_32768 [of "g + 32768"] False assms by simp
  finally show ?thesis by (simp add: xor.assoc)
qed

lemma word8_of_int: "0 \<le> x \<Longrightarrow> x < 256 \<Longrightarrow> uint (word_of_int x :: u8) = x"
  by (simp add: uint_word_of_int)

lemma header_bytes_nth:
  "header_bytes h ! 8 = 1" "header_bytes h ! 9 = word_of_int (channels h)" "header_bytes h ! 18 = word_of_int (channel_mapping h)"
  "take 8 (header_bytes h) = ascii ''OpusHead''"
  "\<exists>xs. drop 10 (header_bytes h) = le16 (word_of_int (preskip h)) @ xs"
  "\<exists>xs. drop 12 (header_bytes h) = le32w (hdr_input_sample_rate h) @ xs"
  "\<exists>xs. drop 16 (header_bytes h) = le16 (word_of_int (gain h)) @ xs"
  by (simp_all add: header_chunks_def nth_append le16_def le32w_def)

lemma header_bytes_map:
  assumes "channel_mapping h \<noteq> 0"
  shows "header_bytes h ! 19 = word_of_int (nb_streams h)" "header_bytes h ! 20 = word_of_int (nb_coupled h)"
    "drop 21 (header_bytes h) = map (\<lambda>i. stream_map h ! i) [0..<nat (channels h)]"
proof -
  have "concat (map (\<lambda>i. [f i]) xs) = map f xs" for f :: "nat \<Rightarrow> u8" and xs by (induction xs) simp_all
  then show "header_bytes h ! 19 = word_of_int (nb_streams h)" "header_bytes h ! 20 = word_of_int (nb_coupled h)"
    "drop 21 (header_bytes h) = map (\<lambda>i. stream_map h ! i) [0..<nat (channels h)]"
    using assms by (simp_all add: header_chunks_def nth_append le16_def le32w_def)
qed

text \<open>A header whose fields have the values their places in the packet can hold.\<close>

definition header_fits :: "OpusHeader \<Rightarrow> bool" where
  "header_fits h \<longleftrightarrow> 0 \<le> preskip h \<and> preskip h < 65536 \<and> -32768 \<le> gain h \<and> gain h \<le> 32767 \<and>
     (channel_mapping h = 0 \<and> channels h \<in> {1, 2} \<or>
      channel_mapping h = 1 \<and> channels h \<in> {1..8} \<and> nb_streams h \<in> {1..255} \<and>
        nb_coupled h \<in> {0..nb_streams h} \<and> nat (channels h) \<le> length (stream_map h) \<and>
        (\<forall>d \<in> set (take (nat (channels h)) (stream_map h)). uint d < nb_streams h + nb_coupled h \<or> d = 255))"

text \<open>What the parser makes of it.\<close>

definition parsed_header :: "OpusHeader \<Rightarrow> bytes \<Rightarrow> opus_head" where
  "parsed_header h old_mapping =
     \<lparr>version = 1, channel_count = channels h, pre_skip = of_nat (nat (preskip h)),
      input_sample_rate = hdr_input_sample_rate h, output_gain = gain h, mapping_family = channel_mapping h,
      stream_count = (if channel_mapping h = 0 then 1 else nb_streams h),
      coupled_count = (if channel_mapping h = 0 then channels h - 1 else nb_coupled h),
      mapping = (if channel_mapping h = 0 then [0, 1] @ drop 2 old_mapping
                 else take (nat (channels h)) (stream_map h) @ drop (nat (channels h)) old_mapping)\<rparr>"

lemma nth_map_take: "n \<le> length xs \<Longrightarrow> map (\<lambda>i. xs ! i) [0..<n] = take n xs"
  by (intro nth_equalityI) simp_all

lemma head_parse_header_bytes:
  assumes "header_fits h"
  shows "opus_head_parse (Some old) (header_bytes h) = Inr (Some (parsed_header h (mapping old)))"
proof -
  obtain xs ys zs where d: "drop 10 (header_bytes h) = le16 (word_of_int (preskip h)) @ xs"
    "drop 12 (header_bytes h) = le32w (hdr_input_sample_rate h) @ ys"
    "drop 16 (header_bytes h) = le16 (word_of_int (gain h)) @ zs"
    using header_bytes_nth(5-7) [of h] by blast
  have "unat (op_parse_uint16le (drop 10 (header_bytes h))) = nat (preskip h)"
    unfolding d(1) le16_value using assms by (simp add: header_fits_def unat_eq_nat_uint uint_word_of_int)
  then have "of_nat (unat (op_parse_uint16le (drop 10 (header_bytes h)))) = (of_nat (nat (preskip h)) :: u32)"
    by (rule arg_cong)
  then have skip: "op_parse_uint16le (drop 10 (header_bytes h)) = of_nat (nat (preskip h))" by simp
  have rate: "op_parse_uint32le (drop 12 (header_bytes h)) = hdr_input_sample_rate h"
    unfolding d(2) by (rule le32w_value)
  have gain: "op_parse_int16le (drop 16 (header_bytes h)) = gain h"
    unfolding d(3) int16le_value using assms by (intro xor_sign) (simp_all add: header_fits_def)
  note fields = header_bytes_nth(1-4) skip rate gain length_header_bytes
  consider "channel_mapping h = 0" "channels h \<in> {1, 2}"
    | "channel_mapping h = 1" "channels h \<in> {1..8}" "nb_streams h \<in> {1..255}" "nb_coupled h \<in> {0..nb_streams h}"
      "nat (channels h) \<le> length (stream_map h)"
      "\<forall>d \<in> set (take (nat (channels h)) (stream_map h)). uint d < nb_streams h + nb_coupled h \<or> d = 255"
    using assms by (auto simp: header_fits_def)
  then show ?thesis
  proof cases
    case 1
    then show ?thesis
      by (auto simp: opus_head_parse_def fields Let_def parsed_header_def word8_of_int simp flip: numeral_2_eq_2)
  next
    case 2
    have ok: "\<not> (\<exists>d \<in> set (take (nat (channels h)) (stream_map h)). uint d \<ge> nb_streams h + nb_coupled h \<and> uint d \<noteq> 255)"
      using 2(6) by auto
    have n: "nat (21 + channels h) = 21 + nat (channels h)" using 2(2) by (simp add: nat_add_distrib)
    have d21: "drop 21 (header_bytes h) = take (nat (channels h)) (stream_map h)"
      using header_bytes_map(3) [of h] 2 by (simp add: nth_map_take)
    show ?thesis
      using 2 ok
      by (simp add: opus_head_parse_def fields header_bytes_map(1,2) d21 n Let_def parsed_header_def word8_of_int)
  qed
qed

section \<open>The comment packet\<close>

lemma zero_fill:
  "i + left \<le> length p \<Longrightarrow> zero_fill i left p = take i p @ replicate left 0 @ drop (i + left) p"
proof (induction left arbitrary: i p)
  case (Suc left)
  then show ?case
    by (simp add: take_Suc_conv_app_nth [of i])
qed simp

lemma writeint_wr:
  "p + 4 \<le> length buf \<Longrightarrow> writeint buf p w = wr p [b0 w, b1 w, b2 w, ucast (drop_bit 24 w AND 0xff)] buf"
  by (simp add: writeint_def wr_Cons b0_def b1_def b2_def numeral_3_eq_3 list_update_swap)

lemma writeint_le32:
  "p + 4 \<le> length buf \<Longrightarrow> writeint buf p (of_nat n) = wr p (le32 n) buf"
  using le32w [of "of_nat n"] by (simp add: writeint_wr le32w_def le32_def Let_def)

lemma length_magic: "length (ascii ''OpusTags'') = 8"
  by simp

lemma comment_init_bytes:
  assumes "\<And>n. length (block n) = n"
  shows "comment_init block vendor_string =
    (encode_tags (cstring vendor_string) [], 16 + length (cstring vendor_string))"
proof -
  let ?v = "cstring vendor_string" and ?n = "length (cstring vendor_string)"
  let ?p = "block (8 + 4 + ?n + 4)"
  have v: "take ?n vendor_string = ?v" unfolding cstring_def by (rule takeWhile_eq_take [symmetric])
  have l: "length ?p = 8 + 4 + ?n + 4" by (rule assms)
  have p1: "length (wr 0 (ascii ''OpusTags'') ?p) = 8 + 4 + ?n + 4"
    using l by simp
  have "wr 8 (le32 ?n) (wr 0 (ascii ''OpusTags'') ?p) = wr 0 (ascii ''OpusTags'' @ le32 ?n) ?p"
    using wr_append [of 0 "ascii ''OpusTags''" "le32 ?n" ?p, unfolded length_magic] l by simp
  moreover have "wr 12 ?v (wr 0 (ascii ''OpusTags'' @ le32 ?n) ?p) = wr 0 ((ascii ''OpusTags'' @ le32 ?n) @ ?v) ?p"
    using wr_append [of 0 "ascii ''OpusTags'' @ le32 ?n" ?v ?p, unfolded length_append length_magic length_le32] l by simp
  moreover have "wr (12 + ?n) (le32 0) (wr 0 ((ascii ''OpusTags'' @ le32 ?n) @ ?v) ?p) =
      wr 0 (((ascii ''OpusTags'' @ le32 ?n) @ ?v) @ le32 0) ?p"
    using wr_append [of 0 "(ascii ''OpusTags'' @ le32 ?n) @ ?v" "le32 0" ?p, unfolded length_append length_magic length_le32] l by simp
  moreover have "wr 0 (((ascii ''OpusTags'' @ le32 ?n) @ ?v) @ le32 0) ?p = encode_tags ?v []"
    using l by (simp add: wr_def encode_tags_def counted_def)
  ultimately show ?thesis
    using l p1 writeint_le32 [of "12 + ?n" _ 0]
    by (simp add: comment_init_def v Let_def writeint_le32)
qed

lemma comment_pad_bytes:
  assumes "\<And>n. length (block n) = n" "0 < amount"
  shows "\<exists>newlen. comment_pad block cs (length cs) amount = (cs @ replicate (newlen - length cs) 0, newlen) \<and>
    length cs + amount \<le> newlen \<and> newlen mod 255 = 254"
proof -
  let ?q = "(length cs + amount + 255) div 255"
  let ?newlen = "?q * 255 - 1"
  have q: "length cs + amount + 1 \<le> ?q * 255" "1 \<le> ?q"
    using div_mult_mod_eq [of "length cs + amount + 255" 255] mod_less_divisor [of 255 "length cs + amount + 255"]
    by linarith+
  then have n: "length cs + amount \<le> ?newlen" by linarith
  let ?p = "take ?newlen cs @ drop (length cs) (block ?newlen)"
  have "length ?p = ?newlen" using n assms(2) unfolding length_append length_take length_drop assms(1) by linarith
  then have "zero_fill (length cs) (?newlen - length cs) ?p = cs @ replicate (?newlen - length cs) 0"
    using n by (subst zero_fill) (simp_all add: assms(1))
  moreover have "?newlen mod 255 = 254"
  proof -
    obtain r where "?q = Suc r" using q(2) by (cases ?q) simp_all
    then have "?newlen = r * 255 + 254" by simp
    then show ?thesis by simp
  qed
  ultimately show ?thesis
    using n assms(2) by (simp add: comment_pad_def Let_def)
qed

text \<open>A header that does not fit gives 0; at no time is anything stored at or after \<open>len\<close>.\<close>

lemma header_to_packet_bounded:
  assumes "0 \<le> len" "len \<le> int (length buf)" "opus_header_to_packet h buf len = (n, buf')"
  shows "length buf' = length buf \<and> 0 \<le> n \<and> n \<le> len \<and> drop (nat len) buf' = drop (nat len) buf"
proof (cases "len < 19")
  case True
  with assms show ?thesis by (auto simp: opus_header_to_packet_def)
next
  case False
  let ?p = "\<lparr>data = buf, maxlen = len, pos = 0\<rparr>"
  obtain ok q where w: "write_all
     ([write_chars (ascii ''OpusHead'') 8, write_chars [1] 1, write_chars [word_of_int (channels h)] 1,
       write_uint16 (word_of_int (preskip h)), write_uint32 (hdr_input_sample_rate h),
       write_uint16 (word_of_int (gain h)), write_chars [word_of_int (channel_mapping h)] 1] @
      (if channel_mapping h \<noteq> 0
       then [write_chars [word_of_int (nb_streams h)] 1, write_chars [word_of_int (nb_coupled h)] 1] @
            map (\<lambda>i. write_chars [stream_map h ! i] 1) [0..<nat (channels h)]
       else [])) ?p = (ok, q)" by fastforce
  from write_all_bounded [OF header_writes _ _ _ w] assms(1,2)
  have "length (data q) = length buf \<and> 0 \<le> pos q \<and> pos q \<le> len \<and> drop (nat len) (data q) = drop (nat len) buf"
    by simp
  moreover have "n = (if ok then pos q else 0)" "buf' = data q"
    using assms(3) False w by (simp_all add: opus_header_to_packet_def Let_def)
  ultimately show ?thesis using assms(1) by simp
qed

lemma write_all_short:
  assumes "list_all2 writes bss ws" "0 \<le> pos p" "pos p \<le> maxlen p" "maxlen p \<le> int (length (data p))"
    and "maxlen p < pos p + int (length (concat bss))"
  shows "\<not> fst (write_all ws p)"
  using assms
proof (induction bss ws arbitrary: p rule: list_all2_induct)
  case Nil
  then show ?case by simp
next
  case (Cons bs bss w ws)
  let ?p = "p\<lparr>data := wr (nat (pos p)) bs (data p), pos := pos p + int (length bs)\<rparr>"
  have w: "w p = (if pos p > maxlen p - int (length bs) then None else Some ?p)"
    using Cons.hyps(1) Cons.prems by (auto simp: writes_def)
  show ?case
  proof (cases "pos p > maxlen p - int (length bs)")
    case True
    with w show ?thesis by simp
  next
    case False
    then have "nat (pos p) + length bs \<le> length (data p)" using Cons.prems by linarith
    then have "\<not> fst (write_all ws ?p)" using Cons.prems False by (intro Cons.IH) simp_all
    with w False show ?thesis by simp
  qed
qed

lemma header_to_packet_short:
  assumes "len \<le> int (length buf)" "len < int (length (header_bytes h))"
  shows "fst (opus_header_to_packet h buf len) = 0"
proof (cases "len < 19")
  case True
  then show ?thesis by (simp add: opus_header_to_packet_def)
next
  case False
  let ?p = "\<lparr>data = buf, maxlen = len, pos = 0\<rparr>"
  have "\<not> fst (write_all
     ([write_chars (ascii ''OpusHead'') 8, write_chars [1] 1, write_chars [word_of_int (channels h)] 1,
       write_uint16 (word_of_int (preskip h)), write_uint32 (hdr_input_sample_rate h),
       write_uint16 (word_of_int (gain h)), write_chars [word_of_int (channel_mapping h)] 1] @
      (if channel_mapping h \<noteq> 0
       then [write_chars [word_of_int (nb_streams h)] 1, write_chars [word_of_int (nb_coupled h)] 1] @
            map (\<lambda>i. write_chars [stream_map h ! i] 1) [0..<nat (channels h)]
       else [])) ?p)" (is "\<not> fst ?w")
    using assms False by (intro write_all_short [OF header_writes]) simp_all
  moreover obtain ok q where w: "?w = (ok, q)" by fastforce
  ultimately have "\<not> ok" by simp
  with w False show ?thesis by (simp add: opus_header_to_packet_def Let_def)
qed

section \<open>Properties\<close>

text \<open>
  The identification header that the recorder writes is what the player reads: for a header whose
  fields fit their places, \<open>opus_header_to_packet\<close> gives the length, and \<open>opus_head_parse\<close> of the packet
  gives version 1 and the fields that were written.
\<close>

theorem opus_header_round_trip:
  assumes "header_fits h" "opus_header_to_packet h buf len = (n, buf')"
    and "0 < n" "len \<le> int (length buf)"
  shows "opus_head_parse (Some old) (take (nat n) buf') = Inr (Some (parsed_header h (mapping old)))"
proof -
  have "int (length (header_bytes h)) \<le> len"
    using header_to_packet_short [of len buf h] assms(2-4) by force
  with header_to_packet [OF this assms(4)] assms(2,4)
  have "n = int (length (header_bytes h))" "buf' = wr 0 (header_bytes h) buf"
    by simp_all
  then have "take (nat n) buf' = header_bytes h" by (simp add: wr_def)
  with head_parse_header_bytes [OF assms(1)] show ?thesis by simp
qed


text \<open>The header of a mono recording, for the witnesses.\<close>

definition mono_header :: OpusHeader where
  "mono_header = \<lparr>hdr_version = 0, channels = 1, preskip = 312, hdr_input_sample_rate = 16000, gain = 0,
     channel_mapping = 0, nb_streams = 1, nb_coupled = 0, stream_map = replicate 255 0\<rparr>"

lemma mono_header: "header_fits mono_header" "length (header_bytes mono_header) = 19"
  by (simp_all add: mono_header_def header_fits_def length_header_bytes)

theorem opus_header_round_trip_witness:
  "\<exists>buf'. opus_header_to_packet mono_header (replicate 100 0) 100 = (19, buf') \<and>
     opus_head_parse (Some blank_head) (take 19 buf') = Inr (Some (parsed_header mono_header (mapping blank_head)))"
proof -
  have p: "opus_header_to_packet mono_header (replicate 100 0) 100 = (19, wr 0 (header_bytes mono_header) (replicate 100 0))"
    using header_to_packet [of mono_header 100 "replicate 100 0"] mono_header(2) by simp
  from opus_header_round_trip [OF mono_header(1) p] p show ?thesis by auto
qed

text \<open>
  \<open>opus_header_to_packet\<close> keeps to its buffer for every header, even with 255 channels: it gives 0
  or the length of what it wrote, at most \<open>len\<close>, and stores nothing at \<open>len\<close> or after it; it gives 0
  exactly when the header is longer than \<open>len\<close>.
\<close>

theorem opus_header_to_packet_safe:
  assumes "0 \<le> len" "len \<le> int (length buf)" "opus_header_to_packet h buf len = (n, buf')"
  shows "length buf' = length buf \<and> n \<le> len \<and> drop (nat len) buf' = drop (nat len) buf \<and>
    n = (if int (length (header_bytes h)) \<le> len then int (length (header_bytes h)) else 0)"
  using header_to_packet_bounded [OF assms] header_to_packet [OF _ assms(2), of h]
    header_to_packet_short [OF assms(2), of h] assms(3) by auto

theorem opus_header_to_packet_safe_witness:
  "\<exists>buf'. opus_header_to_packet (mono_header\<lparr>channels := 255, channel_mapping := 1\<rparr>) (replicate 100 0) 80 = (0, buf') \<and>
     length buf' = 100 \<and> drop 80 buf' = replicate 20 0"
proof -
  let ?h = "mono_header\<lparr>channels := 255, channel_mapping := 1\<rparr>"
  have len: "length (header_bytes ?h) = 276" by (simp add: length_header_bytes)
  obtain n buf' where p: "opus_header_to_packet ?h (replicate 100 0) 80 = (n, buf')" by fastforce
  from opus_header_to_packet_safe [OF _ _ p] len p show ?thesis by auto
qed

text \<open>
  The comment packet the recorder writes, padded by any amount, parses into the vendor string and
  no comments; padding keeps what was there, adds at least the amount asked for, and makes the last
  Ogg segment of the packet one of 254 bytes, the most a packet can have without another segment.
\<close>

theorem comment_packet_round_trip:
  assumes "\<And>n. length (block n) = n" "\<And>n. length (block' n) = n" "length vendor_string < 2 ^ 32" "0 < amount"
    and "comment_init block vendor_string = (cs, len)" "comment_pad block' cs len amount = (packet, newlen)"
  shows "length packet = newlen \<and> len + amount \<le> newlen \<and> newlen mod 255 = 254 \<and>
    (\<exists>t. opus_tags_parse (\<lambda>n. True) (Some old) packet = (0, Some t) \<and>
       vendor t = Some (cstring vendor_string) \<and> comments t = 0)"
proof -
  let ?v = "cstring vendor_string"
  have cs: "cs = encode_tags ?v []" "len = length cs"
    using comment_init_bytes [of block vendor_string, OF assms(1)] assms(5)
    by (auto simp: encode_tags_def counted_def)
  obtain pad where p: "packet = cs @ replicate (newlen - length cs) 0" "length cs + amount \<le> newlen" "newlen mod 255 = 254"
    using comment_pad_bytes [of block' amount cs, OF assms(2,4)] assms(6) cs(2) by auto
  have "length ?v \<le> length vendor_string" unfolding cstring_def by (rule length_takeWhile_le)
  then have "length ?v < 2 ^ 32" using assms(3) by linarith
  then obtain t where "opus_tags_parse_impl (\<lambda>n. True) (Some opus_tags_init) packet = Inr (Some t)"
    "tags_hold t 0 []" "vendor t = Some ?v"
    using parse_impl_encoded [of "\<lambda>n. True" ?v "[]" "replicate (newlen - length cs) 0"] unfolding p(1) cs(1) by auto
  then have "opus_tags_parse (\<lambda>n. True) (Some old) packet = (0, Some t)" "comments t = 0" "vendor t = Some ?v"
    by (simp_all add: opus_tags_parse_def tags_hold_def)
  with p cs(2) show ?thesis by auto
qed

theorem comment_packet_round_trip_witness:
  "\<exists>packet newlen t. comment_pad (\<lambda>n. replicate n 7) (fst (comment_init (\<lambda>n. replicate n 9) (ascii ''libopus'')))
       (snd (comment_init (\<lambda>n. replicate n 9) (ascii ''libopus''))) 512 = (packet, newlen) \<and>
     newlen mod 255 = 254 \<and> opus_tags_parse (\<lambda>n. True) (Some opus_tags_init) packet = (0, Some t) \<and>
     vendor t = Some (cstring (ascii ''libopus''))"
proof -
  obtain packet newlen where p: "comment_pad (\<lambda>n. replicate n 7) (fst (comment_init (\<lambda>n. replicate n 9) (ascii ''libopus'')))
       (snd (comment_init (\<lambda>n. replicate n 9) (ascii ''libopus''))) 512 = (packet, newlen)" by fastforce
  from comment_packet_round_trip [OF _ _ _ _ prod.collapse [symmetric] p, of opus_tags_init] p show ?thesis by auto
qed

text \<open>What \<open>write_uint32\<close> stores, \<open>read_uint32\<close> reads back from the same place of the buffer.\<close>

theorem write_read_uint32:
  assumes "0 \<le> pos p" "maxlen p \<le> int (length (data p))" "write_uint32 val p = Some q"
  shows "read_uint32 (q\<lparr>pos := pos p\<rparr>) = Some (val, q)"
proof -
  have fit: "pos p \<le> maxlen p - 4" using assms(3) by (auto simp: write_uint32_def split: if_splits)
  have q: "q = p\<lparr>data := wr (nat (pos p)) (le32w val) (data p), pos := pos p + 4\<rparr>"
    using writes_uint32 [of val] assms fit by (simp add: writes_def)
  let ?d = "wr (nat (pos p)) (le32w val) (data p)"
  have n: "?d ! (nat (pos p) + i) = le32w val ! i" if "i < 4" for i
    using that assms(1,2) fit by (simp add: wr_def nth_append)
  have "ucast (?d ! nat (pos p)) OR push_bit 8 (ucast (?d ! (nat (pos p) + 1))) OR
      push_bit 16 (ucast (?d ! (nat (pos p) + 2))) OR push_bit 24 (ucast (?d ! (nat (pos p) + 3))) = val"
    using n [of 0] n [of 1] n [of 2] n [of 3] le32w_value [of val "[]"]
    by (simp add: op_parse_uint32le_def)
  with fit show ?thesis unfolding q by (simp add: read_uint32_def Let_def)
qed

theorem write_read_uint32_witness:
  "\<exists>q. write_uint32 0x12345678 \<lparr>data = replicate 8 0, maxlen = 8, pos = 3\<rparr> = Some q \<and>
     read_uint32 (q\<lparr>pos := 3\<rparr>) = Some (0x12345678, q)"
proof -
  obtain q where q: "write_uint32 0x12345678 \<lparr>data = replicate 8 0, maxlen = 8, pos = 3\<rparr> = Some q"
    by (simp add: write_uint32_def Let_def)
  from write_read_uint32 [OF _ _ q] q show ?thesis by auto
qed

end
