(* ===== verification/OggPage.thy ===== *)
theory OggPage
  imports Prelude
begin

text \<open>
  Pages of an Ogg stream, from \<^verbatim>\<open>app/jni/opus/ogg/framing.c\<close>: the record of a page, the functions that
  read its header, and its checksum.  The table of the checksum is proved to be the one of the generator
  polynomial, the checksum to be the bitwise division by it, and a change of one byte to be noticed.
\<close>

unbundle bit_operations_syntax

section \<open>Pages\<close>

text \<open>
  The pointers of the C structure are the bytes from where they point; the first \<open>header_len\<close> and
  \<open>body_len\<close> of them are the page.
\<close>

record ogg_page =
  header :: bytes
  header_len :: nat
  body :: bytes
  body_len :: nat

definition ogg_page_version :: "ogg_page \<Rightarrow> int" where
  "ogg_page_version og = uint (header og ! 4)"

definition ogg_page_continued :: "ogg_page \<Rightarrow> int" where
  "ogg_page_continued og = uint (header og ! 5 AND 0x01)"

definition ogg_page_bos :: "ogg_page \<Rightarrow> int" where
  "ogg_page_bos og = uint (header og ! 5 AND 0x02)"

definition ogg_page_eos :: "ogg_page \<Rightarrow> int" where
  "ogg_page_eos og = uint (header og ! 5 AND 0x04)"

definition ogg_page_granulepos :: "ogg_page \<Rightarrow> u64" where
  "ogg_page_granulepos og =
     (let page = header og;
          granulepos = ucast (page ! 13) AND 0xff;
          granulepos = push_bit 8 granulepos OR (ucast (page ! 12) AND 0xff);
          granulepos = push_bit 8 granulepos OR (ucast (page ! 11) AND 0xff);
          granulepos = push_bit 8 granulepos OR (ucast (page ! 10) AND 0xff);
          granulepos = push_bit 8 granulepos OR (ucast (page ! 9) AND 0xff);
          granulepos = push_bit 8 granulepos OR (ucast (page ! 8) AND 0xff);
          granulepos = push_bit 8 granulepos OR (ucast (page ! 7) AND 0xff)
      in push_bit 8 granulepos OR (ucast (page ! 6) AND 0xff))"

text \<open>The two results below are C \<open>int\<close>s: a byte of 128 and more on top makes them negative.\<close>

definition ogg_page_serialno :: "ogg_page \<Rightarrow> int" where
  "ogg_page_serialno og =
     sint (ucast (header og ! 14) OR push_bit 8 (ucast (header og ! 15)) OR
           push_bit 16 (ucast (header og ! 16)) OR push_bit 24 (ucast (header og ! 17)) :: u32)"

definition ogg_page_pageno :: "ogg_page \<Rightarrow> int" where
  "ogg_page_pageno og =
     sint (ucast (header og ! 18) OR push_bit 8 (ucast (header og ! 19)) OR
           push_bit 16 (ucast (header og ! 20)) OR push_bit 24 (ucast (header og ! 21)) :: u32)"

fun packets_from :: "bytes \<Rightarrow> nat \<Rightarrow> nat \<Rightarrow> nat \<Rightarrow> nat" where
  "packets_from h i 0 count = count"
| "packets_from h i (Suc left) count =
     packets_from h (i + 1) left (if h ! (27 + i) < 255 then count + 1 else count)"

definition ogg_page_packets :: "ogg_page \<Rightarrow> nat" where
  "ogg_page_packets og = packets_from (header og) 0 (unat (header og ! 26)) 0"

section \<open>The checksum\<close>

definition ogg_crc_entry :: "u32 \<Rightarrow> u32" where
  "ogg_crc_entry index =
     fold (\<lambda>i r. if r AND 0x80000000 \<noteq> 0 then push_bit 1 r XOR 0x04c11db7 else push_bit 1 r) [0..<8] (push_bit 24 index)"

definition crc_lookup :: "u32 list" where
  "crc_lookup =
     [0x00000000, 0x04c11db7, 0x09823b6e, 0x0d4326d9, 0x130476dc, 0x17c56b6b, 0x1a864db2, 0x1e475005,
      0x2608edb8, 0x22c9f00f, 0x2f8ad6d6, 0x2b4bcb61, 0x350c9b64, 0x31cd86d3, 0x3c8ea00a, 0x384fbdbd,
      0x4c11db70, 0x48d0c6c7, 0x4593e01e, 0x4152fda9, 0x5f15adac, 0x5bd4b01b, 0x569796c2, 0x52568b75,
      0x6a1936c8, 0x6ed82b7f, 0x639b0da6, 0x675a1011, 0x791d4014, 0x7ddc5da3, 0x709f7b7a, 0x745e66cd,
      0x9823b6e0, 0x9ce2ab57, 0x91a18d8e, 0x95609039, 0x8b27c03c, 0x8fe6dd8b, 0x82a5fb52, 0x8664e6e5,
      0xbe2b5b58, 0xbaea46ef, 0xb7a96036, 0xb3687d81, 0xad2f2d84, 0xa9ee3033, 0xa4ad16ea, 0xa06c0b5d,
      0xd4326d90, 0xd0f37027, 0xddb056fe, 0xd9714b49, 0xc7361b4c, 0xc3f706fb, 0xceb42022, 0xca753d95,
      0xf23a8028, 0xf6fb9d9f, 0xfbb8bb46, 0xff79a6f1, 0xe13ef6f4, 0xe5ffeb43, 0xe8bccd9a, 0xec7dd02d,
      0x34867077, 0x30476dc0, 0x3d044b19, 0x39c556ae, 0x278206ab, 0x23431b1c, 0x2e003dc5, 0x2ac12072,
      0x128e9dcf, 0x164f8078, 0x1b0ca6a1, 0x1fcdbb16, 0x018aeb13, 0x054bf6a4, 0x0808d07d, 0x0cc9cdca,
      0x7897ab07, 0x7c56b6b0, 0x71159069, 0x75d48dde, 0x6b93dddb, 0x6f52c06c, 0x6211e6b5, 0x66d0fb02,
      0x5e9f46bf, 0x5a5e5b08, 0x571d7dd1, 0x53dc6066, 0x4d9b3063, 0x495a2dd4, 0x44190b0d, 0x40d816ba,
      0xaca5c697, 0xa864db20, 0xa527fdf9, 0xa1e6e04e, 0xbfa1b04b, 0xbb60adfc, 0xb6238b25, 0xb2e29692,
      0x8aad2b2f, 0x8e6c3698, 0x832f1041, 0x87ee0df6, 0x99a95df3, 0x9d684044, 0x902b669d, 0x94ea7b2a,
      0xe0b41de7, 0xe4750050, 0xe9362689, 0xedf73b3e, 0xf3b06b3b, 0xf771768c, 0xfa325055, 0xfef34de2,
      0xc6bcf05f, 0xc27dede8, 0xcf3ecb31, 0xcbffd686, 0xd5b88683, 0xd1799b34, 0xdc3abded, 0xd8fba05a,
      0x690ce0ee, 0x6dcdfd59, 0x608edb80, 0x644fc637, 0x7a089632, 0x7ec98b85, 0x738aad5c, 0x774bb0eb,
      0x4f040d56, 0x4bc510e1, 0x46863638, 0x42472b8f, 0x5c007b8a, 0x58c1663d, 0x558240e4, 0x51435d53,
      0x251d3b9e, 0x21dc2629, 0x2c9f00f0, 0x285e1d47, 0x36194d42, 0x32d850f5, 0x3f9b762c, 0x3b5a6b9b,
      0x0315d626, 0x07d4cb91, 0x0a97ed48, 0x0e56f0ff, 0x1011a0fa, 0x14d0bd4d, 0x19939b94, 0x1d528623,
      0xf12f560e, 0xf5ee4bb9, 0xf8ad6d60, 0xfc6c70d7, 0xe22b20d2, 0xe6ea3d65, 0xeba91bbc, 0xef68060b,
      0xd727bbb6, 0xd3e6a601, 0xdea580d8, 0xda649d6f, 0xc423cd6a, 0xc0e2d0dd, 0xcda1f604, 0xc960ebb3,
      0xbd3e8d7e, 0xb9ff90c9, 0xb4bcb610, 0xb07daba7, 0xae3afba2, 0xaafbe615, 0xa7b8c0cc, 0xa379dd7b,
      0x9b3660c6, 0x9ff77d71, 0x92b45ba8, 0x9675461f, 0x8832161a, 0x8cf30bad, 0x81b02d74, 0x857130c3,
      0x5d8a9099, 0x594b8d2e, 0x5408abf7, 0x50c9b640, 0x4e8ee645, 0x4a4ffbf2, 0x470cdd2b, 0x43cdc09c,
      0x7b827d21, 0x7f436096, 0x7200464f, 0x76c15bf8, 0x68860bfd, 0x6c47164a, 0x61043093, 0x65c52d24,
      0x119b4be9, 0x155a565e, 0x18197087, 0x1cd86d30, 0x029f3d35, 0x065e2082, 0x0b1d065b, 0x0fdc1bec,
      0x3793a651, 0x3352bbe6, 0x3e119d3f, 0x3ad08088, 0x2497d08d, 0x2056cd3a, 0x2d15ebe3, 0x29d4f654,
      0xc5a92679, 0xc1683bce, 0xcc2b1d17, 0xc8ea00a0, 0xd6ad50a5, 0xd26c4d12, 0xdf2f6bcb, 0xdbee767c,
      0xe3a1cbc1, 0xe760d676, 0xea23f0af, 0xeee2ed18, 0xf0a5bd1d, 0xf464a0aa, 0xf9278673, 0xfde69bc4,
      0x89b8fd09, 0x8d79e0be, 0x803ac667, 0x84fbdbd0, 0x9abc8bd5, 0x9e7d9662, 0x933eb0bb, 0x97ffad0c,
      0xafb010b1, 0xab710d06, 0xa6322bdf, 0xa2f33668, 0xbcb4666d, 0xb8757bda, 0xb5365d03, 0xb1f740b4]"

fun crc_bytes :: "u32 \<Rightarrow> bytes \<Rightarrow> u32" where
  "crc_bytes crc_reg [] = crc_reg"
| "crc_bytes crc_reg (b # bs) =
     crc_bytes (push_bit 8 crc_reg XOR crc_lookup ! unat ((drop_bit 24 crc_reg AND 0xff) XOR ucast b)) bs"

definition ogg_page_checksum_set :: "ogg_page \<Rightarrow> ogg_page" where
  "ogg_page_checksum_set og =
     (let hd = (header og)[22 := 0, 23 := 0, 24 := 0, 25 := 0];
          crc_reg = crc_bytes 0 (take (header_len og) hd);
          crc_reg = crc_bytes crc_reg (take (body_len og) (body og))
      in og\<lparr>header := hd[22 := ucast (crc_reg AND 0xff), 23 := ucast (drop_bit 8 crc_reg AND 0xff),
                         24 := ucast (drop_bit 16 crc_reg AND 0xff), 25 := ucast (drop_bit 24 crc_reg AND 0xff)]\<rparr>)"

section \<open>Division by the generator polynomial\<close>

text \<open>The reference: one bit of the message after the other, most significant first.\<close>

definition crc_bit :: "u32 \<Rightarrow> u32" where
  "crc_bit r = (if bit r 31 then push_bit 1 r XOR 0x04c11db7 else push_bit 1 r)"

definition crc_byte :: "u32 \<Rightarrow> u8 \<Rightarrow> u32" where
  "crc_byte r b = (crc_bit ^^ 8) (r XOR push_bit 24 (ucast b))"

lemma crc_bit_alt: "(if r AND 0x80000000 \<noteq> 0 then push_bit 1 r XOR 0x04c11db7 else push_bit 1 r) = crc_bit r" for r :: u32
proof -
  have "(0x80000000 :: u32) = push_bit 31 1" by simp
  then have "r AND 0x80000000 = 0 \<longleftrightarrow> \<not> bit r 31"
    by (simp only: bit_iff_and_push_bit_not_eq_0 not_not)
  then show ?thesis by (simp add: crc_bit_def)
qed

lemma ogg_crc_entry_bits: "ogg_crc_entry i = (crc_bit ^^ 8) (push_bit 24 i)"
proof -
  have "fold (\<lambda>i. f) [m..<m + n] x = (f ^^ n) x" for f :: "u32 \<Rightarrow> u32" and m n :: nat and x
    by (induction n) (simp_all add: fold_append)
  from this [of crc_bit 0 8] show ?thesis by (simp add: ogg_crc_entry_def crc_bit_alt)
qed

lemma crc_bit_xor: "crc_bit (x XOR y) = crc_bit x XOR crc_bit y"
  by (simp add: crc_bit_def bit_xor_iff push_bit_xor ac_simps)

lemma crc_bits_xor: "(crc_bit ^^ n) (x XOR y) = (crc_bit ^^ n) x XOR (crc_bit ^^ n) y"
  by (induction n arbitrary: x y) (simp_all add: crc_bit_xor funpow_swap1)

lemma crc_bits_low: "(\<And>k. k < 32 \<Longrightarrow> bit x k \<Longrightarrow> k < 32 - n) \<Longrightarrow> n \<le> 32 \<Longrightarrow> (crc_bit ^^ n) x = push_bit n x"
proof (induction n)
  case (Suc n)
  have "bit x k \<Longrightarrow> k < 32 - n" if "k < 32" for k
    using Suc.prems(1) [of k] that by linarith
  then have "(crc_bit ^^ n) x = push_bit n x" using Suc.prems(2) by (intro Suc.IH) simp_all
  moreover have "\<not> bit (push_bit n x) 31"
  proof
    assume "bit (push_bit n x) 31"
    then have "bit x (31 - n)" by (simp add: bit_simps)
    with Suc.prems(1) [of "31 - n"] Suc.prems(2) show False by linarith
  qed
  ultimately have "(crc_bit ^^ Suc n) x = push_bit 1 (push_bit n x)"
    by (simp add: crc_bit_def [of "push_bit n x"])
  then show ?case by (simp only: push_bit_push_bit plus_1_eq_Suc)
qed simp

text \<open>The entries of \<open>2 * i\<close> and \<open>2 * i + 1\<close> come from that of \<open>i\<close> by one more bit.\<close>

lemma crc_lookup_double:
  "crc_lookup = concat (map (\<lambda>t. [crc_bit t, crc_bit t XOR 0x04c11db7]) (take 128 crc_lookup))"
  by (simp add: crc_lookup_def crc_bit_def)

lemma nth_concat_pairs:
  "k < length xs \<Longrightarrow> concat (map (\<lambda>x. [f x, g x]) xs) ! (2 * k) = f (xs ! k)"
  "k < length xs \<Longrightarrow> concat (map (\<lambda>x. [f x, g x]) xs) ! (2 * k + 1) = g (xs ! k)"
proof (induction xs arbitrary: k)
  case (Cons x xs)
  { case 1 then show ?case using Cons.IH(1) [of "k - 1"] by (cases k) simp_all }
  { case 2 then show ?case using Cons.IH(2) [of "k - 1"] by (cases k) simp_all }
qed simp_all

lemma crc_lookup_pairs:
  assumes "k < 128"
  shows "crc_lookup ! (2 * k) = crc_bit (crc_lookup ! k)"
    "crc_lookup ! (2 * k + 1) = crc_bit (crc_lookup ! k) XOR 0x04c11db7"
proof -
  have l: "k < length (take 128 crc_lookup)" using assms by (simp add: crc_lookup_def)
  show "crc_lookup ! (2 * k) = crc_bit (crc_lookup ! k)"
    by (subst crc_lookup_double, subst nth_concat_pairs(1) [OF l]) (simp add: assms)
  show "crc_lookup ! (2 * k + 1) = crc_bit (crc_lookup ! k) XOR 0x04c11db7"
    by (subst crc_lookup_double, subst nth_concat_pairs(2) [OF l]) (simp add: assms)
qed

lemma crc_bit_funpow_0: "(crc_bit ^^ n) 0 = 0"
  by (induction n) (simp_all add: crc_bit_def)

lemma crc_bits_1: "(crc_bit ^^ 8) (push_bit 24 1) = 0x04c11db7"
proof -
  have "(crc_bit ^^ 7) (push_bit 24 1) = push_bit 7 (push_bit 24 1)"
    by (rule crc_bits_low) (simp_all only: bit_push_bit_iff bit_1_iff, simp_all)
  moreover have "(crc_bit ^^ 8) x = crc_bit ((crc_bit ^^ 7) x)" for x
    by (simp add: eval_nat_numeral)
  ultimately show ?thesis by (simp add: crc_bit_def)
qed

lemma crc_lookup_nth: "i < 256 \<Longrightarrow> crc_lookup ! i = ogg_crc_entry (of_nat i)"
proof (induction i rule: less_induct)
  case (less i)
  define k where "k = i div 2"
  have k: "k < 128" using less.prems by (simp add: k_def)
  have "crc_lookup ! k = ogg_crc_entry (of_nat k)"
  proof (cases "i = 0")
    case True
    then show ?thesis by (simp add: k_def crc_lookup_def ogg_crc_entry_bits crc_bit_funpow_0)
  next
    case False
    then show ?thesis using less k by (simp add: k_def)
  qed
  moreover have "crc_bit (push_bit 24 (of_nat k)) = push_bit 24 (of_nat (2 * k))"
  proof -
    have "\<not> bit (push_bit 24 (of_nat k) :: u32) 31"
    proof
      assume "bit (push_bit 24 (of_nat k) :: u32) 31"
      then have "bit k 7" by (simp add: bit_simps)
      with k show False by (simp add: bit_iff_odd)
    qed
    then show ?thesis by (simp add: crc_bit_def push_bit_eq_mult)
  qed
  ultimately have e: "crc_bit (crc_lookup ! k) = ogg_crc_entry (of_nat (2 * k))"
    by (simp only: ogg_crc_entry_bits funpow_swap1)
  consider "i = 2 * k" | "i = 2 * k + 1" unfolding k_def by linarith
  then show ?case
  proof cases
    case 1
    with crc_lookup_pairs(1) [OF k] e show ?thesis by simp
  next
    case 2
    have "push_bit 24 (of_nat (2 * k + 1)) = push_bit 24 (of_nat (2 * k)) XOR (push_bit 24 1 :: u32)"
    proof -
      have "of_nat (2 * k + 1) = of_nat (2 * k) XOR (1 :: u32)"
        by (simp add: xor_one_eq)
      then show ?thesis by (simp only: push_bit_xor)
    qed
    then have "ogg_crc_entry (of_nat i) = ogg_crc_entry (of_nat (2 * k)) XOR 0x04c11db7"
      unfolding ogg_crc_entry_bits 2 by (simp only: crc_bits_xor crc_bits_1)
    with crc_lookup_pairs(2) [OF k] e 2 show ?thesis by simp
  qed
qed

text \<open>One step with the table is the division by eight bits.\<close>

lemma crc_step:
  "push_bit 8 r XOR crc_lookup ! unat ((drop_bit 24 r AND 0xff) XOR ucast b) = crc_byte r b" for r :: u32 and b :: u8
proof -
  let ?i = "(drop_bit 24 r AND 0xff) XOR ucast b" and ?low = "take_bit 24 r"
  have "unat ?i < 256"
  proof -
    have "?i = take_bit 8 ?i"
      by (rule bit_eqI) (auto simp: bit_simps bit_0xff dest: bit_imp_le_length)
    then have "unat ?i = unat (take_bit 8 ?i)" by (rule arg_cong)
    also have "\<dots> < 2 ^ 8" by (simp only: unsigned_take_bit_eq take_bit_nat_less_exp)
    finally show ?thesis by simp
  qed
  then have "crc_lookup ! unat ?i = (crc_bit ^^ 8) (push_bit 24 ?i)"
    by (simp add: crc_lookup_nth ogg_crc_entry_bits)
  moreover have "(crc_bit ^^ 8) ?low = push_bit 8 ?low"
    by (rule crc_bits_low) (auto simp: bit_simps)
  moreover have "push_bit 8 ?low = push_bit 8 r"
    by (rule bit_eqI) (auto simp: bit_simps)
  moreover have "?low XOR push_bit 24 ?i = r XOR push_bit 24 (ucast b)"
    by (rule bit_eqI, simp only: bit_xor_iff bit_push_bit_iff bit_and_iff bit_0xff bit_drop_bit_eq
        bit_take_bit_iff bit_ucast_iff o_apply possible_bit_word) (auto dest: bit_imp_le_length)
  ultimately show ?thesis
    unfolding crc_byte_def using crc_bits_xor [of 8 ?low "push_bit 24 ?i"] by simp
qed

lemma crc_bytes_fold: "crc_bytes r bs = fold (\<lambda>b r. crc_byte r b) bs r"
  by (induction bs arbitrary: r) (simp_all add: crc_step)

lemma crc_bytes_append: "crc_bytes r (xs @ ys) = crc_bytes (crc_bytes r xs) ys"
  by (simp add: crc_bytes_fold)

section \<open>What the checksum notices\<close>

lemma xor_cancel: "x XOR z = y XOR z \<longleftrightarrow> x = y" "z XOR x = z XOR y \<longleftrightarrow> x = y" for x y z :: "'a::len word"
proof -
  have "x = y" if "x XOR z = y XOR z"
  proof -
    have "(x XOR z) XOR z = (y XOR z) XOR z" using that by simp
    then show ?thesis by (simp add: xor.assoc)
  qed
  then show "x XOR z = y XOR z \<longleftrightarrow> x = y" by blast
  then show "z XOR x = z XOR y \<longleftrightarrow> x = y" by (simp add: xor.commute)
qed

lemma crc_bit_inj: "crc_bit x = crc_bit y \<Longrightarrow> x = y"
proof -
  assume e: "crc_bit x = crc_bit y"
  have lsb: "bit (crc_bit z) 0 \<longleftrightarrow> bit z 31" for z
    by (simp only: crc_bit_def if_split_asm bit_xor_iff bit_push_bit_iff split: if_split) simp
  have top: "bit x 31 \<longleftrightarrow> bit y 31" using e lsb [of x] lsb [of y] by simp
  then have p: "push_bit 1 x = push_bit 1 y" using e unfolding crc_bit_def by (simp add: xor_cancel split: if_splits)
  show "x = y"
  proof (rule bit_word_eqI)
    fix n assume n: "n < LENGTH(32)"
    show "bit x n \<longleftrightarrow> bit y n"
    proof (cases "n = 31")
      case False
      then have s: "bit z n \<longleftrightarrow> bit (push_bit 1 z) (Suc n)" for z :: u32
        using n by (simp only: bit_push_bit_iff possible_bit_word) simp
      show ?thesis unfolding s p ..
    qed (simp add: top)
  qed
qed

lemma crc_bits_inj: "(crc_bit ^^ n) x = (crc_bit ^^ n) y \<Longrightarrow> x = y"
  by (induction n) (auto dest: crc_bit_inj)

lemma crc_byte_inj: "crc_byte r b = crc_byte r' b \<Longrightarrow> r = r'" "crc_byte r b = crc_byte r b' \<Longrightarrow> b = b'"
proof -
  assume "crc_byte r b = crc_byte r' b"
  then have "r XOR push_bit 24 (ucast b) = r' XOR push_bit 24 (ucast b)"
    unfolding crc_byte_def by (rule crc_bits_inj)
  then show "r = r'" by (simp add: xor_cancel)
next
  assume "crc_byte r b = crc_byte r b'"
  then have "r XOR push_bit 24 (ucast b) = r XOR push_bit 24 (ucast b')"
    unfolding crc_byte_def by (rule crc_bits_inj)
  then have "push_bit 24 (ucast b) = (push_bit 24 (ucast b') :: u32)"
    by (simp add: xor_cancel)
  then have d: "drop_bit 24 (push_bit 24 (ucast b) :: u32) = drop_bit 24 (push_bit 24 (ucast b'))" by simp
  have "ucast (drop_bit 24 (push_bit 24 (ucast c) :: u32)) = c" for c :: u8
    by (rule bit_eqI) (auto simp: bit_simps dest: bit_imp_le_length)
  note c = this
  from c [of b] c [of b'] show "b = b'" unfolding d by simp
qed

lemma crc_bytes_inj: "crc_bytes r bs = crc_bytes r' bs \<Longrightarrow> r = r'"
  by (induction bs arbitrary: r r') (auto simp: crc_step dest: crc_byte_inj(1))

lemma crc_bytes_change: "i < length bs \<Longrightarrow> v \<noteq> bs ! i \<Longrightarrow> crc_bytes r (bs[i := v]) \<noteq> crc_bytes r bs"
proof (induction bs arbitrary: r i)
  case (Cons b bs)
  then show ?case
    by (cases i) (auto simp: crc_step dest!: crc_bytes_inj dest: crc_byte_inj)
qed simp

text \<open>The checksum in the four bytes of its field, and its field being right.\<close>

abbreviation clear_checksum :: "bytes \<Rightarrow> bytes" where
  "clear_checksum h \<equiv> h[22 := 0, 23 := 0, 24 := 0, 25 := 0]"

definition page_crc :: "ogg_page \<Rightarrow> u32" where
  "page_crc og = crc_bytes 0 (take (header_len og) (clear_checksum (header og)) @ take (body_len og) (body og))"

lemma nth_updated: "j < length xs \<Longrightarrow> xs[i := x] ! j = (if j = i then x else xs ! j)"
  by simp

lemma field_overwrite:
  "h[22 := a', 23 := b', 24 := c', 25 := d', 22 := a, 23 := b, 24 := c, 25 := d] = h[22 := a, 23 := b, 24 := c, 25 := d]"
  by (rule nth_equalityI) (auto simp: nth_updated)

lemma checksum_set:
  "ogg_page_checksum_set og = og\<lparr>header := (header og)[22 := b0 (page_crc og), 23 := b1 (page_crc og),
     24 := b2 (page_crc og), 25 := b3 (page_crc og)]\<rparr>"
proof -
  have "ucast (drop_bit 24 w AND 0xff) = b3 w" for w
    by (rule bit_eqI, simp only: bit_b3 bit_ucast_iff bit_and_iff bit_drop_bit_eq bit_0xff o_apply)
      (auto dest: bit_imp_le_length)
  then show ?thesis
    unfolding ogg_page_checksum_set_def Let_def page_crc_def crc_bytes_append
    by (simp add: b0_def b1_def b2_def field_overwrite)
qed

definition checksum_ok :: "ogg_page \<Rightarrow> bool" where
  "checksum_ok og \<longleftrightarrow> ogg_page_checksum_set og = og"

lemma checksum_ok_iff:
  assumes "26 \<le> length (header og)"
  shows "checksum_ok og \<longleftrightarrow> header og ! 22 = b0 (page_crc og) \<and> header og ! 23 = b1 (page_crc og) \<and>
    header og ! 24 = b2 (page_crc og) \<and> header og ! 25 = b3 (page_crc og)"
proof -
  have "h[22 := a, 23 := b, 24 := c, 25 := d] = h \<longleftrightarrow> h ! 22 = a \<and> h ! 23 = b \<and> h ! 24 = c \<and> h ! 25 = d"
    if "26 \<le> length h" for h :: bytes and a b c d
  proof
    assume e: "h[22 := a, 23 := b, 24 := c, 25 := d] = h"
    have "h ! i = h[22 := a, 23 := b, 24 := c, 25 := d] ! i" for i unfolding e ..
    from this [of 22] this [of 23] this [of 24] this [of 25] that
    show "h ! 22 = a \<and> h ! 23 = b \<and> h ! 24 = c \<and> h ! 25 = d" by simp
  qed (auto simp: list_update_same_conv)
  from this [OF assms] show ?thesis
    unfolding checksum_ok_def checksum_set by (cases og) simp
qed

lemma page_crc_field: "page_crc (og\<lparr>header := (header og)[22 := a, 23 := b, 24 := c, 25 := d]\<rparr>) = page_crc og"
  by (simp add: page_crc_def field_overwrite)

lemma checksum_set_ok: "checksum_ok (ogg_page_checksum_set og)"
  unfolding checksum_ok_def checksum_set [of "ogg_page_checksum_set og"]
  by (simp add: checksum_set page_crc_field field_overwrite)

lemma length_checksum_set [simp]:
  "length (header (ogg_page_checksum_set og)) = length (header og)"
  "header_len (ogg_page_checksum_set og) = header_len og" "body (ogg_page_checksum_set og) = body og"
  "body_len (ogg_page_checksum_set og) = body_len og"
  by (simp_all add: checksum_set)

lemma bytes_of_word_inj: "b0 v = b0 w \<Longrightarrow> b1 v = b1 w \<Longrightarrow> b2 v = b2 w \<Longrightarrow> b3 v = b3 w \<Longrightarrow> v = w"
  by (metis pack_bytes)

section \<open>Properties\<close>

text \<open>
  C37. The checksum of a page is the remainder of the division, bit by bit, of its bytes with the checksum
  field zeroed by the generator polynomial, stored in little-endian order; nothing else of the page changes.
\<close>

theorem checksum_is_division:
  assumes "26 \<le> length (header og)" "ogg_page_checksum_set og = og'"
    and "crc = fold (\<lambda>b r. crc_byte r b) (take (header_len og) (clear_checksum (header og)) @ take (body_len og) (body og)) 0"
  shows "rd 22 4 (header og') = [b0 crc, b1 crc, b2 crc, b3 crc] \<and> header og' = wr 22 (rd 22 4 (header og')) (header og) \<and>
    body og' = body og \<and> header_len og' = header_len og \<and> body_len og' = body_len og"
proof -
  have crc: "crc = page_crc og" by (simp add: page_crc_def crc_bytes_fold assms(3))
  let ?h = "(header og)[22 := b0 crc, 23 := b1 crc, 24 := b2 crc, 25 := b3 crc]"
  have og': "og' = og\<lparr>header := ?h\<rparr>" using checksum_set [of og] assms(2) crc by simp
  have rd: "rd 22 4 ?h = [b0 crc, b1 crc, b2 crc, b3 crc]"
    by (rule nth_equalityI) (use assms(1) in \<open>auto simp: rd_def nth_updated less_Suc_eq numeral_eq_Suc\<close>)
  have "?h = wr 22 [b0 crc, b1 crc, b2 crc, b3 crc] (header og)"
    by (rule nth_equalityI) (use assms(1) in \<open>auto simp: wr_def nth_append nth_updated nth_Cons' min_def\<close>)
  with rd show ?thesis unfolding og' by simp
qed

theorem checksum_is_division_witness:
  "rd 22 4 (header (ogg_page_checksum_set \<lparr>header = replicate 27 0, header_len = 27, body = [1], body_len = 1\<rparr>)) =
     [0xb7, 0x1d, 0xc1, 0x04]"
proof -
  have "fold (\<lambda>b r. crc_byte r b) (replicate n 0) 0 = 0" for n
    by (induction n) (simp_all add: crc_byte_def crc_bit_funpow_0)
  then have "fold (\<lambda>b r. crc_byte r b) (replicate 27 0 @ [1]) 0 = 0x04c11db7"
    using crc_bits_1 by (simp only: fold_append o_apply fold_simps crc_byte_def) simp
  moreover have "clear_checksum (replicate 27 (0::u8)) = replicate 27 0"
    by (rule nth_equalityI) (simp_all add: nth_updated)
  ultimately show ?thesis
    using checksum_is_division [OF _ refl refl, of "\<lparr>header = replicate 27 0, header_len = 27, body = [1], body_len = 1\<rparr>"]
    by (simp add: b0_def b1_def b2_def b3_def)
qed

lemma page_crc_header:
  assumes "i < header_len og" "header_len og \<le> length (header og)" "i \<notin> {22, 23, 24, 25}" "v \<noteq> header og ! i"
  shows "page_crc (og\<lparr>header := (header og)[i := v]\<rparr>) \<noteq> page_crc og"
proof -
  let ?bs = "take (header_len og) (clear_checksum (header og))"
  have "take (header_len og) (clear_checksum ((header og)[i := v])) = ?bs[i := v]"
    using assms(1-3) by (intro nth_equalityI) (auto simp: nth_updated)
  moreover have "?bs[i := v] @ take (body_len og) (body og) = (?bs @ take (body_len og) (body og))[i := v]"
    using assms(1,2) by (simp add: list_update_append)
  moreover have "v \<noteq> (?bs @ take (body_len og) (body og)) ! i"
    using assms by (simp add: nth_append nth_updated)
  ultimately show ?thesis
    using assms(1,2) crc_bytes_change [of i "?bs @ take (body_len og) (body og)" v 0] by (simp add: page_crc_def)
qed

lemma page_crc_body:
  assumes "i < body_len og" "body_len og \<le> length (body og)" "v \<noteq> body og ! i"
  shows "page_crc (og\<lparr>body := (body og)[i := v]\<rparr>) \<noteq> page_crc og"
proof -
  let ?hs = "take (header_len og) (clear_checksum (header og))"
  have app: "xs @ ys[i := v] = (xs @ ys)[length xs + i := v]" for xs ys :: bytes
    by (simp add: list_update_append)
  have new: "?hs @ take (body_len og) ((body og)[i := v]) = (?hs @ take (body_len og) (body og))[length ?hs + i := v]"
    by (simp only: app take_update_swap)
  have "length ?hs + i < length (?hs @ take (body_len og) (body og))"
    using assms(1,2) by (simp add: min_def)
  moreover have "v \<noteq> (?hs @ take (body_len og) (body og)) ! (length ?hs + i)"
    using assms(1,3) by (simp only: nth_append_length_plus nth_take simp_thms)
  ultimately have "crc_bytes 0 (?hs @ take (body_len og) ((body og)[i := v])) \<noteq> crc_bytes 0 (?hs @ take (body_len og) (body og))"
    unfolding new by (rule crc_bytes_change)
  then show ?thesis by (simp add: page_crc_def)
qed

text \<open>
  A page with the right checksum does not have it any more when any one byte of its header or body is
  changed, be it in the checksum field or elsewhere.
\<close>

theorem checksum_notices_change:
  assumes "26 \<le> header_len og" "header_len og \<le> length (header og)" "body_len og \<le> length (body og)"
    and "ogg_page_checksum_set og = og"
    and "i < header_len og \<and> v \<noteq> header og ! i \<and> og' = og\<lparr>header := (header og)[i := v]\<rparr> \<or>
      i < body_len og \<and> v \<noteq> body og ! i \<and> og' = og\<lparr>body := (body og)[i := v]\<rparr>"
  shows "ogg_page_checksum_set og' \<noteq> og'"
proof
  assume "ogg_page_checksum_set og' = og'"
  then have ok: "checksum_ok og'" "checksum_ok og" using assms(4) by (simp_all add: checksum_ok_def)
  have l: "26 \<le> length (header og)" "26 \<le> length (header og')" using assms(1,2,5) by auto
  note f = ok(1) [unfolded checksum_ok_iff [OF l(2)]] ok(2) [unfolded checksum_ok_iff [OF l(1)]]
  show False using assms(5)
  proof (elim disjE conjE)
    assume i: "i < header_len og" "v \<noteq> header og ! i" and og': "og' = og\<lparr>header := (header og)[i := v]\<rparr>"
    show False
    proof (cases "i \<in> {22, 23, 24, 25}")
      case True
      then have "clear_checksum ((header og)[i := v]) = clear_checksum (header og)"
        by (intro nth_equalityI) (auto simp: nth_updated)
      then have "page_crc og' = page_crc og" by (simp add: og' page_crc_def)
      then have "header og' ! i = header og ! i" using f True by auto
      with i og' l show False using assms(2) by simp
    next
      case False
      then have "header og' ! 22 = header og ! 22" "header og' ! 23 = header og ! 23"
        "header og' ! 24 = header og ! 24" "header og' ! 25 = header og ! 25"
        using og' by (simp_all add: nth_updated)
      with f have "page_crc og' = page_crc og" by (intro bytes_of_word_inj) simp_all
      with page_crc_header [OF i(1) assms(2) False i(2)] og' show False by simp
    qed
  next
    assume i: "i < body_len og" "v \<noteq> body og ! i" and og': "og' = og\<lparr>body := (body og)[i := v]\<rparr>"
    with f have "page_crc og' = page_crc og" by (intro bytes_of_word_inj) simp_all
    with page_crc_body [OF i(1) assms(3) i(2)] og' show False by simp
  qed
qed

theorem checksum_notices_change_witness:
  "\<exists>og. header_len og = 27 \<and> body og = [1, 2] \<and> ogg_page_checksum_set og = og \<and>
     ogg_page_checksum_set (og\<lparr>body := [1, 3]\<rparr>) \<noteq> og\<lparr>body := [1, 3]\<rparr>"
proof -
  let ?og = "ogg_page_checksum_set \<lparr>header = replicate 27 0, header_len = 27, body = [1, 2], body_len = 2\<rparr>"
  have "ogg_page_checksum_set ?og = ?og" using checksum_set_ok by (simp add: checksum_ok_def)
  with checksum_notices_change [of ?og 1 3 "?og\<lparr>body := [1, 3]\<rparr>"]
  have "ogg_page_checksum_set ?og = ?og \<and> ogg_page_checksum_set (?og\<lparr>body := [1, 3]\<rparr>) \<noteq> ?og\<lparr>body := [1, 3]\<rparr>"
    by simp
  then show ?thesis by (intro exI [of _ ?og]) simp
qed

end
