(* ===== verification/OggStream.thy ===== *)
theory OggStream
  imports OggPage
begin

text \<open>
  The stream state of \<^verbatim>\<open>app/jni/opus/ogg/framing.c\<close> and its encoding side: packets go in as segments of at
  most 255 bytes, pages of at most 255 segments come out.  \<open>stream_inv\<close> is the invariant of the state;
  the contract \<open>laced_stream\<close> says what packets and pages do to the queue of segments.

  The integers are those of the 32-bit ABI.  Counts that the invariant keeps from becoming negative
  are natural numbers.
\<close>

unbundle bit_operations_syntax

section \<open>The state\<close>

text \<open>
  A null pointer is the empty list: no block of this state is ever empty once allocated.  \<open>granulepos\<close> is
  the two's complement of a 64-bit integer.
\<close>

record ogg_stream_state =
  body_data :: bytes
  body_storage :: nat
  body_fill :: nat
  body_returned :: nat
  lacing_vals :: "nat list"
  granule_vals :: "u64 list"
  lacing_storage :: nat
  lacing_fill :: nat
  lacing_packet :: nat
  lacing_returned :: nat
  stream_header :: bytes
  header_fill :: nat
  e_o_s :: int
  b_o_s :: int
  serialno :: int
  pageno :: int
  packetno :: int
  granulepos :: u64

record ogg_packet =
  op_packet :: bytes
  op_bytes :: nat
  op_b_o_s :: int
  op_e_o_s :: int
  op_granulepos :: u64
  op_packetno :: int

text \<open>The state after \<open>memset(os,0,sizeof(*os))\<close>.\<close>

definition zero_stream :: ogg_stream_state where
  "zero_stream =
     \<lparr>body_data = [], body_storage = 0, body_fill = 0, body_returned = 0,
      lacing_vals = [], granule_vals = [], lacing_storage = 0, lacing_fill = 0, lacing_packet = 0, lacing_returned = 0,
      stream_header = replicate 282 0, header_fill = 0, e_o_s = 0, b_o_s = 0,
      serialno = 0, pageno = 0, packetno = 0, granulepos = 0\<rparr>"

definition ogg_stream_check :: "ogg_stream_state option \<Rightarrow> int" where
  "ogg_stream_check os = (case os of None \<Rightarrow> -1 | Some os \<Rightarrow> if body_data os = [] then -1 else 0)"

definition ogg_stream_clear :: "ogg_stream_state option \<Rightarrow> int \<times> ogg_stream_state option" where
  "ogg_stream_clear os = (0, map_option (\<lambda>os. zero_stream) os)"

text \<open>\<open>alloc n\<close> says whether a request for \<open>n\<close> bytes is granted; what a new block holds is unspecified, 0 here.\<close>

definition ogg_stream_init :: "(nat \<Rightarrow> bool) \<Rightarrow> ogg_stream_state option \<Rightarrow> int \<Rightarrow> int \<times> ogg_stream_state option" where
  "ogg_stream_init alloc os serial =
     (case os of None \<Rightarrow> (-1, None)
      | Some os \<Rightarrow>
          let os = zero_stream\<lparr>body_storage := 16 * 1024, lacing_storage := 1024\<rparr>;
              body_ok = alloc (body_storage os); lacing_ok = alloc (lacing_storage os * 4);
              granule_ok = alloc (lacing_storage os * 8);
              os = os\<lparr>body_data := if body_ok then replicate (body_storage os) 0 else [],
                      lacing_vals := if lacing_ok then replicate (lacing_storage os) 0 else [],
                      granule_vals := if granule_ok then replicate (lacing_storage os) 0 else []\<rparr>
          in if \<not> body_ok \<or> \<not> lacing_ok \<or> \<not> granule_ok then (-1, snd (ogg_stream_clear (Some os)))
             else (0, Some (os\<lparr>serialno := serial\<rparr>)))"

definition ogg_stream_destroy :: "ogg_stream_state option \<Rightarrow> int \<times> ogg_stream_state option" where
  "ogg_stream_destroy os = (0, None)"

section \<open>Room for data\<close>

definition os_body_expand :: "(nat \<Rightarrow> bool) \<Rightarrow> ogg_stream_state \<Rightarrow> nat \<Rightarrow> int \<times> ogg_stream_state" where
  "os_body_expand alloc os needed =
     (if body_storage os \<le> body_fill os + needed
      then if body_storage os > LONG_MAX - needed then (-1, zero_stream)
           else let storage = body_storage os + needed;
                    storage = (if storage < LONG_MAX - 1024 then storage + 1024 else storage)
                in if \<not> alloc storage then (-1, zero_stream)
                   else (0, os\<lparr>body_storage := storage, body_data := resize 0 storage (body_data os)\<rparr>)
      else (0, os))"

definition os_lacing_expand :: "(nat \<Rightarrow> bool) \<Rightarrow> ogg_stream_state \<Rightarrow> nat \<Rightarrow> int \<times> ogg_stream_state" where
  "os_lacing_expand alloc os needed =
     (if lacing_storage os \<le> lacing_fill os + needed
      then if lacing_storage os > LONG_MAX - needed then (-1, zero_stream)
           else let storage = lacing_storage os + needed;
                    storage = (if storage < LONG_MAX - 32 then storage + 32 else storage)
                in if \<not> alloc (storage * 4) then (-1, zero_stream)
                   else if \<not> alloc (storage * 8) then (-1, zero_stream)
                   else (0, os\<lparr>lacing_vals := resize 0 storage (lacing_vals os),
                               granule_vals := resize 0 storage (granule_vals os), lacing_storage := storage\<rparr>)
      else (0, os))"

section \<open>Packets in\<close>

fun iov_total :: "bytes list \<Rightarrow> nat \<Rightarrow> nat option" where
  "iov_total [] bytes = Some bytes"
| "iov_total (v # iov) bytes =
     (if length v > LONG_MAX then None
      else if bytes > LONG_MAX - length v then None
      else iov_total iov (bytes + length v))"

text \<open>The bytes that pages were made of are dropped only when the next packet or page comes.\<close>

definition drop_returned_body :: "ogg_stream_state \<Rightarrow> ogg_stream_state" where
  "drop_returned_body os =
     (if body_returned os \<noteq> 0
      then let fill = body_fill os - body_returned os in
        os\<lparr>body_fill := fill, body_data := wr 0 (rd (body_returned os) fill (body_data os)) (body_data os), body_returned := 0\<rparr>
      else os)"

fun iov_copy :: "bytes list \<Rightarrow> ogg_stream_state \<Rightarrow> ogg_stream_state" where
  "iov_copy [] os = os"
| "iov_copy (v # iov) os =
     iov_copy iov (os\<lparr>body_data := wr (body_fill os) v (body_data os), body_fill := body_fill os + length v\<rparr>)"

fun full_segments :: "nat \<Rightarrow> nat \<Rightarrow> ogg_stream_state \<Rightarrow> ogg_stream_state" where
  "full_segments i 0 os = os"
| "full_segments i (Suc left) os =
     full_segments (i + 1) left
       (os\<lparr>lacing_vals := (lacing_vals os)[lacing_fill os + i := 255],
           granule_vals := (granule_vals os)[lacing_fill os + i := granulepos os]\<rparr>)"

text \<open>The bytes, the segments with their granule positions, and the flag of the first one.\<close>

definition store_packet :: "bytes list \<Rightarrow> nat \<Rightarrow> u64 \<Rightarrow> ogg_stream_state \<Rightarrow> ogg_stream_state" where
  "store_packet iov bytes granule os =
     (let vals = bytes div 255 + 1;
          os = iov_copy iov os;
          os = full_segments 0 (vals - 1) os;
          last = lacing_fill os + (vals - 1);
          os = os\<lparr>lacing_vals := (lacing_vals os)[last := bytes mod 255],
                  granule_vals := (granule_vals os)[last := granule], granulepos := granule\<rparr>;
          first = lacing_fill os;
          os = os\<lparr>lacing_vals := (lacing_vals os)[first := lacing_vals os ! first OR 0x100]\<rparr>
      in os\<lparr>lacing_fill := lacing_fill os + vals, packetno := packetno os + 1\<rparr>)"

definition ogg_stream_iovecin ::
    "(nat \<Rightarrow> bool) \<Rightarrow> ogg_stream_state \<Rightarrow> bytes list option \<Rightarrow> int \<Rightarrow> u64 \<Rightarrow> int \<times> ogg_stream_state" where
  "ogg_stream_iovecin alloc os iov eos granule =
     (if ogg_stream_check (Some os) \<noteq> 0 then (-1, os)
      else case iov of None \<Rightarrow> (0, os)
      | Some iov \<Rightarrow> case iov_total iov 0 of None \<Rightarrow> (-1, os)
      | Some bytes \<Rightarrow>
          let (failed, os) = os_body_expand alloc (drop_returned_body os) bytes
          in if failed \<noteq> 0 then (-1, os) else
          let (failed, os) = os_lacing_expand alloc os (bytes div 255 + 1)
          in if failed \<noteq> 0 then (-1, os) else
          let os = store_packet iov bytes granule os
          in (0, if eos \<noteq> 0 then os\<lparr>e_o_s := 1\<rparr> else os))"

definition ogg_stream_packetin :: "(nat \<Rightarrow> bool) \<Rightarrow> ogg_stream_state \<Rightarrow> ogg_packet \<Rightarrow> int \<times> ogg_stream_state" where
  "ogg_stream_packetin alloc os pkt =
     ogg_stream_iovecin alloc os (Some [take (op_bytes pkt) (op_packet pkt)]) (op_e_o_s pkt) (op_granulepos pkt)"

section \<open>Pages out\<close>

text \<open>The two loops that decide how many segments the page takes; \<open>left\<close> is \<open>maxvals - vals\<close>.\<close>

fun header_vals :: "nat list \<Rightarrow> nat \<Rightarrow> nat \<Rightarrow> nat" where
  "header_vals lv 0 vals = vals"
| "header_vals lv (Suc left) vals = (if lv ! vals AND 0x0ff < 255 then vals + 1 else header_vals lv left (vals + 1))"

fun page_vals ::
    "nat list \<Rightarrow> u64 list \<Rightarrow> int \<Rightarrow> nat \<Rightarrow> nat \<Rightarrow> int \<Rightarrow> u64 \<Rightarrow> nat \<Rightarrow> nat \<Rightarrow> int \<Rightarrow> nat \<times> u64 \<times> int" where
  "page_vals lv gv nfill 0 vals acc granule_pos packets_done just_done force = (vals, granule_pos, force)"
| "page_vals lv gv nfill (Suc left) vals acc granule_pos packets_done just_done force =
     (if acc > nfill \<and> just_done \<ge> 4 then (vals, granule_pos, 1)
      else let acc = acc + int (lv ! vals AND 0x0ff) in
        if lv ! vals AND 0xff < 255
        then page_vals lv gv nfill left (vals + 1) acc (gv ! vals) (packets_done + 1) (packets_done + 1) force
        else page_vals lv gv nfill left (vals + 1) acc granule_pos packets_done 0 force)"

text \<open>The low \<open>n\<close> bytes of an integer, each shifted out arithmetically.\<close>

fun le_bytes :: "nat \<Rightarrow> u64 \<Rightarrow> bytes" where
  "le_bytes 0 v = []"
| "le_bytes (Suc n) v = ucast (v AND 0xff) # le_bytes n (signed_drop_bit 8 v)"

text \<open>The number of segments, the granule position, and whether there is to be a page.\<close>

definition page_choice :: "ogg_stream_state \<Rightarrow> nat \<Rightarrow> int \<Rightarrow> int \<Rightarrow> nat \<times> u64 \<times> int" where
  "page_choice os maxvals force nfill =
     (if b_o_s os = 0 then (header_vals (lacing_vals os) maxvals 0, 0, force)
      else let (vals, granule_pos, force) =
             page_vals (lacing_vals os) (granule_vals os) nfill maxvals 0 0 (-1) 0 0 force
           in (vals, granule_pos, if vals = 255 then 1 else force))"

text \<open>The header, built in the space that the stream has for it.\<close>

definition page_flags :: "ogg_stream_state \<Rightarrow> nat \<Rightarrow> u8" where
  "page_flags os vals =
     (let flags = (if lacing_vals os ! 0 AND 0x100 = 0 then 0x01 else 0x00);
          flags = (if b_o_s os = 0 then flags OR 0x02 else flags)
      in if e_o_s os \<noteq> 0 \<and> lacing_fill os = vals then flags OR 0x04 else flags)"

definition page_number :: "ogg_stream_state \<Rightarrow> int" where
  "page_number os = (if pageno os = -1 then 0 else pageno os)"

definition page_header :: "ogg_stream_state \<Rightarrow> nat \<Rightarrow> u64 \<Rightarrow> bytes" where
  "page_header os vals granule_pos =
     (let hd = wr 0 (ascii ''OggS'') (stream_header os);
          hd = hd[4 := 0x00, 5 := page_flags os vals];
          hd = wr 6 (le_bytes 8 granule_pos) hd;
          hd = wr 14 (le_bytes 4 (word_of_int (serialno os))) hd;
          hd = wr 18 (le_bytes 4 (word_of_int (page_number os))) hd;
          hd = hd[22 := 0, 23 := 0, 24 := 0, 25 := 0];
          hd = hd[26 := of_nat (vals AND 0xff)]
      in wr 27 (map (\<lambda>i. of_nat (lacing_vals os ! i AND 0xff)) [0..<vals]) hd)"

text \<open>The result, the page if there is one, and the state.\<close>

definition ogg_stream_flush_i ::
    "ogg_stream_state \<Rightarrow> ogg_page \<Rightarrow> int \<Rightarrow> int \<Rightarrow> int \<times> ogg_page \<times> ogg_stream_state" where
  "ogg_stream_flush_i os og force nfill =
     (let maxvals = (if lacing_fill os > 255 then 255 else lacing_fill os) in
      if ogg_stream_check (Some os) \<noteq> 0 then (0, og, os)
      else if maxvals = 0 then (0, og, os)
      else let (vals, granule_pos, force) = page_choice os maxvals force nfill in
      if force = 0 then (0, og, os)
      else let bytes = sum_list (map (\<lambda>i. lacing_vals os ! i AND 0xff) [0..<vals]);
               og = \<lparr>header = page_header os vals granule_pos, header_len = vals + 27,
                     body = drop (body_returned os) (body_data os), body_len = bytes\<rparr>;
               fill = lacing_fill os - vals;
               og = ogg_page_checksum_set og
           in (1, og,
               os\<lparr>b_o_s := 1, pageno := page_number os + 1, header_fill := vals + 27, stream_header := header og,
                  lacing_fill := fill,
                  lacing_vals := wr 0 (rd vals fill (lacing_vals os)) (lacing_vals os),
                  granule_vals := wr 0 (rd vals fill (granule_vals os)) (granule_vals os),
                  body_returned := body_returned os + bytes\<rparr>))"

definition ogg_stream_flush :: "ogg_stream_state \<Rightarrow> ogg_page \<Rightarrow> int \<times> ogg_page \<times> ogg_stream_state" where
  "ogg_stream_flush os og = ogg_stream_flush_i os og 1 4096"

definition ogg_stream_flush_fill :: "ogg_stream_state \<Rightarrow> ogg_page \<Rightarrow> int \<Rightarrow> int \<times> ogg_page \<times> ogg_stream_state" where
  "ogg_stream_flush_fill os og nfill = ogg_stream_flush_i os og 1 nfill"

definition ogg_stream_pageout_fill :: "ogg_stream_state \<Rightarrow> ogg_page \<Rightarrow> int \<Rightarrow> int \<times> ogg_page \<times> ogg_stream_state" where
  "ogg_stream_pageout_fill os og nfill =
     (if ogg_stream_check (Some os) \<noteq> 0 then (0, og, os)
      else let force = (if e_o_s os \<noteq> 0 \<and> lacing_fill os \<noteq> 0 \<or> lacing_fill os \<noteq> 0 \<and> b_o_s os = 0 then 1 else 0)
        in ogg_stream_flush_i os og force nfill)"

definition ogg_stream_pageout :: "ogg_stream_state \<Rightarrow> ogg_page \<Rightarrow> int \<times> ogg_page \<times> ogg_stream_state" where
  "ogg_stream_pageout os og =
     (if ogg_stream_check (Some os) \<noteq> 0 then (0, og, os)
      else let force = (if e_o_s os \<noteq> 0 \<and> lacing_fill os \<noteq> 0 \<or> lacing_fill os \<noteq> 0 \<and> b_o_s os = 0 then 1 else 0)
        in ogg_stream_flush_i os og force 4096)"

definition ogg_stream_eos :: "ogg_stream_state \<Rightarrow> int" where
  "ogg_stream_eos os = (if ogg_stream_check (Some os) \<noteq> 0 then 1 else e_o_s os)"

section \<open>Back to the beginning\<close>

definition ogg_stream_reset :: "ogg_stream_state \<Rightarrow> int \<times> ogg_stream_state" where
  "ogg_stream_reset os =
     (if ogg_stream_check (Some os) \<noteq> 0 then (-1, os)
      else (0, os\<lparr>body_fill := 0, body_returned := 0, lacing_fill := 0, lacing_packet := 0, lacing_returned := 0,
                  header_fill := 0, e_o_s := 0, b_o_s := 0, pageno := -1, packetno := 0, granulepos := 0\<rparr>))"

definition ogg_stream_reset_serialno :: "ogg_stream_state \<Rightarrow> int \<Rightarrow> int \<times> ogg_stream_state" where
  "ogg_stream_reset_serialno os serial =
     (if ogg_stream_check (Some os) \<noteq> 0 then (-1, os)
      else let (r, os) = ogg_stream_reset os in (0, os\<lparr>serialno := serial\<rparr>))"

section \<open>Segments\<close>

named_theorems stream \<open>the state of a logical stream\<close>

text \<open>The segment table of a packet of \<open>n\<close> bytes.\<close>

definition lacing :: "nat \<Rightarrow> nat list" where
  "lacing n = replicate (n div 255) 255 @ [n mod 255]"

lemma sum_list_lacing [simp]: "sum_list (lacing n) = n"
  by (simp add: lacing_def sum_list_replicate)

lemma length_lacing [simp]: "length (lacing n) = n div 255 + 1"
  by (simp add: lacing_def)

lemma lacing_less: "v \<in> set (lacing n) \<Longrightarrow> v \<le> 255"
  using mod_less_divisor [of 255 n] by (auto simp: lacing_def)

text \<open>The size of a segment, without the flags above bit 7.\<close>

definition seg_len :: "nat \<Rightarrow> nat" where
  "seg_len v = v AND 0xff"

lemma bit_seg_len: "bit (seg_len v) n \<longleftrightarrow> n < 8 \<and> bit v n"
proof -
  have "(0xff :: nat) = mask 8" by (simp add: mask_eq_exp_minus_1)
  then show ?thesis by (simp only: seg_len_def bit_and_iff bit_mask_iff) auto
qed

lemma seg_len_mod: "seg_len v = v mod 256"
proof -
  have "seg_len v = take_bit 8 v"
    by (rule bit_eqI) (auto simp: bit_seg_len bit_take_bit_iff)
  then show ?thesis by (simp add: take_bit_eq_mod)
qed

lemma seg_len_small [simp]: "v < 256 \<Longrightarrow> seg_len v = v"
  by (simp add: seg_len_mod)

lemma seg_len_less [simp]: "seg_len v < 256" "seg_len v \<le> 255"
  using mod_less_divisor [of 256 v] by (simp_all add: seg_len_mod)

lemma seg_len_flag [simp]: "seg_len (v OR 0x100) = seg_len v" "seg_len (v OR 0x200) = seg_len v"
proof -
  have p: "(0x100 :: nat) = 2 ^ 8" "(0x200 :: nat) = 2 ^ 9" by simp_all
  show "seg_len (v OR 0x100) = seg_len v" "seg_len (v OR 0x200) = seg_len v"
    by (rule bit_eqI, simp only: p bit_seg_len bit_or_iff bit_exp_iff, auto)+
qed

lemma seg_len_hole [simp]: "seg_len 0x400 = 0"
  by (simp add: seg_len_mod)

section \<open>The invariant\<close>

definition segments :: "ogg_stream_state \<Rightarrow> nat list" where
  "segments os = drop (lacing_returned os) (take (lacing_fill os) (lacing_vals os))"

definition pending_body :: "ogg_stream_state \<Rightarrow> bytes" where
  "pending_body os = rd (body_returned os) (body_fill os - body_returned os) (body_data os)"

definition stream_inv :: "ogg_stream_state \<Rightarrow> bool" where
  "stream_inv os \<longleftrightarrow>
     body_data os \<noteq> [] \<and> length (body_data os) = body_storage os \<and>
     length (lacing_vals os) = lacing_storage os \<and> length (granule_vals os) = lacing_storage os \<and>
     body_returned os \<le> body_fill os \<and> body_fill os \<le> body_storage os \<and>
     lacing_returned os \<le> lacing_packet os \<and> lacing_packet os \<le> lacing_fill os \<and> lacing_fill os \<le> lacing_storage os \<and>
     sum_list (map seg_len (segments os)) = body_fill os - body_returned os \<and>
     length (stream_header os) = 282"

lemma stream_invD:
  assumes "stream_inv os"
  shows "body_data os \<noteq> []" "length (body_data os) = body_storage os" "length (lacing_vals os) = lacing_storage os"
    "length (granule_vals os) = lacing_storage os" "body_returned os \<le> body_fill os" "body_fill os \<le> body_storage os"
    "lacing_returned os \<le> lacing_packet os" "lacing_packet os \<le> lacing_fill os" "lacing_fill os \<le> lacing_storage os"
    "sum_list (map seg_len (segments os)) = body_fill os - body_returned os" "length (stream_header os) = 282"
  using assms by (simp_all add: stream_inv_def)

lemma stream_inv_check: "stream_inv os \<Longrightarrow> ogg_stream_check (Some os) = 0"
  by (simp add: ogg_stream_check_def stream_inv_def)

lemma length_pending_body [stream]: "stream_inv os \<Longrightarrow> length (pending_body os) = body_fill os - body_returned os"
  by (simp add: pending_body_def stream_inv_def)

lemma sum_segments [stream]: "stream_inv os \<Longrightarrow> sum_list (map seg_len (segments os)) = length (pending_body os)"
  by (simp add: length_pending_body stream_invD)

lemma stream_init_inv:
  "ogg_stream_init alloc (Some os) serial = (r, os') \<Longrightarrow>
     r = 0 \<and> (\<exists>s. os' = Some s \<and> stream_inv s \<and> segments s = [] \<and> pending_body s = [] \<and> serialno s = serial \<and> pageno s = 0 \<and>
       lacing_packet s = 0 \<and> lacing_returned s = 0 \<and> b_o_s s = 0 \<and> e_o_s s = 0) \<or>
     r = -1 \<and> os' = Some zero_stream"
  by (auto simp: ogg_stream_init_def ogg_stream_clear_def zero_stream_def Let_def stream_inv_def segments_def
      pending_body_def split: if_splits)

definition granules :: "ogg_stream_state \<Rightarrow> u64 list" where
  "granules os = drop (lacing_returned os) (take (lacing_fill os) (granule_vals os))"

text \<open>The fields that making room and moving the queue do not touch.\<close>

definition same_meta :: "ogg_stream_state \<Rightarrow> ogg_stream_state \<Rightarrow> bool" where
  "same_meta os os' \<longleftrightarrow> lacing_packet os' = lacing_packet os \<and> lacing_returned os' = lacing_returned os \<and>
     e_o_s os' = e_o_s os \<and> b_o_s os' = b_o_s os \<and> serialno os' = serialno os \<and> pageno os' = pageno os \<and>
     packetno os' = packetno os \<and> granulepos os' = granulepos os"

lemma same_meta_refl [simp]: "same_meta os os"
  by (simp add: same_meta_def)

lemma same_meta_trans: "same_meta a b \<Longrightarrow> same_meta b c \<Longrightarrow> same_meta a c"
  by (simp add: same_meta_def)

section \<open>Expansion\<close>

lemma body_expand:
  assumes "stream_inv os" "needed \<le> LONG_MAX" "os_body_expand alloc os needed = (r, os')"
  shows "r = 0 \<and> stream_inv os' \<and> body_fill os' + needed \<le> body_storage os' \<and> body_returned os' = body_returned os \<and>
      segments os' = segments os \<and> granules os' = granules os \<and> pending_body os' = pending_body os \<and> same_meta os os' \<or>
    r = -1 \<and> os' = zero_stream"
proof (cases "body_storage os \<le> body_fill os + needed")
  case False
  with assms show ?thesis by (auto simp: os_body_expand_def)
next
  case True
  show ?thesis
  proof (cases "r = 0")
    case False
    with True assms(3) show ?thesis by (auto simp: os_body_expand_def Let_def split: if_splits)
  next
    case r: True
    define n where "n = (if body_storage os + needed < LONG_MAX - 1024 then body_storage os + needed + 1024 else body_storage os + needed)"
    have os': "os' = os\<lparr>body_storage := n, body_data := resize 0 n (body_data os)\<rparr>"
      using True assms(3) r by (simp add: os_body_expand_def Let_def n_def split: if_splits)
    have n: "body_storage os + needed \<le> n" by (simp add: n_def)
    note inv = stream_invD [OF assms(1)]
    have t: "take m (resize 0 n (body_data os)) = take m (body_data os)" if "m \<le> body_fill os" for m
      using that n inv by simp
    have "rd p m (resize 0 n (body_data os)) = rd p m (body_data os)" if "p + m \<le> body_fill os" for p m
      using t [OF that] by (simp add: rd_def take_drop add.commute)
    then have "pending_body os' = pending_body os" using inv by (simp add: pending_body_def os')
    moreover have "resize 0 n (body_data os) \<noteq> []" using inv n by (simp add: resize_def)
    ultimately show ?thesis
      using r n inv assms(1) unfolding os' by (auto simp: stream_inv_def segments_def granules_def same_meta_def)
  qed
qed

lemma lacing_expand:
  assumes "stream_inv os" "needed \<le> LONG_MAX" "os_lacing_expand alloc os needed = (r, os')"
  shows "r = 0 \<and> stream_inv os' \<and> lacing_fill os' + needed \<le> lacing_storage os' \<and>
      lacing_fill os' = lacing_fill os \<and> body_fill os' = body_fill os \<and> body_storage os' = body_storage os \<and> body_returned os' = body_returned os \<and>
      segments os' = segments os \<and> granules os' = granules os \<and> pending_body os' = pending_body os \<and>
      take (lacing_fill os) (lacing_vals os') = take (lacing_fill os) (lacing_vals os) \<and> same_meta os os' \<or>
    r = -1 \<and> os' = zero_stream"
proof (cases "lacing_storage os \<le> lacing_fill os + needed")
  case False
  with assms show ?thesis
    by (auto simp: os_lacing_expand_def)
next
  case True
  show ?thesis
  proof (cases "r = 0")
    case False
    with True assms(3) show ?thesis by (auto simp: os_lacing_expand_def Let_def split: if_splits)
  next
    case r: True
    define n where "n = (if lacing_storage os + needed < LONG_MAX - 32 then lacing_storage os + needed + 32 else lacing_storage os + needed)"
    have n: "lacing_storage os + needed \<le> n" by (simp add: n_def)
    have os': "os' = os\<lparr>lacing_vals := resize 0 n (lacing_vals os), granule_vals := resize 0 n (granule_vals os), lacing_storage := n\<rparr>"
      using True assms(3) r by (simp add: os_lacing_expand_def Let_def n_def split: if_splits)
    note inv = stream_invD [OF assms(1)]
    have t: "take (lacing_fill os) (resize 0 n (lacing_vals os)) = take (lacing_fill os) (lacing_vals os)"
      "take (lacing_fill os) (resize 0 n (granule_vals os)) = take (lacing_fill os) (granule_vals os)"
      using n inv by simp_all
    then have "segments os' = segments os" "granules os' = granules os" "pending_body os' = pending_body os"
      by (simp_all add: segments_def granules_def pending_body_def os')
    then show ?thesis using r n inv t assms(1) unfolding os' by (auto simp: stream_inv_def same_meta_def)
  qed
qed

section \<open>Packets in\<close>

lemma drop_returned:
  assumes "stream_inv os"
  shows "stream_inv (drop_returned_body os)" "segments (drop_returned_body os) = segments os"
    "pending_body (drop_returned_body os) = pending_body os" "body_returned (drop_returned_body os) = 0"
    "granules (drop_returned_body os) = granules os" "same_meta os (drop_returned_body os)"
proof -
  note inv = stream_invD [OF assms]
  let ?fill = "body_fill os - body_returned os" and ?b = "rd (body_returned os) (body_fill os - body_returned os) (body_data os)"
  have b: "length ?b = ?fill" using inv by simp
  have "rd 0 ?fill (wr 0 ?b (body_data os)) = ?b" using inv b by (simp add: rd_wr_same)
  moreover have "length (wr 0 ?b (body_data os)) = body_storage os" using inv b by simp
  moreover have "body_data os \<noteq> []" "wr 0 ?b (body_data os) \<noteq> []" using inv calculation(2) by force+
  ultimately show "stream_inv (drop_returned_body os)" "segments (drop_returned_body os) = segments os"
    "pending_body (drop_returned_body os) = pending_body os" "body_returned (drop_returned_body os) = 0"
    "granules (drop_returned_body os) = granules os" "same_meta os (drop_returned_body os)"
    using assms inv
    by (auto simp: drop_returned_body_def Let_def stream_inv_def segments_def granules_def pending_body_def same_meta_def)
qed

lemma iov_total: "iov_total iov b = Some n \<Longrightarrow> b \<le> LONG_MAX \<Longrightarrow> n = b + length (concat iov) \<and> n \<le> LONG_MAX"
proof (induction iov arbitrary: b)
  case (Cons v iov)
  then have "length v \<le> LONG_MAX" "b + length v \<le> LONG_MAX" "iov_total iov (b + length v) = Some n"
    by (auto split: if_splits)
  with Cons.IH [of "b + length v"] show ?case by simp
qed simp

lemma iov_copy:
  "body_fill os + length (concat iov) \<le> length (body_data os) \<Longrightarrow>
     iov_copy iov os = os\<lparr>body_data := wr (body_fill os) (concat iov) (body_data os), body_fill := body_fill os + length (concat iov)\<rparr>"
proof (induction iov arbitrary: os)
  case (Cons v iov)
  then show ?case by (simp add: wr_append add.assoc)
qed simp

lemma full_segments:
  "lacing_fill os + i + left \<le> length (lacing_vals os) \<Longrightarrow> lacing_fill os + i + left \<le> length (granule_vals os) \<Longrightarrow>
     full_segments i left os = os\<lparr>lacing_vals := wr (lacing_fill os + i) (replicate left 255) (lacing_vals os),
       granule_vals := wr (lacing_fill os + i) (replicate left (granulepos os)) (granule_vals os)\<rparr>"
proof (induction left arbitrary: i os)
  case (Suc left)
  then show ?case by (simp add: wr_Cons)
qed simp

lemma wr_last: "p + length bs < length mem \<Longrightarrow> (wr p bs mem)[p + length bs := x] = wr p (bs @ [x]) mem"
  using wr_append [of p bs "[x]" mem] by (simp add: wr_Cons wr_def list_update_append upd_conv_take_nth_drop)

lemma wr_update: "p + length bs \<le> length mem \<Longrightarrow> i < length bs \<Longrightarrow> (wr p bs mem)[p + i := x] = wr p (bs[i := x]) mem"
  by (simp add: wr_def list_update_append)

lemma wr_nth: "p + length bs \<le> length mem \<Longrightarrow> i < length bs \<Longrightarrow> wr p bs mem ! (p + i) = bs ! i"
  by (simp add: wr_def nth_append)

lemma take_wr: "p + length bs \<le> length mem \<Longrightarrow> take (p + length bs) (wr p bs mem) = take p mem @ bs"
  by (simp add: wr_def)

text \<open>The segments of a new packet: those of its lacing, the first one with the flag.\<close>

definition new_segments :: "nat \<Rightarrow> nat list" where
  "new_segments n = (lacing n)[0 := lacing n ! 0 OR 0x100]"

lemma length_new_segments [simp]: "length (new_segments n) = n div 255 + 1"
  by (simp add: new_segments_def)

lemma seg_len_new_segments [stream]: "map seg_len (new_segments n) = lacing n"
proof -
  have "map seg_len (lacing n) = lacing n"
    by (rule map_idI) (use lacing_less in force)
  moreover have "seg_len (lacing n ! 0) = lacing n ! 0"
    using lacing_less [OF nth_mem, of 0 n] by simp
  ultimately show ?thesis by (simp add: new_segments_def map_update)
qed

lemma store_packet:
  assumes "stream_inv os" "body_returned os = 0" "n = length (concat iov)"
    and "body_fill os + n \<le> body_storage os" "lacing_fill os + (n div 255 + 1) \<le> lacing_storage os"
  shows "store_packet iov n granule os =
    os\<lparr>body_data := wr (body_fill os) (concat iov) (body_data os), body_fill := body_fill os + n,
       lacing_vals := wr (lacing_fill os) (new_segments n) (lacing_vals os),
       granule_vals := wr (lacing_fill os) (replicate (n div 255) (granulepos os) @ [granule]) (granule_vals os),
       granulepos := granule, lacing_fill := lacing_fill os + (n div 255 + 1), packetno := packetno os + 1\<rparr>"
proof -
  note inv = stream_invD [OF assms(1)]
  let ?k = "n div 255" and ?lf = "lacing_fill os"
  have c: "iov_copy iov os = os\<lparr>body_data := wr (body_fill os) (concat iov) (body_data os), body_fill := body_fill os + n\<rparr>"
    using assms inv by (subst iov_copy) simp_all
  have l: "(wr ?lf (replicate ?k 255) (lacing_vals os))[?lf + ?k := n mod 255] = wr ?lf (lacing n) (lacing_vals os)"
    using wr_last [of ?lf "replicate ?k 255" "lacing_vals os" "n mod 255"] inv assms(5) by (simp add: lacing_def)
  have g: "(wr ?lf (replicate ?k (granulepos os)) (granule_vals os))[?lf + ?k := granule] =
      wr ?lf (replicate ?k (granulepos os) @ [granule]) (granule_vals os)"
    using wr_last [of ?lf "replicate ?k (granulepos os)" "granule_vals os" granule] inv assms(5) by simp
  have f: "(wr ?lf (lacing n) (lacing_vals os))[?lf := wr ?lf (lacing n) (lacing_vals os) ! ?lf OR 0x100] =
      wr ?lf (new_segments n) (lacing_vals os)"
    using wr_update [of ?lf "lacing n" "lacing_vals os" 0 "lacing n ! 0 OR 0x100"] wr_nth [of ?lf "lacing n" "lacing_vals os" 0]
      inv assms(5) by (simp add: new_segments_def)
  show ?thesis
    unfolding store_packet_def Let_def c
    using inv assms(5) by (simp add: full_segments l g f)
qed

lemma drop_take_wr:
  "r \<le> p \<Longrightarrow> p + length bs \<le> length mem \<Longrightarrow> drop r (take (p + length bs) (wr p bs mem)) = drop r (take p mem) @ bs"
  by (simp add: take_wr)

lemma store_packet_queue:
  assumes "stream_inv os" "body_returned os = 0" "n = length (concat iov)"
    and "body_fill os + n \<le> body_storage os" "lacing_fill os + (n div 255 + 1) \<le> lacing_storage os"
    and "os' = store_packet iov n granule os"
  shows "stream_inv os'" "segments os' = segments os @ new_segments n" "pending_body os' = pending_body os @ concat iov"
    "granules os' = granules os @ replicate (n div 255) (granulepos os) @ [granule]"
proof -
  note inv = stream_invD [OF assms(1)]
  note os' = assms(6) [unfolded store_packet [OF assms(1-5)]]
  have w: "length (wr (body_fill os) (concat iov) (body_data os)) = body_storage os"
    "length (wr (lacing_fill os) (new_segments n) (lacing_vals os)) = lacing_storage os"
    "length (wr (lacing_fill os) (replicate (n div 255) (granulepos os) @ [granule]) (granule_vals os)) = lacing_storage os"
    using inv assms(3-5) by simp_all
  have b: "wr (body_fill os) (concat iov) (body_data os) \<noteq> []"
    using w(1) inv by force
  show s: "segments os' = segments os @ new_segments n"
    using inv assms(5) drop_take_wr [of "lacing_returned os" "lacing_fill os" "new_segments n" "lacing_vals os"]
    by (simp add: segments_def os')
  show "granules os' = granules os @ replicate (n div 255) (granulepos os) @ [granule]"
    using inv assms(5) drop_take_wr [of "lacing_returned os" "lacing_fill os"
      "replicate (n div 255) (granulepos os) @ [granule]" "granule_vals os"]
    by (simp add: granules_def os')
  show p: "pending_body os' = pending_body os @ concat iov"
    using inv assms(2-4) take_wr [of "body_fill os" "concat iov" "body_data os"]
    by (simp add: pending_body_def rd_def os')
  have "sum_list (map seg_len (segments os')) = body_fill os' - body_returned os'"
    unfolding s using inv assms(2) by (simp add: seg_len_new_segments os')
  then show "stream_inv os'" using inv w b assms(2,4,5) by (simp add: stream_inv_def os')
qed

text \<open>A packet is appended to the queue, or is refused, or the stream is lost.\<close>

lemma iovecin:
  assumes "stream_inv os" "ogg_stream_iovecin alloc os (Some iov) eos granule = (r, os')"
  shows "r = 0 \<and> stream_inv os' \<and> segments os' = segments os @ new_segments (length (concat iov)) \<and>
      pending_body os' = pending_body os @ concat iov \<and>
      granules os' = granules os @ replicate (length (concat iov) div 255) (granulepos os) @ [granule] \<and>
      lacing_packet os' = lacing_packet os \<and> lacing_returned os' = lacing_returned os \<and>
      e_o_s os' = (if eos \<noteq> 0 then 1 else e_o_s os) \<and> b_o_s os' = b_o_s os \<and> serialno os' = serialno os \<and>
      pageno os' = pageno os \<and> packetno os' = packetno os + 1 \<and> granulepos os' = granule \<or>
    r = -1 \<and> (os' = os \<or> os' = zero_stream)"
proof (cases "iov_total iov 0")
  case None
  with assms(2) stream_inv_check [OF assms(1)] show ?thesis by (auto simp: ogg_stream_iovecin_def)
next
  case (Some n)
  then have n: "n = length (concat iov)" "n \<le> LONG_MAX" using iov_total [of iov 0 n] by simp_all
  let ?os1 = "drop_returned_body os" and ?vals = "n div 255 + 1"
  note d = drop_returned [OF assms(1)]
  obtain r2 os2 where e2: "os_body_expand alloc ?os1 n = (r2, os2)" by fastforce
  obtain r3 os3 where e3: "os_lacing_expand alloc os2 ?vals = (r3, os3)" by fastforce
  have run: "(r, os') = (if r2 \<noteq> 0 then (-1, os2) else if r3 \<noteq> 0 then (-1, os3)
      else (0, if eos \<noteq> 0 then (store_packet iov n granule os3)\<lparr>e_o_s := 1\<rparr> else store_packet iov n granule os3))"
    using assms(2) e2 e3 Some stream_inv_check [OF assms(1)] by (simp add: ogg_stream_iovecin_def Let_def cong: if_cong)
  from body_expand [OF d(1) n(2) e2] show ?thesis
  proof (elim disjE conjE)
    assume "r2 = -1" "os2 = zero_stream"
    with run show ?thesis by simp
  next
    assume r2: "r2 = 0" and inv2: "stream_inv os2" and room2: "body_fill os2 + n \<le> body_storage os2"
      and ret2: "body_returned os2 = body_returned ?os1" and q2: "segments os2 = segments ?os1" "granules os2 = granules ?os1"
        "pending_body os2 = pending_body ?os1" "same_meta ?os1 os2"
    have "?vals \<le> LONG_MAX" using n(2) by simp
    from lacing_expand [OF inv2 this e3] show ?thesis
    proof (elim disjE conjE)
      assume "r3 = -1" "os3 = zero_stream"
      with run r2 show ?thesis by simp
    next
      assume r3: "r3 = 0" and inv3: "stream_inv os3" and room3: "lacing_fill os3 + ?vals \<le> lacing_storage os3"
        and f3: "body_fill os3 = body_fill os2" "body_storage os3 = body_storage os2" "body_returned os3 = body_returned os2"
        and q3: "segments os3 = segments os2" "granules os3 = granules os2" "pending_body os3 = pending_body os2" "same_meta os2 os3"
      have ret3: "body_returned os3 = 0" using f3(3) ret2 d(4) by simp
      have room: "body_fill os3 + n \<le> body_storage os3" using f3 room2 by simp
      have meta: "same_meta os os3" using d(6) q2(4) q3(4) by (blast intro: same_meta_trans)
      note st = store_packet_queue [OF inv3 ret3 n(1) room room3 refl, of granule]
      note e = store_packet [OF inv3 ret3 n(1) room room3, of granule]
      have "segments os3 = segments os" "granules os3 = granules os" "pending_body os3 = pending_body os"
        using d q2 q3 by simp_all
      moreover have "granulepos os3 = granulepos os" using meta by (simp add: same_meta_def)
      ultimately have st': "segments (store_packet iov n granule os3) = segments os @ new_segments (length (concat iov))"
        "pending_body (store_packet iov n granule os3) = pending_body os @ concat iov"
        "granules (store_packet iov n granule os3) = granules os @ replicate (length (concat iov) div 255) (granulepos os) @ [granule]"
        using st(2-4) n(1) by simp_all
      let ?s = "store_packet iov n granule os3"
      have os': "r = 0" "os' = (if eos \<noteq> 0 then ?s\<lparr>e_o_s := 1\<rparr> else ?s)" using run r2 r3 by simp_all
      have "stream_inv os'" "segments os' = segments ?s" "pending_body os' = pending_body ?s" "granules os' = granules ?s"
        using st(1) by (simp_all add: os' stream_inv_def segments_def pending_body_def granules_def)
      moreover have "lacing_packet os' = lacing_packet os \<and> lacing_returned os' = lacing_returned os \<and>
        e_o_s os' = (if eos \<noteq> 0 then 1 else e_o_s os) \<and> b_o_s os' = b_o_s os \<and> serialno os' = serialno os \<and>
        pageno os' = pageno os \<and> packetno os' = packetno os + 1 \<and> granulepos os' = granule"
        using meta unfolding os'(2) e by (simp add: same_meta_def)
      ultimately show ?thesis using os'(1) st' by simp
    qed
  qed
qed

section \<open>Pages out\<close>

lemma header_vals_bounds:
  "vals \<le> header_vals lv left vals \<and> header_vals lv left vals \<le> vals + left \<and> (0 < left \<longrightarrow> vals < header_vals lv left vals)"
proof (induction left arbitrary: vals)
  case (Suc left)
  from Suc.IH [of "vals + 1"] show ?case by auto
qed simp

lemma page_vals_bounds:
  "page_vals lv gv nfill left vals acc gp done just force = (n, gp', force') \<Longrightarrow>
     vals \<le> n \<and> n \<le> vals + left \<and> (0 < left \<longrightarrow> just < 4 \<longrightarrow> vals < n)"
proof (induction left arbitrary: vals acc gp "done" just)
  case (Suc left)
  note IH = Suc.IH
  show ?case
  proof (cases "acc > nfill \<and> just \<ge> 4")
    case True
    with Suc.prems show ?thesis by auto
  next
    case False
    with Suc.prems consider
      "page_vals lv gv nfill left (vals + 1) (acc + int (lv ! vals AND 0xff)) (gv ! vals) (done + 1) (done + 1) force = (n, gp', force')"
      | "page_vals lv gv nfill left (vals + 1) (acc + int (lv ! vals AND 0xff)) gp done 0 force = (n, gp', force')"
      by (auto simp: Let_def split: if_splits)
    then show ?thesis by cases (drule IH; simp)+
  qed
qed simp

lemma page_choice_bounds:
  assumes "page_choice os maxvals force nfill = (vals, gp, force')" "0 < maxvals"
  shows "0 < vals" "vals \<le> maxvals" "force \<noteq> 0 \<Longrightarrow> force' \<noteq> 0"
proof -
  have f: "page_vals lv gv nfill left v acc gp dn just force = (n, gp', force') \<Longrightarrow> force \<noteq> 0 \<Longrightarrow> force' \<noteq> 0"
    for lv gv nfill left v acc gp dn just force n gp' force'
    by (induction left arbitrary: v acc gp dn just) (auto simp: Let_def split: if_splits)
  show "0 < vals" "vals \<le> maxvals"
    using assms header_vals_bounds [of 0 "lacing_vals os" maxvals]
      page_vals_bounds [of "lacing_vals os" "granule_vals os" nfill maxvals 0 0 "-1" 0 0 force]
    by (auto simp: page_choice_def split: if_splits prod.splits)
  show "force' \<noteq> 0" if "force \<noteq> 0"
    using assms(1) that by (auto simp: page_choice_def split: if_splits prod.splits dest: f)
qed

lemma length_le_bytes [simp]: "length (le_bytes n v) = n"
  by (induction n arbitrary: v) simp_all

definition header_start :: "ogg_stream_state \<Rightarrow> nat \<Rightarrow> u64 \<Rightarrow> bytes" where
  "header_start os vals granule_pos =
     ascii ''OggS'' @ [0, page_flags os vals] @ le_bytes 8 granule_pos @ le_bytes 4 (word_of_int (serialno os)) @
     le_bytes 4 (word_of_int (page_number os)) @ [0, 0, 0, 0] @ [of_nat (vals AND 0xff)]"

lemma length_OggS [simp]: "length (ascii ''OggS'') = 4"
  by (simp add: ascii_def)

lemma length_header_start [simp]: "length (header_start os vals gp) = 27"
  by (simp add: header_start_def)

lemma wr_at: "length mem \<ge> length xs + length ys \<Longrightarrow> p = length xs \<Longrightarrow> wr p ys (wr 0 xs mem) = wr 0 (xs @ ys) mem"
  using wr_append [of 0 xs ys mem] by simp

lemma update_at:
  assumes "length xs < length mem" "p = length xs"
  shows "(wr 0 xs mem)[p := y] = wr 0 (xs @ [y]) mem"
  using wr_last [of 0 xs mem y] assms by simp

lemma page_header:
  assumes "length (stream_header os) = 282" "vals \<le> 255"
  shows "page_header os vals gp = header_start os vals gp @ map (\<lambda>i. of_nat (seg_len (lacing_vals os ! i))) [0..<vals] @
    drop (27 + vals) (stream_header os)"
proof -
  have "wr 0 (header_start os vals gp @ map (\<lambda>i. of_nat (seg_len (lacing_vals os ! i))) [0..<vals]) (stream_header os) =
      page_header os vals gp"
    using assms by (simp add: page_header_def header_start_def Let_def update_at wr_at seg_len_def)
  then show ?thesis by (simp add: wr_def)
qed

text \<open>What a page made of the first \<open>vals\<close> segments of the queue is.\<close>

definition page_of :: "ogg_stream_state \<Rightarrow> nat \<Rightarrow> u64 \<Rightarrow> ogg_page \<Rightarrow> bool" where
  "page_of os vals gp og \<longleftrightarrow>
     header_len og = vals + 27 \<and> length (header og) = 282 \<and>
     take 22 (header og) = take 22 (header_start os vals gp) \<and> header og ! 26 = of_nat vals \<and>
     rd 27 vals (header og) = map (\<lambda>v. of_nat (seg_len v)) (take vals (segments os)) \<and>
     body_len og = sum_list (map seg_len (take vals (segments os))) \<and> body_len og \<le> length (body og) \<and>
     take (body_len og) (body og) = take (body_len og) (pending_body os) \<and>
     checksum_ok og"

lemma seg_len_and: "vals \<le> 255 \<Longrightarrow> vals AND 0xff = vals" for vals :: nat
  using seg_len_small [of vals] by (simp add: seg_len_def)

lemma take_map_nth: "n \<le> length xs \<Longrightarrow> map (\<lambda>i. f (xs ! i)) [0..<n] = map f (take n xs)"
  by (intro nth_equalityI) simp_all

lemma take_sum: "sum_list (map f (take n xs)) \<le> sum_list (map f xs)" for f :: "'a \<Rightarrow> nat"
  by (metis append_take_drop_id le_add1 map_append sum_list_append)

lemma rd_memmove: "r + n \<le> length mem \<Longrightarrow> take n (wr 0 (rd r n mem) mem) = take n (drop r mem)"
  by (simp add: wr_def rd_def)

lemma rd_update_before: "i < p \<Longrightarrow> rd p n (xs[i := x]) = rd p n xs"
  by (simp add: rd_def)

text \<open>The page takes the first \<open>vals\<close> segments off the queue.\<close>

lemma page_taken:
  assumes inv: "stream_inv os" and enc: "lacing_returned os = 0" "lacing_packet os = 0"
    and vals: "0 < vals" "vals \<le> 255" "vals \<le> lacing_fill os"
    and bytes: "bytes = sum_list (map (\<lambda>i. lacing_vals os ! i AND 0xff) [0..<vals])"
    and og: "og = ogg_page_checksum_set \<lparr>header = page_header os vals gp, header_len = vals + 27,
      body = drop (body_returned os) (body_data os), body_len = bytes\<rparr>"
    and os': "os' = os\<lparr>b_o_s := 1, pageno := page_number os + 1, header_fill := vals + 27, stream_header := header og,
      lacing_fill := lacing_fill os - vals,
      lacing_vals := wr 0 (rd vals (lacing_fill os - vals) (lacing_vals os)) (lacing_vals os),
      granule_vals := wr 0 (rd vals (lacing_fill os - vals) (granule_vals os)) (granule_vals os),
      body_returned := body_returned os + bytes\<rparr>"
  shows "page_of os vals gp og" "stream_inv os'" "segments os' = drop vals (segments os)"
    "granules os' = drop vals (granules os)" "pending_body os' = drop (body_len og) (pending_body os)"
    "vals \<le> length (segments os)"
proof -
  note i = stream_invD [OF inv]
  have segs: "segments os = take (lacing_fill os) (lacing_vals os)" by (simp add: segments_def enc)
  show n: "vals \<le> length (segments os)" using vals(3) i by (simp add: segs)
  have t: "take vals (lacing_vals os) = take vals (segments os)" using vals(3) by (simp add: segs)
  have m: "map (\<lambda>i. f (lacing_vals os ! i)) [0..<vals] = map f (take vals (segments os))" for f :: "nat \<Rightarrow> 'b"
    using take_map_nth [of vals "lacing_vals os" f] vals(3) i t by simp
  have b: "bytes = sum_list (map seg_len (take vals (segments os)))"
    using m [of seg_len] bytes by (simp add: seg_len_def)
  also have "\<dots> \<le> body_fill os - body_returned os" using take_sum [of seg_len vals "segments os"] i by simp
  finally have le: "bytes \<le> body_fill os - body_returned os" .
  have hd: "page_header os vals gp = header_start os vals gp @ map (\<lambda>v. of_nat (seg_len v)) (take vals (segments os)) @
      drop (27 + vals) (stream_header os)"
    using page_header [OF i(11) vals(2)] m [of "\<lambda>v. of_nat (seg_len v)"] by simp
  have len: "length (page_header os vals gp) = 282" using hd i(11) vals n by simp
  have pb: "take bytes (drop (body_returned os) (body_data os)) = take bytes (pending_body os)"
    using le by (simp add: pending_body_def rd_def)
  have "rd 27 vals (page_header os vals gp) = map (\<lambda>v. of_nat (seg_len v)) (take vals (segments os))"
    using n by (simp add: rd_def hd)
  moreover have "page_header os vals gp ! 26 = of_nat vals"
    using vals(2) by (simp add: hd nth_append header_start_def seg_len_and)
  moreover have "take 22 (page_header os vals gp) = take 22 (header_start os vals gp)" by (simp add: hd)
  moreover have "checksum_ok og" unfolding og by (rule checksum_set_ok)
  moreover have "bytes \<le> length (drop (body_returned os) (body_data os))" using le i by simp
  ultimately show "page_of os vals gp og"
    using len b pb by (simp add: page_of_def og checksum_set rd_update_before)
  have taken: "take (lacing_fill os - vals) (wr 0 (rd vals (lacing_fill os - vals) mem) mem) = drop vals (take (lacing_fill os) mem)"
    if "length mem = lacing_storage os" for mem :: "'b list"
    using that vals(3) i by (subst rd_memmove) (simp_all add: drop_take)
  show s: "segments os' = drop vals (segments os)"
    using taken [OF i(3)] by (simp add: os' segs segments_def enc)
  show "granules os' = drop vals (granules os)"
    using taken [OF i(4)] by (simp add: os' granules_def enc)
  show "pending_body os' = drop (body_len og) (pending_body os)"
    using le by (simp add: pending_body_def os' og rd_drop)
  have "sum_list (map seg_len (segments os)) = bytes + sum_list (map seg_len (drop vals (segments os)))"
    unfolding b by (metis append_take_drop_id map_append sum_list_append)
  then have "sum_list (map seg_len (segments os')) = body_fill os - (body_returned os + bytes)"
    using i(10) le by (simp add: s)
  moreover have "body_returned os + bytes \<le> body_fill os" "lacing_fill os - vals \<le> lacing_storage os"
    using le i(5,9) by linarith+
  ultimately show "stream_inv os'"
    using i len enc vals(3) unfolding os' og by (simp add: stream_inv_def)
qed

text \<open>The call that makes a page makes it of what \<open>page_choice\<close> says.\<close>

lemma flush_chosen:
  assumes inv: "stream_inv os" and enc: "lacing_returned os = 0" "lacing_packet os = 0"
    and run: "ogg_stream_flush_i os og force nfill = (r, og', os')"
    and c: "page_choice os (if lacing_fill os > 255 then 255 else lacing_fill os) force nfill = (vals, gp, force')"
    and some: "lacing_fill os \<noteq> 0" "force' \<noteq> 0"
  shows "r = 1 \<and> 0 < vals \<and> vals \<le> 255 \<and> vals \<le> length (segments os) \<and>
      page_of os vals gp og' \<and> stream_inv os' \<and> segments os' = drop vals (segments os) \<and>
      granules os' = drop vals (granules os) \<and> pending_body os' = drop (body_len og') (pending_body os) \<and>
      lacing_returned os' = 0 \<and> lacing_packet os' = 0 \<and> e_o_s os' = e_o_s os \<and> b_o_s os' = 1 \<and>
      serialno os' = serialno os \<and> pageno os' = page_number os + 1 \<and> packetno os' = packetno os \<and> granulepos os' = granulepos os"
proof -
  let ?max = "if lacing_fill os > 255 then 255 else lacing_fill os"
  note run' = run [unfolded ogg_stream_flush_i_def Let_def stream_inv_check [OF inv] c prod.case simp_thms if_False]
  have max: "0 < ?max" "?max \<noteq> 0" using some(1) by auto
  have v: "0 < vals" "vals \<le> 255" "vals \<le> lacing_fill os"
    using page_choice_bounds(1,2) [OF c max(1)] by (auto split: if_splits)
  have r: "r = 1" and og': "og' = ogg_page_checksum_set \<lparr>header = page_header os vals gp, header_len = vals + 27,
      body = drop (body_returned os) (body_data os), body_len = sum_list (map (\<lambda>i. lacing_vals os ! i AND 0xff) [0..<vals])\<rparr>"
    and os': "os' = os\<lparr>b_o_s := 1, pageno := page_number os + 1, header_fill := vals + 27, stream_header := header og',
      lacing_fill := lacing_fill os - vals,
      lacing_vals := wr 0 (rd vals (lacing_fill os - vals) (lacing_vals os)) (lacing_vals os),
      granule_vals := wr 0 (rd vals (lacing_fill os - vals) (granule_vals os)) (granule_vals os),
      body_returned := body_returned os + sum_list (map (\<lambda>i. lacing_vals os ! i AND 0xff) [0..<vals])\<rparr>"
    using run' some max(2) by (simp_all split: if_splits)
  note p = page_taken [OF inv enc v refl og' os']
  have "lacing_returned os' = 0 \<and> lacing_packet os' = 0 \<and> e_o_s os' = e_o_s os \<and> b_o_s os' = 1 \<and>
    serialno os' = serialno os \<and> pageno os' = page_number os + 1 \<and> packetno os' = packetno os \<and> granulepos os' = granulepos os"
    using enc by (simp add: os')
  with p r v show ?thesis by blast
qed

lemma flush:
  assumes inv: "stream_inv os" and enc: "lacing_returned os = 0" "lacing_packet os = 0"
    and run: "ogg_stream_flush_i os og force nfill = (r, og', os')"
  shows "r = 0 \<and> og' = og \<and> os' = os \<and> (force \<noteq> 0 \<longrightarrow> segments os = []) \<or>
    r = 1 \<and> (\<exists>vals gp. 0 < vals \<and> vals \<le> 255 \<and> vals \<le> length (segments os) \<and>
      page_of os vals gp og' \<and> stream_inv os' \<and> segments os' = drop vals (segments os) \<and>
      granules os' = drop vals (granules os) \<and> pending_body os' = drop (body_len og') (pending_body os) \<and>
      lacing_returned os' = 0 \<and> lacing_packet os' = 0 \<and> e_o_s os' = e_o_s os \<and> b_o_s os' = 1 \<and>
      serialno os' = serialno os \<and> pageno os' = page_number os + 1 \<and> packetno os' = packetno os \<and> granulepos os' = granulepos os)"
proof -
  let ?max = "if lacing_fill os > 255 then 255 else lacing_fill os"
  obtain vals gp force' where c: "page_choice os ?max force nfill = (vals, gp, force')" by (cases "page_choice os ?max force nfill")
  note run' = run [unfolded ogg_stream_flush_i_def Let_def stream_inv_check [OF inv] c prod.case simp_thms if_False]
  show ?thesis
  proof (cases "lacing_fill os = 0 \<or> force' = 0")
    case True
    then have "r = 0 \<and> og' = og \<and> os' = os"
      using run' by (elim disjE) (simp_all cong: if_cong split: if_splits)
    moreover have "segments os = []" if "force \<noteq> 0"
    proof (rule ccontr)
      assume "segments os \<noteq> []"
      then have "lacing_fill os \<noteq> 0" by (auto simp: segments_def)
      with True page_choice_bounds(3) [OF c _ that] show False by (auto split: if_splits)
    qed
    ultimately show ?thesis by blast
  next
    case False
    then have "lacing_fill os \<noteq> 0" "force' \<noteq> 0" by auto
    from flush_chosen [OF inv enc run c this] show ?thesis by blast
  qed
qed

section \<open>Reading the header of a page\<close>

lemma bit_le_bytes: "i < n \<Longrightarrow> 8 * i + 8 \<le> 64 \<Longrightarrow> bit (le_bytes n v ! i) k \<longleftrightarrow> k < 8 \<and> bit v (8 * i + k)"
proof (induction n arbitrary: v i)
  case (Suc n)
  show ?case
  proof (cases i)
    case 0
    have "bit (ucast (v AND 0xff) :: u8) k \<longleftrightarrow> k < 8 \<and> bit v k"
      by (simp only: bit_ucast_iff bit_and_iff bit_0xff possible_bit_word) auto
    with 0 show ?thesis by simp
  next
    case (Suc j)
    then have "bit (le_bytes (Suc n) v ! i) k \<longleftrightarrow> k < 8 \<and> bit (signed_drop_bit 8 v) (8 * j + k)"
      using Suc.IH [of j "signed_drop_bit 8 v"] Suc.prems by simp
    also have "\<dots> \<longleftrightarrow> k < 8 \<and> bit v (8 * i + k)"
      using Suc.prems Suc by (auto simp: bit_signed_drop_bit_iff ac_simps)
    finally show ?thesis .
  qed
qed simp

text \<open>The place of one byte in the word that the bytes make.\<close>

lemma bit_placed:
  assumes "\<And>k. bit b k \<longleftrightarrow> k < 8 \<and> P (8 * i + k)" "n < LENGTH('a)"
  shows "bit (push_bit (8 * i) (ucast (b :: u8)) :: 'a::len word) n \<longleftrightarrow> n div 8 = i \<and> P n"
proof -
  have "8 * i \<le> n \<and> n - 8 * i < 8 \<longleftrightarrow> n div 8 = i" by auto
  then have "8 * i \<le> n \<and> bit b (n - 8 * i) \<longleftrightarrow> n div 8 = i \<and> P n" using assms(1) [of "n - 8 * i"] by auto
  then show ?thesis using assms(2) by (auto simp: bit_simps)
qed

lemma granulepos_of_bytes:
  assumes "\<And>i. i < 8 \<Longrightarrow> header og ! (6 + i) = le_bytes 8 gp ! i"
  shows "ogg_page_granulepos og = gp"
proof -
  have g: "ogg_page_granulepos og = push_bit (8 * 7) (ucast (header og ! 13)) OR push_bit (8 * 6) (ucast (header og ! 12)) OR
      push_bit (8 * 5) (ucast (header og ! 11)) OR push_bit (8 * 4) (ucast (header og ! 10)) OR
      push_bit (8 * 3) (ucast (header og ! 9)) OR push_bit (8 * 2) (ucast (header og ! 8)) OR
      push_bit (8 * 1) (ucast (header og ! 7)) OR push_bit (8 * 0) (ucast (header og ! 6))"
  proof -
    have "ucast b AND 0xff = (ucast b :: u64)" for b :: u8
      by (rule bit_eqI, simp only: bit_and_iff bit_0xff bit_ucast_iff) (auto dest: bit_imp_le_length)
    then show ?thesis by (simp add: ogg_page_granulepos_def Let_def push_bit_or or.assoc)
  qed
  have h: "bit (push_bit (8 * i) (ucast (header og ! (6 + i))) :: u64) n \<longleftrightarrow> n div 8 = i \<and> bit gp n"
    if "i < 8" "n < 64" for i n
    by (rule bit_placed) (use that in \<open>simp_all add: assms bit_le_bytes\<close>)
  show ?thesis
  proof (rule bit_word_eqI)
    fix n assume "n < LENGTH(64)"
    then have n: "n < 64" by simp
    have "n div 8 < 8" using n by simp
    then have "n div 8 = 0 \<or> n div 8 = 1 \<or> n div 8 = 2 \<or> n div 8 = 3 \<or> n div 8 = 4 \<or> n div 8 = 5 \<or> n div 8 = 6 \<or> n div 8 = 7"
      by linarith
    then show "bit (ogg_page_granulepos og) n \<longleftrightarrow> bit gp n"
      unfolding g bit_or_iff
      using h [of 0, OF _ n] h [of 1, OF _ n] h [of 2, OF _ n] h [of 3, OF _ n] h [of 4, OF _ n] h [of 5, OF _ n]
        h [of 6, OF _ n] h [of 7, OF _ n]
      by (elim disjE) simp_all
  qed
qed

lemma int_of_bytes:
  assumes "\<And>i. i < 4 \<Longrightarrow> h ! (p + i) = le_bytes 4 (word_of_int s) ! i" "-(2 ^ 31) \<le> s" "s < 2 ^ 31"
  shows "sint (ucast (h ! p) OR push_bit 8 (ucast (h ! (p + 1))) OR push_bit 16 (ucast (h ! (p + 2))) OR
    push_bit 24 (ucast (h ! (p + 3))) :: u32) = s"
proof -
  have b: "bit (push_bit (8 * i) (ucast (h ! (p + i))) :: u32) n \<longleftrightarrow> n div 8 = i \<and> bit s n" if "i < 4" "n < 32" for i n
    by (rule bit_placed) (use that in \<open>auto simp: assms(1) bit_le_bytes bit_word_of_int_iff\<close>)
  have "ucast (h ! p) OR push_bit 8 (ucast (h ! (p + 1))) OR push_bit 16 (ucast (h ! (p + 2))) OR
    push_bit 24 (ucast (h ! (p + 3))) = (word_of_int s :: u32)" (is "?w = _")
  proof (rule bit_word_eqI)
    fix n assume "n < LENGTH(32)"
    then have n: "n < 32" by simp
    have w: "?w = push_bit (8 * 0) (ucast (h ! (p + 0))) OR push_bit (8 * 1) (ucast (h ! (p + 1))) OR
      push_bit (8 * 2) (ucast (h ! (p + 2))) OR push_bit (8 * 3) (ucast (h ! (p + 3)))" by simp
    have "n div 8 < 4" using n by simp
    then have "n div 8 = 0 \<or> n div 8 = 1 \<or> n div 8 = 2 \<or> n div 8 = 3" by linarith
    moreover have "bit (word_of_int s :: u32) n \<longleftrightarrow> bit s n" using n by (simp add: bit_word_of_int_iff)
    ultimately show "bit ?w n \<longleftrightarrow> bit (word_of_int s :: u32) n"
      unfolding w bit_or_iff
      using b [of 0, OF _ n] b [of 1, OF _ n] b [of 2, OF _ n] b [of 3, OF _ n] by (elim disjE) simp_all
  qed
  then show ?thesis using assms(2,3) by (simp add: sint_sbintrunc' signed_take_bit_int_eq_self_iff)
qed

lemma header_start_nth:
  "i < 8 \<Longrightarrow> header_start os vals gp ! (6 + i) = le_bytes 8 gp ! i"
  "i < 4 \<Longrightarrow> header_start os vals gp ! (14 + i) = le_bytes 4 (word_of_int (serialno os)) ! i"
  "i < 4 \<Longrightarrow> header_start os vals gp ! (18 + i) = le_bytes 4 (word_of_int (page_number os)) ! i"
  "header_start os vals gp ! 4 = 0" "header_start os vals gp ! 5 = page_flags os vals"
  "take 4 (header_start os vals gp) = ascii ''OggS''"
  by (simp_all add: header_start_def nth_append nth_Cons')

lemma page_flags_bits:
  "uint (page_flags os vals AND 0x01) = (if lacing_vals os ! 0 AND 0x100 = 0 then 1 else 0)"
  "uint (page_flags os vals AND 0x02) = (if b_o_s os = 0 then 2 else 0)"
  "uint (page_flags os vals AND 0x04) = (if e_o_s os \<noteq> 0 \<and> lacing_fill os = vals then 4 else 0)"
  by (simp_all add: page_flags_def)

lemma page_of_fields:
  assumes "page_of os vals gp og" "0 < vals" "vals \<le> 255" "vals \<le> length (segments os)"
  shows "ogg_page_version og = 0" "ogg_page_continued og = (if lacing_vals os ! 0 AND 0x100 = 0 then 1 else 0)"
    "ogg_page_bos og = (if b_o_s os = 0 then 2 else 0)"
    "ogg_page_eos og = (if e_o_s os \<noteq> 0 \<and> lacing_fill os = vals then 4 else 0)"
    "ogg_page_granulepos og = gp"
    "-(2 ^ 31) \<le> serialno os \<Longrightarrow> serialno os < 2 ^ 31 \<Longrightarrow> ogg_page_serialno og = serialno os"
    "0 \<le> page_number os \<Longrightarrow> page_number os < 2 ^ 31 \<Longrightarrow> ogg_page_pageno og = page_number os"
    "unat (header og ! 26) = vals"
    "\<And>i. i < vals \<Longrightarrow> unat (header og ! (27 + i)) = seg_len (segments os ! i)"
    "take 4 (header og) = ascii ''OggS''"
proof -
  have t: "take 22 (header og) = take 22 (header_start os vals gp)" using assms(1) by (simp add: page_of_def)
  have n: "header og ! i = header_start os vals gp ! i" if "i < 22" for i
    using arg_cong [OF t, of "\<lambda>xs. xs ! i"] that by simp
  show "ogg_page_version og = 0" "ogg_page_continued og = (if lacing_vals os ! 0 AND 0x100 = 0 then 1 else 0)"
    "ogg_page_bos og = (if b_o_s os = 0 then 2 else 0)"
    "ogg_page_eos og = (if e_o_s os \<noteq> 0 \<and> lacing_fill os = vals then 4 else 0)"
    unfolding ogg_page_version_def ogg_page_continued_def ogg_page_bos_def ogg_page_eos_def
    using n [of 4] n [of 5] by (simp_all only: header_start_nth page_flags_bits) simp_all
  show "ogg_page_granulepos og = gp"
    by (rule granulepos_of_bytes) (simp add: n header_start_nth)
  show "ogg_page_serialno og = serialno os" if "-(2 ^ 31) \<le> serialno os" "serialno os < 2 ^ 31"
    using int_of_bytes [of "header og" 14 "serialno os"] that n header_start_nth(2)
    by (simp add: ogg_page_serialno_def)
  show "ogg_page_pageno og = page_number os" if "0 \<le> page_number os" "page_number os < 2 ^ 31"
    using int_of_bytes [of "header og" 18 "page_number os"] that n header_start_nth(3)
    by (simp add: ogg_page_pageno_def)
  show "unat (header og ! 26) = vals" using assms(1,3) by (simp add: page_of_def unat_of_nat)
  have page_ofD: "rd 27 vals (header og) = map (\<lambda>v. of_nat (seg_len v)) (take vals (segments os))" "length (header og) = 282"
    using assms(1) by (simp_all add: page_of_def)
  show "unat (header og ! (27 + i)) = seg_len (segments os ! i)" if "i < vals" for i
  proof -
    have "header og ! (27 + i) = rd 27 vals (header og) ! i"
      using that assms(3) page_ofD(2) by (simp add: rd_def)
    also have "\<dots> = of_nat (seg_len (segments os ! i))"
      using that assms(4) page_ofD(1) by simp
    finally show ?thesis by (simp add: unat_of_nat)
  qed
  have "take 4 (take 22 (header og)) = take 4 (take 22 (header_start os vals gp))" by (simp only: t)
  then show "take 4 (header og) = ascii ''OggS''" by (simp add: header_start_nth(6))
qed

section \<open>The contract of the encoder\<close>

text \<open>
  What the encoding side relies on and gives: a queue of segments with their bytes, to which packets are
  appended and from which pages are taken.  \<open>ok\<close> is the invariant of the provider.
\<close>

locale segment_queue =
  fixes ok :: "'s \<Rightarrow> bool" and segs :: "'s \<Rightarrow> nat list" and content :: "'s \<Rightarrow> bytes"
    and push :: "'s \<Rightarrow> bytes \<Rightarrow> 's \<Rightarrow> bool" and take_page :: "'s \<Rightarrow> 'p \<Rightarrow> 's \<Rightarrow> bool"
    and page_segs :: "'p \<Rightarrow> nat list" and page_content :: "'p \<Rightarrow> bytes"
  assumes push: "ok s \<Longrightarrow> push s p s' \<Longrightarrow> ok s' \<and> segs s' = segs s @ lacing (length p) \<and> content s' = content s @ p"
    and page: "ok s \<Longrightarrow> take_page s og s' \<Longrightarrow>
      ok s' \<and> segs s = page_segs og @ segs s' \<and> content s = page_content og @ content s' \<and>
      page_segs og \<noteq> [] \<and> sum_list (page_segs og) = length (page_content og)"
    and no_page: "ok s \<Longrightarrow> (\<And>og s'. \<not> take_page s og s') \<Longrightarrow> segs s = []"
    and size: "ok s \<Longrightarrow> sum_list (segs s) = length (content s)"
begin

inductive drain :: "'s \<Rightarrow> 'p list \<Rightarrow> 's \<Rightarrow> bool" where
  none: "drain s [] s"
| more: "take_page s og s' \<Longrightarrow> drain s' ogs s'' \<Longrightarrow> drain s (og # ogs) s''"

text \<open>Pages taken one after the other hold what left the queue, and there are at most as many as segments.\<close>

lemma drain_split:
  "drain s ogs s' \<Longrightarrow> ok s \<Longrightarrow>
     ok s' \<and> segs s = concat (map page_segs ogs) @ segs s' \<and> content s = concat (map page_content ogs) @ content s' \<and>
     length ogs + length (segs s') \<le> length (segs s)"
proof (induction rule: drain.induct)
  case (more s og s' ogs s'')
  from page [OF more.prems more.hyps(1)] have p: "ok s'" "segs s = page_segs og @ segs s'"
    "content s = page_content og @ content s'" "page_segs og \<noteq> []" by simp_all
  note IH = more.IH [OF p(1)]
  have "0 < length (page_segs og)" using p(4) by (rule length_greater_0_conv [THEN iffD2])
  moreover have "length (segs s) = length (page_segs og) + length (segs s')" by (simp add: p(2))
  moreover have "length ogs + length (segs s'') \<le> length (segs s')" using IH by blast
  ultimately have "length (og # ogs) + length (segs s'') \<le> length (segs s)" unfolding list.size by linarith
  then show ?case using IH p(2,3) by (intro conjI) simp_all
qed simp

lemma empty_content: "ok s \<Longrightarrow> segs s = [] \<Longrightarrow> content s = []"
  using size [of s] by simp

end

section \<open>The model keeps the contract\<close>

definition encoder :: "ogg_stream_state \<Rightarrow> bool" where
  "encoder os \<longleftrightarrow> stream_inv os \<and> lacing_returned os = 0 \<and> lacing_packet os = 0"

definition queued :: "ogg_stream_state \<Rightarrow> nat list" where
  "queued os = map seg_len (segments os)"

text \<open>A packet accepted, and a page given, by whichever call.\<close>

definition pushed :: "ogg_stream_state \<Rightarrow> bytes \<Rightarrow> ogg_stream_state \<Rightarrow> bool" where
  "pushed os p os' \<longleftrightarrow> (\<exists>alloc pkt. ogg_stream_packetin alloc os pkt = (0, os') \<and> p = take (op_bytes pkt) (op_packet pkt))"

definition paged :: "ogg_stream_state \<Rightarrow> ogg_page \<Rightarrow> ogg_stream_state \<Rightarrow> bool" where
  "paged os og os' \<longleftrightarrow> (\<exists>og0 force nfill. ogg_stream_flush_i os og0 force nfill = (1, og, os'))"

definition page_segments :: "ogg_page \<Rightarrow> nat list" where
  "page_segments og = map unat (rd 27 (unat (header og ! 26)) (header og))"

definition page_body :: "ogg_page \<Rightarrow> bytes" where
  "page_body og = take (body_len og) (body og)"

lemma page_of_contents:
  assumes "page_of os vals gp og" "vals \<le> 255"
  shows "page_segments og = take vals (queued os)" "page_body og = take (body_len og) (pending_body os)"
    "body_len og = sum_list (page_segments og)"
proof -
  have p: "header og ! 26 = of_nat vals" "rd 27 vals (header og) = map (\<lambda>v. of_nat (seg_len v)) (take vals (segments os))"
    "body_len og = sum_list (map seg_len (take vals (segments os)))" "take (body_len og) (body og) = take (body_len og) (pending_body os)"
    using assms(1) unfolding page_of_def by blast+
  have "unat (of_nat (seg_len v) :: u8) = seg_len v" for v by (simp add: unat_of_nat)
  then show s: "page_segments og = take vals (queued os)"
    using p(1,2) assms(2) by (simp add: page_segments_def queued_def unat_of_nat take_map)
  show "page_body og = take (body_len og) (pending_body os)" using p(4) by (simp add: page_body_def)
  show "body_len og = sum_list (page_segments og)" unfolding s using p(3) by (simp add: queued_def take_map)
qed

interpretation enc: segment_queue encoder queued pending_body pushed paged page_segments page_body
proof unfold_locales
  fix s p s'
  assume s: "encoder s" "pushed s p s'"
  from s(2) obtain alloc pkt where x: "ogg_stream_packetin alloc s pkt = (0, s')" "p = take (op_bytes pkt) (op_packet pkt)"
    unfolding pushed_def by blast
  have r: "ogg_stream_iovecin alloc s (Some [p]) (op_e_o_s pkt) (op_granulepos pkt) = (0, s')"
    using x(1) by (simp add: ogg_stream_packetin_def x(2))
  show "encoder s' \<and> queued s' = queued s @ lacing (length p) \<and> pending_body s' = pending_body s @ p"
    using iovecin [OF _ r] s(1) by (simp add: encoder_def queued_def seg_len_new_segments)
next
  fix s og s'
  assume s: "encoder s" "paged s og s'"
  then obtain og0 force nfill where r: "ogg_stream_flush_i s og0 force nfill = (1, og, s')" by (auto simp: paged_def)
  have e: "stream_inv s" "lacing_returned s = 0" "lacing_packet s = 0" using s(1) by (simp_all add: encoder_def)
  from flush [OF e r] obtain vals gp where p: "0 < vals" "vals \<le> 255" "vals \<le> length (segments s)" "page_of s vals gp og"
    "stream_inv s'" "segments s' = drop vals (segments s)" "pending_body s' = drop (body_len og) (pending_body s)"
    "lacing_returned s' = 0" "lacing_packet s' = 0" by auto
  note c = page_of_contents [OF p(4,2)]
  have "body_len og \<le> length (pending_body s)"
    using c(3) take_sum [of seg_len vals "segments s"] sum_segments [OF e(1)] unfolding c(1) by (simp add: queued_def take_map)
  then have "sum_list (page_segments og) = length (page_body og)" using c(2,3) by simp
  moreover have "page_segments og \<noteq> []" using p(1,3) by (auto simp: c(1) queued_def)
  moreover have "queued s = page_segments og @ queued s'" by (simp add: c(1) queued_def p(6) flip: drop_map)
  moreover have "pending_body s = page_body og @ pending_body s'" by (simp add: c(2) p(7))
  moreover have "encoder s'" using p by (simp add: encoder_def)
  ultimately show "encoder s' \<and> queued s = page_segments og @ queued s' \<and> pending_body s = page_body og @ pending_body s' \<and>
      page_segments og \<noteq> [] \<and> sum_list (page_segments og) = length (page_body og)" by blast
next
  fix s
  assume s: "encoder s" "\<And>og s'. \<not> paged s og s'"
  obtain r og s' where r: "ogg_stream_flush_i s undefined 1 0 = (r, og, s')" by (metis prod_cases3)
  with s(2) have "r \<noteq> 1" by (auto simp: paged_def)
  with flush [OF _ _ _ r] s(1) show "queued s = []" by (auto simp: encoder_def queued_def)
next
  fix s
  assume "encoder s"
  then show "sum_list (queued s) = length (pending_body s)" by (simp add: encoder_def queued_def sum_segments)
qed

section \<open>Properties\<close>

lemma encoderD: "encoder os \<Longrightarrow> stream_inv os" "encoder os \<Longrightarrow> lacing_returned os = 0" "encoder os \<Longrightarrow> lacing_packet os = 0"
  by (simp_all add: encoder_def)

lemma flush_encoder: "encoder os \<Longrightarrow> ogg_stream_flush_i os og force nfill = (r, og', os') \<Longrightarrow> encoder os'"
  using flush [of os og force nfill r og' os'] by (auto simp: encoder_def)

lemma pageout_encoder: "encoder os \<Longrightarrow> ogg_stream_pageout_fill os og nfill = (r, og', os') \<Longrightarrow> encoder os'"
  by (auto simp: ogg_stream_pageout_fill_def stream_inv_check encoderD Let_def intro: flush_encoder split: if_splits)

lemma reset_encoder: "encoder os \<Longrightarrow> encoder (snd (ogg_stream_reset os))"
  using stream_inv_check [OF encoderD(1), of os]
  by (auto simp: ogg_stream_reset_def encoder_def stream_inv_def segments_def)

lemma init_encoder: "ogg_stream_init (\<lambda>n. True) (Some os) serial = (0, Some s) \<Longrightarrow> encoder s"
  using stream_init_inv [of "\<lambda>n. True" os serial 0 "Some s"] by (auto simp: encoder_def)

text \<open>A stream for the witnesses, and with a packet of three bytes in it.\<close>

definition fresh_stream :: ogg_stream_state where
  "fresh_stream = the (snd (ogg_stream_init (\<lambda>n. True) (Some zero_stream) 7))"

lemma fresh_stream: "ogg_stream_init (\<lambda>n. True) (Some zero_stream) 7 = (0, Some fresh_stream)"
  by (simp add: fresh_stream_def ogg_stream_init_def zero_stream_def Let_def)

lemma fresh_encoder: "encoder fresh_stream" "segments fresh_stream = []" "serialno fresh_stream = 7" "pageno fresh_stream = 0"
  "b_o_s fresh_stream = 0" "e_o_s fresh_stream = 0" "pending_body fresh_stream = []"
  using stream_init_inv [OF fresh_stream] by (auto simp: encoder_def)

definition three_stream :: ogg_stream_state where
  "three_stream = snd (ogg_stream_iovecin (\<lambda>n. True) fresh_stream (Some [[1, 2, 3]]) 1 9)"

lemma three_stream: "ogg_stream_iovecin (\<lambda>n. True) fresh_stream (Some [[1, 2, 3]]) 1 9 = (0, three_stream)"
proof -
  have f: "body_data fresh_stream \<noteq> []" "body_returned fresh_stream = 0" "body_fill fresh_stream = 0"
    "body_storage fresh_stream = 16384" "lacing_storage fresh_stream = 1024" "lacing_fill fresh_stream = 0"
    by (simp_all add: fresh_stream_def ogg_stream_init_def zero_stream_def Let_def)
  then have "fst (ogg_stream_iovecin (\<lambda>n. True) fresh_stream (Some [[1, 2, 3]]) 1 9) = 0"
    by (simp add: ogg_stream_iovecin_def ogg_stream_check_def drop_returned_body_def os_body_expand_def
        os_lacing_expand_def Let_def)
  then show ?thesis unfolding three_stream_def by (metis prod.collapse)
qed

lemma three_encoder: "encoder three_stream" "segments three_stream = new_segments 3" "pending_body three_stream = [1, 2, 3]"
    "serialno three_stream = 7" "pageno three_stream = 0" "b_o_s three_stream = 0" "e_o_s three_stream = 1"
proof -
  have l: "length (concat [[1, 2, 3 :: u8]]) = 3" by simp
  have c: "concat [[1, 2, 3 :: u8]] = [1, 2, 3]" by simp
  note i = iovecin [OF encoderD(1) [OF fresh_encoder(1)] three_stream, unfolded l, unfolded c fresh_encoder]
  show "encoder three_stream" "segments three_stream = new_segments 3" "pending_body three_stream = [1, 2, 3]"
    "serialno three_stream = 7" "pageno three_stream = 0" "b_o_s three_stream = 0" "e_o_s three_stream = 1"
    using i fresh_encoder(1) unfolding encoder_def by simp_all
qed

text \<open>
  The state of an encoding stream stays consistent whatever is called and whichever allocations fail: after
  a packet, a forced or an optional page and a reset, the fill marks are within the arrays, the segments sum
  up to the bytes that are waiting, or the stream has been cleared for lack of memory.
\<close>

theorem ogg_stream_keeps_invariant:
  assumes "encoder os"
  shows "(case ogg_stream_packetin alloc os pkt of (r, os') \<Rightarrow> encoder os' \<or> r = -1 \<and> os' = zero_stream) \<and>
    (case ogg_stream_flush_fill os og nfill of (r, og', os') \<Rightarrow> encoder os') \<and>
    (case ogg_stream_pageout_fill os og nfill of (r, og', os') \<Rightarrow> encoder os') \<and>
    (case ogg_stream_reset os of (r, os') \<Rightarrow> r = 0 \<and> encoder os' \<and> queued os' = [])"
proof (intro conjI)
  obtain r os' where p: "ogg_stream_packetin alloc os pkt = (r, os')" by fastforce
  with iovecin [OF encoderD(1) [OF assms], of alloc "[take (op_bytes pkt) (op_packet pkt)]" "op_e_o_s pkt" "op_granulepos pkt" r os']
  show "case ogg_stream_packetin alloc os pkt of (r, os') \<Rightarrow> encoder os' \<or> r = -1 \<and> os' = zero_stream"
    using assms by (auto simp: ogg_stream_packetin_def encoder_def)
  show "case ogg_stream_flush_fill os og nfill of (r, og', os') \<Rightarrow> encoder os'"
    using flush_encoder [OF assms, of og 1 nfill] by (auto simp: ogg_stream_flush_fill_def split: prod.splits)
  show "case ogg_stream_pageout_fill os og nfill of (r, og', os') \<Rightarrow> encoder os'"
    using pageout_encoder [OF assms, of og nfill] by (auto split: prod.splits)
  show "case ogg_stream_reset os of (r, os') \<Rightarrow> r = 0 \<and> encoder os' \<and> queued os' = []"
    using reset_encoder [OF assms] stream_inv_check [OF encoderD(1) [OF assms]]
    by (auto simp: ogg_stream_reset_def queued_def segments_def)
qed

theorem ogg_stream_keeps_invariant_witness:
  "\<forall>og. encoder (snd (ogg_stream_reset three_stream)) \<and> encoder (snd (snd (ogg_stream_flush_fill three_stream og 4096)))"
proof
  fix og
  show "encoder (snd (ogg_stream_reset three_stream)) \<and> encoder (snd (snd (ogg_stream_flush_fill three_stream og 4096)))"
    using ogg_stream_keeps_invariant [OF three_encoder(1), of "\<lambda>n. True" undefined og 4096]
    by (auto split: prod.splits)
qed

text \<open>
  C12. A page that is flushed is well formed and says what it holds: it has the capture pattern, between 1 and
  255 segments, at most 282 bytes of header and 255 * 255 of body, the right checksum, and the functions
  that read headers give back the serial number, the page number, the flags and the segments of the
  stream; the segments leave the queue, and when nothing is flushed there was nothing in it.
\<close>

theorem ogg_stream_flush_page:
  assumes "encoder os" "-(2 ^ 31) \<le> serialno os" "serialno os < 2 ^ 31" "0 \<le> pageno os" "pageno os < 2 ^ 31"
    and "ogg_stream_flush_fill os og nfill = (r, og', os')"
  shows "(r = 0 \<and> queued os = [] \<and> os' = os) \<or>
    (r = 1 \<and> take 4 (header og') = ascii ''OggS'' \<and> checksum_ok og' \<and>
     page_segments og' \<noteq> [] \<and> length (page_segments og') \<le> 255 \<and> header_len og' = 27 + length (page_segments og') \<and>
     body_len og' = sum_list (page_segments og') \<and> body_len og' \<le> 255 * 255 \<and>
     ogg_page_version og' = 0 \<and> ogg_page_serialno og' = serialno os \<and> ogg_page_pageno og' = pageno os \<and>
     (ogg_page_bos og' \<noteq> 0 \<longleftrightarrow> b_o_s os = 0) \<and> (ogg_page_eos og' \<noteq> 0 \<longleftrightarrow> e_o_s os \<noteq> 0 \<and> queued os' = []) \<and>
     (ogg_page_continued og' \<noteq> 0 \<longleftrightarrow> segments os ! 0 AND 0x100 = 0) \<and>
     queued os = page_segments og' @ queued os' \<and> pending_body os = page_body og' @ pending_body os')"
proof -
  note e = encoderD [OF assms(1)]
  have run: "ogg_stream_flush_i os og 1 nfill = (r, og', os')" using assms(6) by (simp add: ogg_stream_flush_fill_def)
  from flush [OF e run] show ?thesis
  proof (elim disjE conjE exE)
    assume "r = 0" "os' = os" "1 \<noteq> (0::int) \<longrightarrow> segments os = []"
    then show ?thesis by (simp add: queued_def)
  next
    fix vals gp
    assume r: "r = 1" and vals: "0 < vals" "vals \<le> 255" "vals \<le> length (segments os)" and p: "page_of os vals gp og'"
      and s': "segments os' = drop vals (segments os)" "pending_body os' = drop (body_len og') (pending_body os)"
    note f = page_of_fields [OF p vals] and c = page_of_contents [OF p vals(2)]
    have n: "page_number os = pageno os" using assms(4) by (simp add: page_number_def)
    have l: "length (page_segments og') = vals" using vals(3) by (simp add: c(1) queued_def)
    have lf: "lacing_fill os = length (segments os)" "lacing_vals os ! 0 = segments os ! 0"
      using stream_invD [OF e(1)] vals(1,3) e by (simp_all add: segments_def)
    have le: "sum_list xs \<le> length xs * 255" if "\<forall>x \<in> set xs. x \<le> 255" for xs :: "nat list"
      using that by (induction xs) simp_all
    then have "body_len og' \<le> length (page_segments og') * 255"
      unfolding c(3) by (intro le) (auto simp: c(1) queued_def dest!: in_set_takeD)
    also have "\<dots> \<le> 255 * 255" using l vals(2) by simp
    finally have b: "body_len og' \<le> 255 * 255" .
    have "header_len og' = 27 + vals" "checksum_ok og'" using p by (simp_all add: page_of_def)
    moreover have "queued os = page_segments og' @ queued os'" by (simp add: c(1) queued_def s' flip: drop_map)
    moreover have "pending_body os = page_body og' @ pending_body os'" by (simp add: c(2) s')
    moreover have "queued os' = [] \<longleftrightarrow> lacing_fill os = vals" using vals(3) by (auto simp: queued_def s' lf)
    moreover have "page_segments og' \<noteq> []" using l vals(1) by auto
    ultimately show ?thesis
      using r l vals b c(3) f(1-5,10) f(6) [OF assms(2,3)] f(7) n assms(4,5) lf(2) by auto
  qed
qed

theorem ogg_stream_flush_page_witness:
  "\<forall>og. \<exists>og' os'. ogg_stream_flush_fill three_stream og 4096 = (1, og', os') \<and> page_segments og' = [3] \<and> page_body og' = [1, 2, 3] \<and>
     ogg_page_serialno og' = 7 \<and> ogg_page_bos og' \<noteq> 0 \<and> ogg_page_eos og' \<noteq> 0 \<and> queued os' = []"
  (is "\<forall>og. ?P og")
proof
  fix og
  obtain r og' os' where f: "ogg_stream_flush_fill three_stream og 4096 = (r, og', os')" by (metis prod_cases3)
  have q: "queued three_stream = [3]" by (simp add: queued_def three_encoder seg_len_new_segments lacing_def)
  have p: "page_segments og' @ queued os' = [3]" "r = 1" "page_segments og' \<noteq> []"
    and s: "pending_body three_stream = page_body og' @ pending_body os'" "body_len og' = sum_list (page_segments og')"
      "ogg_page_serialno og' = 7" "ogg_page_bos og' \<noteq> 0" "ogg_page_eos og' \<noteq> 0 \<longleftrightarrow> queued os' = []"
    using ogg_stream_flush_page [OF three_encoder(1) _ _ _ _ f] three_encoder q by auto
  then have seg: "page_segments og' = [3]" "queued os' = []" by (cases "page_segments og'"; simp)+
  have "encoder os'" using flush_encoder [OF three_encoder(1)] f by (simp add: ogg_stream_flush_fill_def)
  then have "pending_body os' = []" using enc.size [of os'] seg(2) by simp
  with f p s seg three_encoder(3) show "?P og" by auto
qed

text \<open>
  When memory runs out while a packet is submitted, the stream is cleared, and after that every
  operation says so: packets are refused, there are no pages, and the stream counts as ended.
\<close>

theorem ogg_stream_failure:
  assumes "encoder os" "ogg_stream_packetin alloc os pkt = (r, os')"
    and "r \<noteq> 0" "op_bytes pkt \<le> LONG_MAX"
  shows "r = -1 \<and> os' = zero_stream \<and> ogg_stream_check (Some os') = -1 \<and> ogg_stream_packetin alloc' os' pkt' = (-1, os') \<and>
    ogg_stream_flush os' og = (0, og, os') \<and> ogg_stream_pageout os' og = (0, og, os') \<and> ogg_stream_eos os' = 1 \<and>
    fst (ogg_stream_reset os') = -1"
proof -
  have "iov_total [take (op_bytes pkt) (op_packet pkt)] 0 \<noteq> None" using assms(4) by simp
  then obtain n where n: "iov_total [take (op_bytes pkt) (op_packet pkt)] 0 = Some n" by blast
  then have ns: "n = length (take (op_bytes pkt) (op_packet pkt))" "n \<le> LONG_MAX"
    using iov_total [OF n] by simp_all
  note d = drop_returned [OF encoderD(1) [OF assms(1)]]
  obtain r2 os2 where e2: "os_body_expand alloc (drop_returned_body os) n = (r2, os2)" by fastforce
  obtain r3 os3 where e3: "os_lacing_expand alloc os2 (n div 255 + 1) = (r3, os3)" by fastforce
  have "r = -1 \<and> os' = zero_stream"
    using assms(2,3) n e2 e3 body_expand [OF d(1) ns(2) e2] lacing_expand [OF _ _ e3] ns(2)
      stream_inv_check [OF encoderD(1) [OF assms(1)]]
    by (auto simp: ogg_stream_packetin_def ogg_stream_iovecin_def Let_def split: if_splits)
  then show ?thesis
    by (simp add: ogg_stream_packetin_def ogg_stream_iovecin_def ogg_stream_check_def zero_stream_def ogg_stream_flush_def
        ogg_stream_flush_i_def ogg_stream_pageout_def ogg_stream_eos_def ogg_stream_reset_def Let_def)
qed

theorem ogg_stream_failure_witness:
  "\<exists>os'. ogg_stream_packetin (\<lambda>n. n < 20000)
       fresh_stream \<lparr>op_packet = replicate 17000 0, op_bytes = 17000, op_b_o_s = 0, op_e_o_s = 0, op_granulepos = 0, op_packetno = 0\<rparr> =
       (-1, os') \<and> ogg_stream_check (Some os') = -1"
proof -
  let ?p = "\<lparr>op_packet = replicate 17000 0, op_bytes = 17000, op_b_o_s = 0, op_e_o_s = 0, op_granulepos = 0, op_packetno = 0\<rparr>"
  have f: "body_data fresh_stream \<noteq> []" "body_returned fresh_stream = 0" "body_fill fresh_stream = 0"
    "body_storage fresh_stream = 16384"
    by (simp_all add: fresh_stream_def ogg_stream_init_def zero_stream_def Let_def)
  obtain r os' where p: "ogg_stream_packetin (\<lambda>n. n < 20000) fresh_stream ?p = (r, os')" by fastforce
  have "r \<noteq> 0" using p f
    by (auto simp: ogg_stream_packetin_def ogg_stream_iovecin_def ogg_stream_check_def drop_returned_body_def os_body_expand_def Let_def)
  with ogg_stream_failure [OF fresh_encoder(1) p, of "\<lambda>n. True" undefined undefined] p show ?thesis by auto
qed

end
