(* ===== verification/OggSync.thy ===== *)
theory OggSync
  imports OggStream
begin

text \<open>
  The sync layer of \<^verbatim>\<open>app/jni/opus/ogg/framing.c\<close>: a buffer that bytes are written to and pages found in.
  The invariant covers the marks and the cached header; the search, which has no bound in the code, is a
  partial function proved to return; and what a stream writes as a page is found as that page.
\<close>

unbundle bit_operations_syntax

section \<open>Synchronisation\<close>

record ogg_sync_state =
  data :: bytes
  storage :: int
  fill :: nat
  returned :: nat
  unsynced :: int
  headerbytes :: nat
  bodybytes :: nat

definition zero_sync :: ogg_sync_state where
  "zero_sync = \<lparr>data = [], storage = 0, fill = 0, returned = 0, unsynced = 0, headerbytes = 0, bodybytes = 0\<rparr>"

text \<open>The readiness flag is set and cleared again at once.\<close>

definition ogg_sync_init :: "ogg_sync_state option \<Rightarrow> int \<times> ogg_sync_state option" where
  "ogg_sync_init oy = (0, map_option (\<lambda>oy. zero_sync) oy)"

definition ogg_sync_clear :: "ogg_sync_state option \<Rightarrow> int \<times> ogg_sync_state option" where
  "ogg_sync_clear oy = (0, map_option (\<lambda>oy. zero_sync) oy)"

definition ogg_sync_destroy :: "ogg_sync_state option \<Rightarrow> int \<times> ogg_sync_state option" where
  "ogg_sync_destroy oy = (0, None)"

definition ogg_sync_check :: "ogg_sync_state \<Rightarrow> int" where
  "ogg_sync_check oy = (if storage oy < 0 then -1 else 0)"

text \<open>The result is where in the buffer there is room for \<open>room\<close> bytes, or \<open>None\<close>.\<close>

definition ogg_sync_buffer :: "(nat \<Rightarrow> bool) \<Rightarrow> ogg_sync_state \<Rightarrow> nat \<Rightarrow> nat option \<times> ogg_sync_state" where
  "ogg_sync_buffer alloc oy room =
     (if ogg_sync_check oy \<noteq> 0 then (None, oy)
      else
        let oy = (if returned oy \<noteq> 0
                  then let fill' = fill oy - returned oy in
                    oy\<lparr>fill := fill', data := wr 0 (rd (returned oy) fill' (data oy)) (data oy), returned := 0\<rparr>
                  else oy)
        in if int room > storage oy - int (fill oy)
           then let newsize = room + fill oy + 4096 in
             if \<not> alloc newsize then (None, zero_sync)
             else let oy = oy\<lparr>data := resize 0 newsize (data oy), storage := int newsize\<rparr> in (Some (fill oy), oy)
           else (Some (fill oy), oy))"

definition ogg_sync_wrote :: "ogg_sync_state \<Rightarrow> nat \<Rightarrow> int \<times> ogg_sync_state" where
  "ogg_sync_wrote oy bytes =
     (if ogg_sync_check oy \<noteq> 0 then (-1, oy)
      else if int (fill oy + bytes) > storage oy then (-1, oy)
      else (0, oy\<lparr>fill := fill oy + bytes\<rparr>))"

text \<open>The offset of the first \<open>c\<close> among the bytes.\<close>

fun memchr :: "u8 \<Rightarrow> bytes \<Rightarrow> nat option" where
  "memchr c [] = None"
| "memchr c (b # bs) = (if b = c then Some 0 else map_option Suc (memchr c bs))"

text \<open>From \<open>sync_fail\<close>: skip to the next possible capture.\<close>

definition sync_fail :: "ogg_sync_state \<Rightarrow> int \<times> ogg_sync_state" where
  "sync_fail oy =
     (let bytes = fill oy - returned oy;
          next = (case memchr 0x4F (rd (returned oy + 1) (bytes - 1) (data oy)) of
                    Some k \<Rightarrow> returned oy + 1 + k
                  | None \<Rightarrow> fill oy)
      in (- (int next - int (returned oy)), oy\<lparr>headerbytes := 0, bodybytes := 0, returned := next\<rparr>))"

text \<open>The header, once there are enough bytes for it; \<open>None\<close> is a failed capture.\<close>

definition sync_header :: "ogg_sync_state \<Rightarrow> (bool \<times> ogg_sync_state) option" where
  "sync_header oy =
     (let page = drop (returned oy) (data oy);
          bytes = fill oy - returned oy
      in if headerbytes oy = 0
         then if bytes < 27 then Some (False, oy)
              else if take 4 page \<noteq> ascii ''OggS'' then None
              else let size = unat (page ! 26) + 27 in
                if bytes < size then Some (False, oy)
                else Some (True, oy\<lparr>bodybytes := bodybytes oy + sum_list (map (\<lambda>i. unat (page ! (27 + i))) [0..<unat (page ! 26)]),
                                    headerbytes := size\<rparr>)
         else Some (True, oy))"

text \<open>
  The result, the page if the caller gave room for it and there is one, and the state.  The checksum is
  recomputed in place and the one of the file put back when it differs.
\<close>

definition ogg_sync_pageseek :: "ogg_sync_state \<Rightarrow> ogg_page option \<Rightarrow> int \<times> ogg_page option \<times> ogg_sync_state" where
  "ogg_sync_pageseek oy og =
     (let bytes = fill oy - returned oy;
          fail = (\<lambda>oy. let (r, oy) = sync_fail oy in (r, og, oy))
      in if ogg_sync_check oy \<noteq> 0 then (0, og, oy)
         else case sync_header oy of
           None \<Rightarrow> fail oy
         | Some (enough, oy) \<Rightarrow>
             if \<not> enough then (0, og, oy)
             else if bodybytes oy + headerbytes oy > bytes then (0, og, oy)
             else let page = drop (returned oy) (data oy);
                      chksum = rd 22 4 page;
                      log = ogg_page_checksum_set \<lparr>header = wr 22 [0, 0, 0, 0] page, header_len = headerbytes oy,
                              body = drop (headerbytes oy) page, body_len = bodybytes oy\<rparr>
               in if chksum \<noteq> rd 22 4 (header log) then fail (oy\<lparr>data := wr (returned oy) (wr 22 chksum (header log)) (data oy)\<rparr>)
                  else let oy = oy\<lparr>data := wr (returned oy) (header log) (data oy)\<rparr>;
                           page = drop (returned oy) (data oy);
                           len = headerbytes oy + bodybytes oy
                       in (int len,
                           map_option (\<lambda>og. \<lparr>header = page, header_len = headerbytes oy, body = drop (headerbytes oy) page,
                                             body_len = bodybytes oy\<rparr>) og,
                           oy\<lparr>unsynced := 0, returned := returned oy + len, headerbytes := 0, bodybytes := 0\<rparr>))"

partial_function (option) pageout_loop :: "ogg_sync_state \<Rightarrow> ogg_page option \<Rightarrow> (int \<times> ogg_page option \<times> ogg_sync_state) option" where
  "pageout_loop oy og =
     (let (ret, og', oy') = ogg_sync_pageseek oy og in
      if ret > 0 then Some (1, og', oy')
      else if ret = 0 then Some (0, og', oy')
      else if unsynced oy' = 0 then Some (-1, og', oy'\<lparr>unsynced := 1\<rparr>)
      else pageout_loop oy' og')"

definition ogg_sync_pageout :: "ogg_sync_state \<Rightarrow> ogg_page option \<Rightarrow> (int \<times> ogg_page option \<times> ogg_sync_state) option" where
  "ogg_sync_pageout oy og = (if ogg_sync_check oy \<noteq> 0 then Some (0, og, oy) else pageout_loop oy og)"

definition ogg_sync_reset :: "ogg_sync_state \<Rightarrow> int \<times> ogg_sync_state" where
  "ogg_sync_reset oy =
     (if ogg_sync_check oy \<noteq> 0 then (-1, oy)
      else (0, oy\<lparr>fill := 0, returned := 0, unsynced := 0, headerbytes := 0, bodybytes := 0\<rparr>))"


section \<open>The sync state\<close>

text \<open>
  The marks are in the buffer, and a header that has been read is still the one at the mark.
\<close>

definition sync_inv :: "ogg_sync_state \<Rightarrow> bool" where
  "sync_inv oy \<longleftrightarrow> 0 \<le> storage oy \<and> length (data oy) = nat (storage oy) \<and> returned oy \<le> fill oy \<and> fill oy \<le> length (data oy) \<and>
     (if headerbytes oy = 0 then bodybytes oy = 0
      else let page = drop (returned oy) (data oy) in
        27 \<le> headerbytes oy \<and> headerbytes oy \<le> fill oy - returned oy \<and> take 4 page = ascii ''OggS'' \<and>
        headerbytes oy = unat (page ! 26) + 27 \<and>
        bodybytes oy = sum_list (map (\<lambda>i. unat (page ! (27 + i))) [0..<unat (page ! 26)]))"

lemma sync_invD:
  assumes "sync_inv oy"
  shows "ogg_sync_check oy = 0" "length (data oy) = nat (storage oy)" "returned oy \<le> fill oy" "fill oy \<le> length (data oy)"
  using assms by (simp_all add: sync_inv_def ogg_sync_check_def)

lemma cached_header:
  assumes "sync_inv oy" "headerbytes oy \<noteq> 0"
  shows "27 \<le> headerbytes oy" "headerbytes oy \<le> fill oy - returned oy" "take 4 (drop (returned oy) (data oy)) = ascii ''OggS''"
    "headerbytes oy = unat (drop (returned oy) (data oy) ! 26) + 27"
    "bodybytes oy = sum_list (map (\<lambda>i. unat (drop (returned oy) (data oy) ! (27 + i))) [0..<unat (drop (returned oy) (data oy) ! 26)])"
proof -
  let ?page = "drop (returned oy) (data oy)"
  have "27 \<le> headerbytes oy \<and> headerbytes oy \<le> fill oy - returned oy \<and> take 4 ?page = ascii ''OggS'' \<and>
      headerbytes oy = unat (?page ! 26) + 27 \<and> bodybytes oy = sum_list (map (\<lambda>i. unat (?page ! (27 + i))) [0..<unat (?page ! 26)])"
    using assms(1) unfolding sync_inv_def Let_def if_not_P [OF assms(2)] by blast
  then show "27 \<le> headerbytes oy" "headerbytes oy \<le> fill oy - returned oy" "take 4 ?page = ascii ''OggS''"
    "headerbytes oy = unat (?page ! 26) + 27" "bodybytes oy = sum_list (map (\<lambda>i. unat (?page ! (27 + i))) [0..<unat (?page ! 26)])"
    by blast+
qed

lemma take_nth_eq: "take n xs = take n ys \<Longrightarrow> i < n \<Longrightarrow> xs ! i = ys ! i"
  by (metis nth_take)

lemma memchr_less: "memchr c bs = Some k \<Longrightarrow> k < length bs"
  by (induction bs arbitrary: k) (auto split: if_splits)

lemma sync_fail:
  assumes "sync_inv oy" "returned oy < fill oy" "sync_fail oy = (r, oy')"
  shows "sync_inv oy'" "r = - int (returned oy' - returned oy)" "returned oy < returned oy'" "returned oy' \<le> fill oy"
    "oy' = oy\<lparr>headerbytes := 0, bodybytes := 0, returned := returned oy'\<rparr>"
proof -
  let ?m = "memchr 0x4F (rd (returned oy + 1) (fill oy - returned oy - 1) (data oy))"
  define n where "n = (case ?m of Some k \<Rightarrow> returned oy + 1 + k | None \<Rightarrow> fill oy)"
  have "length (rd (returned oy + 1) (fill oy - returned oy - 1) (data oy)) = fill oy - returned oy - 1"
    using assms(1,2) by (simp add: sync_inv_def)
  then have n: "returned oy < n" "n \<le> fill oy"
    using assms(2) by (auto simp: n_def split: option.splits dest!: memchr_less)
  have r: "r = - (int n - int (returned oy))" "oy' = oy\<lparr>headerbytes := 0, bodybytes := 0, returned := n\<rparr>"
    using assms(3) by (simp_all add: sync_fail_def n_def Let_def)
  show "sync_inv oy'" "r = - int (returned oy' - returned oy)" "returned oy < returned oy'" "returned oy' \<le> fill oy"
    "oy' = oy\<lparr>headerbytes := 0, bodybytes := 0, returned := returned oy'\<rparr>"
    using assms(1) n by (simp_all add: r sync_inv_def)
qed

lemma sync_header:
  assumes "sync_inv oy"
  shows "sync_header oy = None \<Longrightarrow> 27 \<le> fill oy - returned oy"
    "sync_header oy = Some (False, oy') \<Longrightarrow> oy' = oy"
    "sync_header oy = Some (True, oy') \<Longrightarrow> sync_inv oy' \<and> headerbytes oy' \<noteq> 0 \<and> (\<exists>h b. oy' = oy\<lparr>bodybytes := b, headerbytes := h\<rparr>)"
proof -
  show "sync_header oy = None \<Longrightarrow> 27 \<le> fill oy - returned oy"
    by (auto simp: sync_header_def Let_def split: if_splits)
  show "sync_header oy = Some (False, oy') \<Longrightarrow> oy' = oy"
    by (auto simp: sync_header_def Let_def split: if_splits)
  assume s: "sync_header oy = Some (True, oy')"
  show "sync_inv oy' \<and> headerbytes oy' \<noteq> 0 \<and> (\<exists>h b. oy' = oy\<lparr>bodybytes := b, headerbytes := h\<rparr>)"
  proof (cases "headerbytes oy = 0")
    case True
    then have "oy' = oy\<lparr>bodybytes := sum_list (map (\<lambda>i. unat (drop (returned oy) (data oy) ! (27 + i))) [0..<unat (drop (returned oy) (data oy) ! 26)]),
        headerbytes := unat (drop (returned oy) (data oy) ! 26) + 27\<rparr>"
      "unat (drop (returned oy) (data oy) ! 26) + 27 \<le> fill oy - returned oy" "take 4 (drop (returned oy) (data oy)) = ascii ''OggS''"
      using s assms by (auto simp: sync_header_def sync_inv_def Let_def split: if_splits)
    with assms True show ?thesis by (auto simp: sync_inv_def Let_def)
  next
    case False
    then have "oy' = oy" using s by (simp add: sync_header_def Let_def)
    moreover have "\<exists>h b. oy = oy\<lparr>bodybytes := b, headerbytes := h\<rparr>"
      by (rule exI [of _ "headerbytes oy"], rule exI [of _ "bodybytes oy"]) simp
    ultimately show ?thesis using assms False by simp
  qed
qed

text \<open>Recomputing the checksum in place changes nothing that is not put back.\<close>

lemma checksum_in_place:
  assumes "27 \<le> length page"
    and "log = ogg_page_checksum_set \<lparr>header = wr 22 [0, 0, 0, 0] page, header_len = hl, body = bd, body_len = bl\<rparr>"
  shows "wr 22 (rd 22 4 page) (header log) = page"
    "rd 22 4 page = rd 22 4 (header log) \<Longrightarrow> header log = page \<and> checksum_ok \<lparr>header = page, header_len = hl, body = bd, body_len = bl\<rparr>"
    "checksum_ok \<lparr>header = page, header_len = hl, body = bd, body_len = bl\<rparr> \<Longrightarrow> header log = page"
proof -
  let ?og = "\<lparr>header = page, header_len = hl, body = bd, body_len = bl\<rparr>"
  have w: "wr 22 [a, b, c, d] xs = xs[22 := a, 23 := b, 24 := c, 25 := d]" if "27 \<le> length xs" for a b c d and xs :: bytes
    using that by (simp add: wr_Cons)
  have "ogg_page_checksum_set \<lparr>header = page[22 := 0, 23 := 0, 24 := 0, 25 := 0], header_len = hl, body = bd, body_len = bl\<rparr> = ogg_page_checksum_set ?og"
    by (simp add: ogg_page_checksum_set_def Let_def field_overwrite)
  then have log: "log = ogg_page_checksum_set ?og" unfolding assms(2) w [OF assms(1)] .
  obtain a b c d where h: "header log = page[22 := a, 23 := b, 24 := c, 25 := d]"
    unfolding log checksum_set by simp
  have l: "length (header log) = length page" by (simp add: h)
  have wh: "wr 22 (rd 22 4 page) (header log) = page"
  proof (rule nth_equalityI)
    show "length (wr 22 (rd 22 4 page) (header log)) = length page" using assms(1) l by simp
    show "wr 22 (rd 22 4 page) (header log) ! i = page ! i" if "i < length (wr 22 (rd 22 4 page) (header log))" for i
      using that assms(1) l by (auto simp: wr_def rd_def h nth_append min_def nth_updated)
  qed
  then show "wr 22 (rd 22 4 page) (header log) = page" .
  show "header log = page \<and> checksum_ok ?og" if "rd 22 4 page = rd 22 4 (header log)"
  proof -
    have "wr 22 (rd 22 4 (header log)) (header log) = header log" using assms(1) l by (intro wr_rd) simp
    then have "header log = page" using wh that by simp
    moreover from this have "checksum_ok ?og" unfolding checksum_ok_def log checksum_set by simp
    ultimately show ?thesis ..
  qed
  show "header log = page" if "checksum_ok ?og" using that by (simp add: log checksum_ok_def)
qed

definition page_at :: "bytes \<Rightarrow> nat \<Rightarrow> ogg_page \<Rightarrow> bool" where
  "page_at d p pg \<longleftrightarrow>
     header pg = drop p d \<and> header_len pg = 27 + unat (header pg ! 26) \<and> body pg = drop (p + header_len pg) d \<and>
     body_len pg = sum_list (map (\<lambda>i. unat (header pg ! (27 + i))) [0..<unat (header pg ! 26)]) \<and>
     take 4 (header pg) = ascii ''OggS'' \<and> checksum_ok pg"

lemma pageseek:
  assumes "sync_inv oy" "ogg_sync_pageseek oy og = (r, og', oy')"
  shows "sync_inv oy' \<and> data oy' = data oy \<and> fill oy' = fill oy \<and>
    (r = 0 \<and> returned oy' = returned oy \<and> og' = og \<or>
     r < 0 \<and> returned oy' = returned oy + nat (- r) \<and> og' = og \<and> unsynced oy' = unsynced oy \<or>
     r > 0 \<and> unsynced oy' = 0 \<and>
       (\<exists>pg. page_at (data oy) (returned oy) pg \<and> og' = map_option (\<lambda>_. pg) og \<and> r = int (header_len pg + body_len pg) \<and>
         returned oy' = returned oy + header_len pg + body_len pg))"
proof -
  note inv = sync_invD [OF assms(1)]
  show ?thesis
  proof (cases "sync_header oy")
    case None
    obtain s oy1 where f: "sync_fail oy = (s, oy1)" by fastforce
    have "returned oy < fill oy" using sync_header(1) [OF assms(1) None] by linarith
    note sf = sync_fail [OF assms(1) this f]
    have "r = s" "og' = og" "oy' = oy1" using assms(2) None f inv(1) by (simp_all add: ogg_sync_pageseek_def Let_def)
    moreover have "data oy1 = data oy" "fill oy1 = fill oy" "unsynced oy1 = unsynced oy" by (subst sf(5), simp)+
    ultimately show ?thesis using sf(1-4) by auto
  next
    case (Some x)
    then obtain enough oy1 where h: "sync_header oy = Some (enough, oy1)" by (cases x) simp
    show ?thesis
    proof (cases enough)
      case False
      then have "oy1 = oy" using h sync_header(2) [OF assms(1)] by simp
      then show ?thesis using assms h False inv(1) by (simp add: ogg_sync_pageseek_def Let_def)
    next
      case True
      with h have h': "sync_header oy = Some (True, oy1)" by simp
      from sync_header(3) [OF assms(1) h'] obtain hb bb where oy1: "sync_inv oy1" "headerbytes oy1 \<noteq> 0"
        "oy1 = oy\<lparr>bodybytes := bb, headerbytes := hb\<rparr>" by blast
      let ?page = "drop (returned oy) (data oy)"
      have fields: "headerbytes oy1 = hb" "bodybytes oy1 = bb" "returned oy1 = returned oy" "data oy1 = data oy" "fill oy1 = fill oy"
        by (simp_all add: oy1(3))
      have hb: "27 \<le> hb" "hb \<le> fill oy - returned oy" "take 4 ?page = ascii ''OggS''" "hb = unat (?page ! 26) + 27"
        "bb = sum_list (map (\<lambda>i. unat (?page ! (27 + i))) [0..<unat (?page ! 26)])"
        using cached_header [OF oy1(1,2)] fields by simp_all
      define log where "log = ogg_page_checksum_set \<lparr>header = wr 22 [0, 0, 0, 0] ?page, header_len = hb, body = drop hb ?page, body_len = bb\<rparr>"
      have len: "27 \<le> length ?page" using hb inv by simp
      note cs = checksum_in_place [OF len log_def]
      have restored: "wr (returned oy) ?page (data oy) = data oy" using inv by (simp add: wr_def)
      have ad: "?page ! i = data oy ! (returned oy + i)" for i using inv by simp
      consider "bb + hb > fill oy - returned oy"
        | "bb + hb \<le> fill oy - returned oy" "rd 22 4 ?page \<noteq> rd 22 4 (header log)"
        | "bb + hb \<le> fill oy - returned oy" "rd 22 4 ?page = rd 22 4 (header log)"
        by linarith
      then show ?thesis
      proof cases
        case 1
        then have "r = 0" "og' = og" "oy' = oy1"
          using assms(2) h True inv(1) fields by (simp_all add: ogg_sync_pageseek_def Let_def)
        then show ?thesis using oy1(1) fields by simp
      next
        case 2
        obtain s oy2 where f: "sync_fail oy1 = (s, oy2)" by fastforce
        have "oy1\<lparr>data := data oy\<rparr> = oy1" using oy1(3) by simp
        then have run: "r = s" "og' = og" "oy' = oy2"
          using assms(2) h True inv(1) 2 oy1(3) f cs(1) restored
          by (simp_all add: ogg_sync_pageseek_def Let_def log_def)
        have "returned oy1 < fill oy1" using hb(1,2) oy1(3) by simp
        note sf = sync_fail [OF oy1(1) this f]
        have "data oy2 = data oy" "fill oy2 = fill oy" "unsynced oy2 = unsynced oy" by (subst sf(5), simp add: oy1(3))+
        then show ?thesis using sf(1-4) oy1(3) run by auto
      next
        case 3
        have l: "header log = ?page" and ok: "checksum_ok \<lparr>header = ?page, header_len = hb, body = drop hb ?page, body_len = bb\<rparr>"
          using cs(2) [OF 3(2)] by simp_all
        have run: "r = int (hb + bb)"
          "og' = map_option (\<lambda>_. \<lparr>header = ?page, header_len = hb, body = drop hb ?page, body_len = bb\<rparr>) og"
          "oy' = oy\<lparr>unsynced := 0, returned := returned oy + (hb + bb), headerbytes := 0, bodybytes := 0\<rparr>"
          using assms(2) h True inv(1) 3 oy1(3) l restored
          by (simp_all add: ogg_sync_pageseek_def Let_def log_def)
        let ?pg = "\<lparr>header = ?page, header_len = hb, body = drop hb ?page, body_len = bb\<rparr>"
        have "sync_inv oy'" using assms(1) 3(1) hb(1) inv by (simp add: run(3) sync_inv_def)
        moreover have "page_at (data oy) (returned oy) ?pg"
          unfolding page_at_def using hb(3-5) ok by (simp add: add.commute)
        moreover have "r > 0" using run(1) hb(1) by simp
        moreover have "data oy' = data oy" "fill oy' = fill oy" "unsynced oy' = 0"
          "returned oy' = returned oy + header_len ?pg + body_len ?pg" by (simp_all add: run(3))
        moreover have "r = int (header_len ?pg + body_len ?pg)" "og' = map_option (\<lambda>_. ?pg) og" by (simp_all add: run)
        ultimately show ?thesis by blast
      qed
    qed
  qed
qed

text \<open>The search for a page comes to an end: each turn goes on by a byte at least.\<close>

lemma pageout_loop:
  assumes "sync_inv oy"
  shows "\<exists>r og' oy'. pageout_loop oy og = Some (r, og', oy') \<and> sync_inv oy' \<and> data oy' = data oy \<and> fill oy' = fill oy \<and>
    returned oy \<le> returned oy' \<and> (r = 0 \<or> r = -1 \<and> unsynced oy = 0 \<and> unsynced oy' = 1 \<or>
      r = 1 \<and> (\<exists>p pg. page_at (data oy) p pg \<and> returned oy \<le> p \<and> og' = map_option (\<lambda>_. pg) og \<and>
        returned oy' = p + header_len pg + body_len pg))"
  using assms
proof (induction "fill oy - returned oy" arbitrary: oy og rule: less_induct)
  case less
  obtain r og' oy' where s: "ogg_sync_pageseek oy og = (r, og', oy')" by (metis prod_cases3)
  note ps = pageseek [OF less.prems s] and inv = sync_invD [OF less.prems]
  consider "r = 0" | "r > 0" | "r < 0" by linarith
  then show ?case
  proof cases
    case 1
    then show ?thesis using ps s by (subst pageout_loop.simps) simp
  next
    case 2
    then have "pageout_loop oy og = Some (1, og', oy')" using s by (subst pageout_loop.simps) simp
    moreover obtain pg where "page_at (data oy) (returned oy) pg" "og' = map_option (\<lambda>_. pg) og"
      "returned oy' = returned oy + header_len pg + body_len pg" "sync_inv oy'" "data oy' = data oy" "fill oy' = fill oy"
      using ps 2 by auto
    moreover from this have "returned oy \<le> returned oy'" by simp
    ultimately show ?thesis by blast
  next
    case 3
    have s3: "sync_inv oy'" "data oy' = data oy" "fill oy' = fill oy" "returned oy' = returned oy + nat (- r)" "og' = og"
      "unsynced oy' = unsynced oy" using ps 3 by auto
    show ?thesis
    proof (cases "unsynced oy' = 0")
      case True
      then have "pageout_loop oy og = Some (-1, og', oy'\<lparr>unsynced := 1\<rparr>)" using 3 s by (subst pageout_loop.simps) simp
      moreover have "sync_inv (oy'\<lparr>unsynced := 1\<rparr>)" using s3(1) by (simp add: sync_inv_def)
      ultimately show ?thesis using s3 True by simp
    next
      case False
      have r: "pageout_loop oy og = pageout_loop oy' og" using False 3 s s3(5) by (subst pageout_loop.simps) simp
      have "fill oy' - returned oy' < fill oy - returned oy"
        using 3 s3(3,4) sync_invD(3) [OF s3(1)] inv(3) by linarith
      from less.hyps [OF this s3(1), of og] obtain r1 og1 oy1 where e: "pageout_loop oy' og = Some (r1, og1, oy1)"
        and i: "sync_inv oy1" "data oy1 = data oy" "fill oy1 = fill oy" "returned oy' \<le> returned oy1"
        and c: "r1 = 0 \<or> r1 = -1 \<and> unsynced oy = 0 \<and> unsynced oy1 = 1 \<or>
          r1 = 1 \<and> (\<exists>p pg. page_at (data oy) p pg \<and> returned oy' \<le> p \<and> og1 = map_option (\<lambda>_. pg) og \<and>
            returned oy1 = p + header_len pg + body_len pg)"
        unfolding s3(2,3,6) by blast
      have le: "returned oy \<le> returned oy'" using s3(4) by simp
      have "returned oy \<le> returned oy1" using i(4) le by simp
      moreover have "r1 = 0 \<or> r1 = -1 \<and> unsynced oy = 0 \<and> unsynced oy1 = 1 \<or>
          r1 = 1 \<and> (\<exists>p pg. page_at (data oy) p pg \<and> returned oy \<le> p \<and> og1 = map_option (\<lambda>_. pg) og \<and>
            returned oy1 = p + header_len pg + body_len pg)"
        using c order_trans [OF le] by blast
      ultimately show ?thesis unfolding r e using i(1-3) by simp
    qed
  qed
qed

text \<open>A page that is in the buffer where the search begins is found.\<close>

definition wf_page :: "ogg_page \<Rightarrow> bool" where
  "wf_page pg \<longleftrightarrow> take 4 (header pg) = ascii ''OggS'' \<and> header_len pg = 27 + unat (header pg ! 26) \<and>
     header_len pg \<le> length (header pg) \<and> body_len pg \<le> length (body pg) \<and>
     body_len pg = sum_list (map (\<lambda>i. unat (header pg ! (27 + i))) [0..<unat (header pg ! 26)]) \<and> checksum_ok pg"

definition page_bytes :: "ogg_page \<Rightarrow> bytes" where
  "page_bytes pg = take (header_len pg) (header pg) @ take (body_len pg) (body pg)"

definition same_page :: "ogg_page \<Rightarrow> ogg_page \<Rightarrow> bool" where
  "same_page pg pg' \<longleftrightarrow> header_len pg' = header_len pg \<and> body_len pg' = body_len pg \<and>
     take (header_len pg) (header pg') = take (header_len pg) (header pg) \<and>
     take (body_len pg) (body pg') = take (body_len pg) (body pg)"

lemma same_page_nth: "same_page pg pg' \<Longrightarrow> i < header_len pg \<Longrightarrow> header pg' ! i = header pg ! i"
  unfolding same_page_def using nth_take [of i "header_len pg"] by metis

lemma same_page_crc: "same_page pg pg' \<Longrightarrow> page_crc pg' = page_crc pg"
  unfolding same_page_def page_crc_def by (simp flip: take_update_swap) (simp add: take_update_swap)

lemma same_page_checksum:
  assumes "same_page pg pg'" "checksum_ok pg" "26 \<le> header_len pg" "header_len pg \<le> length (header pg)"
    and "header_len pg \<le> length (header pg')"
  shows "checksum_ok pg'"
proof -
  have "26 \<le> length (header pg)" "26 \<le> length (header pg')" using assms(3-5) by simp_all
  then show ?thesis
    using assms(2,3) same_page_nth [OF assms(1)] by (simp add: checksum_ok_iff same_page_crc [OF assms(1)])
qed

lemma pageseek_finds:
  assumes "sync_inv oy" "headerbytes oy = 0" "wf_page pg"
    and "returned oy + (header_len pg + body_len pg) \<le> fill oy"
    and "rd (returned oy) (header_len pg + body_len pg) (data oy) = page_bytes pg"
  shows "\<exists>pg' oy'. ogg_sync_pageseek oy (Some og) = (int (header_len pg + body_len pg), Some pg', oy') \<and> same_page pg pg' \<and>
    sync_inv oy' \<and> data oy' = data oy \<and> fill oy' = fill oy \<and> headerbytes oy' = 0 \<and>
    returned oy' = returned oy + (header_len pg + body_len pg)"
proof -
  note inv = sync_invD [OF assms(1)]
  have bb: "bodybytes oy = 0" using assms(1,2) by (simp add: sync_inv_def)
  let ?hl = "header_len pg" and ?bl = "body_len pg" and ?d = "drop (returned oy) (data oy)"
  let ?pg = "\<lparr>header = ?d, header_len = ?hl, body = drop ?hl ?d, body_len = ?bl\<rparr>"
  have wf: "take 4 (header pg) = ascii ''OggS''" "?hl = 27 + unat (header pg ! 26)" "?hl \<le> length (header pg)" "?bl \<le> length (body pg)"
    "?bl = sum_list (map (\<lambda>i. unat (header pg ! (27 + i))) [0..<unat (header pg ! 26)])" "checksum_ok pg"
    using assms(3) unfolding wf_page_def by blast+
  have d: "take (?hl + ?bl) ?d = take ?hl (header pg) @ take ?bl (body pg)"
    using assms(5) by (simp add: rd_def page_bytes_def)
  have len: "?hl + ?bl \<le> length ?d" using assms(4) inv by simp
  have h: "take ?hl ?d = take ?hl (header pg)"
    using arg_cong [OF d, of "take ?hl"] wf(3) by simp
  have b: "take ?bl (drop ?hl ?d) = take ?bl (body pg)"
    using arg_cong [OF d, of "drop ?hl"] wf(3) by (simp add: drop_take)
  have same: "same_page pg ?pg" by (simp only: same_page_def ogg_page.simps h b simp_thms)
  have nth: "?d ! i = header pg ! i" if "i < ?hl" for i using same_page_nth [OF same that] by simp
  have hl: "27 \<le> ?hl" using wf(2) by simp
  have ok: "checksum_ok ?pg" by (rule same_page_checksum [OF same wf(6)]) (use hl wf(3) len in simp_all)
  have "take 4 (take ?hl ?d) = take 4 (take ?hl (header pg))" by (simp only: h)
  then have o: "take 4 ?d = ascii ''OggS''" using wf(1) hl by (simp add: min_def)
  have n26: "unat (?d ! 26) + 27 = ?hl" using nth [of 26] wf(2) hl by simp
  have sum: "sum_list (map (\<lambda>i. unat (?d ! (27 + i))) [0..<unat (?d ! 26)]) = ?bl"
  proof -
    have "map (\<lambda>i. unat (?d ! (27 + i))) [0..<unat (?d ! 26)] = map (\<lambda>i. unat (header pg ! (27 + i))) [0..<unat (header pg ! 26)]"
      using nth n26 wf(2) by (intro map_cong) auto
    then show ?thesis using wf(5) by simp
  qed
  have room: "\<not> fill oy - returned oy < 27" "\<not> fill oy - returned oy < ?hl" "\<not> ?bl + ?hl > fill oy - returned oy"
    using assms(4) hl inv(3) by linarith+
  have sh: "sync_header oy = Some (True, oy\<lparr>bodybytes := ?bl, headerbytes := ?hl\<rparr>)"
    unfolding sync_header_def Let_def n26 sum using assms(2) room o bb by simp
  define log where "log = ogg_page_checksum_set \<lparr>header = wr 22 [0, 0, 0, 0] ?d, header_len = ?hl, body = drop ?hl ?d, body_len = ?bl\<rparr>"
  have l: "header log = ?d" using checksum_in_place(3) [OF _ log_def ok] len hl by simp
  have w: "wr (returned oy) ?d (data oy) = data oy" using inv by (simp add: wr_def)
  let ?oy = "oy\<lparr>unsynced := 0, returned := returned oy + (?hl + ?bl), headerbytes := 0, bodybytes := 0\<rparr>"
  have "ogg_sync_pageseek oy (Some og) = (int (?hl + ?bl), Some ?pg, ?oy)"
    unfolding ogg_sync_pageseek_def Let_def sh using inv(1) room(3) l w
    by (simp add: log_def)
  moreover have "sync_inv ?oy" using assms(1,4) by (simp add: sync_inv_def)
  ultimately show ?thesis using same by fastforce
qed

section \<open>From a stream through the buffer\<close>

definition page_sizes :: "ogg_page \<Rightarrow> nat \<Rightarrow> nat list" where
  "page_sizes og p = map (\<lambda>i. unat (header og ! (27 + i))) [p..<unat (header og ! 26)]"

lemma page_segments_sizes: "27 + unat (header og ! 26) \<le> length (header og) \<Longrightarrow> page_segments og = page_sizes og 0"
  unfolding page_segments_def page_sizes_def rd_def by (intro nth_equalityI) simp_all

lemma page_of_wf:
  assumes "page_of os vals gp og" "0 < vals" "vals \<le> 255" "vals \<le> length (segments os)"
  shows "wf_page og"
proof -
  note f = page_of_fields [OF assms] and c = page_of_contents [OF assms(1,3)]
  have p: "header_len og = vals + 27" "length (header og) = 282" "body_len og \<le> length (body og)" "checksum_ok og"
    using assms(1) by (simp_all add: page_of_def)
  have "27 + unat (header og ! 26) \<le> length (header og)" using f(8) assms(3) p(2) by simp
  from page_segments_sizes [OF this] have "body_len og = sum_list (page_sizes og 0)" using c(3) by simp
  then show ?thesis using p f(8,10) assms(3) by (simp add: wf_page_def page_sizes_def)
qed

text \<open>Making room keeps the bytes that are pending, and with them the header that has been read.\<close>

lemma sync_buffer:
  assumes inv: "sync_inv oy" and run: "ogg_sync_buffer alloc oy room = (at, oy')"
  shows "(\<exists>off. at = Some off \<and> off = fill oy' \<and> sync_inv oy' \<and> fill oy' + room \<le> length (data oy') \<and>
      fill oy' - returned oy' = fill oy - returned oy \<and> headerbytes oy' = headerbytes oy \<and> unsynced oy' = unsynced oy \<and>
      take (fill oy - returned oy) (drop (returned oy') (data oy')) = take (fill oy - returned oy) (drop (returned oy) (data oy))) \<or>
    at = None \<and> oy' = zero_sync"
proof -
  note i = sync_invD [OF inv]
  let ?n = "fill oy - returned oy"
  define oy1 where "oy1 = (if returned oy \<noteq> 0
    then oy\<lparr>fill := ?n, data := wr 0 (rd (returned oy) ?n (data oy)) (data oy), returned := 0\<rparr> else oy)"
  have len1: "length (data oy1) = length (data oy)" using i by (simp add: oy1_def)
  have f1: "fill oy1 - returned oy1 = ?n" "headerbytes oy1 = headerbytes oy" "bodybytes oy1 = bodybytes oy" "unsynced oy1 = unsynced oy"
    "storage oy1 = storage oy" "returned oy1 \<le> fill oy1"
    using i by (simp_all add: oy1_def)
  have "fill oy1 \<le> fill oy" by (simp add: oy1_def)
  then have fl1: "fill oy1 \<le> length (data oy1)" using i len1 by linarith
  have same1: "take ?n (drop (returned oy1) (data oy1)) = take ?n (drop (returned oy) (data oy))"
    using i by (simp add: oy1_def rd_memmove)
  have keep: "sync_inv oy2" if o2: "length (data oy2) = nat (storage oy2)" "0 \<le> storage oy2" "returned oy2 \<le> fill oy2" "fill oy2 \<le> length (data oy2)"
      "fill oy2 - returned oy2 = ?n" "headerbytes oy2 = headerbytes oy" "bodybytes oy2 = bodybytes oy"
      "take ?n (drop (returned oy2) (data oy2)) = take ?n (drop (returned oy) (data oy))" for oy2
  proof (cases "headerbytes oy = 0")
    case True
    then have "bodybytes oy = 0" using inv by (simp add: sync_inv_def)
    with True o2 show ?thesis by (simp add: sync_inv_def)
  next
    case False
    note h = cached_header [OF inv False]
    have nth: "drop (returned oy2) (data oy2) ! j = drop (returned oy) (data oy) ! j" if "j < ?n" for j
      by (rule take_nth_eq [OF o2(8) that])
    have n26: "drop (returned oy2) (data oy2) ! 26 = drop (returned oy) (data oy) ! 26" by (rule nth) (use h in linarith)
    have "take 4 (take ?n (drop (returned oy2) (data oy2))) = take 4 (take ?n (drop (returned oy) (data oy)))" using o2(8) by simp
    then have t4: "take 4 (drop (returned oy2) (data oy2)) = ascii ''OggS''" using h by (simp add: min_def split: if_splits)
    have sizes: "map (\<lambda>i. unat (drop (returned oy2) (data oy2) ! (27 + i))) [0..<unat (drop (returned oy) (data oy) ! 26)] =
        map (\<lambda>i. unat (drop (returned oy) (data oy) ! (27 + i))) [0..<unat (drop (returned oy) (data oy) ! 26)]"
    proof (rule map_cong [OF refl])
      fix j assume "j \<in> set [0..<unat (drop (returned oy) (data oy) ! 26)]"
      then have "27 + j < ?n" using h(2,4) by simp
      then show "unat (drop (returned oy2) (data oy2) ! (27 + j)) = unat (drop (returned oy) (data oy) ! (27 + j))"
        by (simp only: nth)
    qed
    have nz: "headerbytes oy2 \<noteq> 0" using o2(6) False by simp
    show ?thesis
      unfolding sync_inv_def Let_def n26 sizes if_not_P [OF nz] using o2(1-7) h t4 by simp
  qed
  have run': "(at, oy') = (if int room > storage oy1 - int (fill oy1)
      then if \<not> alloc (room + fill oy1 + 4096) then (None, zero_sync)
        else (Some (fill oy1), oy1\<lparr>data := resize 0 (room + fill oy1 + 4096) (data oy1), storage := int (room + fill oy1 + 4096)\<rparr>)
      else (Some (fill oy1), oy1))"
    using run i(1) unfolding ogg_sync_buffer_def Let_def oy1_def [symmetric] by (simp cong: if_cong)
  have st: "0 \<le> storage oy" using inv by (simp add: sync_inv_def)
  show ?thesis
  proof (cases "int room > storage oy1 - int (fill oy1)")
    case False
    then have "at = Some (fill oy1)" "oy' = oy1" using run' by simp_all
    moreover have "sync_inv oy1" by (rule keep) (use f1 fl1 len1 i st same1 in simp_all)
    moreover have "fill oy1 + room \<le> length (data oy1)" using False f1(5) len1 i(2) st by simp
    ultimately show ?thesis using f1 same1 by simp
  next
    case True
    let ?size = "room + fill oy1 + 4096"
    let ?oy2 = "oy1\<lparr>data := resize 0 ?size (data oy1), storage := int ?size\<rparr>"
    show ?thesis
    proof (cases "alloc ?size")
      case True
      then have r: "at = Some (fill oy1)" "oy' = ?oy2" using run' \<open>int room > _\<close> by simp_all
      have "take ?n (drop (returned oy1) (resize 0 ?size (data oy1))) = take ?n (drop (returned oy1) (data oy1))"
      proof -
        have "take (returned oy1 + ?n) (resize 0 ?size (data oy1)) = take (returned oy1 + ?n) (data oy1)"
          by (rule take_resize) (use f1 fl1 in linarith)+
        then show ?thesis using drop_take [of "returned oy1" "returned oy1 + ?n" "resize 0 ?size (data oy1)"]
          drop_take [of "returned oy1" "returned oy1 + ?n" "data oy1"] by simp
      qed
      then have same2: "take ?n (drop (returned ?oy2) (data ?oy2)) = take ?n (drop (returned oy) (data oy))" using same1 by simp
      have "sync_inv ?oy2" by (rule keep) (use f1 fl1 same2 in simp_all)
      then show ?thesis using r f1 same2 by simp
    next
      case False
      then show ?thesis using run' \<open>int room > _\<close> by simp
    qed
  qed
qed

lemma bit8: "bit v 8 \<longleftrightarrow> v AND 0x100 \<noteq> 0" for v :: nat
proof -
  have "(0x100 :: nat) = push_bit 8 1" by simp
  then show ?thesis by (simp only: bit_iff_and_push_bit_not_eq_0)
qed

lemma bit8_flag: "bit (v OR 0x100) 8" for v :: nat
proof -
  have "(0x100 :: nat) = 2 ^ 8" by simp
  then show ?thesis by (simp only: bit_or_iff bit_exp_iff) simp
qed

text \<open>A stream of one short packet, from end to end.\<close>

lemma three_page:
  obtains og' e' where "ogg_stream_flush_fill three_stream og 4096 = (1, og', e')" "page_segments og' = [3]" "queued e' = []"
    "header_len og' = 28" "body_len og' = 3" "length (header og') = 282" "body_len og' \<le> length (body og')" "encoder e'"
    "ogg_page_serialno og' = 7" "ogg_page_version og' = 0" "ogg_page_pageno og' = 0" "ogg_page_continued og' = 0" "unat (header og' ! 26) = 1"
proof -
  obtain r og' e' where f: "ogg_stream_flush_i three_stream og 1 4096 = (r, og', e')" by (metis prod_cases3)
  have q: "segments three_stream = new_segments 3" "queued three_stream = [3]"
    by (simp_all add: queued_def three_encoder seg_len_new_segments lacing_def)
  from q(2) have "segments three_stream \<noteq> []" by (auto simp: queued_def)
  with flush [OF encoderD [OF three_encoder(1)] f] obtain vals gp where v: "r = 1" "0 < vals" "vals \<le> 255" "vals \<le> length (segments three_stream)"
    "page_of three_stream vals gp og'" "segments e' = drop vals (segments three_stream)" by auto
  have "vals = 1" using v(2,4) q(1) by simp
  note c = page_of_contents [OF v(5,3)] and p = page_of_fields [OF v(5,2-4)]
  have "page_segments og' = [3]" using c(1) q(2) \<open>vals = 1\<close> by simp
  moreover have "queued e' = []" using v(6) q(1) \<open>vals = 1\<close> by (simp add: queued_def)
  moreover have "header_len og' = 28" "body_len og' = 3" "length (header og') = 282" "body_len og' \<le> length (body og')"
    using v(5) \<open>vals = 1\<close> c(3) calculation(1) by (simp_all add: page_of_def)
  moreover have "encoder e'" by (rule flush_encoder [OF three_encoder(1) f])
  moreover have "ogg_page_serialno og' = 7" "ogg_page_version og' = 0" "ogg_page_pageno og' = 0" "unat (header og' ! 26) = 1"
    using p three_encoder \<open>vals = 1\<close> by (simp_all add: page_number_def)
  moreover have "ogg_page_continued og' = 0"
  proof -
    have "lacing_vals three_stream ! 0 = segments three_stream ! 0"
      using v(2,4) encoderD(2) [OF three_encoder(1)] by (simp add: segments_def)
    also have "\<dots> = 3 OR 0x100" by (simp add: q(1) new_segments_def lacing_def)
    finally show ?thesis using p(2) bit8_flag [of 3] by (simp only: bit8 if_False)
  qed
  ultimately show ?thesis using that f v(1) by (simp add: ogg_stream_flush_fill_def)
qed

section \<open>Properties\<close>

text \<open>
  C36. Looking for a page always comes to an end, whatever bytes have been written: it keeps the buffer and the
  invariant, reports lost bytes only once until a page is found, and a page that it returns begins with the
  capture pattern, is as long as its segment table says and has the right checksum.
\<close>

theorem ogg_sync_pageout_returns:
  assumes "sync_inv oy"
  shows "\<exists>r og' oy'. ogg_sync_pageout oy og = Some (r, og', oy') \<and> sync_inv oy' \<and> data oy' = data oy \<and> fill oy' = fill oy \<and>
    returned oy \<le> returned oy' \<and> returned oy' \<le> fill oy \<and> (r = 0 \<or> r = -1 \<and> unsynced oy = 0 \<and> unsynced oy' = 1 \<or>
      r = 1 \<and> (\<exists>p pg. page_at (data oy) p pg \<and> returned oy \<le> p \<and> og' = map_option (\<lambda>_. pg) og \<and>
        returned oy' = p + header_len pg + body_len pg))"
proof -
  have "ogg_sync_pageout oy og = pageout_loop oy og" using sync_invD(1) [OF assms] by (simp add: ogg_sync_pageout_def)
  with pageout_loop [OF assms, of og] sync_invD(3) show ?thesis by fastforce
qed

theorem ogg_sync_pageout_returns_witness:
  "\<forall>og. \<exists>r og' oy'. ogg_sync_pageout \<lparr>data = [0x4F, 1, 2], storage = 3, fill = 3, returned = 0, unsynced = 0, headerbytes = 0, bodybytes = 0\<rparr> og =
     Some (r, og', oy') \<and> sync_inv oy' \<and> r \<noteq> 2"
  (is "\<forall>og. ?P og")
proof
  fix og
  have "sync_inv \<lparr>data = [0x4F, 1, 2], storage = 3, fill = 3, returned = 0, unsynced = 0, headerbytes = 0, bodybytes = 0\<rparr>"
    by (simp add: sync_inv_def)
  from ogg_sync_pageout_returns [OF this, of og] show "?P og" by fastforce
qed

text \<open>
  C10. What is written as a page is read as that page: when a page that a stream has flushed is copied, header
  and body, into an empty sync buffer, the next page found there is that page, bytes and lengths alike,
  and the buffer is empty again.
\<close>

theorem ogg_sync_transports_page:
  assumes "encoder os" "ogg_stream_flush_fill os og0 nfill = (1, pg, os')"
    and "sync_inv oy" "returned oy = fill oy"
    and "ogg_sync_buffer alloc oy (header_len pg + body_len pg) = (Some off, oy1)"
    and "ogg_sync_wrote (oy1\<lparr>data := wr off (page_bytes pg) (data oy1)\<rparr>) (header_len pg + body_len pg) = (r, oy2)"
  shows "r = 0 \<and> (\<exists>pg' oy'. ogg_sync_pageout oy2 (Some og) = Some (1, Some pg', oy') \<and> same_page pg pg' \<and>
    sync_inv oy' \<and> returned oy' = fill oy')"
proof -
  have fl: "ogg_stream_flush_i os og0 1 nfill = (1, pg, os')" using assms(2) by (simp add: ogg_stream_flush_fill_def)
  from flush [OF encoderD [OF assms(1)] fl] obtain vals gp where "0 < vals" "vals \<le> 255" "vals \<le> length (segments os)" "page_of os vals gp pg"
    by auto
  then have wf: "wf_page pg" by (intro page_of_wf)
  then have len: "length (page_bytes pg) = header_len pg + body_len pg"
    unfolding page_bytes_def wf_page_def by (elim conjE) simp
  let ?n = "header_len pg + body_len pg"
  from sync_buffer [OF assms(3,5)] assms(4) have b: "off = fill oy1" "sync_inv oy1" "fill oy1 + ?n \<le> length (data oy1)"
    "fill oy1 - returned oy1 = 0" "headerbytes oy1 = headerbytes oy" by simp_all
  have "headerbytes oy = 0" using cached_header(1,2) [OF assms(3)] assms(4) by fastforce
  then have h: "headerbytes oy1 = 0" using b(5) by simp
  have ret: "returned oy1 = fill oy1" using b(4) sync_invD(3) [OF b(2)] by simp
  let ?d = "wr off (page_bytes pg) (data oy1)"
  have st: "int (fill oy1 + ?n) \<le> storage oy1" "0 \<le> storage oy1" using b(3) sync_invD(2) [OF b(2)] b(2) by (auto simp: sync_inv_def)
  have r: "r = 0" "oy2 = oy1\<lparr>data := ?d, fill := fill oy1 + ?n\<rparr>"
    using assms(6) st by (simp_all add: ogg_sync_wrote_def ogg_sync_check_def)
  have ld: "length ?d = length (data oy1)" using b(1,3) len by simp
  have "bodybytes oy1 = 0" using b(2) h by (simp add: sync_inv_def)
  then have inv2: "sync_inv oy2" using b(2,3) h ret ld sync_invD(2) [OF b(2)] st(2) unfolding r(2) sync_inv_def by simp
  have "rd (returned oy2) ?n (data oy2) = page_bytes pg"
    using b(1,3) ret len by (simp add: r(2) rd_wr_same)
  moreover have "returned oy2 + ?n \<le> fill oy2" "headerbytes oy2 = 0" using ret h by (simp_all add: r(2))
  ultimately obtain pg' oy' where s: "ogg_sync_pageseek oy2 (Some og) = (int ?n, Some pg', oy')" "same_page pg pg'" "sync_inv oy'"
    "fill oy' = fill oy2" "returned oy' = returned oy2 + ?n"
    using pageseek_finds [OF inv2 _ wf, of og] by blast
  have "27 \<le> header_len pg" using wf by (simp add: wf_page_def)
  then have "pageout_loop oy2 (Some og) = Some (1, Some pg', oy')" using s(1) by (subst pageout_loop.simps) simp
  then have "ogg_sync_pageout oy2 (Some og) = Some (1, Some pg', oy')" using sync_invD(1) [OF inv2] by (simp add: ogg_sync_pageout_def)
  moreover have "returned oy' = fill oy'" using s(4,5) ret by (simp add: r(2))
  ultimately show ?thesis using r(1) s(2,3) by blast
qed

theorem ogg_sync_transports_page_witness:
  "\<forall>og. \<exists>pg os' oy2 pg' oy'. ogg_stream_flush_fill three_stream og 4096 = (1, pg, os') \<and> body_len pg = 3 \<and>
     ogg_sync_pageout oy2 (Some og) = Some (1, Some pg', oy') \<and> same_page pg pg'"
  (is "\<forall>og. ?P og")
proof
  fix og
  obtain pg os' where f: "ogg_stream_flush_fill three_stream og 4096 = (1, pg, os')" and n: "header_len pg = 28" "body_len pg = 3"
    by (rule three_page)
  obtain off oy1 where b: "ogg_sync_buffer (\<lambda>n. True) zero_sync (header_len pg + body_len pg) = (Some off, oy1)"
    by (simp add: n ogg_sync_buffer_def ogg_sync_check_def zero_sync_def Let_def)
  obtain r oy2 where w: "ogg_sync_wrote (oy1\<lparr>data := wr off (page_bytes pg) (data oy1)\<rparr>) (header_len pg + body_len pg) = (r, oy2)"
    by fastforce
  have "sync_inv zero_sync" "returned zero_sync = fill zero_sync" by (simp_all add: sync_inv_def zero_sync_def)
  from ogg_sync_transports_page [OF three_encoder(1) f this b w, of og] f n(2) show "?P og" by blast
qed

end
