(* ===== verification/OggDecode.thy ===== *)
theory OggDecode
  imports OggSync
begin

text \<open>
  The decoding side of \<^verbatim>\<open>app/jni/opus/ogg/framing.c\<close>: pages taken apart into segments, and segments put
  together into packets by a loop that is a partial function proved to return.  The contract \<open>framing\<close> joins
  the two sides: whatever the interleaving, the packets that come out are the packets that went in.
\<close>

unbundle bit_operations_syntax

section \<open>Pages in\<close>

text \<open>What packets took is dropped from the segment table as from the body.\<close>

definition drop_returned_lacing :: "ogg_stream_state \<Rightarrow> ogg_stream_state" where
  "drop_returned_lacing os =
     (let lr = lacing_returned os; left = lacing_fill os - lr in
      if lr \<noteq> 0
      then os\<lparr>lacing_vals := (if left \<noteq> 0 then wr 0 (rd lr left (lacing_vals os)) (lacing_vals os) else lacing_vals os),
              granule_vals := (if left \<noteq> 0 then wr 0 (rd lr left (granule_vals os)) (granule_vals os) else granule_vals os),
              lacing_fill := left, lacing_packet := lacing_packet os - lr, lacing_returned := 0\<rparr>
      else os)"

text \<open>A gap in the page numbers: the packet that was begun is lost, and the loss noted.\<close>

definition page_gap :: "ogg_stream_state \<Rightarrow> ogg_stream_state" where
  "page_gap os =
     (let os = os\<lparr>body_fill := body_fill os - sum_list (map (\<lambda>i. lacing_vals os ! i AND 0xff) [lacing_packet os..<lacing_fill os]),
                  lacing_fill := lacing_packet os\<rparr>
      in if pageno os \<noteq> -1
         then os\<lparr>lacing_vals := (lacing_vals os)[lacing_fill os := 0x400], lacing_fill := lacing_fill os + 1,
                 lacing_packet := lacing_packet os + 1\<rparr>
         else os)"

text \<open>Segments of a packet whose beginning was lost: the number of the first to keep, and the bytes skipped.\<close>

fun skip_continued :: "bytes \<Rightarrow> nat \<Rightarrow> nat \<Rightarrow> nat \<Rightarrow> nat \<times> nat" where
  "skip_continued h 0 segptr skipped = (segptr, skipped)"
| "skip_continued h (Suc left) segptr skipped =
     (let val = unat (h ! (27 + segptr)) in
      if val < 255 then (segptr + 1, skipped + val) else skip_continued h left (segptr + 1) (skipped + val))"

text \<open>The loop over the segments, with the index of the last complete packet.\<close>

fun store_segments :: "bytes \<Rightarrow> nat \<Rightarrow> nat \<Rightarrow> int \<Rightarrow> nat option \<Rightarrow> ogg_stream_state \<Rightarrow> nat option \<times> ogg_stream_state" where
  "store_segments h 0 segptr bos saved os = (saved, os)"
| "store_segments h (Suc left) segptr bos saved os =
     (let val = unat (h ! (27 + segptr)); k = lacing_fill os;
          os = os\<lparr>lacing_vals := (lacing_vals os)[k := (if bos \<noteq> 0 then val OR 0x100 else val)],
                  granule_vals := (granule_vals os)[k := -1], lacing_fill := k + 1\<rparr>
      in if val < 255
         then store_segments h left (segptr + 1) 0 (Some k) (os\<lparr>lacing_packet := lacing_fill os\<rparr>)
         else store_segments h left (segptr + 1) 0 saved os)"

text \<open>The body and the segments from \<open>segptr\<close> on, the granule position, and the end of the stream.\<close>

definition page_store :: "ogg_page \<Rightarrow> nat \<Rightarrow> nat \<Rightarrow> int \<Rightarrow> ogg_stream_state \<Rightarrow> ogg_stream_state" where
  "page_store og segptr skipped bos os =
     (let bodysize = body_len og - skipped;
          os = os\<lparr>body_data := wr (body_fill os) (rd skipped bodysize (body og)) (body_data os), body_fill := body_fill os + bodysize\<rparr>;
          (saved, os) = store_segments (header og) (unat (header og ! 26) - segptr) segptr bos None os;
          os = (case saved of None \<Rightarrow> os
                | Some k \<Rightarrow> os\<lparr>granule_vals := (granule_vals os)[k := ogg_page_granulepos og]\<rparr>)
      in if ogg_page_eos og \<noteq> 0
         then let os = os\<lparr>e_o_s := 1\<rparr> in
           if lacing_fill os > 0
           then os\<lparr>lacing_vals := (lacing_vals os)[lacing_fill os - 1 := lacing_vals os ! (lacing_fill os - 1) OR 0x200]\<rparr>
           else os
         else os)"

definition ogg_stream_pagein :: "(nat \<Rightarrow> bool) \<Rightarrow> ogg_stream_state \<Rightarrow> ogg_page \<Rightarrow> int \<times> ogg_stream_state" where
  "ogg_stream_pagein alloc os og =
     (let segs = unat (header og ! 26); page_no = ogg_page_pageno og in
      if ogg_stream_check (Some os) \<noteq> 0 then (-1, os)
      else let os = drop_returned_lacing (drop_returned_body os) in
      if ogg_page_serialno og \<noteq> serialno os then (-1, os)
      else if ogg_page_version og > 0 then (-1, os)
      else let (failed, os) = os_lacing_expand alloc os (segs + 1) in
      if failed \<noteq> 0 then (-1, os)
      else let os = (if page_no \<noteq> pageno os then page_gap os else os);
               lost = ogg_page_continued og \<noteq> 0 \<and> (lacing_fill os < 1 \<or> lacing_vals os ! (lacing_fill os - 1) = 0x400);
               (segptr, skipped) = (if lost then skip_continued (header og) segs 0 0 else (0, 0));
               bos = (if lost then 0 else ogg_page_bos og);
               bodysize = body_len og - skipped;
               (failed, os) = (if bodysize \<noteq> 0 then os_body_expand alloc os bodysize else (0, os))
      in if failed \<noteq> 0 then (-1, os)
      else (0, (page_store og segptr skipped bos os)\<lparr>pageno := page_no + 1\<rparr>))"

section \<open>Packets out\<close>

text \<open>The segments of one packet: the index of the last, the bytes, and the flag of the end of the stream.\<close>

partial_function (option) gather :: "nat list \<Rightarrow> nat \<Rightarrow> nat \<Rightarrow> nat \<Rightarrow> int \<Rightarrow> (nat \<times> nat \<times> int) option" where
  "gather lv ptr seg bytes eos =
     (if seg = 255
      then let ptr = ptr + 1; val = lv ! ptr; size = val AND 0xff;
               eos = (if val AND 0x200 \<noteq> 0 then 0x200 else eos)
           in gather lv ptr size (bytes + size) eos
      else Some (ptr, bytes, eos))"

text \<open>The result, the packet if one is asked for and found, and the state.\<close>

definition packetout_i :: "ogg_stream_state \<Rightarrow> ogg_packet option \<Rightarrow> bool \<Rightarrow> (int \<times> ogg_packet option \<times> ogg_stream_state) option" where
  "packetout_i os op adv =
     (let ptr = lacing_returned os in
      if lacing_packet os \<le> ptr then Some (0, op, os)
      else if lacing_vals os ! ptr AND 0x400 \<noteq> 0
      then Some (-1, op, os\<lparr>lacing_returned := ptr + 1, packetno := packetno os + 1\<rparr>)
      else if op = None \<and> \<not> adv then Some (1, op, os)
      else let size = lacing_vals os ! ptr AND 0xff;
               eos = int (lacing_vals os ! ptr AND 0x200);
               bos = int (lacing_vals os ! ptr AND 0x100)
           in case gather (lacing_vals os) ptr size size eos of
             None \<Rightarrow> None
           | Some (ptr, bytes, eos) \<Rightarrow>
               Some (1,
                 map_option (\<lambda>op. \<lparr>op_packet = drop (body_returned os) (body_data os), op_bytes = bytes, op_b_o_s = bos,
                     op_e_o_s = eos, op_granulepos = granule_vals os ! ptr, op_packetno = packetno os\<rparr>) op,
                 if adv then os\<lparr>body_returned := body_returned os + bytes, lacing_returned := ptr + 1, packetno := packetno os + 1\<rparr>
                 else os))"

definition ogg_stream_packetout :: "ogg_stream_state \<Rightarrow> ogg_packet option \<Rightarrow> (int \<times> ogg_packet option \<times> ogg_stream_state) option" where
  "ogg_stream_packetout os op = (if ogg_stream_check (Some os) \<noteq> 0 then Some (0, op, os) else packetout_i os op True)"

definition ogg_stream_packetpeek :: "ogg_stream_state \<Rightarrow> ogg_packet option \<Rightarrow> (int \<times> ogg_packet option \<times> ogg_stream_state) option" where
  "ogg_stream_packetpeek os op = (if ogg_stream_check (Some os) \<noteq> 0 then Some (0, op, os) else packetout_i os op False)"

definition ogg_packet_clear :: "ogg_packet \<Rightarrow> ogg_packet" where
  "ogg_packet_clear op = \<lparr>op_packet = [], op_bytes = 0, op_b_o_s = 0, op_e_o_s = 0, op_granulepos = 0, op_packetno = 0\<rparr>"

section \<open>The decoding stream\<close>

text \<open>
  Up to \<open>lacing_packet\<close> the segments make complete packets, after it there are only full segments; the
  marks of lost pages (bit 10) have no bytes.
\<close>

definition decoder :: "ogg_stream_state \<Rightarrow> bool" where
  "decoder os \<longleftrightarrow> stream_inv os \<and>
     (lacing_packet os = lacing_returned os \<or> seg_len (lacing_vals os ! (lacing_packet os - 1)) < 255) \<and>
     (\<forall>i. lacing_packet os \<le> i \<and> i < lacing_fill os \<longrightarrow> seg_len (lacing_vals os ! i) = 255) \<and>
     (\<forall>v \<in> set (segments os). bit v 10 \<longrightarrow> seg_len v = 0)"

definition no_holes :: "ogg_stream_state \<Rightarrow> bool" where
  "no_holes os \<longleftrightarrow> (\<forall>v \<in> set (segments os). \<not> bit v 10)"

lemma decoder_inv: "decoder os \<Longrightarrow> stream_inv os"
  by (simp add: decoder_def)

lemma decoderI:
  "stream_inv os \<Longrightarrow> (lacing_packet os \<noteq> lacing_returned os \<Longrightarrow> seg_len (lacing_vals os ! (lacing_packet os - 1)) < 255) \<Longrightarrow>
     (\<And>i. lacing_packet os \<le> i \<Longrightarrow> i < lacing_fill os \<Longrightarrow> seg_len (lacing_vals os ! i) = 255) \<Longrightarrow>
     (\<And>v. v \<in> set (segments os) \<Longrightarrow> bit v 10 \<Longrightarrow> seg_len v = 0) \<Longrightarrow> decoder os"
  by (auto simp: decoder_def)

lemma decoder_hole: "decoder os \<Longrightarrow> v \<in> set (segments os) \<Longrightarrow> bit v 10 \<Longrightarrow> seg_len v = 0"
  by (simp add: decoder_def)

lemma flag_hole: "v AND 0x400 = 0 \<longleftrightarrow> \<not> bit v 10" for v :: nat
proof -
  have "(0x400 :: nat) = push_bit 10 1" by simp
  then show ?thesis by (simp only: bit_iff_and_push_bit_not_eq_0 not_not)
qed

lemma bit_flags: "\<not> bit (v OR 0x100) 10 \<longleftrightarrow> \<not> bit v 10" "\<not> bit (v OR 0x200) 10 \<longleftrightarrow> \<not> bit v 10" for v :: nat
proof -
  have p: "(0x100 :: nat) = 2 ^ 8" "(0x200 :: nat) = 2 ^ 9" by simp_all
  show "\<not> bit (v OR 0x100) 10 \<longleftrightarrow> \<not> bit v 10" "\<not> bit (v OR 0x200) 10 \<longleftrightarrow> \<not> bit v 10"
    by (simp_all only: p bit_or_iff bit_exp_iff) simp_all
qed

lemma byte_no_hole: "\<not> bit (unat (b :: u8)) 10"
  by (auto simp: bit_simps dest: bit_imp_le_length)

lemma same_segments:
  "lacing_returned os' = lacing_returned os \<Longrightarrow> lacing_fill os' = lacing_fill os \<Longrightarrow>
     take (lacing_fill os) (lacing_vals os') = take (lacing_fill os) (lacing_vals os) \<Longrightarrow> segments os' = segments os"
  by (simp add: segments_def)

text \<open>Operations that leave the marks and the segments alone keep the invariant.\<close>

lemma decoder_transfer:
  assumes "decoder os" "stream_inv os'" "lacing_returned os' = lacing_returned os" "lacing_packet os' = lacing_packet os"
    and "lacing_fill os' = lacing_fill os" "take (lacing_fill os) (lacing_vals os') = take (lacing_fill os) (lacing_vals os)"
  shows "decoder os'"
proof -
  note n = take_nth_eq [OF assms(6)] and i = stream_invD [OF decoder_inv [OF assms(1)]]
  have "lacing_vals os' ! (lacing_packet os - 1) = lacing_vals os ! (lacing_packet os - 1)"
    if "lacing_packet os \<noteq> lacing_returned os"
    by (rule n) (use i that in linarith)
  moreover have "segments os' = segments os" using assms(3,5,6) by (rule same_segments)
  ultimately show ?thesis using assms(1-5) n
    by (cases "lacing_packet os = lacing_returned os") (simp_all add: decoder_def)
qed

text \<open>Dropping what has been returned.\<close>

lemma drop_returned_lacing:
  assumes "decoder os"
  shows "decoder (drop_returned_lacing os)" "lacing_returned (drop_returned_lacing os) = 0"
    "segments (drop_returned_lacing os) = segments os" "pending_body (drop_returned_lacing os) = pending_body os"
    "body_returned (drop_returned_lacing os) = body_returned os"
    "serialno (drop_returned_lacing os) = serialno os" "pageno (drop_returned_lacing os) = pageno os"
    "lacing_packet (drop_returned_lacing os) + lacing_fill os = lacing_packet os + lacing_fill (drop_returned_lacing os)"
proof -
  note i = stream_invD [OF decoder_inv [OF assms]]
  let ?lr = "lacing_returned os" and ?left = "lacing_fill os - lacing_returned os"
  define lv where "lv = (if ?left \<noteq> 0 then wr 0 (rd ?lr ?left (lacing_vals os)) (lacing_vals os) else lacing_vals os)"
  define gv where "gv = (if ?left \<noteq> 0 then wr 0 (rd ?lr ?left (granule_vals os)) (granule_vals os) else granule_vals os)"
  let ?os = "os\<lparr>lacing_vals := lv, granule_vals := gv, lacing_fill := ?left, lacing_packet := lacing_packet os - ?lr, lacing_returned := 0\<rparr>"
  have t: "take ?left lv = drop ?lr (take (lacing_fill os) (lacing_vals os))"
    using i by (cases "?left = 0") (simp_all add: lv_def rd_memmove drop_take)
  have n: "lv ! j = lacing_vals os ! (?lr + j)" if "j < ?left" for j
  proof -
    have "lv ! j = take ?left lv ! j" using that by (rule nth_take [symmetric])
    then show ?thesis unfolding t using that i by simp
  qed
  have l: "length lv = lacing_storage os" "length gv = lacing_storage os" using i by (simp_all add: lv_def gv_def)
  have segs: "segments ?os = segments os" using t by (simp add: segments_def)
  have "lacing_packet os - ?lr \<le> ?left" "?left \<le> lacing_storage os" using i(8,9) by linarith+
  then have "stream_inv ?os" using i l segs unfolding stream_inv_def by simp
  moreover have "seg_len (lv ! (lacing_packet os - ?lr - 1)) < 255" if "lacing_packet os - ?lr \<noteq> 0"
  proof -
    have j: "lacing_packet os - ?lr - 1 < ?left" "?lr + (lacing_packet os - ?lr - 1) = lacing_packet os - 1"
      using i(7,8) that by linarith+
    show ?thesis unfolding n [OF j(1)] j(2) using assms that by (simp add: decoder_def)
  qed
  moreover have "seg_len (lv ! j) = 255" if "lacing_packet os - ?lr \<le> j" "j < ?left" for j
  proof -
    have "lacing_packet os \<le> ?lr + j" "?lr + j < lacing_fill os" using that i(7,8) by linarith+
    then show ?thesis unfolding n [OF that(2)] using assms by (simp add: decoder_def)
  qed
  moreover have "seg_len v = 0" if "v \<in> set (segments ?os)" "bit v 10" for v
    using that decoder_hole [OF assms] unfolding segs by blast
  ultimately have d: "decoder ?os" by (intro decoderI) simp_all
  have e: "drop_returned_lacing os = (if ?lr \<noteq> 0 then ?os else os)" by (simp add: drop_returned_lacing_def Let_def lv_def gv_def)
  show "decoder (drop_returned_lacing os)" using d assms by (simp add: e)
  show "lacing_returned (drop_returned_lacing os) = 0" by (simp add: e)
  show "segments (drop_returned_lacing os) = segments os" using segs by (simp add: e)
  show "pending_body (drop_returned_lacing os) = pending_body os" by (simp add: e pending_body_def)
  show "body_returned (drop_returned_lacing os) = body_returned os"
    "serialno (drop_returned_lacing os) = serialno os" "pageno (drop_returned_lacing os) = pageno os" by (simp_all add: e)
  show "lacing_packet (drop_returned_lacing os) + lacing_fill os = lacing_packet os + lacing_fill (drop_returned_lacing os)"
    using i(7,8) by (simp add: e)
qed

lemma drop_returned_body_decoder:
  assumes "decoder os"
  shows "decoder (drop_returned_body os)"
  by (rule decoder_transfer [OF assms drop_returned(1) [OF decoder_inv [OF assms]]])
    (simp_all add: drop_returned_body_def Let_def)

lemma drop_returned_both:
  assumes "decoder os"
  defines "os' \<equiv> drop_returned_lacing (drop_returned_body os)"
  shows "decoder os'" "lacing_returned os' = 0" "body_returned os' = 0" "segments os' = segments os"
    "pending_body os' = pending_body os" "serialno os' = serialno os" "pageno os' = pageno os"
    "(lacing_packet os' < lacing_fill os') = (lacing_packet os < lacing_fill os)"
proof -
  note b = drop_returned [OF decoder_inv [OF assms(1)]] and d = drop_returned_lacing [OF drop_returned_body_decoder [OF assms(1)]]
  have f: "serialno (drop_returned_body os) = serialno os" "pageno (drop_returned_body os) = pageno os"
    "lacing_packet (drop_returned_body os) = lacing_packet os" "lacing_fill (drop_returned_body os) = lacing_fill os"
    by (simp_all add: drop_returned_body_def Let_def)
  show "decoder os'" "lacing_returned os' = 0" "body_returned os' = 0" "segments os' = segments os"
    "pending_body os' = pending_body os" "serialno os' = serialno os" "pageno os' = pageno os"
    using b d f by (simp_all add: os'_def)
  show "(lacing_packet os' < lacing_fill os') = (lacing_packet os < lacing_fill os)"
    using d(8) unfolding os'_def f by linarith
qed

text \<open>What the loop over the segments of a page stores.\<close>

definition stored :: "nat list \<Rightarrow> ogg_stream_state \<Rightarrow> ogg_stream_state \<Rightarrow> bool" where
  "stored sizes os os' \<longleftrightarrow>
     os' = os\<lparr>lacing_vals := lacing_vals os', granule_vals := granule_vals os', lacing_fill := lacing_fill os + length sizes,
              lacing_packet := lacing_packet os'\<rparr> \<and>
     length (lacing_vals os') = length (lacing_vals os) \<and> length (granule_vals os') = length (granule_vals os) \<and>
     (\<exists>new. map seg_len new = sizes \<and> (\<forall>v \<in> set new. \<not> bit v 10) \<and>
        take (lacing_fill os + length sizes) (lacing_vals os') = take (lacing_fill os) (lacing_vals os) @ new) \<and>
     lacing_packet os \<le> lacing_packet os' \<and> lacing_packet os' \<le> lacing_fill os' \<and>
     (lacing_packet os' = lacing_packet os \<or> lacing_fill os < lacing_packet os' \<and> seg_len (lacing_vals os' ! (lacing_packet os' - 1)) < 255) \<and>
     (\<forall>i. lacing_fill os \<le> i \<and> lacing_packet os' \<le> i \<and> i < lacing_fill os' \<longrightarrow> seg_len (lacing_vals os' ! i) = 255)"

lemma stored_none: "lacing_packet os \<le> lacing_fill os \<Longrightarrow> stored [] os os"
  by (simp add: stored_def)

lemma stored_fields:
  assumes "stored sizes os os'"
  shows "lacing_fill os' = lacing_fill os + length sizes" "lacing_storage os' = lacing_storage os" "lacing_returned os' = lacing_returned os"
    "body_data os' = body_data os" "body_storage os' = body_storage os" "body_fill os' = body_fill os" "body_returned os' = body_returned os"
    "stream_header os' = stream_header os" "serialno os' = serialno os" "pageno os' = pageno os" "e_o_s os' = e_o_s os"
proof -
  have e: "os' = os\<lparr>lacing_vals := lacing_vals os', granule_vals := granule_vals os', lacing_fill := lacing_fill os + length sizes,
      lacing_packet := lacing_packet os'\<rparr>"
    using assms unfolding stored_def by blast
  show "lacing_fill os' = lacing_fill os + length sizes" "lacing_storage os' = lacing_storage os" "lacing_returned os' = lacing_returned os"
    "body_data os' = body_data os" "body_storage os' = body_storage os" "body_fill os' = body_fill os" "body_returned os' = body_returned os"
    "stream_header os' = stream_header os" "serialno os' = serialno os" "pageno os' = pageno os" "e_o_s os' = e_o_s os"
    by (subst e, simp)+
qed

lemma stored_one:
  assumes "stored sizes os1 os'" "lacing_fill os < length (lacing_vals os)" "lacing_packet os \<le> lacing_fill os"
    and "os1 = os\<lparr>lacing_vals := (lacing_vals os)[lacing_fill os := w], granule_vals := (granule_vals os)[lacing_fill os := g],
      lacing_fill := lacing_fill os + 1, lacing_packet := if v < 255 then lacing_fill os + 1 else lacing_packet os\<rparr>"
    and "seg_len w = v" "\<not> bit w 10" "v \<le> 255"
  shows "stored (v # sizes) os os'"
proof -
  let ?lf = "lacing_fill os"
  have os1: "lacing_fill os1 = ?lf + 1" "lacing_vals os1 = (lacing_vals os)[?lf := w]" "length (granule_vals os1) = length (granule_vals os)"
    "lacing_packet os1 = (if v < 255 then ?lf + 1 else lacing_packet os)" by (simp_all add: assms(4))
  have e: "os' = os1\<lparr>lacing_vals := lacing_vals os', granule_vals := granule_vals os', lacing_fill := ?lf + 1 + length sizes, lacing_packet := lacing_packet os'\<rparr>"
    and l: "length (lacing_vals os') = length (lacing_vals os)" "length (granule_vals os') = length (granule_vals os)"
    and "\<exists>new. map seg_len new = sizes \<and> (\<forall>v \<in> set new. \<not> bit v 10) \<and>
        take (?lf + 1 + length sizes) (lacing_vals os') = take (?lf + 1) ((lacing_vals os)[?lf := w]) @ new"
    and lp: "lacing_packet os1 \<le> lacing_packet os'" "lacing_packet os' \<le> lacing_fill os'"
      "lacing_packet os' = lacing_packet os1 \<or> ?lf + 1 < lacing_packet os' \<and> seg_len (lacing_vals os' ! (lacing_packet os' - 1)) < 255"
    and full: "\<And>i. ?lf + 1 \<le> i \<Longrightarrow> lacing_packet os' \<le> i \<Longrightarrow> i < lacing_fill os' \<Longrightarrow> seg_len (lacing_vals os' ! i) = 255"
    using assms(1) os1 unfolding stored_def by auto
  then obtain new where new: "map seg_len new = sizes" "\<forall>v \<in> set new. \<not> bit v 10"
    "take (?lf + 1 + length sizes) (lacing_vals os') = take (?lf + 1) ((lacing_vals os)[?lf := w]) @ new" by blast
  have t: "take (?lf + 1) ((lacing_vals os)[?lf := w]) = take ?lf (lacing_vals os) @ [w]"
    using assms(2) by (simp add: take_Suc_conv_app_nth)
  have w: "lacing_vals os' ! ?lf = w"
  proof -
    have "lacing_vals os' ! ?lf = take (?lf + 1 + length sizes) (lacing_vals os') ! ?lf" by simp
    also have "\<dots> = w" unfolding new(3) t using assms(2) by (simp add: nth_append min_def)
    finally show ?thesis .
  qed
  have eq: "os' = os\<lparr>lacing_vals := lacing_vals os', granule_vals := granule_vals os', lacing_fill := ?lf + length (v # sizes), lacing_packet := lacing_packet os'\<rparr>"
    by (subst e) (simp add: assms(4))
  have n: "\<exists>new. map seg_len new = v # sizes \<and> (\<forall>v \<in> set new. \<not> bit v 10) \<and>
      take (?lf + length (v # sizes)) (lacing_vals os') = take ?lf (lacing_vals os) @ new"
    by (rule exI [of _ "w # new"]) (use new assms(5,6) t in simp)
  have p: "lacing_packet os \<le> lacing_packet os'" using lp(1) os1(4) assms(3) by (auto split: if_splits)
  have d: "lacing_packet os' = lacing_packet os \<or> ?lf < lacing_packet os' \<and> seg_len (lacing_vals os' ! (lacing_packet os' - 1)) < 255"
    using lp(3) os1(4) w assms(5) by (auto split: if_splits)
  have f: "\<forall>i. ?lf \<le> i \<and> lacing_packet os' \<le> i \<and> i < lacing_fill os' \<longrightarrow> seg_len (lacing_vals os' ! i) = 255"
  proof (intro allI impI, elim conjE)
    fix i assume i: "?lf \<le> i" "lacing_packet os' \<le> i" "i < lacing_fill os'"
    show "seg_len (lacing_vals os' ! i) = 255"
    proof (cases "i = ?lf")
      case True
      then have "\<not> v < 255" using i(2) lp(1) os1(4) by auto
      then show ?thesis using True w assms(5,7) by simp
    next
      case False
      with i full show ?thesis by simp
    qed
  qed
  show ?thesis unfolding stored_def using eq l n p lp(2) d f by blast
qed

lemma store_segments:
  assumes "lacing_fill os + left \<le> length (lacing_vals os)" "lacing_packet os \<le> lacing_fill os"
    and "store_segments h left segptr bos saved os = (saved', os')"
  shows "stored (map (\<lambda>i. unat (h ! (27 + i))) [segptr..<segptr + left]) os os' \<and>
    (saved' = saved \<or> (\<exists>k. saved' = Some k \<and> k < lacing_fill os'))"
  using assms
proof (induction left arbitrary: segptr bos saved os)
  case 0
  then show ?case by (simp add: stored_none)
next
  case (Suc left)
  let ?v = "unat (h ! (27 + segptr))" and ?lf = "lacing_fill os"
  let ?w = "if bos \<noteq> 0 then ?v OR 0x100 else ?v"
  let ?os = "os\<lparr>lacing_vals := (lacing_vals os)[?lf := ?w], granule_vals := (granule_vals os)[?lf := -1],
      lacing_fill := ?lf + 1, lacing_packet := if ?v < 255 then ?lf + 1 else lacing_packet os\<rparr>"
  have v: "?v \<le> 255" using unsigned_less [of "h ! (27 + segptr)", where ?'a = nat] by simp
  have w: "seg_len ?w = ?v" "\<not> bit ?w 10" using v by (simp_all add: bit_flags byte_no_hole)
  have run: "store_segments h left (segptr + 1) 0 (if ?v < 255 then Some ?lf else saved) ?os = (saved', os')"
    using Suc.prems(3) by (simp add: Let_def split: if_splits)
  have fit: "lacing_fill ?os + left \<le> length (lacing_vals ?os)" "lacing_packet ?os \<le> lacing_fill ?os"
    using Suc.prems(1,2) by simp_all
  have IH: "stored (map (\<lambda>i. unat (h ! (27 + i))) [segptr + 1..<segptr + 1 + left]) ?os os'"
    "saved' = (if ?v < 255 then Some ?lf else saved) \<or> (\<exists>k. saved' = Some k \<and> k < lacing_fill os')"
    using Suc.IH [OF fit run] by blast+
  have "?lf < length (lacing_vals os)" using Suc.prems(1) by simp
  from stored_one [OF IH(1) this Suc.prems(2) refl w(1) w(2) v]
  have st: "stored (?v # map (\<lambda>i. unat (h ! (27 + i))) [segptr + 1..<segptr + 1 + left]) os os'" .
  moreover have "[segptr..<segptr + Suc left] = segptr # [segptr + 1..<segptr + 1 + left]"
    by (simp add: upt_conv_Cons)
  moreover have "?lf < lacing_fill os'"
    using stored_fields(1) [OF st] by simp
  ultimately show ?case using IH(2) by (auto split: if_splits)
qed

section \<open>Pages in\<close>

lemma map_seg_upt: "a \<le> b \<Longrightarrow> b \<le> length xs \<Longrightarrow> map (\<lambda>i. xs ! i AND 0xff) [a..<b] = map seg_len (drop a (take b xs))"
  by (intro nth_equalityI) (simp_all add: seg_len_def)

lemma map_drop_take_eq:
  "n \<le> length xs \<Longrightarrow> length ys = length xs \<Longrightarrow> (\<And>i. f (ys ! i) = f (xs ! i)) \<Longrightarrow> map f (drop r (take n ys)) = map f (drop r (take n xs))"
  by (intro nth_equalityI) simp_all

text \<open>The state after the body and the segments have been stored, whatever became of the other flags.\<close>

lemma decoder_stored:
  assumes dec: "decoder os" and fit: "body_fill os + length bs \<le> body_storage os" "lacing_fill os + length sizes \<le> lacing_storage os"
    and sum: "sum_list sizes = length bs"
    and st: "stored sizes (os\<lparr>body_data := wr (body_fill os) bs (body_data os), body_fill := body_fill os + length bs\<rparr>) os2"
    and os3: "lacing_fill os3 = lacing_fill os2" "lacing_packet os3 = lacing_packet os2" "lacing_returned os3 = lacing_returned os2"
      "lacing_storage os3 = lacing_storage os2" "length (lacing_vals os3) = length (lacing_vals os2)"
      "length (granule_vals os3) = length (granule_vals os2)" "body_data os3 = body_data os2" "body_storage os3 = body_storage os2"
      "body_fill os3 = body_fill os2" "body_returned os3 = body_returned os2" "stream_header os3 = stream_header os2"
      "\<And>i. seg_len (lacing_vals os3 ! i) = seg_len (lacing_vals os2 ! i)" "\<And>i. bit (lacing_vals os3 ! i) 10 = bit (lacing_vals os2 ! i) 10"
  shows "decoder os3" "queued os3 = queued os @ sizes" "pending_body os3 = pending_body os @ bs" "no_holes os \<Longrightarrow> no_holes os3"
    "lacing_packet os3 < lacing_fill os3 \<longleftrightarrow> (if sizes = [] then lacing_packet os < lacing_fill os else last sizes = 255)"
proof -
  note i = stream_invD [OF decoder_inv [OF dec]] and f = stored_fields [OF st, simplified]
  let ?lf = "lacing_fill os" and ?n = "length sizes"
  obtain new where new: "map seg_len new = sizes" "\<forall>v \<in> set new. \<not> bit v 10"
    "take (?lf + ?n) (lacing_vals os2) = take ?lf (lacing_vals os) @ new"
    and l: "length (lacing_vals os2) = length (lacing_vals os)" "length (granule_vals os2) = length (granule_vals os)"
    and lp: "lacing_packet os \<le> lacing_packet os2" "lacing_packet os2 \<le> lacing_fill os2"
      "lacing_packet os2 = lacing_packet os \<or> ?lf < lacing_packet os2 \<and> seg_len (lacing_vals os2 ! (lacing_packet os2 - 1)) < 255"
    and full: "\<And>i. ?lf \<le> i \<Longrightarrow> lacing_packet os2 \<le> i \<Longrightarrow> i < lacing_fill os2 \<Longrightarrow> seg_len (lacing_vals os2 ! i) = 255"
    using st unfolding stored_def by auto
  have lv: "lacing_vals os2 ! j = (take ?lf (lacing_vals os) @ new) ! j" if "j < ?lf + ?n" for j
    unfolding new(3) [symmetric] using that by simp
  have old: "lacing_vals os2 ! j = lacing_vals os ! j" if "j < ?lf" for j
    using lv [of j] that i(3,9) by (simp add: nth_append)
  have segs2: "segments os2 = segments os @ new"
    using new(3) i by (simp add: segments_def f)
  have len3: "lacing_fill os3 \<le> length (lacing_vals os3)" using os3(1,5) f l i fit(2) by simp
  have q: "queued os3 = map seg_len (segments os2)"
    unfolding queued_def segments_def os3(1,3)
    by (rule map_drop_take_eq) (use len3 os3(1,5,12) in simp_all)
  then show queue: "queued os3 = queued os @ sizes" by (simp add: segs2 new(1) queued_def)
  have pb: "rd 0 (body_fill os + length bs) (wr (body_fill os) bs (body_data os)) = take (body_fill os) (body_data os) @ bs"
    using i(2) fit(1) by (simp add: rd_def wr_def)
  have "drop (body_returned os) (take (body_fill os + length bs) (wr (body_fill os) bs (body_data os))) =
      drop (body_returned os) (take (body_fill os) (body_data os)) @ bs"
    using i(2,5,6) fit(1) by (simp add: wr_def)
  then show body: "pending_body os3 = pending_body os @ bs"
    using i(5) by (simp add: pending_body_def rd_def os3(7-10) f take_drop)
  have image: "(\<lambda>v. (seg_len v, bit v 10)) ` set (segments os3) = (\<lambda>v. (seg_len v, bit v 10)) ` set (segments os2)"
    unfolding segments_def os3(1,3) set_map [symmetric]
    by (rule arg_cong [of _ _ set], rule map_drop_take_eq) (use len3 os3(1,5,12,13) in simp_all)
  have pair: "\<exists>w \<in> set (segments os2). seg_len v = seg_len w \<and> bit v 10 = bit w 10" if "v \<in> set (segments os3)" for v
  proof -
    have "(seg_len v, bit v 10) \<in> (\<lambda>v. (seg_len v, bit v 10)) ` set (segments os2)"
      unfolding image [symmetric] using that by (rule imageI)
    then show ?thesis by auto
  qed
  show "no_holes os3" if "no_holes os"
    unfolding no_holes_def
  proof
    fix v assume "v \<in> set (segments os3)"
    then obtain w where "w \<in> set (segments os2)" "bit v 10 = bit w 10" using pair by blast
    then show "\<not> bit v 10" using that new(2) by (auto simp: segs2 no_holes_def)
  qed
  have holes: "seg_len v = 0" if v: "v \<in> set (segments os3)" "bit v 10" for v
  proof -
    obtain w where w: "w \<in> set (segments os2)" "seg_len v = seg_len w" "bit v 10 = bit w 10" using pair [OF v(1)] by blast
    then have "w \<in> set (segments os)" using v(2) new(2) by (auto simp: segs2)
    then show ?thesis using decoder_hole [OF dec] w v(2) by simp
  qed
  have "sum_list (map seg_len (segments os3)) = body_fill os3 - body_returned os3"
    using queue i(10) i(5) sum by (simp add: queued_def os3 f)
  moreover have "wr (body_fill os) bs (body_data os) \<noteq> []" using i(1,2) fit(1) by (auto simp: wr_def)
  ultimately have "stream_inv os3"
    using i os3(1-11) f l fit lp unfolding stream_inv_def by simp
  then show "decoder os3"
  proof (rule decoderI)
    show "seg_len (lacing_vals os3 ! (lacing_packet os3 - 1)) < 255" if "lacing_packet os3 \<noteq> lacing_returned os3"
    proof (cases "lacing_packet os2 = lacing_packet os")
      case True
      then have "lacing_packet os - 1 < ?lf" using that os3(2,3) f i(7,8) by linarith
      then show ?thesis using that True old dec by (simp add: os3(2,3,12) f decoder_def)
    next
      case False
      then show ?thesis using lp(3) by (simp add: os3(2,12))
    qed
    show "seg_len (lacing_vals os3 ! j) = 255" if "lacing_packet os3 \<le> j" "j < lacing_fill os3" for j
    proof (cases "?lf \<le> j")
      case True
      with full that show ?thesis by (simp add: os3(1,2,12))
    next
      case False
      then show ?thesis using that lp(1) old dec by (simp add: os3(2,12) decoder_def)
    qed
  qed (rule holes)
  show "lacing_packet os3 < lacing_fill os3 \<longleftrightarrow> (if sizes = [] then lacing_packet os < lacing_fill os else last sizes = 255)"
  proof (cases "sizes = []")
    case True
    then have "lacing_fill os2 = ?lf" using f by simp
    then show ?thesis using True lp by (auto simp: os3(1,2))
  next
    case False
    then have ne: "new \<noteq> []" "?n \<noteq> 0" using new(1) by auto
    have last: "seg_len (lacing_vals os2 ! (?lf + ?n - 1)) = last sizes"
    proof -
      have n: "length new = ?n" using new(1) by auto
      have idx: "length (take ?lf (lacing_vals os)) + (?n - 1) = ?lf + ?n - 1" using False i(3,9) by (cases sizes) simp_all
      have "lacing_vals os2 ! (?lf + ?n - 1) = (take ?lf (lacing_vals os) @ new) ! (?lf + ?n - 1)"
        by (rule lv) (use ne(2) in simp)
      also have "\<dots> = new ! (?n - 1)" unfolding idx [symmetric] by (rule nth_append_length_plus)
      also have "\<dots> = last new" by (simp add: last_conv_nth [OF ne(1)] n)
      finally have "lacing_vals os2 ! (?lf + ?n - 1) = last new" .
      moreover have "last sizes = seg_len (last new)" unfolding new(1) [symmetric] by (rule last_map [OF ne(1)])
      ultimately show ?thesis by simp
    qed
    show ?thesis
    proof (cases "lacing_packet os2 < lacing_fill os2")
      case True
      have pos: "1 \<le> ?n" using False by (cases sizes) simp_all
      then have c: "?lf \<le> ?lf + ?n - 1" "lacing_packet os2 \<le> ?lf + ?n - 1" "?lf + ?n - 1 < lacing_fill os2"
        using True f(1) by linarith+
      from full [OF c] have "seg_len (lacing_vals os2 ! (?lf + ?n - 1)) = 255" .
      then show ?thesis using True False last by (simp add: os3(1,2))
    next
      case le: False
      then have eq: "lacing_packet os2 = ?lf + ?n" using lp(2) f by simp
      then have "seg_len (lacing_vals os2 ! (?lf + ?n - 1)) < 255" using lp(3) i(8) ne(2) by auto
      then show ?thesis using le False last by (simp add: os3(1,2))
    qed
  qed
qed

lemma page_store:
  assumes dec: "decoder os" and fit: "body_fill os + (body_len og - skipped) \<le> body_storage os"
    "lacing_fill os + (unat (header og ! 26) - p) \<le> lacing_storage os"
    and p: "p \<le> unat (header og ! 26)" and sum: "sum_list (page_sizes og p) = body_len og - skipped"
    and len: "skipped + (body_len og - skipped) \<le> length (body og)"
    and run: "os' = page_store og p skipped bos os"
  shows "decoder os'" "queued os' = queued os @ page_sizes og p"
    "pending_body os' = pending_body os @ rd skipped (body_len og - skipped) (body og)" "no_holes os \<Longrightarrow> no_holes os'"
    "lacing_packet os' < lacing_fill os' \<longleftrightarrow> (if page_sizes og p = [] then lacing_packet os < lacing_fill os else last (page_sizes og p) = 255)"
    "serialno os' = serialno os"
proof -
  let ?bs = "rd skipped (body_len og - skipped) (body og)" and ?left = "unat (header og ! 26) - p"
  let ?os1 = "os\<lparr>body_data := wr (body_fill os) ?bs (body_data os), body_fill := body_fill os + length ?bs\<rparr>"
  have b: "length ?bs = body_len og - skipped" using len by simp
  note i = stream_invD [OF decoder_inv [OF dec]]
  obtain saved os2 where s: "store_segments (header og) ?left p bos None ?os1 = (saved, os2)" by fastforce
  have sizes: "map (\<lambda>i. unat (header og ! (27 + i))) [p..<p + ?left] = page_sizes og p" using p by (simp add: page_sizes_def)
  have st: "stored (page_sizes og p) ?os1 os2"
    using store_segments [OF _ _ s] fit(2) i sizes by simp
  note f = stored_fields [OF st, simplified]
  let ?os2 = "case saved of None \<Rightarrow> os2 | Some k \<Rightarrow> os2\<lparr>granule_vals := (granule_vals os2)[k := ogg_page_granulepos og]\<rparr>"
  have c: "os' = (if ogg_page_eos og \<noteq> 0
      then let os = ?os2\<lparr>e_o_s := 1\<rparr> in
        if lacing_fill os > 0
        then os\<lparr>lacing_vals := (lacing_vals os)[lacing_fill os - 1 := lacing_vals os ! (lacing_fill os - 1) OR 0x200]\<rparr> else os
      else ?os2)"
    using run s b by (simp add: page_store_def Let_def split: option.splits)
  have n: "seg_len (xs[k := xs ! k OR 0x200] ! j) = seg_len (xs ! j)" "bit (xs[k := xs ! k OR 0x200] ! j) 10 = bit (xs ! j) 10"
    for xs :: "nat list" and k j
    using bit_flags(2) [of "xs ! k"] by (cases "k < length xs"; cases "j = k"; simp add: list_update_beyond)+
  have len: "length (page_sizes og p) = ?left" using sizes by (metis length_map length_upt add_diff_cancel_left')
  have fits: "body_fill os + length ?bs \<le> body_storage os" "lacing_fill os + length (page_sizes og p) \<le> lacing_storage os"
    using fit b len by simp_all
  have os3: "lacing_fill os' = lacing_fill os2" "lacing_packet os' = lacing_packet os2" "lacing_returned os' = lacing_returned os2"
      "lacing_storage os' = lacing_storage os2" "length (lacing_vals os') = length (lacing_vals os2)"
      "length (granule_vals os') = length (granule_vals os2)" "body_data os' = body_data os2" "body_storage os' = body_storage os2"
      "body_fill os' = body_fill os2" "body_returned os' = body_returned os2" "stream_header os' = stream_header os2"
      "\<And>j. seg_len (lacing_vals os' ! j) = seg_len (lacing_vals os2 ! j)" "\<And>j. bit (lacing_vals os' ! j) 10 = bit (lacing_vals os2 ! j) 10"
    by (auto simp: c n Let_def split: option.splits if_splits)
  note d = decoder_stored [OF dec fits _ st os3]
  show "decoder os'" "queued os' = queued os @ page_sizes og p" "pending_body os' = pending_body os @ ?bs" "no_holes os \<Longrightarrow> no_holes os'"
    "lacing_packet os' < lacing_fill os' \<longleftrightarrow> (if page_sizes og p = [] then lacing_packet os < lacing_fill os else last (page_sizes og p) = 255)"
    using d sum b by simp_all
  show "serialno os' = serialno os" using f by (auto simp: c Let_def split: option.splits if_splits)
qed

lemma page_gap:
  assumes dec: "decoder os" and room: "lacing_packet os < lacing_storage os"
  shows "decoder (page_gap os)" "lacing_fill (page_gap os) \<le> lacing_fill os + 1" "lacing_storage (page_gap os) = lacing_storage os"
    "serialno (page_gap os) = serialno os" "body_storage (page_gap os) = body_storage os"
proof -
  note i = stream_invD [OF decoder_inv [OF dec]]
  let ?lp = "lacing_packet os" and ?lost = "sum_list (map (\<lambda>i. lacing_vals os ! i AND 0xff) [lacing_packet os..<lacing_fill os])"
  have lost: "?lost = sum_list (map seg_len (drop ?lp (take (lacing_fill os) (lacing_vals os))))"
    using i by (subst map_seg_upt) simp_all
  have split: "segments os = drop (lacing_returned os) (take ?lp (lacing_vals os)) @ drop ?lp (take (lacing_fill os) (lacing_vals os))"
  proof -
    have "take (lacing_fill os) (lacing_vals os) = take ?lp (lacing_vals os) @ drop ?lp (take (lacing_fill os) (lacing_vals os))"
      using i(8) by (metis append_take_drop_id min.absorb1 take_take)
    moreover have "lacing_returned os \<le> length (take ?lp (lacing_vals os))" using i by simp
    ultimately show ?thesis unfolding segments_def by (metis append_Nil2 diff_is_0_eq drop_0 drop_append)
  qed
  have sum: "sum_list (map seg_len (drop (lacing_returned os) (take ?lp (lacing_vals os)))) = body_fill os - ?lost - body_returned os"
    "body_returned os \<le> body_fill os - ?lost"
    using i(10) i(5) unfolding split lost by simp_all
  let ?os1 = "os\<lparr>body_fill := body_fill os - ?lost, lacing_fill := ?lp\<rparr>"
  have "stream_inv ?os1" using i sum unfolding stream_inv_def by (simp add: segments_def)
  moreover have h1: "seg_len v = 0" if "v \<in> set (drop (lacing_returned os) (take ?lp (lacing_vals os)))" "bit v 10" for v
    using decoder_hole [OF dec, of v] that by (simp add: split)
  ultimately have d1: "decoder ?os1" using dec by (intro decoderI) (simp_all add: decoder_def segments_def)
  let ?os2 = "?os1\<lparr>lacing_vals := (lacing_vals os)[?lp := 0x400], lacing_fill := ?lp + 1, lacing_packet := ?lp + 1\<rparr>"
  have t: "take (?lp + 1) ((lacing_vals os)[?lp := 0x400]) = take ?lp (lacing_vals os) @ [0x400]"
    using room i(3) by (simp add: take_Suc_conv_app_nth)
  have "sum_list (map seg_len (segments ?os2)) = body_fill os - ?lost - body_returned os"
    using t i(3,7) room sum(1) by (simp add: segments_def)
  then have "stream_inv ?os2" using i sum(2) room unfolding stream_inv_def by simp
  moreover have "seg_len v = 0" if "v \<in> set (segments ?os2)" "bit v 10" for v
  proof (cases "v = 0x400")
    case False
    then show ?thesis using that h1 t i(3,7) room by (auto simp: segments_def)
  qed simp
  ultimately have d2: "decoder ?os2" using room i(3) by (intro decoderI) (simp_all)
  show "decoder (page_gap os)" using d1 d2 by (simp add: page_gap_def Let_def)
  show "lacing_fill (page_gap os) \<le> lacing_fill os + 1" "lacing_storage (page_gap os) = lacing_storage os"
    "serialno (page_gap os) = serialno os" "body_storage (page_gap os) = body_storage os" using i(8) by (simp_all add: page_gap_def Let_def)
qed

lemma skip_continued:
  "skip_continued h left p s = (p', s') \<Longrightarrow>
     p \<le> p' \<and> p' \<le> p + left \<and> s' = s + sum_list (map (\<lambda>i. unat (h ! (27 + i))) [p..<p'])"
proof (induction left arbitrary: p s)
  case (Suc left)
  let ?v = "unat (h ! (27 + p))"
  show ?case
  proof (cases "?v < 255")
    case True
    with Suc.prems show ?thesis by auto
  next
    case False
    then have "skip_continued h left (p + 1) (s + ?v) = (p', s')" using Suc.prems by simp
    from Suc.IH [OF this] show ?thesis by (simp add: upt_conv_Cons)
  qed
qed simp

text \<open>A page whose segments sum up to its body keeps the invariant, or the stream is lost for lack of memory.\<close>

definition sized_page :: "ogg_page \<Rightarrow> bool" where
  "sized_page og \<longleftrightarrow> body_len og = sum_list (page_sizes og 0) \<and> body_len og \<le> length (body og) \<and> body_len og \<le> LONG_MAX"

lemma page_sizes_split: "p \<le> unat (header og ! 26) \<Longrightarrow>
    sum_list (page_sizes og 0) = sum_list (map (\<lambda>i. unat (header og ! (27 + i))) [0..<p]) + sum_list (page_sizes og p)"
  using upt_add_eq_append [of 0 p "unat (header og ! 26) - p"] by (simp add: page_sizes_def)

lemma body_expand_lacing:
  "os_body_expand alloc os n = (0, os') \<Longrightarrow>
     lacing_fill os' = lacing_fill os \<and> lacing_vals os' = lacing_vals os \<and> lacing_storage os' = lacing_storage os"
  by (auto simp: os_body_expand_def Let_def split: if_splits)

lemma pagein:
  assumes dec: "decoder os" and og: "sized_page og" and run: "ogg_stream_pagein alloc os og = (r, os')"
  shows "r = 0 \<and> decoder os' \<and> serialno os' = serialno os \<and> pageno os' = ogg_page_pageno og + 1 \<and>
      ogg_page_serialno og = serialno os \<and>
      (ogg_page_pageno og = pageno os \<and> (ogg_page_continued og = 0 \<or> lacing_packet os < lacing_fill os) \<longrightarrow>
        queued os' = queued os @ page_sizes og 0 \<and> pending_body os' = pending_body os @ take (body_len og) (body og) \<and>
        (no_holes os \<longrightarrow> no_holes os') \<and>
        (lacing_packet os' < lacing_fill os' \<longleftrightarrow>
          (if page_sizes og 0 = [] then lacing_packet os < lacing_fill os else last (page_sizes og 0) = 255))) \<or>
    r = -1 \<and> (decoder os' \<or> os' = zero_stream)"
proof -
  let ?segs = "unat (header og ! 26)" and ?os1 = "drop_returned_lacing (drop_returned_body os)"
  note d = drop_returned_both [OF dec]
  obtain r2 os2 where e2: "os_lacing_expand alloc ?os1 (?segs + 1) = (r2, os2)" by fastforce
  define os3 where "os3 = (if ogg_page_pageno og \<noteq> pageno os2 then page_gap os2 else os2)"
  define lost where "lost \<longleftrightarrow> ogg_page_continued og \<noteq> 0 \<and> (lacing_fill os3 < 1 \<or> lacing_vals os3 ! (lacing_fill os3 - 1) = 0x400)"
  obtain p skipped where sk: "(if lost then skip_continued (header og) ?segs 0 0 else (0, 0)) = (p, skipped)" by fastforce
  obtain r4 os4 where e4: "(if body_len og - skipped \<noteq> 0 then os_body_expand alloc os3 (body_len og - skipped) else (0, os3)) = (r4, os4)"
    by fastforce
  have run': "(r, os') = (if ogg_page_serialno og \<noteq> serialno os then (-1, ?os1)
      else if ogg_page_version og > 0 then (-1, ?os1)
      else if r2 \<noteq> 0 then (-1, os2)
      else if r4 \<noteq> 0 then (-1, os4)
      else (0, (page_store og p skipped (if lost then 0 else ogg_page_bos og) os4)\<lparr>pageno := ogg_page_pageno og + 1\<rparr>))"
    using run d(6) stream_inv_check [OF decoder_inv [OF dec]]
    by (simp only: ogg_stream_pagein_def Let_def e2 prod.case flip: os3_def)
      (simp only: simp_thms if_False if_cancel not_False_eq_True flip: lost_def cong: if_cong, simp only: sk prod.case e4)
  have "?segs \<le> 255" using unsigned_less [of "header og ! 26", where ?'a = nat] by simp
  then have "?segs + 1 \<le> LONG_MAX" by simp
  from lacing_expand [OF decoder_inv [OF d(1)] this e2] show ?thesis
  proof (elim disjE conjE)
    assume "r2 = -1" "os2 = zero_stream"
    then show ?thesis using run' d(1) by (auto split: if_splits)
  next
    assume r2: "r2 = 0" and inv2: "stream_inv os2" and room2: "lacing_fill os2 + (?segs + 1) \<le> lacing_storage os2"
      and f2: "lacing_fill os2 = lacing_fill ?os1" "take (lacing_fill ?os1) (lacing_vals os2) = take (lacing_fill ?os1) (lacing_vals ?os1)"
        "body_storage os2 = body_storage ?os1" and q2: "segments os2 = segments ?os1" "pending_body os2 = pending_body ?os1"
      and m2: "same_meta ?os1 os2"
    have dec2: "decoder os2"
      by (rule decoder_transfer [OF d(1) inv2]) (use m2 f2 in \<open>simp_all add: same_meta_def\<close>)
    have lp2: "lacing_packet os2 < lacing_storage os2" using room2 stream_invD(8) [OF inv2] by linarith
    have ser2: "serialno os2 = serialno os" "pageno os2 = pageno os" using m2 d(6,7) by (simp_all add: same_meta_def)
    note g = page_gap [OF dec2 lp2]
    have dec3: "decoder os3" and room3: "lacing_fill os3 + ?segs \<le> lacing_storage os3" and ser3: "serialno os3 = serialno os"
      using g dec2 room2 ser2 by (auto simp: os3_def)
    have p: "p \<le> ?segs" "skipped = sum_list (map (\<lambda>i. unat (header og ! (27 + i))) [0..<p])"
      using sk skip_continued [of "header og" ?segs 0 0 p skipped] by (auto split: if_splits)
    have sum: "sum_list (page_sizes og p) = body_len og - skipped" "skipped \<le> body_len og"
      using page_sizes_split [OF p(1)] og p(2) by (simp_all add: sized_page_def)
    have bl: "body_len og - skipped \<le> LONG_MAX" "skipped + (body_len og - skipped) \<le> length (body og)"
      using og sum(2) unfolding sized_page_def by linarith+
    have x: "r4 = 0 \<and> decoder os4 \<and> lacing_fill os4 = lacing_fill os3 \<and> lacing_storage os4 = lacing_storage os3 \<and>
        lacing_packet os4 = lacing_packet os3 \<and> body_fill os4 + (body_len og - skipped) \<le> body_storage os4 \<and>
        segments os4 = segments os3 \<and> pending_body os4 = pending_body os3 \<and> serialno os4 = serialno os \<or> r4 = -1 \<and> os4 = zero_stream"
    proof (cases "body_len og - skipped = 0")
      case True
      then show ?thesis using e4 dec3 ser3 stream_invD(6) [OF decoder_inv [OF dec3]] by simp
    next
      case False
      then have e: "os_body_expand alloc os3 (body_len og - skipped) = (r4, os4)" using e4 by simp
      from body_expand [OF decoder_inv [OF dec3] bl(1) e] show ?thesis
      proof (elim disjE conjE)
        assume r4: "r4 = 0" and inv4: "stream_inv os4" and "body_fill os4 + (body_len og - skipped) \<le> body_storage os4"
          and q: "segments os4 = segments os3" "pending_body os4 = pending_body os3" and m: "same_meta os3 os4"
        moreover have l: "lacing_fill os4 = lacing_fill os3" "lacing_vals os4 = lacing_vals os3" "lacing_storage os4 = lacing_storage os3"
          using body_expand_lacing e r4 by blast+
        moreover have "decoder os4"
          by (rule decoder_transfer [OF dec3 inv4]) (use m l in \<open>simp_all add: same_meta_def\<close>)
        ultimately show ?thesis using ser3 by (simp add: same_meta_def)
      qed simp
    qed
    then show ?thesis
    proof (elim disjE conjE)
      assume "r4 = -1" "os4 = zero_stream"
      then show ?thesis using run' r2 d(1) by (auto split: if_splits)
    next
      assume r4: "r4 = 0" and dec4: "decoder os4" and f4: "lacing_fill os4 = lacing_fill os3" "lacing_storage os4 = lacing_storage os3"
        "lacing_packet os4 = lacing_packet os3" and room4: "body_fill os4 + (body_len og - skipped) \<le> body_storage os4"
        and q4: "segments os4 = segments os3" "pending_body os4 = pending_body os3" and ser4: "serialno os4 = serialno os"
      have room4': "lacing_fill os4 + (?segs - p) \<le> lacing_storage os4" using room3 f4 by simp
      note s = page_store [OF dec4 room4 room4' p(1) sum(1) bl(2) refl, of "if lost then 0 else ogg_page_bos og"]
      let ?s = "page_store og p skipped (if lost then 0 else ogg_page_bos og) os4"
      have fin: "decoder (?s\<lparr>pageno := x\<rparr>)" "queued (?s\<lparr>pageno := x\<rparr>) = queued ?s" "pending_body (?s\<lparr>pageno := x\<rparr>) = pending_body ?s"
        "no_holes (?s\<lparr>pageno := x\<rparr>) = no_holes ?s" for x
        using s(1) by (simp_all add: decoder_def stream_inv_def queued_def segments_def pending_body_def no_holes_def)
      have insync: "queued ?s = queued os @ page_sizes og 0 \<and> pending_body ?s = pending_body os @ take (body_len og) (body og) \<and>
          (no_holes os \<longrightarrow> no_holes ?s) \<and> (lacing_packet ?s < lacing_fill ?s \<longleftrightarrow>
          (if page_sizes og 0 = [] then lacing_packet os < lacing_fill os else last (page_sizes og 0) = 255))"
        if "ogg_page_pageno og = pageno os" "ogg_page_continued og = 0 \<or> lacing_packet os < lacing_fill os"
      proof -
        have os3: "os3 = os2" using that(1) ser2 by (simp add: os3_def)
        have lp: "lacing_packet os2 < lacing_fill os2 \<longleftrightarrow> lacing_packet os < lacing_fill os"
          using m2 f2(1) d(8) by (simp add: same_meta_def)
        have "\<not> lost"
        proof
          assume l: "lost"
          then have "lacing_packet os2 < lacing_fill os2" using that(2) lp by (auto simp: lost_def)
          moreover from this have "seg_len (lacing_vals os2 ! (lacing_fill os2 - 1)) = 255"
            using dec2 by (simp add: decoder_def)
          ultimately show False using l by (auto simp: lost_def os3)
        qed
        then have z: "p = 0" "skipped = 0" using sk by simp_all
        have "segments os4 = segments os" "pending_body os4 = pending_body os" using q4 q2 d(4,5) os3 by simp_all
        then show ?thesis using s(2-5) lp f4 by (simp add: z rd_def queued_def no_holes_def os3)
      qed
      show ?thesis
      proof (cases "ogg_page_serialno og \<noteq> serialno os \<or> ogg_page_version og > 0")
        case True
        then show ?thesis using run' d(1) by (auto split: if_splits)
      next
        case False
        then have "r = 0" "os' = ?s\<lparr>pageno := ogg_page_pageno og + 1\<rparr>" using run' r2 r4 by simp_all
        then show ?thesis using fin s(6) ser4 insync False by simp
      qed
    qed
  qed
qed

section \<open>Packets out\<close>

lemma gather:
  "ptr \<le> k \<Longrightarrow> (\<And>j. ptr \<le> j \<Longrightarrow> j < k \<Longrightarrow> seg_len (lv ! j) = 255) \<Longrightarrow> seg_len (lv ! k) < 255 \<Longrightarrow>
     \<exists>eos'. gather lv ptr (seg_len (lv ! ptr)) bytes eos = Some (k, bytes + sum_list (map (\<lambda>i. seg_len (lv ! i)) [ptr + 1..<k + 1]), eos')"
proof (induction "k - ptr" arbitrary: ptr bytes eos)
  case 0
  then have "ptr = k" by simp
  with 0 show ?case by (subst gather.simps) simp
next
  case (Suc d)
  then have p: "ptr < k" "d = k - (ptr + 1)" "ptr + 1 \<le> k" by linarith+
  have full: "seg_len (lv ! ptr) = 255" using Suc.prems(2) p(1) by simp
  let ?eos = "if lv ! (ptr + 1) AND 0x200 \<noteq> 0 then 0x200 else eos"
  have "gather lv ptr (seg_len (lv ! ptr)) bytes eos = gather lv (ptr + 1) (seg_len (lv ! (ptr + 1))) (bytes + seg_len (lv ! (ptr + 1))) ?eos"
    by (subst gather.simps) (simp add: full [unfolded seg_len_def] Let_def seg_len_def)
  moreover obtain eos' where "gather lv (ptr + 1) (seg_len (lv ! (ptr + 1))) (bytes + seg_len (lv ! (ptr + 1))) ?eos =
      Some (k, bytes + seg_len (lv ! (ptr + 1)) + sum_list (map (\<lambda>i. seg_len (lv ! i)) [ptr + 1 + 1..<k + 1]), eos')"
    using Suc.hyps(1) [OF p(2,3) Suc.prems(2) Suc.prems(3)] by fastforce
  moreover have "[ptr + 1..<k + 1] = (ptr + 1) # [ptr + 1 + 1..<k + 1]" using p(1) by (simp add: upt_conv_Cons)
  ultimately show ?case by (simp add: add.assoc)
qed

lemma lacing_full: "m < 255 \<Longrightarrow> lacing (255 * j + m) = replicate j 255 @ [m]"
  by (simp add: lacing_def)

text \<open>The first packet of the queue ends where the first short segment is.\<close>

lemma first_packet:
  assumes "decoder os" "lacing_returned os < lacing_packet os"
  obtains k where "lacing_returned os \<le> k" "k < lacing_packet os" "seg_len (lacing_vals os ! k) < 255"
    "\<And>j. lacing_returned os \<le> j \<Longrightarrow> j < k \<Longrightarrow> seg_len (lacing_vals os ! j) = 255"
proof -
  let ?P = "\<lambda>k. lacing_returned os \<le> k \<and> seg_len (lacing_vals os ! k) < 255"
  have last: "?P (lacing_packet os - 1)" using assms by (auto simp: decoder_def)
  define k where "k = (LEAST k. ?P k)"
  have k: "?P k" unfolding k_def using last by (rule LeastI)
  have "k \<le> lacing_packet os - 1" unfolding k_def using last by (rule Least_le)
  then have "k < lacing_packet os" using assms(2) by linarith
  moreover have "seg_len (lacing_vals os ! j) = 255" if "lacing_returned os \<le> j" "j < k" for j
  proof -
    have "\<not> ?P j" using that(2) unfolding k_def by (rule not_less_Least)
    then have "\<not> seg_len (lacing_vals os ! j) < 255" using that(1) by blast
    then show ?thesis using seg_len_less(2) [of "lacing_vals os ! j"] by linarith
  qed
  ultimately show ?thesis using that k by blast
qed

definition packet_of :: "ogg_packet \<Rightarrow> bytes" where
  "packet_of op = take (op_bytes op) (op_packet op)"

lemma returned_step:
  assumes dec: "decoder os" and k: "lacing_returned os \<le> k" "k < lacing_packet os"
    and n: "n = sum_list (map (\<lambda>i. seg_len (lacing_vals os ! i)) [lacing_returned os..<k + 1])"
    and os': "os' = os\<lparr>body_returned := body_returned os + n, lacing_returned := k + 1, packetno := packetno os + 1\<rparr>"
  shows "decoder os'" "queued os = map (\<lambda>i. seg_len (lacing_vals os ! i)) [lacing_returned os..<k + 1] @ queued os'"
    "pending_body os = take n (drop (body_returned os) (body_data os)) @ pending_body os'"
    "length (take n (drop (body_returned os) (body_data os))) = n" "no_holes os \<Longrightarrow> no_holes os'"
proof -
  note i = stream_invD [OF decoder_inv [OF dec]]
  let ?lr = "lacing_returned os" and ?xs = "take (lacing_fill os) (lacing_vals os)"
  have split: "drop ?lr ?xs = take (k + 1 - ?lr) (drop ?lr ?xs) @ drop (k + 1) ?xs"
    using k(1) append_take_drop_id [of "k + 1 - ?lr" "drop ?lr ?xs"] by simp
  have head: "take (k + 1 - ?lr) (drop ?lr ?xs) = map (\<lambda>i. lacing_vals os ! i) [?lr..<k + 1]"
    using k i by (intro nth_equalityI) (simp_all del: upt_Suc)
  have q: "queued os = map (\<lambda>i. seg_len (lacing_vals os ! i)) [?lr..<k + 1] @ queued os'"
    using split unfolding head by (simp add: queued_def segments_def os' comp_def del: upt_Suc)
  then show "queued os = map (\<lambda>i. seg_len (lacing_vals os ! i)) [?lr..<k + 1] @ queued os'" .
  have sum: "body_fill os - body_returned os = n + sum_list (queued os')"
    using i(10) arg_cong [OF q, of sum_list] n by (simp add: queued_def del: upt_Suc)
  then have le: "body_returned os + n \<le> body_fill os" using i(5) by linarith
  show "length (take n (drop (body_returned os) (body_data os))) = n" using le i(2,6) by simp
  have "rd (body_returned os) (body_fill os - body_returned os) (body_data os) =
      rd (body_returned os) n (body_data os) @ rd (body_returned os + n) (body_fill os - (body_returned os + n)) (body_data os)"
    using le rd_append [of "body_returned os" n "body_data os" "body_fill os - (body_returned os + n)"] by simp
  then show "pending_body os = take n (drop (body_returned os) (body_data os)) @ pending_body os'"
    by (simp add: pending_body_def os' rd_def)
  show "no_holes os'" if "no_holes os"
  proof -
    have "set (segments os') \<subseteq> set (segments os)" using split by (simp add: segments_def os') (metis set_append Un_upper2)
    then show ?thesis using that by (auto simp: no_holes_def)
  qed
  have "sum_list (map seg_len (segments os')) = body_fill os - (body_returned os + n)"
    using sum by (simp add: queued_def)
  then have "stream_inv os'" using i k le unfolding stream_inv_def os' by simp
  moreover have "set (segments os') \<subseteq> set (segments os)" using split by (simp add: segments_def os') (metis set_append Un_upper2)
  ultimately show "decoder os'" using dec k by (intro decoderI) (auto simp: os' decoder_def)
qed

lemma packetout:
  assumes dec: "decoder os"
  shows "\<exists>r op' os'. packetout_i os op True = Some (r, op', os') \<and> decoder os' \<and> serialno os' = serialno os \<and> pageno os' = pageno os \<and>
      lacing_packet os' = lacing_packet os \<and> lacing_fill os' = lacing_fill os \<and>
      (r = 0 \<and> op' = op \<and> os' = os \<and> lacing_packet os = lacing_returned os \<or>
       r = -1 \<and> op' = op \<and> \<not> no_holes os \<or>
       r = 1 \<and> (no_holes os \<longrightarrow> no_holes os') \<and> (\<exists>pkt. op' = map_option (\<lambda>_. pkt) op \<and> op_bytes pkt = length (packet_of pkt) \<and>
         queued os = lacing (length (packet_of pkt)) @ queued os' \<and> pending_body os = packet_of pkt @ pending_body os'))"
proof -
  note i = stream_invD [OF decoder_inv [OF dec]]
  let ?lr = "lacing_returned os" and ?lv = "lacing_vals os"
  show ?thesis
  proof (cases "lacing_packet os \<le> ?lr")
    case True
    then show ?thesis using dec i(7) by (simp add: packetout_i_def)
  next
    case lp: False
    then have lt: "?lr < lacing_packet os" by simp
    have mem: "?lv ! ?lr \<in> set (segments os)"
    proof -
      have "?lv ! ?lr = segments os ! 0" "0 < length (segments os)" using lt i by (simp_all add: segments_def)
      then show ?thesis by simp
    qed
    obtain k where k: "?lr \<le> k" "k < lacing_packet os" "seg_len (?lv ! k) < 255"
      "\<And>j. ?lr \<le> j \<Longrightarrow> j < k \<Longrightarrow> seg_len (?lv ! j) = 255"
      using first_packet [OF dec lt] by blast
    show ?thesis
    proof (cases "?lv ! ?lr AND 0x400 \<noteq> 0")
      case True
      let ?os = "os\<lparr>lacing_returned := ?lr + 1, packetno := packetno os + 1\<rparr>"
      have hole: "\<not> no_holes os" using True mem by (auto simp: flag_hole no_holes_def)
      have drop1: "segments os = ?lv ! ?lr # segments ?os"
      proof -
        have "?lr < length (take (lacing_fill os) ?lv)" using lt i(3,8,9) by simp
        from Cons_nth_drop_Suc [OF this] show ?thesis using lt i(8) by (simp add: segments_def)
      qed
      have zero: "seg_len (?lv ! ?lr) = 0" using decoder_hole [OF dec mem] True by (simp add: flag_hole)
      have "sum_list (map seg_len (segments ?os)) = body_fill os - body_returned os"
        using i(10) unfolding drop1 by (simp add: zero)
      then have "stream_inv ?os" using i lt unfolding stream_inv_def by simp
      moreover have "seg_len v = 0" if "v \<in> set (segments ?os)" "bit v 10" for v
        using decoder_hole [OF dec, of v] that unfolding drop1 by simp
      ultimately have "decoder ?os" using dec lt by (intro decoderI) (auto simp: decoder_def)
      moreover have "packetout_i os op True = Some (-1, op, ?os)" using lp True by (simp add: packetout_i_def Let_def)
      ultimately show ?thesis using hole by (intro exI [of _ "-1"] exI [of _ op] exI [of _ ?os]) simp
    next
      case False
      obtain eos' where g: "gather ?lv ?lr (seg_len (?lv ! ?lr)) (seg_len (?lv ! ?lr)) (int (?lv ! ?lr AND 0x200)) =
          Some (k, seg_len (?lv ! ?lr) + sum_list (map (\<lambda>i. seg_len (?lv ! i)) [?lr + 1..<k + 1]), eos')"
        using gather [OF k(1,4,3)] by blast
      define n where "n = sum_list (map (\<lambda>i. seg_len (?lv ! i)) [?lr..<k + 1])"
      have cons: "[?lr..<k + 1] = ?lr # [?lr + 1..<k + 1]" using k(1) by (simp add: upt_conv_Cons)
      have gn: "gather ?lv ?lr (seg_len (?lv ! ?lr)) (seg_len (?lv ! ?lr)) (int (?lv ! ?lr AND 0x200)) = Some (k, n, eos')"
        using g unfolding n_def cons by simp
      let ?os = "os\<lparr>body_returned := body_returned os + n, lacing_returned := k + 1, packetno := packetno os + 1\<rparr>"
      let ?pkt = "\<lparr>op_packet = drop (body_returned os) (body_data os), op_bytes = n, op_b_o_s = int (?lv ! ?lr AND 0x100),
          op_e_o_s = eos', op_granulepos = granule_vals os ! k, op_packetno = packetno os\<rparr>"
      note s = returned_step [OF dec k(1,2) n_def refl]
      have run: "packetout_i os op True = Some (1, map_option (\<lambda>op. ?pkt) op, ?os)"
        using lp False gn by (simp add: packetout_i_def Let_def seg_len_def)
      have len: "length (packet_of ?pkt) = n" using s(4) by (simp add: packet_of_def)
      have sizes: "map (\<lambda>i. seg_len (?lv ! i)) [?lr..<k + 1] = replicate (k - ?lr) 255 @ [seg_len (?lv ! k)]"
      proof -
        have "map (\<lambda>i. seg_len (?lv ! i)) [?lr..<k] = replicate (k - ?lr) 255"
          using k(4) by (intro nth_equalityI) simp_all
        then show ?thesis using k(1) by simp
      qed
      have "n = 255 * (k - ?lr) + seg_len (?lv ! k)" unfolding n_def sizes by (simp add: sum_list_replicate)
      then have "map (\<lambda>i. seg_len (?lv ! i)) [?lr..<k + 1] = lacing n"
        using sizes lacing_full [OF k(3), of "k - ?lr"] by simp
      then have "queued os = lacing (length (packet_of ?pkt)) @ queued ?os" using s(2) len by simp
      moreover have "pending_body os = packet_of ?pkt @ pending_body ?os" using s(3) by (simp add: packet_of_def)
      ultimately show ?thesis using run s(1,5) len
        by (intro exI [of _ 1] exI [of _ "map_option (\<lambda>op. ?pkt) op"] exI [of _ ?os]) (auto intro!: exI [of _ ?pkt])
    qed
  qed
qed

section \<open>The contract of the two sides\<close>

lemma lacing_prefix:
  assumes "lacing m @ xs = lacing n @ ys"
  shows "m = n \<and> xs = ys"
proof -
  have tw: "takeWhile (\<lambda>v. v = 255) (lacing k @ zs) = replicate (k div 255) 255" for k zs
  proof -
    have "k mod 255 \<noteq> 255" using mod_less_divisor [of 255 k] by linarith
    moreover have "takeWhile (\<lambda>v. v = 255) (replicate j 255 @ zs') = replicate j 255 @ takeWhile (\<lambda>v. v = 255) zs'" for j and zs' :: "nat list"
      by (induction j) simp_all
    ultimately show ?thesis by (simp add: lacing_def)
  qed
  have "replicate (m div 255) 255 = replicate (n div 255) (255::nat)"
    using tw [of m xs] tw [of n ys] assms by simp
  then have q: "m div 255 = n div 255" by (metis length_replicate)
  then have "m mod 255 = n mod 255 \<and> xs = ys" using assms by (simp add: lacing_def)
  with q show ?thesis using div_mult_mod_eq [of m 255] div_mult_mod_eq [of n 255] by metis
qed

text \<open>
  A decoder that is linked to an encoder gets each page that the encoder gives; its queue grows by the
  segments of the page, and packets leave it that are the first ones of the queue.  \<open>fits\<close> is the condition
  under which a page can be numbered.
\<close>

locale framing = segment_queue ok segs content push take_page page_segs page_content
  for ok :: "'s \<Rightarrow> bool" and segs :: "'s \<Rightarrow> nat list" and content :: "'s \<Rightarrow> bytes"
    and push :: "'s \<Rightarrow> bytes \<Rightarrow> 's \<Rightarrow> bool" and take_page :: "'s \<Rightarrow> 'p \<Rightarrow> 's \<Rightarrow> bool"
    and page_segs :: "'p \<Rightarrow> nat list" and page_content :: "'p \<Rightarrow> bytes" +
  fixes fits :: "'s \<Rightarrow> bool" and linked :: "'s \<Rightarrow> 'd \<Rightarrow> bool" and dsegs :: "'d \<Rightarrow> nat list" and dcontent :: "'d \<Rightarrow> bytes"
    and feed :: "'d \<Rightarrow> 'p \<Rightarrow> 'd \<Rightarrow> bool" and pull :: "'d \<Rightarrow> bytes \<Rightarrow> 'd \<Rightarrow> bool"
  assumes linked: "linked s d \<Longrightarrow> ok s"
    and push_linked: "linked s d \<Longrightarrow> push s p s' \<Longrightarrow> linked s' d"
    and page_linked: "linked s d \<Longrightarrow> fits s \<Longrightarrow> take_page s og s' \<Longrightarrow> feed d og d' \<Longrightarrow>
      linked s' d' \<and> dsegs d' = dsegs d @ page_segs og \<and> dcontent d' = dcontent d @ page_content og"
    and pull_linked: "linked s d \<Longrightarrow> pull d q d' \<Longrightarrow>
      linked s d' \<and> dsegs d = lacing (length q) @ dsegs d' \<and> dcontent d = q @ dcontent d'"
    and no_pull: "linked s d \<Longrightarrow> (\<And>q d'. \<not> pull d q d') \<Longrightarrow> \<forall>v \<in> set (dsegs d). v = 255"
begin

text \<open>What has been put in is what has come out followed by what is under way.\<close>

definition under_way :: "'s \<Rightarrow> 'd \<Rightarrow> bytes list \<Rightarrow> bool" where
  "under_way s d rs \<longleftrightarrow> linked s d \<and> concat (map (\<lambda>r. lacing (length r)) rs) = dsegs d @ segs s \<and> concat rs = dcontent d @ content s"

lemma under_wayD:
  assumes "under_way s d rs"
  shows "linked s d" "ok s" "concat (map (\<lambda>r. lacing (length r)) rs) = dsegs d @ segs s" "concat rs = dcontent d @ content s"
  using assms linked by (auto simp: under_way_def)

lemma under_way_push:
  assumes "under_way s d rs" "push s p s'"
  shows "under_way s' d (rs @ [p])"
  using push [OF under_wayD(2) [OF assms(1)] assms(2)] push_linked [OF under_wayD(1) [OF assms(1)] assms(2)] under_wayD [OF assms(1)]
  by (simp add: under_way_def)

lemma under_way_page:
  assumes "under_way s d rs" "fits s" "take_page s og s'" "feed d og d'"
  shows "under_way s' d' rs"
  using page [OF under_wayD(2) [OF assms(1)] assms(3)] page_linked [OF under_wayD(1) [OF assms(1)] assms(2-4)] under_wayD [OF assms(1)]
  by (simp add: under_way_def)

lemma under_way_pull:
  assumes "under_way s d rs" "pull d q d'"
  shows "\<exists>rs'. rs = q # rs' \<and> under_way s d' rs'"
proof -
  note u = under_wayD [OF assms(1)]
  note p = pull_linked [OF u(1) assms(2)]
  have segs: "concat (map (\<lambda>r. lacing (length r)) rs) = lacing (length q) @ dsegs d' @ segs s"
    and bytes: "concat rs = q @ dcontent d' @ content s"
    using u(3,4) p by simp_all
  obtain r rs' where rs: "rs = r # rs'"
    using segs by (cases rs) (simp_all add: lacing_def)
  have "lacing (length r) @ concat (map (\<lambda>r. lacing (length r)) rs') = lacing (length q) @ dsegs d' @ segs s"
    using segs by (simp add: rs)
  from lacing_prefix [OF this]
  have len: "length r = length q" "concat (map (\<lambda>r. lacing (length r)) rs') = dsegs d' @ segs s" by simp_all
  have "r @ concat rs' = q @ dcontent d' @ content s" using bytes by (simp add: rs)
  then have "r = q \<and> concat rs' = dcontent d' @ content s" using append_eq_append_conv [of r q "concat rs'" "dcontent d' @ content s"] len(1) by simp
  with len(2) p show ?thesis by (simp add: rs under_way_def)
qed

lemma under_way_done:
  assumes "under_way s d rs" "\<And>q d'. \<not> pull d q d'" "segs s = []"
  shows "rs = []"
proof (rule ccontr)
  assume "rs \<noteq> []"
  then obtain rs' r where rs: "rs = rs' @ [r]" by (cases rs rule: rev_cases) auto
  note u = under_wayD [OF assms(1)]
  have "dsegs d = concat (map (\<lambda>r. lacing (length r)) rs)" using u(3) assms(3) by simp
  then have "length r mod 255 \<in> set (dsegs d)" by (simp add: rs lacing_def)
  moreover have "\<forall>v \<in> set (dsegs d). v = 255" using u(1) assms(2) by (rule no_pull)
  ultimately have "length r mod 255 = 255" by blast
  then show False using mod_less_divisor [of 255 "length r"] by simp
qed

end

section \<open>The two sides of the model are linked\<close>

text \<open>
  A segment with the flag begins a packet; the first segment of the queue goes on with the packet that the
  decoder has only the beginning of, if it has one.
\<close>

fun laced :: "bool \<Rightarrow> nat list \<Rightarrow> bool" where
  "laced c [] \<longleftrightarrow> \<not> c"
| "laced c (v # vs) \<longleftrightarrow> (bit v 8 \<longleftrightarrow> \<not> c) \<and> laced (seg_len v = 255) vs"

definition linked_streams :: "ogg_stream_state \<Rightarrow> ogg_stream_state \<Rightarrow> bool" where
  "linked_streams e d \<longleftrightarrow> encoder e \<and> decoder d \<and> no_holes d \<and> serialno d = serialno e \<and> -(2 ^ 31) \<le> serialno e \<and> serialno e < 2 ^ 31 \<and>
     pageno d = pageno e \<and> 0 \<le> pageno e \<and> laced (lacing_packet d < lacing_fill d) (segments e)"

definition page_arrives :: "ogg_stream_state \<Rightarrow> ogg_page \<Rightarrow> ogg_stream_state \<Rightarrow> bool" where
  "page_arrives d og d' \<longleftrightarrow> (\<exists>alloc og'. same_page og og' \<and> body_len og \<le> length (body og') \<and> ogg_stream_pagein alloc d og' = (0, d'))"

definition packet_out :: "ogg_stream_state \<Rightarrow> bytes \<Rightarrow> ogg_stream_state \<Rightarrow> bool" where
  "packet_out d q d' \<longleftrightarrow> (\<exists>op pkt. ogg_stream_packetout d (Some op) = Some (1, Some pkt, d') \<and> q = packet_of pkt)"

lemma small_no_bit8: "v \<le> 255 \<Longrightarrow> \<not> bit v 8" for v :: nat
  by (simp add: bit_iff_odd)

lemma laced_rest: "m < 255 \<Longrightarrow> laced True (replicate j 255 @ [m])"
  by (induction j) (simp_all add: small_no_bit8)

lemma laced_new: "laced False (new_segments n)"
proof -
  have m: "n mod 255 < 255" by simp
  show ?thesis
  proof (cases "n div 255")
    case 0
    then have "new_segments n = [n mod 255 OR 0x100]" by (simp add: new_segments_def lacing_def)
    then show ?thesis using m by (simp add: bit8_flag)
  next
    case (Suc j)
    then have "new_segments n = (255 OR 0x100) # replicate j 255 @ [n mod 255]"
      by (simp add: new_segments_def lacing_def del: or_numerals)
    moreover have "seg_len (255 OR 0x100) = 255" by (simp only: seg_len_flag) simp
    ultimately show ?thesis using bit8_flag [of 255] laced_rest [OF m, of j] by (simp del: or_numerals)
  qed
qed

lemma laced_append: "laced c xs \<Longrightarrow> laced False ys \<Longrightarrow> laced c (xs @ ys)"
  by (induction c xs rule: laced.induct) simp_all

lemma laced_drop:
  "laced c xs \<Longrightarrow> n \<le> length xs \<Longrightarrow> laced (if n = 0 then c else last (map seg_len (take n xs)) = 255) (drop n xs)"
proof (induction c xs arbitrary: n rule: laced.induct)
  case (2 c v vs)
  show ?case
  proof (cases n)
    case (Suc k)
    with 2 have "laced (if k = 0 then seg_len v = 255 else last (map seg_len (take k vs)) = 255) (drop k vs)" by simp
    with Suc 2(3) show ?thesis by (cases k; cases vs) simp_all
  qed (use 2 in simp)
qed simp

lemma same_page_fields:
  assumes "same_page og og'" "27 \<le> header_len og"
  shows "ogg_page_version og' = ogg_page_version og" "ogg_page_continued og' = ogg_page_continued og"
    "ogg_page_bos og' = ogg_page_bos og" "ogg_page_serialno og' = ogg_page_serialno og" "ogg_page_pageno og' = ogg_page_pageno og"
    "header og' ! 26 = header og ! 26" "take (body_len og') (body og') = page_body og"
  using same_page_nth [OF assms(1)] assms(2) assms(1)
  by (simp_all add: ogg_page_version_def ogg_page_continued_def ogg_page_bos_def ogg_page_serialno_def ogg_page_pageno_def
      page_body_def same_page_def)

lemma page_arrives_linked:
  assumes "linked_streams e d" "pageno e < 2 ^ 31" "paged e og e'" "page_arrives d og d'"
  shows "linked_streams e' d' \<and> queued d' = queued d @ page_segments og \<and> pending_body d' = pending_body d @ page_body og"
proof -
  have enc: "encoder e" and dec: "decoder d" "no_holes d" and no: "serialno d = serialno e" "-(2 ^ 31) \<le> serialno e" "serialno e < 2 ^ 31"
    "pageno d = pageno e" "0 \<le> pageno e" and laced: "laced (lacing_packet d < lacing_fill d) (segments e)"
    using assms(1) by (simp_all add: linked_streams_def)
  obtain og0 force nfill where "ogg_stream_flush_i e og0 force nfill = (1, og, e')" using assms(3) by (auto simp: paged_def)
  from flush [OF encoderD [OF enc] this] obtain vals gp where v: "0 < vals" "vals \<le> 255" "vals \<le> length (segments e)"
    and p: "page_of e vals gp og" and e': "segments e' = drop vals (segments e)" "serialno e' = serialno e" "pageno e' = page_number e + 1"
    by auto
  have enc': "encoder e'" using enc.page [OF enc assms(3)] by simp
  have pn: "page_number e = pageno e" using no(5) by (simp add: page_number_def)
  note f = page_of_fields [OF p v] and c = page_of_contents [OF p v(2)]
  have hl: "header_len og = vals + 27" "length (header og) = 282" "body_len og \<le> length (body og)" using p by (simp_all add: page_of_def)
  have sizes: "page_segments og = page_sizes og 0" by (rule page_segments_sizes) (use f(8) v(2) hl in simp)
  obtain alloc og' where same: "same_page og og'" and bl: "body_len og \<le> length (body og')"
    and run: "ogg_stream_pagein alloc d og' = (0, d')" using assms(4) by (auto simp: page_arrives_def)
  have "27 \<le> header_len og" using hl by simp
  note s = same_page_fields [OF same this]
  have sizes': "page_sizes og' 0 = page_segments og"
    unfolding sizes page_sizes_def s(6) using same_page_nth [OF same] f(8) hl(1) by (intro map_cong) auto
  have len: "length (page_segments og) = vals" using v(3) by (simp add: c(1) queued_def)
  have "sum_list xs \<le> length xs * 255" if "\<forall>x \<in> set xs. x \<le> 255" for xs :: "nat list"
    using that by (induction xs) simp_all
  then have "body_len og \<le> length (page_segments og) * 255"
    unfolding c(3) by (rule meta_mp) (auto simp: c(1) queued_def dest!: in_set_takeD)
  also have "\<dots> \<le> 255 * 255" using len v(2) by simp
  finally have "body_len og \<le> LONG_MAX" by simp
  then have sp: "sized_page og'" using same bl c(3) by (simp add: sized_page_def sizes' same_page_def)
  have insync: "ogg_page_pageno og' = pageno d" "ogg_page_continued og' = 0 \<or> lacing_packet d < lacing_fill d"
  proof -
    show "ogg_page_pageno og' = pageno d" using f(7) pn no(4,5) assms(2) s(5) by simp
    have "lacing_vals e ! 0 = segments e ! 0" using v(1,3) encoderD(2) [OF enc] by (simp add: segments_def)
    moreover obtain x xs where "segments e = x # xs" using v(1,3) by (cases "segments e") simp_all
    ultimately show "ogg_page_continued og' = 0 \<or> lacing_packet d < lacing_fill d"
      using laced f(2) s(2) by (auto simp: bit8)
  qed
  have nonempty: "page_segments og \<noteq> []" using len v(1) by auto
  from pagein [OF dec(1) sp run]
  have d': "decoder d'" "serialno d' = serialno d" "pageno d' = pageno d + 1" "queued d' = queued d @ page_segments og"
    "pending_body d' = pending_body d @ page_body og" "no_holes d'" "lacing_packet d' < lacing_fill d' \<longleftrightarrow> last (page_segments og) = 255"
    using insync dec(2) s(7) nonempty by (simp_all add: sizes')
  have "laced (lacing_packet d' < lacing_fill d') (segments e')"
    unfolding d'(7) c(1) e'(1) queued_def take_map using laced_drop [OF laced v(3)] v(1) by simp
  then show ?thesis using enc' d' e'(2,3) no pn by (simp add: linked_streams_def)
qed

interpretation ogg: framing encoder queued pending_body pushed paged page_segments page_body
  "\<lambda>e. pageno e < 2 ^ 31" linked_streams queued pending_body page_arrives packet_out
proof unfold_locales
  fix s and d :: ogg_stream_state
  assume "linked_streams s d"
  then show "encoder s" by (simp add: linked_streams_def)
next
  fix s p s' and d :: ogg_stream_state
  assume l: "linked_streams s d" and p: "pushed s p s'"
  then have enc: "encoder s" by (simp add: linked_streams_def)
  obtain alloc pkt where "ogg_stream_packetin alloc s pkt = (0, s')" using p by (auto simp: pushed_def)
  then have "ogg_stream_iovecin alloc s (Some [take (op_bytes pkt) (op_packet pkt)]) (op_e_o_s pkt) (op_granulepos pkt) = (0, s')"
    by (simp add: ogg_stream_packetin_def)
  from iovecin [OF encoderD(1) [OF enc] this]
  have "segments s' = segments s @ new_segments (length (take (op_bytes pkt) (op_packet pkt)))" "serialno s' = serialno s" "pageno s' = pageno s"
    by simp_all
  then show "linked_streams s' d"
    using l enc.push [OF enc p] laced_append [OF _ laced_new] by (simp add: linked_streams_def)
next
  fix s og s' and d d' :: ogg_stream_state
  assume "linked_streams s d" "pageno s < 2 ^ 31" "paged s og s'" "page_arrives d og d'"
  then show "linked_streams s' d' \<and> queued d' = queued d @ page_segments og \<and> pending_body d' = pending_body d @ page_body og"
    by (rule page_arrives_linked)
next
  fix s d q d'
  assume l: "linked_streams s d" and "packet_out d q d'"
  then obtain op pkt where o: "ogg_stream_packetout d (Some op) = Some (1, Some pkt, d')" "q = packet_of pkt" by (auto simp: packet_out_def)
  have dec: "decoder d" "no_holes d" using l by (simp_all add: linked_streams_def)
  have "packetout_i d (Some op) True = Some (1, Some pkt, d')"
    using o(1) stream_inv_check [OF decoder_inv [OF dec(1)]] by (simp add: ogg_stream_packetout_def)
  with packetout [OF dec(1), of "Some op"] dec(2)
  have "decoder d' \<and> no_holes d' \<and> serialno d' = serialno d \<and> pageno d' = pageno d \<and> lacing_packet d' = lacing_packet d \<and>
      lacing_fill d' = lacing_fill d \<and> queued d = lacing (length q) @ queued d' \<and> pending_body d = q @ pending_body d'"
    by (auto simp: o(2))
  then show "linked_streams s d' \<and> queued d = lacing (length q) @ queued d' \<and> pending_body d = q @ pending_body d'"
    using l by (simp add: linked_streams_def)
next
  fix s d
  assume l: "linked_streams s d" and n: "\<And>q d'. \<not> packet_out d q d'"
  have dec: "decoder d" "no_holes d" using l by (simp_all add: linked_streams_def)
  note i = stream_invD [OF decoder_inv [OF dec(1)]]
  obtain r op' d' where o: "packetout_i d (Some undefined) True = Some (r, op', d')" and "r = 0 \<and> lacing_packet d = lacing_returned d \<or>
      r = 1 \<and> (\<exists>pkt. op' = Some pkt)"
    using packetout [OF dec(1), of "Some undefined"] dec(2) by fastforce
  moreover have "ogg_stream_packetout d (Some undefined) = packetout_i d (Some undefined) True"
    using stream_inv_check [OF decoder_inv [OF dec(1)]] by (simp add: ogg_stream_packetout_def)
  ultimately have lp: "lacing_packet d = lacing_returned d" using n by (auto simp: packet_out_def)
  show "\<forall>v \<in> set (queued d). v = 255"
  proof
    fix v assume "v \<in> set (queued d)"
    then obtain j where "j < length (segments d)" "v = seg_len (segments d ! j)" by (auto simp: queued_def in_set_conv_nth)
    then show "v = 255" using dec(1) lp i(3,9) by (auto simp: segments_def decoder_def)
  qed
qed

section \<open>Properties\<close>

text \<open>
  The two sides at work: packets are submitted, pages are flushed and arrive unharmed at a decoder of the
  same serial number, packets are taken from it, in any order and any number of times.
\<close>

inductive transfer :: "ogg_stream_state \<Rightarrow> ogg_stream_state \<Rightarrow> bytes list \<Rightarrow> bytes list \<Rightarrow> bool" where
  start: "ogg_stream_init alloc (Some e0) serial = (0, Some e) \<Longrightarrow> ogg_stream_init alloc' (Some d0) serial = (0, Some d) \<Longrightarrow>
    -(2 ^ 31) \<le> serial \<Longrightarrow> serial < 2 ^ 31 \<Longrightarrow> transfer e d [] []"
| packet: "transfer e d ps qs \<Longrightarrow> ogg_stream_packetin alloc e pkt = (0, e') \<Longrightarrow> transfer e' d (ps @ [packet_of pkt]) qs"
| page: "transfer e d ps qs \<Longrightarrow>
    ogg_stream_flush_fill e og0 nfill = (1, og, e') \<or> ogg_stream_pageout_fill e og0 nfill = (1, og, e') \<Longrightarrow> pageno e < 2 ^ 31 \<Longrightarrow>
    same_page og og' \<Longrightarrow> body_len og \<le> length (body og') \<Longrightarrow> ogg_stream_pagein alloc d og' = (0, d') \<Longrightarrow> transfer e' d' ps qs"
| out: "transfer e d ps qs \<Longrightarrow> ogg_stream_packetout d (Some op) = Some (1, Some pkt, d') \<Longrightarrow> transfer e d' ps (qs @ [packet_of pkt])"

lemma pageout_paged: "ogg_stream_pageout_fill e og0 nfill = (1, og, e') \<Longrightarrow> paged e og e'"
  by (auto simp: ogg_stream_pageout_fill_def paged_def Let_def split: if_splits)

lemma transfer_under_way: "transfer e d ps qs \<Longrightarrow> \<exists>rs. ps = qs @ rs \<and> ogg.under_way e d rs"
proof (induction rule: transfer.induct)
  case (start alloc e0 serial e alloc' d0 d)
  then have "linked_streams e d" and q: "segments e = []" "segments d = []" "pending_body e = []" "pending_body d = []"
    using stream_init_inv [OF start(1)] stream_init_inv [OF start(2)]
    by (auto simp: linked_streams_def encoder_def decoder_def no_holes_def segments_def stream_inv_def)
  then have "queued e = []" "queued d = []" by (simp_all add: queued_def)
  with q(3,4) \<open>linked_streams e d\<close> show ?case by (simp add: ogg.under_way_def)
next
  case (packet e d ps qs alloc pkt e')
  then obtain rs where rs: "ps = qs @ rs" "ogg.under_way e d rs" by blast
  have "pushed e (packet_of pkt) e'" using packet.hyps(2) by (auto simp: pushed_def packet_of_def)
  from ogg.under_way_push [OF rs(2) this] rs(1) show ?case by simp
next
  case (page e d ps qs og0 nfill og e' og' alloc d')
  then obtain rs where rs: "ps = qs @ rs" "ogg.under_way e d rs" by blast
  have "paged e og e'" using page.hyps(2) pageout_paged by (auto simp: ogg_stream_flush_fill_def paged_def)
  moreover have "page_arrives d og d'" using page.hyps(4-6) by (auto simp: page_arrives_def)
  ultimately show ?case using ogg.under_way_page [OF rs(2) page.hyps(3)] rs(1) by blast
next
  case (out e d ps qs op pkt d')
  then obtain rs where rs: "ps = qs @ rs" "ogg.under_way e d rs" by blast
  have "packet_out d (packet_of pkt) d'" using out.hyps(2) by (auto simp: packet_out_def)
  from ogg.under_way_pull [OF rs(2) this] rs(1) show ?case by auto
qed

text \<open>
  C7. Framing loses nothing and reorders nothing: whatever the sizes of the packets, the sizes of the pages
  and the interleaving of the calls, the packets that have come out of the decoder are the first of those
  that went into the encoder, unchanged; the decoder never reports a gap; and when it has no packet and the
  encoder no page, all of them have come out.
\<close>

theorem ogg_framing_round_trip:
  assumes "transfer e d ps qs" "ogg_stream_packetout d (Some op) = Some (r, op', d')" "ogg_stream_flush_fill e og nfill = (r', og', e')"
  shows "(\<exists>rs. ps = qs @ rs) \<and> (r = 0 \<or> r = 1) \<and> (r = 0 \<and> r' = 0 \<longrightarrow> qs = ps)"
proof -
  obtain rs where rs: "ps = qs @ rs" "ogg.under_way e d rs" using transfer_under_way [OF assms(1)] by blast
  have l: "encoder e" "decoder d" "no_holes d" using ogg.under_wayD(1) [OF rs(2)] by (simp_all add: linked_streams_def)
  have o: "packetout_i d (Some op) True = Some (r, op', d')"
    using assms(2) stream_inv_check [OF decoder_inv [OF l(2)]] by (simp add: ogg_stream_packetout_def)
  have r: "r = 0 \<and> lacing_packet d = lacing_returned d \<or> r = 1"
    using packetout [OF l(2), of "Some op"] l(3) o by auto
  have "rs = []" if "r = 0" "r' = 0"
  proof (rule ogg.under_way_done [OF rs(2)])
    show "queued e = []"
      using flush [OF encoderD [OF l(1)], of og 1 nfill r' og' e'] assms(3) that(2)
      by (auto simp: ogg_stream_flush_fill_def queued_def)
    have lp: "lacing_packet d = lacing_returned d" using r that(1) by simp
    show "\<not> packet_out d q d1" for q d1
      using lp by (auto simp: packet_out_def ogg_stream_packetout_def packetout_i_def split: if_splits)
  qed
  then show ?thesis using rs(1) r by auto
qed

lemma fresh_decoder: "decoder fresh_stream" "no_holes fresh_stream"
  using fresh_encoder by (auto simp: encoder_def decoder_def no_holes_def segments_def stream_inv_def)

lemma fresh_fields: "body_data fresh_stream \<noteq> []" "body_returned fresh_stream = 0" "body_fill fresh_stream = 0"
  "body_storage fresh_stream = 16384" "lacing_storage fresh_stream = 1024" "lacing_fill fresh_stream = 0" "lacing_returned fresh_stream = 0"
  "lacing_packet fresh_stream = 0"
  by (simp_all add: fresh_stream_def ogg_stream_init_def zero_stream_def Let_def)

lemma three_pagein:
  assumes "header_len og = 28" "body_len og = 3" "unat (header og ! 26) = 1"
    and "ogg_page_serialno og = 7" "ogg_page_version og = 0" "ogg_page_pageno og = 0" "ogg_page_continued og = 0"
  shows "fst (ogg_stream_pagein (\<lambda>n. True) fresh_stream og) = 0"
  using assms fresh_fields fresh_encoder(3,4)
  by (simp add: ogg_stream_pagein_def ogg_stream_check_def drop_returned_body_def drop_returned_lacing_def os_lacing_expand_def
      os_body_expand_def Let_def)

theorem ogg_framing_round_trip_witness:
  "\<exists>e d. transfer e d [[1, 2, 3]] [[1, 2, 3]]"
proof -
  let ?pkt = "\<lparr>op_packet = [1, 2, 3], op_bytes = 3, op_b_o_s = 0, op_e_o_s = 1, op_granulepos = 9, op_packetno = 0\<rparr>"
  have t0: "transfer fresh_stream fresh_stream [] []"
    by (rule transfer.start [OF fresh_stream fresh_stream]) simp_all
  have "ogg_stream_packetin (\<lambda>n. True) fresh_stream ?pkt = (0, three_stream)"
    using three_stream by (simp add: ogg_stream_packetin_def)
  from transfer.packet [OF t0 this] have t1: "transfer three_stream fresh_stream [[1, 2, 3]] []" by (simp add: packet_of_def)
  obtain og' e' where f: "ogg_stream_flush_fill three_stream og 4096 = (1, og', e')" and p: "page_segments og' = [3]" "queued e' = []"
    "header_len og' = 28" "body_len og' = 3" "length (header og') = 282" "body_len og' \<le> length (body og')" "encoder e'"
    "ogg_page_serialno og' = 7" "ogg_page_version og' = 0" "ogg_page_pageno og' = 0" "ogg_page_continued og' = 0" "unat (header og' ! 26) = 1"
    by (rule three_page)
  obtain r d' where d: "ogg_stream_pagein (\<lambda>n. True) fresh_stream og' = (r, d')" by fastforce
  have "r = 0" using three_pagein [of og'] p d by simp
  with d have d: "ogg_stream_pagein (\<lambda>n. True) fresh_stream og' = (0, d')" by simp
  have same: "same_page og' og'" by (simp add: same_page_def)
  have t2: "transfer e' d' [[1, 2, 3]] []"
    by (rule transfer.page [OF t1 disjI1 [OF f] _ same p(6) d]) (simp add: three_encoder)
  then obtain rs where u: "ogg.under_way e' d' [[1, 2, 3]]" using transfer_under_way [OF t2] by auto
  then have l: "linked_streams e' d'" by (rule ogg.under_wayD)
  have "queued d' = [3]"
    using ogg.under_wayD(3) [OF u] p(2) by (simp add: lacing_def)
  with ogg.no_pull [OF l] obtain q d'' where "packet_out d' q d''" by fastforce
  then obtain op pkt where o: "ogg_stream_packetout d' (Some op) = Some (1, Some pkt, d'')" by (auto simp: packet_out_def)
  from transfer.out [OF t2 o] have t3: "transfer e' d'' [[1, 2, 3]] [packet_of pkt]" by simp
  obtain r3 op3 d3 where o3: "ogg_stream_packetout d'' (Some op) = Some (r3, op3, d3)"
  proof -
    have "decoder d''" using transfer_under_way [OF t3] ogg.under_wayD(1) by (auto simp: linked_streams_def)
    from packetout [OF this, of "Some op"] stream_inv_check [OF decoder_inv [OF this]] that show ?thesis
      by (auto simp: ogg_stream_packetout_def)
  qed
  obtain r4 og4 e4 where f4: "ogg_stream_flush_fill e' og 4096 = (r4, og4, e4)" by (metis prod_cases3)
  from ogg_framing_round_trip [OF t3 o3 f4] have "packet_of pkt = [1, 2, 3]" by auto
  with t3 show ?thesis by auto
qed

text \<open>
  C11. The decoding stream stays consistent, whatever is fed to it: a page whose segments sum up to its body,
  which is all that the sync layer finds, keeps the invariant or is refused, or the stream is lost when
  memory runs out; asking for a packet returns, gives a packet, a gap or nothing, and keeps the invariant.
\<close>

theorem ogg_stream_decoder_invariant:
  assumes "decoder os" "sized_page og"
  shows "(case ogg_stream_pagein alloc os og of (r, os') \<Rightarrow> (r = 0 \<or> r = -1) \<and> (decoder os' \<or> r = -1 \<and> os' = zero_stream)) \<and>
    (\<exists>r op' os'. ogg_stream_packetout os op = Some (r, op', os') \<and> decoder os' \<and> (r = 0 \<or> r = 1 \<or> r = -1))"
proof
  obtain r os' where p: "ogg_stream_pagein alloc os og = (r, os')" by fastforce
  from pagein [OF assms p] p
  show "case ogg_stream_pagein alloc os og of (r, os') \<Rightarrow> (r = 0 \<or> r = -1) \<and> (decoder os' \<or> r = -1 \<and> os' = zero_stream)"
    by auto
  show "\<exists>r op' os'. ogg_stream_packetout os op = Some (r, op', os') \<and> decoder os' \<and> (r = 0 \<or> r = 1 \<or> r = -1)"
    using packetout [OF assms(1), of op] stream_inv_check [OF decoder_inv [OF assms(1)]]
    by (auto simp: ogg_stream_packetout_def)
qed

theorem ogg_stream_decoder_invariant_witness:
  "\<exists>og d'. ogg_stream_pagein (\<lambda>n. True) fresh_stream og = (0, d') \<and> decoder d'"
proof -
  obtain og' e' where f: "ogg_stream_flush_fill three_stream og 4096 = (1, og', e')" and p: "page_segments og' = [3]" "queued e' = []"
    "header_len og' = 28" "body_len og' = 3" "length (header og') = 282" "body_len og' \<le> length (body og')" "encoder e'"
    "ogg_page_serialno og' = 7" "ogg_page_version og' = 0" "ogg_page_pageno og' = 0" "ogg_page_continued og' = 0" "unat (header og' ! 26) = 1"
    by (rule three_page)
  have "sized_page og'" using p page_segments_sizes [of og'] by (simp add: sized_page_def)
  note inv = ogg_stream_decoder_invariant [OF fresh_decoder(1) this, of "\<lambda>n. True" None]
  obtain r d' where d: "ogg_stream_pagein (\<lambda>n. True) fresh_stream og' = (r, d')" by fastforce
  have "r = 0" using three_pagein [of og'] p d by simp
  with inv d have "ogg_stream_pagein (\<lambda>n. True) fresh_stream og' = (0, d') \<and> decoder d'" by auto
  then show ?thesis by blast
qed

end
