(* ===== verification/Recorder.thy ===== *)
theory Recorder
  imports OpusHeader OggDecode "HOL-Library.Signed_Division"
begin

text \<open>
  The voice recorder of \<^verbatim>\<open>app/jni/audio.c\<close>: \<open>initRecorder\<close>, \<open>writeFrame\<close> and \<open>cleanupRecorder\<close> with
  their globals as one record.  The two header packets and every encoded frame go through the Ogg
  stream of \<open>OggStream\<close> into the file.  The codec, the file system and the allocator are parameters.
\<close>

unbundle bit_operations_syntax

section \<open>The state\<close>

text \<open>The options that the recorder sets; the others are 0 throughout.\<close>

record oe_enc_opt =
  opt_rate :: int
  opt_channels :: int
  opt_gain :: int
  opt_samplesize :: int
  opt_skip :: int
  opt_extraout :: int
  opt_comments :: "bytes option"
  opt_comments_length :: nat

text \<open>The globals.  \<open>files\<close> is what is on disk, \<open>fileOs\<close> the path of the file that is open for writing.\<close>

record 'e recorder =
  rate :: int
  coding_rate :: int
  packetId :: int
  encoder_ptr :: "'e option"
  packet_buf :: "bytes option"
  stream_os :: ogg_stream_state
  fileOs :: "string option"
  inopt :: oe_enc_opt
  opus_header :: OpusHeader
  min_bytes :: int
  max_frame_bytes :: int
  cur_op :: ogg_packet
  cur_og :: ogg_page
  bytes_written :: int
  pages_out :: int
  total_samples :: int
  enc_granulepos :: int
  last_granulepos :: int
  size_segments :: int
  last_segments :: int
  files :: "string \<rightharpoonup> bytes"

text \<open>
  What the recorder calls: which paths open, how many of the bytes offered a file takes, which requests for
  memory are granted and what fresh memory holds, \<open>rand()\<close>, and the Opus encoder: its result code
  comes with its new state, \<open>opus_encode\<close> also gives the bytes that it stored.
\<close>

record 'e recorder_env =
  openable :: "string \<Rightarrow> bool"
  file_takes :: "bytes \<Rightarrow> nat \<Rightarrow> nat"
  granted :: "nat \<Rightarrow> bool"
  fresh :: "nat \<Rightarrow> bytes"
  random :: int
  opus_version :: bytes
  opus_create :: "int \<Rightarrow> int \<Rightarrow> int \<Rightarrow> 'e option \<times> int"
  opus_set_bitrate :: "'e option \<Rightarrow> int \<Rightarrow> int \<times> 'e option"
  opus_set_lsb_depth :: "'e option \<Rightarrow> int \<Rightarrow> int \<times> 'e option"
  opus_get_lookahead :: "'e option \<Rightarrow> int \<times> int"
  opus_encode :: "'e option \<Rightarrow> bytes \<Rightarrow> nat \<Rightarrow> int \<Rightarrow> int \<times> bytes \<times> 'e option"

definition OPUS_OK :: int where "OPUS_OK = 0"
definition OPUS_APPLICATION_VOIP :: int where "OPUS_APPLICATION_VOIP = 2048"
definition bitrate :: int where "bitrate = -1"
definition frame_size :: nat where "frame_size = 960"
definition max_ogg_delay :: int where "max_ogg_delay = 0"
definition comment_padding :: nat where "comment_padding = 512"

text \<open>The structures after \<open>memset\<close>.\<close>

definition zero_opt :: oe_enc_opt where
  "zero_opt = \<lparr>opt_rate = 0, opt_channels = 0, opt_gain = 0, opt_samplesize = 0, opt_skip = 0, opt_extraout = 0,
     opt_comments = None, opt_comments_length = 0\<rparr>"

definition zero_header :: OpusHeader where
  "zero_header = \<lparr>hdr_version = 0, channels = 0, preskip = 0, hdr_input_sample_rate = 0, gain = 0, channel_mapping = 0,
     nb_streams = 0, nb_coupled = 0, stream_map = replicate 255 0\<rparr>"

definition zero_packet :: ogg_packet where
  "zero_packet = \<lparr>op_packet = [], op_bytes = 0, op_b_o_s = 0, op_e_o_s = 0, op_granulepos = 0, op_packetno = 0\<rparr>"

definition zero_page :: ogg_page where
  "zero_page = \<lparr>header = [], header_len = 0, body = [], body_len = 0\<rparr>"

text \<open>The globals when the library is loaded.\<close>

definition initial_recorder :: "'e recorder" where
  "initial_recorder = \<lparr>rate = 48000, coding_rate = 48000, packetId = 0, encoder_ptr = None, packet_buf = None,
     stream_os = zero_stream, fileOs = None, inopt = zero_opt, opus_header = zero_header,
     min_bytes = 0, max_frame_bytes = 0, cur_op = zero_packet, cur_og = zero_page, bytes_written = 0, pages_out = 0,
     total_samples = 0, enc_granulepos = 0, last_granulepos = 0, size_segments = 0, last_segments = 0, files = Map.empty\<rparr>"

section \<open>Writing to the file\<close>

definition fwrite :: "'e recorder_env \<Rightarrow> string \<Rightarrow> bytes \<Rightarrow> (string \<rightharpoonup> bytes) \<Rightarrow> nat \<times> (string \<rightharpoonup> bytes)" where
  "fwrite env path bs fs =
     (case fs path of None \<Rightarrow> (0, fs)
      | Some content \<Rightarrow> let n = min (length bs) (file_takes env content (length bs)) in (n, fs(path \<mapsto> content @ take n bs)))"

text \<open>A page is written only while the file is open: a stream that gives pages exists only then.\<close>

definition writeOggPage :: "'e recorder_env \<Rightarrow> ogg_page \<Rightarrow> 'e recorder \<Rightarrow> int \<times> 'e recorder" where
  "writeOggPage env page r =
     (case fileOs r of None \<Rightarrow> (0, r)
      | Some path \<Rightarrow>
          let (written, fs) = fwrite env path (take (header_len page) (header page)) (files r);
              (more, fs) = fwrite env path (take (body_len page) (body page)) fs
          in (int (written + more), r\<lparr>files := fs\<rparr>))"

section \<open>Ending a recording\<close>

text \<open>The page that the first call may give is not written.\<close>

definition cleanupRecorder :: "'e recorder \<Rightarrow> 'e recorder" where
  "cleanupRecorder r =
     (let (_, og, os) = ogg_stream_flush (stream_os r) (cur_og r);
          r = r\<lparr>stream_os := os, cur_og := og\<rparr>;
          r = (if encoder_ptr r \<noteq> None then r\<lparr>encoder_ptr := None\<rparr> else r);
          r = r\<lparr>stream_os := the (snd (ogg_stream_clear (Some (stream_os r))))\<rparr>;
          r = (if packet_buf r \<noteq> None then r\<lparr>packet_buf := None\<rparr> else r);
          r = (if fileOs r \<noteq> None then r\<lparr>fileOs := None\<rparr> else r)
      in r\<lparr>packetId := -1, bytes_written := 0, pages_out := 0, total_samples := 0, enc_granulepos := 0,
           size_segments := 0, last_segments := 0, last_granulepos := 0,
           stream_os := zero_stream, inopt := zero_opt, opus_header := zero_header,
           cur_op := zero_packet, cur_og := zero_page\<rparr>)"

section \<open>Starting a recording\<close>

lemma flush_shrinks:
  assumes "ogg_stream_flush_i os og force nfill = (r, og', os')" "r \<noteq> 0"
  shows "lacing_fill os' < lacing_fill os"
proof -
  let ?max = "if lacing_fill os > 255 then 255 else lacing_fill os"
  obtain vals gp force' where c: "page_choice os ?max force nfill = (vals, gp, force')" by (cases "page_choice os ?max force nfill")
  have "0 < ?max" and os': "lacing_fill os' = lacing_fill os - vals"
    using assms by (auto simp: ogg_stream_flush_i_def c Let_def split: if_splits)
  with page_choice_bounds(1,2) [OF c] show ?thesis by (auto split: if_splits)
qed

lemma pageout_shrinks: "ogg_stream_pageout_fill os og nfill = (r, og', os') \<Longrightarrow> r \<noteq> 0 \<Longrightarrow> lacing_fill os' < lacing_fill os"
  by (auto simp: ogg_stream_pageout_fill_def Let_def split: if_splits dest: flush_shrinks)

lemma writeOggPage_stream [simp]: "writeOggPage env og r = (n, r') \<Longrightarrow> stream_os r' = stream_os r"
  by (auto simp: writeOggPage_def split: option.splits prod.splits)

text \<open>The loop that follows each header packet; \<open>False\<close> is a write that failed.\<close>

function header_pages :: "'e recorder_env \<Rightarrow> 'e recorder \<Rightarrow> bool \<times> 'e recorder" where
  "header_pages env r =
     (case ogg_stream_flush (stream_os r) (cur_og r) of (result, og, os) \<Rightarrow>
        if result = 0 then (True, r\<lparr>stream_os := os, cur_og := og\<rparr>)
        else case writeOggPage env og (r\<lparr>stream_os := os, cur_og := og\<rparr>) of (written, r) \<Rightarrow>
          if written \<noteq> int (header_len og + body_len og) then (False, r)
          else header_pages env (r\<lparr>bytes_written := bytes_written r + written, pages_out := pages_out r + 1\<rparr>))"
  by pat_completeness auto
termination
  by (relation "measure (\<lambda>(env, r). lacing_fill (stream_os r))")
    (auto simp: ogg_stream_flush_def dest!: flush_shrinks [OF sym] writeOggPage_stream [OF sym])

declare header_pages.simps [simp del]

text \<open>
  \<open>x * (48000.0 / rate)\<close> cut to an integer.  It is computed here without rounding; for the five rates for
  which there is an encoder the code's \<open>double\<close>s give the same: the quotient is exact for the preskip, and
  the nearest one for the extra output.
\<close>

definition preskip_of :: "int \<Rightarrow> int \<Rightarrow> int" where
  "preskip_of skip rt = skip * 48000 sdiv rt"

definition extraout_of :: "int \<Rightarrow> int \<Rightarrow> int" where
  "extraout_of pre rt = pre * rt sdiv 48000"

text \<open>A header packet enters the stream and the pages it makes are written.\<close>

definition header_packet :: "'e recorder_env \<Rightarrow> bytes \<Rightarrow> nat \<Rightarrow> int \<Rightarrow> int \<Rightarrow> 'e recorder \<Rightarrow> bool \<times> 'e recorder" where
  "header_packet env packet n bos number r =
     (let r = r\<lparr>cur_op := \<lparr>op_packet = packet, op_bytes = n, op_b_o_s = bos, op_e_o_s = 0, op_granulepos = 0,
                  op_packetno = number\<rparr>\<rparr>;
          (_, os) = ogg_stream_packetin (granted env) (stream_os r) (cur_op r)
      in header_pages env (r\<lparr>stream_os := os\<rparr>))"

text \<open>The steps of \<open>initRecorder\<close>: the file and the options, the encoder, the stream and its headers.\<close>

definition open_recording :: "'e recorder_env \<Rightarrow> string option \<Rightarrow> int \<Rightarrow> 'e recorder \<Rightarrow> bool \<times> 'e recorder" where
  "open_recording env path sampleRate r =
     (let r = cleanupRecorder r;
          r = r\<lparr>coding_rate := sampleRate, rate := sampleRate\<rparr>
      in case path of None \<Rightarrow> (False, r)
      | Some path \<Rightarrow>
        if \<not> openable env path then (False, r)
        else let r = r\<lparr>fileOs := Some path, files := (files r)(path \<mapsto> [])\<rparr>;
                 (cs, cs_length) = comment_init (fresh env) (opus_version env);
                 r = r\<lparr>inopt := (inopt r)\<lparr>opt_rate := rate r, opt_gain := 0, opt_samplesize := 16, opt_channels := 1,
                        opt_skip := 0, opt_comments := Some cs, opt_comments_length := cs_length\<rparr>\<rparr>
             in if rate r \<noteq> coding_rate r then (False, r)
                else (True, r\<lparr>opus_header := (opus_header r)\<lparr>channels := 1, channel_mapping := 0,
                        hdr_input_sample_rate := word_of_int (rate r), gain := opt_gain (inopt r), nb_streams := 1\<rparr>\<rparr>))"

definition open_encoder :: "'e recorder_env \<Rightarrow> 'e recorder \<Rightarrow> bool \<times> 'e recorder" where
  "open_encoder env r =
     (let (enc, result) = opus_create env (coding_rate r) 1 OPUS_APPLICATION_VOIP;
          r = r\<lparr>encoder_ptr := enc\<rparr>
      in if result \<noteq> OPUS_OK then (False, r)
         else let r = r\<lparr>max_frame_bytes := (1275 * 3 + 7) * nb_streams (opus_header r)\<rparr>;
                  r = r\<lparr>min_bytes := max_frame_bytes r, packet_buf := Some (fresh env (nat (max_frame_bytes r)))\<rparr>;
                  (result, enc) = opus_set_bitrate env (encoder_ptr r) bitrate;
                  r = r\<lparr>encoder_ptr := enc\<rparr>
              in if result \<noteq> OPUS_OK then (False, r)
         else let (_, enc) = opus_set_lsb_depth env (encoder_ptr r) (max 8 (min 24 (opt_samplesize (inopt r))));
                  r = r\<lparr>encoder_ptr := enc\<rparr>;
                  (result, lookahead) = opus_get_lookahead env (encoder_ptr r)
              in if result \<noteq> OPUS_OK then (False, r)
         else let r = r\<lparr>inopt := (inopt r)\<lparr>opt_skip := opt_skip (inopt r) + lookahead\<rparr>\<rparr>;
                  r = r\<lparr>opus_header := (opus_header r)\<lparr>preskip := preskip_of (opt_skip (inopt r)) (coding_rate r)\<rparr>\<rparr>
              in (True, r\<lparr>inopt := (inopt r)\<lparr>opt_extraout := extraout_of (preskip (opus_header r)) (rate r)\<rparr>\<rparr>))"

definition write_headers :: "'e recorder_env \<Rightarrow> 'e recorder \<Rightarrow> bool \<times> 'e recorder" where
  "write_headers env r =
     (let (result, os) = ogg_stream_init (granted env) (Some (stream_os r)) (random env);
          r = r\<lparr>stream_os := the os\<rparr>
      in if result = -1 then (False, r)
         else let (packet_size, header_data) = opus_header_to_packet (opus_header r) (fresh env 100) 100;
                  (ok, r) = header_packet env header_data (nat packet_size) 1 0 r
              in if \<not> ok then (False, r)
         else let (cs, cs_length) = comment_pad (fresh env) (the (opt_comments (inopt r))) (opt_comments_length (inopt r)) comment_padding;
                  r = r\<lparr>inopt := (inopt r)\<lparr>opt_comments := Some cs, opt_comments_length := cs_length\<rparr>\<rparr>;
                  (ok, r) = header_packet env cs cs_length 0 1 r
              in if \<not> ok then (False, r) else (True, r))"

definition initRecorder :: "'e recorder_env \<Rightarrow> string option \<Rightarrow> int \<Rightarrow> 'e recorder \<Rightarrow> int \<times> 'e recorder" where
  "initRecorder env path sampleRate r =
     (let (ok, r) = open_recording env path sampleRate r
      in if \<not> ok then (0, r) else let (ok, r) = open_encoder env r
      in if \<not> ok then (0, r) else let (ok, r) = write_headers env r
      in if \<not> ok then (0, r) else (1, r))"

section \<open>A frame\<close>

text \<open>What the encoder is given: a short frame is filled up with silence.\<close>

definition frame_pcm :: "'e recorder_env \<Rightarrow> bytes \<Rightarrow> nat \<Rightarrow> bytes" where
  "frame_pcm env pcm count =
     (let nb_samples = count div 2 in
      if nb_samples < frame_size
      then let padded = fresh env (frame_size * 2);
               padded = wr 0 (take count pcm) padded
           in wr (nb_samples * 2) (replicate (frame_size * 2 - nb_samples * 2) 0) padded
      else pcm)"

text \<open>The result is \<open>nbBytes\<close>; below 0 the frame is given up.\<close>

definition encode_frame :: "'e recorder_env \<Rightarrow> bytes \<Rightarrow> nat \<Rightarrow> 'e recorder \<Rightarrow> int \<times> 'e recorder" where
  "encode_frame env pcm count r =
     (if count div 2 \<noteq> 0
      then let (nbBytes, out, enc) =
                 opus_encode env (encoder_ptr r) (frame_pcm env pcm count) frame_size (max_frame_bytes r div 10);
               r = r\<lparr>encoder_ptr := enc, packet_buf := map_option (wr 0 out) (packet_buf r)\<rparr>
           in if nbBytes < 0 then (nbBytes, r)
              else (nbBytes, r\<lparr>enc_granulepos := enc_granulepos r + int frame_size * 48000 sdiv coding_rate r,
                               size_segments := (nbBytes + 255) div 255,
                               min_bytes := min nbBytes (min_bytes r)\<rparr>)
      else (0, r))"

text \<open>The body of the two loops: a page of the stream goes to the file.\<close>

definition data_page :: "'e recorder_env \<Rightarrow> ogg_page \<Rightarrow> 'e recorder \<Rightarrow> bool \<times> 'e recorder" where
  "data_page env og r =
     (let r = (if ogg_page_packets og \<noteq> 0 then r\<lparr>last_granulepos := sint (ogg_page_granulepos og)\<rparr> else r);
          r = r\<lparr>last_segments := last_segments r - int (unat (header og ! 26))\<rparr>;
          (written, r) = writeOggPage env og r
      in if written \<noteq> int (header_len og + body_len og) then (False, r)
         else (True, r\<lparr>bytes_written := bytes_written r + written, pages_out := pages_out r + 1\<rparr>))"

lemma data_page_stream [simp]: "data_page env og r = (ok, r') \<Longrightarrow> stream_os r' = stream_os r"
  by (auto simp: data_page_def Let_def split: if_splits prod.splits dest: writeOggPage_stream)

function pages_before :: "'e recorder_env \<Rightarrow> 'e recorder \<Rightarrow> bool \<times> 'e recorder" where
  "pages_before env r =
     (if size_segments r \<le> 255 \<and> last_segments r + size_segments r > 255 \<or>
         enc_granulepos r - last_granulepos r > max_ogg_delay
      then case ogg_stream_flush_fill (stream_os r) (cur_og r) (255 * 255) of (result, og, os) \<Rightarrow>
        if result = 0 then (True, r\<lparr>stream_os := os, cur_og := og\<rparr>)
        else case data_page env og (r\<lparr>stream_os := os, cur_og := og\<rparr>) of (ok, r) \<Rightarrow>
          if \<not> ok then (False, r) else pages_before env r
      else (True, r))"
  by pat_completeness auto
termination
  by (relation "measure (\<lambda>(env, r). lacing_fill (stream_os r))")
    (auto simp: ogg_stream_flush_fill_def dest!: flush_shrinks [OF sym] data_page_stream [OF sym])

declare pages_before.simps [simp del]

function pages_after :: "'e recorder_env \<Rightarrow> 'e recorder \<Rightarrow> bool \<times> 'e recorder" where
  "pages_after env r =
     (case (if op_e_o_s (cur_op r) \<noteq> 0 \<or>
               enc_granulepos r + int frame_size * 48000 sdiv coding_rate r - last_granulepos r > max_ogg_delay \<or>
               last_segments r \<ge> 255
            then ogg_stream_flush_fill (stream_os r) (cur_og r) (255 * 255)
            else ogg_stream_pageout_fill (stream_os r) (cur_og r) (255 * 255)) of (result, og, os) \<Rightarrow>
        if result = 0 then (True, r\<lparr>stream_os := os, cur_og := og\<rparr>)
        else case data_page env og (r\<lparr>stream_os := os, cur_og := og\<rparr>) of (ok, r) \<Rightarrow>
          if \<not> ok then (False, r) else pages_after env r)"
  by pat_completeness auto
termination
  by (relation "measure (\<lambda>(env, r). lacing_fill (stream_os r))")
    (auto simp: ogg_stream_flush_fill_def split: if_splits dest!: flush_shrinks [OF sym] pageout_shrinks [OF sym] data_page_stream [OF sym])

declare pages_after.simps [simp del]

definition writeFrame :: "'e recorder_env \<Rightarrow> bytes \<Rightarrow> nat \<Rightarrow> 'e recorder \<Rightarrow> int \<times> 'e recorder" where
  "writeFrame env framePcmBytes frameByteCount r =
     (let r = r\<lparr>packetId := packetId r + 1\<rparr>;
          nb_samples = frameByteCount div 2;
          r = r\<lparr>total_samples := total_samples r + int nb_samples\<rparr>;
          r = r\<lparr>cur_op := (cur_op r)\<lparr>op_e_o_s := if nb_samples < frame_size then 1 else 0\<rparr>\<rparr>;
          (nbBytes, r) = encode_frame env framePcmBytes frameByteCount r
      in if nbBytes < 0 then (0, r)
      else let (ok, r) = pages_before env r
      in if \<not> ok then (0, r)
      else let granulepos = (if op_e_o_s (cur_op r) \<noteq> 0
                             then (total_samples r * 48000 + rate r - 1) sdiv rate r + preskip (opus_header r)
                             else enc_granulepos r);
               r = r\<lparr>cur_op := (cur_op r)\<lparr>op_packet := the (packet_buf r), op_bytes := nat nbBytes, op_b_o_s := 0,
                        op_granulepos := word_of_int granulepos, op_packetno := 2 + packetId r\<rparr>\<rparr>;
               (_, os) = ogg_stream_packetin (granted env) (stream_os r) (cur_op r);
               r = r\<lparr>stream_os := os\<rparr>;
               r = r\<lparr>last_segments := last_segments r + size_segments r\<rparr>;
               (ok, r) = pages_after env r
      in if \<not> ok then (0, r) else (1, r))"

section \<open>The entry points\<close>

definition startRecord :: "'e recorder_env \<Rightarrow> ('j \<Rightarrow> string option) \<Rightarrow> 'j \<Rightarrow> int \<Rightarrow> 'e recorder \<Rightarrow> int \<times> 'e recorder" where
  "startRecord env chars path sampleRate r = initRecorder env (chars path) sampleRate r"

definition writeFrame_jni :: "'e recorder_env \<Rightarrow> ('b \<Rightarrow> bytes) \<Rightarrow> 'b \<Rightarrow> int \<Rightarrow> 'e recorder \<Rightarrow> int \<times> 'e recorder" where
  "writeFrame_jni env contents frame len r = writeFrame env (contents frame) (nat (len mod 2 ^ 32)) r"

definition stopRecord :: "'e recorder \<Rightarrow> 'e recorder" where
  "stopRecord r = cleanupRecorder r"

section \<open>A stream that holds one packet\<close>

lemma header_vals_lone:
  "(\<And>i. i < k \<Longrightarrow> lv ! (v + i) AND 0xff = 255) \<Longrightarrow> lv ! (v + k) AND 0xff < 255 \<Longrightarrow> header_vals lv (Suc k) v = v + k + 1"
proof (induction k arbitrary: v)
  case (Suc k)
  have "lv ! (v + 1 + i) AND 0xff = 255" if "i < k" for i using Suc.prems(1) [of "Suc i"] that by simp
  from Suc.IH [of "v + 1", OF this] have "header_vals lv (Suc k) (v + 1) = v + 1 + k + 1" using Suc.prems(2) by simp
  moreover have "lv ! v AND 0xff = 255" using Suc.prems(1) [of 0] by simp
  ultimately show ?case by simp
qed simp

lemma page_vals_lone:
  "(\<And>i. i < k \<Longrightarrow> lv ! (v + i) AND 0xff = 255) \<Longrightarrow> lv ! (v + k) AND 0xff < 255 \<Longrightarrow> just < 4 \<Longrightarrow>
     page_vals lv gv nfill (Suc k) v acc gp dn just force = (v + k + 1, gv ! (v + k), force)"
proof (induction k arbitrary: v acc gp dn just)
  case 0
  then show ?case by (simp add: Let_def)
next
  case (Suc k)
  have "lv ! (v + 1 + i) AND 0xff = 255" if "i < k" for i using Suc.prems(1) [of "Suc i"] that by simp
  note IH = Suc.IH [of "v + 1", OF this]
  have "lv ! v AND 0xff = 255" using Suc.prems(1) [of 0] by simp
  then have "page_vals lv gv nfill (Suc (Suc k)) v acc gp dn just force =
      page_vals lv gv nfill (Suc k) (v + 1) (acc + int (lv ! v AND 0xff)) gp dn 0 force"
    using Suc.prems(3) by (subst page_vals.simps(2)) (simp add: Let_def del: page_vals.simps)
  then show ?case using IH Suc.prems(2) by (simp del: page_vals.simps)
qed

lemma new_segments_nth:
  "i < n div 255 \<Longrightarrow> seg_len (new_segments n ! i) = 255" "seg_len (new_segments n ! (n div 255)) = n mod 255"
proof -
  have "seg_len (new_segments n ! i) = lacing n ! i" if "i \<le> n div 255" for i
    using arg_cong [OF seg_len_new_segments [of n], of "\<lambda>xs. xs ! i"] that by simp
  then show "i < n div 255 \<Longrightarrow> seg_len (new_segments n ! i) = 255" "seg_len (new_segments n ! (n div 255)) = n mod 255"
    by (simp_all add: lacing_def nth_append)
qed

text \<open>An empty queue and one packet: a page with all of it, and no second page.\<close>

lemma lone_choice:
  assumes "encoder os" "segments os = new_segments n" "granules os = gs @ [g]" "length gs = n div 255" "n div 255 < 255"
  shows "lacing_fill os = n div 255 + 1"
    "\<exists>gp force'. page_choice os (if lacing_fill os > 255 then 255 else lacing_fill os) 1 nfill = (n div 255 + 1, gp, force') \<and> force' \<noteq> 0 \<and>
      (b_o_s os \<noteq> 0 \<longrightarrow> gp = g)"
proof -
  let ?k = "n div 255"
  note i = stream_invD [OF encoderD(1) [OF assms(1)]] and e = encoderD(2,3) [OF assms(1)]
  have "length (segments os) = ?k + 1" by (simp add: assms(2))
  then show f: "lacing_fill os = ?k + 1" using i e by (simp add: segments_def)
  have lv: "lacing_vals os ! j AND 0xff = seg_len (new_segments n ! j)" if "j \<le> ?k" for j
    using that f e assms(2) [symmetric] by (simp add: segments_def seg_len_def)
  have full: "\<And>j. j < ?k \<Longrightarrow> lacing_vals os ! (0 + j) AND 0xff = 255" using lv new_segments_nth(1) by simp
  have "n mod 255 < 255" by simp
  then have last: "lacing_vals os ! (0 + ?k) AND 0xff < 255" using lv [of ?k] new_segments_nth(2) [of n] by simp
  have "granules os ! ?k = g" using assms(3,4) nth_append_length [of gs g "[]"] by simp
  then have gv: "granule_vals os ! ?k = g" using f e by (simp add: granules_def)
  have "(if lacing_fill os > 255 then 255 else lacing_fill os) = Suc ?k" using f assms(5) by simp
  then show "\<exists>gp force'. page_choice os (if lacing_fill os > 255 then 255 else lacing_fill os) 1 nfill = (?k + 1, gp, force') \<and> force' \<noteq> 0 \<and>
      (b_o_s os \<noteq> 0 \<longrightarrow> gp = g)"
    using header_vals_lone [OF full last] page_vals_lone [OF full last, of 0 "granule_vals os" nfill 0 "-1" 0 1] gv
    by (simp add: page_choice_def)
qed

lemma packets_from_lone:
  "(\<And>i. i < k \<Longrightarrow> h ! (27 + (v + i)) = 255) \<Longrightarrow> h ! (27 + (v + k)) < 255 \<Longrightarrow> packets_from h v (Suc k) c = c + 1"
  for h :: bytes
proof (induction k arbitrary: v c)
  case (Suc k)
  have "h ! (27 + (v + 1 + i)) = 255" if "i < k" for i using Suc.prems(1) [of "Suc i"] that by simp
  note IH = Suc.IH [of "v + 1", OF this]
  have "h ! (27 + v) = 255" using Suc.prems(1) [of 0] by simp
  then have "packets_from h v (Suc (Suc k)) c = packets_from h (v + 1) (Suc k) c"
    by (subst packets_from.simps(2)) (simp del: packets_from.simps)
  then show ?case using IH Suc.prems(2) by simp
qed simp

text \<open>What the page of a packet \<open>p\<close> is.\<close>

definition packet_page :: "bytes \<Rightarrow> ogg_page \<Rightarrow> bool" where
  "packet_page p og \<longleftrightarrow> page_segments og = lacing (length p) \<and> page_body og = p \<and> ogg_page_packets og = 1 \<and>
     unat (header og ! 26) = length p div 255 + 1 \<and> header_len og = 28 + length p div 255 \<and> body_len og = length p \<and>
     length (page_bytes og) = 28 + length p div 255 + length p"

text \<open>A page that a decoder of the stream takes as its page \<open>k\<close>, begun with a new packet.\<close>

definition numbered :: "int \<Rightarrow> int \<Rightarrow> ogg_page \<Rightarrow> bool" where
  "numbered serial k og \<longleftrightarrow> ogg_page_version og = 0 \<and> ogg_page_continued og = 0 \<and> length (header og) = 282 \<and>
     body_len og \<le> length (body og) \<and> (-(2 ^ 31) \<le> serial \<and> serial < 2 ^ 31 \<longrightarrow> ogg_page_serialno og = serial) \<and>
     (0 \<le> k \<and> k < 2 ^ 31 \<longrightarrow> ogg_page_pageno og = k)"

lemma lone_packet:
  assumes "encoder os" "segments os = []" "ogg_stream_packetin alloc os pkt = (0, os1)" "length (packet_of pkt) < 255 * 255"
    and "ogg_stream_flush_i os1 og 1 nfill = (r, og', os2)"
  shows "r = 1 \<and> encoder os2 \<and> segments os2 = [] \<and> packet_page (packet_of pkt) og' \<and> paged os1 og' os2 \<and> numbered (serialno os) (page_number os) og' \<and>
    b_o_s os2 = 1 \<and> e_o_s os2 = (if op_e_o_s pkt \<noteq> 0 then 1 else e_o_s os) \<and> serialno os2 = serialno os \<and>
    pageno os2 = page_number os + 1 \<and> (b_o_s os \<noteq> 0 \<longrightarrow> ogg_page_granulepos og' = op_granulepos pkt) \<and>
    (ogg_page_bos og' \<noteq> 0 \<longleftrightarrow> b_o_s os = 0) \<and> (ogg_page_eos og' \<noteq> 0 \<longleftrightarrow> op_e_o_s pkt \<noteq> 0 \<or> e_o_s os \<noteq> 0)"
proof -
  let ?p = "packet_of pkt" and ?n = "length (packet_of pkt)"
  have run: "ogg_stream_iovecin alloc os (Some [?p]) (op_e_o_s pkt) (op_granulepos pkt) = (0, os1)"
    using assms(3) by (simp add: ogg_stream_packetin_def packet_of_def)
  note e = encoderD [OF assms(1)]
  have push: "encoder os1" "segments os1 = new_segments ?n" "pending_body os1 = ?p"
    "e_o_s os1 = (if op_e_o_s pkt \<noteq> 0 then 1 else e_o_s os)" "b_o_s os1 = b_o_s os" "serialno os1 = serialno os" "pageno os1 = pageno os"
    "granules os1 = (granules os @ replicate (?n div 255) (granulepos os)) @ [op_granulepos pkt]"
    using iovecin [OF e(1) run] assms(2) e enc.empty_content [OF assms(1)] by (simp_all add: encoder_def queued_def)
  have "granules os = []" using assms(2) stream_invD [OF e(1)] e by (auto simp: granules_def segments_def)
  then have gl: "length (granules os @ replicate (?n div 255) (granulepos os)) = ?n div 255" by simp
  have k: "?n div 255 < 255" using assms(4) by (simp add: div_less_iff_less_mult)
  note lf = lone_choice(1) [OF push(1,2,8) gl k]
  obtain gp force' where c: "page_choice os1 (if lacing_fill os1 > 255 then 255 else lacing_fill os1) 1 nfill = (?n div 255 + 1, gp, force')"
    "force' \<noteq> 0" "b_o_s os1 \<noteq> 0 \<Longrightarrow> gp = op_granulepos pkt"
    using lone_choice(2) [OF push(1,2,8) gl k] by blast
  have "lacing_fill os1 \<noteq> 0" using lf by simp
  note f = flush_chosen [OF encoderD [OF push(1)] assms(5) c(1) this c(2)]
  then have v: "0 < ?n div 255 + 1" "?n div 255 + 1 \<le> 255" "?n div 255 + 1 \<le> length (segments os1)"
    and p: "page_of os1 (?n div 255 + 1) gp og'" by - (elim conjE, assumption)+
  note fl = page_of_fields [OF p v] and co = page_of_contents [OF p v(2)]
  have q: "take (?n div 255 + 1) (queued os1) = lacing ?n" by (simp add: queued_def push(2) seg_len_new_segments)
  have body: "body_len og' = ?n" "page_body og' = ?p" using co push(3) q by simp_all
  have sizes: "header_len og' = 28 + ?n div 255" "length (header og') = 282" "body_len og' \<le> length (body og')"
    using p by (simp_all add: page_of_def)
  have h: "unat (header og' ! (27 + i)) = seg_len (new_segments ?n ! i)" if "i < ?n div 255 + 1" for i
    using fl(9) [OF that] by (simp add: push(2))
  have full: "header og' ! (27 + (0 + i)) = 255" if "i < ?n div 255" for i
    using h [of i] that new_segments_nth(1) [OF that] by (simp add: word_unat_eq_iff)
  have "unat (header og' ! (27 + (0 + ?n div 255))) < 255" using h [of "?n div 255"] new_segments_nth(2) [of ?n] by simp
  then have "header og' ! (27 + (0 + ?n div 255)) < 255" by (simp add: word_less_nat_alt)
  from packets_from_lone [OF full this] have "ogg_page_packets og' = 1" using fl(8) by (simp add: ogg_page_packets_def)
  then have "packet_page ?p og'"
    using co(1) q body fl(8) sizes v(2) by (simp add: packet_page_def page_bytes_def)
  moreover have "segments os2 = []" using f by (simp add: push(2))
  moreover have "encoder os2" using f by (simp add: encoder_def)
  moreover have "paged os1 og' os2" using assms(5) f by (auto simp: paged_def)
  moreover have "page_number os1 = page_number os" by (simp add: page_number_def push(7))
  moreover have "numbered (serialno os) (page_number os) og'"
  proof -
    have "segments os1 ! 0 AND 0x100 \<noteq> 0"
      using bit8_flag [of "lacing ?n ! 0"] bit8 by (simp add: push(2) new_segments_def)
    moreover have "lacing_vals os1 ! 0 = segments os1 ! 0"
      using lf stream_invD [OF encoderD(1) [OF push(1)]] encoderD(2) [OF push(1)] by (simp add: segments_def)
    ultimately show ?thesis
      using fl(1,2,6,7) sizes by (simp add: numbered_def push(6) \<open>page_number os1 = page_number os\<close>)
  qed
  ultimately show ?thesis using f fl(3-5) c(3) lf by (simp add: push)
qed

lemma empty_flush:
  assumes "encoder os" "segments os = []"
  shows "ogg_stream_flush_i os og force nfill = (0, og, os)"
    "ogg_stream_flush os og = (0, og, os)" "ogg_stream_flush_fill os og nfill = (0, og, os)"
    "ogg_stream_pageout_fill os og nfill = (0, og, os)"
proof -
  have "lacing_fill os = 0"
    using assms stream_invD [OF encoderD(1) [OF assms(1)]] encoderD(2) [OF assms(1)] by (auto simp: segments_def)
  then show f: "ogg_stream_flush_i os og force nfill = (0, og, os)" for force nfill
    using stream_inv_check [OF encoderD(1) [OF assms(1)]] by (simp add: ogg_stream_flush_i_def)
  show "ogg_stream_flush os og = (0, og, os)" "ogg_stream_flush_fill os og nfill = (0, og, os)"
    "ogg_stream_pageout_fill os og nfill = (0, og, os)"
    using f stream_inv_check [OF encoderD(1) [OF assms(1)]]
    by (simp_all add: ogg_stream_flush_def ogg_stream_flush_fill_def ogg_stream_pageout_fill_def Let_def)
qed

lemma forced_pageout:
  assumes "encoder os" "segments os \<noteq> []" "e_o_s os \<noteq> 0"
  shows "ogg_stream_pageout_fill os og nfill = ogg_stream_flush_i os og 1 nfill"
proof -
  have "lacing_fill os \<noteq> 0" using assms(2) by (auto simp: segments_def)
  then show ?thesis
    using assms(3) stream_inv_check [OF encoderD(1) [OF assms(1)]] by (simp add: ogg_stream_pageout_fill_def)
qed

section \<open>Pages reach the file whole\<close>

lemma writeOggPage_all:
  assumes "writeOggPage env og r = (written, r')" "written = int (header_len og + body_len og)"
    and "fileOs r = Some path" "files r path = Some content" "length (page_bytes og) = header_len og + body_len og"
  shows "r' = r\<lparr>files := (files r)(path \<mapsto> content @ page_bytes og)\<rparr>"
proof -
  let ?h = "take (header_len og) (header og)" and ?b = "take (body_len og) (body og)"
  have len: "length ?h + length ?b = header_len og + body_len og" using assms(5) by (simp add: page_bytes_def)
  moreover have "length ?h \<le> header_len og" "length ?b \<le> body_len og" by simp_all
  ultimately have l: "length ?h = header_len og" "length ?b = body_len og" by linarith+
  let ?n = "min (length ?h) (file_takes env content (length ?h))"
  let ?m = "min (length ?b) (file_takes env (content @ take ?n ?h) (length ?b))"
  have r': "written = int (?n + ?m)" "r' = r\<lparr>files := (files r)(path \<mapsto> (content @ take ?n ?h) @ take ?m ?b)\<rparr>"
    using assms(1,3,4) by (simp_all add: writeOggPage_def fwrite_def Let_def)
  have "?n \<le> length ?h" "?m \<le> length ?b" by (rule min.cobounded1)+
  moreover have "?n + ?m = length ?h + length ?b" using r'(1) assms(2) len by linarith
  ultimately have "?n = length ?h" "?m = length ?b" by linarith+
  then have "take ?n ?h = ?h" "take ?m ?b = ?b" by (simp_all only: take_all order.refl)
  then show ?thesis using r'(2) by (simp only: page_bytes_def append_assoc)
qed

text \<open>A file that takes whatever is written to it.\<close>

definition takes_all :: "'e recorder_env \<Rightarrow> bool" where
  "takes_all env \<longleftrightarrow> (\<forall>content n. n \<le> file_takes env content n)"

lemma writeOggPage_takes:
  assumes "takes_all env" "fileOs r = Some path" "files r path = Some content" "length (page_bytes og) = header_len og + body_len og"
  shows "fst (writeOggPage env og r) = int (header_len og + body_len og)"
proof -
  have "min n (file_takes env c n) = n" for c n using assms(1) by (simp add: takes_all_def min_absorb1)
  then show ?thesis using assms(2-4) by (simp add: writeOggPage_def fwrite_def page_bytes_def Let_def del: length_take)
qed

lemma packet_page_length: "packet_page p og \<Longrightarrow> length (page_bytes og) = header_len og + body_len og"
  by (simp add: packet_page_def)

lemma data_page_all:
  assumes "data_page env og r = (True, r')" "fileOs r = Some path" "files r path = Some content" "packet_page p og"
  shows "r' = r\<lparr>last_granulepos := sint (ogg_page_granulepos og), last_segments := last_segments r - int (length p div 255 + 1),
      files := (files r)(path \<mapsto> content @ page_bytes og), bytes_written := bytes_written r + int (length (page_bytes og)),
      pages_out := pages_out r + 1\<rparr>"
proof -
  let ?r = "r\<lparr>last_granulepos := sint (ogg_page_granulepos og), last_segments := last_segments r - int (length p div 255 + 1)\<rparr>"
  note pl = packet_page_length [OF assms(4)]
  have "int (unat (header og ! 26)) = int (length p div 255 + 1)" using assms(4) by (simp only: packet_page_def)
  then have u: "uint (header og ! 26) = int (length p div 255 + 1)" by simp
  obtain written r1 where w: "writeOggPage env og ?r = (written, r1)" by fastforce
  have d: "written = int (header_len og + body_len og)"
    "r' = r1\<lparr>bytes_written := bytes_written r1 + written, pages_out := pages_out r1 + 1\<rparr>"
    using assms(1) w assms(4) by (simp_all add: data_page_def packet_page_def u Let_def split: if_splits)
  have "r1 = ?r\<lparr>files := (files ?r)(path \<mapsto> content @ page_bytes og)\<rparr>"
    by (rule writeOggPage_all [OF w d(1) _ _ pl]) (simp_all add: assms)
  then show ?thesis using d pl by simp
qed

lemma data_page_takes:
  assumes "data_page env og r = (ok, r')" "fileOs r = Some path" "files r path = Some content" "packet_page p og" "takes_all env"
  shows ok
proof -
  let ?r = "(if ogg_page_packets og \<noteq> 0 then r\<lparr>last_granulepos := sint (ogg_page_granulepos og)\<rparr> else r)
    \<lparr>last_segments := last_segments r - int (unat (header og ! 26))\<rparr>"
  have "fst (writeOggPage env og ?r) = int (header_len og + body_len og)"
    by (rule writeOggPage_takes [of env ?r path content, OF assms(5) _ _ packet_page_length [OF assms(4)]]) (simp_all add: assms(2,3))
  then show ?thesis using assms(1) by (auto simp: data_page_def Let_def split: if_splits prod.splits)
qed

section \<open>Room for a packet\<close>

lemma iov_copy_storage: "body_storage (iov_copy iov os) = body_storage os \<and> lacing_storage (iov_copy iov os) = lacing_storage os"
  by (induction iov arbitrary: os) simp_all

lemma full_segments_storage:
  "body_storage (full_segments i n os) = body_storage os \<and> lacing_storage (full_segments i n os) = lacing_storage os"
  by (induction n arbitrary: i os) simp_all

lemma store_packet_storage:
  "body_storage (store_packet iov n g os) = body_storage os \<and> lacing_storage (store_packet iov n g os) = lacing_storage os"
  by (simp add: store_packet_def Let_def full_segments_storage iov_copy_storage)

text \<open>Into an empty stream a packet of less than 16 KB goes without any memory being asked for.\<close>

definition roomy :: "ogg_stream_state \<Rightarrow> bool" where
  "roomy os \<longleftrightarrow> encoder os \<and> segments os = [] \<and> 16384 \<le> body_storage os \<and> 1024 \<le> lacing_storage os"

lemma small_packetin:
  assumes "roomy os" "length (packet_of pkt) < 16384"
  shows "\<exists>os1. ogg_stream_packetin alloc os pkt = (0, os1) \<and> body_storage os1 = body_storage os \<and> lacing_storage os1 = lacing_storage os"
proof -
  have r: "encoder os" "segments os = []" "16384 \<le> body_storage os" "1024 \<le> lacing_storage os" using assms(1) by (simp_all add: roomy_def)
  note i = stream_invD [OF encoderD(1) [OF r(1)]]
  let ?p = "packet_of pkt" and ?os = "drop_returned_body os"
  let ?n = "length ?p"
  have "body_fill os = body_returned os" using i(5,10) r(2) by simp
  then have d: "body_fill ?os = 0" "body_storage ?os = body_storage os" "lacing_storage ?os = lacing_storage os" "lacing_fill ?os = lacing_fill os"
    by (simp_all add: drop_returned_body_def Let_def)
  have lf: "lacing_fill os = 0" using r i encoderD(2) [OF r(1)] by (auto simp: segments_def)
  have "?n div 255 \<le> 64" using assms(2) div_le_mono [of ?n 16383 255] by simp
  then have l: "\<not> lacing_storage ?os \<le> lacing_fill ?os + (?n div 255 + 1)" using d(3,4) lf r(4) by linarith
  have b: "\<not> body_storage ?os \<le> body_fill ?os + ?n" using d(1,2) r(3) assms(2) by linarith
  have t: "iov_total [?p] 0 = Some ?n" using assms(2) by simp
  have e1: "os_body_expand alloc ?os ?n = (0, ?os)" using b by (simp only: os_body_expand_def if_False)
  have e2: "os_lacing_expand alloc ?os (?n div 255 + 1) = (0, ?os)" using l by (simp only: os_lacing_expand_def if_False)
  have "ogg_stream_packetin alloc os pkt =
      (0, if op_e_o_s pkt \<noteq> 0 then (store_packet [?p] ?n (op_granulepos pkt) ?os)\<lparr>e_o_s := 1\<rparr>
          else store_packet [?p] ?n (op_granulepos pkt) ?os)"
    using stream_inv_check [OF encoderD(1) [OF r(1)]] t e1 e2
    by (simp add: ogg_stream_packetin_def ogg_stream_iovecin_def packet_of_def Let_def)
  then show ?thesis using d store_packet_storage [of "[?p]" ?n "op_granulepos pkt" ?os] by simp
qed

lemma flush_storage:
  "ogg_stream_flush_i os og force nfill = (r, og', os') \<Longrightarrow> body_storage os' = body_storage os \<and> lacing_storage os' = lacing_storage os"
  by (auto simp: ogg_stream_flush_i_def Let_def split: if_splits prod.splits)

text \<open>A packet goes in and comes out as one page.\<close>

lemma packet_through:
  assumes "roomy os" "length (packet_of pkt) < 16384"
  obtains os1 pg os2 where "ogg_stream_packetin alloc os pkt = (0, os1)" "encoder os1" "segments os1 \<noteq> []"
    "e_o_s os1 = (if op_e_o_s pkt \<noteq> 0 then 1 else e_o_s os)"
    "ogg_stream_flush_i os1 og 1 nfill = (1, pg, os2)" "roomy os2" "packet_page (packet_of pkt) pg"
    "numbered (serialno os) (page_number os) pg" "b_o_s os2 = 1" "e_o_s os2 = (if op_e_o_s pkt \<noteq> 0 then 1 else e_o_s os)" "serialno os2 = serialno os"
    "pageno os2 = page_number os + 1" "b_o_s os \<noteq> 0 \<Longrightarrow> ogg_page_granulepos pg = op_granulepos pkt"
    "ogg_page_bos pg \<noteq> 0 \<longleftrightarrow> b_o_s os = 0" "ogg_page_eos pg \<noteq> 0 \<longleftrightarrow> op_e_o_s pkt \<noteq> 0 \<or> e_o_s os \<noteq> 0"
proof -
  have r: "encoder os" "segments os = []" "16384 \<le> body_storage os" "1024 \<le> lacing_storage os" using assms(1) by (simp_all add: roomy_def)
  obtain os1 where p: "ogg_stream_packetin alloc os pkt = (0, os1)" "body_storage os1 = body_storage os" "lacing_storage os1 = lacing_storage os"
    using small_packetin [OF assms] by blast
  obtain rr pg os2 where f: "ogg_stream_flush_i os1 og 1 nfill = (rr, pg, os2)" by (metis prod_cases3)
  have "length (packet_of pkt) < 255 * 255" using assms(2) by simp
  note l = lone_packet [OF r(1,2) p(1) this f]
  have "ogg_stream_iovecin alloc os (Some [packet_of pkt]) (op_e_o_s pkt) (op_granulepos pkt) = (0, os1)"
    using p(1) by (simp add: ogg_stream_packetin_def packet_of_def)
  from iovecin [OF encoderD(1) [OF r(1)] this]
  have s: "segments os1 = segments os @ new_segments (length (packet_of pkt))" "e_o_s os1 = (if op_e_o_s pkt \<noteq> 0 then 1 else e_o_s os)"
    by simp_all
  have "new_segments (length (packet_of pkt)) \<noteq> []"
    by (rule length_greater_0_conv [THEN iffD1]) (simp only: length_new_segments)
  then have "segments os1 \<noteq> []" using s(1) by simp
  moreover have "pushed os (packet_of pkt) os1" using p(1) by (auto simp: pushed_def packet_of_def)
  then have "encoder os1" using enc.push [OF r(1)] by blast
  moreover have "roomy os2" using l r p flush_storage [OF f] by (simp add: roomy_def)
  moreover have "ogg_stream_flush_i os1 og 1 nfill = (1, pg, os2)" using l f by simp
  ultimately show ?thesis using that [OF p(1) _ _ s(2)] l by simp
qed

section \<open>A recording under way\<close>

text \<open>
  What the codec documents: an encoder is created for five rates, and \<open>opus_encode\<close> gives an error or the
  number of bytes of the packet, at most as many as it was allowed.  The version is a short text.
\<close>

definition env_ok :: "'e recorder_env \<Rightarrow> bool" where
  "env_ok env \<longleftrightarrow>
     (\<forall>n. length (fresh env n) = n) \<and> length (opus_version env) < 15000 \<and>
     (\<forall>rt ch app enc. opus_create env rt ch app = (enc, OPUS_OK) \<longrightarrow> rt \<in> {8000, 12000, 16000, 24000, 48000}) \<and>
     (\<forall>enc pcm n space nb out enc'. opus_encode env enc pcm n space = (nb, out, enc') \<longrightarrow> 0 \<le> nb \<longrightarrow>
        nb \<le> space \<and> length out = nat nb)"

text \<open>
  The packets \<open>ps\<close> have been submitted, the file holds the pages \<open>pgs\<close>, a page for each packet, and the
  stream is empty.
\<close>

definition recording :: "int \<Rightarrow> string \<Rightarrow> bytes list \<Rightarrow> ogg_page list \<Rightarrow> 'e recorder \<Rightarrow> bool" where
  "recording serial path ps pgs r \<longleftrightarrow>
     serialno (stream_os r) = serial \<and> (\<forall>k < length pgs. numbered serial (int k) (pgs ! k)) \<and> roomy (stream_os r) \<and> b_o_s (stream_os r) = (if pgs = [] then 0 else 1) \<and> pageno (stream_os r) = int (length pgs) \<and>
     fileOs r = Some path \<and> files r path = Some (concat (map page_bytes pgs)) \<and> list_all2 packet_page ps pgs \<and>
     (\<forall>p \<in> set ps. length p < 16384) \<and> bytes_written r = int (length (concat (map page_bytes pgs))) \<and> pages_out r = int (length pgs)"

lemma recording_next:
  assumes "recording serial path ps pgs r" "numbered serial (page_number (stream_os r)) pg" "serialno os2 = serial" "length p < 16384" "packet_page p pg" "roomy os2" "b_o_s os2 = 1" "pageno os2 = page_number (stream_os r) + 1"
    and "stream_os r' = os2" "fileOs r' = fileOs r" "files r' = (files r)(path \<mapsto> the (files r path) @ page_bytes pg)"
    "bytes_written r' = bytes_written r + int (length (page_bytes pg))" "pages_out r' = pages_out r + 1"
  shows "recording serial path (ps @ [p]) (pgs @ [pg]) r'"
  using assms by (auto simp: recording_def page_number_def list_all2_appendI nth_append less_Suc_eq)

text \<open>What \<open>writeFrame\<close> needs of the other fields.\<close>

definition running :: "'e recorder \<Rightarrow> bool" where
  "running r \<longleftrightarrow>
     coding_rate r \<in> {8000, 12000, 16000, 24000, 48000} \<and> rate r = coding_rate r \<and> max_frame_bytes r = 3832 \<and>
     map_option length (packet_buf r) = Some 3832 \<and>
     (e_o_s (stream_os r) \<noteq> 0 \<or> last_granulepos r = enc_granulepos r)"

lemma flush_is_flush_i: "ogg_stream_flush os og = ogg_stream_flush_i os og 1 4096"
  "ogg_stream_flush_fill os og nfill = ogg_stream_flush_i os og 1 nfill"
  by (simp_all add: ogg_stream_flush_def ogg_stream_flush_fill_def)

lemma roomyD: "roomy os \<Longrightarrow> encoder os" "roomy os \<Longrightarrow> segments os = []"
  by (simp_all add: roomy_def)

lemma header_pages_done:
  assumes "roomy (stream_os r)"
  shows "header_pages env r = (True, r)"
  by (subst header_pages.simps) (simp add: empty_flush(2) [OF roomyD [OF assms]])

lemma pages_before_done:
  assumes "roomy (stream_os r)"
  shows "pages_before env r = (True, r)"
  by (subst pages_before.simps) (simp add: empty_flush(3) [OF roomyD [OF assms]])

lemma pages_after_done:
  assumes "roomy (stream_os r)"
  shows "pages_after env r = (True, r)"
  by (subst pages_after.simps) (simp add: empty_flush(3,4) [OF roomyD [OF assms]])

lemma header_packet_written:
  assumes "recording serial path ps pgs r" "header_packet env packet n bos number r = (ok, r')" "length (take n packet) < 16384"
  shows "\<not> ok \<and> \<not> takes_all env \<or> ok \<and> (\<exists>pg. recording serial path (ps @ [take n packet]) (pgs @ [pg]) r' \<and>
    r' = r\<lparr>cur_op := cur_op r', stream_os := stream_os r', cur_og := pg, files := files r', bytes_written := bytes_written r',
      pages_out := pages_out r'\<rparr> \<and> e_o_s (stream_os r') = e_o_s (stream_os r))"
proof -
  let ?pkt = "\<lparr>op_packet = packet, op_bytes = n, op_b_o_s = bos, op_e_o_s = 0, op_granulepos = 0, op_packetno = number\<rparr>"
  have room: "roomy (stream_os r)" and f: "fileOs r = Some path" "files r path = Some (concat (map page_bytes pgs))"
    using assms(1) by (simp_all add: recording_def)
  have pk: "packet_of ?pkt = take n packet" by (simp add: packet_of_def)
  obtain os1 pg os2 where p: "ogg_stream_packetin (granted env) (stream_os r) ?pkt = (0, os1)"
    and fl: "ogg_stream_flush_i os1 (cur_og r) 1 4096 = (1, pg, os2)" and os2: "roomy os2" "packet_page (take n packet) pg" "b_o_s os2 = 1"
      "numbered (serialno (stream_os r)) (page_number (stream_os r)) pg" "serialno os2 = serialno (stream_os r)" "e_o_s os2 = e_o_s (stream_os r)" "pageno os2 = page_number (stream_os r) + 1"
    by (rule packet_through [OF room, of ?pkt "granted env" "cur_og r" 4096]) (use assms(3) pk in auto)
  let ?r = "r\<lparr>cur_op := ?pkt, stream_os := os1\<rparr>"
  have run: "header_pages env ?r = (ok, r')" using assms(2) p by (simp add: header_packet_def)
  have fl': "ogg_stream_flush (stream_os ?r) (cur_og ?r) = (1, pg, os2)" using fl by (simp add: flush_is_flush_i)
  obtain w r1 where w: "writeOggPage env pg (?r\<lparr>stream_os := os2, cur_og := pg\<rparr>) = (w, r1)" by fastforce
  have ser: "serialno (stream_os r) = serial" using assms(1) by (simp add: recording_def)
  note pl = packet_page_length [OF os2(2)]
  note loop = run [unfolded header_pages.simps [of env ?r] fl' prod.case w]
  show ?thesis
  proof (cases "w = int (header_len pg + body_len pg)")
    case False
    moreover have "\<not> takes_all env"
      using False w f writeOggPage_takes [of env "?r\<lparr>stream_os := os2, cur_og := pg\<rparr>" path _ pg, OF _ _ _ pl] by auto
    ultimately show ?thesis using loop by simp
  next
    case True
    note wr = True
    have rest: "header_pages env (r1\<lparr>bytes_written := bytes_written r1 + w, pages_out := pages_out r1 + 1\<rparr>) = (ok, r')"
      using loop True by simp
    have r1: "r1 = r\<lparr>cur_op := ?pkt, stream_os := os2, cur_og := pg, files := (files r)(path \<mapsto> concat (map page_bytes pgs) @ page_bytes pg)\<rparr>"
      using writeOggPage_all [OF w wr _ _ pl] f by simp
    then have "roomy (stream_os (r1\<lparr>bytes_written := bytes_written r1 + w, pages_out := pages_out r1 + 1\<rparr>))" using os2(1) by simp
    from header_pages_done [OF this] rest
    have r': "ok" "r' = r\<lparr>cur_op := ?pkt, stream_os := os2, cur_og := pg, files := (files r)(path \<mapsto> concat (map page_bytes pgs) @ page_bytes pg),
        bytes_written := bytes_written r + int (length (page_bytes pg)), pages_out := pages_out r + 1\<rparr>"
      using r1 wr pl by simp_all
    have "recording serial path (ps @ [take n packet]) (pgs @ [pg]) r'"
      by (rule recording_next [OF assms(1) _ _ _ os2(2,1,3,7)]) (use os2(4,5) ser assms(3) in \<open>simp_all add: r'(2) f\<close>)
    then show ?thesis using r' os2(6) by auto
  qed
qed

text \<open>What a frame adds: its packet, and the time it takes at 48 kHz.\<close>

definition frame_packet :: "'e recorder_env \<Rightarrow> bytes \<Rightarrow> nat \<Rightarrow> 'e recorder \<Rightarrow> bytes" where
  "frame_packet env pcm count r =
     (if count div 2 \<noteq> 0
      then fst (snd (opus_encode env (encoder_ptr r) (frame_pcm env pcm count) frame_size (max_frame_bytes r div 10)))
      else [])"

definition frame_end :: "nat \<Rightarrow> 'e recorder \<Rightarrow> int" where
  "frame_end count r = (if count div 2 \<noteq> 0 then enc_granulepos r + int frame_size * 48000 sdiv coding_rate r else enc_granulepos r)"

definition frame_granule :: "nat \<Rightarrow> 'e recorder \<Rightarrow> int" where
  "frame_granule count r =
     (if count div 2 < frame_size
      then ((total_samples r + int (count div 2)) * 48000 + rate r - 1) sdiv rate r + preskip (opus_header r)
      else frame_end count r)"

lemma frame_time: "running r \<Longrightarrow> 960 \<le> int frame_size * 48000 sdiv coding_rate r \<and> int frame_size * 48000 sdiv coding_rate r \<le> 5760"
  by (auto simp: running_def frame_size_def signed_divide_int_def)

lemma encode_frame_stored:
  assumes "env_ok env" "running r" "encode_frame env pcm count r = (nb, r1)" "0 \<le> nb"
  shows "length (frame_packet env pcm count r) = nat nb" "nat nb \<le> 383"
    "take (nat nb) (the (packet_buf r1)) = frame_packet env pcm count r" "map_option length (packet_buf r1) = Some 3832"
    "r1 = r\<lparr>encoder_ptr := encoder_ptr r1, packet_buf := packet_buf r1, min_bytes := min_bytes r1,
       enc_granulepos := frame_end count r, size_segments := size_segments r1\<rparr>"
proof -
  obtain buf where buf: "packet_buf r = Some buf" "length buf = 3832" and m: "max_frame_bytes r = 3832"
    using assms(2) by (auto simp: running_def)
  have "length (frame_packet env pcm count r) = nat nb \<and> nat nb \<le> 383 \<and>
      take (nat nb) (the (packet_buf r1)) = frame_packet env pcm count r \<and> map_option length (packet_buf r1) = Some 3832 \<and>
      r1 = r\<lparr>encoder_ptr := encoder_ptr r1, packet_buf := packet_buf r1, min_bytes := min_bytes r1,
        enc_granulepos := frame_end count r, size_segments := size_segments r1\<rparr>" (is ?all)
  proof (cases "count div 2 = 0")
    case True
    then have "nb = 0" "r1 = r" using assms(3) by (simp_all add: encode_frame_def)
    then show ?all
      using True buf by (simp add: frame_packet_def frame_end_def)
  next
    case False
    obtain nb' out enc where o: "opus_encode env (encoder_ptr r) (frame_pcm env pcm count) frame_size (max_frame_bytes r div 10) = (nb', out, enc)"
      by (metis prod_cases3)
    have run: "nb = nb'" "r1 = r\<lparr>encoder_ptr := enc, packet_buf := Some (wr 0 out buf), enc_granulepos := frame_end count r,
        size_segments := (nb + 255) div 255, min_bytes := min nb (min_bytes r)\<rparr>"
      using assms(3,4) False o buf by (auto simp: encode_frame_def frame_end_def Let_def split: if_splits)
    have "nb \<le> max_frame_bytes r div 10 \<and> length out = nat nb"
      using assms(1,4) o run(1) unfolding env_ok_def by blast
    then have l: "nat nb \<le> 383" "length out = nat nb" using m by (simp_all add: nat_le_iff)
    have "take (nat nb) (wr 0 out buf) = out" using l by (simp add: wr_def)
    moreover have "length (wr 0 out buf) = 3832" using l buf(2) by simp
    ultimately show ?all
      using False l o run by (simp add: frame_packet_def)
  qed
  then show "length (frame_packet env pcm count r) = nat nb" "nat nb \<le> 383"
    "take (nat nb) (the (packet_buf r1)) = frame_packet env pcm count r" "map_option length (packet_buf r1) = Some 3832"
    "r1 = r\<lparr>encoder_ptr := encoder_ptr r1, packet_buf := packet_buf r1, min_bytes := min_bytes r1,
       enc_granulepos := frame_end count r, size_segments := size_segments r1\<rparr>"
    by blast+
qed

definition frame_fails :: "'e recorder_env \<Rightarrow> bytes \<Rightarrow> nat \<Rightarrow> 'e recorder \<Rightarrow> bool" where
  "frame_fails env pcm count r \<longleftrightarrow>
     count div 2 \<noteq> 0 \<and> fst (opus_encode env (encoder_ptr r) (frame_pcm env pcm count) frame_size (max_frame_bytes r div 10)) < 0"

lemma encode_frame_fails: "encode_frame env pcm count r = (nb, r') \<Longrightarrow> nb < 0 \<Longrightarrow> frame_fails env pcm count r"
  by (auto simp: encode_frame_def frame_fails_def Let_def split: if_splits prod.splits)

lemma frame_written:
  assumes ok: "env_ok env" and rec: "recording serial path ps pgs r" "pgs \<noteq> []" and run: "running r"
    and time: "0 \<le> enc_granulepos r" "enc_granulepos r < 2 ^ 62" and call: "writeFrame env pcm count r = (res, r')"
  shows "res = 0 \<and> (takes_all env \<longrightarrow> frame_fails env pcm count r) \<or> res = 1 \<and> (\<exists>pg. recording serial path (ps @ [frame_packet env pcm count r]) (pgs @ [pg]) r' \<and> running r' \<and>
    enc_granulepos r' = frame_end count r \<and> total_samples r' = total_samples r + int (count div 2) \<and> rate r' = rate r \<and>
    opus_header r' = opus_header r \<and> ogg_page_granulepos pg = word_of_int (frame_granule count r) \<and> ogg_page_bos pg = 0 \<and>
    (ogg_page_eos pg \<noteq> 0 \<longleftrightarrow> count div 2 < frame_size \<or> e_o_s (stream_os r) \<noteq> 0) \<and> serialno (stream_os r') = serialno (stream_os r) \<and>
    (e_o_s (stream_os r') \<noteq> 0 \<longleftrightarrow> count div 2 < frame_size \<or> e_o_s (stream_os r) \<noteq> 0))"
proof -
  let ?eos = "if count div 2 < frame_size then 1 else 0 :: int"
  define r0 where "r0 = r\<lparr>packetId := packetId r + 1, total_samples := total_samples r + int (count div 2),
    cur_op := (cur_op r)\<lparr>op_e_o_s := ?eos\<rparr>\<rparr>"
  have r0: "running r0" "frame_packet env pcm count r0 = frame_packet env pcm count r" "frame_end count r0 = frame_end count r"
    using run by (simp_all add: r0_def running_def frame_packet_def frame_end_def)
  obtain nb r1 where enc: "encode_frame env pcm count r0 = (nb, r1)" by fastforce
  have call': "(case (if nb < 0 then (0, r1) else
      case pages_before env r1 of (ok, r2) \<Rightarrow> if \<not> ok then (0, r2) else
      let granulepos = (if op_e_o_s (cur_op r2) \<noteq> 0
                        then (total_samples r2 * 48000 + rate r2 - 1) sdiv rate r2 + preskip (opus_header r2)
                        else enc_granulepos r2);
          r = r2\<lparr>cur_op := (cur_op r2)\<lparr>op_packet := the (packet_buf r2), op_bytes := nat nb, op_b_o_s := 0,
                   op_granulepos := word_of_int granulepos, op_packetno := 2 + packetId r2\<rparr>\<rparr>;
          (_, os) = ogg_stream_packetin (granted env) (stream_os r) (cur_op r);
          r = r\<lparr>stream_os := os\<rparr>;
          r = r\<lparr>last_segments := last_segments r + size_segments r\<rparr>;
          (ok, r) = pages_after env r
      in if \<not> ok then (0, r) else (1, r)) of x \<Rightarrow> x) = (res, r')"
    using call enc by (simp add: writeFrame_def r0_def Let_def cong: if_cong)
  show ?thesis
  proof (cases "nb < 0")
    case True
    then have "frame_fails env pcm count r0" using encode_frame_fails [OF enc] by simp
    then have "frame_fails env pcm count r" by (simp add: frame_fails_def r0_def)
    with call' True show ?thesis by simp
  next
    case False
    then have nb: "0 \<le> nb" by simp
    note e = encode_frame_stored [OF ok r0(1) enc nb, unfolded r0(2,3)]
    let ?p = "frame_packet env pcm count r"
    obtain a b c d where r1': "r1 = r0\<lparr>encoder_ptr := a, packet_buf := b, min_bytes := c, enc_granulepos := frame_end count r, size_segments := d\<rparr>"
      using e(5) by blast
    have r1: "stream_os r1 = stream_os r" "fileOs r1 = Some path" "files r1 path = Some (concat (map page_bytes pgs))"
      "cur_op r1 = (cur_op r)\<lparr>op_e_o_s := ?eos\<rparr>" "opus_header r1 = opus_header r" "rate r1 = rate r" "coding_rate r1 = coding_rate r"
      "enc_granulepos r1 = frame_end count r" "total_samples r1 = total_samples r + int (count div 2)" "last_granulepos r1 = last_granulepos r"
      "files r1 = files r" "bytes_written r1 = bytes_written r" "pages_out r1 = pages_out r" "max_frame_bytes r1 = max_frame_bytes r"
      using rec(1) by (simp_all add: r1' r0_def recording_def)
    have room: "roomy (stream_os r)" "b_o_s (stream_os r) \<noteq> 0" using rec by (simp_all add: recording_def)
    have before: "pages_before env r1 = (True, r1)" by (rule pages_before_done) (simp add: r1 room)
    have gr: "(if op_e_o_s (cur_op r1) \<noteq> 0 then (total_samples r1 * 48000 + rate r1 - 1) sdiv rate r1 + preskip (opus_header r1)
        else enc_granulepos r1) = frame_granule count r"
      by (simp add: r1 frame_granule_def)
    let ?pkt = "(cur_op r1)\<lparr>op_packet := the (packet_buf r1), op_bytes := nat nb, op_b_o_s := 0,
                   op_granulepos := word_of_int (frame_granule count r), op_packetno := 2 + packetId r1\<rparr>"
    have pk: "packet_of ?pkt = ?p" "op_e_o_s ?pkt = ?eos" "op_granulepos ?pkt = word_of_int (frame_granule count r)"
      using e(3) by (simp_all add: packet_of_def r1)
    have fs: "running r \<Longrightarrow> 960 \<le> int frame_size * 48000 sdiv coding_rate r" using frame_time by blast
    have "length (packet_of ?pkt) < 16384" using e(1,2) pk(1) by simp
    then obtain os1 pg os2 where p: "ogg_stream_packetin (granted env) (stream_os r) ?pkt = (0, os1)" "encoder os1" "segments os1 \<noteq> []"
        "e_o_s os1 = (if ?eos \<noteq> 0 then 1 else e_o_s (stream_os r))"
        "ogg_stream_flush_i os1 (cur_og r1) 1 (255 * 255) = (1, pg, os2)" "roomy os2" "packet_page ?p pg"
        "b_o_s os2 = 1" "e_o_s os2 = (if ?eos \<noteq> 0 then 1 else e_o_s (stream_os r))" "serialno os2 = serialno (stream_os r)"
        "pageno os2 = page_number (stream_os r) + 1" "ogg_page_granulepos pg = word_of_int (frame_granule count r)"
        "ogg_page_bos pg = 0" "ogg_page_eos pg \<noteq> 0 \<longleftrightarrow> ?eos \<noteq> 0 \<or> e_o_s (stream_os r) \<noteq> 0"
        "numbered (serialno (stream_os r)) (page_number (stream_os r)) pg"
      by (rule packet_through [OF room(1), of ?pkt "granted env" "cur_og r1" "255 * 255"]) (use room(2) pk in auto)
    let ?r2 = "r1\<lparr>cur_op := ?pkt, stream_os := os1, last_segments := last_segments r1 + size_segments r1\<rparr>"
    obtain ok2 r3 where pa: "pages_after env ?r2 = (ok2, r3)" by fastforce
    have res: "res = (if ok2 then 1 else 0)" "r' = r3"
      using call' nb before p(1) pa by (simp_all add: gr r1(1) Let_def split: if_splits)
    let ?step = "int frame_size * 48000 sdiv coding_rate r"
    have "(if op_e_o_s (cur_op ?r2) \<noteq> 0 \<or>
               enc_granulepos ?r2 + int frame_size * 48000 sdiv coding_rate ?r2 - last_granulepos ?r2 > max_ogg_delay \<or> last_segments ?r2 \<ge> 255
            then ogg_stream_flush_fill (stream_os ?r2) (cur_og ?r2) (255 * 255)
            else ogg_stream_pageout_fill (stream_os ?r2) (cur_og ?r2) (255 * 255)) = (1, pg, os2)"
    proof (cases "e_o_s os1 = 0")
      case False
      then show ?thesis using forced_pageout [OF p(2,3)] p(5) by (simp add: flush_is_flush_i)
    next
      case True
      then have "e_o_s (stream_os r) = 0" using p(4) by (simp split: if_splits)
      then have "last_granulepos r = enc_granulepos r" using run by (simp add: running_def)
      moreover have "enc_granulepos r \<le> frame_end count r" "0 < ?step" using fs [OF run] by (simp_all add: frame_end_def)
      ultimately have "frame_end count r + ?step - last_granulepos r > max_ogg_delay" by (simp add: max_ogg_delay_def)
      then show ?thesis using p(5) by (simp add: flush_is_flush_i r1)
    qed
    note loop = pa [unfolded pages_after.simps [of env ?r2] this prod.case]
    obtain ok3 r4 where dp: "data_page env pg (?r2\<lparr>stream_os := os2, cur_og := pg\<rparr>) = (ok3, r4)" by fastforce
    show ?thesis
    proof (cases ok3)
      case False
      moreover have "\<not> takes_all env"
        using data_page_takes [OF dp _ _ p(7), of path] False r1(2,3) by auto
      ultimately show ?thesis using loop dp res by simp
    next
      case True
      then have r4: "r4 = ?r2\<lparr>stream_os := os2, cur_og := pg, last_granulepos := sint (ogg_page_granulepos pg),
          last_segments := last_segments ?r2 - int (length ?p div 255 + 1), files := (files r1)(path \<mapsto> concat (map page_bytes pgs) @ page_bytes pg),
          bytes_written := bytes_written r1 + int (length (page_bytes pg)), pages_out := pages_out r1 + 1\<rparr>"
        using data_page_all [of env pg "?r2\<lparr>stream_os := os2, cur_og := pg\<rparr>" r4 path, OF _ _ _ p(7)] dp r1(2,3) by simp
      then have "pages_after env r4 = (True, r4)" using p(6) by (intro pages_after_done) simp
      then have r': "res = 1" "r' = r4" using loop dp True res by simp_all
      have "recording serial path (ps @ [?p]) (pgs @ [pg]) r'"
        by (rule recording_next [OF rec(1) _ _ _ p(7,6,8,11)])
          (use p(10,15) e(1,2) rec(1) in \<open>simp_all add: r' r4 r1 recording_def\<close>)
      moreover have "running r'"
      proof -
        have "e_o_s os2 \<noteq> 0 \<or> sint (ogg_page_granulepos pg) = frame_end count r"
        proof (cases "count div 2 < frame_size")
          case False
          then have g: "ogg_page_granulepos pg = word_of_int (frame_end count r)" using p(12) by (simp add: frame_granule_def)
          have "0 \<le> frame_end count r" "frame_end count r < 2 ^ 63"
            using time frame_time [OF run] by (simp_all add: frame_end_def)
          then show ?thesis by (simp add: g sint_sbintrunc' signed_take_bit_int_eq_self)
        qed (simp add: p(9))
        then show ?thesis using run r' e(4) by (simp add: running_def r4 r1)
      qed
      ultimately show ?thesis using r' p(9,10,12-14) by (auto simp: r4 r1)
    qed
  qed
qed

section \<open>The headers\<close>

lemma init_roomy:
  assumes "ogg_stream_init alloc (Some os0) serial = (n, os)" "n \<noteq> -1"
  shows "roomy (the os) \<and> serialno (the os) = serial \<and> pageno (the os) = 0 \<and> b_o_s (the os) = 0 \<and> e_o_s (the os) = 0"
proof -
  obtain os' where os: "os = Some os'" "stream_inv os'" "segments os' = []" "serialno os' = serial" "pageno os' = 0" "lacing_packet os' = 0"
    "lacing_returned os' = 0" "b_o_s os' = 0" "e_o_s os' = 0"
    using stream_init_inv [OF assms(1)] assms(2) by auto
  have "body_storage os' = 16384 \<and> lacing_storage os' = 1024"
    using assms os(1) by (auto simp: ogg_stream_init_def ogg_stream_clear_def zero_stream_def Let_def split: if_splits)
  with os show ?thesis by (simp add: roomy_def encoder_def)
qed

lemma comment_pad_bound:
  "0 < amount \<Longrightarrow> comment_pad block cs n amount = (cs', n') \<Longrightarrow> n' \<le> n + amount + 254"
  using div_mult_mod_eq [of "n + amount + 255" 255] by (auto simp: comment_pad_def Let_def)

text \<open>The comment packet.\<close>

definition comment_packet :: "'e recorder_env \<Rightarrow> bytes" where
  "comment_packet env =
     (case comment_init (fresh env) (opus_version env) of (cs, n) \<Rightarrow> fst (comment_pad (fresh env) cs n comment_padding))"

lemma comment_packet_size:
  assumes "env_ok env" "comment_init (fresh env) (opus_version env) = (cs, n)" "comment_pad (fresh env) cs n comment_padding = (cs', n')"
  shows "cs' = comment_packet env" "length cs' = n'" "n' < 16384"
proof -
  have f: "\<And>n. length (fresh env n) = n" and v: "length (opus_version env) < 15000" using assms(1) by (simp_all add: env_ok_def)
  have "length (cstring (opus_version env)) \<le> length (opus_version env)" unfolding cstring_def by (rule length_takeWhile_le)
  then have n: "n < 15016" "n = length cs"
    using comment_init_bytes [of "fresh env" "opus_version env", OF f] assms(2) v by (auto simp: encode_tags_def counted_def)
  show "cs' = comment_packet env" using assms(2,3) by (simp add: comment_packet_def)
  have "0 < comment_padding" by (simp add: comment_padding_def)
  from comment_pad_bytes [OF f this, of cs] obtain newlen
    where "comment_pad (fresh env) cs (length cs) comment_padding = (cs @ replicate (newlen - length cs) 0, newlen)"
      "length cs + comment_padding \<le> newlen" using f by blast
  then show "length cs' = n'" using assms(3) n(2) by auto
  show "n' < 16384" using comment_pad_bound [OF _ assms(3)] n(1) by (simp add: comment_padding_def)
qed

lemma write_headers_recording:
  assumes ok: "env_ok env" and w: "write_headers env r = (ok3, r')" and m: "channel_mapping (opus_header r) = 0"
    and cs: "comment_init (fresh env) (opus_version env) = (the (opt_comments (inopt r)), opt_comments_length (inopt r))"
    and f: "fileOs r = Some path" "files r path = Some []" "bytes_written r = 0" "pages_out r = 0"
  shows "\<not> ok3 \<and> (takes_all env \<longrightarrow> (\<exists>n. \<not> granted env n)) \<or>
    ok3 \<and> (\<exists>pgs. recording (random env) path [header_bytes (opus_header r), comment_packet env] pgs r' \<and>
    (\<exists>os i op og fs b n. r' = r\<lparr>stream_os := os, inopt := i, cur_op := op, cur_og := og, files := fs, bytes_written := b, pages_out := n\<rparr>) \<and>
    e_o_s (stream_os r') = 0)"
proof -
  have fresh: "length (fresh env 100) = 100" using ok by (simp add: env_ok_def)
  obtain n os where os: "ogg_stream_init (granted env) (Some (stream_os r)) (random env) = (n, os)" by fastforce
  let ?h = "header_bytes (opus_header r)" and ?r1 = "r\<lparr>stream_os := the os\<rparr>"
  have l: "length ?h = 19" using m by (simp add: length_header_bytes)
  have h: "opus_header_to_packet (opus_header r) (fresh env 100) 100 = (19, wr 0 ?h (fresh env 100))"
    using header_to_packet [of "opus_header r" 100 "fresh env 100"] l fresh by simp
  have t: "take 19 (wr 0 ?h (fresh env 100)) = ?h" using l by (simp add: wr_def)
  obtain ok2 r2 where p2: "header_packet env (wr 0 ?h (fresh env 100)) 19 1 0 ?r1 = (ok2, r2)" by fastforce
  obtain cs' n' where pad: "comment_pad (fresh env) (the (opt_comments (inopt r2))) (opt_comments_length (inopt r2)) comment_padding = (cs', n')"
    by fastforce
  let ?r3 = "r2\<lparr>inopt := (inopt r2)\<lparr>opt_comments := Some cs', opt_comments_length := n'\<rparr>\<rparr>"
  obtain ok4 r4 where p4: "header_packet env cs' n' 0 1 ?r3 = (ok4, r4)" by fastforce
  have run: "(ok3, r') = (if n = -1 then (False, ?r1) else if \<not> ok2 then (False, r2) else if \<not> ok4 then (False, r4) else (True, r4))"
    unfolding w [symmetric] using os h p2 pad p4 by (simp add: write_headers_def Let_def cong: if_cong)
  show ?thesis
  proof (cases "n = -1")
    case True
    then have "\<exists>n. \<not> granted env n" using os by (auto simp: ogg_stream_init_def Let_def split: if_splits)
    then show ?thesis using run True by simp
  next
    case n: False
    note i = init_roomy [OF os n]
    have rec1: "recording (random env) path [] [] ?r1" using i f by (simp add: recording_def)
    have l': "length (take 19 (wr 0 ?h (fresh env 100))) < 16384" using t l by simp
    note first = header_packet_written [OF rec1 p2 l', unfolded t append_Nil]
    show ?thesis
    proof (cases ok2)
      case False
      then show ?thesis using first run n by simp
    next
      case ok2: True
      with first obtain pg where
        rec2: "recording (random env) path [?h] [pg] r2" and r2: "r2 = ?r1\<lparr>cur_op := cur_op r2, stream_os := stream_os r2, cur_og := pg, files := files r2,
          bytes_written := bytes_written r2, pages_out := pages_out r2\<rparr>" "e_o_s (stream_os r2) = 0"
        using i by auto
      have "inopt r2 = inopt r" by (subst r2(1)) simp
      then have cs2: "comment_init (fresh env) (opus_version env) = (the (opt_comments (inopt r2)), opt_comments_length (inopt r2))"
        using cs by simp
      note c = comment_packet_size [OF ok cs2 pad]
      have rec3: "recording (random env) path [?h] [pg] ?r3" using rec2 by (simp add: recording_def)
      have t': "take n' cs' = comment_packet env" "length (take n' cs') < 16384" using c by simp_all
      note second = header_packet_written [OF rec3 p4 t'(2), unfolded t'(1)]
      show ?thesis
      proof (cases ok4)
        case False
        then show ?thesis using second run n ok2 by simp
      next
        case ok4: True
        with second obtain pg2 where
        rec4: "recording (random env) path [?h, comment_packet env] [pg, pg2] r4" and r4: "r4 = ?r3\<lparr>cur_op := cur_op r4, stream_os := stream_os r4, cur_og := pg2,
          files := files r4, bytes_written := bytes_written r4, pages_out := pages_out r4\<rparr>" "e_o_s (stream_os r4) = 0"
        using r2(2) by auto
      obtain op2 os2 fs2 b2 k2 where r2': "r2 = ?r1\<lparr>cur_op := op2, stream_os := os2, cur_og := pg, files := fs2, bytes_written := b2, pages_out := k2\<rparr>"
        using r2(1) by blast
      obtain op4 os4 fs4 b4 k4 where r4': "r4 = ?r3\<lparr>cur_op := op4, stream_os := os4, cur_og := pg2, files := fs4, bytes_written := b4, pages_out := k4\<rparr>"
        using r4(1) by blast
      have "r4 = r\<lparr>stream_os := os4, inopt := inopt ?r3, cur_op := op4, cur_og := pg2, files := fs4, bytes_written := b4, pages_out := k4\<rparr>"
        by (simp add: r4' r2')
      moreover have "ok3" "r' = r4" using run n ok2 ok4 by simp_all
      ultimately show ?thesis using rec4 r4(2) by blast
      qed
    qed
  qed
qed

text \<open>A recording that has been started.\<close>

lemma initRecorder_recording:
  assumes ok: "env_ok env" and call: "initRecorder env (Some path) sampleRate r = (1, r')"
  shows "\<exists>pgs. recording (random env) path [header_bytes (opus_header r'), comment_packet env] pgs r' \<and> running r' \<and>
    rate r' = sampleRate \<and> enc_granulepos r' = 0 \<and> total_samples r' = 0 \<and> e_o_s (stream_os r') = 0 \<and>
    channels (opus_header r') = 1 \<and> channel_mapping (opus_header r') = 0 \<and> gain (opus_header r') = 0 \<and>
    hdr_input_sample_rate (opus_header r') = word_of_int sampleRate \<and>
    (\<exists>lookahead. preskip (opus_header r') = lookahead * 48000 sdiv sampleRate)"
proof -
  obtain ok1 r1 where o: "open_recording env (Some path) sampleRate r = (ok1, r1)" by fastforce
  obtain ok2 r2 where e: "open_encoder env r1 = (ok2, r2)" by fastforce
  obtain ok3 r3 where w: "write_headers env r2 = (ok3, r3)" by fastforce
  have run: "ok1" "ok2" "ok3" "r' = r3" using call o e w by (auto simp: initRecorder_def split: if_splits)
  have r1: "coding_rate r1 = sampleRate" "rate r1 = sampleRate" "fileOs r1 = Some path" "files r1 path = Some []"
    "bytes_written r1 = 0" "pages_out r1 = 0" "enc_granulepos r1 = 0" "last_granulepos r1 = 0" "total_samples r1 = 0"
    "comment_init (fresh env) (opus_version env) = (the (opt_comments (inopt r1)), opt_comments_length (inopt r1))"
    "opus_header r1 = zero_header\<lparr>channels := 1, hdr_input_sample_rate := word_of_int sampleRate, nb_streams := 1\<rparr>" "opt_skip (inopt r1) = 0"
    using o run(1) by (auto simp: open_recording_def cleanupRecorder_def zero_header_def Let_def split: if_splits prod.splits)
  have f: "length (fresh env n) = n" for n using ok by (simp add: env_ok_def)
  have r2: "coding_rate r2 = sampleRate" "rate r2 = sampleRate" "fileOs r2 = Some path" "files r2 path = Some []"
    "bytes_written r2 = 0" "pages_out r2 = 0" "enc_granulepos r2 = 0" "last_granulepos r2 = 0" "total_samples r2 = 0"
    "opt_comments (inopt r2) = opt_comments (inopt r1)" "opt_comments_length (inopt r2) = opt_comments_length (inopt r1)"
    "\<exists>lookahead. opus_header r2 = (opus_header r1)\<lparr>preskip := preskip_of lookahead sampleRate\<rparr>"
    "max_frame_bytes r2 = 3832" "map_option length (packet_buf r2) = Some 3832"
    "\<exists>enc. opus_create env sampleRate 1 OPUS_APPLICATION_VOIP = (enc, OPUS_OK)"
    using e run(2) by (auto simp: open_encoder_def r1 f Let_def split: if_splits prod.splits)
  have m: "channel_mapping (opus_header r2) = 0" using r2(12) by (auto simp: r1 zero_header_def)
  have cs: "comment_init (fresh env) (opus_version env) = (the (opt_comments (inopt r2)), opt_comments_length (inopt r2))"
    using r1(10) by (simp add: r2)
  obtain pgs os i op og fs b n where rec: "recording (random env) path [header_bytes (opus_header r2), comment_packet env] pgs r3"
    and r3: "r3 = r2\<lparr>stream_os := os, inopt := i, cur_op := op, cur_og := og, files := fs, bytes_written := b, pages_out := n\<rparr>"
      "e_o_s (stream_os r3) = 0"
    using write_headers_recording [OF ok w m cs r2(3-6)] run(3) by blast
  have "sampleRate \<in> {8000, 12000, 16000, 24000, 48000}" using ok r2(15) unfolding env_ok_def by blast
  then have "running r3" using r2 by (simp add: running_def r3(1))
  then show ?thesis using rec r3(2) r2 by (auto simp: run(4) r3(1) r1 zero_header_def preskip_of_def)
qed

text \<open>It is started when everything that is asked for is granted.\<close>

lemma initRecorder_succeeds:
  assumes ok: "env_ok env" and all: "takes_all env" "\<And>n. granted env n" "openable env path"
    and enc: "opus_create env sampleRate 1 OPUS_APPLICATION_VOIP = (e0, OPUS_OK)"
      "\<And>e. fst (opus_set_bitrate env e bitrate) = OPUS_OK" "\<And>e. fst (opus_get_lookahead env e) = OPUS_OK"
  shows "fst (initRecorder env (Some path) sampleRate r) = 1"
proof -
  obtain ok1 r1 where o: "open_recording env (Some path) sampleRate r = (ok1, r1)" by fastforce
  have r1: "ok1" "fileOs r1 = Some path" "files r1 path = Some []" "bytes_written r1 = 0" "pages_out r1 = 0" "coding_rate r1 = sampleRate"
    "comment_init (fresh env) (opus_version env) = (the (opt_comments (inopt r1)), opt_comments_length (inopt r1))"
    "channel_mapping (opus_header r1) = 0"
    using o all(3) by (auto simp: open_recording_def cleanupRecorder_def zero_header_def Let_def split: if_splits prod.splits)
  obtain ok2 r2 where e: "open_encoder env r1 = (ok2, r2)" by fastforce
  have r2: "ok2" "fileOs r2 = Some path" "files r2 path = Some []" "bytes_written r2 = 0" "pages_out r2 = 0"
    "opt_comments (inopt r2) = opt_comments (inopt r1)" "opt_comments_length (inopt r2) = opt_comments_length (inopt r1)"
    "channel_mapping (opus_header r2) = 0"
    using e enc(1) enc(2) [of e0] enc(3) r1 by (auto simp: open_encoder_def Let_def split: if_splits prod.splits) (metis fst_conv)+
  obtain ok3 r3 where w: "write_headers env r2 = (ok3, r3)" by fastforce
  have "comment_init (fresh env) (opus_version env) = (the (opt_comments (inopt r2)), opt_comments_length (inopt r2))"
    using r1(7) by (simp add: r2)
  from write_headers_recording [OF ok w r2(8) this r2(2-5)] all have "ok3" by blast
  then show ?thesis using o e w r1(1) r2(1) by (simp add: initRecorder_def)
qed

end
