(* ===== verification/Recording.thy ===== *)
theory Recording
  imports Recorder
begin

text \<open>
  What a whole recording by \<^verbatim>\<open>app/jni/audio.c\<close> leaves behind: the pages in the file, their packets for a
  decoder, the totals, and nothing of an earlier recording.
\<close>

section \<open>The calls that the Java side makes\<close>

text \<open>Frame after frame, as long as \<open>writeFrame\<close> gives 1; and the packets that the frames are encoded to.\<close>

fun write_frames :: "'e recorder_env \<Rightarrow> (bytes \<times> nat) list \<Rightarrow> 'e recorder \<Rightarrow> 'e recorder option" where
  "write_frames env [] r = Some r"
| "write_frames env ((pcm, count) # fs) r =
     (case writeFrame env pcm count r of (res, r') \<Rightarrow> if res = 1 then write_frames env fs r' else None)"

fun frame_packets :: "'e recorder_env \<Rightarrow> (bytes \<times> nat) list \<Rightarrow> 'e recorder \<Rightarrow> bytes list" where
  "frame_packets env [] r = []"
| "frame_packets env ((pcm, count) # fs) r = frame_packet env pcm count r # frame_packets env fs (snd (writeFrame env pcm count r))"

lemma length_frame_packets [simp]: "length (frame_packets env fs r) = length fs"
  by (induction env fs r rule: frame_packets.induct) simp_all

lemma frame_end_bounds: "running r \<Longrightarrow> enc_granulepos r \<le> frame_end count r \<and> frame_end count r \<le> enc_granulepos r + 5760"
  using frame_time [of r] by (simp add: frame_end_def)

lemma write_frames_recording:
  assumes "env_ok env" "recording serial path ps pgs r" "pgs \<noteq> []" "running r"
    and "0 \<le> enc_granulepos r" "enc_granulepos r + 5760 * int (length fs) < 2 ^ 62" "write_frames env fs r = Some r'"
  shows "\<exists>pgs'. recording serial path (ps @ frame_packets env fs r) (pgs @ pgs') r' \<and> running r' \<and> opus_header r' = opus_header r"
  using assms(2-)
proof (induction fs arbitrary: r ps pgs)
  case Nil
  then show ?case by (intro exI [of _ "[]"]) simp
next
  case (Cons f fs)
  obtain pcm count where f: "f = (pcm, count)" by fastforce
  obtain res r1 where w: "writeFrame env pcm count r = (res, r1)" by fastforce
  have res: "res = 1" "write_frames env fs r1 = Some r'" using Cons.prems(6) by (auto simp: f w split: if_splits)
  have "enc_granulepos r < 2 ^ 62" using Cons.prems(5) by simp
  from frame_written [OF assms(1) Cons.prems(1-4) this w] res(1) obtain pg where
    r1: "recording serial path (ps @ [frame_packet env pcm count r]) (pgs @ [pg]) r1" "running r1"
      "enc_granulepos r1 = frame_end count r" "opus_header r1 = opus_header r" by auto
  have "0 \<le> enc_granulepos r1" "enc_granulepos r1 + 5760 * int (length fs) < 2 ^ 62"
    using frame_end_bounds [OF Cons.prems(3), of count] Cons.prems(4,5) by (simp_all add: r1(3))
  from Cons.IH [OF r1(1) _ r1(2) this res(2)] r1(4) show ?case
    by (auto simp: f w)
qed

text \<open>Nothing but the codec can make it fail.\<close>

lemma write_frames_succeeds:
  assumes "env_ok env" "takes_all env" "\<And>e pcm n. 0 \<le> fst (opus_encode env e pcm n 383)"
    and "recording serial path ps pgs r" "pgs \<noteq> []" "running r"
    and "0 \<le> enc_granulepos r" "enc_granulepos r + 5760 * int (length fs) < 2 ^ 62"
  shows "write_frames env fs r \<noteq> None"
  using assms(4-)
proof (induction fs arbitrary: r ps pgs)
  case (Cons f fs)
  obtain pcm count where f: "f = (pcm, count)" by fastforce
  obtain res r1 where w: "writeFrame env pcm count r = (res, r1)" by fastforce
  have "max_frame_bytes r = 3832" using Cons.prems(3) by (simp add: running_def)
  then have "\<not> frame_fails env pcm count r" using assms(3) by (simp add: frame_fails_def not_less)
  moreover have "enc_granulepos r < 2 ^ 62" using Cons.prems(5) by simp
  note fw = frame_written [OF assms(1) Cons.prems(1-4) this w]
  ultimately obtain pg where
    r1: "res = 1" "recording serial path (ps @ [frame_packet env pcm count r]) (pgs @ [pg]) r1" "running r1"
      "enc_granulepos r1 = frame_end count r" using assms(2) by blast
  have "0 \<le> enc_granulepos r1" "enc_granulepos r1 + 5760 * int (length fs) < 2 ^ 62"
    using frame_end_bounds [OF Cons.prems(3), of count] Cons.prems(4,5) by (simp_all add: r1(4))
  from Cons.IH [OF r1(2) _ r1(3) this] show ?case by (simp add: f w r1(1))
qed simp

section \<open>What a decoder makes of the pages\<close>

text \<open>The player: each page goes into the stream, and the packet that it completes is taken out.\<close>

fun play :: "(nat \<Rightarrow> bool) \<Rightarrow> ogg_stream_state \<Rightarrow> ogg_page list \<Rightarrow> (bytes list \<times> ogg_stream_state) option" where
  "play alloc d [] = Some ([], d)"
| "play alloc d (pg # pgs) =
     (case ogg_stream_pagein alloc d pg of (r, d1) \<Rightarrow>
        if r \<noteq> 0 then None
        else case ogg_stream_packetout d1 (Some zero_packet) of
          Some (n, Some pkt, d2) \<Rightarrow>
            if n = 1 then map_option (\<lambda>(qs, d3). (packet_of pkt # qs, d3)) (play alloc d2 pgs) else None
        | _ \<Rightarrow> None)"

text \<open>A decoder that waits for page \<open>k\<close> and has room for it.\<close>

definition waiting :: "int \<Rightarrow> int \<Rightarrow> ogg_stream_state \<Rightarrow> bool" where
  "waiting serial k d \<longleftrightarrow> decoder d \<and> no_holes d \<and> segments d = [] \<and> 16384 \<le> body_storage d \<and> 1024 \<le> lacing_storage d \<and>
     serialno d = serial \<and> pageno d = k"

lemma waiting_init:
  assumes "ogg_stream_init alloc (Some d0) serial = (0, Some d)"
  shows "waiting serial 0 d"
proof -
  have d: "stream_inv d" "segments d = []" "lacing_packet d = 0" "lacing_returned d = 0"
    using stream_init_inv [OF assms] by auto
  then have "lacing_fill d = 0" using stream_invD(3,9) [OF d(1)] by (auto simp: segments_def)
  then have "decoder d" using d by (intro decoderI) simp_all
  then show ?thesis using init_roomy [OF assms] d(2) by (simp add: waiting_def roomy_def no_holes_def)
qed

lemma store_segments_storage:
  "store_segments h n p bos saved os = (saved', os') \<Longrightarrow> body_storage os' = body_storage os \<and> lacing_storage os' = lacing_storage os"
  by (induction n arbitrary: p bos saved os) (fastforce simp: Let_def split: if_splits)+

lemma page_store_storage:
  "body_storage (page_store og p n bos os) = body_storage os \<and> lacing_storage (page_store og p n bos os) = lacing_storage os"
proof -
  let ?os = "os\<lparr>body_data := wr (body_fill os) (rd n (body_len og - n) (body og)) (body_data os), body_fill := body_fill os + (body_len og - n)\<rparr>"
  obtain saved os' where "store_segments (header og) (unat (header og ! 26) - p) p bos None ?os = (saved, os')" by fastforce
  with store_segments_storage [OF this] show ?thesis
    by (auto simp: page_store_def Let_def split: option.splits)
qed

text \<open>The page of a small packet goes in without any memory being asked for.\<close>

lemma waiting_pagein:
  assumes "waiting serial k d" "packet_page p pg" "numbered serial k pg" "length p < 16384"
    and "-(2 ^ 31) \<le> serial" "serial < 2 ^ 31" "0 \<le> k" "k < 2 ^ 31"
  shows "\<exists>d1. ogg_stream_pagein alloc d pg = (0, d1) \<and> body_storage d1 = body_storage d \<and> lacing_storage d1 = lacing_storage d"
proof -
  have w: "decoder d" "segments d = []" "16384 \<le> body_storage d" "1024 \<le> lacing_storage d" "serialno d = serial" "pageno d = k"
    using assms(1) by (simp_all add: waiting_def)
  have n: "ogg_page_serialno pg = serial" "ogg_page_version pg = 0" "ogg_page_pageno pg = k" "ogg_page_continued pg = 0"
    using assms(3,5-8) by (simp_all add: numbered_def)
  have pg: "unat (header pg ! 26) = length p div 255 + 1" "body_len pg = length p" using assms(2) by (simp_all add: packet_page_def)
  let ?d = "drop_returned_lacing (drop_returned_body d)"
  note b = drop_returned_both [OF w(1)]
  note i = stream_invD [OF decoder_inv [OF b(1)]]
  have st: "body_storage ?d = body_storage d" "lacing_storage ?d = lacing_storage d"
    by (simp_all add: drop_returned_lacing_def drop_returned_body_def Let_def)
  have "lacing_fill ?d = 0" using i b(2,4) w(2) by (auto simp: segments_def)
  moreover have "body_fill ?d = 0" using i(5,10) b(3,4) w(2) by simp
  moreover have "length p div 255 \<le> 64" using assms(4) div_le_mono [of "length p" 16383 255] by simp
  ultimately have "\<not> lacing_storage ?d \<le> lacing_fill ?d + (unat (header pg ! 26) + 1)" "\<not> body_storage ?d \<le> body_fill ?d + body_len pg"
    using st w(3,4) pg assms(4) by linarith+
  then have e: "os_lacing_expand alloc ?d (unat (header pg ! 26) + 1) = (0, ?d)" "os_body_expand alloc ?d (body_len pg) = (0, ?d)"
    by (simp_all only: os_lacing_expand_def os_body_expand_def if_False)
  have "ogg_stream_pagein alloc d pg = (0, (page_store pg 0 0 (ogg_page_bos pg) ?d)\<lparr>pageno := k + 1\<rparr>)"
    using stream_inv_check [OF decoder_inv [OF w(1)]] e n b(6,7) w(5,6) by (simp add: ogg_stream_pagein_def Let_def)
  then show ?thesis using page_store_storage [of pg 0 0 "ogg_page_bos pg" ?d] st by simp
qed

lemma packetout_storage:
  "packetout_i os op adv = Some (r, op', os') \<Longrightarrow> body_storage os' = body_storage os \<and> lacing_storage os' = lacing_storage os"
  by (auto simp: packetout_i_def Let_def split: if_splits option.splits prod.splits)

lemma waiting_page:
  assumes "waiting serial k d" "packet_page p pg" "numbered serial k pg" "length p < 16384"
    and "-(2 ^ 31) \<le> serial" "serial < 2 ^ 31" "0 \<le> k" "k < 2 ^ 31"
  obtains d1 pkt d2 where "ogg_stream_pagein alloc d pg = (0, d1)" "ogg_stream_packetout d1 (Some zero_packet) = Some (1, Some pkt, d2)"
    "packet_of pkt = p" "waiting serial (k + 1) d2"
proof -
  have w: "decoder d" "no_holes d" "segments d = []" "16384 \<le> body_storage d" "1024 \<le> lacing_storage d" "serialno d = serial" "pageno d = k"
    using assms(1) by (simp_all add: waiting_def)
  have n: "ogg_page_pageno pg = k" "ogg_page_continued pg = 0" "length (header pg) = 282" "body_len pg \<le> length (body pg)"
    using assms(3,5-8) by (simp_all add: numbered_def)
  have pp: "page_segments pg = lacing (length p)" "page_body pg = p" "body_len pg = length p" "unat (header pg ! 26) = length p div 255 + 1"
    using assms(2) by (simp_all add: packet_page_def)
  have "length p div 255 \<le> 64" using assms(4) div_le_mono [of "length p" 16383 255] by simp
  then have sizes: "page_sizes pg 0 = lacing (length p)" using page_segments_sizes [of pg] pp(1,4) n(3) by simp
  then have sized: "sized_page pg" using n(4) pp(3) assms(4) by (simp add: sized_page_def)
  obtain d1 where d1: "ogg_stream_pagein alloc d pg = (0, d1)" "body_storage d1 = body_storage d" "lacing_storage d1 = lacing_storage d"
    using waiting_pagein [OF assms] by blast
  have q: "queued d = []" "pending_body d = []"
    using w(3) sum_segments [OF decoder_inv [OF w(1)]] by (simp_all add: queued_def)
  have "last (lacing (length p)) \<noteq> 255" using mod_less_divisor [of 255 "length p"] by (simp add: lacing_def del: mod_less_divisor)
  then have in1: "decoder d1" "serialno d1 = serial" "pageno d1 = k + 1" "queued d1 = lacing (length p)" "pending_body d1 = p" "no_holes d1"
    "\<not> lacing_packet d1 < lacing_fill d1"
    using pagein [OF w(1) sized d1(1)] n w pp(2) sizes q by (auto simp: page_body_def lacing_def)
  note i = stream_invD [OF decoder_inv [OF in1(1)]]
  have "segments d1 \<noteq> []" using in1(4) by (auto simp: queued_def lacing_def)
  then have "lacing_returned d1 < lacing_fill d1" by (auto simp: segments_def)
  then have lt: "lacing_packet d1 \<noteq> lacing_returned d1" using in1(7) by linarith
  obtain r op' d2 where o: "packetout_i d1 (Some zero_packet) True = Some (r, op', d2)" "decoder d2" "serialno d2 = serial" "pageno d2 = k + 1"
    "r = 1" "no_holes d2" and ex: "\<exists>pkt. op' = Some pkt \<and> queued d1 = lacing (length (packet_of pkt)) @ queued d2 \<and>
      pending_body d1 = packet_of pkt @ pending_body d2"
    using packetout [OF in1(1), of "Some zero_packet"] lt in1(2,3,6) by auto
  from ex obtain pkt where pkt: "op' = Some pkt" "queued d1 = lacing (length (packet_of pkt)) @ queued d2"
      "pending_body d1 = packet_of pkt @ pending_body d2" by blast
  have "length (packet_of pkt) = length p \<and> queued d2 = []"
    using lacing_prefix [of "length (packet_of pkt)" "queued d2" "length p" "[]"] pkt(2) in1(4) by simp
  moreover then have "packet_of pkt = p" using pkt(3) in1(5) by simp
  moreover have "waiting serial (k + 1) d2"
    using o packetout_storage [OF o(1)] d1(2,3) w(4,5) calculation by (simp add: waiting_def queued_def)
  ultimately show ?thesis
    using that [OF d1(1)] o(1,5) pkt(1) stream_inv_check [OF decoder_inv [OF in1(1)]] by (simp add: ogg_stream_packetout_def)
qed

text \<open>Page after page, the player gets the packets.\<close>

lemma play_packets:
  assumes "list_all2 packet_page ps pgs" "\<And>i. i < length pgs \<Longrightarrow> numbered serial (k + int i) (pgs ! i)" "\<And>p. p \<in> set ps \<Longrightarrow> length p < 16384"
    and "waiting serial k d" "-(2 ^ 31) \<le> serial" "serial < 2 ^ 31" "0 \<le> k" "k + int (length pgs) \<le> 2 ^ 31"
  shows "\<exists>d'. play alloc d pgs = Some (ps, d')"
  using assms(1-4,7,8)
proof (induction arbitrary: k d rule: list_all2_induct)
  case (Cons p ps pg pgs)
  have "numbered serial k pg" using Cons.prems(1) [of 0] by simp
  moreover have "k < 2 ^ 31" using Cons.prems(5) by simp
  ultimately obtain d1 pkt d2 where d: "ogg_stream_pagein alloc d pg = (0, d1)" "ogg_stream_packetout d1 (Some zero_packet) = Some (1, Some pkt, d2)"
    "packet_of pkt = p" "waiting serial (k + 1) d2"
    using waiting_page [OF Cons.prems(3) Cons.hyps(1) _ _ assms(5,6) Cons.prems(4), of alloc] Cons.prems(2) by auto
  have "numbered serial (k + 1 + int i) (pgs ! i)" if "i < length pgs" for i using Cons.prems(1) [of "Suc i"] that by (simp add: add_ac)
  then obtain d' where "play alloc d2 pgs = Some (ps, d')"
    using Cons.IH [OF _ _ d(4)] Cons.prems(2,4,5) by auto
  then show ?case using d by simp
qed simp

lemma play_length: "play alloc d pgs = Some (qs, d') \<Longrightarrow> length pgs = length qs"
  by (induction alloc d pgs arbitrary: qs rule: play.induct) (auto split: prod.splits if_splits option.splits)

section \<open>Silence\<close>

lemma frame_pcm_padded:
  assumes "env_ok env" "count \<le> length pcm" "count div 2 < 960"
  shows "frame_pcm env pcm count = take (count div 2 * 2) pcm @ replicate (1920 - count div 2 * 2) 0"
proof -
  let ?k = "count div 2 * 2"
  have k: "?k \<le> count" "count \<le> ?k + 1" "?k \<le> 1918" using assms(3) by linarith+
  have f: "length (fresh env 1920) = 1920" using assms(1) by (simp add: env_ok_def)
  have "take ?k (wr 0 (take count pcm) (fresh env 1920)) = take ?k pcm" using k assms(2) by (simp add: wr_def min_absorb1)
  moreover have "length (wr 0 (take count pcm) (fresh env 1920)) = 1920" using k f assms(2) by simp
  ultimately show ?thesis using assms(3) k by (simp add: frame_pcm_def frame_size_def wr_def [of ?k] Let_def)
qed

section \<open>Nothing of an earlier recording\<close>

lemma files_cleanup [simp]: "files (cleanupRecorder r) = files r"
  by (simp add: cleanupRecorder_def Let_def split: prod.splits)

lemma fileOs_cleanup [simp]: "fileOs (cleanupRecorder r) = None"
  by (simp add: cleanupRecorder_def Let_def split: prod.splits)

text \<open>What is left over are the rates and two sizes, which the next recording sets before it uses them.\<close>

lemma cleanup_same:
  assumes "files r = files r'"
  shows "cleanupRecorder r' =
    (cleanupRecorder r)\<lparr>rate := rate r', coding_rate := coding_rate r', min_bytes := min_bytes r', max_frame_bytes := max_frame_bytes r'\<rparr>"
  using assms by (cases "encoder_ptr r"; cases "encoder_ptr r'"; cases "packet_buf r"; cases "packet_buf r'"; cases "fileOs r"; cases "fileOs r'")
    (simp_all add: cleanupRecorder_def Let_def split: prod.splits)

lemma open_recording_same:
  assumes "files r = files r'" "open_recording env path sampleRate r = (ok, s)"
  shows "open_recording env path sampleRate r' = (ok, s\<lparr>min_bytes := min_bytes r', max_frame_bytes := max_frame_bytes r'\<rparr>)"
  using assms(2) unfolding open_recording_def cleanup_same [OF assms(1)]
  by (auto simp: Let_def split: option.splits if_splits prod.splits)

lemma open_encoder_same:
  assumes "open_encoder env s = (ok, t)"
  shows "\<exists>t'. open_encoder env (s\<lparr>min_bytes := a, max_frame_bytes := b\<rparr>) = (ok, t') \<and> files t' = files t \<and> (ok \<longrightarrow> t' = t)"
  using assms unfolding open_encoder_def by (auto simp: Let_def split: if_splits prod.splits)

lemma initRecorder_same:
  assumes "files r = files r'" "initRecorder env path sampleRate r = (res, t)"
  shows "\<exists>t'. initRecorder env path sampleRate r' = (res, t') \<and> files t' = files t \<and> (res = 1 \<longrightarrow> t' = t)"
proof -
  obtain ok1 s where o: "open_recording env path sampleRate r = (ok1, s)" by fastforce
  obtain ok2 s2 where e: "open_encoder env s = (ok2, s2)" by fastforce
  note o' = open_recording_same [OF assms(1) o]
  obtain s2' where e': "open_encoder env (s\<lparr>min_bytes := min_bytes r', max_frame_bytes := max_frame_bytes r'\<rparr>) = (ok2, s2')"
    "files s2' = files s2" "ok2 \<Longrightarrow> s2' = s2"
    using open_encoder_same [OF e] by blast
  show ?thesis
    using assms(2) e'(2,3) by (cases ok1; cases ok2) (auto simp: initRecorder_def o o' e e'(1) split: prod.splits if_splits)
qed

section \<open>Properties\<close>

text \<open>An environment for the witnesses: a codec that gives three bytes for each frame.\<close>

definition sample_env :: "unit recorder_env" where
  "sample_env = \<lparr>openable = (\<lambda>path. True), file_takes = (\<lambda>content n. n), granted = (\<lambda>n. True), fresh = (\<lambda>n. replicate n 0),
     random = 7, opus_version = ascii ''libopus'',
     opus_create = (\<lambda>rt ch app. (Some (), if rt \<in> {8000, 12000, 16000, 24000, 48000} then OPUS_OK else -1)),
     opus_set_bitrate = (\<lambda>e b. (OPUS_OK, e)), opus_set_lsb_depth = (\<lambda>e d. (OPUS_OK, e)), opus_get_lookahead = (\<lambda>e. (OPUS_OK, 104)),
     opus_encode = (\<lambda>e pcm n space. if 3 \<le> space then (3, [1, 2, 3], e) else (-1, [], e))\<rparr>"

lemma sample_env: "env_ok sample_env" "takes_all sample_env" "granted sample_env n" "openable sample_env path" "random sample_env = 7"
  "opus_create sample_env 16000 1 OPUS_APPLICATION_VOIP = (Some (), OPUS_OK)" "fst (opus_set_bitrate sample_env e bitrate) = OPUS_OK"
  "fst (opus_get_lookahead sample_env e) = OPUS_OK" "0 \<le> fst (opus_encode sample_env e pcm k 383)"
  by (auto simp: sample_env_def env_ok_def takes_all_def OPUS_OK_def ascii_def split: if_splits)

lemma sample_recording:
  obtains r1 where "initRecorder sample_env (Some path) 16000 initial_recorder = (1, r1)"
  using initRecorder_succeeds [OF sample_env(1-4,6-8), of path initial_recorder] by (metis prod.collapse)

lemma sample_frames:
  assumes "initRecorder sample_env (Some path) 16000 initial_recorder = (1, r1)" "length fs < 2 ^ 31"
  obtains r2 where "write_frames sample_env fs r1 = Some r2"
proof -
  obtain pgs where "recording 7 path [header_bytes (opus_header r1), comment_packet sample_env] pgs r1" "running r1" "enc_granulepos r1 = 0"
    using initRecorder_recording [OF sample_env(1) assms(1)] sample_env(5) by auto
  moreover then have "pgs \<noteq> []" by (auto simp: recording_def)
  moreover have "0 + 5760 * int (length fs) < 2 ^ 62" using assms(2) by simp
  ultimately have "write_frames sample_env fs r1 \<noteq> None"
    using write_frames_succeeds [OF sample_env(1,2,9)] by simp
  then show ?thesis using that by blast
qed

text \<open>
  C8. A recording is a sequence of whole Ogg pages, one for each packet: after \<open>initRecorder\<close> and any number
  of frames, each reported as written, the file that \<open>stopRecord\<close> leaves is the identification header, the
  comments and the encoded frames, each in a page of its own and in this order; the counters are the
  number of pages and the length of the file.
\<close>

theorem recording_file:
  assumes "env_ok env" "initRecorder env (Some path) sampleRate r = (1, r1)" "write_frames env fs r1 = Some r2" "length fs < 2 ^ 31"
  shows "\<exists>pgs. list_all2 packet_page ([header_bytes (opus_header r1), comment_packet env] @ frame_packets env fs r1) pgs \<and>
    files (stopRecord r2) path = Some (concat (map page_bytes pgs)) \<and> fileOs (stopRecord r2) = None \<and>
    pages_out r2 = int (length pgs) \<and> bytes_written r2 = int (length (concat (map page_bytes pgs)))"
proof -
  obtain pgs where r1: "recording (random env) path [header_bytes (opus_header r1), comment_packet env] pgs r1" "running r1" "enc_granulepos r1 = 0"
    using initRecorder_recording [OF assms(1,2)] by auto
  then have ne: "pgs \<noteq> []" by (auto simp: recording_def)
  have "0 \<le> enc_granulepos r1" "enc_granulepos r1 + 5760 * int (length fs) < 2 ^ 62" using assms(4) r1(3) by simp_all
  from write_frames_recording [OF assms(1) r1(1) ne r1(2) this assms(3)] show ?thesis
    by (auto simp: recording_def stopRecord_def)
qed

theorem recording_file_witness:
  "\<exists>r1 r2 pgs. initRecorder sample_env (Some ''a'') 16000 initial_recorder = (1, r1) \<and>
     write_frames sample_env [(replicate 1920 0, 1920), ([1, 0], 2)] r1 = Some r2 \<and>
     files (stopRecord r2) ''a'' = Some (concat (map page_bytes pgs)) \<and> pages_out r2 = int (length pgs)"
proof -
  obtain r1 where i: "initRecorder sample_env (Some ''a'') 16000 initial_recorder = (1, r1)" by (rule sample_recording)
  obtain r2 where w: "write_frames sample_env [(replicate 1920 0, 1920), ([1, 0], 2)] r1 = Some r2"
    by (rule sample_frames [OF i, of "[(replicate 1920 0, 1920), ([1, 0], 2)]"]) simp
  from recording_file [OF sample_env(1) i w] i w show ?thesis by auto
qed

text \<open>
  C9. What was recorded can be played: with whatever memory, a fresh decoder of the same serial number that is
  fed the pages of the file gives, page by page, the packets of the recording, unchanged and in order; the
  first is the identification header, which the player parses into the fields of the recording.
\<close>

theorem recording_plays:
  assumes "env_ok env" "-(2 ^ 31) \<le> random env" "random env < 2 ^ 31"
    and "initRecorder env (Some path) sampleRate r = (1, r1)" "write_frames env fs r1 = Some r2" "length fs < 2 ^ 30"
    and "ogg_stream_init alloc (Some d0) (random env) = (0, Some d)"
  shows "\<exists>pgs d'. files r2 path = Some (concat (map page_bytes pgs)) \<and>
    play alloc' d pgs = Some ([header_bytes (opus_header r1), comment_packet env] @ frame_packets env fs r1, d') \<and>
    (0 \<le> preskip (opus_header r1) \<and> preskip (opus_header r1) < 65536 \<longrightarrow>
       opus_head_parse (Some old) (header_bytes (opus_header r1)) = Inr (Some (parsed_header (opus_header r1) (mapping old))))"
proof -
  obtain pgs where r1: "recording (random env) path [header_bytes (opus_header r1), comment_packet env] pgs r1" "running r1" "enc_granulepos r1 = 0"
    and h: "channels (opus_header r1) = 1" "channel_mapping (opus_header r1) = 0" "gain (opus_header r1) = 0"
    using initRecorder_recording [OF assms(1,4)] by auto
  then have ne: "pgs \<noteq> []" by (auto simp: recording_def)
  have "0 \<le> enc_granulepos r1" "enc_granulepos r1 + 5760 * int (length fs) < 2 ^ 62" using assms(6) r1(3) by simp_all
  from write_frames_recording [OF assms(1) r1(1) ne r1(2) this assms(5)] obtain pgs' where
    rec: "recording (random env) path ([header_bytes (opus_header r1), comment_packet env] @ frame_packets env fs r1) (pgs @ pgs') r2"
    by blast
  let ?ps = "[header_bytes (opus_header r1), comment_packet env] @ frame_packets env fs r1" and ?pgs = "pgs @ pgs'"
  have p: "list_all2 packet_page ?ps ?pgs" "\<And>i. i < length ?pgs \<Longrightarrow> numbered (random env) (0 + int i) (?pgs ! i)"
    and f: "files r2 path = Some (concat (map page_bytes ?pgs))"
    using rec by (simp_all add: recording_def)
  have n: "0 + int (length ?pgs) \<le> 2 ^ 31"
    using assms(6) list_all2_lengthD [OF p(1)] by (simp add: length_frame_packets)
  have small: "length q < 16384" if "q \<in> set ?ps" for q using rec that by (simp only: recording_def)
  obtain d' where "play alloc' d ?pgs = Some (?ps, d')"
    using play_packets [OF p small waiting_init [OF assms(7)] assms(2,3) _ n] by auto
  moreover have "header_fits (opus_header r1)" if "0 \<le> preskip (opus_header r1)" "preskip (opus_header r1) < 65536"
    using that h by (simp add: header_fits_def)
  ultimately show ?thesis using f head_parse_header_bytes by blast
qed

theorem recording_plays_witness:
  "\<exists>r1 r2 pgs d'. initRecorder sample_env (Some ''a'') 16000 initial_recorder = (1, r1) \<and>
     write_frames sample_env [(replicate 1920 0, 1920), ([1, 0], 2)] r1 = Some r2 \<and>
     files r2 ''a'' = Some (concat (map page_bytes pgs)) \<and> length pgs = 4 \<and>
     play (\<lambda>n. False) fresh_stream pgs = Some ([header_bytes (opus_header r1), comment_packet sample_env, [1, 2, 3], [1, 2, 3]], d')"
proof -
  let ?fs = "[(replicate 1920 0, 1920), ([1, 0], 2)]"
  obtain r1 where i: "initRecorder sample_env (Some ''a'') 16000 initial_recorder = (1, r1)" by (rule sample_recording)
  obtain r2 where w: "write_frames sample_env ?fs r1 = Some r2" by (rule sample_frames [OF i, of ?fs]) simp
  have d: "ogg_stream_init (\<lambda>n. True) (Some zero_stream) (random sample_env) = (0, Some fresh_stream)"
    using fresh_stream by (simp only: sample_env(5))
  have p: "frame_packet sample_env pcm count r = [1, 2, 3]" if "running r" "count div 2 \<noteq> 0" for pcm count r
    using that by (simp add: frame_packet_def sample_env_def running_def)
  have run: "running r1" "enc_granulepos r1 = 0" and rec: "\<exists>pgs. recording 7 ''a'' [header_bytes (opus_header r1), comment_packet sample_env] pgs r1"
    using initRecorder_recording [OF sample_env(1) i] by (auto simp: sample_env(5))
  obtain pgs where rec: "recording 7 ''a'' [header_bytes (opus_header r1), comment_packet sample_env] pgs r1" using rec by blast
  then have ne: "pgs \<noteq> []" by (auto simp: recording_def)
  obtain res r3 where f: "writeFrame sample_env (replicate 1920 0) 1920 r1 = (res, r3)" by fastforce
  have "res = 1" using w f by (simp split: if_splits)
  then have "running r3" using frame_written [OF sample_env(1) rec ne run(1) _ _ f] run(2) by auto
  then have fp: "frame_packets sample_env ?fs r1 = [[1, 2, 3], [1, 2, 3]]" using f p run(1) by simp
  have k: "-(2 ^ 31) \<le> random sample_env" "random sample_env < 2 ^ 31" "length ?fs < 2 ^ 30" by (simp_all add: sample_env(5))
  from recording_plays [OF sample_env(1) k(1,2) i w k(3) d, where alloc' = "\<lambda>n. False" and old = blank_head] fp obtain pgs d' where
    "files r2 ''a'' = Some (concat (map page_bytes pgs))"
    "play (\<lambda>n. False) fresh_stream pgs = Some ([header_bytes (opus_header r1), comment_packet sample_env, [1, 2, 3], [1, 2, 3]], d')"
    by auto
  moreover then have "length pgs = 4" using play_length by fastforce
  ultimately show ?thesis using i w by blast
qed

text \<open>
  C13. A frame, however short, is one page: while a recording is under way, \<open>writeFrame\<close> either fails, because the
  encoder did or the file took too little, or it appends to the file the page of the packet that the
  encoder made of the samples, filled up with silence to 20 ms; the page carries the time at which the
  frame ends, or for a short frame the number of samples recorded, and it ends the stream when the frame
  is short or an earlier one was.
\<close>

theorem writeFrame_page:
  assumes "env_ok env" "recording serial path ps pgs r" "pgs \<noteq> []" "running r" "0 \<le> enc_granulepos r" "enc_granulepos r < 2 ^ 62"
    and "count \<le> length pcm" "writeFrame env pcm count r = (res, r')"
  shows "res = 0 \<and> (takes_all env \<longrightarrow> frame_fails env pcm count r) \<or>
    res = 1 \<and> (\<exists>pg. recording serial path (ps @ [frame_packet env pcm count r]) (pgs @ [pg]) r' \<and> running r' \<and>
      ogg_page_granulepos pg = word_of_int (frame_granule count r) \<and> enc_granulepos r' = frame_end count r \<and>
      (ogg_page_eos pg \<noteq> 0 \<longleftrightarrow> count div 2 < 960 \<or> e_o_s (stream_os r) \<noteq> 0) \<and>
      (count div 2 < 960 \<longrightarrow> frame_pcm env pcm count = take (count div 2 * 2) pcm @ replicate (1920 - count div 2 * 2) 0))"
proof -
  have "frame_pcm env pcm count = take (count div 2 * 2) pcm @ replicate (1920 - count div 2 * 2) 0" if "count div 2 < 960"
    by (rule frame_pcm_padded [OF assms(1,7) that])
  then show ?thesis using frame_written [OF assms(1-6,8)] by (auto simp: frame_size_def)
qed

theorem writeFrame_page_witness:
  "\<exists>r1 r2 pg. initRecorder sample_env (Some ''a'') 16000 initial_recorder = (1, r1) \<and>
     writeFrame sample_env [5, 6, 7, 8] 4 r1 = (1, r2) \<and> ogg_page_eos pg \<noteq> 0 \<and>
     files r2 ''a'' = Some (the (files r1 ''a'') @ page_bytes pg)"
proof -
  obtain r1 where i: "initRecorder sample_env (Some ''a'') 16000 initial_recorder = (1, r1)" by (rule sample_recording)
  obtain pgs where r1: "recording 7 ''a'' [header_bytes (opus_header r1), comment_packet sample_env] pgs r1" "running r1" "enc_granulepos r1 = 0"
    using initRecorder_recording [OF sample_env(1) i] by (auto simp: sample_env(5))
  then have ne: "pgs \<noteq> []" by (auto simp: recording_def)
  obtain res r2 where w: "writeFrame sample_env [5, 6, 7, 8] 4 r1 = (res, r2)" by fastforce
  have "max_frame_bytes r1 = 3832" using r1(2) by (simp add: running_def)
  then have "\<not> frame_fails sample_env [5, 6, 7, 8] 4 r1" using sample_env(9) by (simp add: frame_fails_def not_less)
  with writeFrame_page [OF sample_env(1) r1(1) ne r1(2) _ _ _ w] r1(3) sample_env(2) obtain pg where
    "res = 1" "ogg_page_eos pg \<noteq> 0" "files r2 ''a'' = Some (concat (map page_bytes (pgs @ [pg])))"
    by (auto simp: recording_def)
  moreover have "files r1 ''a'' = Some (concat (map page_bytes pgs))" using r1(1) by (simp add: recording_def)
  ultimately show ?thesis using i w by auto
qed

text \<open>
  A recording succeeds when what it asks for is granted: if memory is granted, the file opens and takes what is
  written, and the encoder makes no error, then \<open>initRecorder\<close> gives 1 and so does \<open>writeFrame\<close>, frame after
  frame, up to days of them.
\<close>

theorem recording_succeeds:
  assumes "env_ok env" "takes_all env" "\<And>n. granted env n" "openable env path"
    and "opus_create env sampleRate 1 OPUS_APPLICATION_VOIP = (e0, OPUS_OK)"
    and "\<And>e. fst (opus_set_bitrate env e bitrate) = OPUS_OK" "\<And>e. fst (opus_get_lookahead env e) = OPUS_OK"
    and "\<And>e pcm n. 0 \<le> fst (opus_encode env e pcm n 383)" "length fs < 2 ^ 31"
  shows "\<exists>r1. initRecorder env (Some path) sampleRate r = (1, r1) \<and> write_frames env fs r1 \<noteq> None"
proof -
  obtain r1 where i: "initRecorder env (Some path) sampleRate r = (1, r1)"
    using initRecorder_succeeds [OF assms(1-7), of r] by (metis prod.collapse)
  obtain pgs where r1: "recording (random env) path [header_bytes (opus_header r1), comment_packet env] pgs r1" "running r1" "enc_granulepos r1 = 0"
    using initRecorder_recording [OF assms(1) i] by auto
  then have "pgs \<noteq> []" by (auto simp: recording_def)
  moreover have "0 \<le> enc_granulepos r1" "enc_granulepos r1 + 5760 * int (length fs) < 2 ^ 62" using assms(9) r1(3) by simp_all
  ultimately have "write_frames env fs r1 \<noteq> None" using write_frames_succeeds [OF assms(1,2,8) r1(1) _ r1(2)] by blast
  with i show ?thesis by blast
qed

theorem recording_succeeds_witness:
  "\<exists>r1. initRecorder sample_env (Some ''a'') 16000 initial_recorder = (1, r1) \<and>
     write_frames sample_env (replicate 50 (replicate 1920 0, 1920)) r1 \<noteq> None"
  by (rule recording_succeeds [OF sample_env(1-4,6-9)]) simp

text \<open>
  A recording does not depend on what was recorded before, whether that was stopped or not, and succeeded or
  not: \<open>initRecorder\<close> on two states of the globals with the same files gives the same result and the same files,
  and the same state when it succeeds; and \<open>stopRecord\<close> closes the file and leaves the files as they are.
\<close>

theorem initRecorder_independent:
  assumes "files r = files r'" "initRecorder env path sampleRate r = (res, t)"
  shows "(\<exists>t'. initRecorder env path sampleRate r' = (res, t') \<and> files t' = files t \<and> (res = 1 \<longrightarrow> t' = t)) \<and>
    files (stopRecord r) = files r \<and> fileOs (stopRecord r) = None \<and> stream_os (stopRecord r) = zero_stream"
proof -
  have "stream_os (stopRecord r) = zero_stream" by (simp add: stopRecord_def cleanupRecorder_def Let_def split: prod.splits)
  then show ?thesis using initRecorder_same [OF assms] by (simp add: stopRecord_def)
qed

theorem initRecorder_independent_witness:
  "\<exists>t. initRecorder sample_env (Some ''a'') 16000 initial_recorder = (1, t) \<and>
     initRecorder sample_env (Some ''a'') 16000 (initial_recorder\<lparr>enc_granulepos := 960, pages_out := 5, total_samples := 99\<rparr>) = (1, t)"
proof -
  obtain t where i: "initRecorder sample_env (Some ''a'') 16000 initial_recorder = (1, t)" by (rule sample_recording)
  have "files (initial_recorder :: unit recorder) = files ((initial_recorder :: unit recorder)\<lparr>enc_granulepos := 960, pages_out := 5, total_samples := 99\<rparr>)"
    by simp
  from initRecorder_independent [OF this i] i show ?thesis by auto
qed

end
