(* ===== verification/Waveform.thy ===== *)
theory Waveform
  imports Prelude "HOL-Library.Signed_Division"
begin

text \<open>
  The waveform of a voice message in \<^verbatim>\<open>app/jni/audio.c\<close>: \<open>getWaveform2\<close> on an array of samples,
  \<open>getWaveform\<close> on an Opus file, and \<open>set_bits\<close>, which packs the hundred values into five bits each.
  The only floating-point computation of the code is modelled with its rounding.
\<close>

unbundle bit_operations_syntax

section \<open>Single precision\<close>

text \<open>
  A \<open>float\<close> above 0 in the normal range is \<open>m / 2 ^ k\<close> or \<open>m * 2 ^ k\<close> with \<open>2 ^ 23 \<le> m < 2 ^ 24\<close> (or \<open>m = 2 ^ 24\<close>
  after rounding up).  \<open>nearest a b\<close> is the float nearest to \<open>a / b\<close>, as numerator and denominator.
\<close>

definition nearest :: "nat \<Rightarrow> nat \<Rightarrow> nat \<times> nat" where
  "nearest a b =
     (let la = bitlen a; lb = bitlen b;
          up = (24 + lb) - la; down = la - (24 + lb);
          (up, down) = (if a * 2 ^ up < b * 2 ^ down * 2 ^ 24 then (up, down)
                        else if 0 < up then (up - 1, down) else (up, down + 1))
      in (round_div (a * 2 ^ up) (b * 2 ^ down) * 2 ^ down, 2 ^ up))"

text \<open>\<open>sumSamples * 1.8f / resultSamples\<close>, cut to an integer; \<open>1.8f\<close> is \<open>15099494 / 2 ^ 23\<close>.\<close>

definition peak_of_sum :: "nat \<Rightarrow> nat" where
  "peak_of_sum sumSamples =
     (let (n, d) = nearest sumSamples 1;
          (n, d) = nearest (n * 15099494) (d * 2 ^ 23);
          (n, d) = nearest n (d * 100)
      in n div d)"

section \<open>The bit stream\<close>

text \<open>An \<open>int32_t\<close> of the buffer, little-endian and at any byte, is combined with the shifted value.\<close>

definition set_bits :: "bytes \<Rightarrow> nat \<Rightarrow> u32 \<Rightarrow> bytes" where
  "set_bits bs bitOffset v =
     (let p = bitOffset div 8;
          bitOffset = bitOffset mod 8;
          w = pack (bs ! (p + 3)) (bs ! (p + 2)) (bs ! (p + 1)) (bs ! p) OR push_bit bitOffset v
      in bs[p := b0 w, p + 1 := b1 w, p + 2 := b2 w, p + 3 := b3 w])"

section \<open>Peaks\<close>

abbreviation resultSamples :: nat where
  "resultSamples \<equiv> 100"

record peaks =
  samples :: "u16 list"
  sampleIndex :: nat
  peakSample :: u16
  index :: nat

text \<open>The body of the loop over the samples.\<close>

definition sample_step :: "nat \<Rightarrow> u16 \<Rightarrow> peaks \<Rightarrow> peaks" where
  "sample_step sampleRate s p =
     (let sample = word_of_int \<bar>sint s\<bar> :: u16;
          p = (if sample > peakSample p then p\<lparr>peakSample := sample\<rparr> else p);
          boundary = (sampleIndex p mod sampleRate = 0);
          p = p\<lparr>sampleIndex := sampleIndex p + 1\<rparr>
      in if boundary
         then (let p = (if index p < resultSamples
                        then p\<lparr>samples := (samples p)[index p := peakSample p], index := index p + 1\<rparr> else p)
               in p\<lparr>peakSample := 0\<rparr>)
         else p)"

fun sample_loop :: "nat \<Rightarrow> u16 list \<Rightarrow> peaks \<Rightarrow> peaks" where
  "sample_loop sampleRate [] p = p"
| "sample_loop sampleRate (s # ss) p = sample_loop sampleRate ss (sample_step sampleRate s p)"

text \<open>What follows the loop, the same in both functions: the peak, the clamping, the packing.\<close>

definition peak_of :: "u16 list \<Rightarrow> u16" where
  "peak_of smp =
     (let sumSamples = sum_list (map (\<lambda>i. unat (smp ! i)) [0..<resultSamples]);
          peak = of_nat (peak_of_sum sumSamples) :: u16
      in if peak < 2500 then 2500 else peak)"

fun clamp_samples :: "u16 \<Rightarrow> nat \<Rightarrow> nat \<Rightarrow> u16 list \<Rightarrow> u16 list" where
  "clamp_samples peak i 0 smp = smp"
| "clamp_samples peak i (Suc left) smp =
     clamp_samples peak (i + 1) left (if smp ! i > peak then smp[i := peak] else smp)"

fun pack_values :: "u16 list \<Rightarrow> u16 \<Rightarrow> nat \<Rightarrow> nat \<Rightarrow> bytes \<Rightarrow> bytes" where
  "pack_values smp peak i 0 bs = bs"
| "pack_values smp peak i (Suc left) bs =
     (let v = min 31 (\<bar>int (unat (smp ! i))\<bar> * 31 sdiv int (unat peak))
      in pack_values smp peak (i + 1) left (set_bits bs (i * 5) (word_of_int v AND 31)))"

definition bitstreamLength :: nat where
  "bitstreamLength = resultSamples * 5 div 8 + 1"

text \<open>\<open>array_ok\<close> says whether \<open>NewByteArray\<close> gives an array; without one the result is null.\<close>

definition waveform_bytes :: "bool \<Rightarrow> u16 list \<Rightarrow> bytes option" where
  "waveform_bytes array_ok smp =
     (let peak = peak_of smp;
          smp = clamp_samples peak 0 resultSamples smp
      in if array_ok
         then (let bs = replicate (bitstreamLength + 4) 0;
                   bs = pack_values smp peak 0 resultSamples bs
               in Some (take bitstreamLength bs))
         else None)"

section \<open>The two functions\<close>

text \<open>
  \<open>old\<close> is what the hundred samples of the block that \<open>malloc\<close> gives held before.  \<open>length\<close> is the argument of
  that name, which the Java side sets to the length of the array.
\<close>

definition getWaveform2 :: "u16 list \<Rightarrow> bool \<Rightarrow> u16 list \<Rightarrow> int \<Rightarrow> bytes option" where
  "getWaveform2 old array_ok sampleBuffer len =
     (let sampleRate = nat (max 1 (len sdiv int resultSamples));
          p = \<lparr>samples = old, sampleIndex = 0, peakSample = 0, index = 0\<rparr>;
          p = sample_loop sampleRate (take (nat len) sampleBuffer) p
      in waveform_bytes array_ok (samples p))"

text \<open>
  The reader of the Opus file is a state with \<open>op_read\<close>, which gives the number of samples and the samples.
  The loop ends when it gives 0, and only then.
\<close>

partial_function (option) read_loop ::
    "('f \<Rightarrow> int \<times> u16 list \<times> 'f) \<Rightarrow> nat \<Rightarrow> 'f \<Rightarrow> peaks \<Rightarrow> peaks option" where
  "read_loop op_read sampleRate f p =
     (case op_read f of (readSamples, buffer, f) \<Rightarrow>
        let p = sample_loop sampleRate (take (nat readSamples) buffer) p
        in if readSamples = 0 then Some p else read_loop op_read sampleRate f p)"

text \<open>
  \<open>opened\<close> is what \<open>op_open_file\<close> gives: the reader, if it succeeded.  The outer result is \<open>None\<close> if the
  function does not return, the inner one if it returns null.
\<close>

definition getWaveform ::
    "u16 list \<Rightarrow> bool \<Rightarrow> ('f \<Rightarrow> int) \<Rightarrow> ('f \<Rightarrow> int \<times> u16 list \<times> 'f) \<Rightarrow> 'f option \<Rightarrow> bytes option option" where
  "getWaveform old array_ok op_pcm_total op_read opened =
     (case opened of None \<Rightarrow> Some None
      | Some f \<Rightarrow>
          let totalSamples = op_pcm_total f;
              sampleRate = nat (max 1 (sint (word_of_int (totalSamples sdiv int resultSamples) :: u32)));
              p = \<lparr>samples = old, sampleIndex = 0, peakSample = 0, index = 0\<rparr>
          in case read_loop op_read sampleRate f p of None \<Rightarrow> None
             | Some p \<Rightarrow> Some (waveform_bytes array_ok (samples p)))"

section \<open>The bits of the result\<close>

text \<open>The stream of bits that the Java side reads, and its five-bit fields.\<close>

definition stream_bit :: "bytes \<Rightarrow> nat \<Rightarrow> bool" where
  "stream_bit bs k = bit (bs ! (k div 8)) (k mod 8)"

definition five_bits :: "bytes \<Rightarrow> nat \<Rightarrow> nat" where
  "five_bits bs i = (\<Sum>j<5. of_bool (stream_bit bs (5 * i + j)) * 2 ^ j)"

lemma bit_packed: "n < 32 \<Longrightarrow> bit (pack a b c d) n = bit ([d, c, b, a] ! (n div 8)) (n mod 8)"
proof -
  assume "n < 32"
  then have "n div 8 < 4" by (simp add: div_less_iff_less_mult)
  then consider "n div 8 = 0" | "n div 8 = 1" | "n div 8 = 2" | "n div 8 = 3" by linarith
  then show ?thesis
    using div_mult_mod_eq [of n 8] minus_mult_div_eq_mod [of n 8] by cases (auto simp: bit_pack split: if_splits)
qed

lemma length_set_bits [simp]: "length (set_bits bs k v) = length bs"
  by (simp add: set_bits_def Let_def)

lemma set_bits_stream:
  assumes "off div 8 + 3 < length bs" "k div 8 < length bs" "v < 32"
  shows "stream_bit (set_bits bs off v) k \<longleftrightarrow> stream_bit bs k \<or> off \<le> k \<and> bit v (k - off)"
proof -
  let ?p = "off div 8" and ?o = "off mod 8"
  let ?old = "pack (bs ! (?p + 3)) (bs ! (?p + 2)) (bs ! (?p + 1)) (bs ! ?p)"
  let ?w = "?old OR push_bit ?o v"
  have v5: "\<not> bit v n" if "5 \<le> n" for n
  proof -
    have "unat v < 2 ^ 5" using assms(3) by (simp add: word_less_nat_alt)
    then have "take_bit 5 (unat v) = unat v" by (rule take_bit_nat_eq_self)
    then have "\<not> bit (unat v) n" using that by (metis bit_take_bit_iff not_less)
    then show ?thesis by (auto simp: bit_unsigned_iff dest: bit_imp_le_length)
  qed
  have o: "?p * 8 + ?o = off" "?o < 8" by simp_all
  have k: "k div 8 * 8 + k mod 8 = k" "k mod 8 < 8" by simp_all
  show ?thesis
  proof (cases "?p \<le> k div 8 \<and> k div 8 < ?p + 4")
    case False
    then have "set_bits bs off v ! (k div 8) = bs ! (k div 8)" by (auto simp: set_bits_def Let_def nth_list_update)
    moreover have "\<not> (off \<le> k \<and> bit v (k - off))"
    proof
      assume b: "off \<le> k \<and> bit v (k - off)"
      have "\<not> 5 \<le> k - off" using v5 b by blast
      then have "k < off + 5" by linarith
      then show False using b False o k by linarith
    qed
    ultimately show ?thesis unfolding stream_bit_def by auto
  next
    case True
    define n where "n = (k div 8 - ?p) * 8 + k mod 8"
    obtain q where q: "k div 8 = ?p + q" using True le_Suc_ex by blast
    have n: "n < 32" "n div 8 = k div 8 - ?p" "n mod 8 = k mod 8"
      using True k by (simp_all add: n_def) linarith
    have n: "n < 32" "n div 8 = k div 8 - ?p" "n mod 8 = k mod 8" "?p * 8 + n = k"
      using n k(1) by (simp_all add: n_def q algebra_simps)
    have "set_bits bs off v ! (k div 8) = [b0 ?w, b1 ?w, b2 ?w, b3 ?w] ! (k div 8 - ?p)"
    proof -
      consider "k div 8 = ?p" | "k div 8 = ?p + 1" | "k div 8 = ?p + 2" | "k div 8 = ?p + 3" using True by linarith
      then show ?thesis using assms(1) by cases (simp_all add: set_bits_def Let_def)
    qed
    moreover have "bit ([b0 ?w, b1 ?w, b2 ?w, b3 ?w] ! (n div 8)) (n mod 8) = bit ?w n"
      using bit_packed [OF n(1), of "b3 ?w" "b2 ?w" "b1 ?w" "b0 ?w"] by simp
    moreover have "bit ?old n = stream_bit bs k"
    proof -
      have "[bs ! ?p, bs ! (?p + 1), bs ! (?p + 2), bs ! (?p + 3)] ! (k div 8 - ?p) = bs ! (k div 8)"
      proof -
        consider "k div 8 = ?p" | "k div 8 = ?p + 1" | "k div 8 = ?p + 2" | "k div 8 = ?p + 3" using True by linarith
        then show ?thesis by cases simp_all
      qed
      then show ?thesis using bit_packed [OF n(1), of "bs ! (?p + 3)" "bs ! (?p + 2)" "bs ! (?p + 1)" "bs ! ?p"] n(2,3)
        by (simp add: stream_bit_def)
    qed
    moreover have "bit (push_bit ?o v) n \<longleftrightarrow> off \<le> k \<and> bit v (k - off)"
    proof -
      have "?o \<le> n \<longleftrightarrow> off \<le> k" "?o \<le> n \<Longrightarrow> n - ?o = k - off" using n(4) o(1) by linarith+
      then show ?thesis using n(1) by (auto simp: bit_push_bit_iff)
    qed
    ultimately show ?thesis by (simp add: stream_bit_def n(2,3) bit_or_iff)
  qed
qed

text \<open>The value of a sample, below 32.\<close>

definition waveform_value :: "nat \<Rightarrow> nat \<Rightarrow> nat" where
  "waveform_value peak s = min 31 (min s peak * 31 div peak)"

lemma value_word:
  "0 < unat peak \<Longrightarrow>
     word_of_int (min 31 (\<bar>int (unat s)\<bar> * 31 sdiv int (unat peak))) AND 31 = (of_nat (min 31 (unat s * 31 div unat peak)) :: u32)"
proof -
  assume pos: "0 < unat peak"
  have "int a * 31 sdiv int b = int (a * 31 div b)" if "0 < b" for a b :: nat
    using that by (simp add: signed_divide_int_def sgn_if zdiv_int)
  then have "\<bar>int (unat s)\<bar> * 31 sdiv int (unat peak) = int (unat s * 31 div unat peak)"
    using pos by (simp only: abs_of_nat)
  then have "min 31 (\<bar>int (unat s)\<bar> * 31 sdiv int (unat peak)) = int (min 31 (unat s * 31 div unat peak))" by simp
  moreover have "(of_nat n :: u32) AND 31 = of_nat n" if "n \<le> 31" for n
  proof -
    have "(31 :: u32) = mask 5" by (simp add: mask_eq_exp_minus_1)
    then have "(of_nat n :: u32) AND 31 = take_bit 5 (of_nat n)" by (simp only: take_bit_eq_mask)
    also have "\<dots> = of_nat (take_bit 5 n)" by (simp add: take_bit_of_nat)
    also have "take_bit 5 n = n" using that by (simp add: take_bit_nat_eq_self)
    finally show ?thesis .
  qed
  ultimately show ?thesis by simp
qed

lemma pack_values_stream:
  assumes "0 < unat peak" "(i + left) * 5 div 8 + 4 \<le> length bs" "k div 8 < length bs"
  shows "length (pack_values smp peak i left bs) = length bs \<and>
    (stream_bit (pack_values smp peak i left bs) k \<longleftrightarrow> stream_bit bs k \<or>
      (\<exists>m. i \<le> m \<and> m < i + left \<and> 5 * m \<le> k \<and> bit (of_nat (min 31 (unat (smp ! m) * 31 div unat peak)) :: u32) (k - 5 * m)))"
  using assms(2,3)
proof (induction left arbitrary: i bs)
  case (Suc left)
  let ?w = "\<lambda>m. of_nat (min 31 (unat (smp ! m) * 31 div unat peak)) :: u32"
  let ?bs = "set_bits bs (i * 5) (?w i)"
  have step: "pack_values smp peak i (Suc left) bs = pack_values smp peak (i + 1) left ?bs"
    by (simp only: pack_values.simps Let_def value_word [OF assms(1)])
  have "i * 5 div 8 \<le> (i + Suc left) * 5 div 8" by (intro div_le_mono) simp
  then have off: "i * 5 div 8 + 3 < length bs" using Suc.prems(1) by linarith
  have "?w i < 32"
  proof -
    have "unat (?w i) = min 31 (unat (smp ! i) * 31 div unat peak)" by (simp add: unat_of_nat)
    then show ?thesis by (simp add: word_less_nat_alt)
  qed
  note one = set_bits_stream [OF off Suc.prems(2) this]
  have "(i + 1 + left) * 5 div 8 + 4 \<le> length ?bs" "k div 8 < length ?bs" using Suc.prems by simp_all
  note IH = Suc.IH [OF this]
  have "(\<exists>m. i \<le> m \<and> m < i + Suc left \<and> P m) \<longleftrightarrow> P i \<or> (\<exists>m. i + 1 \<le> m \<and> m < i + 1 + left \<and> P m)" for P
  proof
    assume "\<exists>m. i \<le> m \<and> m < i + Suc left \<and> P m"
    then obtain m where "i \<le> m" "m < i + Suc left" "P m" by blast
    then show "P i \<or> (\<exists>m. i + 1 \<le> m \<and> m < i + 1 + left \<and> P m)" by (cases "m = i") auto
  next
    assume "P i \<or> (\<exists>m. i + 1 \<le> m \<and> m < i + 1 + left \<and> P m)"
    then show "\<exists>m. i \<le> m \<and> m < i + Suc left \<and> P m"
    proof
      assume "P i"
      then show ?thesis by (intro exI [of _ i]) simp
    next
      assume "\<exists>m. i + 1 \<le> m \<and> m < i + 1 + left \<and> P m"
      then obtain m where "i + 1 \<le> m" "m < i + 1 + left" "P m" by blast
      then show ?thesis by (intro exI [of _ m]) simp
    qed
  qed
  note split = this [of "\<lambda>m. 5 * m \<le> k \<and> bit (?w m) (k - 5 * m)"]
  show ?case
    unfolding step split using IH one by (auto simp: mult.commute)
qed auto

lemma clamp_samples:
  "i + left \<le> length smp \<Longrightarrow>
     clamp_samples peak i left smp = take i smp @ map (min peak) (take left (drop i smp)) @ drop (i + left) smp"
proof (induction left arbitrary: i smp)
  case (Suc left)
  let ?s = "if smp ! i > peak then smp[i := peak] else smp"
  have s: "?s = take i smp @ min peak (smp ! i) # drop (Suc i) smp"
    using Suc.prems upd_conv_take_nth_drop [of i smp peak] id_take_nth_drop [of i smp] by (cases "smp ! i > peak") (simp_all add: min.absorb3 min.absorb2)
  have l: "length ?s = length smp" by simp
  have d: "drop i smp = smp ! i # drop (Suc i) smp" using Suc.prems by (simp add: Cons_nth_drop_Suc)
  have t: "take (Suc i) ?s = take i smp @ [min peak (smp ! i)]" "drop (Suc i) ?s = drop (Suc i) smp"
    using Suc.prems unfolding s by simp_all
  have "clamp_samples peak (i + 1) left ?s = take (Suc i) ?s @ map (min peak) (take left (drop (Suc i) ?s)) @ drop (Suc i + left) ?s"
    using Suc.IH [of "i + 1" ?s] Suc.prems l by simp
  moreover have "drop (Suc i + left) ?s = drop (i + Suc left) smp"
    using arg_cong [OF t(2), of "drop left"] by (simp add: add.commute)
  ultimately show ?case using t d by simp
qed simp

lemma of_bool_bits: "v < 32 \<Longrightarrow> (\<Sum>j<5. of_bool (bit v j) * 2 ^ j) = v" for v :: nat
proof -
  assume "v < 32"
  have "(\<Sum>j<n. of_bool (bit v j) * 2 ^ j) = take_bit n v" for n
    by (induction n) (simp_all add: take_bit_Suc_from_most)
  then have "(\<Sum>j<5. of_bool (bit v j) * 2 ^ j) = take_bit 5 v" .
  also have "\<dots> = v" using \<open>v < 32\<close> by (simp add: take_bit_nat_eq_self)
  finally show ?thesis .
qed

text \<open>Each field of the result is the value that was packed there.\<close>

lemma packed_fields:
  assumes "0 < unat peak" "i < 100"
  shows "five_bits (take bitstreamLength (pack_values smp peak 0 resultSamples (replicate (bitstreamLength + 4) 0))) i =
    min 31 (unat (smp ! i) * 31 div unat peak)"
proof -
  let ?bs = "replicate (bitstreamLength + 4) (0 :: u8)"
  let ?r = "pack_values smp peak 0 resultSamples ?bs" and ?v = "\<lambda>m. min 31 (unat (smp ! m) * 31 div unat peak)"
  have "stream_bit (take bitstreamLength ?r) (5 * i + j) \<longleftrightarrow> bit (?v i) j" if "j < 5" for j
  proof -
    have k: "(5 * i + j) div 8 < 63" using that assms(2) by (simp add: div_less_iff_less_mult)
    then have kb: "(5 * i + j) div 8 < length ?bs" by (simp add: bitstreamLength_def)
    have len: "(0 + resultSamples) * 5 div 8 + 4 \<le> length ?bs" by (simp add: bitstreamLength_def)
    note p = pack_values_stream [OF assms(1) len kb, of smp]
    have small: "?v m < 2 ^ 5" for m by (simp add: min_less_iff_disj)
    have bits: "bit (of_nat (?v m) :: u32) n \<longleftrightarrow> n < 5 \<and> bit (?v m) n" for m n
    proof -
      have "\<not> bit (?v m) n" if "5 \<le> n"
        using take_bit_nat_eq_self [OF small [of m]] that by (metis bit_take_bit_iff not_less)
      then show ?thesis by (cases "5 \<le> n") (auto simp: bit_of_nat_iff)
    qed
    have "\<not> stream_bit ?bs (5 * i + j)" using kb by (simp add: stream_bit_def)
    then have "stream_bit ?r (5 * i + j) \<longleftrightarrow> (\<exists>m < 100. 5 * m \<le> 5 * i + j \<and> 5 * i + j - 5 * m < 5 \<and> bit (?v m) (5 * i + j - 5 * m))"
      using p bits by auto
    also have "\<dots> \<longleftrightarrow> bit (?v i) j"
    proof
      assume "\<exists>m < 100. 5 * m \<le> 5 * i + j \<and> 5 * i + j - 5 * m < 5 \<and> bit (?v m) (5 * i + j - 5 * m)"
      then obtain m where m: "5 * m \<le> 5 * i + j" "5 * i + j - 5 * m < 5" "bit (?v m) (5 * i + j - 5 * m)" by blast
      then have "m = i" using that by linarith
      then show "bit (?v i) j" using m(3) by simp
    next
      assume "bit (?v i) j"
      then show "\<exists>m < 100. 5 * m \<le> 5 * i + j \<and> 5 * i + j - 5 * m < 5 \<and> bit (?v m) (5 * i + j - 5 * m)"
        using assms(2) that by (intro exI [of _ i]) simp
    qed
    finally show ?thesis using k p by (simp add: stream_bit_def bitstreamLength_def)
  qed
  then have "five_bits (take bitstreamLength ?r) i = (\<Sum>j<5. of_bool (bit (?v i) j) * 2 ^ j)"
    unfolding five_bits_def by (intro sum.cong) simp_all
  also have "\<dots> = ?v i" by (rule of_bool_bits) (simp add: min_less_iff_disj)
  finally show ?thesis .
qed

section \<open>The peak\<close>

lemma round_div_bound: "round_div a b * b \<le> a + b"
proof -
  have "round_div a b \<le> a div b + 1" by (simp add: round_div_def Let_def)
  then have "round_div a b * b \<le> (a div b + 1) * b" by (rule mult_le_mono1)
  also have "\<dots> \<le> a + b" using div_times_less_eq_dividend [of a b] unfolding distrib_right by linarith
  finally show ?thesis .
qed

lemma bitlen_bounds: "n < 2 ^ bitlen n \<and> (0 < n \<longrightarrow> 2 ^ bitlen n \<le> 2 * n)"
proof (induction n rule: less_induct)
  case (less n)
  show ?case
  proof (cases "n = 0")
    case False
    then have "n div 2 < n" by simp
    with less.IH have IH: "n div 2 < 2 ^ bitlen (n div 2)" "0 < n div 2 \<longrightarrow> 2 ^ bitlen (n div 2) \<le> 2 * (n div 2)" by blast+
    have b: "bitlen n = Suc (bitlen (n div 2))" using False by (subst bitlen.simps) simp
    show ?thesis
    proof (cases "n div 2 = 0")
      case True
      then have "n = 1" using False by linarith
      moreover have "bitlen n = 1" using b True by (simp add: bitlen.simps [of 0])
      ultimately show ?thesis by simp
    next
      case False
      then have "2 ^ bitlen (n div 2) \<le> 2 * (n div 2)" using IH(2) by simp
      then show ?thesis using IH(1) div_mult_mod_eq [of n 2] unfolding b power_Suc by linarith
    qed
  qed (simp add: bitlen.simps [of 0])
qed

text \<open>Rounding adds at most one part in \<open>2 ^ 23\<close>.\<close>

lemma nearest_bound:
  assumes "0 < b" "nearest a b = (n, d)"
  shows "0 < d \<and> n * b * 2 ^ 23 \<le> a * d * (2 ^ 23 + 1)"
proof (cases "a = 0")
  case True
  then show ?thesis using assms
    by (auto simp: nearest_def Let_def round_div_def bitlen.simps [of 0] split: if_splits)
next
  case False
  let ?la = "bitlen a" and ?lb = "bitlen b"
  define up where "up = (24 + ?lb) - ?la"
  define down where "down = ?la - (24 + ?lb)"
  have a: "a < 2 ^ ?la" "2 ^ ?la \<le> 2 * a" and b: "b < 2 ^ ?lb" "2 ^ ?lb \<le> 2 * b"
    using bitlen_bounds [of a] bitlen_bounds [of b] False assms(1) by auto
  have e: "up + ?la = down + 24 + ?lb" by (simp add: up_def down_def)
  have low: "b * 2 ^ down * 2 ^ 23 \<le> a * 2 ^ up"
  proof -
    have "b * 2 ^ down * 2 ^ 24 \<le> 2 ^ ?lb * 2 ^ down * 2 ^ 24" using b(1) by simp
    also have "\<dots> = 2 ^ (?lb + down + 24)" by (simp only: power_add)
    also have "?lb + down + 24 = ?la + up" using e by simp
    also have "(2 :: nat) ^ (?la + up) = 2 ^ ?la * 2 ^ up" by (rule power_add)
    also have "\<dots> \<le> 2 * a * 2 ^ up" using a(2) by simp
    finally show ?thesis by simp
  qed
  obtain u k where uk: "(if a * 2 ^ up < b * 2 ^ down * 2 ^ 24 then (up, down) else if 0 < up then (up - 1, down) else (up, down + 1)) = (u, k)"
    by fastforce
  have nd: "n = round_div (a * 2 ^ u) (b * 2 ^ k) * 2 ^ k" "d = 2 ^ u"
  proof -
    have "nearest a b = (round_div (a * 2 ^ u) (b * 2 ^ k) * 2 ^ k, 2 ^ u)"
      by (simp only: nearest_def Let_def up_def [symmetric] down_def [symmetric] uk prod.case)
    then show "n = round_div (a * 2 ^ u) (b * 2 ^ k) * 2 ^ k" "d = 2 ^ u" using assms(2) by simp_all
  qed
  have "b * 2 ^ k * 2 ^ 23 \<le> a * 2 ^ u"
  proof (cases "a * 2 ^ up < b * 2 ^ down * 2 ^ 24")
    case True
    then show ?thesis using uk low by simp
  next
    case large: False
    show ?thesis
    proof (cases "0 < up")
      case True
      then obtain m where "up = Suc m" by (cases up) simp_all
      then show ?thesis using uk large by simp
    next
      case False
      then show ?thesis using uk large by auto
    qed
  qed
  moreover have "round_div (a * 2 ^ u) (b * 2 ^ k) * (b * 2 ^ k) \<le> a * 2 ^ u + b * 2 ^ k" by (rule round_div_bound)
  then have "n * b \<le> a * d + b * 2 ^ k" by (simp add: nd ac_simps)
  then have "n * b * 2 ^ 23 \<le> (a * d + b * 2 ^ k) * 2 ^ 23" by simp
  ultimately have "n * b * 2 ^ 23 \<le> a * d * 2 ^ 23 + a * d" unfolding nd(2) distrib_right by linarith
  then show ?thesis by (simp add: nd(2) distrib_left)
qed

text \<open>The sum of a hundred samples has a peak that fits 16 bits: the conversion is defined.\<close>

lemma peak_of_sum_bound:
  assumes "sumSamples \<le> 3276800"
  shows "peak_of_sum sumSamples < 65536"
proof -
  obtain n1 d1 where n1: "nearest sumSamples 1 = (n1, d1)" by fastforce
  obtain n2 d2 where n2: "nearest (n1 * 15099494) (d1 * 2 ^ 23) = (n2, d2)" by fastforce
  obtain n3 d3 where n3: "nearest n2 (d2 * 100) = (n3, d3)" by fastforce
  have p: "peak_of_sum sumSamples = n3 div d3" by (simp only: peak_of_sum_def n1 n2 n3 Let_def prod.case)
  have b1: "0 < d1" "n1 * 2 ^ 23 \<le> sumSamples * d1 * (2 ^ 23 + 1)" using nearest_bound [OF _ n1] by simp_all
  have b2: "0 < d2" "n2 * (d1 * 2 ^ 23) * 2 ^ 23 \<le> n1 * 15099494 * d2 * (2 ^ 23 + 1)" using nearest_bound [OF _ n2] b1(1) by simp_all
  have b3: "0 < d3" "n3 * (d2 * 100) * 2 ^ 23 \<le> n2 * d3 * (2 ^ 23 + 1)" using nearest_bound [OF _ n3] b2(1) by simp_all
  have x1: "n1 \<le> 3276801 * d1"
  proof -
    have "sumSamples * d1 * (2 ^ 23 + 1) \<le> 3276800 * d1 * (2 ^ 23 + 1)" using assms by (intro mult_right_mono) simp_all
    also have "\<dots> \<le> 3276801 * d1 * 2 ^ 23" by simp
    finally have "n1 * 2 ^ 23 \<le> 3276801 * d1 * 2 ^ 23" using b1(2) by linarith
    then show ?thesis by simp
  qed
  have x2: "n2 \<le> 5898250 * d2"
  proof -
    have "n1 * 15099494 * d2 * (2 ^ 23 + 1) \<le> 3276801 * d1 * 15099494 * d2 * (2 ^ 23 + 1)" using x1 by (intro mult_right_mono) simp_all
    also have "\<dots> \<le> 5898250 * d2 * (d1 * 2 ^ 23) * 2 ^ 23" by simp
    finally have "n2 * (d1 * 2 ^ 23) * 2 ^ 23 \<le> 5898250 * d2 * (d1 * 2 ^ 23) * 2 ^ 23" using b2(2) by linarith
    then show ?thesis using b1(1) by simp
  qed
  have "n3 \<le> 58983 * d3"
  proof -
    have "n2 * d3 * (2 ^ 23 + 1) \<le> 5898250 * d2 * d3 * (2 ^ 23 + 1)" using x2 by (intro mult_right_mono) simp_all
    also have "\<dots> \<le> 58983 * d3 * (d2 * 100) * 2 ^ 23" by simp
    finally have "n3 * (d2 * 100) * 2 ^ 23 \<le> 58983 * d3 * (d2 * 100) * 2 ^ 23" using b3(2) by linarith
    then show ?thesis using b2(1) by simp
  qed
  then have "n3 div d3 \<le> 58983 * d3 div d3" by (rule div_le_mono)
  then show ?thesis using b3(1) p by simp
qed

section \<open>The windows\<close>

text \<open>The magnitude of a sample, and the largest of the magnitudes from \<open>a\<close> up to \<open>b\<close>.\<close>

definition magnitude :: "u16 \<Rightarrow> u16" where
  "magnitude s = word_of_int \<bar>sint s\<bar>"

definition peak_between :: "u16 list \<Rightarrow> nat \<Rightarrow> nat \<Rightarrow> u16" where
  "peak_between ss a b = fold max (map (\<lambda>i. magnitude (ss ! i)) [a..<b]) 0"

text \<open>Window \<open>k\<close> ends with sample \<open>k * rate\<close>; the first window is the first sample alone.\<close>

definition window :: "u16 list \<Rightarrow> nat \<Rightarrow> nat \<Rightarrow> u16" where
  "window ss rt k = peak_between ss (if k = 0 then 0 else (k - 1) * rt + 1) (k * rt + 1)"

lemma peak_between_step: "a \<le> b \<Longrightarrow> peak_between ss a (Suc b) = max (magnitude (ss ! b)) (peak_between ss a b)"
  by (simp add: peak_between_def)

lemma peak_between_none [simp]: "peak_between ss a a = 0"
  by (simp add: peak_between_def)

lemma peak_between_append: "b \<le> length ss \<Longrightarrow> peak_between (ss @ ts) a b = peak_between ss a b"
  unfolding peak_between_def by (intro fold_cong) (auto simp: nth_append intro: map_cong)

lemma sample_loop_append: "sample_loop rt (ss @ ts) p = sample_loop rt ts (sample_loop rt ss p)"
  by (induction ss arbitrary: p) simp_all

text \<open>After \<open>n\<close> samples, \<open>j\<close> windows are complete.\<close>

definition windows_done :: "u16 list \<Rightarrow> nat \<Rightarrow> u16 list \<Rightarrow> nat \<Rightarrow> peaks \<Rightarrow> bool" where
  "windows_done old rt ss j p \<longleftrightarrow>
     (j = 0 \<and> ss = [] \<or> 0 < j \<and> (j - 1) * rt < length ss) \<and> length ss \<le> j * rt \<and>
     sampleIndex p = length ss \<and> index p = min 100 j \<and> length (samples p) = length old \<and>
     (\<forall>k < length old. samples p ! k = (if k < j \<and> k < 100 then window ss rt k else old ! k)) \<and>
     peakSample p = peak_between ss (if j = 0 then 0 else (j - 1) * rt + 1) (length ss)"

lemma window_append: "k * rt < length ss \<Longrightarrow> window (ss @ ts) rt k = window ss rt k"
  unfolding window_def by (intro peak_between_append) simp

lemma sample_step_max:
  "sample_step rt s p =
     (let m = max (magnitude s) (peakSample p) in
      if sampleIndex p mod rt = 0
      then (if index p < resultSamples then p\<lparr>samples := (samples p)[index p := m], index := index p + 1\<rparr> else p)
             \<lparr>sampleIndex := sampleIndex p + 1, peakSample := 0\<rparr>
      else p\<lparr>sampleIndex := sampleIndex p + 1, peakSample := m\<rparr>)"
proof (cases "magnitude s > peakSample p")
  case True
  then have "max (magnitude s) (peakSample p) = magnitude s" by (simp add: max.absorb3)
  then show ?thesis using True by (simp add: sample_step_def Let_def flip: magnitude_def)
next
  case False
  then have "max (magnitude s) (peakSample p) = peakSample p" by (simp add: max.absorb2 not_less)
  then show ?thesis using False by (simp add: sample_step_def Let_def flip: magnitude_def)
qed

lemma windows_step:
  assumes rt: "0 < rt" and old: "100 \<le> length old" and w: "windows_done old rt ss j p"
  shows "\<exists>j'. windows_done old rt (ss @ [s]) j' (sample_step rt s p)"
proof -
  let ?n = "length ss" and ?start = "if j = 0 then 0 else (j - 1) * rt + 1"
  have n: "j = 0 \<and> ss = [] \<or> 0 < j \<and> (j - 1) * rt < ?n" "?n \<le> j * rt"
    and p: "sampleIndex p = ?n" "index p = min 100 j" "length (samples p) = length old"
      "\<And>k. k < length old \<Longrightarrow> samples p ! k = (if k < j \<and> k < 100 then window ss rt k else old ! k)" "peakSample p = peak_between ss ?start ?n"
    using w by (simp_all add: windows_done_def)
  have start: "?start \<le> ?n" using n(1) by auto
  have cur: "peak_between (ss @ [s]) ?start (Suc ?n) = max (magnitude s) (peak_between ss ?start ?n)"
    using peak_between_step [OF start, of "ss @ [s]"] peak_between_append [of ?n ss "[s]" ?start] by simp
  have peak: "max (magnitude s) (peakSample p) = peak_between (ss @ [s]) ?start (Suc ?n)"
    unfolding cur p(5) ..
  have kept: "window (ss @ [s]) rt k = window ss rt k" if "k < j" for k
  proof (rule window_append)
    have "k \<le> j - 1" using that by simp
    then have "k * rt \<le> (j - 1) * rt" by (rule mult_le_mono1)
    also have "(j - 1) * rt < ?n" using n(1) that by auto
    finally show "k * rt < ?n" .
  qed
  show ?thesis
  proof (cases "?n mod rt = 0")
    case False
    then have "?n \<noteq> j * rt" by auto
    moreover have "0 < j" using n(1) False by (cases "j = 0") auto
    moreover have "sample_step rt s p = p\<lparr>peakSample := peak_between (ss @ [s]) ?start (Suc ?n), sampleIndex := Suc ?n\<rparr>"
      using False p(1) unfolding sample_step_max peak Let_def by simp
    ultimately have "windows_done old rt (ss @ [s]) j (sample_step rt s p)"
      using n p kept by (simp add: windows_done_def)
    then show ?thesis ..
  next
    case True
    have nj: "?n = j * rt"
    proof -
      obtain q where q: "?n = q * rt" using True by (metis mod_0_imp_dvd dvd_def mult.commute)
      show ?thesis
      proof (cases "j = 0")
        case False
        then have "(j - 1) * rt < q * rt" "q * rt \<le> j * rt" using n q by auto
        then have "j - 1 < q" "q \<le> j" using rt by simp_all
        then have "q = j" by simp
        then show ?thesis using q by simp
      qed (use n in simp)
    qed
    have win: "window (ss @ [s]) rt j = peak_between (ss @ [s]) ?start (Suc ?n)" by (simp add: window_def nj)
    let ?p = "if j < 100 then p\<lparr>samples := (samples p)[j := window (ss @ [s]) rt j], index := j + 1\<rparr> else p"
    have "sample_step rt s p = ?p\<lparr>sampleIndex := Suc ?n, peakSample := 0\<rparr>"
      using True p(1,2) unfolding sample_step_max peak win Let_def by simp
    moreover have "windows_done old rt (ss @ [s]) (Suc j) (?p\<lparr>sampleIndex := Suc ?n, peakSample := 0\<rparr>)"
      using nj rt p(2-4) kept old by (auto simp: windows_done_def nth_list_update less_Suc_eq)
    ultimately show ?thesis by auto
  qed
qed

lemma windows_loop:
  assumes "0 < rt" "100 \<le> length old"
  shows "\<exists>j. windows_done old rt ss j (sample_loop rt ss \<lparr>samples = old, sampleIndex = 0, peakSample = 0, index = 0\<rparr>)"
proof (induction ss rule: rev_induct)
  case Nil
  show ?case by (rule exI [of _ 0]) (simp add: windows_done_def)
next
  case (snoc s ss)
  then obtain j where "windows_done old rt ss j (sample_loop rt ss \<lparr>samples = old, sampleIndex = 0, peakSample = 0, index = 0\<rparr>)" ..
  from windows_step [OF assms this] show ?case by (simp add: sample_loop_append)
qed

text \<open>With a hundred samples and more, every value is the peak of its window.\<close>

lemma windows_all:
  assumes "100 \<le> length ss" "length old = 100"
  shows "samples (sample_loop (length ss div 100) ss \<lparr>samples = old, sampleIndex = 0, peakSample = 0, index = 0\<rparr>) =
    map (window ss (length ss div 100)) [0..<100]"
proof -
  let ?rt = "length ss div 100"
  have rt: "0 < ?rt" using assms(1) by (simp add: div_greater_zero_iff)
  have "100 \<le> length old" using assms(2) by simp
  from windows_loop [OF rt this] obtain j where
    w: "windows_done old ?rt ss j (sample_loop ?rt ss \<lparr>samples = old, sampleIndex = 0, peakSample = 0, index = 0\<rparr>)" ..
  have "100 \<le> j"
  proof (rule ccontr)
    assume "\<not> 100 \<le> j"
    then have "j \<le> 99" by simp
    then have "j * ?rt \<le> 99 * ?rt" by (rule mult_le_mono1)
    moreover have "?rt * 100 \<le> length ss" by (rule div_times_less_eq_dividend)
    ultimately show False using w rt unfolding windows_done_def by linarith
  qed
  then show ?thesis using w assms(2) by (intro nth_equalityI) (simp_all add: windows_done_def)
qed

section \<open>The reader\<close>

text \<open>A reader that gives these chunks and then the end of the file.\<close>

inductive delivers :: "('f \<Rightarrow> int \<times> u16 list \<times> 'f) \<Rightarrow> 'f \<Rightarrow> u16 list list \<Rightarrow> bool" for op_read where
  finished: "op_read f = (0, buffer, f') \<Longrightarrow> delivers op_read f []"
| chunk: "op_read f = (n, buffer, f') \<Longrightarrow> n \<noteq> 0 \<Longrightarrow> delivers op_read f' cs \<Longrightarrow> delivers op_read f (take (nat n) buffer # cs)"

lemma read_loop_delivers: "delivers op_read f cs \<Longrightarrow> read_loop op_read rt f p = Some (sample_loop rt (concat cs) p)"
proof (induction arbitrary: p rule: delivers.induct)
  case (finished f buffer f')
  then show ?case by (subst read_loop.simps) simp
next
  case (chunk f n buffer f' cs)
  then show ?case by (subst read_loop.simps) (simp add: sample_loop_append)
qed

text \<open>A reader that stays in a set of states where \<open>op_read\<close> does not give 0 keeps the loop going.\<close>

lemma read_loop_endless:
  assumes endless: "\<And>f. f \<in> S \<Longrightarrow> fst (op_read f) \<noteq> 0 \<and> snd (snd (op_read f)) \<in> S"
    and start: "f \<in> S"
  shows "read_loop op_read rt f p = None"
proof (rule ccontr)
  assume "read_loop op_read rt f p \<noteq> None"
  then obtain p' where ret: "read_loop op_read rt f p = Some p'" by auto
  have "op_read = op_read \<longrightarrow> f \<in> S \<longrightarrow> False"
  proof (rule read_loop.raw_induct [where P = "\<lambda>g rt f p p'. g = op_read \<longrightarrow> f \<in> S \<longrightarrow> False", OF _ ret])
    fix loop and g :: "'a \<Rightarrow> int \<times> u16 list \<times> 'a" and rt f p p'
    assume IH: "\<And>g rt f p p'. loop g rt f p = Some p' \<Longrightarrow> g = op_read \<longrightarrow> f \<in> S \<longrightarrow> False"
      and eq: "(case g f of (readSamples, buffer, f) \<Rightarrow>
        let p = sample_loop rt (take (nat readSamples) buffer) p
        in if readSamples = 0 then Some p else loop g rt f p) = Some p'"
    obtain n buffer f' where g: "g f = (n, buffer, f')" by (cases "g f")
    show "g = op_read \<longrightarrow> f \<in> S \<longrightarrow> False"
    proof (intro impI)
      assume same: "g = op_read" "f \<in> S"
      then have "n \<noteq> 0" "f' \<in> S" using endless [of f] g by simp_all
      then have "loop g rt f' (sample_loop rt (take (nat n) buffer) p) = Some p'" using eq g by (simp add: Let_def)
      then show False using IH same \<open>f' \<in> S\<close> by blast
    qed
  qed
  then show False using start by simp
qed

section \<open>The waveform\<close>

lemma length_clamped: "length smp = 100 \<Longrightarrow> clamp_samples peak 0 resultSamples smp = map (min peak) smp"
  using clamp_samples [of 0 resultSamples smp peak] by simp

lemma length_pack_values [simp]: "length (pack_values smp peak i left bs) = length bs"
  by (induction left arbitrary: i bs) (simp_all add: Let_def)

lemma sum_samples_bound:
  assumes "length smp = 100" "\<And>s. s \<in> set smp \<Longrightarrow> unat s \<le> 32768"
  shows "sum_list (map (\<lambda>i. unat (smp ! i)) [0..<resultSamples]) \<le> 3276800"
proof -
  have "sum_list (map (\<lambda>i. unat (smp ! i)) [0..<resultSamples]) \<le> sum_list (map (\<lambda>i. 32768) [0..<resultSamples])"
    using assms by (intro sum_list_mono) simp
  then show ?thesis by (simp add: sum_list_triv)
qed

lemma peak_of_value:
  assumes "length smp = 100" "\<And>s. s \<in> set smp \<Longrightarrow> unat s \<le> 32768"
  shows "unat (peak_of smp) = max 2500 (peak_of_sum (sum_list (map (\<lambda>i. unat (smp ! i)) [0..<resultSamples])))"
proof -
  let ?n = "peak_of_sum (sum_list (map (\<lambda>i. unat (smp ! i)) [0..<resultSamples]))"
  have "?n < 65536" using peak_of_sum_bound [OF sum_samples_bound [OF assms]] by simp
  then have "unat (of_nat ?n :: u16) = ?n" by (simp add: unat_of_nat take_bit_nat_eq_self)
  then show ?thesis unfolding peak_of_def Let_def by (simp add: word_less_nat_alt)
qed

lemma magnitude_bound: "unat (magnitude s) \<le> 32768"
proof -
  have b: "- 32768 \<le> sint s" "sint s < 32768" using sint_range_size [of s] by (simp_all add: word_size)
  then have "\<bar>sint s\<bar> \<le> 32768" by linarith
  then show ?thesis unfolding magnitude_def by (simp add: unat_eq_nat_uint uint_word_of_int)
qed

lemma window_bound: "unat (window ss rt k) \<le> 32768"
proof -
  have "unat (fold max (map (\<lambda>i. magnitude (ss ! i)) xs) a) \<le> 32768" if "unat a \<le> 32768" for xs a
    using that by (induction xs arbitrary: a) (simp_all add: max_def magnitude_bound)
  then show ?thesis unfolding window_def peak_between_def by simp
qed

lemma waveform_of_windows:
  assumes len: "length smp = 100" and small: "\<And>s. s \<in> set smp \<Longrightarrow> unat s \<le> 32768"
    and peak: "peak = max 2500 (peak_of_sum (\<Sum>i < 100. unat (smp ! i)))"
  shows "\<exists>bs. waveform_bytes True smp = Some bs \<and> length bs = 63 \<and>
    (\<forall>i < 100. five_bits bs i = waveform_value peak (unat (smp ! i)))"
proof -
  have sum: "sum_list (map (\<lambda>i. unat (smp ! i)) [0..<resultSamples]) = (\<Sum>i < 100. unat (smp ! i))"
    by (simp only: interv_sum_list_conv_sum_set_nat set_upt lessThan_atLeast0)
  have p: "unat (peak_of smp) = peak" using peak_of_value [OF len small] unfolding sum peak by simp
  then have pos: "0 < unat (peak_of smp)" using peak by simp
  let ?bs = "take bitstreamLength
    (pack_values (map (min (peak_of smp)) smp) (peak_of smp) 0 resultSamples (replicate (bitstreamLength + 4) 0))"
  have "waveform_bytes True smp = Some ?bs" by (simp add: waveform_bytes_def Let_def length_clamped [OF len])
  moreover have "length ?bs = 63" by (simp add: bitstreamLength_def)
  moreover have "five_bits ?bs i = waveform_value peak (unat (smp ! i))" if "i < 100" for i
  proof -
    have "unat (min (peak_of smp) (smp ! i)) = min (unat (smp ! i)) peak"
      unfolding p [symmetric] by (simp add: min_def word_le_nat_alt)
    then show ?thesis using packed_fields [OF pos that, of "map (min (peak_of smp)) smp"] that len
      by (simp add: waveform_value_def p)
  qed
  ultimately show ?thesis by blast
qed

lemma getWaveform2_windows:
  assumes "100 \<le> length ss" "length old = 100"
  shows "getWaveform2 old array_ok ss (int (length ss)) = waveform_bytes array_ok (map (window ss (length ss div 100)) [0..<100])"
proof -
  have "int (length ss) sdiv 100 = int (length ss div 100)" by (simp add: signed_divide_int_def sgn_if zdiv_int)
  moreover have "1 \<le> length ss div 100" using assms(1) div_le_mono [of 100 "length ss" 100] by simp
  ultimately have "nat (max 1 (int (length ss) sdiv int resultSamples)) = length ss div 100" by simp
  then show ?thesis by (simp add: getWaveform2_def Let_def windows_all [OF assms])
qed

text \<open>C34. The waveform of an array of 100 samples or more, whatever the memory held before: 63 bytes, whose hundred
  five-bit fields are the loudest samples of the hundred windows, on a scale of 0 to 31 that ends at 1.8 times their
  mean (rounded in single precision), or at 2500 in a quiet recording.\<close>

theorem getWaveform2_fields:
  assumes "100 \<le> length ss" "length old = 100"
    and "w = (\<lambda>i. unat (window ss (length ss div 100) i))" "peak = max 2500 (peak_of_sum (\<Sum>i < 100. w i))"
  shows "\<exists>bs. getWaveform2 old True ss (int (length ss)) = Some bs \<and> length bs = 63 \<and>
    (\<forall>i < 100. five_bits bs i = waveform_value peak (w i))"
proof -
  let ?smp = "map (window ss (length ss div 100)) [0..<100]"
  have "\<And>s. s \<in> set ?smp \<Longrightarrow> unat s \<le> 32768" using window_bound by auto
  moreover have "peak = max 2500 (peak_of_sum (\<Sum>i < 100. unat (?smp ! i)))" using assms(3,4) by simp
  ultimately obtain bs where "waveform_bytes True ?smp = Some bs" "length bs = 63"
    "\<forall>i < 100. five_bits bs i = waveform_value peak (unat (?smp ! i))"
    using waveform_of_windows [of ?smp peak] by auto
  then show ?thesis using getWaveform2_windows [OF assms(1,2)] assms(3) by simp
qed

lemma peak_of_loud: "peak_of_sum 2000000 = 36000"
proof -
  have "bitlen 2000000 = 21" "bitlen 1 = 1" by (simp_all add: bitlen.simps)
  then have "nearest 2000000 1 = (16000000, 8)" by (simp add: nearest_def round_div_def Let_def)
  moreover have "bitlen 241591904000000 = 48" "bitlen 67108864 = 27" by (simp_all add: bitlen.simps)
  then have "nearest 241591904000000 67108864 = (14400000, 4)" by (simp add: nearest_def round_div_def Let_def)
  moreover have "bitlen 14400000 = 24" "bitlen 400 = 9" by (simp_all add: bitlen.simps)
  then have "nearest 14400000 400 = (9216000, 256)" by (simp add: nearest_def round_div_def Let_def)
  ultimately show ?thesis by (simp add: peak_of_sum_def)
qed

theorem getWaveform2_fields_witness:
  "\<exists>bs. getWaveform2 (replicate 100 7) True (replicate 100 45536) 100 = Some bs \<and> length bs = 63 \<and>
     (\<forall>i < 100. five_bits bs i = 17)"
proof -
  let ?ss = "replicate 100 45536 :: u16 list" and ?old = "replicate 100 7 :: u16 list"
  have w: "window ?ss (length ?ss div 100) i = 20000" if "i < 100" for i
    using that by (cases i) (simp_all add: window_def peak_between_def magnitude_def)
  have "(\<Sum>i < 100. unat (window ?ss (length ?ss div 100) i)) = (\<Sum>i < (100 :: nat). 20000)"
    by (intro sum.cong refl) (simp add: w del: length_replicate)
  also have "\<dots> = 2000000" by (simp only: sum_constant card_lessThan) simp
  finally have peak: "36000 = max 2500 (peak_of_sum (\<Sum>i < 100. unat (window ?ss (length ?ss div 100) i)))"
    by (simp only: peak_of_loud)
  have "100 \<le> length ?ss" "length ?old = 100" by (simp_all only: length_replicate order_refl)
  from getWaveform2_fields [OF this refl peak] obtain bs where
    bs: "getWaveform2 ?old True ?ss (int (length ?ss)) = Some bs" "length bs = 63"
      "\<And>i. i < 100 \<Longrightarrow> five_bits bs i = waveform_value 36000 (unat (window ?ss (length ?ss div 100) i))"
    by blast
  have "waveform_value 36000 (unat (20000 :: u16)) = 17" by (simp add: waveform_value_def)
  then have "\<forall>i < 100. five_bits bs i = 17" using bs(3) w by simp
  moreover have "int (length ?ss) = 100" by simp
  ultimately show ?thesis using bs(1,2) by metis
qed

text \<open>C35. Both functions compute the same: an Opus file that is read in chunks, and whose length is that of the chunks
  together, has the waveform that the array of all its samples has.\<close>

theorem getWaveform_equals_getWaveform2:
  assumes "delivers op_read f chunks" "op_pcm_total f = int (length (concat chunks))" "length (concat chunks) < 2 ^ 31"
  shows "getWaveform old array_ok op_pcm_total op_read (Some f) =
    Some (getWaveform2 old array_ok (concat chunks) (int (length (concat chunks))))"
proof -
  define n where "n = length (concat chunks)"
  have q: "int n sdiv int resultSamples = int (n div 100)" by (simp add: signed_divide_int_def sgn_if zdiv_int)
  have "n div 100 < 2 ^ 31" using assms(3) unfolding n_def by (meson div_le_dividend le_less_trans)
  then have w: "sint (word_of_int (int (n div 100)) :: u32) = int (n div 100)"
    by (simp only: signed_of_int) (simp add: signed_take_bit_int_eq_self)
  have t: "op_pcm_total f = int n" using assms(2) unfolding n_def .
  show ?thesis
    unfolding getWaveform_def getWaveform2_def n_def [symmetric]
    by (simp only: t q w read_loop_delivers [OF assms(1)] Let_def option.case) (simp add: n_def)
qed

text \<open>A reader over a list of chunks, for the witnesses.\<close>

fun chunk_reader :: "u16 list list \<Rightarrow> int \<times> u16 list \<times> u16 list list" where
  "chunk_reader [] = (0, [], [])"
| "chunk_reader (c # cs) = (int (length c), c, cs)"

lemma chunk_reader_delivers: "[] \<notin> set cs \<Longrightarrow> delivers chunk_reader cs cs"
proof (induction cs)
  case Nil
  show ?case by (rule delivers.finished) simp
next
  case (Cons c cs)
  then have "delivers chunk_reader cs cs" "int (length c) \<noteq> 0" by auto
  then have "delivers chunk_reader (c # cs) (take (nat (int (length c))) c # cs)" by (intro delivers.chunk) simp_all
  then show ?case by simp
qed

theorem getWaveform_equals_getWaveform2_witness:
  "getWaveform (replicate 100 7) True (\<lambda>f. 110) chunk_reader (Some [replicate 60 5000, replicate 50 65000]) =
     Some (getWaveform2 (replicate 100 7) True (replicate 60 5000 @ replicate 50 65000) 110)"
  using getWaveform_equals_getWaveform2 [of chunk_reader "[replicate 60 5000, replicate 50 65000]"
      "[replicate 60 5000, replicate 50 65000]" "\<lambda>f. 110" "replicate 100 7" True]
    chunk_reader_delivers [of "[replicate 60 5000, replicate 50 65000]"]
  by (simp add: replicate_append_same)

text \<open>The reader after some calls of \<open>op_read\<close>, and what the call then gives.\<close>

definition reader_after :: "('f \<Rightarrow> int \<times> u16 list \<times> 'f) \<Rightarrow> nat \<Rightarrow> 'f \<Rightarrow> 'f" where
  "reader_after op_read i = (\<lambda>f. snd (snd (op_read f))) ^^ i"

definition read_count :: "('f \<Rightarrow> int \<times> u16 list \<times> 'f) \<Rightarrow> 'f \<Rightarrow> nat \<Rightarrow> int" where
  "read_count op_read f i = fst (op_read (reader_after op_read i f))"

lemma reader_after_Suc: "reader_after op_read (Suc i) f = reader_after op_read i (snd (snd (op_read f)))"
  by (simp add: reader_after_def funpow_Suc_right del: funpow.simps(2))

lemma read_loop_ends: "read_count op_read f i = 0 \<Longrightarrow> \<exists>q. read_loop op_read rt f p = Some q"
proof (induction i arbitrary: f p)
  case 0
  then show ?case
    by (subst read_loop.simps) (auto simp: read_count_def reader_after_def split: prod.split)
next
  case (Suc i)
  obtain n bs g where r: "op_read f = (n, bs, g)" by (cases "op_read f") auto
  have "read_count op_read g i = 0" using Suc.prems by (simp add: read_count_def reader_after_Suc r)
  then show ?case using Suc.IH by (subst read_loop.simps) (simp add: r Let_def)
qed

lemma getWaveform_returns:
  "getWaveform old array_ok op_pcm_total op_read (Some f) = None \<longleftrightarrow> (\<forall>i. read_count op_read f i \<noteq> 0)"
proof
  assume none: "getWaveform old array_ok op_pcm_total op_read (Some f) = None"
  show "\<forall>i. read_count op_read f i \<noteq> 0"
  proof (intro allI notI)
    fix i assume "read_count op_read f i = 0"
    note read_loop_ends [OF this]
    then show False using none by (auto simp: getWaveform_def Let_def split: option.splits) (metis option.distinct(1))
  qed
next
  assume nonzero: "\<forall>i. read_count op_read f i \<noteq> 0"
  have "read_loop op_read rt f p = None" for rt p
  proof (rule read_loop_endless [where S = "range (\<lambda>i. reader_after op_read i f)"])
    show "f \<in> range (\<lambda>i. reader_after op_read i f)" by (rule range_eqI [where x = 0]) (simp add: reader_after_def)
  next
    fix g assume "g \<in> range (\<lambda>i. reader_after op_read i f)"
    then obtain i where "g = reader_after op_read i f" by blast
    then have "fst (op_read g) \<noteq> 0" "snd (snd (op_read g)) = reader_after op_read (Suc i) f"
      using nonzero by (auto simp: read_count_def reader_after_def)
    then show "fst (op_read g) \<noteq> 0 \<and> snd (snd (op_read g)) \<in> range (\<lambda>i. reader_after op_read i f)" by simp
  qed
  then show "getWaveform old array_ok op_pcm_total op_read (Some f) = None" by (simp add: getWaveform_def Let_def)
qed

text \<open>
  C38. \<open>getWaveform\<close> of an open file returns exactly if one of its reads gives 0, which is the end of the file.  An error, a negative
  number, does not end the loop: once \<open>op_read\<close> fails, after any number of reads that gave samples and whatever becomes of the
  reader, and goes on to fail, the function does not return.
\<close>

theorem getWaveform_hangs:
  "(getWaveform old array_ok op_pcm_total op_read (Some f) = None \<longleftrightarrow> (\<forall>i. read_count op_read f i \<noteq> 0)) \<and>
   ((\<exists>k. (\<forall>i<k. 0 < read_count op_read f i) \<and> (\<forall>i\<ge>k. read_count op_read f i < 0)) \<longrightarrow>
     getWaveform old array_ok op_pcm_total op_read (Some f) = None)"
proof -
  have "read_count op_read f i \<noteq> 0"
    if "\<forall>i<k. 0 < read_count op_read f i" "\<forall>i\<ge>k. read_count op_read f i < 0" for i k
    using that by (cases "i < k") (auto simp: not_less dest!: spec [of _ i])
  then show ?thesis unfolding getWaveform_returns by blast
qed

text \<open>Three reads give samples, then the reader fails; it counts the calls.\<close>

definition failing_reader :: "nat \<Rightarrow> int \<times> u16 list \<times> nat" where
  "failing_reader n = (if n < 3 then (2, [5, 6], Suc n) else (-137, [], Suc n))"

theorem getWaveform_hangs_witness:
  "getWaveform (replicate 100 7) True (\<lambda>f. 48000) failing_reader (Some 0) = None"
proof -
  have "reader_after failing_reader i n = n + i" for i n
    by (induction i arbitrary: n) (simp_all add: reader_after_def failing_reader_def)
  then have "read_count failing_reader 0 i = (if i < 3 then 2 else -137)" for i
    by (simp add: read_count_def failing_reader_def)
  then have "(\<forall>i<3. 0 < read_count failing_reader 0 i) \<and> (\<forall>i\<ge>3. read_count failing_reader 0 i < 0)" by simp
  then show ?thesis using getWaveform_hangs [of "replicate 100 7" True "\<lambda>f. 48000" failing_reader 0] by blast
qed

end
