(* ===== verification/ByteBuffer.thy ===== *)
theory ByteBuffer
  imports Prelude
begin

text \<open>
  The byte buffer of the network code, \<^verbatim>\<open>app/jni/tgnet/NativeByteBuffer.cpp\<close>: the primitive values of a
  message are written to it and read from it, little-endian and with byte strings padded to four bytes; a
  buffer can also only count what would be written.  The \<open>uint32_t\<close> fields are words, so the comparisons
  of the code keep their wrap-around.
\<close>

unbundle bit_operations_syntax

section \<open>The state\<close>

text \<open>
  \<open>error\<close> arguments are \<open>bool *\<close>: \<open>None\<close> is a null pointer, otherwise it is the flag.  The owner of
  the memory and its Java object are left out: they decide only who frees it.
\<close>

record native_buffer =
  buffer :: bytes
  calculateSizeOnly :: bool
  sliced :: bool
  buf_position :: u32
  buf_limit :: u32
  buf_capacity :: u32

type_synonym error_flag = "bool option"

definition raise :: "error_flag \<Rightarrow> error_flag" where
  "raise error = map_option (\<lambda>_. True) error"

text \<open>The constructors; \<open>memory\<close> is what the allocated memory holds.\<close>

definition new_buffer :: "bytes \<Rightarrow> u32 \<Rightarrow> native_buffer" where
  "new_buffer memory sz = \<lparr>buffer = take (unat sz) memory, calculateSizeOnly = False, sliced = False,
     buf_position = 0, buf_limit = sz, buf_capacity = sz\<rparr>"

definition new_calculator :: "bool \<Rightarrow> native_buffer" where
  "new_calculator calculate = \<lparr>buffer = [], calculateSizeOnly = calculate, sliced = False,
     buf_position = 0, buf_limit = 0, buf_capacity = 0\<rparr>"

definition new_slice :: "bytes \<Rightarrow> u32 \<Rightarrow> native_buffer" where
  "new_slice buff len = \<lparr>buffer = buff, calculateSizeOnly = False, sliced = True,
     buf_position = 0, buf_limit = len, buf_capacity = len\<rparr>"

section \<open>The marks\<close>

definition set_position :: "u32 \<Rightarrow> native_buffer \<Rightarrow> native_buffer" where
  "set_position p b = (if p > buf_limit b then b else b\<lparr>buf_position := p\<rparr>)"

definition remaining :: "native_buffer \<Rightarrow> u32" where
  "remaining b = buf_limit b - buf_position b"

definition clearCapacity :: "native_buffer \<Rightarrow> native_buffer" where
  "clearCapacity b = (if \<not> calculateSizeOnly b then b else b\<lparr>buf_capacity := 0\<rparr>)"

definition set_limit :: "u32 \<Rightarrow> native_buffer \<Rightarrow> native_buffer" where
  "set_limit l b =
     (if l > buf_capacity b then b
      else let b = (if buf_position b > l then b\<lparr>buf_position := l\<rparr> else b) in b\<lparr>buf_limit := l\<rparr>)"

definition flip :: "native_buffer \<Rightarrow> native_buffer" where
  "flip b = b\<lparr>buf_limit := buf_position b, buf_position := 0\<rparr>"

definition clear :: "native_buffer \<Rightarrow> native_buffer" where
  "clear b = b\<lparr>buf_position := 0, buf_limit := buf_capacity b\<rparr>"

definition rewind :: "native_buffer \<Rightarrow> native_buffer" where
  "rewind b = b\<lparr>buf_position := 0\<rparr>"

text \<open>A buffer that has been read to its end is left as it is, its position at the limit.\<close>

definition compact :: "native_buffer \<Rightarrow> native_buffer" where
  "compact b =
     (if buf_position b = buf_limit b then b
      else b\<lparr>buffer := wr 0 (rd (unat (buf_position b)) (unat (buf_limit b - buf_position b)) (buffer b)) (buffer b),
             buf_position := buf_limit b - buf_position b, buf_limit := buf_capacity b\<rparr>)"

definition hasRemaining :: "native_buffer \<Rightarrow> bool" where
  "hasRemaining b \<longleftrightarrow> buf_position b < buf_limit b"

definition skip :: "u32 \<Rightarrow> native_buffer \<Rightarrow> native_buffer" where
  "skip len b =
     (if \<not> calculateSizeOnly b
      then if buf_position b + len > buf_limit b then b else b\<lparr>buf_position := buf_position b + len\<rparr>
      else b\<lparr>buf_capacity := buf_capacity b + len\<rparr>)"

section \<open>Writing\<close>

text \<open>\<open>buffer[_position++] = v\<close>, and a sequence of such stores.\<close>

definition put_byte :: "native_buffer \<Rightarrow> u8 \<Rightarrow> native_buffer" where
  "put_byte b v = b\<lparr>buffer := (buffer b)[unat (buf_position b) := v], buf_position := buf_position b + 1\<rparr>"

abbreviation put_bytes :: "u8 list \<Rightarrow> native_buffer \<Rightarrow> native_buffer" where
  "put_bytes vs b \<equiv> foldl put_byte b vs"

definition count_bytes :: "u32 \<Rightarrow> native_buffer \<Rightarrow> native_buffer" where
  "count_bytes n b = b\<lparr>buf_capacity := buf_capacity b + n\<rparr>"

definition writeInt32 :: "u32 \<Rightarrow> error_flag \<Rightarrow> native_buffer \<Rightarrow> error_flag \<times> native_buffer" where
  "writeInt32 x error b =
     (if \<not> calculateSizeOnly b
      then if buf_position b + 4 > buf_limit b then (raise error, b)
           else (error, put_bytes [ucast x, ucast (drop_bit 8 x), ucast (drop_bit 16 x), ucast (drop_bit 24 x)] b)
      else (error, count_bytes 4 b))"

definition writeInt64 :: "u64 \<Rightarrow> error_flag \<Rightarrow> native_buffer \<Rightarrow> error_flag \<times> native_buffer" where
  "writeInt64 x error b =
     (if \<not> calculateSizeOnly b
      then if buf_position b + 8 > buf_limit b then (raise error, b)
           else (error, put_bytes [ucast x, ucast (drop_bit 8 x), ucast (drop_bit 16 x), ucast (drop_bit 24 x),
                                   ucast (drop_bit 32 x), ucast (drop_bit 40 x), ucast (drop_bit 48 x), ucast (drop_bit 56 x)] b)
      else (error, count_bytes 8 b))"

definition writeBool :: "bool \<Rightarrow> error_flag \<Rightarrow> native_buffer \<Rightarrow> error_flag \<times> native_buffer" where
  "writeBool v error b =
     (if \<not> calculateSizeOnly b
      then if v then writeInt32 0x997275b5 error b else writeInt32 0xbc799737 error b
      else (error, count_bytes 4 b))"

definition writeByte :: "u8 \<Rightarrow> error_flag \<Rightarrow> native_buffer \<Rightarrow> error_flag \<times> native_buffer" where
  "writeByte i error b =
     (if \<not> calculateSizeOnly b
      then if buf_position b + 1 > buf_limit b then (raise error, b) else (error, put_byte b i)
      else (error, count_bytes 1 b))"

definition writeBytesInternal :: "bytes \<Rightarrow> u32 \<Rightarrow> u32 \<Rightarrow> native_buffer \<Rightarrow> native_buffer" where
  "writeBytesInternal src offset len b =
     b\<lparr>buffer := wr (unat (buf_position b)) (rd (unat offset) (unat len) src) (buffer b),
       buf_position := buf_position b + len\<rparr>"

text \<open>The overload with an offset; the one without calls the same with offset 0.\<close>

definition writeBytes :: "bytes \<Rightarrow> u32 \<Rightarrow> u32 \<Rightarrow> error_flag \<Rightarrow> native_buffer \<Rightarrow> error_flag \<times> native_buffer" where
  "writeBytes src offset len error b =
     (if \<not> calculateSizeOnly b
      then if buf_position b + len > buf_limit b then (raise error, b)
           else (error, writeBytesInternal src offset len b)
      else (error, count_bytes len b))"

text \<open>From another buffer: what remains of it is written, and it is read to its end.\<close>

definition writeBytes_buffer ::
    "native_buffer \<Rightarrow> error_flag \<Rightarrow> native_buffer \<Rightarrow> error_flag \<times> native_buffer \<times> native_buffer" where
  "writeBytes_buffer src error b =
     (let len = buf_limit src - buf_position src
      in if len = 0 then (error, b, src)
         else if \<not> calculateSizeOnly b
         then if buf_position b + len > buf_limit b then (raise error, b, src)
              else (error, writeBytesInternal (drop (unat (buf_position src)) (buffer src)) 0 len b,
                    set_position (buf_limit src) src)
         else (error, count_bytes len b, src))"

text \<open>
  A byte array: its length in one byte, or 254 and three bytes; its bytes; zeros up to a multiple of four.
  The steps end early, the parts that were written stay.  Each step says whether it went on.
\<close>

definition write_length :: "u32 \<Rightarrow> native_buffer \<Rightarrow> bool \<times> native_buffer" where
  "write_length len b =
     (if len \<le> 253
      then if \<not> calculateSizeOnly b
           then if buf_position b + 1 > buf_limit b then (False, b) else (True, put_byte b (ucast len))
           else (True, count_bytes 1 b)
      else if \<not> calculateSizeOnly b
           then if buf_position b + 4 > buf_limit b then (False, b)
                else (True, put_bytes [254, ucast len, ucast (drop_bit 8 len), ucast (drop_bit 16 len)] b)
           else (True, count_bytes 4 b))"

definition write_content :: "bytes \<Rightarrow> u32 \<Rightarrow> u32 \<Rightarrow> native_buffer \<Rightarrow> bool \<times> native_buffer" where
  "write_content src offset len b =
     (if \<not> calculateSizeOnly b
      then if buf_position b + len > buf_limit b then (False, b) else (True, writeBytesInternal src offset len b)
      else (True, count_bytes len b))"

definition addition_of :: "u32 \<Rightarrow> u32 \<Rightarrow> u32" where
  "addition_of len sl = (let addition = (len + sl) mod 4 in if addition \<noteq> 0 then 4 - addition else addition)"

definition write_addition :: "u32 \<Rightarrow> native_buffer \<Rightarrow> bool \<times> native_buffer" where
  "write_addition len b =
     (let addition = addition_of len (if len \<le> 253 then 1 else 4)
      in if \<not> calculateSizeOnly b \<and> buf_position b + addition > buf_limit b then (False, b)
         else (True, foldl (\<lambda>b a. if \<not> calculateSizeOnly b then put_byte b 0 else count_bytes 1 b) b [0..<unat addition]))"

definition writeByteArray :: "bytes \<Rightarrow> u32 \<Rightarrow> u32 \<Rightarrow> error_flag \<Rightarrow> native_buffer \<Rightarrow> error_flag \<times> native_buffer" where
  "writeByteArray src offset len error b =
     (let (go, b) = write_length len b
      in if \<not> go then (raise error, b) else let (go, b) = write_content src offset len b
      in if \<not> go then (raise error, b) else let (go, b) = write_addition len b
      in if \<not> go then (raise error, b) else (error, b))"

definition writeString :: "bytes \<Rightarrow> error_flag \<Rightarrow> native_buffer \<Rightarrow> error_flag \<times> native_buffer" where
  "writeString s error b = writeByteArray s 0 (of_nat (length s)) error b"

definition writeByteArray_buffer ::
    "native_buffer \<Rightarrow> error_flag \<Rightarrow> native_buffer \<Rightarrow> error_flag \<times> native_buffer \<times> native_buffer" where
  "writeByteArray_buffer src error b =
     (let src = rewind src; (error, b) = writeByteArray (buffer src) 0 (buf_limit src) error b in (error, b, src))"

text \<open>A \<open>double\<close> is the 64 bits that represent it.\<close>

definition writeDouble :: "u64 \<Rightarrow> error_flag \<Rightarrow> native_buffer \<Rightarrow> error_flag \<times> native_buffer" where
  "writeDouble d error b = writeInt64 d error b"

section \<open>Reading\<close>

abbreviation at :: "native_buffer \<Rightarrow> u32 \<Rightarrow> u8" where
  "at b i \<equiv> buffer b ! unat (buf_position b + i)"

definition readInt32 :: "error_flag \<Rightarrow> native_buffer \<Rightarrow> u32 \<times> error_flag \<times> native_buffer" where
  "readInt32 error b =
     (if buf_position b + 4 > buf_limit b then (0, raise error, b)
      else (ucast (at b 0) OR push_bit 8 (ucast (at b 1)) OR push_bit 16 (ucast (at b 2)) OR push_bit 24 (ucast (at b 3)),
            error, b\<lparr>buf_position := buf_position b + 4\<rparr>))"

definition readBigInt32 :: "error_flag \<Rightarrow> native_buffer \<Rightarrow> u32 \<times> error_flag \<times> native_buffer" where
  "readBigInt32 error b =
     (if buf_position b + 4 > buf_limit b then (0, raise error, b)
      else (push_bit 24 (ucast (at b 0)) OR push_bit 16 (ucast (at b 1)) OR push_bit 8 (ucast (at b 2)) OR ucast (at b 3),
            error, b\<lparr>buf_position := buf_position b + 4\<rparr>))"

definition readInt64 :: "error_flag \<Rightarrow> native_buffer \<Rightarrow> u64 \<times> error_flag \<times> native_buffer" where
  "readInt64 error b =
     (if buf_position b + 8 > buf_limit b then (0, raise error, b)
      else (ucast (at b 0) OR push_bit 8 (ucast (at b 1)) OR push_bit 16 (ucast (at b 2)) OR push_bit 24 (ucast (at b 3)) OR
            push_bit 32 (ucast (at b 4)) OR push_bit 40 (ucast (at b 5)) OR push_bit 48 (ucast (at b 6)) OR push_bit 56 (ucast (at b 7)),
            error, b\<lparr>buf_position := buf_position b + 8\<rparr>))"

definition readByte :: "error_flag \<Rightarrow> native_buffer \<Rightarrow> u8 \<times> error_flag \<times> native_buffer" where
  "readByte error b =
     (if buf_position b + 1 > buf_limit b then (0, raise error, b)
      else (at b 0, error, b\<lparr>buf_position := buf_position b + 1\<rparr>))"

definition readBool :: "error_flag \<Rightarrow> native_buffer \<Rightarrow> bool \<times> error_flag \<times> native_buffer" where
  "readBool error b =
     (let (constructor, error, b) = readInt32 error b
      in if constructor = 0x997275b5 then (True, error, b)
         else if constructor = 0xbc799737 then (False, error, b)
         else (False, raise error, b))"

definition readBytes :: "u32 \<Rightarrow> error_flag \<Rightarrow> native_buffer \<Rightarrow> bytes option \<times> error_flag \<times> native_buffer" where
  "readBytes len error b =
     (if len > buf_limit b - buf_position b then (None, raise error, b)
      else (Some (rd (unat (buf_position b)) (unat len) (buffer b)), error, b\<lparr>buf_position := buf_position b + len\<rparr>))"

text \<open>
  What \<open>readString\<close>, \<open>readByteArray\<close> and \<open>readByteBuffer\<close> have in common: the length and the padding, if the
  whole fits before the limit.  On an error the bytes of the length that were read stay read.
\<close>

definition read_length :: "native_buffer \<Rightarrow> (u32 \<times> u32) option \<times> native_buffer" where
  "read_length b =
     (let sl = 1 in
      if buf_position b + 1 > buf_limit b then (None, b)
      else let l = ucast (at b 0) :: u32; b = b\<lparr>buf_position := buf_position b + 1\<rparr>
      in if l \<ge> 254 \<and> buf_position b + 3 > buf_limit b then (None, b)
      else let (l, sl, b) =
             (if l \<ge> 254
              then (ucast (at b 0) OR push_bit 8 (ucast (at b 1)) OR push_bit 16 (ucast (at b 2)), 4,
                    b\<lparr>buf_position := buf_position b + 3\<rparr>)
              else (l, sl, b));
             addition = addition_of l sl
      in if buf_position b + l + addition > buf_limit b then (None, b) else (Some (l, addition), b))"

definition readString :: "error_flag \<Rightarrow> native_buffer \<Rightarrow> bytes \<times> error_flag \<times> native_buffer" where
  "readString error b =
     (case read_length b of
        (None, b) \<Rightarrow> ([], raise error, b)
      | (Some (l, addition), b) \<Rightarrow>
          (rd (unat (buf_position b)) (unat l) (buffer b), error, b\<lparr>buf_position := buf_position b + (l + addition)\<rparr>))"

definition readByteArray :: "error_flag \<Rightarrow> native_buffer \<Rightarrow> bytes option \<times> error_flag \<times> native_buffer" where
  "readByteArray error b =
     (case read_length b of
        (None, b) \<Rightarrow> (None, raise error, b)
      | (Some (l, addition), b) \<Rightarrow>
          (Some (rd (unat (buf_position b)) (unat l) (buffer b)), error, b\<lparr>buf_position := buf_position b + (l + addition)\<rparr>))"

definition readDouble :: "error_flag \<Rightarrow> native_buffer \<Rightarrow> u64 \<times> error_flag \<times> native_buffer" where
  "readDouble error b = readInt64 error b"

section \<open>What a buffer holds\<close>

text \<open>The marks are in order and the memory, below 2 GiB as the Java buffers that share it, is there.\<close>

definition buf_ok :: "native_buffer \<Rightarrow> bool" where
  "buf_ok b \<longleftrightarrow> \<not> calculateSizeOnly b \<and> buf_position b \<le> buf_limit b \<and> buf_limit b \<le> buf_capacity b \<and>
     unat (buf_capacity b) < 2 ^ 31 \<and> length (buffer b) = unat (buf_capacity b)"

text \<open>Behind the position is what was written or read, up to the limit what is still to be read, or the room for more.\<close>

definition behind :: "native_buffer \<Rightarrow> bytes" where
  "behind b = take (unat (buf_position b)) (buffer b)"

definition room :: "native_buffer \<Rightarrow> nat" where
  "room b = unat (buf_limit b) - unat (buf_position b)"

definition rest :: "native_buffer \<Rightarrow> bytes" where
  "rest b = rd (unat (buf_position b)) (room b) (buffer b)"

definition advance :: "nat \<Rightarrow> native_buffer \<Rightarrow> native_buffer" where
  "advance n b = b\<lparr>buf_position := buf_position b + of_nat n\<rparr>"

definition append_bytes :: "bytes \<Rightarrow> native_buffer \<Rightarrow> native_buffer" where
  "append_bytes bs b = b\<lparr>buffer := wr (unat (buf_position b)) bs (buffer b), buf_position := buf_position b + of_nat (length bs)\<rparr>"

named_theorems marks \<open>positions, limits and room as natural numbers\<close>

lemma buf_okD [marks]:
  assumes "buf_ok b"
  shows "\<not> calculateSizeOnly b" "unat (buf_position b) \<le> unat (buf_limit b)" "unat (buf_limit b) \<le> unat (buf_capacity b)"
    "unat (buf_capacity b) < 2147483648" "length (buffer b) = unat (buf_capacity b)"
    "unat (buf_position b) + room b = unat (buf_limit b)"
  using assms by (simp_all add: buf_ok_def room_def word_le_nat_alt)

lemma unat_small: "n < 2 ^ 32 \<Longrightarrow> unat (of_nat n :: u32) = n"
  by (simp add: unat_of_nat take_bit_nat_eq_self)

lemma unat_add_small: "unat x + unat y < 2 ^ 32 \<Longrightarrow> unat (x + y) = unat x + unat y" for x y :: u32
  by (simp add: unat_word_ariths)

text \<open>The test that every operation starts with.\<close>

lemma over_limit: "buf_ok b \<Longrightarrow> unat n < 2 ^ 31 \<Longrightarrow> buf_position b + n > buf_limit b \<longleftrightarrow> room b < unat n"
  using buf_okD [of b] unat_add_small [of "buf_position b" n] by (auto simp: word_less_nat_alt)

lemma unat_advance:
  assumes "buf_ok b" "n \<le> room b"
  shows "unat (buf_position b + of_nat n) = unat (buf_position b) + n"
proof -
  have "n < 2147483648" using buf_okD [OF assms(1)] assms(2) by linarith
  then have "unat (of_nat n :: u32) = n" by (intro unat_small) simp
  then show ?thesis using unat_add_small [of "buf_position b" "of_nat n"] buf_okD [OF assms(1)] assms(2) by simp
qed

lemma advance_ok:
  assumes "buf_ok b" "n \<le> room b"
  shows "buf_ok (advance n b)" "room (advance n b) = room b - n" "rest (advance n b) = drop n (rest b)"
    "unat (buf_position (advance n b)) = unat (buf_position b) + n"
  using buf_okD [OF assms(1)] unat_advance [OF assms] assms
  by (simp_all add: advance_def buf_ok_def room_def rest_def rd_drop word_le_nat_alt)

lemma append_bytes_ok:
  assumes "buf_ok b" "length bs \<le> room b"
  shows "buf_ok (append_bytes bs b)" "room (append_bytes bs b) = room b - length bs" "behind (append_bytes bs b) = behind b @ bs"
    "unat (buf_position (append_bytes bs b)) = unat (buf_position b) + length bs"
proof -
  have l: "unat (buf_position b) + length bs \<le> length (buffer b)" using buf_okD [OF assms(1)] assms(2) by linarith
  then show "buf_ok (append_bytes bs b)" "room (append_bytes bs b) = room b - length bs"
    "unat (buf_position (append_bytes bs b)) = unat (buf_position b) + length bs"
    using buf_okD [OF assms(1)] unat_advance [OF assms] assms by (simp_all add: append_bytes_def buf_ok_def room_def word_le_nat_alt)
  show "behind (append_bytes bs b) = behind b @ bs"
    using l unat_advance [OF assms] by (simp add: append_bytes_def behind_def wr_def)
qed

lemma append_bytes_fields [simp]:
  "calculateSizeOnly (append_bytes bs b) = calculateSizeOnly b" "buf_limit (append_bytes bs b) = buf_limit b"
  "buf_capacity (append_bytes bs b) = buf_capacity b" "sliced (append_bytes bs b) = sliced b"
  "calculateSizeOnly (advance n b) = calculateSizeOnly b" "buf_limit (advance n b) = buf_limit b"
  "buf_capacity (advance n b) = buf_capacity b" "buffer (advance n b) = buffer b" "sliced (advance n b) = sliced b"
  by (simp_all add: append_bytes_def advance_def)

lemma append_bytes_append:
  assumes "buf_ok b" "length bs + length cs \<le> room b"
  shows "append_bytes cs (append_bytes bs b) = append_bytes (bs @ cs) b"
proof -
  have "unat (buf_position b) + length bs + length cs \<le> length (buffer b)" using buf_okD [OF assms(1)] assms(2) by linarith
  moreover have "length bs \<le> room b" using assms(2) by simp
  ultimately show ?thesis using unat_advance [OF assms(1)] by (simp add: append_bytes_def wr_append add.assoc)
qed

lemma append_bytes_Nil [simp]: "append_bytes [] b = b" and advance_0 [simp]: "advance 0 b = b"
  by (simp_all add: append_bytes_def advance_def)

lemma advance_advance: "advance n (advance m b) = advance (m + n) b"
  by (simp add: advance_def add.assoc)

lemma put_bytes_extend: "buf_ok b \<Longrightarrow> length vs \<le> room b \<Longrightarrow> put_bytes vs b = append_bytes vs b"
proof (induction vs arbitrary: b)
  case (Cons v vs)
  have "unat (buf_position b) < length (buffer b)" using buf_okD [OF Cons.prems(1)] Cons.prems(2) by simp
  then have "wr (unat (buf_position b)) [v] (buffer b) = (buffer b)[unat (buf_position b) := v]"
    by (simp add: wr_Cons)
  then have "put_byte b v = append_bytes [v] b" by (simp add: put_byte_def append_bytes_def)
  then show ?case
    using Cons.IH [of "append_bytes [v] b"] Cons.prems append_bytes_ok [OF Cons.prems(1), of "[v]"] append_bytes_append [OF Cons.prems(1), of "[v]" vs]
    by simp
qed simp

lemma writeBytesInternal_extend:
  assumes "buf_ok b" "unat len \<le> room b" "unat offset + unat len \<le> length src"
  shows "writeBytesInternal src offset len b = append_bytes (rd (unat offset) (unat len) src) b"
  using assms by (simp add: writeBytesInternal_def append_bytes_def)

lemma count_count: "count_bytes n (count_bytes m b) = count_bytes (m + n) b"
  by (simp add: count_bytes_def add.assoc)

lemma count_fields [simp]: "calculateSizeOnly (count_bytes n b) = calculateSizeOnly b"
  by (simp add: count_bytes_def)

lemma length_rest [simp]: "buf_ok b \<Longrightarrow> length (rest b) = room b"
  unfolding rest_def by (rule length_rd) (use buf_okD [of b] in linarith)

lemma rest_nth:
  assumes "buf_ok b" "i < room b"
  shows "at b (of_nat i) = rest b ! i"
  using unat_advance [of b i] buf_okD [OF assms(1)] assms by (simp add: rest_def rd_def)

text \<open>Going back to the position before something was written.\<close>

lemma set_position_extend:
  "buf_ok b \<Longrightarrow> set_position (buf_position b) (append_bytes bs b) = b\<lparr>buffer := wr (unat (buf_position b)) bs (buffer b)\<rparr>"
  using buf_okD [of b] by (simp add: set_position_def append_bytes_def word_less_nat_alt)

lemma overwritten:
  assumes "buf_ok b" "length bs \<le> room b"
  shows "buf_ok (b\<lparr>buffer := wr (unat (buf_position b)) bs (buffer b)\<rparr>)"
    "rest (b\<lparr>buffer := wr (unat (buf_position b)) bs (buffer b)\<rparr>) = bs @ drop (length bs) (rest b)"
proof -
  let ?p = "unat (buf_position b)" and ?m = "wr (unat (buf_position b)) bs (buffer b)"
  have l: "?p + length bs \<le> length (buffer b)" using buf_okD [OF assms(1)] assms(2) by linarith
  then show "buf_ok (b\<lparr>buffer := ?m\<rparr>)" using assms(1) by (simp add: buf_ok_def)
  have "rd ?p (length bs) ?m @ rd (?p + length bs) (room b - length bs) ?m = rd ?p (room b) ?m"
    using rd_append [of ?p "length bs" ?m "room b - length bs"] assms(2) by simp
  moreover have "room (b\<lparr>buffer := ?m\<rparr>) = room b" by (simp add: room_def)
  ultimately show "rest (b\<lparr>buffer := ?m\<rparr>) = bs @ drop (length bs) (rest b)"
    using l assms(2) by (simp add: rest_def rd_wr_same rd_wr_after rd_drop)
qed

lemma buf_room_limit: "buf_ok b \<Longrightarrow> unat (buf_limit b - buf_position b) = room b"
  using buf_okD [of b] by (simp add: room_def unat_sub word_le_nat_alt)

text \<open>What remains of one buffer goes to another that has room for it.\<close>

lemma writeBytes_buffer_fits:
  assumes "buf_ok src" "buf_ok b" "room src \<le> room b"
  shows "writeBytes_buffer src error b = (error, append_bytes (rest src) b, advance (room src) src)"
proof -
  have l: "unat (buf_limit src - buf_position src) = room src" by (rule buf_room_limit [OF assms(1)])
  have z: "buf_limit src - buf_position src = 0 \<longleftrightarrow> room src = 0" using l by (simp add: unat_eq_0 [symmetric])
  have full: "length (rest src) = room src" by (rule length_rest [OF assms(1)])
  show ?thesis
  proof (cases "room src = 0")
    case True
    then show ?thesis using z full by (simp add: writeBytes_buffer_def Let_def)
  next
    case False
    have n: "unat (buf_limit src - buf_position src) < 2 ^ 31" using l buf_okD [OF assms(1)] by simp
    have fit: "unat (buf_limit src - buf_position src) \<le> room b" using l assms(3) by simp
    have "rd 0 (room src) (drop (unat (buf_position src)) (buffer src)) = rest src" by (simp add: rest_def rd_def)
    moreover have "unat (0 :: u32) + unat (buf_limit src - buf_position src) \<le> length (drop (unat (buf_position src)) (buffer src))"
      using l buf_okD [OF assms(1)] by simp
    moreover have "set_position (buf_limit src) src = advance (room src) src"
      using unat_advance [OF assms(1), of "room src"] buf_okD(6) [OF assms(1)]
      by (simp add: set_position_def advance_def word_unat_eq_iff)
    ultimately show ?thesis
      using False z over_limit [OF assms(2) n] writeBytesInternal_extend [OF assms(2) fit, of 0] l fit buf_okD(1) [OF assms(2)]
      by (simp add: writeBytes_buffer_def Let_def)
  qed
qed

text \<open>A limit for a while.\<close>

lemma limited:
  assumes "buf_ok b" "n \<le> room b"
  shows "buf_ok (b\<lparr>buf_limit := buf_position b + of_nat n\<rparr>)" "room (b\<lparr>buf_limit := buf_position b + of_nat n\<rparr>) = n"
    "rest (b\<lparr>buf_limit := buf_position b + of_nat n\<rparr>) = take n (rest b)"
    "set_limit (buf_position b + of_nat n) b = b\<lparr>buf_limit := buf_position b + of_nat n\<rparr>"
proof -
  have l: "unat (buf_position b + of_nat n) = unat (buf_position b) + n" by (rule unat_advance [OF assms])
  then show "buf_ok (b\<lparr>buf_limit := buf_position b + of_nat n\<rparr>)" and r: "room (b\<lparr>buf_limit := buf_position b + of_nat n\<rparr>) = n"
    using buf_okD [OF assms(1)] assms by (simp_all add: buf_ok_def room_def word_le_nat_alt)
  show "rest (b\<lparr>buf_limit := buf_position b + of_nat n\<rparr>) = take n (rest b)"
    using r assms(2) by (simp add: rest_def rd_take)
  show "set_limit (buf_position b + of_nat n) b = b\<lparr>buf_limit := buf_position b + of_nat n\<rparr>"
    using l buf_okD [OF assms(1)] assms(2) by (simp add: set_limit_def word_less_nat_alt)
qed

section \<open>The encodings\<close>

definition enc32 :: "u32 \<Rightarrow> bytes" where
  "enc32 x = [ucast x, ucast (drop_bit 8 x), ucast (drop_bit 16 x), ucast (drop_bit 24 x)]"

definition enc64 :: "u64 \<Rightarrow> bytes" where
  "enc64 x = [ucast x, ucast (drop_bit 8 x), ucast (drop_bit 16 x), ucast (drop_bit 24 x),
     ucast (drop_bit 32 x), ucast (drop_bit 40 x), ucast (drop_bit 48 x), ucast (drop_bit 56 x)]"

definition enc_bool :: "bool \<Rightarrow> bytes" where
  "enc_bool v = enc32 (if v then 0x997275b5 else 0xbc799737)"

definition prefix_of :: "nat \<Rightarrow> bytes" where
  "prefix_of n = (if n \<le> 253 then [of_nat n] else [254, of_nat n, of_nat (n div 256), of_nat (n div 65536)])"

definition pad_of :: "nat \<Rightarrow> nat" where
  "pad_of m = (4 - m mod 4) mod 4"

abbreviation padding :: "nat \<Rightarrow> nat" where
  "padding n \<equiv> pad_of (n + length (prefix_of n))"

definition enc_string :: "bytes \<Rightarrow> bytes" where
  "enc_string s = prefix_of (length s) @ s @ replicate (padding (length s)) 0"

lemma length_enc [simp]: "length (enc32 x) = 4" "length (enc64 y) = 8" "length (enc_bool v) = 4"
  by (simp_all add: enc32_def enc64_def enc_bool_def)

lemma enc_string_aligned: "length (enc_string s) mod 4 = 0"
proof -
  have "(m + (4 - m mod 4) mod 4) mod 4 = 0" for m :: nat
  proof -
    have "(4 * q + r + (4 - r) mod 4) mod 4 = 0" if "r = 0 \<or> r = 1 \<or> r = 2 \<or> r = 3" for q r :: nat
      using that by (elim disjE) simp_all
    from this [of "m mod 4" "m div 4"] have "(m + (4 - m mod 4) mod 4) mod 4 = 0"
      if "m mod 4 = 0 \<or> m mod 4 = 1 \<or> m mod 4 = 2 \<or> m mod 4 = 3" using that by (simp only: mult_div_mod_eq)
    moreover have "m mod 4 = 0 \<or> m mod 4 = 1 \<or> m mod 4 = 2 \<or> m mod 4 = 3" by linarith
    ultimately show ?thesis by blast
  qed
  note pad = this
  define m where "m = length s + length (prefix_of (length s))"
  have "length (enc_string s) = m + (4 - m mod 4) mod 4"
    by (simp add: enc_string_def pad_of_def m_def)
  then show ?thesis by (simp only: pad)
qed

lemma take_bit_more: "take_bit k x OR push_bit k (ucast (ucast (drop_bit k x) :: u8)) = take_bit (k + 8) x"
  for x :: "'a :: len word"
  by (rule bit_eqI) (auto simp: bit_simps)

lemmas more_bytes = take_bit_more [of 0] take_bit_more [of 8] take_bit_more [of 16] take_bit_more [of 24]
  take_bit_more [of 32] take_bit_more [of 40] take_bit_more [of 48] take_bit_more [of 56]

lemma dec32: "ucast (ucast x :: u8) OR push_bit 8 (ucast (ucast (drop_bit 8 x) :: u8)) OR
    push_bit 16 (ucast (ucast (drop_bit 16 x) :: u8)) OR push_bit 24 (ucast (ucast (drop_bit 24 x) :: u8)) = x" for x :: u32
  using more_bytes [of x] by (simp add: or.assoc [symmetric] take_bit_word_eq_self)

lemma dec64: "ucast (ucast x :: u8) OR push_bit 8 (ucast (ucast (drop_bit 8 x) :: u8)) OR
    push_bit 16 (ucast (ucast (drop_bit 16 x) :: u8)) OR push_bit 24 (ucast (ucast (drop_bit 24 x) :: u8)) OR
    push_bit 32 (ucast (ucast (drop_bit 32 x) :: u8)) OR push_bit 40 (ucast (ucast (drop_bit 40 x) :: u8)) OR
    push_bit 48 (ucast (ucast (drop_bit 48 x) :: u8)) OR push_bit 56 (ucast (ucast (drop_bit 56 x) :: u8)) = x" for x :: u64
  using more_bytes [of x] by (simp add: or.assoc [symmetric] take_bit_word_eq_self)

section \<open>A field of a message\<close>

text \<open>
  What every kind of field promises: its value is written in full if there is room, else the error is raised
  and nothing behind the position changes; counting counts what writing writes; and reading gives back the value.
\<close>

locale tl_field =
  fixes put :: "'a \<Rightarrow> error_flag \<Rightarrow> native_buffer \<Rightarrow> error_flag \<times> native_buffer"
    and get :: "error_flag \<Rightarrow> native_buffer \<Rightarrow> 'a \<times> error_flag \<times> native_buffer"
    and enc :: "'a \<Rightarrow> bytes" and valid :: "'a \<Rightarrow> bool"
  assumes put_fits: "buf_ok b \<Longrightarrow> valid x \<Longrightarrow> length (enc x) \<le> room b \<Longrightarrow> put x error b = (error, append_bytes (enc x) b)"
    and put_fails: "buf_ok b \<Longrightarrow> valid x \<Longrightarrow> room b < length (enc x) \<Longrightarrow>
      \<exists>n. n \<le> room b \<and> put x error b = (raise error, append_bytes (take n (enc x)) b)"
    and put_counts: "calculateSizeOnly b \<Longrightarrow> valid x \<Longrightarrow> put x error b = (error, count_bytes (of_nat (length (enc x))) b)"
    and get_enc: "buf_ok b \<Longrightarrow> valid x \<Longrightarrow> rest b = enc x @ ys \<Longrightarrow> get error b = (x, error, advance (length (enc x)) b)"
begin

lemma get_put:
  assumes "buf_ok b" "valid x" "length (enc x) \<le> room b" "put x error b = (error', b')"
  shows "get error' (set_position (buf_position b) b') = (x, error, b')"
proof -
  have b': "error' = error" "b' = append_bytes (enc x) b" using put_fits [OF assms(1-3)] assms(4) by simp_all
  let ?c = "b\<lparr>buffer := wr (unat (buf_position b)) (enc x) (buffer b)\<rparr>"
  have "get error ?c = (x, error, advance (length (enc x)) ?c)"
    by (rule get_enc [OF overwritten(1) [OF assms(1,3)] assms(2) overwritten(2) [OF assms(1,3)]])
  moreover have "advance (length (enc x)) ?c = b'" by (simp add: b' advance_def append_bytes_def)
  ultimately show ?thesis by (simp only: b' set_position_extend [OF assms(1)])
qed

end

section \<open>The fields\<close>

lemma int32_field: "tl_field writeInt32 readInt32 enc32 (\<lambda>_. True)"
proof (unfold_locales, goal_cases)
  case (1 b x error)
  then show ?case using over_limit [OF 1(1), of 4] put_bytes_extend [OF 1(1), of "enc32 x"]
    by (simp add: writeInt32_def enc32_def buf_okD)
next
  case (2 b x error)
  then show ?case using over_limit [OF 2(1), of 4] by (intro exI [of _ 0]) (simp add: writeInt32_def buf_okD)
next
  case (3 b x error)
  then show ?case by (simp add: writeInt32_def)
next
  case (4 b x ys error)
  then have r: "4 \<le> room b" using length_rest [OF 4(1)] by simp
  then have "at b 0 = ucast x" "at b 1 = ucast (drop_bit 8 x)" "at b 2 = ucast (drop_bit 16 x)" "at b 3 = ucast (drop_bit 24 x)"
    using rest_nth [OF 4(1), of 0] rest_nth [OF 4(1), of 1] rest_nth [OF 4(1), of 2] rest_nth [OF 4(1), of 3] 4(3)
    by (simp_all add: enc32_def)
  then show ?case using over_limit [OF 4(1), of 4] r dec32 [of x] by (simp add: readInt32_def advance_def)
qed

lemma int64_field: "tl_field writeInt64 readInt64 enc64 (\<lambda>_. True)"
proof (unfold_locales, goal_cases)
  case (1 b x error)
  then show ?case using over_limit [OF 1(1), of 8] put_bytes_extend [OF 1(1), of "enc64 x"]
    by (simp add: writeInt64_def enc64_def buf_okD)
next
  case (2 b x error)
  then show ?case using over_limit [OF 2(1), of 8] by (intro exI [of _ 0]) (simp add: writeInt64_def buf_okD)
next
  case (3 b x error)
  then show ?case by (simp add: writeInt64_def)
next
  case (4 b x ys error)
  then have r: "8 \<le> room b" using length_rest [OF 4(1)] by simp
  have "at b (of_nat i) = enc64 x ! i" if "i < 8" for i
    using rest_nth [OF 4(1), of i] 4(3) r that by (simp add: nth_append)
  from this [of 0] this [of 1] this [of 2] this [of 3] this [of 4] this [of 5] this [of 6] this [of 7]
  have "at b 0 = ucast x" "at b 1 = ucast (drop_bit 8 x)" "at b 2 = ucast (drop_bit 16 x)" "at b 3 = ucast (drop_bit 24 x)"
    "at b 4 = ucast (drop_bit 32 x)" "at b 5 = ucast (drop_bit 40 x)" "at b 6 = ucast (drop_bit 48 x)" "at b 7 = ucast (drop_bit 56 x)"
    by (simp_all add: enc64_def)
  then show ?case using over_limit [OF 4(1), of 8] r dec64 [of x] by (simp add: readInt64_def advance_def)
qed

lemma byte_field: "tl_field writeByte readByte (\<lambda>i. [i]) (\<lambda>_. True)"
proof (unfold_locales, goal_cases)
  case (1 b x error)
  then show ?case using over_limit [OF 1(1), of 1] put_bytes_extend [OF 1(1), of "[x]"]
    by (simp add: writeByte_def buf_okD)
next
  case (2 b x error)
  then show ?case using over_limit [OF 2(1), of 1] by (intro exI [of _ 0]) (simp add: writeByte_def buf_okD)
next
  case (3 b x error)
  then show ?case by (simp add: writeByte_def)
next
  case (4 b x ys error)
  then have "1 \<le> room b" using length_rest [OF 4(1)] by simp
  then show ?case using over_limit [OF 4(1), of 1] rest_nth [OF 4(1), of 0] 4(3) by (simp add: readByte_def advance_def)
qed

lemma double_field: "tl_field writeDouble readDouble enc64 (\<lambda>_. True)"
  using int64_field unfolding tl_field_def writeDouble_def readDouble_def .

interpretation int32: tl_field writeInt32 readInt32 enc32 "\<lambda>_. True" by (rule int32_field)
interpretation int64: tl_field writeInt64 readInt64 enc64 "\<lambda>_. True" by (rule int64_field)
interpretation byte: tl_field writeByte readByte "\<lambda>i. [i]" "\<lambda>_. True" by (rule byte_field)
interpretation double: tl_field writeDouble readDouble enc64 "\<lambda>_. True" by (rule double_field)

interpretation boolean: tl_field writeBool readBool enc_bool "\<lambda>_. True"
proof (unfold_locales, goal_cases)
  case (1 b x error)
  then show ?case using int32.put_fits [OF 1(1)] by (simp add: writeBool_def enc_bool_def buf_okD)
next
  case (2 b x error)
  then show ?case using int32.put_fails [OF 2(1)] by (simp add: writeBool_def enc_bool_def buf_okD)
next
  case (3 b x error)
  then show ?case by (simp add: writeBool_def)
next
  case (4 b x ys error)
  then show ?case using int32.get_enc [OF 4(1)] by (simp add: readBool_def enc_bool_def)
qed

section \<open>Byte strings\<close>

lemma byte_of_nat: "n < 2 ^ 32 \<Longrightarrow> (ucast (drop_bit k (of_nat n :: u32)) :: u8) = of_nat (n div 2 ^ k)"
proof (rule bit_eqI)
  fix j assume n: "n < 2 ^ 32" and "possible_bit TYPE(u8) j"
  have "k + j < 32" if "bit n (k + j)"
    using take_bit_nat_eq_self [OF n] that by (metis bit_take_bit_iff)
  then show "bit (ucast (drop_bit k (of_nat n :: u32)) :: u8) j \<longleftrightarrow> bit (of_nat (n div 2 ^ k) :: u8) j"
    using n by (auto simp: bit_simps bit_of_nat_iff simp flip: drop_bit_eq_div)
qed

lemma length_prefix: "length (prefix_of n) = (if n \<le> 253 then 1 else 4)"
  by (simp add: prefix_of_def)

lemma padding_bound: "pad_of m < 4"
  by (simp add: pad_of_def)

lemma len_le: "n < 2 ^ 24 \<Longrightarrow> (of_nat n :: u32) \<le> 253 \<longleftrightarrow> n \<le> 253"
  using unat_small [of n] by (simp add: word_le_nat_alt)

lemma write_length_fits:
  assumes "buf_ok b" "n < 2 ^ 24"
  shows "write_length (of_nat n) b = (if length (prefix_of n) \<le> room b then (True, append_bytes (prefix_of n) b) else (False, b))"
proof -
  have p: "prefix_of n = (if n \<le> 253 then [ucast (of_nat n :: u32)]
      else [254, ucast (of_nat n :: u32), ucast (drop_bit 8 (of_nat n :: u32)), ucast (drop_bit 16 (of_nat n :: u32))])"
    using assms(2) byte_of_nat [of n 0] byte_of_nat [of n 8] byte_of_nat [of n 16] by (simp add: prefix_of_def)
  show ?thesis
    using over_limit [OF assms(1), of 1] over_limit [OF assms(1), of 4] put_bytes_extend [OF assms(1), of "prefix_of n"]
      buf_okD(1) [OF assms(1)] len_le [OF assms(2)]
    by (cases "n \<le> 253") (simp_all add: write_length_def p)
qed

lemma write_content_fits:
  assumes "buf_ok b" "length s < 2 ^ 24"
  shows "write_content s 0 (of_nat (length s)) b = (if length s \<le> room b then (True, append_bytes s b) else (False, b))"
proof -
  have "unat (of_nat (length s) :: u32) = length s" using assms(2) by (intro unat_small) simp
  then show ?thesis
    using over_limit [OF assms(1), of "of_nat (length s)"] writeBytesInternal_extend [OF assms(1), of "of_nat (length s)" 0 s]
      buf_okD(1) [OF assms(1)] assms(2)
    by (simp add: write_content_def rd_def)
qed

lemma addition_of_nat:
  assumes "l < 2 ^ 24" "sl = 1 \<or> sl = 4"
  shows "addition_of (of_nat l) sl = of_nat (pad_of (l + unat sl))"
proof -
  define m where "m = l + unat sl"
  have sl: "(of_nat l + sl :: u32) = of_nat m" using assms(2) by (auto simp: m_def)
  have "m < 2 ^ 32" using assms by (auto simp: m_def)
  then have mod4: "(of_nat m :: u32) mod 4 = of_nat (m mod 4)"
    by (simp add: word_unat_eq_iff unat_mod unat_small)
  have "m mod 4 = 0 \<or> m mod 4 = 1 \<or> m mod 4 = 2 \<or> m mod 4 = 3" by linarith
  then show ?thesis
    unfolding addition_of_def Let_def sl mod4 pad_of_def m_def [symmetric] by (elim disjE) simp_all
qed

lemma addition_padding: "n < 2 ^ 24 \<Longrightarrow> addition_of (of_nat n) (if n \<le> 253 then 1 else 4) = of_nat (padding n)"
  using addition_of_nat [of n 1] addition_of_nat [of n 4] by (simp add: length_prefix)

lemma put_zeros:
  "\<not> calculateSizeOnly b \<Longrightarrow>
     foldl (\<lambda>b a. if \<not> calculateSizeOnly b then put_byte b 0 else count_bytes 1 b) b [i..<i + k] = put_bytes (replicate k 0) b"
proof (induction k arbitrary: b i)
  case (Suc k)
  have "\<not> calculateSizeOnly (put_byte b 0)" using Suc.prems by (simp add: put_byte_def)
  from Suc.IH [OF this, of "Suc i"] show ?case using Suc.prems upt_rec [of i "i + Suc k"] by simp
qed simp

lemma count_zeros:
  "calculateSizeOnly b \<Longrightarrow>
     foldl (\<lambda>b a. if \<not> calculateSizeOnly b then put_byte b 0 else count_bytes 1 b) b [i..<i + k] = count_bytes (of_nat k) b"
proof (induction k arbitrary: b i)
  case (Suc k)
  then show ?case using Suc.IH [of "count_bytes 1 b" "Suc i"] upt_rec [of i "i + Suc k"] by (simp add: count_count)
qed (simp add: count_bytes_def)

lemma write_addition_fits:
  assumes "buf_ok b" "n < 2 ^ 24"
  shows "write_addition (of_nat n) b =
    (if padding n \<le> room b then (True, append_bytes (replicate (padding n) 0) b) else (False, b))"
proof -
  have p: "unat (of_nat (padding n) :: u32) = padding n" using padding_bound [of "n + length (prefix_of n)"] by (intro unat_small) simp
  show ?thesis
    using over_limit [OF assms(1), of "of_nat (padding n)"] put_bytes_extend [OF assms(1), of "replicate (padding n) 0"]
      put_zeros [OF buf_okD(1) [OF assms(1)], of 0 "padding n"] buf_okD(1) [OF assms(1)] addition_padding [OF assms(2)] padding_bound [of "n + length (prefix_of n)"]
    by (simp add: write_addition_def len_le [OF assms(2)] p Let_def)
qed

lemma writeString_counts:
  assumes "calculateSizeOnly b" "length s < 2 ^ 24"
  shows "writeString s error b = (error, count_bytes (of_nat (length (enc_string s))) b)"
proof -
  have p: "unat (of_nat (padding (length s)) :: u32) = padding (length s)"
    using padding_bound [of "length s + length (prefix_of (length s))"] by (intro unat_small) simp
  let ?b = "count_bytes (of_nat (length (prefix_of (length s)))) b" and ?n = "of_nat (length s)"
  have 1: "write_length ?n b = (True, ?b)"
    using assms by (simp add: write_length_def len_le length_prefix)
  have 2: "write_content s 0 ?n ?b = (True, count_bytes ?n ?b)"
    using assms by (simp add: write_content_def)
  have 3: "write_addition ?n (count_bytes ?n ?b) = (True, count_bytes (of_nat (padding (length s))) (count_bytes ?n ?b))"
    using assms count_zeros [of "count_bytes ?n ?b" 0 "padding (length s)"] addition_padding [OF assms(2)]
    by (simp add: write_addition_def len_le p Let_def)
  show ?thesis
    unfolding writeString_def writeByteArray_def 1 2 3 Let_def prod.case by (simp add: count_count enc_string_def add.assoc)
qed

text \<open>A byte string is written as far as it goes: nothing, its length, or all but the padding.\<close>

lemma writeString_steps:
  assumes b: "buf_ok b" and n: "length s < 2 ^ 24"
  shows "writeString s error b =
    (let p = prefix_of (length s) in
     if room b < length p then (raise error, b)
     else if room b < length p + length s then (raise error, append_bytes p b)
     else if room b < length (enc_string s) then (raise error, append_bytes (p @ s) b)
     else (error, append_bytes (enc_string s) b))"
proof -
  let ?p = "prefix_of (length s)" and ?z = "replicate (padding (length s)) (0 :: u8)"
  show ?thesis
  proof (cases "room b < length ?p")
    case True
    then show ?thesis using write_length_fits [OF b n] by (simp add: writeString_def writeByteArray_def)
  next
    case False
    then have fit: "length ?p \<le> room b" by simp
    note e1 = append_bytes_ok [OF b fit]
    show ?thesis
    proof (cases "room b < length ?p + length s")
      case True
      then have "\<not> length s \<le> room b - length ?p" using fit by linarith
      then show ?thesis using True fit write_length_fits [OF b n] write_content_fits [OF e1(1) n] e1(2)
        by (simp add: writeString_def writeByteArray_def)
    next
      case False
      then have fit2: "length (?p @ s) \<le> room b" by simp
      note e2 = append_bytes_ok [OF b fit2]
      have c: "append_bytes s (append_bytes ?p b) = append_bytes (?p @ s) b" using append_bytes_append [OF b] fit2 by simp
      have l: "length (enc_string s) = length ?p + length s + padding (length s)" by (simp add: enc_string_def)
      have a: "padding (length s) \<le> room b - length (?p @ s) \<Longrightarrow> append_bytes ?z (append_bytes (?p @ s) b) = append_bytes (enc_string s) b"
        using append_bytes_append [OF b, of "?p @ s" ?z] fit2 by (simp add: enc_string_def)
      show ?thesis using fit fit2 a write_length_fits [OF b n] write_content_fits [OF e1(1) n] e1(2) c
          write_addition_fits [OF e2(1) n] e2(2) l
        by (auto simp: writeString_def writeByteArray_def Let_def)
    qed
  qed
qed

lemma ucast_byte: "unat (ucast (v :: u8) :: u32) = unat v"
  by (simp add: unsigned_ucast_eq take_bit_nat_eq_self_iff order_less_le_trans [OF unsigned_less])

text \<open>The reference decoder of a length: the length and how many bytes it takes.\<close>

fun dec_length :: "bytes \<Rightarrow> (nat \<times> nat) option" where
  "dec_length [] = None"
| "dec_length (x # xs) =
     (if unat x < 254 then Some (unat x, 1)
      else if length xs < 3 then None else Some (unat (xs ! 0) + 256 * unat (xs ! 1) + 65536 * unat (xs ! 2), 4))"

lemma dec_length_bounds: "dec_length bs = Some (l, h) \<Longrightarrow> l < 2 ^ 24 \<and> (h = 1 \<or> h = 4) \<and> h \<le> length bs"
proof (cases bs)
  case (Cons x xs)
  assume d: "dec_length bs = Some (l, h)"
  from byte_less [of "xs ! 0"] byte_less [of "xs ! 1"] byte_less [of "xs ! 2"]
  have "unat (xs ! 0) + 256 * unat (xs ! 1) + 65536 * unat (xs ! 2) < 2 ^ 24" by simp
  then show ?thesis using d by (auto simp: Cons split: if_splits)
qed simp

lemma word24:
  "ucast (x :: u8) OR push_bit 8 (ucast (y :: u8)) OR push_bit 16 (ucast (z :: u8)) =
     (of_nat (unat x + 256 * unat y + 65536 * unat z) :: u32)"
proof -
  have "pack 0 z y x = (of_nat (unat x + 256 * unat y + 65536 * unat z) :: u32)"
    by (simp add: pack_arith mult.commute)
  then show ?thesis by (simp add: pack_def ac_simps)
qed

text \<open>With the length known, the content and the padding must fit.\<close>

lemma content_fits:
  assumes "buf_ok b" "l < 2 ^ 24" "a < 4"
  shows "buf_position b + of_nat l + of_nat a > buf_limit b \<longleftrightarrow> room b < l + a"
proof -
  have "unat (of_nat (l + a) :: u32) = l + a" using assms(2,3) by (intro unat_small) simp
  then show ?thesis using over_limit [OF assms(1), of "of_nat (l + a)"] assms(2,3) by (simp add: add.assoc)
qed

lemma read_length_dec:
  assumes b: "buf_ok b"
  shows "read_length b =
    (case dec_length (rest b) of
       None \<Rightarrow> (None, advance (min 1 (room b)) b)
     | Some (l, h) \<Rightarrow>
         (if h + l + pad_of (l + h) \<le> room b then Some (of_nat l, of_nat (pad_of (l + h))) else None, advance h b))"
proof (cases "rest b")
  case Nil
  then have "room b = 0" using length_rest [OF b] by simp
  then show ?thesis using over_limit [OF b, of 1] by (simp add: read_length_def Nil)
next
  case (Cons x xs)
  then have room: "room b = Suc (length xs)" using length_rest [OF b] by simp
  then have one: "1 \<le> room b" by simp
  note a1 = advance_ok [OF b one]
  let ?b = "b\<lparr>buf_position := buf_position b + 1\<rparr>"
  have b1: "?b = advance 1 b" by (simp add: advance_def)
  have o1: "\<not> buf_position b + 1 > buf_limit b" using over_limit [OF b, of 1] one by simp
  have x: "at b 0 = x" using rest_nth [OF b, of 0] one by (simp add: Cons)
  have big: "(ucast x :: u32) \<ge> 254 \<longleftrightarrow> 254 \<le> unat x" by (simp add: word_le_nat_alt ucast_byte)
  show ?thesis
  proof (cases "unat x < 254")
    case True
    have "unat x < 2 ^ 24" using True by simp
    note fits = content_fits [OF a1(1) this padding_bound [of "unat x + 1"]]
      and add = addition_of_nat [OF \<open>unat x < 2 ^ 24\<close>, of 1, simplified]
    show ?thesis
      using True big o1 fits a1(2) room unfolding read_length_def Let_def b1 x
      by (simp add: Cons add not_less)
  next
    case False
    have o3: "buf_position ?b + 3 > buf_limit ?b \<longleftrightarrow> length xs < 3"
      using over_limit [OF a1(1), of 3] a1(2) room unfolding b1 by simp
    show ?thesis
    proof (cases "length xs < 3")
      case True
      then show ?thesis using False big o1 o3 one unfolding read_length_def Let_def b1 x by (simp add: Cons)
    next
      case long: False
      have at: "at ?b (of_nat i) = xs ! i" if "i < 3" for i
        using rest_nth [OF a1(1), of i] a1(2,3) room long that unfolding b1 by (simp add: Cons)
      define l where "l = unat (xs ! 0) + 256 * unat (xs ! 1) + 65536 * unat (xs ! 2)"
      have d: "dec_length (rest b) = Some (l, 4)" using False long by (simp add: Cons l_def)
      then have l: "l < 2 ^ 24" using dec_length_bounds by blast
      have "at ?b 0 = xs ! 0" "at ?b 1 = xs ! 1" "at ?b 2 = xs ! 2" using at [of 0] at [of 1] at [of 2] by simp_all
      then have w: "ucast (at ?b 0) OR push_bit 8 (ucast (at ?b 1)) OR push_bit 16 (ucast (at ?b 2)) = (of_nat l :: u32)"
        by (simp only: word24 l_def)
      have four: "4 \<le> room b" using room long by simp
      note a4 = advance_ok [OF b four]
      have b4: "?b\<lparr>buf_position := buf_position ?b + 3\<rparr> = advance 4 b" by (simp add: advance_def)
      note fits = content_fits [OF a4(1) l padding_bound [of "l + 4"]] and add = addition_of_nat [OF l, of 4]
      have "read_length b = (if buf_position (advance 4 b) + of_nat l + addition_of (of_nat l) 4 > buf_limit (advance 4 b)
          then (None, advance 4 b) else (Some (of_nat l, addition_of (of_nat l) 4), advance 4 b))"
        using False big o1 o3 long unfolding read_length_def Let_def x b4 [symmetric] by (simp add: w [simplified])
      then show ?thesis using fits a4(2) four add by (auto simp: d)
    qed
  qed
qed

lemma dec_prefix: "n < 2 ^ 24 \<Longrightarrow> dec_length (prefix_of n @ ys) = Some (n, length (prefix_of n))"
proof (cases "n \<le> 253")
  case True
  then show ?thesis by (simp add: prefix_of_def unat_of_nat take_bit_nat_eq_self)
next
  case False
  assume "n < 2 ^ 24"
  then have top: "n div 65536 mod 256 = n div 65536" by simp
  have "n div 65536 = n div 256 div 256" using div_mult2_eq [of n 256 256] by simp
  then have "n mod 256 + 256 * (n div 256 mod 256) + 65536 * (n div 65536) = n"
    using mult_div_mod_eq [of 256 n] mult_div_mod_eq [of 256 "n div 256"] by linarith
  then show ?thesis using False top by (simp add: prefix_of_def unat_of_nat take_bit_eq_mod)
qed

lemma read_length_string:
  assumes b: "buf_ok b" and n: "length s < 2 ^ 24" and r: "rest b = enc_string s @ ys"
  shows "read_length b = (Some (of_nat (length s), of_nat (padding (length s))), advance (length (prefix_of (length s))) b)"
proof -
  have "length (rest b) = length (prefix_of (length s)) + length s + padding (length s) + length ys"
    by (simp add: r enc_string_def)
  moreover have "rest b = prefix_of (length s) @ s @ replicate (padding (length s)) 0 @ ys" by (simp add: r enc_string_def)
  ultimately show ?thesis using read_length_dec [OF b] dec_prefix [OF n] length_rest [OF b] by simp
qed

lemma string_field: "tl_field writeString readString enc_string (\<lambda>s. length s < 2 ^ 24)"
proof (unfold_locales, goal_cases)
  case (1 b s error)
  then show ?case using writeString_steps [OF 1(1,2)] by (simp add: enc_string_def Let_def)
next
  case (2 b s error)
  let ?p = "prefix_of (length s)"
  have t: "take (length ?p) (enc_string s) = ?p" "take (length ?p + length s) (enc_string s) = ?p @ s"
    by (simp_all add: enc_string_def)
  show ?case
  proof (cases "room b < length ?p + length s")
    case True
    then show ?thesis using writeString_steps [OF 2(1,2), of error] 2(3) t(1)
      by (cases "room b < length ?p")
        (auto simp: Let_def intro: exI [of _ 0] exI [of _ "length ?p"])
  next
    case False
    then show ?thesis using writeString_steps [OF 2(1,2), of error] 2(3) t(2)
      by (intro exI [of _ "length ?p + length s"]) (simp add: Let_def)
  qed
next
  case (3 b s error)
  then show ?case by (rule writeString_counts)
next
  case (4 b s ys error)
  let ?p = "prefix_of (length s)"
  have fit: "length ?p \<le> room b" "length ?p + length s \<le> room b" using length_rest [OF 4(1)] by (simp_all add: 4(3) enc_string_def)
  note a = advance_ok [OF 4(1) fit(1)]
  have n: "unat (of_nat (length s) :: u32) = length s" using 4(2) by (intro unat_small) simp
  have "rd (unat (buf_position (advance (length ?p) b))) (length s) (buffer b) = take (length s) (rest (advance (length ?p) b))"
    using fit a(2) by (simp add: rest_def rd_take)
  also have "\<dots> = s" by (simp add: a(3) 4(3) enc_string_def)
  finally have "rd (unat (buf_position (advance (length ?p) b))) (length s) (buffer b) = s" .
  then show ?case
    by (simp add: readString_def read_length_string [OF 4(1,2,3)] n advance_def enc_string_def add.assoc)
qed

interpretation tl_string: tl_field writeString readString enc_string "\<lambda>s. length s < 2 ^ 24" by (rule string_field)

text \<open>Bytes without a length: the reader knows how many there are.\<close>

lemma raw_field:
  assumes "n < 2 ^ 31"
  shows "tl_field (\<lambda>s. writeBytes (the s) 0 (of_nat n)) (readBytes (of_nat n)) the (\<lambda>s. s \<noteq> None \<and> length (the s) = n)"
proof -
  have n: "unat (of_nat n :: u32) = n" using assms by (intro unat_small) simp
  show ?thesis
  proof (unfold_locales, goal_cases)
    case (1 b s error)
    then show ?case using over_limit [OF 1(1), of "of_nat n"] writeBytesInternal_extend [OF 1(1), of "of_nat n" 0 "the s"] assms
      by (simp add: writeBytes_def buf_okD n rd_def)
  next
    case (2 b s error)
    then show ?case using over_limit [OF 2(1), of "of_nat n"] assms by (intro exI [of _ 0]) (simp add: writeBytes_def buf_okD n)
  next
    case (3 b s error)
    then show ?case by (simp add: writeBytes_def)
  next
    case (4 b s ys error)
    then have fit: "n \<le> room b" using length_rest [OF 4(1)] by auto
    have "unat (buf_limit b - buf_position b) = room b"
      using buf_okD [OF 4(1)] by (simp add: room_def unat_sub word_le_nat_alt)
    then have "\<not> (of_nat n > buf_limit b - buf_position b)" using fit by (simp add: word_less_nat_alt n)
    moreover have "rd (unat (buf_position b)) n (buffer b) = take n (rest b)" using fit by (simp add: rest_def rd_take)
    ultimately show ?case using 4(2,3) by (auto simp: readBytes_def n advance_def)
  qed
qed

section \<open>Reading what anyone wrote\<close>

text \<open>The reference decoder of a byte string: the string, and how many bytes it takes with its length and padding.\<close>

definition dec_string :: "bytes \<Rightarrow> (bytes \<times> nat) option" where
  "dec_string bs =
     (case dec_length bs of None \<Rightarrow> None
      | Some (l, h) \<Rightarrow> let n = h + l + pad_of (l + h) in if n \<le> length bs then Some (take l (drop h bs), n) else None)"

text \<open>
  C31. Whatever the buffer holds, \<open>readString\<close> does what the format says: it gives the string of the bytes before
  the limit and goes past its padding, or, if they are not a whole string, raises the error and gives the
  empty string; then at most the length has been read, and never anything behind the limit.
\<close>

theorem readString_decodes:
  assumes "buf_ok b" "readString error b = (s, error', b')"
  shows "(case dec_string (rest b) of
       Some (t, n) \<Rightarrow> s = t \<and> error' = error \<and> b' = advance n b \<and> n \<le> room b
     | None \<Rightarrow> s = [] \<and> error' = raise error \<and> (\<exists>n \<le> room b. n \<le> 4 \<and> b' = advance n b))"
proof (cases "dec_length (rest b)")
  case None
  then have "s = [] \<and> error' = raise error \<and> b' = advance (min 1 (room b)) b"
    using assms(2) by (simp add: readString_def read_length_dec [OF assms(1)])
  then show ?thesis by (auto simp: dec_string_def None intro!: exI [of _ "min 1 (room b)"])
next
  case (Some lh)
  obtain l h where lh: "lh = (l, h)" by (cases lh)
  have bounds: "l < 2 ^ 24" "h = 1 \<or> h = 4" "h \<le> room b"
    using dec_length_bounds [OF Some [unfolded lh]] length_rest [OF assms(1)] by simp_all
  note a = advance_ok [OF assms(1) bounds(3)]
  have n: "unat (of_nat l :: u32) = l" using bounds(1) by (intro unat_small) simp
  show ?thesis
  proof (cases "h + l + pad_of (l + h) \<le> room b")
    case False
    then have "s = [] \<and> error' = raise error \<and> b' = advance h b"
      using assms(2) by (simp add: readString_def read_length_dec [OF assms(1)] Some lh)
    then show ?thesis using False bounds(2,3) length_rest [OF assms(1)]
      by (auto simp: dec_string_def Some lh Let_def intro!: exI [of _ h])
  next
    case True
    have "rd (unat (buf_position (advance h b))) l (buffer b) = take l (rest (advance h b))"
      using True a(2) by (simp add: rest_def rd_take)
    then have "s = take l (drop h (rest b)) \<and> error' = error \<and> b' = advance (h + l + pad_of (l + h)) b"
      using assms(2) True a(3) by (simp add: readString_def read_length_dec [OF assms(1)] Some lh n advance_def add.assoc)
    then show ?thesis using True length_rest [OF assms(1)] by (simp add: dec_string_def Some lh Let_def)
  qed
qed

definition sample_buffer :: native_buffer where
  "sample_buffer = new_buffer [2, 72, 105, 0, 5, 97, 98, 99] 8"

lemma sample_buffer_ok: "buf_ok sample_buffer"
  by (simp add: sample_buffer_def new_buffer_def buf_ok_def)

theorem readString_decodes_witness:
  "readString (Some False) sample_buffer = ([72, 105], Some False, advance 4 sample_buffer) \<and>
     (\<exists>n b'. readString (Some False) (advance 4 sample_buffer) = ([], Some True, b') \<and> n \<le> 4 \<and> b' = advance n (advance 4 sample_buffer))"
proof
  have r: "room sample_buffer = 8" "rest sample_buffer = [2, 72, 105, 0, 5, 97, 98, 99]"
    by (simp_all add: sample_buffer_def new_buffer_def room_def rest_def rd_def)
  have "dec_string (rest sample_buffer) = Some ([72, 105], 4)" by (simp add: r dec_string_def pad_of_def Let_def)
  then show "readString (Some False) sample_buffer = ([72, 105], Some False, advance 4 sample_buffer)"
    using readString_decodes [OF sample_buffer_ok, of "Some False"]
    by (cases "readString (Some False) sample_buffer") auto
  have "4 \<le> room sample_buffer" by (simp add: r)
  note a = advance_ok [OF sample_buffer_ok this]
  have "dec_string (rest (advance 4 sample_buffer)) = None" by (simp add: a(3) r dec_string_def pad_of_def Let_def)
  then show "\<exists>n b'. readString (Some False) (advance 4 sample_buffer) = ([], Some True, b') \<and> n \<le> 4 \<and> b' = advance n (advance 4 sample_buffer)"
    using readString_decodes [OF a(1), of "Some False"]
    by (cases "readString (Some False) (advance 4 sample_buffer)") (auto simp: raise_def)
qed

end
