(* ===== verification/TlMessage.thy ===== *)
theory TlMessage
  imports ByteBuffer
begin

text \<open>
  Messages of the network protocol as sequences of fields: what a \<open>serializeToStream\<close> of
  \<^verbatim>\<open>app/jni/tgnet\<close> writes with one call after the other, and a \<open>readParams\<close> reads; and
  \<open>TLObject::getObjectSize\<close>, which serialises into a buffer that only counts.
\<close>

section \<open>Fields\<close>

datatype tl_value = Int32 u32 | Int64 u64 | Bool bool | Byte u8 | Str bytes | Double u64 | Raw bytes

datatype tl_kind = KInt32 | KInt64 | KBool | KByte | KStr | KDouble | KRaw nat

fun kind_of :: "tl_value \<Rightarrow> tl_kind" where
  "kind_of (Int32 x) = KInt32"
| "kind_of (Int64 x) = KInt64"
| "kind_of (Bool v) = KBool"
| "kind_of (Byte i) = KByte"
| "kind_of (Str s) = KStr"
| "kind_of (Double d) = KDouble"
| "kind_of (Raw s) = KRaw (length s)"

fun enc_value :: "tl_value \<Rightarrow> bytes" where
  "enc_value (Int32 x) = enc32 x"
| "enc_value (Int64 x) = enc64 x"
| "enc_value (Bool v) = enc_bool v"
| "enc_value (Byte i) = [i]"
| "enc_value (Str s) = enc_string s"
| "enc_value (Double d) = enc64 d"
| "enc_value (Raw s) = s"

text \<open>The length of a byte string has three bytes, that of an array of bytes 32 bits.\<close>

fun valid_value :: "tl_value \<Rightarrow> bool" where
  "valid_value (Str s) \<longleftrightarrow> length s < 2 ^ 24"
| "valid_value (Raw s) \<longleftrightarrow> length s < 2 ^ 31"
| "valid_value _ \<longleftrightarrow> True"

fun put_value :: "tl_value \<Rightarrow> error_flag \<Rightarrow> native_buffer \<Rightarrow> error_flag \<times> native_buffer" where
  "put_value (Int32 x) = writeInt32 x"
| "put_value (Int64 x) = writeInt64 x"
| "put_value (Bool v) = writeBool v"
| "put_value (Byte i) = writeByte i"
| "put_value (Str s) = writeString s"
| "put_value (Double d) = writeDouble d"
| "put_value (Raw s) = writeBytes s 0 (of_nat (length s))"

fun get_value :: "tl_kind \<Rightarrow> error_flag \<Rightarrow> native_buffer \<Rightarrow> tl_value \<times> error_flag \<times> native_buffer" where
  "get_value KInt32 error b = (let (x, r) = readInt32 error b in (Int32 x, r))"
| "get_value KInt64 error b = (let (x, r) = readInt64 error b in (Int64 x, r))"
| "get_value KBool error b = (let (v, r) = readBool error b in (Bool v, r))"
| "get_value KByte error b = (let (i, r) = readByte error b in (Byte i, r))"
| "get_value KStr error b = (let (s, r) = readString error b in (Str s, r))"
| "get_value KDouble error b = (let (d, r) = readDouble error b in (Double d, r))"
| "get_value (KRaw n) error b = (let (s, r) = readBytes (of_nat n) error b in (Raw (case s of None \<Rightarrow> [] | Some s \<Rightarrow> s), r))"

lemmas field_fits = int32.put_fits int64.put_fits byte.put_fits boolean.put_fits double.put_fits tl_string.put_fits
lemmas field_fails = int32.put_fails int64.put_fails byte.put_fails boolean.put_fails double.put_fails tl_string.put_fails
lemmas field_counts = int32.put_counts int64.put_counts byte.put_counts boolean.put_counts double.put_counts tl_string.put_counts
lemmas field_reads = int32.get_enc int64.get_enc byte.get_enc boolean.get_enc double.get_enc tl_string.get_enc

lemma value_field: "tl_field put_value (get_value k) enc_value (\<lambda>v. valid_value v \<and> kind_of v = k)"
proof (unfold_locales, goal_cases)
  case (1 b v error)
  show ?case
  proof (cases v)
    case (Raw s)
    then have "length s < 2 ^ 31" using 1(2) by simp
    from tl_field.put_fits [OF raw_field [OF this] 1(1), of "Some s"] show ?thesis using 1(3) Raw by simp
  qed (use 1 in \<open>simp_all add: field_fits\<close>)
next
  case (2 b v error)
  show ?case
  proof (cases v)
    case (Raw s)
    then have "length s < 2 ^ 31" using 2(2) by simp
    from tl_field.put_fails [OF raw_field [OF this] 2(1), of "Some s"] show ?thesis using 2(3) Raw by simp
  next
    case (Byte i)
    then show ?thesis using byte.put_fails [OF 2(1), of i error] 2(3) by simp
  qed (use 2 in \<open>simp_all add: field_fails\<close>)
next
  case (3 b v error)
  show ?case
  proof (cases v)
    case (Raw s)
    then have "length s < 2 ^ 31" using 3(2) by simp
    from tl_field.put_counts [OF raw_field [OF this] 3(1), of "Some s"] show ?thesis using Raw by simp
  qed (use 3 in \<open>simp_all add: field_counts\<close>)
next
  case (4 b v ys error)
  show ?case
  proof (cases v)
    case (Raw s)
    then have "length s < 2 ^ 31" using 4(2) by simp
    from tl_field.get_enc [OF raw_field [OF this] 4(1), of "Some s" ys error] show ?thesis using 4(2,3) Raw by auto
  qed (use 4 field_reads [OF 4(1)] in auto)
qed

lemmas value_fits = tl_field.put_fits [OF value_field, OF _ conjI [OF _ refl]]
lemmas value_fails = tl_field.put_fails [OF value_field, OF _ conjI [OF _ refl]]
lemmas value_counts = tl_field.put_counts [OF value_field, OF _ conjI [OF _ refl]]
lemmas value_reads = tl_field.get_enc [OF value_field, OF _ conjI [OF _ refl]]

section \<open>Messages\<close>

fun put_values :: "tl_value list \<Rightarrow> error_flag \<Rightarrow> native_buffer \<Rightarrow> error_flag \<times> native_buffer" where
  "put_values [] error b = (error, b)"
| "put_values (v # vs) error b = (let (error, b) = put_value v error b in put_values vs error b)"

fun get_values :: "tl_kind list \<Rightarrow> error_flag \<Rightarrow> native_buffer \<Rightarrow> tl_value list \<times> error_flag \<times> native_buffer" where
  "get_values [] error b = ([], error, b)"
| "get_values (k # ks) error b =
     (let (v, error, b) = get_value k error b; (vs, error, b) = get_values ks error b in (v # vs, error, b))"

definition enc_values :: "tl_value list \<Rightarrow> bytes" where
  "enc_values vs = concat (map enc_value vs)"

lemma enc_values_simps [simp]: "enc_values [] = []" "enc_values (v # vs) = enc_value v @ enc_values vs"
  by (simp_all add: enc_values_def)

abbreviation valid_values :: "tl_value list \<Rightarrow> bool" where
  "valid_values vs \<equiv> \<forall>v \<in> set vs. valid_value v"

lemma raise_raise [simp]: "raise (raise error) = raise error"
  by (cases error) (simp_all add: raise_def)

lemma put_values_fits:
  "buf_ok b \<Longrightarrow> valid_values vs \<Longrightarrow> length (enc_values vs) \<le> room b \<Longrightarrow> put_values vs error b = (error, append_bytes (enc_values vs) b)"
proof (induction vs arbitrary: b)
  case (Cons v vs)
  then have fit: "length (enc_value v) \<le> room b" by simp
  note e = append_bytes_ok [OF Cons.prems(1) fit]
  have "append_bytes (enc_values vs) (append_bytes (enc_value v) b) = append_bytes (enc_values (v # vs)) b"
    using Cons.prems(3) by (simp add: append_bytes_append [OF Cons.prems(1)])
  then show ?case
    using value_fits [OF Cons.prems(1) _ fit, of error] Cons.IH [OF e(1)] Cons.prems(2,3) e(2) by simp
qed simp

lemma get_values_reads:
  "buf_ok b \<Longrightarrow> valid_values vs \<Longrightarrow> rest b = enc_values vs @ ys \<Longrightarrow>
     get_values (map kind_of vs) error b = (vs, error, advance (length (enc_values vs)) b)"
proof (induction vs arbitrary: b)
  case (Cons v vs)
  have r: "rest b = enc_value v @ (enc_values vs @ ys)" using Cons.prems(3) by simp
  then have fit: "length (enc_value v) \<le> room b" using length_rest [OF Cons.prems(1)] by simp
  note a = advance_ok [OF Cons.prems(1) fit]
  have "rest (advance (length (enc_value v)) b) = enc_values vs @ ys" using a(3) r by simp
  from Cons.IH [OF a(1) _ this] show ?case
    using value_reads [OF Cons.prems(1) _ r, of error] Cons.prems(2) by (simp add: advance_advance)
qed simp

lemma put_values_counts:
  "calculateSizeOnly b \<Longrightarrow> valid_values vs \<Longrightarrow> put_values vs error b = (error, count_bytes (of_nat (length (enc_values vs))) b)"
proof (induction vs arbitrary: b)
  case Nil
  then show ?case by (simp add: count_bytes_def)
next
  case (Cons v vs)
  then show ?case using value_counts [OF Cons.prems(1), of v error] by (simp add: count_count)
qed

text \<open>Once something did not fit, the error stays raised, whatever still fits after it.\<close>

lemma put_values_ok:
  "buf_ok b \<Longrightarrow> valid_values vs \<Longrightarrow> put_values vs error b = (error', b') \<Longrightarrow>
     buf_ok b' \<and> buf_limit b' = buf_limit b \<and> (\<exists>bs. behind b' = behind b @ bs) \<and>
     error' = (if length (enc_values vs) \<le> room b then error else raise error)"
proof (induction vs arbitrary: b error)
  case (Cons v vs)
  obtain e1 b1 where p: "put_value v error b = (e1, b1)" by fastforce
  have rest: "put_values vs e1 b1 = (error', b')" using Cons.prems(3) p by simp
  show ?case
  proof (cases "length (enc_value v) \<le> room b")
    case True
    have "(e1, b1) = (error, append_bytes (enc_value v) b)" using value_fits [OF Cons.prems(1) _ True, of error] p Cons.prems(2) by simp
    then show ?thesis using Cons.IH [OF _ _ rest] append_bytes_ok [OF Cons.prems(1) True] Cons.prems(2) True by auto
  next
    case False
    then obtain n where n: "n \<le> room b" "(e1, b1) = (raise error, append_bytes (take n (enc_value v)) b)"
      using value_fails [OF Cons.prems(1), of v error] p Cons.prems(2) by auto
    then have "length (take n (enc_value v)) \<le> room b" by simp
    from append_bytes_ok [OF Cons.prems(1) this] show ?thesis using Cons.IH [OF _ _ rest] n(2) Cons.prems(2) False by auto
  qed
qed auto

section \<open>The size of an object\<close>

text \<open>
  \<open>serialize\<close> is the \<open>serializeToStream\<close> of the object's class; the counting buffer belongs to the thread and keeps
  what the last call left in it.
\<close>

definition getObjectSize :: "(native_buffer \<Rightarrow> native_buffer) \<Rightarrow> native_buffer \<Rightarrow> u32 \<times> native_buffer" where
  "getObjectSize serialize sizeCalculatorBuffer =
     (let sizeCalculatorBuffer = clearCapacity sizeCalculatorBuffer;
          sizeCalculatorBuffer = serialize sizeCalculatorBuffer
      in (buf_capacity sizeCalculatorBuffer, sizeCalculatorBuffer))"

text \<open>The class of the objects that write these fields; the calls pass no error flag.\<close>

definition serialize_values :: "tl_value list \<Rightarrow> native_buffer \<Rightarrow> native_buffer" where
  "serialize_values vs b = snd (put_values vs None b)"

lemma getObjectSize_values:
  assumes "calculateSizeOnly c" "valid_values vs"
  shows "fst (getObjectSize (serialize_values vs) c) = of_nat (length (enc_values vs))"
proof -
  have "calculateSizeOnly (clearCapacity c)" "buf_capacity (clearCapacity c) = 0" using assms(1) by (simp_all add: clearCapacity_def)
  then show ?thesis using put_values_counts [OF _ assms(2)] by (simp add: getObjectSize_def serialize_values_def count_bytes_def)
qed

section \<open>Properties\<close>

text \<open>
  C14. What is written is read back: when the fields fit before the limit, writing them raises no error, and
  reading fields of these kinds from the same position gives them back, raises no error and ends where
  the writing ended.
\<close>

theorem message_round_trip:
  assumes "buf_ok b" "valid_values vs" "length (enc_values vs) \<le> room b" "put_values vs error b = (error', b')"
  shows "error' = error \<and> get_values (map kind_of vs) error (set_position (buf_position b) b') = (vs, error, b')"
proof -
  have b': "error' = error" "b' = append_bytes (enc_values vs) b"
    using put_values_fits [OF assms(1-3), of error] assms(4) by simp_all
  let ?c = "set_position (buf_position b) b'"
  have c: "?c = b\<lparr>buffer := wr (unat (buf_position b)) (enc_values vs) (buffer b)\<rparr>"
    unfolding b'(2) by (rule set_position_extend [OF assms(1)])
  have "buf_ok ?c" "rest ?c = enc_values vs @ drop (length (enc_values vs)) (rest b)"
    unfolding c by (rule overwritten [OF assms(1,3)])+
  from get_values_reads [OF this(1) assms(2) this(2), of error] have
    "get_values (map kind_of vs) error ?c = (vs, error, advance (length (enc_values vs)) ?c)" .
  moreover have "advance (length (enc_values vs)) ?c = b'" unfolding c by (simp add: b'(2) advance_def append_bytes_def)
  ultimately show ?thesis by (simp add: b'(1))
qed

definition sample_message :: "tl_value list" where
  "sample_message = [Int32 0xb5890dba, Str [104, 105], Bool True, Raw [1, 2, 3]]"

theorem message_round_trip_witness:
  "\<exists>b'. put_values sample_message (Some False) (new_buffer (replicate 20 0) 20) = (Some False, b') \<and>
     get_values (map kind_of sample_message) (Some False) (set_position 0 b') = (sample_message, Some False, b')"
proof -
  let ?b = "new_buffer (replicate 20 0) 20"
  have b: "buf_ok ?b" "buf_position ?b = 0" "room ?b = 20" by (simp_all add: new_buffer_def buf_ok_def room_def)
  have "valid_values sample_message" "length (enc_values sample_message) \<le> room ?b"
    unfolding b(3) by (simp_all add: sample_message_def enc_string_def prefix_of_def pad_of_def)
  from message_round_trip [OF b(1) this prod.collapse [symmetric], of "Some False"] show ?thesis
    unfolding b(2) by (intro exI [of _ "snd (put_values sample_message (Some False) ?b)"]) (simp add: prod_eq_iff)
qed

text \<open>
  Writing never leaves the buffer: whatever the fields, and whether they fit or not, the marks stay in order,
  the limit stays where it was, nothing behind the old position changes; and the error is raised exactly
  when all the fields together do not fit.
\<close>

theorem put_values_safe:
  assumes "buf_ok b" "valid_values vs" "put_values vs (Some False) b = (error', b')"
  shows "buf_ok b' \<and> buf_limit b' = buf_limit b \<and> take (length (behind b)) (behind b') = behind b \<and>
    (error' = Some True \<longleftrightarrow> room b < length (enc_values vs))"
  using put_values_ok [OF assms] by (auto simp: raise_def)

theorem put_values_safe_witness:
  "\<exists>error' b'. put_values [Int32 7, Str [1, 2, 3, 4, 5]] (Some False) (new_buffer (replicate 10 0) 10) = (error', b') \<and>
     error' = Some True \<and> buf_ok b'"
proof -
  let ?vs = "[Int32 7, Str [1, 2, 3, 4, 5]]" and ?b = "new_buffer (replicate 10 0) 10"
  have "buf_ok ?b" "room ?b = 10" by (simp_all add: new_buffer_def buf_ok_def room_def)
  moreover have "valid_values ?vs" "length (enc_values ?vs) = 12"
    by (simp_all add: enc_string_def prefix_of_def pad_of_def)
  ultimately show ?thesis using put_values_safe [of ?b ?vs]
    by (cases "put_values ?vs (Some False) ?b") (simp del: put_values.simps)
qed

end
