(* ===== verification/BuffersStorage.thy ===== *)
theory BuffersStorage
  imports TlMessage
begin

text \<open>
  The pools of free buffers, \<^verbatim>\<open>app/jni/tgnet/BuffersStorage.cpp\<close>, and the operations of \<open>NativeByteBuffer\<close> that
  use them.  The mutex around the pools is left out: every access is one step here.
\<close>

section \<open>The pools\<close>

text \<open>The names of the seven vectors; the state is what each of them holds.\<close>

datatype pool = FreeBuffers8 | FreeBuffers128 | FreeBuffers1024 | FreeBuffers4096 | FreeBuffers16384 |
  FreeBuffers32768 | FreeBuffersBig

type_synonym buffers_storage = "pool \<Rightarrow> native_buffer list"

text \<open>\<open>fresh n\<close> is what \<open>n\<close> bytes of new memory hold.\<close>

definition new_storage :: "(nat \<Rightarrow> bytes) \<Rightarrow> buffers_storage" where
  "new_storage fresh =
     (\<lambda>_. [])(FreeBuffers8 := replicate 4 (new_buffer (fresh 8) 8), FreeBuffers128 := replicate 5 (new_buffer (fresh 128) 128))"

text \<open>The pool for a request, and the size of its buffers.\<close>

definition pool_to_get_from :: "u32 \<Rightarrow> (pool \<times> u32) option" where
  "pool_to_get_from sz =
     (if sz \<le> 8 then Some (FreeBuffers8, 8)
      else if sz \<le> 128 then Some (FreeBuffers128, 128)
      else if sz \<le> 1024 + 200 then Some (FreeBuffers1024, 1024 + 200)
      else if sz \<le> 4096 + 200 then Some (FreeBuffers4096, 4096 + 200)
      else if sz \<le> 16384 + 200 then Some (FreeBuffers16384, 16384 + 200)
      else if sz \<le> 40000 then Some (FreeBuffers32768, 40000)
      else if sz \<le> 160000 then Some (FreeBuffersBig, 160000)
      else None)"

definition getFreeBuffer :: "(nat \<Rightarrow> bytes) \<Rightarrow> u32 \<Rightarrow> buffers_storage \<Rightarrow> native_buffer \<times> buffers_storage" where
  "getFreeBuffer fresh sz st =
     (let (b, st) =
            (case pool_to_get_from sz of
               None \<Rightarrow> (new_buffer (fresh (unat sz)) sz, st)
             | Some (arrayToGetFrom, byteCount) \<Rightarrow>
                 (case st arrayToGetFrom of
                    [] \<Rightarrow> (new_buffer (fresh (unat byteCount)) byteCount, st)
                  | b # bs \<Rightarrow> (b, st(arrayToGetFrom := bs))))
      in (rewind (set_limit sz b), st))"

text \<open>The pool that takes a buffer of a capacity back, and how many it holds at most.\<close>

definition pool_to_reuse :: "u32 \<Rightarrow> pool option" where
  "pool_to_reuse capacity =
     (if capacity = 8 then Some FreeBuffers8
      else if capacity = 128 then Some FreeBuffers128
      else if capacity = 1024 + 200 then Some FreeBuffers1024
      else if capacity = 4096 + 200 then Some FreeBuffers4096
      else if capacity = 16384 + 200 then Some FreeBuffers16384
      else if capacity = 40000 then Some FreeBuffers32768
      else if capacity = 160000 then Some FreeBuffersBig
      else None)"

definition maxCount :: "u32 \<Rightarrow> nat" where
  "maxCount capacity = (if capacity = 8 \<or> capacity = 128 then 80 else 10)"

text \<open>A buffer that no pool takes is deleted.\<close>

definition reuseFreeBuffer :: "native_buffer \<Rightarrow> buffers_storage \<Rightarrow> buffers_storage" where
  "reuseFreeBuffer b st =
     (case pool_to_reuse (buf_capacity b) of
        None \<Rightarrow> st
      | Some arrayToReuse \<Rightarrow>
          if length (st arrayToReuse) < maxCount (buf_capacity b)
          then st(arrayToReuse := st arrayToReuse @ [b]) else st)"

section \<open>The operations of a buffer that use the pools\<close>

definition reuse :: "native_buffer \<Rightarrow> buffers_storage \<Rightarrow> buffers_storage" where
  "reuse b st = (if sliced b then st else reuseFreeBuffer b st)"

text \<open>
  A byte array as a buffer of its own: a copy in a free buffer, or a slice of the memory.  A slice is given the
  bytes here, it shares them in the code.
\<close>

definition readByteBuffer ::
    "(nat \<Rightarrow> bytes) \<Rightarrow> bool \<Rightarrow> error_flag \<Rightarrow> native_buffer \<Rightarrow> buffers_storage \<Rightarrow>
       native_buffer option \<times> error_flag \<times> native_buffer \<times> buffers_storage" where
  "readByteBuffer fresh copy error b st =
     (case read_length b of
        (None, b) \<Rightarrow> (None, raise error, b, st)
      | (Some (l, addition), b) \<Rightarrow>
          let content = rd (unat (buf_position b)) (unat l) (buffer b);
              (result, st) = (if copy
                              then (let (r, st) = getFreeBuffer fresh l st in (r\<lparr>buffer := wr 0 content (buffer r)\<rparr>, st))
                              else (new_slice content l, st))
          in (Some result, error, b\<lparr>buf_position := buf_position b + (l + addition)\<rparr>, st))"

section \<open>The invariant of the pools\<close>

fun pool_size :: "pool \<Rightarrow> u32" where
  "pool_size FreeBuffers8 = 8"
| "pool_size FreeBuffers128 = 128"
| "pool_size FreeBuffers1024 = 1224"
| "pool_size FreeBuffers4096 = 4296"
| "pool_size FreeBuffers16384 = 16584"
| "pool_size FreeBuffers32768 = 40000"
| "pool_size FreeBuffersBig = 160000"

text \<open>Every pool holds whole buffers of its own size, and not too many.\<close>

definition storage_ok :: "buffers_storage \<Rightarrow> bool" where
  "storage_ok st \<longleftrightarrow>
     (\<forall>p. length (st p) \<le> maxCount (pool_size p) \<and> (\<forall>b \<in> set (st p). buf_ok b \<and> \<not> sliced b \<and> buf_capacity b = pool_size p))"

lemma new_buffer_ok: "unat n < 2 ^ 31 \<Longrightarrow> unat n \<le> length memory \<Longrightarrow> buf_ok (new_buffer memory n)"
  by (simp add: new_buffer_def buf_ok_def min_def)

lemma new_buffer_fields [simp]:
  "buf_capacity (new_buffer memory n) = n" "\<not> sliced (new_buffer memory n)"
  by (simp_all add: new_buffer_def)

lemma new_storage_ok: "(\<And>n. length (fresh n) = n) \<Longrightarrow> storage_ok (new_storage fresh)"
  by (auto simp: storage_ok_def new_storage_def maxCount_def intro!: new_buffer_ok)

lemma pool_to_get_fromD: "pool_to_get_from sz = Some (p, n) \<Longrightarrow> n = pool_size p \<and> sz \<le> n \<and> unat n < 2 ^ 31"
  by (auto simp: pool_to_get_from_def split: if_splits)

lemma pool_to_reuseD: "pool_to_reuse c = Some p \<Longrightarrow> c = pool_size p"
  by (auto simp: pool_to_reuse_def split: if_splits)

lemma set_limit_ok:
  assumes "buf_ok b" "l \<le> buf_capacity b"
  shows "buf_ok (rewind (set_limit l b))" "room (rewind (set_limit l b)) = unat l"
    "buf_limit (rewind (set_limit l b)) = l" "buf_position (rewind (set_limit l b)) = 0"
  using assms by (auto simp: set_limit_def rewind_def buf_ok_def room_def Let_def)

lemma set_limit_fields [simp]:
  "buf_capacity (rewind (set_limit l b)) = buf_capacity b" "sliced (rewind (set_limit l b)) = sliced b"
  by (simp_all add: set_limit_def rewind_def Let_def)

lemma storage_ok_pool:
  assumes "storage_ok st" "st p = c # cs"
  shows "buf_ok c" "\<not> sliced c" "buf_capacity c = pool_size p" "storage_ok (st(p := cs))"
proof -
  have p: "length (st p) \<le> maxCount (pool_size p)" "\<forall>b \<in> set (st p). buf_ok b \<and> \<not> sliced b \<and> buf_capacity b = pool_size p"
    using assms(1) by (simp_all add: storage_ok_def)
  then show "buf_ok c" "\<not> sliced c" "buf_capacity c = pool_size p" by (simp_all add: assms(2))
  show "storage_ok (st(p := cs))" using assms(1) p unfolding storage_ok_def by (simp add: assms(2))
qed

lemma getFreeBuffer_ok:
  assumes st: "storage_ok st" and sz: "unat sz < 2 ^ 31" and fresh: "\<And>n. length (fresh n) = n"
    and get: "getFreeBuffer fresh sz st = (b, st')"
  shows "storage_ok st' \<and> buf_ok b \<and> buf_position b = 0 \<and> buf_limit b = sz \<and> room b = unat sz \<and> \<not> sliced b"
proof -
  have "\<exists>c. b = rewind (set_limit sz c) \<and> buf_ok c \<and> sz \<le> buf_capacity c \<and> \<not> sliced c \<and> storage_ok st'"
  proof (cases "pool_to_get_from sz")
    case None
    then show ?thesis using get st sz fresh by (auto simp: getFreeBuffer_def intro!: new_buffer_ok)
  next
    case (Some pn)
    obtain p n where pn: "pn = (p, n)" by (cases pn)
    note d = pool_to_get_fromD [OF Some [unfolded pn]]
    show ?thesis
    proof (cases "st p")
      case Nil
      then show ?thesis using get st d fresh by (auto simp: getFreeBuffer_def Some pn intro!: new_buffer_ok)
    next
      case (Cons c cs)
      from storage_ok_pool [OF st this] show ?thesis using get d Cons by (auto simp: getFreeBuffer_def Some pn)
    qed
  qed
  then show ?thesis using set_limit_ok by auto
qed

lemma reuse_ok:
  assumes "storage_ok st" "buf_ok b"
  shows "storage_ok (reuse b st)"
proof (cases "sliced b \<or> pool_to_reuse (buf_capacity b) = None")
  case True
  then show ?thesis using assms(1) by (auto simp: reuse_def reuseFreeBuffer_def)
next
  case False
  then obtain p where p: "pool_to_reuse (buf_capacity b) = Some p" "\<not> sliced b" by auto
  show ?thesis using assms p pool_to_reuseD [OF p(1)]
    by (auto simp: reuse_def reuseFreeBuffer_def storage_ok_def)
qed

section \<open>Properties\<close>

text \<open>
  C32. The pools keep their promise: whatever buffers were given back to them, a request is answered by a buffer
  of exactly the size asked for, empty and not a slice, and the pools stay within their counts and sizes,
  also when it comes back in any later state.
\<close>

theorem getFreeBuffer_serves:
  assumes "storage_ok st" "unat sz < 2 ^ 31" "\<forall>n. length (fresh n) = n" "getFreeBuffer fresh sz st = (b, st')"
  shows "storage_ok st' \<and> buf_ok b \<and> buf_position b = 0 \<and> buf_limit b = sz \<and> sz \<le> buf_capacity b \<and> \<not> sliced b \<and>
    (\<forall>st'' c. storage_ok st'' \<and> buf_ok c \<longrightarrow> storage_ok (reuse c st''))"
  using getFreeBuffer_ok [OF assms(1,2) _ assms(4)] assms(3) reuse_ok by (auto simp: buf_ok_def)

definition zeros :: "nat \<Rightarrow> bytes" where
  "zeros n = replicate n 0"

lemma zeros_storage: "storage_ok (new_storage zeros)"
  by (rule new_storage_ok) (simp add: zeros_def)

theorem getFreeBuffer_serves_witness:
  "buf_limit (fst (getFreeBuffer zeros 5 (new_storage zeros))) = 5 \<and>
     storage_ok (reuse (fst (getFreeBuffer zeros 5 (new_storage zeros))) (snd (getFreeBuffer zeros 5 (new_storage zeros))))"
  using getFreeBuffer_serves [OF zeros_storage, of 5 zeros] by (simp add: zeros_def prod_eq_iff)

text \<open>
  C15. An object is serialised into a buffer of its size: \<open>getObjectSize\<close> counts, with whatever its buffer held, the
  bytes that the object's fields take; a buffer of this size from the pools takes all of them without an
  error, is then full, and holds these bytes.
\<close>

theorem object_fits_its_size:
  assumes "storage_ok st" "\<forall>n. length (fresh n) = n" "calculateSizeOnly c"
    and "valid_values vs" "length (enc_values vs) < 2 ^ 31"
    and "getObjectSize (serialize_values vs) c = (sz, c')" "getFreeBuffer fresh sz st = (b, st')"
  shows "\<exists>b'. put_values vs error b = (error, b') \<and> \<not> hasRemaining b' \<and> behind b' = enc_values vs \<and> unat sz = length (enc_values vs)"
proof -
  have "sz = of_nat (length (enc_values vs))" using getObjectSize_values [OF assms(3,4)] assms(6) by simp
  then have sz: "unat sz = length (enc_values vs)" using assms(5) by (simp add: unat_small)
  then have "unat sz < 2 ^ 31" using assms(5) by simp
  from getFreeBuffer_ok [OF assms(1) this _ assms(7)] assms(2)
  have b: "buf_ok b" "buf_position b = 0" "room b = length (enc_values vs)" by (simp_all add: sz)
  then have fit: "length (enc_values vs) \<le> room b" by simp
  note e = append_bytes_ok [OF b(1) fit]
  have "\<not> hasRemaining (append_bytes (enc_values vs) b)" using e(2) buf_okD(6) [OF e(1)] b(3)
    by (simp add: hasRemaining_def word_less_nat_alt)
  moreover have "behind b = []" by (simp add: behind_def b(2))
  ultimately show ?thesis using put_values_fits [OF b(1) assms(4) fit, of error] e(3) sz by auto
qed

theorem object_fits_its_size_witness:
  "\<exists>b'. put_values sample_message (Some False) (fst (getFreeBuffer zeros 15 (new_storage zeros))) = (Some False, b') \<and>
     \<not> hasRemaining b' \<and> behind b' = enc_values sample_message"
proof -
  let ?c = "(new_calculator True)\<lparr>buf_capacity := 99\<rparr>"
  have v: "valid_values sample_message" "length (enc_values sample_message) = 15"
    by (simp_all add: sample_message_def enc_string_def prefix_of_def pad_of_def)
  have c: "calculateSizeOnly ?c" by (simp add: new_calculator_def)
  have "fst (getObjectSize (serialize_values sample_message) ?c) = 15"
    using getObjectSize_values [OF c v(1)] by (simp add: v(2))
  then obtain c' where "getObjectSize (serialize_values sample_message) ?c = (15, c')"
    by (cases "getObjectSize (serialize_values sample_message) ?c") simp
  from object_fits_its_size [OF zeros_storage _ c v(1) _ this prod.collapse [symmetric], of zeros "Some False"] v(2)
  show ?thesis by (auto simp: zeros_def)
qed

end
