(* ===== verification/ByteStream.thy ===== *)
theory ByteStream
  imports BuffersStorage
begin

text \<open>
  The queue of outgoing buffers of a connection, \<^verbatim>\<open>app/jni/tgnet/ByteStream.cpp\<close>: the socket takes what fits into
  one buffer with \<open>get\<close>, sends some of it, and discards as much as was sent.
\<close>

section \<open>The queue\<close>

type_synonym byte_stream = "native_buffer list"

definition append_buffer :: "native_buffer option \<Rightarrow> byte_stream \<Rightarrow> byte_stream" where
  "append_buffer b buffersQueue = (case b of None \<Rightarrow> buffersQueue | Some b \<Rightarrow> buffersQueue @ [b])"

definition hasData :: "byte_stream \<Rightarrow> bool" where
  "hasData buffersQueue = list_ex hasRemaining buffersQueue"

text \<open>The loop of \<open>get\<close> over the queue; the buffers of the queue stay as they are.\<close>

fun get_loop :: "native_buffer list \<Rightarrow> native_buffer \<Rightarrow> native_buffer" where
  "get_loop [] dst = dst"
| "get_loop (b # bs) dst =
     (if remaining b > remaining dst
      then snd (writeBytes (buffer b) (buf_position b) (remaining dst) None dst)
      else let dst = snd (writeBytes (buffer b) (buf_position b) (remaining b) None dst)
           in if \<not> hasRemaining dst then dst else get_loop bs dst)"

definition get_bytes :: "byte_stream \<Rightarrow> native_buffer option \<Rightarrow> native_buffer option" where
  "get_bytes buffersQueue dst = (case dst of None \<Rightarrow> None | Some dst \<Rightarrow> Some (get_loop buffersQueue dst))"

text \<open>Whole buffers go back to the pools, the last one keeps what was not sent.\<close>

fun discard :: "u32 \<Rightarrow> byte_stream \<Rightarrow> buffers_storage \<Rightarrow> byte_stream \<times> buffers_storage" where
  "discard count [] st = ([], st)"
| "discard count (b # bs) st =
     (if count > 0
      then if count < remaining b then (set_position (buf_position b + count) b # bs, st)
           else discard (count - remaining b) bs (reuse b st)
      else (b # bs, st))"

definition clean :: "byte_stream \<Rightarrow> buffers_storage \<Rightarrow> byte_stream \<times> buffers_storage" where
  "clean buffersQueue st = ([], foldl (\<lambda>st b. reuse b st) st buffersQueue)"

section \<open>The bytes that are still to be sent\<close>

definition stream_bytes :: "byte_stream \<Rightarrow> bytes" where
  "stream_bytes buffersQueue = concat (map rest buffersQueue)"

abbreviation stream_ok :: "byte_stream \<Rightarrow> bool" where
  "stream_ok buffersQueue \<equiv> \<forall>b \<in> set buffersQueue. buf_ok b"

lemma stream_bytes_simps [simp]:
  "stream_bytes [] = []" "stream_bytes (b # bs) = rest b @ stream_bytes bs"
  "stream_bytes (bs @ cs) = stream_bytes bs @ stream_bytes cs"
  by (simp_all add: stream_bytes_def)

lemma unat_remaining: "buf_ok b \<Longrightarrow> unat (remaining b) = room b"
  using buf_okD [of b] by (simp add: remaining_def room_def unat_sub word_le_nat_alt)

lemma hasRemaining_room: "buf_ok b \<Longrightarrow> hasRemaining b \<longleftrightarrow> 0 < room b"
  using buf_okD [of b] by (simp add: hasRemaining_def word_less_nat_alt room_def)

lemma hasData_bytes: "stream_ok q \<Longrightarrow> hasData q \<longleftrightarrow> stream_bytes q \<noteq> []"
proof (induction q)
  case (Cons b q)
  then have "buf_ok b" by simp
  then have "hasRemaining b \<longleftrightarrow> rest b \<noteq> []"
    using hasRemaining_room [of b] length_rest [of b] by (simp add: length_greater_0_conv [symmetric] del: length_greater_0_conv)
  then show ?case using Cons by (auto simp: hasData_def)
qed (simp add: hasData_def)

text \<open>Writing some of what remains of another buffer.\<close>

lemma write_rest:
  assumes "buf_ok b" "buf_ok dst" "unat n \<le> room b" "unat n \<le> room dst"
  shows "writeBytes (buffer b) (buf_position b) n error dst = (error, append_bytes (take (unat n) (rest b)) dst)"
proof -
  have l: "unat (buf_position b) + unat n \<le> length (buffer b)" using buf_okD [OF assms(1)] assms(3) by linarith
  have n: "unat n < 2 ^ 31" using buf_okD [OF assms(1)] assms(3) by simp
  have "rd (unat (buf_position b)) (unat n) (buffer b) = take (unat n) (rest b)"
    using assms(3) by (simp add: rest_def rd_take)
  then show ?thesis
    using over_limit [OF assms(2) n] writeBytesInternal_extend [OF assms(2,4) l] buf_okD(1) [OF assms(2)] assms(4)
    by (simp add: writeBytes_def)
qed

lemma get_loop_bytes:
  "stream_ok q \<Longrightarrow> buf_ok dst \<Longrightarrow> get_loop q dst = append_bytes (take (room dst) (stream_bytes q)) dst"
proof (induction q arbitrary: dst)
  case (Cons b q)
  then have b: "buf_ok b" by simp
  note r = unat_remaining [OF b] unat_remaining [OF Cons.prems(2)] length_rest [OF b]
  show ?case
  proof (cases "remaining b > remaining dst")
    case True
    then have "room dst < room b" by (simp add: word_less_nat_alt r)
    then show ?thesis using True write_rest [OF b Cons.prems(2), of "remaining dst" None] by (simp add: r)
  next
    case False
    then have fit: "room b \<le> room dst" by (simp add: word_less_nat_alt r)
    then have w: "writeBytes (buffer b) (buf_position b) (remaining b) None dst = (None, append_bytes (rest b) dst)"
      using write_rest [OF b Cons.prems(2), of "remaining b" None] by (simp add: r)
    have fit': "length (rest b) \<le> room dst" using fit r(3) by simp
    note e = append_bytes_ok [OF Cons.prems(2) fit']
    show ?thesis
    proof (cases "hasRemaining (append_bytes (rest b) dst)")
      case False
      then have "room dst = room b" using hasRemaining_room [OF e(1)] e(2) r(3) fit by simp
      then show ?thesis using False \<open>\<not> remaining b > remaining dst\<close> r(3) by (simp add: w)
    next
      case True
      have "length (rest b) + length (take (room dst - room b) (stream_bytes q)) \<le> room dst" using fit r(3) by simp
      from append_bytes_append [OF Cons.prems(2) this]
      have "get_loop q (append_bytes (rest b) dst) = append_bytes (rest b @ take (room dst - room b) (stream_bytes q)) dst"
        using Cons.IH [OF _ e(1)] Cons.prems(1) e(2) r(3) by simp
      then show ?thesis using True \<open>\<not> remaining b > remaining dst\<close> fit r(3) by (simp add: w)
    qed
  qed
qed simp

lemma discard_bytes:
  "stream_ok q \<Longrightarrow> storage_ok st \<Longrightarrow> discard count q st = (q', st') \<Longrightarrow>
     stream_ok q' \<and> stream_bytes q' = drop (unat count) (stream_bytes q) \<and> storage_ok st'"
proof (induction count q st arbitrary: q' st' rule: discard.induct)
  case (2 count b q st)
  then have b: "buf_ok b" by simp
  note r = unat_remaining [OF b] length_rest [OF b]
  show ?case
  proof (cases "count = 0")
    case True
    then show ?thesis using 2 by auto
  next
    case False
    then have pos: "count > 0" by (simp add: word_greater_zero_iff)
    show ?thesis
    proof (cases "count < remaining b")
      case True
      then have c: "unat count < room b" by (simp add: word_less_nat_alt r)
      then have "\<not> buf_position b + count > buf_limit b" using over_limit [OF b, of count] buf_okD [OF b] by simp
      then have s: "set_position (buf_position b + count) b = advance (unat count) b"
        by (simp add: set_position_def advance_def)
      note a = advance_ok [OF b, of "unat count"]
      show ?thesis using 2(2-4) True pos c s a r(2) by auto
    next
      case less: False
      then have "unat (count - remaining b) = unat count - room b" "room b \<le> unat count"
        by (simp_all add: word_less_nat_alt r unat_sub word_le_nat_alt)
      moreover have "storage_ok (reuse b st)" by (rule reuse_ok [OF 2(3) b])
      moreover have "discard (count - remaining b) q (reuse b st) = (q', st')" using 2(4) pos less by simp
      ultimately show ?thesis using 2(1) [OF pos less, of q' st'] 2(2) r(2) by simp
    qed
  qed
qed auto

end
