(* ===== verification/ChunkedStream.thy ===== *)
theory ChunkedStream
  imports Prelude
begin

text \<open>
  The contract of a reader that is given a stream in chunks, as the network cuts it: it keeps the incomplete end of what it was
  given and goes on with it.  The socket reads TLS records like this, and the connection packets.
\<close>

text \<open>The chunks one after the other, until the reader ends.\<close>

fun read_chunks ::
    "('s \<Rightarrow> 'c \<Rightarrow> ('e list \<times> 's) option) \<Rightarrow> ('e list \<Rightarrow> 's \<Rightarrow> bool) \<Rightarrow> 'c list \<Rightarrow> 's \<Rightarrow> ('e list \<times> 's) option" where
  "read_chunks recv ends [] s = Some ([], s)"
| "read_chunks recv ends (c # cs) s =
     (case recv s c of
        None \<Rightarrow> None
      | Some (out, s) \<Rightarrow>
          if ends out s then Some (out, s)
          else case read_chunks recv ends cs s of None \<Rightarrow> None | Some (out', s) \<Rightarrow> Some (out @ out', s))"

text \<open>
  \<open>plain a xs\<close> is what the bytes \<open>xs\<close> mean at place \<open>a\<close> of the stream.  \<open>parse\<close> gives the items in a stream and how it ends; from
  \<open>open_end\<close> on more bytes can follow.  \<open>fine\<close> excludes streams for which nothing is promised.  \<open>holds a s q\<close>: at place \<open>a\<close> the reader
  is in the state \<open>s\<close> and keeps \<open>q\<close>.
\<close>

locale stream_reader =
  fixes recv :: "'s \<Rightarrow> 'c \<Rightarrow> ('e list \<times> 's) option" and ends :: "'e list \<Rightarrow> 's \<Rightarrow> bool"
    and content :: "'c \<Rightarrow> bytes" and valid :: "'c \<Rightarrow> bool" and plain :: "nat \<Rightarrow> bytes \<Rightarrow> bytes"
    and parse :: "bytes \<Rightarrow> 'e list \<times> 'l" and open_end :: "'l \<Rightarrow> bytes option" and fine :: "'e list \<times> 'l \<Rightarrow> bool"
    and holds :: "nat \<Rightarrow> 's \<Rightarrow> bytes \<Rightarrow> bool"
  assumes plain_append: "plain a (xs @ ys) = plain a xs @ plain (a + length xs) ys"
    and parse_append: "parse xs = (es, l) \<Longrightarrow> parse (xs @ ys) =
      (case open_end l of Some r \<Rightarrow> (let (es', l') = parse (r @ ys) in (es @ es', l')) | None \<Rightarrow> (es, l))"
    and fine_parts: "parse xs = (es, l) \<Longrightarrow> fine (parse (xs @ ys)) \<Longrightarrow>
      fine (es, l) \<and> (case open_end l of Some r \<Rightarrow> fine (parse (r @ ys)) | None \<Rightarrow> True)"
    and holds_parse: "holds a s q \<Longrightarrow> parse q = (es, l) \<Longrightarrow> es = [] \<and> open_end l = Some q"
    and recv_parse: "holds a s q \<Longrightarrow> valid c \<Longrightarrow> parse (q @ plain a (content c)) = (es, l) \<Longrightarrow> fine (es, l) \<Longrightarrow>
      \<exists>s'. recv s c = Some (es, s') \<and> (ends es s' \<longleftrightarrow> open_end l = None) \<and>
        (case open_end l of Some r \<Rightarrow> holds (a + length (content c)) s' r | None \<Rightarrow> True)"
begin

text \<open>However the stream is cut, the items are those of the whole stream, and its end is kept.\<close>

lemma any_chunks:
  "holds a s q \<Longrightarrow> \<forall>c \<in> set cs. valid c \<Longrightarrow> parse (q @ plain a (concat (map content cs))) = (es, l) \<Longrightarrow> fine (es, l) \<Longrightarrow>
    \<exists>s'. read_chunks recv ends cs s = Some (es, s') \<and>
      (case open_end l of Some r \<Rightarrow> holds (a + length (concat (map content cs))) s' r | None \<Rightarrow> \<exists>es'. ends es' s')"
proof (induction cs arbitrary: a s q es)
  case Nil
  have "plain a [] = []" using plain_append [of a "[]" "[]"] by simp
  then have "parse q = (es, l)" using Nil.prems(3) by simp
  from holds_parse [OF Nil.prems(1) this] have "es = []" "open_end l = Some q" by simp_all
  then show ?case using Nil.prems(1) by simp
next
  case (Cons c cs)
  let ?more = "plain (a + length (content c)) (concat (map content cs))"
  obtain es1 l1 where p: "parse (q @ plain a (content c)) = (es1, l1)" by fastforce
  have all: "parse ((q @ plain a (content c)) @ ?more) = (es, l)" using Cons.prems(3) by (simp add: plain_append)
  then have "fine (parse ((q @ plain a (content c)) @ ?more))" using Cons.prems(4) by (simp only:)
  from fine_parts [OF p this] have f: "fine (es1, l1)" and more: "case open_end l1 of Some r \<Rightarrow> fine (parse (r @ ?more)) | None \<Rightarrow> True"
    by (rule conjunct1, rule conjunct2)
  have "valid c" using Cons.prems(2) by simp
  from recv_parse [OF Cons.prems(1) this p f] obtain s1 where s1: "recv s c = Some (es1, s1)" "ends es1 s1 \<longleftrightarrow> open_end l1 = None"
    "case open_end l1 of Some r \<Rightarrow> holds (a + length (content c)) s1 r | None \<Rightarrow> True" by (elim exE conjE)
  show ?case
  proof (cases "open_end l1")
    case None
    then have "es = es1" "l = l1" using all parse_append [OF p, of ?more] by simp_all
    then have "read_chunks recv ends (c # cs) s = Some (es, s1)" "ends es s1" "open_end l = None" using s1 None by simp_all
    then show ?thesis by auto
  next
    case (Some r)
    obtain es2 where es2: "parse (r @ ?more) = (es2, l)" "es = es1 @ es2"
      using all parse_append [OF p, of ?more] Some by (auto split: prod.splits)
    have "holds (a + length (content c)) s1 r" "fine (es2, l)" using s1(3) more Some es2(1) by simp_all
    from Cons.IH [OF this(1) _ es2(1) this(2)] Cons.prems(2) obtain s2 where
      s2: "read_chunks recv ends cs s1 = Some (es2, s2)"
        "case open_end l of Some r \<Rightarrow> holds (a + length (content c) + length (concat (map content cs))) s2 r | None \<Rightarrow> \<exists>es'. ends es' s2" by auto
    have "read_chunks recv ends (c # cs) s = Some (es, s2)" using s1(1,2) Some s2(1) es2(2) by simp
    moreover have "a + length (concat (map content (c # cs))) = a + length (content c) + length (concat (map content cs))" by simp
    ultimately show ?thesis using s2(2) by (simp only:) blast
  qed
qed

end

end
