(* ===== verification/Socket.thy ===== *)
theory Socket
  imports ByteStream ChunkedStream
begin

text \<open>
  The socket of a connection, \<^verbatim>\<open>app/jni/tgnet/ConnectionSocket.cpp\<close>: how \<open>onEvent\<close> sends the queue, plainly or in
  TLS records, how it takes the records of the other side apart, and the SOCKS5 handshake with a proxy.  What
  \<open>send\<close> accepts and what the connection does with the data are parameters.
\<close>

unbundle bit_operations_syntax

section \<open>The state\<close>

record socket =
  outgoingByteStream :: byte_stream
  tlsBuffer :: "native_buffer option"
  tlsBufferSized :: bool
  tlsState :: nat
  proxyAuthState :: nat
  onConnectedSent :: bool
  socket_open :: bool
  storage :: buffers_storage

definition closeSocket :: "socket \<Rightarrow> socket" where
  "closeSocket s =
     (let s = s\<lparr>socket_open := False, proxyAuthState := 0, tlsState := 0, onConnectedSent := False\<rparr>;
          (q, st) = clean (outgoingByteStream s) (storage s);
          s = s\<lparr>outgoingByteStream := q, storage := st\<rparr>
      in case tlsBuffer s of None \<Rightarrow> s | Some t \<Rightarrow> s\<lparr>storage := reuse t (storage s), tlsBuffer := None\<rparr>)"

definition writeBuffer :: "native_buffer \<Rightarrow> socket \<Rightarrow> socket" where
  "writeBuffer b s = s\<lparr>outgoingByteStream := append_buffer (Some b) (outgoingByteStream s)\<rparr>"

section \<open>Sending\<close>

definition record_header :: bytes where
  "record_header = [0x17, 0x03, 0x03]"

definition change_cipher_spec :: bytes where
  "change_cipher_spec = [0x14, 0x03, 0x03, 0x00, 0x01, 0x01]"

text \<open>
  What \<open>EPOLLOUT\<close> does when no handshake is going on.  \<open>send\<close> gives the number of bytes that it took, or -1; the
  result is what went out.  In a record, the number is compared as a \<open>size_t\<close>.
\<close>

definition send_queue :: "(bytes \<Rightarrow> int) \<Rightarrow> native_buffer \<Rightarrow> socket \<Rightarrow> bytes \<times> socket" where
  "send_queue send networkBuffer s =
     (let b = clear networkBuffer;
          b = get_loop (outgoingByteStream s) b;
          b = flip b;
          remaining = remaining b
      in if remaining = 0 then ([], s)
         else if tlsState s \<noteq> 0
         then let remaining = (if remaining > 2878 then 2878 else remaining);
                  (temp, s) = (if tlsState s = 1 then (change_cipher_spec, s\<lparr>tlsState := 2\<rparr>) else ([], s));
                  temp = temp @ record_header;
                  temp = temp @ [ucast (drop_bit 8 remaining AND 0xff), ucast (remaining AND 0xff)];
                  headersSize = length temp;
                  temp = temp @ rd 0 (unat remaining) (buffer b);
                  sentLength = send temp
              in if sentLength mod 2 ^ 64 < int headersSize then (take (nat sentLength) temp, closeSocket s)
                 else let (q, st) = discard (word_of_int (sentLength - int headersSize)) (outgoingByteStream s) (storage s)
                      in (take (nat sentLength) temp, s\<lparr>outgoingByteStream := q, storage := st\<rparr>)
         else let temp = rd 0 (unat remaining) (buffer b);
                  sentLength = send temp
              in if sentLength < 0 then ([], closeSocket s)
                 else let (q, st) = discard (word_of_int sentLength) (outgoingByteStream s) (storage s)
                      in (take (nat sentLength) temp, s\<lparr>outgoingByteStream := q, storage := st\<rparr>))"

section \<open>Receiving records\<close>

text \<open>
  The header of the next record, some of it perhaps in \<open>tlsBuffer\<close> from before: the socket is closed, or
  \<open>tlsBuffer\<close> is a buffer for the body.
\<close>

definition tls_header :: "(nat \<Rightarrow> bytes) \<Rightarrow> native_buffer \<Rightarrow> socket \<Rightarrow> socket + native_buffer \<times> socket" where
  "tls_header fresh b s =
     (let pos = buf_position b;
          (header, s) = (case tlsBuffer s of
                           None \<Rightarrow> ([], s)
                         | Some t \<Rightarrow> (take (unat (buf_position t)) (buffer t), s\<lparr>storage := reuse t (storage s), tlsBuffer := None\<rparr>));
          offset = length header;
          header = header @ rd (unat pos) (5 - offset) (buffer b)
      in if take 3 header \<noteq> record_header then Inl (closeSocket s)
         else let len1 = push_bit 8 (ucast (header ! 3)) + ucast (header ! 4) :: u32
              in if len1 > 64 * 1024 then Inl (closeSocket s)
                 else let (t, st) = getFreeBuffer fresh len1 (storage s)
                      in Inr (set_position (pos + of_nat (5 - offset)) b,
                              s\<lparr>tlsBuffer := Some t, storage := st, tlsBufferSized := True\<rparr>))"

text \<open>
  The loop over the bytes of one \<open>recv\<close>.  \<open>out\<close> collects what \<open>onReceivedData\<close> is given, \<open>keeps\<close> says of which
  records the socket is still open after it (in the code this can also depend on the records before); \<open>None\<close> is a loop that does not end.
\<close>

partial_function (option) tls_loop ::
    "(bytes \<Rightarrow> bool) \<Rightarrow> (nat \<Rightarrow> bytes) \<Rightarrow> u32 \<Rightarrow> native_buffer \<Rightarrow> socket \<Rightarrow> bytes list \<Rightarrow>
       (bytes list \<times> native_buffer \<times> socket) option" where
  "tls_loop keeps fresh readCount b s out =
     (if \<not> hasRemaining b then Some (out, b, s)
      else
        let newBytesRead = unat (remaining b);
            newBytesRead = (case tlsBuffer s of None \<Rightarrow> newBytesRead
              | Some t \<Rightarrow> newBytesRead + unat (buf_position t) + (if tlsBufferSized s then 5 else 0))
        in if newBytesRead \<ge> 5
           then case (if tlsBuffer s = None \<or> \<not> tlsBufferSized s then tls_header fresh b s else Inr (b, s)) of
               Inl s \<Rightarrow> Some (out, b, s)
             | Inr (b, s) \<Rightarrow>
                 (let t = the (tlsBuffer s);
                      b = set_limit (min (buf_position b + remaining t) (buf_limit b)) b;
                      (_, t, b) = writeBytes_buffer b None t;
                      b = set_limit readCount b
                  in if remaining t = 0
                     then let t = rewind t; out = out @ [rest t]
                          in if keeps (rest t)
                             then tls_loop keeps fresh readCount b (s\<lparr>storage := reuse t (storage s), tlsBuffer := None\<rparr>) out
                             else Some (out, b, closeSocket (s\<lparr>tlsBuffer := Some t\<rparr>))
                     else tls_loop keeps fresh readCount b (s\<lparr>tlsBuffer := Some t\<rparr>) out)
           else
             let (t, s) = (case tlsBuffer s of
                             None \<Rightarrow> (let (t, st) = getFreeBuffer fresh 4 (storage s)
                                     in (t, s\<lparr>storage := st, tlsBufferSized := False\<rparr>))
                           | Some t \<Rightarrow> (t, s));
                 (_, t, b) = writeBytes_buffer b None t
             in tls_loop keeps fresh readCount b (s\<lparr>tlsBuffer := Some t\<rparr>) out)"

text \<open>One \<open>recv\<close> of a connection that speaks TLS: the bytes are in the network buffer, from its start.\<close>

definition receive_tls ::
    "(bytes \<Rightarrow> bool) \<Rightarrow> (nat \<Rightarrow> bytes) \<Rightarrow> bytes \<Rightarrow> native_buffer \<Rightarrow> socket \<Rightarrow> (bytes list \<times> native_buffer \<times> socket) option" where
  "receive_tls keeps fresh received networkBuffer s =
     (let b = rewind networkBuffer;
          b = b\<lparr>buffer := wr 0 received (buffer b)\<rparr>;
          readCount = of_nat (length received);
          b = set_limit readCount b
      in tls_loop keeps fresh readCount b s [])"

text \<open>The chunks that \<open>recv\<close> gives one after the other; nothing is received any more when the socket is closed.\<close>

fun receive_all ::
    "(bytes \<Rightarrow> bool) \<Rightarrow> (nat \<Rightarrow> bytes) \<Rightarrow> bytes list \<Rightarrow> native_buffer \<Rightarrow> socket \<Rightarrow> (bytes list \<times> native_buffer \<times> socket) option" where
  "receive_all keeps fresh [] networkBuffer s = Some ([], networkBuffer, s)"
| "receive_all keeps fresh (c # cs) networkBuffer s =
     (if \<not> socket_open s then Some ([], networkBuffer, s)
      else case receive_tls keeps fresh c networkBuffer s of
             None \<Rightarrow> None
           | Some (out, networkBuffer, s) \<Rightarrow>
               (case receive_all keeps fresh cs networkBuffer s of
                  None \<Rightarrow> None
                | Some (out', r) \<Rightarrow> Some (out @ out', r)))"

section \<open>The SOCKS5 handshake\<close>

record proxy_settings =
  proxyUser :: bytes
  proxyPassword :: bytes
  proxy_target :: bytes \<comment> \<open>the address, as \<open>inet_pton\<close> stores it\<close>
  proxy_port :: bytes \<comment> \<open>two bytes\<close>
  proxy_ipv6 :: bool

text \<open>\<open>EPOLLOUT\<close> during the handshake: what is sent, if anything, and the next state; \<open>sent\<close> is whether \<open>send\<close> took it.\<close>

definition proxy_message :: "proxy_settings \<Rightarrow> socket \<Rightarrow> bytes option \<times> socket" where
  "proxy_message cfg s =
     (if proxyAuthState s = 1 then (Some [0x05, 0x02, 0x00, 0x02], s\<lparr>proxyAuthState := 2\<rparr>)
      else if proxyAuthState s = 3
      then let len1 = of_nat (length (proxyUser cfg)) :: u8;
               len2 = of_nat (length (proxyPassword cfg)) :: u8
           in (Some ([0x01, len1] @ take (unat len1) (proxyUser cfg) @ [len2] @ take (unat len2) (proxyPassword cfg)),
               s\<lparr>proxyAuthState := 4\<rparr>)
      else if proxyAuthState s = 5
      then (Some ([0x05, 0x01, 0x00, if proxy_ipv6 cfg then 0x04 else 0x01] @ proxy_target cfg @ proxy_port cfg),
            s\<lparr>proxyAuthState := 6\<rparr>)
      else (None, s))"

text \<open>
  \<open>sent\<close> says whether \<open>send\<close> succeeded, which is all the code looks at: that a part of the message was left over goes unnoticed.  The
  message of the result is the one that was handed to \<open>send\<close>.
\<close>

definition proxy_write :: "proxy_settings \<Rightarrow> bool \<Rightarrow> socket \<Rightarrow> bytes option \<times> socket" where
  "proxy_write cfg sent s =
     (case proxy_message cfg s of
        (None, s) \<Rightarrow> (None, s)
      | (Some m, s) \<Rightarrow> if sent then (Some m, s) else (None, closeSocket s))"

text \<open>\<open>EPOLLIN\<close> during the handshake, with the \<open>readCount > 0\<close> bytes that were received.\<close>

definition proxy_read :: "bytes \<Rightarrow> socket \<Rightarrow> socket" where
  "proxy_read received s =
     (if proxyAuthState s = 2
      then if length received = 2
           then let auth_method = received ! 1
                in if auth_method = 0xff then closeSocket s
                   else if auth_method = 0x02 then s\<lparr>proxyAuthState := 3\<rparr>
                   else if auth_method = 0x00 then s\<lparr>proxyAuthState := 5\<rparr> else s
           else closeSocket s
      else if proxyAuthState s = 4
      then if length received = 2
           then if received ! 1 \<noteq> 0x00 then closeSocket s else s\<lparr>proxyAuthState := 5\<rparr>
           else closeSocket s
      else if proxyAuthState s = 6
      then if length received > 2
           then if received ! 1 = 0x00 then s\<lparr>proxyAuthState := 0\<rparr> else closeSocket s
           else closeSocket s
      else s)"

section \<open>The records in a stream of bytes\<close>

text \<open>
  The reference: the bodies of the records that are complete, and what is left of the stream, or \<open>None\<close> if it does not
  start with the header of a record.
\<close>

definition record_len :: "bytes \<Rightarrow> nat" where
  "record_len h = 256 * unat (h ! 3) + unat (h ! 4)"

function deframe :: "bytes \<Rightarrow> bytes list \<times> bytes option" where
  "deframe bs =
     (if length bs < 5 then ([], Some bs)
      else if take 3 bs \<noteq> record_header then ([], None)
      else if length bs < 5 + record_len bs then ([], Some bs)
      else (let (rs, r) = deframe (drop (5 + record_len bs) bs) in (take (record_len bs) (drop 5 bs) # rs, r)))"
  by pat_completeness auto
termination by (relation "measure length") auto

declare deframe.simps [simp del]

lemma record_len_append [simp]: "5 \<le> length bs \<Longrightarrow> record_len (bs @ cs) = record_len bs"
  by (simp add: record_len_def nth_append)

lemma deframe_pending: "deframe bs = (rs, Some p) \<Longrightarrow> deframe p = ([], Some p)"
proof (induction bs arbitrary: rs rule: deframe.induct)
  case (1 bs)
  show ?case
  proof (cases "length bs < 5 \<or> take 3 bs \<noteq> record_header \<or> length bs < 5 + record_len bs")
    case True
    then have "bs = p" using 1(2) by (subst (asm) deframe.simps) (auto split: if_splits)
    then show ?thesis using True 1(2) by (auto simp: deframe.simps [of p] split: if_splits)
  next
    case False
    then show ?thesis using 1 by (subst (asm) deframe.simps [of bs]) (auto split: prod.splits)
  qed
qed

lemma deframe_append:
  "deframe (bs @ cs) =
     (case deframe bs of (rs, None) \<Rightarrow> (rs, None) | (rs, Some p) \<Rightarrow> (rs @ fst (deframe (p @ cs)), snd (deframe (p @ cs))))"
proof (induction bs rule: deframe.induct)
  case (1 bs)
  consider "length bs < 5" | "5 \<le> length bs" "take 3 bs \<noteq> record_header"
    | "5 \<le> length bs" "take 3 bs = record_header" "length bs < 5 + record_len bs"
    | "5 \<le> length bs" "take 3 bs = record_header" "5 + record_len bs \<le> length bs" by linarith
  then show ?case
  proof cases
    case 4
    let ?n = "5 + record_len bs"
    have "deframe (bs @ cs) = (let (rs, r) = deframe (drop ?n bs @ cs) in (take (record_len bs) (drop 5 bs) # rs, r))"
      using 4 by (subst deframe.simps) simp
    moreover have "deframe bs = (let (rs, r) = deframe (drop ?n bs) in (take (record_len bs) (drop 5 bs) # rs, r))"
      using 4 by (subst deframe.simps) simp
    ultimately show ?thesis using 1 4 by (simp split: prod.splits option.splits)
  qed (simp_all add: deframe.simps [of bs] deframe.simps [of "bs @ cs"])
qed

section \<open>Receiving is taking records apart\<close>

text \<open>\<open>p\<close> is what was received of a record that is not complete.\<close>

definition record_part :: "socket \<Rightarrow> native_buffer \<Rightarrow> bytes \<Rightarrow> bool" where
  "record_part s t p \<longleftrightarrow> buf_ok t \<and>
     (if tlsBufferSized s
      then \<exists>h. length h = 5 \<and> take 3 h = record_header \<and> record_len h = unat (buf_limit t) \<and> p = h @ behind t
      else p = behind t \<and> length p < 5 \<and> unat (buf_limit t) = 4)"

definition receiving :: "socket \<Rightarrow> bytes \<Rightarrow> bool" where
  "receiving s p \<longleftrightarrow> socket_open s \<and> storage_ok (storage s) \<and>
     (case tlsBuffer s of None \<Rightarrow> p = [] | Some t \<Rightarrow> record_part s t p \<and> (tlsBufferSized s \<longrightarrow> 0 < room t))"

lemma body_step:
  assumes t: "buf_ok t" and b: "buf_ok b" and m: "m = min (room t) (room b)"
    and w: "writeBytes_buffer (set_limit (min (buf_position b + remaining t) (buf_limit b)) b) None t = (e, t', b')"
  shows "t' = append_bytes (take m (rest b)) t" "set_limit (buf_limit b) b' = advance m b"
proof -
  have r: "unat (remaining t) = room t" by (rule unat_remaining [OF t])
  have s: "unat (buf_position b + remaining t) = unat (buf_position b) + room t"
    using unat_add_small [of "buf_position b" "remaining t"] r buf_okD [OF t] buf_okD [OF b] by simp
  have mb: "m \<le> room b" using m by simp
  have "min (buf_position b + remaining t) (buf_limit b) = buf_position b + of_nat m"
    using unat_advance [OF b mb] s buf_okD(6) [OF b] m
    by (auto simp: word_unat_eq_iff min_def word_le_nat_alt split: if_splits)
  then have l: "set_limit (min (buf_position b + remaining t) (buf_limit b)) b = b\<lparr>buf_limit := buf_position b + of_nat m\<rparr>" (is "_ = ?b")
    using limited(4) [OF b mb] by simp
  note lim = limited(1-3) [OF b mb]
  have "writeBytes_buffer ?b None t = (None, append_bytes (rest ?b) t, advance (room ?b) ?b)"
    by (rule writeBytes_buffer_fits [OF lim(1) t]) (simp only: lim(2), simp add: m)
  then have tb: "t' = append_bytes (take m (rest b)) t" "b' = advance m ?b" using w l lim by simp_all
  show "t' = append_bytes (take m (rest b)) t" by (rule tb(1))
  show "set_limit (buf_limit b) b' = advance m b"
    using buf_okD [OF b] unat_advance [OF b mb] mb
    by (simp add: tb(2) set_limit_def advance_def word_less_nat_alt word_le_nat_alt)
qed

lemma behind_position: "buf_ok t \<Longrightarrow> length (behind t) = unat (buf_position t)"
  using buf_okD [of t] by (simp add: behind_def)

lemma closed [simp]: "socket_open (closeSocket s) = False"
  by (simp add: closeSocket_def Let_def split: prod.splits option.splits)

text \<open>The header of a record, when its five bytes have come.\<close>

lemma header_step:
  assumes b: "buf_ok b" and fresh: "\<And>n. length (fresh n) = n"
    and s: "receiving s p" "tlsBuffer s = None \<or> \<not> tlsBufferSized s" and five: "5 \<le> length (p @ rest b)"
  shows "take 3 (p @ rest b) \<noteq> record_header \<and> (\<exists>s'. tls_header fresh b s = Inl s' \<and> \<not> socket_open s') \<or>
    take 3 (p @ rest b) = record_header \<and>
      (\<exists>k t s'. tls_header fresh b s = Inr (advance k b, s') \<and> 0 < k \<and> k \<le> room b \<and> rest b \<noteq> [] \<and>
         tlsBuffer s' = Some t \<and> tlsBufferSized s' \<and> socket_open s' \<and> storage_ok (storage s') \<and>
         record_part s' t (take 5 (p @ rest b)) \<and> behind t = [] \<and> room t = record_len (p @ rest b) \<and>
         drop k (rest b) = drop 5 (p @ rest b))"
proof -
  have p5: "length p < 5" using s by (auto simp: receiving_def record_part_def split: option.splits)
  define k where "k = 5 - length p"
  have room: "length (rest b) = room b" by (rule length_rest [OF b])
  then have k: "0 < k" "k \<le> room b" using p5 five by (simp_all add: k_def)
  define header where "header = take 5 (p @ rest b)"
  obtain s1 where s1: "(case tlsBuffer s of None \<Rightarrow> ([], s)
      | Some t \<Rightarrow> (take (unat (buf_position t)) (buffer t), s\<lparr>storage := reuse t (storage s), tlsBuffer := None\<rparr>)) = (p, s1)"
    and st1: "storage_ok (storage s1)" "socket_open s1"
  proof (cases "tlsBuffer s")
    case None
    then show ?thesis using s that [of s] by (simp add: receiving_def)
  next
    case (Some t)
    then have t: "buf_ok t" "p = behind t" "storage_ok (storage s)" "socket_open s" using s by (simp_all add: receiving_def record_part_def)
    show ?thesis by (rule that [of "s\<lparr>storage := reuse t (storage s), tlsBuffer := None\<rparr>"])
        (use Some t reuse_ok in \<open>simp_all add: behind_def\<close>)
  qed
  have h: "p @ rd (unat (buf_position b)) (5 - length p) (buffer b) = header"
    using k p5 by (simp add: header_def rest_def rd_take k_def)
  have h3: "take 3 header = take 3 (p @ rest b)" unfolding header_def take_take by simp
  have len: "length header = 5" using five by (simp add: header_def)
  let ?n = "push_bit 8 (ucast (header ! 3)) + ucast (header ! 4) :: u32"
  have n: "unat ?n = record_len (p @ rest b)"
  proof -
    have "unat (push_bit 8 (ucast (header ! 3)) :: u32) = 256 * unat (header ! 3)"
      using byte_less [of "header ! 3"] by (simp add: push_bit_eq_mult unat_word_ariths ucast_byte mult.commute)
    then have "unat ?n = 256 * unat (header ! 3) + unat (header ! 4)"
      using unat_add_small [of "push_bit 8 (ucast (header ! 3))" "ucast (header ! 4)"] byte_less [of "header ! 3"] byte_less [of "header ! 4"]
      by (simp add: ucast_byte)
    moreover have "header ! 3 = (p @ rest b) ! 3" "header ! 4 = (p @ rest b) ! 4"
      by (simp_all add: header_def del: take_append)
    ultimately show ?thesis by (simp only: record_len_def)
  qed
  have small: "unat ?n < 2 ^ 16" unfolding n record_len_def
    using byte_less [of "(p @ rest b) ! 3"] byte_less [of "(p @ rest b) ! 4"] by simp
  then have "\<not> ?n > 64 * 1024" by (simp add: word_less_nat_alt)
  have unfold: "tls_header fresh b s =
      (if take 3 header \<noteq> record_header then Inl (closeSocket s1)
       else if ?n > 64 * 1024 then Inl (closeSocket s1)
       else case getFreeBuffer fresh ?n (storage s1) of (t, st) \<Rightarrow>
         Inr (set_position (buf_position b + of_nat (5 - length p)) b, s1\<lparr>tlsBuffer := Some t, storage := st, tlsBufferSized := True\<rparr>))"
    by (simp only: tls_header_def s1 h Let_def prod.case)
  show ?thesis
  proof (cases "take 3 header = record_header")
    case False
    then have "tls_header fresh b s = Inl (closeSocket s1)" by (simp add: unfold del: take_append)
    then show ?thesis using False unfolding h3 by simp
  next
    case True
    obtain t st where g: "getFreeBuffer fresh ?n (storage s1) = (t, st)" by fastforce
    have "unat ?n < 2 ^ 31" using small by simp
    from getFreeBuffer_ok [OF st1(1) this fresh g]
    have t: "storage_ok st" "buf_ok t" "buf_position t = 0" "buf_limit t = ?n" "room t = unat ?n" by simp_all
    have "set_position (buf_position b + of_nat k) b = advance k b"
      using unat_advance [OF b k(2)] buf_okD(6) [OF b] k(2) by (simp add: set_position_def advance_def word_less_nat_alt)
    then have eq: "tls_header fresh b s = Inr (advance k b, s1\<lparr>tlsBuffer := Some t, storage := st, tlsBufferSized := True\<rparr>)"
      using True \<open>\<not> ?n > 64 * 1024\<close> unfolding k_def by (simp only: unfold g prod.case simp_thms if_False)
    have nil: "behind t = []" by (simp add: behind_def t(3))
    have "record_len header = unat (buf_limit t)" using n t(4) by (simp add: record_len_def header_def del: take_append)
    then have "record_part (s1\<lparr>tlsBuffer := Some t, storage := st, tlsBufferSized := True\<rparr>) t header"
      using True len t(2) nil by (auto simp: record_part_def)
    moreover have "drop k (rest b) = drop 5 (p @ rest b)" using p5 by (simp add: k_def)
    moreover have "rest b \<noteq> []" using k room by auto
    moreover have "room t = record_len (p @ rest b)" using t(5) n by simp
    ultimately show ?thesis using True h3 eq k t(1) st1(2) nil unfolding header_def [symmetric] by auto
  qed
qed

lemma rewind_full:
  assumes "buf_ok t" "room t = 0"
  shows "buf_ok (rewind t)" "rest (rewind t) = behind t" "buf_position (rewind t) = 0"
proof -
  have p: "unat (buf_position t) = unat (buf_limit t)" using buf_okD(6) [OF assms(1)] assms(2) by simp
  show "buf_ok (rewind t)" using assms(1) by (simp add: buf_ok_def rewind_def)
  show "rest (rewind t) = behind t" using p by (simp add: rest_def rewind_def room_def behind_def rd_def)
qed (simp add: rewind_def)

lemma room_remaining: "buf_ok t \<Longrightarrow> remaining t = 0 \<longleftrightarrow> room t = 0"
  using unat_remaining [of t] by (simp add: unat_eq_0 [symmetric])

text \<open>The body of a record: it is complete, or all that has come goes into the buffer.\<close>

lemma record_step:
  assumes b: "buf_ok b" and s: "socket_open s" "storage_ok (storage s)" "tlsBufferSized s" and t: "record_part s t p"
    and t': "t' = append_bytes (take (min (room t) (room b)) (rest b)) t" and b': "b' = advance (min (room t) (room b)) b"
  shows "room t \<le> room b \<Longrightarrow> remaining t' = 0 \<and>
      deframe (p @ rest b) = (rest (rewind t') # fst (deframe (rest b')), snd (deframe (rest b'))) \<and>
      receiving (s\<lparr>storage := reuse (rewind t') (storage s), tlsBuffer := None\<rparr>) [] \<and> length (rest b') = length (rest b) - room t"
    and "room b < room t \<Longrightarrow> remaining t' \<noteq> 0 \<and> rest b' = [] \<and> deframe (p @ rest b) = ([], Some (p @ rest b)) \<and>
      receiving (s\<lparr>tlsBuffer := Some t'\<rparr>) (p @ rest b)"
    and "buf_ok b'" "buf_limit b' = buf_limit b"
proof -
  obtain h where h: "length h = 5" "take 3 h = record_header" "record_len h = unat (buf_limit t)" "p = h @ behind t"
    and ok: "buf_ok t" using t s(3) by (auto simp: record_part_def)
  have rb: "length (rest b) = room b" by (rule length_rest [OF b])
  have n: "record_len (p @ rest b) = unat (buf_limit t)" using h by simp
  have lt: "length (behind t) + room t = unat (buf_limit t)" using behind_position [OF ok] buf_okD(6) [OF ok] by simp
  have head: "5 \<le> length (p @ rest b)" "take 3 (p @ rest b) = record_header" using h by simp_all
  have fit: "length (take (min (room t) (room b)) (rest b)) \<le> room t" by simp
  note e = append_bytes_ok [OF ok fit] and a = advance_ok [OF b, of "min (room t) (room b)"]
  show "buf_ok b'" "buf_limit b' = buf_limit b" using a(1) by (simp_all add: b')
  {
    assume le: "room t \<le> room b"
    have m: "min (room t) (room b) = room t" using le by simp
    have r0: "room t' = 0" using e(2) rb le by (simp add: t' m)
    have okt': "buf_ok t'" using e(1) by (simp add: t')
    note w = rewind_full [OF okt' r0]
    have content: "rest (rewind t') = behind t @ take (room t) (rest b)" using w(2) e(3) by (simp add: t' m)
    have rest: "rest b' = drop (room t) (rest b)" using advance_ok(3) [OF b le] by (simp add: b' m)
    have "drop (5 + unat (buf_limit t)) (p @ rest b) = rest b'"
      using lt by (simp add: h(4) h(1) rest drop_Cons' flip: lt)
    moreover have "take (unat (buf_limit t)) (drop 5 (p @ rest b)) = rest (rewind t')"
      by (simp add: h(4) h(1) content flip: lt)
    moreover have "\<not> length (p @ rest b) < 5 + unat (buf_limit t)" using le rb lt by (simp add: h)
    ultimately have "deframe (p @ rest b) = (rest (rewind t') # fst (deframe (rest b')), snd (deframe (rest b')))"
      using head n by (subst deframe.simps) (simp split: prod.splits)
    then show "remaining t' = 0 \<and>
      deframe (p @ rest b) = (rest (rewind t') # fst (deframe (rest b')), snd (deframe (rest b'))) \<and>
      receiving (s\<lparr>storage := reuse (rewind t') (storage s), tlsBuffer := None\<rparr>) [] \<and> length (rest b') = length (rest b) - room t"
      using room_remaining [OF okt'] r0 s reuse_ok [OF s(2) w(1)] rest by (simp add: receiving_def)
  next
    assume less: "room b < room t"
    have m: "min (room t) (room b) = room b" using less by simp
    have all: "take (room b) (rest b) = rest b" by (simp add: rb)
    have r: "room t' = room t - room b" "buf_ok t'" "behind t' = behind t @ rest b" using e(1-3) rb by (simp_all add: t' m all)
    have "rest b' = []" using a(3) rb by (simp add: b' m)
    moreover have "length (p @ rest b) < 5 + record_len (p @ rest b)" using less rb lt n by (simp add: h)
    then have "deframe (p @ rest b) = ([], Some (p @ rest b))" using head by (subst deframe.simps) simp
    moreover have "record_part (s\<lparr>tlsBuffer := Some t'\<rparr>) t' (p @ rest b)"
      using r(2,3) s(3) h by (auto simp: record_part_def t')
    ultimately show "remaining t' \<noteq> 0 \<and> rest b' = [] \<and> deframe (p @ rest b) = ([], Some (p @ rest b)) \<and>
      receiving (s\<lparr>tlsBuffer := Some t'\<rparr>) (p @ rest b)"
      using room_remaining [OF r(2)] r(1) less s by (simp add: receiving_def)
  }
qed

text \<open>What the connection is given of the records \<open>rs\<close>: it may close the socket while it handles one.\<close>

fun heard :: "(bytes \<Rightarrow> bool) \<Rightarrow> bytes list \<Rightarrow> bytes list" where
  "heard keeps [] = []"
| "heard keeps (r # rs) = r # (if keeps r then heard keeps rs else [])"

text \<open>The result \<open>r\<close> of the loop is that of \<open>deframe\<close>, \<open>d\<close>.\<close>

definition left_over :: "(bytes \<Rightarrow> bool) \<Rightarrow> bytes list \<times> bytes option \<Rightarrow> socket \<Rightarrow> bool" where
  "left_over keeps d s \<longleftrightarrow>
     (if list_all keeps (fst d) then case snd d of None \<Rightarrow> \<not> socket_open s | Some p \<Rightarrow> receiving s p else \<not> socket_open s)"

definition taken_apart ::
    "(bytes \<Rightarrow> bool) \<Rightarrow> bytes list \<Rightarrow> u32 \<Rightarrow> bytes list \<times> bytes option \<Rightarrow> (bytes list \<times> native_buffer \<times> socket) option \<Rightarrow> bool" where
  "taken_apart keeps out cap d r \<longleftrightarrow>
     (\<exists>b s. r = Some (out @ heard keeps (fst d), b, s) \<and> buf_ok b \<and> buf_capacity b = cap \<and> left_over keeps d s)"

lemma taken_apart_end: "buf_ok b \<Longrightarrow> receiving s p \<Longrightarrow> taken_apart keeps out (buf_capacity b) ([], Some p) (Some (out, b, s))"
  by (simp add: taken_apart_def left_over_def)

lemma taken_apart_cons:
  "keeps r \<Longrightarrow> taken_apart keeps (out @ [r]) cap d x \<Longrightarrow> taken_apart keeps out cap (r # fst d, snd d) x"
  by (simp add: taken_apart_def left_over_def cong: if_cong)

lemma taken_apart_closed:
  "\<not> keeps r \<Longrightarrow> buf_ok b \<Longrightarrow> taken_apart keeps out (buf_capacity b) (r # rs, d) (Some (out @ [r], b, closeSocket s))"
  by (simp add: taken_apart_def left_over_def)

lemma receiving_deframe: "receiving s p \<Longrightarrow> deframe p = ([], Some p)"
proof (cases "tlsBuffer s")
  case (Some t)
  assume r: "receiving s p"
  then have t: "record_part s t p" "buf_ok t" "tlsBufferSized s \<longrightarrow> 0 < room t" using Some by (auto simp: receiving_def record_part_def)
  show ?thesis
  proof (cases "tlsBufferSized s")
    case True
    then obtain h where h: "length h = 5" "take 3 h = record_header" "record_len h = unat (buf_limit t)" "p = h @ behind t"
      using t(1) by (auto simp: record_part_def)
    have "length (behind t) + room t = unat (buf_limit t)" using behind_position [OF t(2)] buf_okD(6) [OF t(2)] by simp
    then have "length p < 5 + record_len p" using True t(3) h by simp
    then show ?thesis using h by (subst deframe.simps) simp
  next
    case False
    then have "length p < 5" using t(1) by (auto simp: record_part_def)
    then show ?thesis by (subst deframe.simps) simp
  qed
qed (simp add: receiving_def deframe.simps)

lemma tls_loop_end: "buf_ok b \<Longrightarrow> rest b = [] \<Longrightarrow> tls_loop keeps fresh readCount b s out = Some (out, b, s)"
  using hasRemaining_room [of b] length_rest [of b] by (subst tls_loop.simps) simp

text \<open>The part of an iteration that fills the record, with what comes after it.\<close>

lemma record_loop:
  assumes b: "buf_ok b" "buf_limit b = readCount"
    and s: "socket_open s" "storage_ok (storage s)" "tlsBufferSized s" and t: "record_part s t p"
    and again: "\<And>b' s' out'. buf_ok b' \<Longrightarrow> buf_limit b' = readCount \<Longrightarrow> buf_capacity b' = buf_capacity b \<Longrightarrow> receiving s' [] \<Longrightarrow>
      length (rest b') = length (rest b) - room t \<Longrightarrow> room t \<le> length (rest b) \<Longrightarrow>
      taken_apart keeps out' (buf_capacity b) (deframe (rest b')) (tls_loop keeps fresh readCount b' s' out')"
    and w: "writeBytes_buffer (set_limit (min (buf_position b + remaining t) (buf_limit b)) b) None t = (e, t', src2)"
  shows "taken_apart keeps out (buf_capacity b) (deframe (p @ rest b))
    (let b = set_limit readCount src2
     in if remaining t' = 0
        then let t = rewind t'; out = out @ [rest t]
             in if keeps (rest t)
                then tls_loop keeps fresh readCount b (s\<lparr>storage := reuse t (storage s), tlsBuffer := None\<rparr>) out
                else Some (out, b, closeSocket (s\<lparr>tlsBuffer := Some t\<rparr>))
        else tls_loop keeps fresh readCount b (s\<lparr>tlsBuffer := Some t'\<rparr>) out)"
proof -
  have ok: "buf_ok t" using t by (simp add: record_part_def)
  define b' where "b' = set_limit readCount src2"
  have b': "b' = advance (min (room t) (room b)) b" using body_step(2) [OF ok b(1) refl w] b(2) by (simp add: b'_def)
  note step = record_step [OF b(1) s t body_step(1) [OF ok b(1) refl w] b']
  have cap: "buf_capacity b' = buf_capacity b" by (simp add: b' advance_def)
  have room: "length (rest b) = room b" by (rule length_rest [OF b(1)])
  show ?thesis
  proof (cases "room t \<le> room b")
    case True
    note st = step(1) [OF True]
    show ?thesis
    proof (cases "keeps (rest (rewind t'))")
      case k: True
      let ?s = "s\<lparr>storage := reuse (rewind t') (storage s), tlsBuffer := None\<rparr>"
      have "taken_apart keeps (out @ [rest (rewind t')]) (buf_capacity b) (deframe (rest b')) (tls_loop keeps fresh readCount b' ?s (out @ [rest (rewind t')]))"
        by (rule again) (use st step(3,4) b(2) cap True room in auto)
      from taken_apart_cons [OF k this] show ?thesis using st k unfolding b'_def [symmetric] by (simp add: Let_def)
    next
      case False
      from taken_apart_closed [where keeps = keeps, OF this step(3)] show ?thesis
        using False st cap unfolding b'_def [symmetric] by (simp add: Let_def)
    qed
  next
    case False
    then have st: "remaining t' \<noteq> 0" "rest b' = []" "deframe (p @ rest b) = ([], Some (p @ rest b))"
      "receiving (s\<lparr>tlsBuffer := Some t'\<rparr>) (p @ rest b)" using step(2) by simp_all
    show ?thesis using st(1) tls_loop_end [OF step(3) st(2)] taken_apart_end [OF step(3) st(4)] cap
      unfolding b'_def [symmetric] by (simp add: st(3))
  qed
qed

lemma tls_loop_sized:
  assumes "hasRemaining b" "tlsBuffer s = Some t" "tlsBufferSized s"
    "writeBytes_buffer (set_limit (min (buf_position b + remaining t) (buf_limit b)) b) None t = (e, t', src)"
  shows "tls_loop keeps fresh readCount b s out =
    (let b = set_limit readCount src
     in if remaining t' = 0
        then let t = rewind t'; out = out @ [rest t]
             in if keeps (rest t)
                then tls_loop keeps fresh readCount b (s\<lparr>storage := reuse t (storage s), tlsBuffer := None\<rparr>) out
                else Some (out, b, closeSocket (s\<lparr>tlsBuffer := Some t\<rparr>))
        else tls_loop keeps fresh readCount b (s\<lparr>tlsBuffer := Some t'\<rparr>) out)"
  by (subst tls_loop.simps) (use assms in \<open>simp add: Let_def\<close>)

lemma tls_loop_framed:
  assumes "hasRemaining b" "tlsBuffer s = None \<or> \<not> tlsBufferSized s"
    "5 \<le> unat (remaining b) + (case tlsBuffer s of None \<Rightarrow> 0 | Some t \<Rightarrow> unat (buf_position t))"
    "tls_header fresh b s = Inr (hd1, s1)" "tlsBuffer s1 = Some t"
    "writeBytes_buffer (set_limit (min (buf_position hd1 + remaining t) (buf_limit hd1)) hd1) None t = (e, t', src)"
  shows "tls_loop keeps fresh readCount b s out =
    (let b = set_limit readCount src
     in if remaining t' = 0
        then let t = rewind t'; out = out @ [rest t]
             in if keeps (rest t)
                then tls_loop keeps fresh readCount b (s1\<lparr>storage := reuse t (storage s1), tlsBuffer := None\<rparr>) out
                else Some (out, b, closeSocket (s1\<lparr>tlsBuffer := Some t\<rparr>))
        else tls_loop keeps fresh readCount b (s1\<lparr>tlsBuffer := Some t'\<rparr>) out)"
  using assms by (subst tls_loop.simps) (auto simp: Let_def split: option.splits)

lemma tls_loop_refused:
  assumes "hasRemaining b" "tlsBuffer s = None \<or> \<not> tlsBufferSized s"
    "5 \<le> unat (remaining b) + (case tlsBuffer s of None \<Rightarrow> 0 | Some t \<Rightarrow> unat (buf_position t))"
    "tls_header fresh b s = Inl s1"
  shows "tls_loop keeps fresh readCount b s out = Some (out, b, s1)"
  using assms by (subst tls_loop.simps) (auto simp: Let_def split: option.splits)

text \<open>Fewer than five bytes wait in a buffer of four.\<close>

lemma short_loop:
  assumes b: "buf_ok b" "hasRemaining b" and fresh: "\<And>n. length (fresh n) = n"
    and s: "receiving s p" "tlsBuffer s = None \<or> \<not> tlsBufferSized s"
    and few: "unat (remaining b) + (case tlsBuffer s of None \<Rightarrow> 0 | Some t \<Rightarrow> unat (buf_position t)) < 5"
    and len: "length (p @ rest b) < 5"
  shows "taken_apart keeps out (buf_capacity b) (deframe (p @ rest b)) (tls_loop keeps fresh readCount b s out)"
proof -
  have d: "deframe (p @ rest b) = ([], Some (p @ rest b))" using len by (subst deframe.simps) simp
  have room: "length (rest b) = room b" by (rule length_rest [OF b(1)])
  obtain t s1 where t: "(case tlsBuffer s of
        None \<Rightarrow> (let (t, st) = getFreeBuffer fresh 4 (storage s) in (t, s\<lparr>storage := st, tlsBufferSized := False\<rparr>))
      | Some t \<Rightarrow> (t, s)) = (t, s1)"
    and ok: "record_part s1 t p" "\<not> tlsBufferSized s1" "socket_open s1" "storage_ok (storage s1)"
  proof (cases "tlsBuffer s")
    case None
    obtain t st where g: "getFreeBuffer fresh 4 (storage s) = (t, st)" by fastforce
    have "storage_ok (storage s)" using s(1) by (simp add: receiving_def)
    from getFreeBuffer_ok [OF this _ fresh g] have "storage_ok st" "buf_ok t" "buf_position t = 0" "buf_limit t = 4" by simp_all
    then show ?thesis using None g s(1) by (intro that [of t "s\<lparr>storage := st, tlsBufferSized := False\<rparr>"])
        (simp_all add: receiving_def record_part_def behind_def)
  next
    case (Some t)
    then show ?thesis using s by (intro that [of t s]) (simp_all add: receiving_def)
  qed
  have okt: "buf_ok t" "p = behind t" "unat (buf_limit t) = 4" using ok(1,2) by (simp_all add: record_part_def)
  have fit: "room b \<le> room t" using len room okt(2,3) behind_position [OF okt(1)] buf_okD(6) [OF okt(1)] by simp
  note w = writeBytes_buffer_fits [OF b(1) okt(1) fit, of None]
  have fit': "length (rest b) \<le> room t" using fit room by simp
  note e = append_bytes_ok [OF okt(1) fit'] and a = advance_ok [OF b(1) order.refl]
  let ?s = "s1\<lparr>tlsBuffer := Some (append_bytes (rest b) t)\<rparr>"
  have "record_part ?s (append_bytes (rest b) t) (p @ rest b)"
    using e ok(2) okt len by (simp add: record_part_def)
  then have "receiving ?s (p @ rest b)" using ok by (simp add: receiving_def)
  moreover have "rest (advance (room b) b) = []" using a(3) room by simp
  moreover have "tls_loop keeps fresh readCount b s out = tls_loop keeps fresh readCount (advance (room b) b) ?s out"
  proof -
    have "\<not> 5 \<le> (case tlsBuffer s of None \<Rightarrow> unat (remaining b)
        | Some t \<Rightarrow> unat (remaining b) + unat (buf_position t) + (if tlsBufferSized s then 5 else 0))"
      using few s(2) by (auto split: option.splits)
    then show ?thesis using b(2) by (subst tls_loop.simps) (simp add: Let_def t w)
  qed
  ultimately show ?thesis using tls_loop_end [OF a(1)] taken_apart_end [OF a(1), of ?s "p @ rest b"] by (simp add: d)
qed

lemma tls_loop_deframe:
  assumes fresh: "\<And>n. length (fresh n) = n"
  shows "buf_ok b \<Longrightarrow> buf_limit b = readCount \<Longrightarrow> receiving s p \<Longrightarrow>
    taken_apart keeps out (buf_capacity b) (deframe (p @ rest b)) (tls_loop keeps fresh readCount b s out)"
proof (induction "length (rest b)" arbitrary: b s p out rule: less_induct)
  case less
  note b = less.prems(1) and lim = less.prems(2) and s = less.prems(3)
  note room = length_rest [OF b]
  show ?case
  proof (cases "rest b = []")
    case True
    then show ?thesis using tls_loop_end [OF b True] taken_apart_end [OF b s] receiving_deframe [OF s] by simp
  next
    case False
    then have pos: "0 < room b" "hasRemaining b" using room hasRemaining_room [OF b] by auto
    have count: "unat (remaining b) = room b" by (rule unat_remaining [OF b])
    consider (sized) t where "tlsBuffer s = Some t" "tlsBufferSized s"
      | (header) "tlsBuffer s = None \<or> \<not> tlsBufferSized s" by (cases "tlsBuffer s") auto
    then show ?thesis
    proof cases
      case sized
      then have t: "record_part s t p" "0 < room t" and so: "socket_open s" "storage_ok (storage s)" using s by (simp_all add: receiving_def)
      obtain e t' src where w: "writeBytes_buffer (set_limit (min (buf_position b + remaining t) (buf_limit b)) b) None t = (e, t', src)"
        by (cases "writeBytes_buffer (set_limit (min (buf_position b + remaining t) (buf_limit b)) b) None t") auto
      note loop = record_loop [OF b lim so sized(2) t(1) _ w]
      have "taken_apart keeps out' (buf_capacity b) (deframe (rest b')) (tls_loop keeps fresh readCount b' s' out')"
        if "buf_ok b'" "buf_limit b' = readCount" "buf_capacity b' = buf_capacity b" "receiving s' []"
          "length (rest b') = length (rest b) - room t" "room t \<le> length (rest b)" for b' s' out'
        using less.hyps [of b' s' "[]" out'] that t(2) by simp
      from loop [OF this] show ?thesis unfolding tls_loop_sized [OF pos(2) sized w] .
    next
      case header
      have plen: "unat (remaining b) + (case tlsBuffer s of None \<Rightarrow> 0 | Some t \<Rightarrow> unat (buf_position t)) = length (p @ rest b)"
        using header s count room by (auto simp: receiving_def record_part_def behind_position split: option.splits)
      show ?thesis
      proof (cases "length (p @ rest b) < 5")
        case True
        then show ?thesis using short_loop [OF b pos(2) fresh s header] plen by simp
      next
        case long: False
        then have five: "5 \<le> length (p @ rest b)" by simp
        then have n5: "5 \<le> unat (remaining b) + (case tlsBuffer s of None \<Rightarrow> 0 | Some t \<Rightarrow> unat (buf_position t))" using plen by simp
        from header_step [OF b fresh s header five] show ?thesis
        proof (elim disjE conjE exE)
          fix s' assume h: "take 3 (p @ rest b) \<noteq> record_header" "tls_header fresh b s = Inl s'" "\<not> socket_open s'"
          then have "deframe (p @ rest b) = ([], None)" using long by (subst deframe.simps) (simp del: take_append)
          then show ?thesis using tls_loop_refused [OF pos(2) header n5 h(2)] h(3) b by (simp add: taken_apart_def left_over_def)
        next
          fix k t s1
          assume h: "tls_header fresh b s = Inr (advance k b, s1)" "0 < k" "k \<le> room b" "tlsBuffer s1 = Some t" "tlsBufferSized s1"
            "socket_open s1" "storage_ok (storage s1)" "record_part s1 t (take 5 (p @ rest b))" "drop k (rest b) = drop 5 (p @ rest b)"
          note a = advance_ok [OF b h(3)]
          let ?b = "advance k b"
          obtain e t' src where w: "writeBytes_buffer (set_limit (min (buf_position ?b + remaining t) (buf_limit ?b)) ?b) None t = (e, t', src)"
            by (cases "writeBytes_buffer (set_limit (min (buf_position ?b + remaining t) (buf_limit ?b)) ?b) None t") auto
          have lim': "buf_limit ?b = readCount" using lim by simp
          note loop = record_loop [OF a(1) lim' h(6,7,5,8) _ w]
          have "taken_apart keeps out' (buf_capacity ?b) (deframe (rest b')) (tls_loop keeps fresh readCount b' s' out')"
            if "buf_ok b'" "buf_limit b' = readCount" "buf_capacity b' = buf_capacity ?b" "receiving s' []"
              "length (rest b') = length (rest ?b) - room t" "room t \<le> length (rest ?b)" for b' s' out'
            using less.hyps [of b' s' "[]" out'] that h(2) a(3) pos(1) room by simp
          from loop [OF this] have "taken_apart keeps out (buf_capacity b) (deframe (take 5 (p @ rest b) @ rest ?b)) (tls_loop keeps fresh readCount b s out)"
            unfolding tls_loop_framed [OF pos(2) header n5 h(1,4) w] by simp
          moreover have "take 5 (p @ rest b) @ rest ?b = p @ rest b" using a(3) h(9) by (simp only: append_take_drop_id)
          ultimately show ?thesis by simp
        qed
      qed
    qed
  qed
qed

lemma receive_tls_deframe:
  assumes nb: "buf_ok nb" "length c \<le> unat (buf_capacity nb)" and fresh: "\<And>n. length (fresh n) = n" and s: "receiving s p"
  shows "taken_apart keeps [] (buf_capacity nb) (deframe (p @ c)) (receive_tls keeps fresh c nb s)"
proof -
  let ?n = "of_nat (length c) :: u32"
  define b where "b = set_limit ?n (rewind nb\<lparr>buffer := wr 0 c (buffer nb)\<rparr>)"
  have small: "unat ?n = length c" using nb buf_okD [OF nb(1)] by (intro unat_small) simp
  then have "b = nb\<lparr>buf_position := 0, buffer := wr 0 c (buffer nb), buf_limit := ?n\<rparr>"
    using nb(2) by (simp add: b_def set_limit_def rewind_def word_less_nat_alt)
  moreover have "length c \<le> length (buffer nb)" using nb buf_okD [OF nb(1)] by simp
  ultimately have b: "buf_ok b" "buf_limit b = ?n" "rest b = c" "buf_capacity b = buf_capacity nb"
    using nb small by (simp_all add: buf_ok_def rest_def room_def rd_wr_same word_le_nat_alt)
  have "receive_tls keeps fresh c nb s = tls_loop keeps fresh ?n b s []"
    by (simp add: receive_tls_def Let_def b_def rewind_def)
  then show ?thesis using tls_loop_deframe [OF fresh b(1,2) s, of keeps "[]"] by (simp only: b(3,4))
qed

lemma heard_append: "heard keeps (rs @ rs') = heard keeps rs @ (if list_all keeps rs then heard keeps rs' else [])"
  by (induction rs) simp_all

text \<open>The records of a stream that the connection is given, and what is left when the socket stays open.\<close>

definition heard_records :: "(bytes \<Rightarrow> bool) \<Rightarrow> bytes \<Rightarrow> bytes list \<times> bytes option" where
  "heard_records keeps bs = (case deframe bs of (rs, left) \<Rightarrow> (heard keeps rs, if list_all keeps rs then left else None))"

lemma records_append:
  "heard_records keeps xs = (es, l) \<Longrightarrow> heard_records keeps (xs @ ys) =
    (case l of Some r \<Rightarrow> (let (es', l') = heard_records keeps (r @ ys) in (es @ es', l')) | None \<Rightarrow> (es, l))"
  using deframe_append [of xs ys] by (auto simp: heard_records_def heard_append split: prod.splits option.splits if_splits)

lemma receive_tls_records:
  assumes "buf_ok nb" "length c \<le> unat (buf_capacity nb)" "\<And>n. length (fresh n) = n" "receiving s p" and r: "heard_records keeps (p @ c) = (es, l)"
  shows "\<exists>nb' s'. receive_tls keeps fresh c nb s = Some (es, nb', s') \<and> (\<not> socket_open s' \<longleftrightarrow> l = None) \<and>
    buf_ok nb' \<and> buf_capacity nb' = buf_capacity nb \<and> (case l of Some q \<Rightarrow> receiving s' q | None \<Rightarrow> True)"
proof -
  obtain rs left where d: "deframe (p @ c) = (rs, left)" by fastforce
  then have e: "es = heard keeps rs" "l = (if list_all keeps rs then left else None)" using r by (simp_all add: heard_records_def)
  from receive_tls_deframe [OF assms(1-4), of keeps] obtain nb' s' where
    "receive_tls keeps fresh c nb s = Some (es, nb', s')" "buf_ok nb'" "buf_capacity nb' = buf_capacity nb" "left_over keeps (rs, left) s'"
    unfolding taken_apart_def d e(1) by auto
  then show ?thesis using e(2) by (auto simp: left_over_def receiving_def split: option.splits if_splits)
qed

text \<open>The socket is a reader of the TLS stream.\<close>

interpretation tls: stream_reader "\<lambda>(nb, s) c. receive_tls keeps fresh c nb s" "\<lambda>_ (nb, s). \<not> socket_open s"
    "\<lambda>c. c" "\<lambda>c. length c \<le> unat cap" "\<lambda>_ xs. xs" "heard_records keeps" "\<lambda>l. l" "\<lambda>_. True"
    "\<lambda>_ (nb, s) q. (\<forall>n. length (fresh n) = n) \<and> buf_ok nb \<and> buf_capacity nb = cap \<and> receiving s q"
  for keeps :: "bytes \<Rightarrow> bool" and fresh :: "nat \<Rightarrow> bytes" and cap :: u32
proof (unfold_locales, goal_cases)
  case (2 xs es l ys)
  then show ?case by (rule records_append)
next
  case (4 a s q es l)
  then show ?case using receiving_deframe [of "snd s" q] by (auto simp: heard_records_def split: prod.splits)
next
  case (5 a s q c es l)
  obtain nb s' where s: "s = (nb, s')" by fastforce
  have h: "\<And>n. length (fresh n) = n" "buf_ok nb" "buf_capacity nb = cap" "receiving s' q" using 5(1) by (simp_all add: s)
  have "length c \<le> unat (buf_capacity nb)" using 5(2) h(3) by simp
  from receive_tls_records [OF h(2) this h(1,4) 5(3)] show ?case using h(1,3) by (auto simp: s split: option.splits)
qed (simp_all split: option.splits)

lemma receive_all_chunks:
  "socket_open s \<Longrightarrow> receive_all keeps fresh cs nb s =
    read_chunks (\<lambda>(nb, s) c. receive_tls keeps fresh c nb s) (\<lambda>_ (nb, s). \<not> socket_open s) cs (nb, s)"
proof (induction cs arbitrary: nb s)
  case (Cons c cs)
  have closed: "receive_all keeps fresh cs nb' s' = Some ([], nb', s')" if "\<not> socket_open s'" for nb' s' using that by (cases cs) simp_all
  show ?case using Cons by (auto simp: closed split: option.splits)
qed simp

lemma receive_all_deframe:
  assumes "\<And>n. length (fresh n) = n" "buf_ok nb" "\<forall>c \<in> set cs. length c \<le> unat (buf_capacity nb)" "receiving s p"
  shows "\<exists>nb' s'. receive_all keeps fresh cs nb s = Some (heard keeps (fst (deframe (p @ concat cs))), nb', s') \<and>
    left_over keeps (deframe (p @ concat cs)) s'"
proof -
  have o: "socket_open s" using assms(4) by (simp add: receiving_def)
  have h: "(\<lambda>(nb', s) q. (\<forall>n. length (fresh n) = n) \<and> buf_ok nb' \<and> buf_capacity nb' = buf_capacity nb \<and> receiving s q) (nb, s) p"
    using assms by simp
  obtain rs l where d: "deframe (p @ concat cs) = (rs, l)" by fastforce
  then have r: "heard_records keeps (p @ concat (map (\<lambda>c. c) cs)) = (heard keeps rs, if list_all keeps rs then l else None)" by (simp add: heard_records_def)
  from tls.any_chunks [OF h assms(3) r TrueI] o show ?thesis
    by (auto simp: d receive_all_chunks left_over_def split: option.splits if_splits)
qed

text \<open>
  C20. However the network cuts the stream into chunks, the connection is given the bodies of the records of the whole
  stream, in order, up to the one at which it closes the socket.  The receiving always ends, and the socket is open
  after it exactly if every record was accepted and what is left can still become a record.
\<close>

theorem receive_any_chunks:
  assumes "buf_ok networkBuffer" "\<And>n. length (fresh n) = n"
    and "\<And>c. c \<in> set chunks \<Longrightarrow> length c \<le> unat (buf_capacity networkBuffer)"
    and "socket_open s" "storage_ok (storage s)" "tlsBuffer s = None" and d: "deframe (concat chunks) = (records, left)"
  shows "\<exists>networkBuffer' s'. receive_all keeps fresh chunks networkBuffer s = Some (heard keeps records, networkBuffer', s') \<and>
    (socket_open s' \<longleftrightarrow> list_all keeps records \<and> left \<noteq> None)"
proof -
  have "receiving s []" using assms(4-6) by (simp add: receiving_def)
  from receive_all_deframe [OF assms(2,1) _ this, of chunks keeps] assms(3) obtain nb' s' where
    "receive_all keeps fresh chunks networkBuffer s = Some (heard keeps records, nb', s')" "left_over keeps (records, left) s'"
    by (auto simp: d)
  then show ?thesis by (auto simp: left_over_def receiving_def split: if_splits option.splits)
qed

definition sample_socket :: "nat \<Rightarrow> native_buffer list \<Rightarrow> socket" where
  "sample_socket tls q = \<lparr>outgoingByteStream = q, tlsBuffer = None, tlsBufferSized = False, tlsState = tls,
     proxyAuthState = 0, onConnectedSent = True, socket_open = True, storage = new_storage zeros\<rparr>"

definition sample_network_buffer :: native_buffer where
  "sample_network_buffer = new_buffer (replicate 4096 0) 4096"

lemma sample_network_buffer_ok: "buf_ok sample_network_buffer" "buf_capacity sample_network_buffer = 4096"
  by (simp_all add: sample_network_buffer_def new_buffer_def buf_ok_def)

theorem receive_any_chunks_witness:
  "\<exists>networkBuffer' s'. receive_all (\<lambda>r. True) zeros [[0x17, 3], [3, 0, 2, 7], [8, 0x17, 3, 3, 0, 0, 0x16], [3, 3, 0, 0]]
      sample_network_buffer (sample_socket 2 []) = Some ([[7, 8], []], networkBuffer', s') \<and> \<not> socket_open s'"
proof -
  have d: "deframe (concat [[0x17, 3], [3, 0, 2, 7], [8, 0x17, 3, 3, 0, 0, 0x16], [3, 3, 0, 0]]) = ([[7, 8], []], None)"
    by (simp add: deframe.simps record_len_def record_header_def)
  have len: "length c \<le> unat (buf_capacity sample_network_buffer)"
    if "c \<in> set [[0x17, 3], [3, 0, 2, 7], [8, 0x17, 3, 3, 0, 0, 0x16], [3, 3, 0, 0]]" for c
    using that by (auto simp: sample_network_buffer_ok)
  have s: "socket_open (sample_socket 2 [])" "storage_ok (storage (sample_socket 2 []))" "tlsBuffer (sample_socket 2 []) = None"
    by (simp_all add: sample_socket_def zeros_storage)
  have z: "\<And>n. length (zeros n) = n" by (simp add: zeros_def)
  show ?thesis using receive_any_chunks [OF sample_network_buffer_ok(1) z len s d, of "\<lambda>r. True"]
    by (simp del: receive_all.simps)
qed

end
