(* ===== verification/SocketSend.thy ===== *)
theory SocketSend
  imports Socket
begin

text \<open>
  Sending the queue of a connection: the queue is a stream of bytes, whatever the buffers are that hold it.  Plainly it
  is sent in order whatever \<open>send\<close> accepts; in TLS the other side takes the stream out of the records again, provided
  that \<open>send\<close> takes whole records.
\<close>

section \<open>Events\<close>

text \<open>
  \<open>EPOLLOUT\<close> time after time, each with its own \<open>send\<close>; a closed socket has no events.  Between the events the network
  buffer holds nothing that is used.
\<close>

fun send_events :: "(bytes \<Rightarrow> int) list \<Rightarrow> native_buffer \<Rightarrow> socket \<Rightarrow> bytes \<times> socket" where
  "send_events [] networkBuffer s = ([], s)"
| "send_events (f # fs) networkBuffer s =
     (if socket_open s
      then let (sent, s) = send_queue f networkBuffer s; (sent', s) = send_events fs networkBuffer s in (sent @ sent', s)
      else ([], s))"

section \<open>What one event sends\<close>

lemma clear_ok:
  assumes "buf_ok b"
  shows "buf_ok (clear b)" "room (clear b) = unat (buf_capacity b)" "buf_position (clear b) = 0"
  using assms by (simp_all add: clear_def buf_ok_def room_def)

lemma flip_rest:
  assumes "buf_ok b"
  shows "buf_ok (flip b)" "rest (flip b) = behind b" "buf_position (flip b) = 0"
  using buf_okD [OF assms] by (simp_all add: flip_def buf_ok_def rest_def room_def behind_def rd_def word_le_nat_alt)

lemma collected:
  assumes "buf_ok nb" "stream_ok q"
  defines "b \<equiv> flip (get_loop q (clear nb))"
  shows "unat (remaining b) = min (unat (buf_capacity nb)) (length (stream_bytes q))"
    and "n \<le> unat (remaining b) \<Longrightarrow> rd 0 n (buffer b) = take n (stream_bytes q)"
proof -
  note c = clear_ok [OF assms(1)]
  let ?bs = "take (unat (buf_capacity nb)) (stream_bytes q)"
  have g: "get_loop q (clear nb) = append_bytes ?bs (clear nb)"
    using get_loop_bytes [OF assms(2) c(1)] c(2) by simp
  have fit: "length ?bs \<le> room (clear nb)" using c(2) by simp
  note e = append_bytes_ok [OF c(1) fit]
  note f = flip_rest [OF e(1)]
  have "behind (clear nb) = []" by (simp add: behind_def c(3))
  then have r: "rest b = ?bs" using e(3) f(2) by (simp add: b_def g)
  have ok: "buf_ok b" using f(1) by (simp add: b_def g)
  show len: "unat (remaining b) = min (unat (buf_capacity nb)) (length (stream_bytes q))"
    using unat_remaining [OF ok] length_rest [OF ok] r by simp
  assume n: "n \<le> unat (remaining b)"
  have "rd 0 n (buffer b) = take n (rest b)"
    using n unat_remaining [OF ok] f(3) by (simp add: rest_def rd_take b_def g)
  then show "rd 0 n (buffer b) = take n (stream_bytes q)" using n len by (simp add: r min_absorb1)
qed

definition sending :: "socket \<Rightarrow> bool" where
  "sending s \<longleftrightarrow> stream_ok (outgoingByteStream s) \<and> storage_ok (storage s)"

abbreviation stream :: "socket \<Rightarrow> bytes" where
  "stream s \<equiv> stream_bytes (outgoingByteStream s)"

lemma closed_stream [simp]: "stream (closeSocket s) = []"
  by (simp add: closeSocket_def clean_def Let_def split: option.splits)

text \<open>An event of a plain connection sends a part of the stream from its start, or closes the socket.\<close>

lemma send_plain:
  assumes nb: "buf_ok nb" and s: "sending s" "tlsState s = 0"
    and f: "\<And>t. -1 \<le> f t \<and> f t \<le> int (length t)" and r: "send_queue f nb s = (sent, s')" and o: "socket_open s"
  shows "socket_open s' \<and> sending s' \<and> tlsState s' = 0 \<and> (\<exists>n. sent = take n (stream s) \<and> stream s' = drop n (stream s)) \<or>
     \<not> socket_open s' \<and> sent = [] \<and> stream s' = []"
proof -
  have q: "stream_ok (outgoingByteStream s)" "storage_ok (storage s)" using s(1) by (simp_all add: sending_def)
  define b where "b = flip (get_loop (outgoingByteStream s) (clear nb))"
  define t where "t = take (unat (remaining b)) (stream s)"
  have temp: "rd 0 (unat (remaining b)) (buffer b) = t" unfolding t_def b_def by (rule collected(2) [OF nb q(1)]) simp
  have unf: "send_queue f nb s =
      (if remaining b = 0 then ([], s)
       else if f t < 0 then ([], closeSocket s)
       else let (q, st) = discard (word_of_int (f t)) (outgoingByteStream s) (storage s)
            in (take (nat (f t)) t, s\<lparr>outgoingByteStream := q, storage := st\<rparr>))"
    using s(2) by (simp add: send_queue_def Let_def temp flip: b_def)
  consider "remaining b = 0" | "remaining b \<noteq> 0" "f t < 0" | (pos) "remaining b \<noteq> 0" "0 \<le> f t" by linarith
  then show ?thesis
  proof cases
    case 1
    then have "sent = take 0 (stream s) \<and> s' = s" using r unf by simp
    then show ?thesis using s o by (intro disjI1 conjI exI [of _ 0]) simp_all
  next
    case 2
    then have "sent = [] \<and> s' = closeSocket s" using r unf by simp
    then show ?thesis by simp
  next
    case pos
    obtain q' st' where d: "discard (word_of_int (f t)) (outgoingByteStream s) (storage s) = (q', st')" by fastforce
    have "length t \<le> unat (remaining b)" by (simp add: t_def)
    then have "length t < 2 ^ 32" using unsigned_less [of "remaining b", where 'a = nat] by simp
    then have small: "f t < 2 ^ 32" using f [of t] by simp
    then have n: "unat (word_of_int (f t) :: u32) = nat (f t)" using pos by (simp add: unat_eq_nat_uint uint_word_of_int)
    have "nat (f t) \<le> length t" using f [of t] by (simp only: nat_le_iff)
    then have tk: "take (nat (f t)) t = take (nat (f t)) (stream s)" by (simp add: t_def min_absorb1)
    have "\<not> f t < 0" using pos by simp
    then have e: "sent = take (nat (f t)) t" "s' = s\<lparr>outgoingByteStream := q', storage := st'\<rparr>" using r unf pos d by simp_all
    have "stream s' = drop (nat (f t)) (stream s)" "sending s'" using discard_bytes [OF q d] n by (simp_all add: e(2) sending_def)
    then show ?thesis using e tk s(2) o by (intro disjI1 conjI exI [of _ "nat (f t)"]) simp_all
  qed
qed

text \<open>An event of a TLS connection whose \<open>send\<close> takes everything: one record.\<close>

definition frame :: "bytes \<Rightarrow> bytes" where
  "frame body = record_header @ [of_nat (length body div 256), of_nat (length body)] @ body"

definition hello_end :: "socket \<Rightarrow> bytes" where
  "hello_end s = (if tlsState s = 1 then change_cipher_spec else [])"

lemma length_bytes:
  "(ucast (drop_bit 8 n AND 0xff) :: u8) = of_nat (unat (n :: u32) div 256)" "(ucast (n AND 0xff) :: u8) = of_nat (unat n)"
proof -
  have low: "(ucast (m AND 0xff) :: u8) = of_nat (unat m)" for m :: u32
    unfolding b0_def [symmetric] by (simp add: bit_eq_iff bit_b0 bit_ucast_iff)
  show "(ucast (n AND 0xff) :: u8) = of_nat (unat n)" by (rule low)
  have "unat (drop_bit 8 n) = unat n div 256" by (simp only: unat_drop_bit_eq) (simp add: drop_bit_eq_div)
  then show "(ucast (drop_bit 8 n AND 0xff) :: u8) = of_nat (unat n div 256)" using low [of "drop_bit 8 n"] by (simp only:)
qed

lemma send_record:
  assumes nb: "buf_ok nb" "2878 \<le> unat (buf_capacity nb)" and s: "sending s" "tlsState s \<noteq> 0"
    and f: "\<And>t. f t = int (length t)" and r: "send_queue f nb s = (sent, s')" and data: "stream s \<noteq> []"
  shows "sent = hello_end s @ frame (take 2878 (stream s)) \<and> sending s' \<and> stream s' = drop 2878 (stream s) \<and>
    socket_open s' = socket_open s \<and> tlsState s' \<noteq> 0 \<and> hello_end s' = []"
proof -
  have q: "stream_ok (outgoingByteStream s)" "storage_ok (storage s)" using s(1) by (simp_all add: sending_def)
  define b where "b = flip (get_loop (outgoingByteStream s) (clear nb))"
  note c = collected [OF nb(1) q(1), folded b_def]
  define n where "n = (if remaining b > 2878 then 2878 else remaining b)"
  have un: "unat n = min 2878 (length (stream s))"
    using nb(2) c(1) by (auto simp: n_def word_less_nat_alt)
  have nz: "remaining b \<noteq> 0" using un data by (auto simp: n_def min_def split: if_splits)
  have "unat n \<le> unat (remaining b)" by (simp add: n_def word_less_nat_alt)
  from c(2) [OF this] have temp: "rd 0 (unat n) (buffer b) = take 2878 (stream s)" by (simp add: un min_def)
  have len: "unat n = length (take 2878 (stream s))" by (simp add: un)
  let ?s = "if tlsState s = 1 then s\<lparr>tlsState := 2\<rparr> else s"
  let ?t = "hello_end s @ frame (take 2878 (stream s))"
  have h: "(if tlsState s = 1 then (change_cipher_spec, s\<lparr>tlsState := 2\<rparr>) else ([], s)) = (hello_end s, ?s)"
    by (simp add: hello_end_def)
  have t: "((hello_end s @ record_header) @ [ucast (drop_bit 8 n AND 0xff), ucast (n AND 0xff)]) @ take 2878 (stream s) = ?t"
    unfolding frame_def length_bytes(1) by (simp only: length_bytes(2) len append_assoc append.simps)
  define hs where "hs = length ((hello_end s @ record_header) @ [ucast (drop_bit 8 n AND 0xff), ucast (n AND 0xff)])"
  have lt: "length ?t = hs + unat n" by (simp add: hs_def frame_def len)
  have hs: "hs \<le> 11" by (simp add: hs_def hello_end_def change_cipher_spec_def record_header_def)
  have "send_queue f nb s =
      (if int (length ?t) mod 2 ^ 64 < int hs then (take (length ?t) ?t, closeSocket ?s)
       else let (q, st) = discard (word_of_int (int (length ?t) - int hs)) (outgoingByteStream ?s) (storage ?s)
            in (take (length ?t) ?t, ?s\<lparr>outgoingByteStream := q, storage := st\<rparr>))"
    unfolding send_queue_def Let_def b_def [symmetric] n_def [symmetric] h prod.case temp f t hs_def [symmetric]
    using nz s(2) by simp
  moreover have "int (length ?t) mod 2 ^ 64 = int (length ?t)" using hs un lt by simp
  moreover have "(word_of_int (int (length ?t) - int hs) :: u32) = n" unfolding lt by simp
  ultimately have e: "send_queue f nb s =
      (let (q, st) = discard n (outgoingByteStream s) (storage s) in (?t, ?s\<lparr>outgoingByteStream := q, storage := st\<rparr>))"
    using lt by simp
  obtain q' st' where d: "discard n (outgoingByteStream s) (storage s) = (q', st')" by fastforce
  have e': "sent = ?t" "s' = ?s\<lparr>outgoingByteStream := q', storage := st'\<rparr>" using r e d by simp_all
  have "drop (unat n) (stream s) = drop 2878 (stream s)" by (simp add: un min_def)
  then show ?thesis using discard_bytes [OF q d] e' s(2) by (auto simp: sending_def hello_end_def)
qed

section \<open>What the events send together\<close>

lemma send_events_plain:
  "buf_ok nb \<Longrightarrow> sending s \<Longrightarrow> tlsState s = 0 \<Longrightarrow> socket_open s \<Longrightarrow> (\<And>f t. f \<in> set fs \<Longrightarrow> -1 \<le> f t \<and> f t \<le> int (length t)) \<Longrightarrow>
    send_events fs nb s = (sent, s') \<Longrightarrow>
    \<exists>later. stream s = sent @ later \<and> stream s' = (if socket_open s' then later else [])"
proof (induction fs arbitrary: s sent s')
  case (Cons f fs)
  obtain sent1 s1 where r: "send_queue f nb s = (sent1, s1)" by fastforce
  have f: "\<And>t. -1 \<le> f t \<and> f t \<le> int (length t)" using Cons.prems(5) [of f] by simp
  obtain sent2 s2 where r2: "send_events fs nb s1 = (sent2, s2)" by fastforce
  have e: "sent = sent1 @ sent2" "s' = s2" using Cons.prems(4,6) by (simp_all add: r r2)
  from send_plain [OF Cons.prems(1-3) f r Cons.prems(4)] show ?case
  proof (elim disjE conjE exE)
    fix n assume s1: "socket_open s1" "sending s1" "tlsState s1 = 0" and n: "sent1 = take n (stream s)" "stream s1 = drop n (stream s)"
    from Cons.IH [OF Cons.prems(1) s1(2,3,1) _ r2] Cons.prems(5) obtain later where
      "stream s1 = sent2 @ later" "stream s2 = (if socket_open s2 then later else [])" by auto
    moreover have "stream s = sent1 @ stream s1" using n by simp
    ultimately show ?thesis by (simp add: e)
  next
    assume c: "\<not> socket_open s1" "sent1 = []" "stream s1 = []"
    then have "send_events fs nb s1 = ([], s1)" by (cases fs) simp_all
    then show ?thesis using c r2 e by simp
  qed
qed simp

text \<open>
  Whatever \<open>send\<close> accepts in each of the events, all, a part, nothing or a failure: what a plain connection has sent
  is the start of the queue's stream, in order, and while the socket is open the queue holds exactly the rest.
\<close>

theorem send_plain_in_order:
  assumes "buf_ok networkBuffer" "stream_ok (outgoingByteStream s)" "storage_ok (storage s)" "tlsState s = 0" "socket_open s"
    and "\<And>f t. f \<in> set fs \<Longrightarrow> -1 \<le> f t \<and> f t \<le> int (length t)" and "send_events fs networkBuffer s = (sent, s')"
  shows "\<exists>later. stream_bytes (outgoingByteStream s) = sent @ later \<and>
    stream_bytes (outgoingByteStream s') = (if socket_open s' then later else [])"
proof -
  have "sending s" using assms(2,3) by (simp add: sending_def)
  from send_events_plain [OF assms(1) this assms(4,5) _ assms(7)] assms(6) show ?thesis by simp
qed

lemma send_events_closed [simp]: "\<not> socket_open s \<Longrightarrow> send_events fs nb s = ([], s)"
  by (cases fs) simp_all

lemma send_events_empty:
  "tlsState s \<noteq> 0 \<Longrightarrow> stream s = [] \<Longrightarrow> buf_ok nb \<Longrightarrow> sending s \<Longrightarrow> send_events fs nb s = ([], s)"
proof (induction fs)
  case (Cons f fs)
  have q: "stream_ok (outgoingByteStream s)" using Cons.prems(4) by (simp add: sending_def)
  have "remaining (flip (get_loop (outgoingByteStream s) (clear nb))) = 0"
    using collected(1) [OF Cons.prems(3) q] Cons.prems(2) by (simp add: unat_eq_0)
  then show ?case using Cons by (simp add: send_queue_def Let_def)
qed simp

lemma send_events_records:
  assumes "buf_ok nb" "2878 \<le> unat (buf_capacity nb)"
  shows "sending s \<Longrightarrow> tlsState s \<noteq> 0 \<Longrightarrow> socket_open s \<Longrightarrow> (\<And>f t. f \<in> set fs \<Longrightarrow> f t = int (length t)) \<Longrightarrow>
    send_events fs nb s = (sent, s') \<Longrightarrow>
    \<exists>rs. sent = (if rs = [] then [] else hello_end s @ concat (map frame rs)) \<and> (\<forall>r \<in> set rs. length r \<le> 2878) \<and>
      concat rs = take (2878 * length fs) (stream s) \<and> stream s' = drop (2878 * length fs) (stream s) \<and> socket_open s'"
proof (induction fs arbitrary: s sent s')
  case (Cons f fs)
  show ?case
  proof (cases "stream s = []")
    case True
    then show ?thesis using send_events_empty [OF Cons.prems(2) True assms(1) Cons.prems(1), of "f # fs"] Cons.prems(3,5)
      by (intro exI [of _ "[]"]) auto
  next
    case False
    obtain sent1 s1 where r: "send_queue f nb s = (sent1, s1)" by fastforce
    obtain sent2 s2 where r2: "send_events fs nb s1 = (sent2, s2)" by fastforce
    have e: "sent = sent1 @ sent2" "s' = s2" using Cons.prems(3,5) by (simp_all add: r r2)
    have f: "\<And>t. f t = int (length t)" using Cons.prems(4) by simp
    note st = send_record [OF assms Cons.prems(1,2) f r False]
    have "sending s1" "tlsState s1 \<noteq> 0" "socket_open s1" using st Cons.prems(3) by simp_all
    from Cons.IH [OF this _ r2] Cons.prems(4) obtain rs where
      i: "sent2 = (if rs = [] then [] else hello_end s1 @ concat (map frame rs))" "\<forall>r \<in> set rs. length r \<le> 2878" "socket_open s2"
        "concat rs = take (2878 * length fs) (stream s1)" "stream s2 = drop (2878 * length fs) (stream s1)" by auto
    have h1: "hello_end s1 = []" "stream s1 = drop 2878 (stream s)" using st by simp_all
    have rs: "sent2 = concat (map frame rs)" "concat rs = take (2878 * length fs) (drop 2878 (stream s))"
      "stream s2 = drop (2878 * length fs) (drop 2878 (stream s))" "\<forall>r \<in> set rs. length r \<le> 2878" "socket_open s2"
      using i h1 by simp_all
    have "take (2878 * length (f # fs)) (stream s) = take 2878 (stream s) @ take (2878 * length fs) (drop 2878 (stream s))"
      using take_add [of 2878 "2878 * length fs" "stream s"] by simp
    moreover have "sent1 = hello_end s @ frame (take 2878 (stream s))" using st by simp
    ultimately show ?thesis using rs by (intro exI [of _ "take 2878 (stream s) # rs"]) (simp add: e ac_simps)
  qed
qed (auto intro: exI [of _ "[]"])

lemma deframe_frame:
  assumes "length body < 65536"
  shows "deframe (frame body @ bs) = (body # fst (deframe bs), snd (deframe bs))"
proof -
  have n: "record_len (frame body @ bs) = length body"
    using assms mult_div_mod_eq [of 256 "length body"]
    by (simp add: frame_def record_len_def record_header_def unat_of_nat take_bit_eq_mod less_mult_imp_div_less)
  have "take 3 (frame body @ bs) = record_header" "length (frame body) = 5 + length body" "drop 5 (frame body) = body"
    by (simp_all add: frame_def record_header_def)
  then show ?thesis using n by (subst deframe.simps) (simp split: prod.splits)
qed

lemma deframe_frames: "\<forall>r \<in> set rs. length r < 65536 \<Longrightarrow> deframe (concat (map frame rs)) = (rs, Some [])"
  by (induction rs) (simp_all add: deframe_frame deframe.simps [of "[]"])

definition sample_queue :: byte_stream where
  "sample_queue = [new_buffer [1, 2, 3] 3, new_buffer [4, 5] 2]"

lemma sample_queue_ok: "stream_ok sample_queue" "stream_bytes sample_queue = [1, 2, 3, 4, 5]"
  by (simp_all add: sample_queue_def new_buffer_def buf_ok_def rest_def rd_def room_def)

lemma sample_socket_fields [simp]:
  "outgoingByteStream (sample_socket tls q) = q" "storage_ok (storage (sample_socket tls q))" "tlsState (sample_socket tls q) = tls"
  "socket_open (sample_socket tls q)" "tlsBuffer (sample_socket tls q) = None"
  by (simp_all add: sample_socket_def zeros_storage)

theorem send_plain_in_order_witness:
  "\<exists>sent s' later. send_events [\<lambda>t. min 2 (int (length t)), \<lambda>t. -1, \<lambda>t. 0] sample_network_buffer (sample_socket 0 sample_queue) = (sent, s') \<and>
     [1, 2, 3, 4, 5] = sent @ later \<and> stream_bytes (outgoingByteStream s') = (if socket_open s' then later else [])"
proof -
  let ?fs = "[\<lambda>t. min 2 (int (length t)), \<lambda>t. -1, \<lambda>t :: bytes. 0]"
  obtain sent s' where e: "send_events ?fs sample_network_buffer (sample_socket 0 sample_queue) = (sent, s')" by fastforce
  have f: "-1 \<le> f t \<and> f t \<le> int (length t)" if "f \<in> set ?fs" for f t using that by auto
  have q: "stream_ok (outgoingByteStream (sample_socket 0 sample_queue))" using sample_queue_ok(1) by simp
  have "\<exists>later. stream_bytes (outgoingByteStream (sample_socket 0 sample_queue)) = sent @ later \<and>
      stream_bytes (outgoingByteStream s') = (if socket_open s' then later else [])"
    by (rule send_plain_in_order [OF sample_network_buffer_ok(1) q _ _ _ _ e]) (simp, simp, simp, rule f)
  then show ?thesis using e sample_queue_ok(2) by auto
qed

text \<open>
  C21. In TLS, when \<open>send\<close> takes whole records, as many events as the stream has pieces of 2878 bytes empty the queue, and
  what the other side is given, however the network cuts the bytes that follow the end of the handshake, is the stream.
\<close>

theorem tls_transport:
  assumes "buf_ok networkBuffer" "2878 \<le> unat (buf_capacity networkBuffer)"
    and "stream_ok (outgoingByteStream s)" "storage_ok (storage s)" "tlsState s \<noteq> 0" "socket_open s"
    and "\<And>f t. f \<in> set fs \<Longrightarrow> f t = int (length t)" and "length (stream_bytes (outgoingByteStream s)) \<le> 2878 * length fs"
    and "send_events fs networkBuffer s = (sent, s')"
    and chunks: "concat chunks = drop (length (hello_end s)) sent"
    and "buf_ok nb" "\<And>n. length (fresh n) = n" "\<And>c. c \<in> set chunks \<Longrightarrow> length c \<le> unat (buf_capacity nb)"
    and "socket_open r" "storage_ok (storage r)" "tlsBuffer r = None"
  shows "stream_bytes (outgoingByteStream s') = [] \<and>
    (\<exists>records nb' r'. receive_all (\<lambda>_. True) fresh chunks nb r = Some (records, nb', r') \<and> socket_open r' \<and>
       concat records = stream_bytes (outgoingByteStream s))"
proof -
  have "sending s" using assms(3,4) by (simp add: sending_def)
  from send_events_records [OF assms(1,2) this assms(5,6) _ assms(9)] assms(7) obtain rs where
    rs: "sent = (if rs = [] then [] else hello_end s @ concat (map frame rs))" "\<forall>r \<in> set rs. length r \<le> 2878"
      "concat rs = take (2878 * length fs) (stream s)" "stream s' = drop (2878 * length fs) (stream s)" by auto
  have "concat chunks = concat (map frame rs)" using rs(1) chunks by (cases rs) simp_all
  moreover have "\<forall>r \<in> set rs. length r < 65536" using rs(2) by (auto intro: le_less_trans)
  ultimately have d: "deframe (concat chunks) = (rs, Some [])" using deframe_frames by simp
  have "receiving r []" using assms(14-16) by (simp add: receiving_def)
  from receive_all_deframe [OF assms(12,11) _ this, of chunks "\<lambda>_. True"] assms(13) obtain nb' r' where
    "receive_all (\<lambda>_. True) fresh chunks nb r = Some (heard (\<lambda>_. True) rs, nb', r')" "left_over (\<lambda>_. True) (rs, Some []) r'"
    by (auto simp: d)
  moreover have "heard (\<lambda>_. True) rs = rs" by (induction rs) simp_all
  moreover have "list_all (\<lambda>_. True) rs" by (simp add: list_all_iff)
  ultimately show ?thesis using rs(3,4) assms(8) by (auto simp: left_over_def receiving_def)
qed

theorem tls_transport_witness:
  "\<exists>sent s' records nb r. send_events [\<lambda>t. int (length t)] sample_network_buffer (sample_socket 1 sample_queue) = (sent, s') \<and>
     receive_all (\<lambda>_. True) zeros (map (\<lambda>x. [x]) (drop 6 sent)) sample_network_buffer (sample_socket 2 []) = Some (records, nb, r) \<and>
     concat records = [1, 2, 3, 4, 5] \<and> stream_bytes (outgoingByteStream s') = []"
proof -
  let ?s = "sample_socket 1 sample_queue" and ?r = "sample_socket 2 []"
  obtain sent s' where e: "send_events [\<lambda>t. int (length t)] sample_network_buffer ?s = (sent, s')" by fastforce
  let ?chunks = "map (\<lambda>x. [x]) (drop 6 sent)"
  have "length (hello_end ?s) = 6" by (simp add: hello_end_def change_cipher_spec_def)
  then have c: "concat ?chunks = drop (length (hello_end ?s)) sent" by simp
  have len: "length c \<le> unat (buf_capacity sample_network_buffer)" if "c \<in> set ?chunks" for c
    using that by (auto simp: sample_network_buffer_ok)
  have q: "stream_ok (outgoingByteStream ?s)" "length (stream_bytes (outgoingByteStream ?s)) \<le> 2878 * length [\<lambda>t :: bytes. int (length t)]"
    using sample_queue_ok by simp_all
  have z: "\<And>n. length (zeros n) = n" by (simp add: zeros_def)
  have cap: "2878 \<le> unat (buf_capacity sample_network_buffer)" by (simp add: sample_network_buffer_ok)
  have "stream_bytes (outgoingByteStream s') = [] \<and>
    (\<exists>records nb' r'. receive_all (\<lambda>_. True) zeros ?chunks sample_network_buffer ?r = Some (records, nb', r') \<and> socket_open r' \<and>
       concat records = stream_bytes (outgoingByteStream ?s))"
    by (rule tls_transport [OF sample_network_buffer_ok(1) cap q(1) _ _ _ _ q(2) e c sample_network_buffer_ok(1) z len]) simp_all
  then show ?thesis using e sample_queue_ok(2) by auto
qed

text \<open>
  C30. A failure of \<open>send\<close> in TLS is not noticed: its -1 is compared as an unsigned number, so the socket stays open, and the
  whole queue is discarded although none of it was sent.
\<close>

theorem send_failure_unnoticed:
  assumes "buf_ok networkBuffer" "0 < buf_capacity networkBuffer" "stream_ok (outgoingByteStream s)" "storage_ok (storage s)"
    and "tlsState s \<noteq> 0" "stream_bytes (outgoingByteStream s) \<noteq> []" "length (stream_bytes (outgoingByteStream s)) \<le> 2 ^ 31"
    and "send_queue (\<lambda>_. -1) networkBuffer s = (sent, s')"
  shows "sent = [] \<and> socket_open s' = socket_open s \<and> stream_bytes (outgoingByteStream s') = []"
proof -
  define b where "b = flip (get_loop (outgoingByteStream s) (clear networkBuffer))"
  have "0 < unat (buf_capacity networkBuffer)" using assms(2) by (simp add: word_less_nat_alt)
  then have nz: "remaining b \<noteq> 0"
    using collected(1) [OF assms(1,3), folded b_def] assms(6) by (auto simp: min_def split: if_splits)
  define n where "n = (if remaining b > 2878 then 2878 else remaining b)"
  let ?s = "if tlsState s = 1 then s\<lparr>tlsState := 2\<rparr> else s"
  have h: "(if tlsState s = 1 then (change_cipher_spec, s\<lparr>tlsState := 2\<rparr>) else ([], s)) = (hello_end s, ?s)"
    by (simp add: hello_end_def)
  define hs where "hs = length ((hello_end s @ record_header) @ [ucast (drop_bit 8 n AND 0xff), ucast (n AND 0xff)])"
  have hs: "hs = 5 \<or> hs = 11" by (auto simp: hs_def hello_end_def change_cipher_spec_def record_header_def)
  have "send_queue (\<lambda>_. -1) networkBuffer s =
      (let (q, st) = discard (word_of_int (-1 - int hs)) (outgoingByteStream s) (storage s)
       in ([], ?s\<lparr>outgoingByteStream := q, storage := st\<rparr>))"
    unfolding send_queue_def Let_def b_def [symmetric] n_def [symmetric] h prod.case hs_def [symmetric]
    using nz assms(5) hs by (cases "tlsState s = 1") auto
  moreover obtain q' st' where d: "discard (word_of_int (-1 - int hs)) (outgoingByteStream s) (storage s) = (q', st')" by fastforce
  ultimately have "(sent, s') = ([], ?s\<lparr>outgoingByteStream := q', storage := st'\<rparr>)" unfolding assms(8) by (simp only: Let_def prod.case)
  then have e: "sent = []" "s' = ?s\<lparr>outgoingByteStream := q', storage := st'\<rparr>" by simp_all
  have "unat (word_of_int (-1 - int hs) :: u32) \<ge> 2 ^ 31" using hs by auto
  then have "drop (unat (word_of_int (-1 - int hs) :: u32)) (stream s) = []" using assms(7) by simp
  then show ?thesis using discard_bytes [OF assms(3,4) d] e by simp
qed

theorem send_failure_unnoticed_witness:
  "\<exists>s'. send_queue (\<lambda>_. -1) sample_network_buffer (sample_socket 2 sample_queue) = ([], s') \<and> socket_open s' \<and>
     stream_bytes (outgoingByteStream s') = []"
proof -
  let ?s = "sample_socket 2 sample_queue"
  obtain sent s' where e: "send_queue (\<lambda>_. -1) sample_network_buffer ?s = (sent, s')" by fastforce
  have q: "stream_ok (outgoingByteStream ?s)" "stream_bytes (outgoingByteStream ?s) \<noteq> []" "length (stream_bytes (outgoingByteStream ?s)) \<le> 2 ^ 31"
    using sample_queue_ok by simp_all
  have cap: "0 < buf_capacity sample_network_buffer" by (simp add: sample_network_buffer_ok)
  from send_failure_unnoticed [OF sample_network_buffer_ok(1) cap q(1) _ _ q(2,3) e] e show ?thesis by simp
qed

end
