(* ===== verification/ProxyHandshake.thy ===== *)
theory ProxyHandshake
  imports SocketSend
begin

text \<open>
  The SOCKS5 handshake with a proxy as a state machine: the states are those of \<open>proxyAuthState\<close>, the steps are the events
  of the socket, in any order and with anything the proxy sends.
\<close>

section \<open>The steps\<close>

text \<open>
  A state is the socket with the messages that it has handed to \<open>send\<close> without an error, and what it has received; only an open socket
  that is in the handshake has steps.
\<close>

type_synonym handshake_state = "socket \<times> bytes list \<times> bytes list"

inductive handshake_step :: "proxy_settings \<Rightarrow> handshake_state \<Rightarrow> handshake_state \<Rightarrow> bool" for cfg where
  writable: "handshake_step cfg (s, sent, got) (s', (case m of None \<Rightarrow> sent | Some m \<Rightarrow> sent @ [m]), got)"
    if "socket_open s" "proxyAuthState s \<noteq> 0" "proxy_write cfg accepted s = (m, s')"
| readable: "handshake_step cfg (s, sent, got) (proxy_read received s, sent, got @ [received])"
    if "socket_open s" "proxyAuthState s \<noteq> 0" "received \<noteq> []"

inductive_cases handshake_stepE: "handshake_step cfg (s, sent, got) st"

abbreviation handshake :: "proxy_settings \<Rightarrow> handshake_state \<Rightarrow> handshake_state \<Rightarrow> bool" where
  "handshake cfg \<equiv> (handshake_step cfg)\<^sup>*\<^sup>*"

section \<open>The messages\<close>

definition greeting :: bytes where
  "greeting = [0x05, 0x02, 0x00, 0x02]"

definition credentials :: "proxy_settings \<Rightarrow> bytes" where
  "credentials cfg = (let n = length (proxyUser cfg) mod 256; m = length (proxyPassword cfg) mod 256
     in [0x01, of_nat n] @ take n (proxyUser cfg) @ [of_nat m] @ take m (proxyPassword cfg))"

definition connect_request :: "proxy_settings \<Rightarrow> bytes" where
  "connect_request cfg = [0x05, 0x01, 0x00, if proxy_ipv6 cfg then 0x04 else 0x01] @ proxy_target cfg @ proxy_port cfg"

definition reply :: "bytes list \<Rightarrow> u8 \<Rightarrow> bool" where
  "reply got x \<longleftrightarrow> (\<exists>r \<in> set got. length r = 2 \<and> r ! 1 = x)"

text \<open>
  What has been sent in each state.  The proxy may choose no authentication, or take the credentials after it has asked
  for them.
\<close>

definition before_connect :: "proxy_settings \<Rightarrow> bytes list \<Rightarrow> bytes list \<Rightarrow> bool" where
  "before_connect cfg sent got \<longleftrightarrow>
     sent = [greeting] \<and> reply got 0 \<or> sent = [greeting, credentials cfg] \<and> reply got 2 \<and> reply got 0"

definition connected :: "proxy_settings \<Rightarrow> bytes list \<Rightarrow> bytes list \<Rightarrow> bool" where
  "connected cfg sent got \<longleftrightarrow> (\<exists>sent'. sent = sent' @ [connect_request cfg] \<and> before_connect cfg sent' got)"

fun handshake_inv :: "proxy_settings \<Rightarrow> handshake_state \<Rightarrow> bool" where
  "handshake_inv cfg (s, sent, got) \<longleftrightarrow> (socket_open s \<longrightarrow>
     proxyAuthState s = 1 \<and> sent = [] \<or>
     proxyAuthState s = 2 \<and> sent = [greeting] \<or>
     proxyAuthState s = 3 \<and> sent = [greeting] \<and> reply got 2 \<or>
     proxyAuthState s = 4 \<and> sent = [greeting, credentials cfg] \<and> reply got 2 \<or>
     proxyAuthState s = 5 \<and> before_connect cfg sent got \<or>
     proxyAuthState s = 6 \<and> connected cfg sent got \<or>
     proxyAuthState s = 0 \<and> connected cfg sent got \<and> (\<exists>r \<in> set got. 2 < length r \<and> r ! 1 = 0))"

lemma reply_snoc [simp]: "reply (got @ [r]) x \<longleftrightarrow> reply got x \<or> length r = 2 \<and> r ! 1 = x"
  by (auto simp: reply_def)

lemma before_connect_mono: "before_connect cfg sent got \<Longrightarrow> before_connect cfg sent (got @ [r])"
  by (auto simp: before_connect_def)

lemma connected_mono: "connected cfg sent got \<Longrightarrow> connected cfg sent (got @ [r])"
  by (auto simp: connected_def before_connect_mono)

text \<open>The lengths of the name and of the password are sent modulo 256, and as many of their bytes.\<close>

lemma proxy_messages:
  "proxy_message cfg s =
     (if proxyAuthState s = 1 then (Some greeting, s\<lparr>proxyAuthState := 2\<rparr>)
      else if proxyAuthState s = 3 then (Some (credentials cfg), s\<lparr>proxyAuthState := 4\<rparr>)
      else if proxyAuthState s = 5 then (Some (connect_request cfg), s\<lparr>proxyAuthState := 6\<rparr>)
      else (None, s))"
proof -
  have n: "unat (of_nat k :: u8) = k mod 256" for k by (simp add: unat_of_nat)
  have m: "(of_nat (k mod 256) :: u8) = of_nat k" for k by (simp add: word_unat_eq_iff n)
  show ?thesis by (simp only: proxy_message_def greeting_def credentials_def connect_request_def Let_def n m)
qed

lemma not_open [simp]: "\<not> socket_open s \<Longrightarrow> handshake_inv cfg (s, sent, got)"
  by simp

lemma handshake_writes:
  assumes "handshake_inv cfg (s, sent, got)" "socket_open s" "proxyAuthState s \<noteq> 0" "proxy_write cfg accepted s = (m, s')"
  shows "handshake_inv cfg (s', (case m of None \<Rightarrow> sent | Some m \<Rightarrow> sent @ [m]), got)"
proof -
  let ?a = "proxyAuthState s"
  have step: "handshake_inv cfg (s', (case m of None \<Rightarrow> sent | Some m \<Rightarrow> sent @ [m]), got)"
    if p: "proxy_message cfg s = (Some x, s\<lparr>proxyAuthState := a\<rparr>)" and i: "handshake_inv cfg (s\<lparr>proxyAuthState := a\<rparr>, sent @ [x], got)" for x a
  proof (cases accepted)
    case True
    then have "m = Some x" "s' = s\<lparr>proxyAuthState := a\<rparr>" using assms(4) p by (simp_all add: proxy_write_def)
    then show ?thesis using i by (simp only: option.case)
  next
    case False
    then have "s' = closeSocket (s\<lparr>proxyAuthState := a\<rparr>)" using assms(4) p by (simp add: proxy_write_def)
    then show ?thesis by simp
  qed
  consider "?a = 1" "sent = []" | "?a = 2 \<or> ?a = 4 \<or> ?a = 6"
    | "?a = 3" "sent = [greeting]" "reply got 2" | "?a = 5" "before_connect cfg sent got"
    using assms(1-3) by (simp only: handshake_inv.simps simp_thms) (elim disjE conjE; simp)
  then show ?thesis
  proof cases
    case 1
    then show ?thesis using step [of greeting 2] by (simp add: proxy_messages)
  next
    case 2
    then have "proxy_message cfg s = (None, s)" by (auto simp: proxy_messages)
    then have "m = None" "s' = s" using assms(4) by (simp_all add: proxy_write_def)
    then show ?thesis using assms(1) by (simp only: option.case)
  next
    case 3
    then show ?thesis using step [of "credentials cfg" 4] by (simp add: proxy_messages)
  next
    case 4
    then have "connected cfg (sent @ [connect_request cfg]) got" by (simp add: connected_def)
    then show ?thesis using 4 step [of "connect_request cfg" 6] by (simp add: proxy_messages)
  qed
qed

lemma handshake_reads:
  assumes "handshake_inv cfg (s, sent, got)" "socket_open s" "proxyAuthState s \<noteq> 0"
  shows "handshake_inv cfg (proxy_read received s, sent, got @ [received])"
proof -
  let ?a = "proxyAuthState s"
  consider "?a = 1" "sent = []" | "?a = 2" "sent = [greeting]" | "?a = 3" "sent = [greeting]" "reply got 2"
    | "?a = 4" "sent = [greeting, credentials cfg]" "reply got 2" | "?a = 5" "before_connect cfg sent got" | "?a = 6" "connected cfg sent got"
    using assms by auto
  then show ?thesis
    by cases (use assms(2) in \<open>auto simp: proxy_read_def Let_def before_connect_mono connected_mono before_connect_def\<close>)
qed

lemma handshake_invariant: "handshake cfg st st' \<Longrightarrow> handshake_inv cfg st \<Longrightarrow> handshake_inv cfg st'"
proof (induction rule: rtranclp_induct)
  case (step st1 st2)
  obtain s sent got where "st1 = (s, sent, got)" by (cases st1) auto
  then show ?case using step by (auto elim!: handshake_stepE simp del: handshake_inv.simps intro: handshake_writes handshake_reads)
qed simp

text \<open>
  C22. Whatever the proxy answers, and whenever its bytes and the chances to write come: a connection that is open after the
  handshake has sent the greeting, the credentials if the proxy asked for them with 2, and one request to connect, in this
  order and nothing else; and the proxy has accepted, with 0, each of these steps.  The credentials are never sent to a
  proxy that did not ask for them.
\<close>

theorem proxy_handshake:
  assumes "proxyAuthState s = 1" and "handshake cfg (s, [], []) (s', sent, got)" and "socket_open s'"
  shows "(proxyAuthState s' = 0 \<longrightarrow>
      (sent = [greeting, connect_request cfg] \<or> sent = [greeting, credentials cfg, connect_request cfg] \<and> reply got 2) \<and>
      reply got 0 \<and> (\<exists>r \<in> set got. 2 < length r \<and> r ! 1 = 0)) \<and>
    (credentials cfg \<in> set sent \<longrightarrow> reply got 2)"
proof -
  have "handshake_inv cfg (s, [], [])" using assms(1) by simp
  from handshake_invariant [OF assms(2) this] have i: "handshake_inv cfg (s', sent, got)" .
  have c: "credentials cfg \<noteq> greeting" "credentials cfg \<noteq> connect_request cfg"
    by (simp_all add: credentials_def greeting_def connect_request_def Let_def)
  have "(sent = [greeting, connect_request cfg] \<or> sent = [greeting, credentials cfg, connect_request cfg] \<and> reply got 2) \<and>
      reply got 0 \<and> (\<exists>r \<in> set got. 2 < length r \<and> r ! 1 = 0)" if "proxyAuthState s' = 0"
    using i assms(3) that by (auto simp: connected_def before_connect_def)
  moreover have "reply got 2" if "credentials cfg \<in> set sent"
    using i assms(3) that c by (simp only: handshake_inv.simps connected_def before_connect_def) (elim impE disjE conjE exE; simp)
  ultimately show ?thesis by blast
qed

definition sample_proxy :: proxy_settings where
  "sample_proxy = \<lparr>proxyUser = [117], proxyPassword = [112, 119], proxy_target = [127, 0, 0, 1], proxy_port = [1, 187], proxy_ipv6 = False\<rparr>"

definition sample_stage :: "nat \<Rightarrow> socket" where
  "sample_stage a = sample_socket 0 []\<lparr>proxyAuthState := a\<rparr>"

lemma sample_stage_fields [simp]: "socket_open (sample_stage a)" "proxyAuthState (sample_stage a) = a" "sample_stage a\<lparr>proxyAuthState := b\<rparr> = sample_stage b"
  by (simp_all add: sample_stage_def sample_socket_def)

lemma sample_handshake:
  "handshake cfg (sample_stage 1, [], []) (sample_stage 0, [greeting, credentials cfg, connect_request cfg], [[5, 2], [1, 0], [5, 0, 0, 1]])"
proof -
  have w: "handshake_step cfg (sample_stage a, sent, got) (sample_stage b, sent @ [m], got)"
    if "a \<noteq> 0" "proxy_message cfg (sample_stage a) = (Some m, sample_stage b)" for a b m sent got
    using writable [of "sample_stage a" cfg True "Some m" "sample_stage b" sent got] that by (simp add: proxy_write_def)
  have r: "handshake_step cfg (sample_stage a, sent, got) (sample_stage b, sent, got @ [x])"
    if "a \<noteq> 0" "x \<noteq> []" "proxy_read x (sample_stage a) = sample_stage b" for a b x sent got
    using readable [of "sample_stage a" x cfg sent got] that by simp
  have "handshake cfg (sample_stage 1, [], []) (sample_stage 2, [greeting], [])"
    using w [of 1 greeting 2 "[]" "[]"] by (simp add: proxy_messages)
  also have "handshake cfg \<dots> (sample_stage 3, [greeting], [[5, 2]])"
    using r [of 2 "[5, 2]" 3 "[greeting]" "[]"] by (simp add: proxy_read_def)
  also have "handshake cfg \<dots> (sample_stage 4, [greeting, credentials cfg], [[5, 2]])"
    using w [of 3 "credentials cfg" 4 "[greeting]" "[[5, 2]]"] by (simp add: proxy_messages)
  also have "handshake cfg \<dots> (sample_stage 5, [greeting, credentials cfg], [[5, 2], [1, 0]])"
    using r [of 4 "[1, 0]" 5 "[greeting, credentials cfg]" "[[5, 2]]"] by (simp add: proxy_read_def)
  also have "handshake cfg \<dots> (sample_stage 6, [greeting, credentials cfg, connect_request cfg], [[5, 2], [1, 0]])"
    using w [of 5 "connect_request cfg" 6 "[greeting, credentials cfg]" "[[5, 2], [1, 0]]"] by (simp add: proxy_messages)
  also have "handshake cfg \<dots> (sample_stage 0, [greeting, credentials cfg, connect_request cfg], [[5, 2], [1, 0], [5, 0, 0, 1]])"
    using r [of 6 "[5, 0, 0, 1]" 0 "[greeting, credentials cfg, connect_request cfg]" "[[5, 2], [1, 0]]"] by (simp add: proxy_read_def)
  finally show ?thesis .
qed

theorem proxy_handshake_witness:
  "handshake sample_proxy (sample_stage 1, [], [])
     (sample_stage 0, [greeting, credentials sample_proxy, connect_request sample_proxy], [[5, 2], [1, 0], [5, 0, 0, 1]]) \<and>
   reply [[5, 2], [1, 0], [5, 0, 0, 1]] 2"
  using proxy_handshake [OF _ sample_handshake [of sample_proxy]] sample_handshake [of sample_proxy] by simp

end
