(* ===== verification/MessageSession.thy ===== *)
theory MessageSession
  imports TlMessage
begin

text \<open>
  The session of a connection, \<^verbatim>\<open>app/jni/tgnet/ConnectionSession.cpp\<close>: which messages of the server were
  processed already, which are to be confirmed, and the numbers of outgoing messages; with its callers in
  \<^verbatim>\<open>ConnectionsManager.cpp\<close> and the confirmation \<open>TL_msgs_ack\<close> of \<^verbatim>\<open>MTProtoScheme.cpp\<close>.  The ids are signed
  64-bit numbers that are compared and stored and not calculated with, so they are integers here.
\<close>

unbundle bit_operations_syntax

section \<open>The session\<close>

record session =
  sessionId :: int
  nextSeqNo :: u32
  minProcessedMessageId :: int
  processedMessageIds :: "int list"
  messagesIdsForConfirmation :: "int list"
  processedSessionChanges :: "int list"

text \<open>
  \<open>newSessionId\<close> is what \<open>RAND_bytes\<close> gives.  \<open>USE_DEBUG_SESSION\<close> is set in \<^verbatim>\<open>Defines.h\<close>: the upper 16 bits of the id are fixed.
\<close>

definition new_id :: "u64 \<Rightarrow> int" where
  "new_id newSessionId = sint (0xabcd000000000000 OR (newSessionId AND 0x0000ffffffffffff))"

definition genereateNewSessionId :: "u64 \<Rightarrow> session \<Rightarrow> session" where
  "genereateNewSessionId newSessionId s = s\<lparr>sessionId := new_id newSessionId\<rparr>"

definition recreateSession :: "u64 \<Rightarrow> session \<Rightarrow> session" where
  "recreateSession random s =
     genereateNewSessionId random (s\<lparr>processedMessageIds := [], messagesIdsForConfirmation := [], processedSessionChanges := [],
       nextSeqNo := 0\<rparr>)"

definition generateMessageSeqNo :: "bool \<Rightarrow> session \<Rightarrow> u32 \<times> session" where
  "generateMessageSeqNo increment s =
     (let val = nextSeqNo s;
          s = (if increment then s\<lparr>nextSeqNo := nextSeqNo s + 1\<rparr> else s)
      in (val * 2 + (if increment then 1 else 0), s))"

text \<open>0 is a new message, 1 one that was processed or does not come from the server, 2 one that is too old to tell.\<close>

definition isMessageIdProcessed :: "int \<Rightarrow> session \<Rightarrow> nat" where
  "isMessageIdProcessed messageId s =
     (if even messageId then 1
      else if minProcessedMessageId s \<noteq> 0 \<and> messageId < minProcessedMessageId s then 2
      else if messageId \<in> set (processedMessageIds s) then 1 else 0)"

definition addProcessedMessageId :: "int \<Rightarrow> session \<Rightarrow> session" where
  "addProcessedMessageId messageId s =
     (let s = (if length (processedMessageIds s) > 300
               then let ids = drop 100 (sort (processedMessageIds s))
                    in s\<lparr>processedMessageIds := ids, minProcessedMessageId := hd ids\<rparr>
               else s)
      in s\<lparr>processedMessageIds := processedMessageIds s @ [messageId]\<rparr>)"

definition hasMessagesToConfirm :: "session \<Rightarrow> bool" where
  "hasMessagesToConfirm s \<longleftrightarrow> messagesIdsForConfirmation s \<noteq> []"

definition addMessageToConfirm :: "int \<Rightarrow> session \<Rightarrow> session" where
  "addMessageToConfirm messageId s =
     (if messageId \<in> set (messagesIdsForConfirmation s) then s
      else s\<lparr>messagesIdsForConfirmation := messagesIdsForConfirmation s @ [messageId]\<rparr>)"

definition isSessionProcessed :: "int \<Rightarrow> session \<Rightarrow> bool" where
  "isSessionProcessed i s \<longleftrightarrow> i \<in> set (processedSessionChanges s)"

definition addProcessedSession :: "int \<Rightarrow> session \<Rightarrow> session" where
  "addProcessedSession i s = s\<lparr>processedSessionChanges := processedSessionChanges s @ [i]\<rparr>"

text \<open>
  \<open>ConnectionsManager::generateMessageId\<close>: \<open>now\<close> is the id that the clock gives.  The loop ends after at most three steps.
\<close>

function next_multiple :: "int \<Rightarrow> int" where
  "next_multiple messageId = (if messageId mod 4 \<noteq> 0 then next_multiple (messageId + 1) else messageId)"
  by pat_completeness auto
termination by (relation "measure (\<lambda>m. nat (- m mod 4))") (auto, presburger+)

definition generateMessageId :: "int \<Rightarrow> int \<Rightarrow> int" where
  "generateMessageId now lastOutgoingMessageId =
     next_multiple (if now \<le> lastOutgoingMessageId then lastOutgoingMessageId + 1 else now)"

section \<open>The confirmation\<close>

text \<open>\<open>TL_msgs_ack\<close>: its serialisation, and its parser after the constructor; \<open>size_bits\<close> is the width of \<open>size_t\<close>.\<close>

definition msgs_ack_constructor :: u32 where
  "msgs_ack_constructor = 0x62d6b459"

definition serialize_msgs_ack :: "int list \<Rightarrow> native_buffer \<Rightarrow> native_buffer" where
  "serialize_msgs_ack msg_ids stream =
     (let stream = snd (writeInt32 msgs_ack_constructor None stream);
          stream = snd (writeInt32 0x1cb5c415 None stream);
          stream = snd (writeInt32 (of_nat (length msg_ids)) None stream)
      in foldl (\<lambda>stream i. snd (writeInt64 (word_of_int i) None stream)) stream msg_ids)"

fun read_ids :: "nat \<Rightarrow> error_flag \<Rightarrow> native_buffer \<Rightarrow> int list \<times> error_flag \<times> native_buffer" where
  "read_ids 0 error stream = ([], error, stream)"
| "read_ids (Suc n) error stream =
     (let (i, error, stream) = readInt64 error stream; (msg_ids, error, stream) = read_ids n error stream in (sint i # msg_ids, error, stream))"

definition read_msgs_ack :: "nat \<Rightarrow> error_flag \<Rightarrow> native_buffer \<Rightarrow> int list \<times> error_flag \<times> native_buffer" where
  "read_msgs_ack size_bits error stream =
     (let (magic, error, stream) = readInt32 error stream
      in if magic \<noteq> 0x1cb5c415 then ([], raise error, stream)
         else let (count, error, stream) = readInt32 error stream
         in if (unat count * 8 + unat (buf_position stream)) mod 2 ^ size_bits > unat (buf_limit stream) then ([], raise error, stream)
            else read_ids (unat count) error stream)"

text \<open>The message with the confirmations: its id, its number, its length and the ids that it confirms.\<close>

definition generateConfirmationRequest :: "int \<Rightarrow> session \<Rightarrow> (int \<times> u32 \<times> u32 \<times> int list) option \<times> session" where
  "generateConfirmationRequest messageId s =
     (if messagesIdsForConfirmation s = [] then (None, s)
      else let msg_ids = messagesIdsForConfirmation s;
               os = serialize_msgs_ack msg_ids (new_calculator True);
               (n, s) = generateMessageSeqNo False s
           in (Some (messageId, n, buf_capacity os, msg_ids), s\<lparr>messagesIdsForConfirmation := []\<rparr>))"

section \<open>Messages of the server\<close>

text \<open>What the parts of the client that are not modelled, the request queue before all, do with the session: calls of its operations.\<close>

datatype session_call = Confirm int | SendConfirmations int | TakeSeqNo bool | Recreate u64

fun call_session :: "session_call \<Rightarrow> session \<Rightarrow> session" where
  "call_session (Confirm i) s = addMessageToConfirm i s"
| "call_session (SendConfirmations i) s = snd (generateConfirmationRequest i s)"
| "call_session (TakeSeqNo increment) s = snd (generateMessageSeqNo increment s)"
| "call_session (Recreate random) s = recreateSession random s"

text \<open>The request that a message of the server refers to, as the handlers find it among the running requests.\<close>

datatype found_request = NoRequest | Completed | ResendDue | ResentRecently

text \<open>
  A message has a body that could be parsed or not.  A container holds messages, a packed body another body.  The new id for
  \<open>BadMessage\<close> is \<open>None\<close> on the push connection, whose session \<open>Datacenter::recreateSessions\<close> leaves alone; \<open>StateInfo\<close> has the id
  that \<open>resendRequests\<close> holds for it.  For all other bodies the model is given what their handlers do with the session.
\<close>

datatype message = Message (msg_id: int) (seqno: int) (body: "message_body option")
  and message_body =
    NewSession int
  | Container "message list"
  | BadMessage (error_code: int) (bad_msg_id: int) found_request "u64 option"
  | StateInfo "int option"
  | DetailedInfo found_request (answer_msg_id: int)
  | NewDetailedInfo int
  | Gzip "message_body option"
  | Other "session_call list"

abbreviation Plain :: message_body where
  "Plain \<equiv> Other []"

text \<open>
  What the handlers do with the session.  The result lists the ids of the messages whose bodies were processed or handed on unparsed.
  \<open>messageId\<close> is 0 for a message in a container.
  A message in a container that is too old to tell is processed, unless it could not be parsed: then the session
  starts anew and the rest of the container is left.
\<close>

fun processServerResponse :: "u64 \<Rightarrow> int \<Rightarrow> message_body \<Rightarrow> session \<Rightarrow> int list \<times> session"
  and process_inner :: "u64 \<Rightarrow> message list \<Rightarrow> session \<Rightarrow> int list \<times> session" where
  "processServerResponse random messageId (NewSession unique_id) s =
     ([], if \<not> isSessionProcessed unique_id s then addProcessedSession unique_id s else s)"
| "processServerResponse random messageId (Container ms) s = process_inner random ms s"
| "processServerResponse random messageId (BadMessage code bad_id request new) s =
     ([], if code \<in> {16, 17, 19, 32, 33, 64} then (case new of None \<Rightarrow> s | Some r \<Rightarrow> recreateSession r s)
          else if code = 20 \<and> request \<noteq> NoRequest \<and> request \<noteq> Completed then addMessageToConfirm bad_id s
          else s)"
| "processServerResponse random messageId (StateInfo resent) s =
     ([], case resent of None \<Rightarrow> s | Some i \<Rightarrow> addMessageToConfirm i s)"
| "processServerResponse random messageId (DetailedInfo request answer) s =
     ([], let requestResend = (request = ResendDue); confirm = (request \<noteq> ResentRecently)
          in if requestResend then snd (generateMessageSeqNo False s)
             else if confirm then addMessageToConfirm answer s else s)"
| "processServerResponse random messageId (NewDetailedInfo answer) s =
     ([], let requestResend = (isMessageIdProcessed messageId s = 0)
          in if requestResend then snd (generateMessageSeqNo False s) else addMessageToConfirm answer s)"
| "processServerResponse random messageId (Gzip b) s =
     (case b of None \<Rightarrow> ([], s) | Some b \<Rightarrow> processServerResponse random messageId b s)"
| "processServerResponse random messageId (Other calls) s = ([], fold call_session calls s)"
| "process_inner random [] s = ([], s)"
| "process_inner random (Message i n bd # ms) s =
     (let s = (if odd n then addMessageToConfirm i s else s);
          processedStatus = isMessageIdProcessed i s
      in if processedStatus = 2 \<and> bd = None then ([], recreateSession random s)
         else let processedStatus = (if processedStatus = 2 then 0 else processedStatus)
         in if processedStatus \<noteq> 0 then process_inner random ms s
         else let (done1, s) = (case bd of None \<Rightarrow> ([], s) | Some b \<Rightarrow> processServerResponse random 0 b s);
                  s = addProcessedMessageId i s;
                  (done2, s) = process_inner random ms s
              in (i # done1 @ done2, s))"

text \<open>
  One message of the connection; the flag says whether the connection goes on.  A message that was processed before makes
  the waiting confirmations be sent; the id of that message plays no part here.  That a push connection sends them after every message
  that it processes is left out.
\<close>

fun receive_message :: "u64 \<Rightarrow> message \<Rightarrow> session \<Rightarrow> int list \<times> bool \<times> session" where
  "receive_message random (Message i n bd) s =
     (let processedStatus = isMessageIdProcessed i s;
          s = (if odd n then addMessageToConfirm i s else s)
      in if processedStatus = 2 \<and> bd = None then ([], False, recreateSession random s)
         else if processedStatus = 0
         then (case bd of
                 Some b \<Rightarrow> (let (ds, s) = processServerResponse random i b s in (i # ds, True, addProcessedMessageId i s))
               | None \<Rightarrow> ([], True, s))
         else ([], True, snd (generateConfirmationRequest 0 s)))"

fun receive_messages :: "u64 \<Rightarrow> message list \<Rightarrow> session \<Rightarrow> int list \<times> session" where
  "receive_messages random [] s = ([], s)"
| "receive_messages random (m # ms) s =
     (let (ds, go, s) = receive_message random m s
      in if go then let (ds', s) = receive_messages random ms s in (ds @ ds', s) else (ds, s))"



section \<open>Every message once\<close>

text \<open>
  \<open>seen\<close> are the messages that were processed: each is in the list or below the minimum.  At most one id of the list is
  below the minimum, the one that was added when it moved.
\<close>

definition session_inv :: "int set \<Rightarrow> session \<Rightarrow> bool" where
  "session_inv seen s \<longleftrightarrow>
     distinct (processedMessageIds s) \<and> length (processedMessageIds s) \<le> 301 \<and> (\<forall>x \<in> set (processedMessageIds s). odd x) \<and>
     (\<forall>x \<in> seen. x \<in> set (processedMessageIds s) \<or> minProcessedMessageId s \<noteq> 0 \<and> x < minProcessedMessageId s) \<and>
     length (filter (\<lambda>x. minProcessedMessageId s \<noteq> 0 \<and> x < minProcessedMessageId s) (processedMessageIds s)) \<le> 1"




lemma confirm_inv [simp]: "session_inv seen (addMessageToConfirm m s) = session_inv seen s"
  "isMessageIdProcessed i (addMessageToConfirm m s) = isMessageIdProcessed i s"
  "minProcessedMessageId (addMessageToConfirm m s) = minProcessedMessageId s"
  "processedMessageIds (addMessageToConfirm m s) = processedMessageIds s"
  by (simp_all add: session_inv_def addMessageToConfirm_def isMessageIdProcessed_def)

lemma confirmations_sent [simp]:
  "isMessageIdProcessed i (snd (generateConfirmationRequest n s)) = isMessageIdProcessed i s"
  "minProcessedMessageId (snd (generateConfirmationRequest n s)) = minProcessedMessageId s"
  "processedMessageIds (snd (generateConfirmationRequest n s)) = processedMessageIds s"
  by (simp_all add: generateConfirmationRequest_def generateMessageSeqNo_def isMessageIdProcessed_def Let_def)







text \<open>The list of ids is kept, or cleared when a new session starts, whose id is one of those drawn; the minimum is kept.\<close>

definition kept :: "u64 list \<Rightarrow> session \<Rightarrow> session \<Rightarrow> bool" where
  "kept rs s t \<longleftrightarrow> minProcessedMessageId t = minProcessedMessageId s \<and>
     (processedMessageIds t = processedMessageIds s \<and> sessionId t = sessionId s \<or>
      processedMessageIds t = [] \<and> sessionId t \<in> new_id ` set rs)"

lemma kept_refl [simp, intro]: "kept rs s s"
  by (simp add: kept_def)



lemma kept_calls [simp]:
  "kept rs s (addMessageToConfirm i s)" "kept rs s (addProcessedSession i s)" "kept rs s (snd (generateConfirmationRequest i s))"
  "kept rs s (snd (generateMessageSeqNo increment s))" "r \<in> set rs \<Longrightarrow> kept rs s (recreateSession r s)"
  by (simp_all add: kept_def addMessageToConfirm_def addProcessedSession_def generateConfirmationRequest_def generateMessageSeqNo_def
      recreateSession_def genereateNewSessionId_def Let_def)
















definition new_session :: session where
  "new_session = \<lparr>sessionId = 7, nextSeqNo = 0, minProcessedMessageId = 0, processedMessageIds = [],
     messagesIdsForConfirmation = [], processedSessionChanges = []\<rparr>"




section \<open>A container brings a message again\<close>

abbreviation plain_message :: "int \<Rightarrow> message" where
  "plain_message i \<equiv> Message i 0 (Some Plain)"

lemma plain_run:
  "distinct (l @ xs) \<Longrightarrow> \<forall>x \<in> set xs. odd x \<Longrightarrow> length l + length xs \<le> 301 \<Longrightarrow> processedMessageIds s = l \<Longrightarrow> minProcessedMessageId s = 0 \<Longrightarrow>
     receive_messages random (map plain_message xs @ ms) s =
       (let (ds, s') = receive_messages random ms (s\<lparr>processedMessageIds := l @ xs\<rparr>) in (xs @ ds, s'))"
proof (induction xs arbitrary: l s)
  case Nil
  then have e: "s\<lparr>processedMessageIds := l\<rparr> = s" by (cases s) simp
  show ?case unfolding append_Nil2 e by simp
next
  case (Cons x xs)
  then have "receive_message random (plain_message x) s = ([x], True, s\<lparr>processedMessageIds := l @ [x]\<rparr>)"
    by (simp add: isMessageIdProcessed_def addProcessedMessageId_def Let_def)
  then show ?case using Cons.IH [of "l @ [x]" "s\<lparr>processedMessageIds := l @ [x]\<rparr>"] Cons.prems by (simp split: prod.splits)
qed

lemma receive_message_first:
  "receive_message random m s = (ds, True, t) \<Longrightarrow> fst (receive_messages random (m # ms) s) = ds @ fst (receive_messages random ms t)"
  by (simp add: case_prod_beta Let_def)

lemma container_step:
  "isMessageIdProcessed c t = 0 \<Longrightarrow> isMessageIdProcessed i t = 2 \<Longrightarrow>
     fst (receive_messages random [Message c 0 (Some (Container [plain_message i]))] t) = [c, i]"
  by (simp add: Let_def split: prod.splits)

text \<open>
  C24. A container can bring a message a second time: after 302 messages the first one is forgotten and counts as too old, and a
  container that holds it makes it be processed again.
\<close>

theorem container_processed_again:
  "fst (receive_messages random (map plain_message (map (\<lambda>i. 2 * int i + 1) [0..<302]) @
        [Message 605 0 (Some (Container [plain_message 1]))]) new_session) =
     map (\<lambda>i. 2 * int i + 1) [0..<302] @ [605, 1]"
proof -
  let ?f = "\<lambda>i. 2 * int i + 1"
  let ?xs = "map ?f [0..<301]" and ?s = "new_session\<lparr>processedMessageIds := map ?f [0..<301]\<rparr>"
  let ?c = "Message 605 0 (Some (Container [plain_message 1]))"
  have inj: "inj ?f" by (rule injI) simp
  have split: "map ?f [0..<302] = ?xs @ [603]" using upt_add_eq_append [of 0 301 1] by simp
  have sorted: "sort ?xs = ?xs" by (rule sort_key_id_if_sorted) (simp add: sorted_iff_nth_mono)
  have ids: "drop 100 ?xs = map ?f [100..<301]" by (simp add: drop_map)
  have hd: "hd (map ?f [100..<301]) = 201" by (simp add: hd_map upt_conv_Cons)
  let ?t = "new_session\<lparr>processedMessageIds := map ?f [100..<301] @ [603], minProcessedMessageId := 201\<rparr>"
  have len: "length ?xs > 300" by simp
  have "addProcessedMessageId 603 ?s = ?t"
    using len unfolding addProcessedMessageId_def Let_def by (simp add: sorted ids hd new_session_def del: upt_rec_numeral)
  then have last: "receive_message random (plain_message 603) ?s = ([603], True, ?t)"
    by (auto simp: isMessageIdProcessed_def new_session_def Let_def simp del: upt_rec_numeral)
  have "isMessageIdProcessed 605 ?t = 0" "isMessageIdProcessed 1 ?t = 2" by (auto simp: isMessageIdProcessed_def simp del: upt_rec_numeral)
  note c1 = container_step [OF this, of random]
  have c: "fst (receive_messages random (plain_message 603 # [?c]) ?s) = [603, 605, 1]"
    unfolding receive_message_first [OF last] by (simp only: c1 append.simps)
  have "receive_messages random (map plain_message ?xs @ (plain_message 603 # [?c])) new_session =
      (let (ds, s') = receive_messages random (plain_message 603 # [?c]) (new_session\<lparr>processedMessageIds := [] @ ?xs\<rparr>) in (?xs @ ds, s'))"
    by (rule plain_run) (auto simp: distinct_map new_session_def intro: inj_on_subset [OF inj])
  then show ?thesis using c by (simp only: split map_append list.map append_assoc append.simps) (simp add: case_prod_beta Let_def del: upt_rec_numeral receive_messages.simps)
qed

section \<open>Numbers of outgoing messages\<close>

text \<open>The ids of messages sent one after the other, with what the clock says each time.\<close>

fun outgoing_ids :: "int list \<Rightarrow> int \<Rightarrow> int list" where
  "outgoing_ids [] prev = []"
| "outgoing_ids (now # nows) prev = (let i = generateMessageId now prev in i # outgoing_ids nows i)"

declare next_multiple.simps [simp del]

lemma next_multiple: "m \<le> next_multiple m \<and> next_multiple m < m + 4 \<and> next_multiple m mod 4 = 0"
proof -
  have "next_multiple m = m + (- m mod 4)"
  proof (induction m rule: next_multiple.induct)
    case (1 m)
    show ?case
    proof (cases "m mod 4 = 0")
      case True
      then have "- m mod 4 = 0" by presburger
      then show ?thesis using True by (simp add: next_multiple.simps [of m])
    next
      case False
      then have "- (m + 1) mod 4 = - m mod 4 - 1" by presburger
      then show ?thesis using False 1 by (simp add: next_multiple.simps [of m])
    qed
  qed
  moreover have "0 \<le> - m mod 4" "- m mod 4 < 4" "(m + (- m mod 4)) mod 4 = 0" by (simp, simp, presburger)
  ultimately show ?thesis by simp
qed

text \<open>
  Whatever the clock does, also when it goes back: the ids of outgoing messages are multiples of four, each greater than
  all before it; and an id is never behind the clock, and ahead of it only as far as the prev id was.
\<close>

theorem outgoing_ids_increase:
  "sorted_wrt (<) (prev # outgoing_ids nows prev) \<and> (\<forall>i \<in> set (outgoing_ids nows prev). i mod 4 = 0) \<and>
     (\<forall>now. now \<le> generateMessageId now prev \<and> generateMessageId now prev < max now (prev + 1) + 4)"
proof -
  have g: "prev < generateMessageId now prev" "now \<le> generateMessageId now prev" "generateMessageId now prev < max now (prev + 1) + 4"
    "generateMessageId now prev mod 4 = 0" for now prev
    using next_multiple [of "prev + 1"] next_multiple [of now] by (auto simp: generateMessageId_def)
  have "sorted_wrt (<) (prev # outgoing_ids nows prev) \<and> (\<forall>i \<in> set (outgoing_ids nows prev). i mod 4 = 0)"
  proof (induction nows arbitrary: prev)
    case (Cons now nows)
    have "prev < generateMessageId now prev" "generateMessageId now prev mod 4 = 0" by (rule g)+
    then show ?case using Cons.IH [of "generateMessageId now prev"] by (auto simp: Let_def intro: order.strict_trans)
  qed simp
  then show ?thesis using g by blast
qed

section \<open>Confirmations\<close>

lemma writes_None [simp]: "fst (writeInt32 x None b) = None" "fst (writeInt64 y None b) = None"
  by (simp_all add: writeInt32_def writeInt64_def raise_def)

lemma put_values_ints:
  "snd (put_values (Int32 x # vs) None b) = snd (put_values vs None (snd (writeInt32 x None b)))"
  "snd (put_values (Int64 y # vs) None b) = snd (put_values vs None (snd (writeInt64 y None b)))"
proof -
  show "snd (put_values (Int32 x # vs) None b) = snd (put_values vs None (snd (writeInt32 x None b)))"
    using writes_None(1) [of x b] by (cases "writeInt32 x None b") simp
  show "snd (put_values (Int64 y # vs) None b) = snd (put_values vs None (snd (writeInt64 y None b)))"
    using writes_None(2) [of y b] by (cases "writeInt64 y None b") simp
qed

definition ack_values :: "int list \<Rightarrow> tl_value list" where
  "ack_values ids = Int32 msgs_ack_constructor # Int32 0x1cb5c415 # Int32 (of_nat (length ids)) # map (\<lambda>i. Int64 (word_of_int i)) ids"

lemma serialize_ack: "serialize_msgs_ack ids b = serialize_values (ack_values ids) b"
proof -
  have "foldl (\<lambda>stream i. snd (writeInt64 (word_of_int i) None stream)) b ids =
      snd (put_values (map (\<lambda>i. Int64 (word_of_int i)) ids) None b)" for b
    by (induction ids arbitrary: b) (simp_all add: put_values_ints del: put_values.simps(2))
  then show ?thesis
    by (simp add: serialize_msgs_ack_def serialize_values_def ack_values_def put_values_ints Let_def del: put_values.simps(2))
qed

lemma enc_ack:
  "enc_values (ack_values ids) = enc32 msgs_ack_constructor @ enc32 0x1cb5c415 @ enc32 (of_nat (length ids)) @
     concat (map (\<lambda>i. enc64 (word_of_int i)) ids)"
proof -
  have "enc_values (map (\<lambda>i. Int64 (word_of_int i)) ids) = concat (map (\<lambda>i. enc64 (word_of_int i)) ids)"
    by (induction ids) simp_all
  then show ?thesis by (simp add: ack_values_def)
qed

lemma length_enc_ids [simp]: "length (concat (map (\<lambda>i. enc64 (f i)) ids)) = 8 * length ids"
  by (induction ids) simp_all

definition is_int64 :: "int \<Rightarrow> bool" where
  "is_int64 i \<longleftrightarrow> - (2 ^ 63) \<le> i \<and> i < 2 ^ 63"

lemma sint_int64: "is_int64 i \<Longrightarrow> sint (word_of_int i :: u64) = i"
  by (simp add: is_int64_def signed_of_int signed_take_bit_int_eq_self)

lemma read_ids_reads:
  "buf_ok b \<Longrightarrow> rest b = concat (map (\<lambda>i. enc64 (word_of_int i)) ids) @ ys \<Longrightarrow> \<forall>i \<in> set ids. is_int64 i \<Longrightarrow>
     read_ids (length ids) error b = (ids, error, advance (8 * length ids) b)"
proof (induction ids arbitrary: b)
  case (Cons i ids)
  have r: "rest b = enc64 (word_of_int i) @ (concat (map (\<lambda>i. enc64 (word_of_int i)) ids) @ ys)" using Cons.prems(2) by simp
  then have fit: "8 \<le> room b" using length_rest [OF Cons.prems(1)] by simp
  note a = advance_ok [OF Cons.prems(1) fit]
  have "rest (advance 8 b) = concat (map (\<lambda>i. enc64 (word_of_int i)) ids) @ ys" using a(3) r by simp
  from Cons.IH [OF a(1) this] show ?case
    using int64.get_enc [OF Cons.prems(1) _ r, of error] Cons.prems(3) by (simp add: sint_int64 advance_advance Let_def)
qed simp

lemma confirmed:
  "messagesIdsForConfirmation s = ids0 \<Longrightarrow> distinct ids0 \<Longrightarrow>
     distinct (messagesIdsForConfirmation (fold addMessageToConfirm ms s)) \<and>
     set (messagesIdsForConfirmation (fold addMessageToConfirm ms s)) = set ids0 \<union> set ms"
proof (induction ms arbitrary: s ids0)
  case (Cons m ms)
  show ?case using Cons.prems Cons.IH [OF refl, of "addMessageToConfirm m s"] by (auto simp: addMessageToConfirm_def)
qed simp

lemma read_ack:
  assumes ok: "buf_ok c" and r: "rest c = enc_values (ack_values ids)" and "\<forall>i \<in> set ids. is_int64 i" and k: "length ids < 2 ^ 27"
  shows "readInt32 error c = (msgs_ack_constructor, error, advance 4 c) \<and>
    read_msgs_ack 64 error (advance 4 c) = (ids, error, advance (12 + 8 * length ids) c)"
proof -
  let ?ids = "concat (map (\<lambda>i. enc64 (word_of_int i)) ids)"
  have r0: "rest c = enc32 msgs_ack_constructor @ enc32 0x1cb5c415 @ enc32 (of_nat (length ids)) @ ?ids" using r by (simp add: enc_ack)
  have room: "room c = 12 + 8 * length ids" using length_rest [OF ok] r0 by simp
  note a1 = advance_ok [OF ok, of 4] and a2 = advance_ok [OF ok, of 8] and a3 = advance_ok [OF ok, of 12]
  note rd = int32.get_enc [OF _ TrueI, simplified]
  have g1: "readInt32 error c = (msgs_ack_constructor, error, advance 4 c)" by (rule rd [OF ok r0])
  have r1: "rest (advance 4 c) = enc32 0x1cb5c415 @ enc32 (of_nat (length ids)) @ ?ids" using a1(3) room r0 by simp
  have g2: "readInt32 error (advance 4 c) = (0x1cb5c415, error, advance 8 c)"
    using rd [OF a1(1) r1] room by (simp add: advance_advance)
  have r2: "rest (advance 8 c) = enc32 (of_nat (length ids)) @ ?ids" using a2(3) room r0 by simp
  have g3: "readInt32 error (advance 8 c) = (of_nat (length ids), error, advance 12 c)"
    using rd [OF a2(1) r2] room by (simp add: advance_advance)
  have r3: "rest (advance 12 c) = ?ids @ []" using a3(3) room r0 by simp
  from read_ids_reads [OF _ r3 assms(3), of error] a3(1) room
  have g4: "read_ids (length ids) error (advance 12 c) = (ids, error, advance (12 + 8 * length ids) c)" by (simp add: advance_advance)
  have cnt: "unat (of_nat (length ids) :: u32) = length ids" using k by (intro unat_small) simp
  have pos: "unat (buf_position (advance 12 c)) + length ids * 8 = unat (buf_limit c)"
    using a3(4) room buf_okD(6) [OF ok] by (simp add: ac_simps)
  then have "(length ids * 8 + unat (buf_position (advance 12 c))) mod 2 ^ 64 \<le> unat (buf_limit (advance 12 c))"
    by (simp add: ac_simps)
  then have "read_msgs_ack 64 error (advance 4 c) = (ids, error, advance (12 + 8 * length ids) c)"
    by (simp add: read_msgs_ack_def g2 g3 cnt g4)
  then show ?thesis using g1 by simp
qed

text \<open>
  C28. The confirmation that is sent holds every message that was to be confirmed, once, and nothing else; afterwards nothing is
  left to confirm.  Its length is the length of its serialisation, which fills a buffer of this length from the pools or any
  other, and the parser of the other side reads the same ids from it.
\<close>

theorem confirmation_round_trip:
  assumes "messagesIdsForConfirmation s0 = []" "s = fold addMessageToConfirm ms s0" "ms \<noteq> []"
    and "\<forall>i \<in> set ms. is_int64 i" "length ms < 2 ^ 27"
    and "generateConfirmationRequest messageId s = (Some (messageId', n, len, ids), s')"
    and "buf_ok b" "room b = unat len"
  shows "distinct ids \<and> set ids = set ms \<and> even (unat n) \<and> messagesIdsForConfirmation s' = [] \<and>
    room (serialize_msgs_ack ids b) = 0 \<and>
    (\<exists>b1. readInt32 error (set_position (buf_position b) (serialize_msgs_ack ids b)) = (msgs_ack_constructor, error, b1) \<and>
       read_msgs_ack 64 error b1 = (ids, error, serialize_msgs_ack ids b))"
proof -
  have ids: "ids = messagesIdsForConfirmation s" "s' = snd (generateMessageSeqNo False s)\<lparr>messagesIdsForConfirmation := []\<rparr>"
    "len = buf_capacity (serialize_msgs_ack ids (new_calculator True))" "n = fst (generateMessageSeqNo False s)"
    using assms(6) by (auto simp: generateConfirmationRequest_def Let_def split: if_splits prod.splits)
  have set: "distinct ids" "set ids = set ms" using confirmed [OF assms(1), of ms] by (simp_all add: ids(1) assms(2))
  then have k: "length ids < 2 ^ 27" using assms(5) card_length [of ms] distinct_card [of ids] by simp
  have "even (unat n)" by (simp add: ids(4) generateMessageSeqNo_def unat_word_ariths dvd_mod)
  let ?e = "enc_values (ack_values ids)"
  have el: "length ?e = 12 + 8 * length ids" by (simp add: enc_ack)
  have valid: "valid_values (ack_values ids)" by (auto simp: ack_values_def)
  have "calculateSizeOnly (new_calculator True)" "buf_capacity (new_calculator True) = 0" by (simp_all add: new_calculator_def)
  then have "len = of_nat (12 + 8 * length ids)"
    using put_values_counts [OF _ valid] el by (simp add: ids(3) serialize_ack serialize_values_def count_bytes_def)
  moreover have "12 + 8 * length ids < 2 ^ 32" using k by simp
  ultimately have len: "unat len = 12 + 8 * length ids" by (simp only: unat_small)
  then have fit: "length ?e \<le> room b" using assms(8) el by simp
  have ser: "serialize_msgs_ack ids b = append_bytes ?e b"
    using put_values_fits [OF assms(7) valid fit, of None] by (simp add: serialize_ack serialize_values_def)
  have full: "room (serialize_msgs_ack ids b) = 0" using append_bytes_ok(2) [OF assms(7) fit] assms(8) len el by (simp add: ser)
  let ?c = "set_position (buf_position b) (serialize_msgs_ack ids b)"
  have c: "?c = b\<lparr>buffer := wr (unat (buf_position b)) ?e (buffer b)\<rparr>"
    unfolding ser by (rule set_position_extend [OF assms(7)])
  have ok: "buf_ok ?c" and r: "rest ?c = ?e @ drop (length ?e) (rest b)" unfolding c by (rule overwritten [OF assms(7) fit])+
  have "drop (length ?e) (rest b) = []" using length_rest [OF assms(7)] assms(8) len el by simp
  then have r': "rest ?c = ?e" using r by simp
  have "\<forall>i \<in> set ids. is_int64 i" using assms(4) set(2) by simp
  note read = read_ack [OF ok r' this k, of error]
  have "advance (12 + 8 * length ids) ?c = serialize_msgs_ack ids b"
    unfolding c by (simp add: ser advance_def append_bytes_def el)
  then show ?thesis using set \<open>even (unat n)\<close> full read by (simp add: ids(2))
qed

theorem confirmation_round_trip_witness:
  "\<exists>n len s' b1. generateConfirmationRequest 8 (fold addMessageToConfirm [5, 9, 5] new_session) = (Some (8, n, len, [5, 9]), s') \<and>
     messagesIdsForConfirmation s' = [] \<and>
     read_msgs_ack 64 None b1 = ([5, 9], None, serialize_msgs_ack [5, 9] (new_buffer (replicate 28 0) 28))"
proof -
  let ?s = "fold addMessageToConfirm [5, 9, 5] new_session"
  have ids: "messagesIdsForConfirmation ?s = [5, 9]" by (simp add: addMessageToConfirm_def new_session_def)
  have ser: "serialize_msgs_ack [5, 9] b = serialize_values (ack_values [5, 9]) b" for b by (rule serialize_ack)
  have valid: "valid_values (ack_values [5, 9])" by (simp add: ack_values_def)
  have len: "buf_capacity (serialize_msgs_ack [5, 9] (new_calculator True)) = 28"
    using put_values_counts [OF _ valid, of "new_calculator True" None]
    by (simp add: ser serialize_values_def new_calculator_def count_bytes_def enc_ack)
  obtain n s' where g: "generateConfirmationRequest 8 ?s = (Some (8, n, 28, [5, 9]), s')"
    using ids len by (simp add: generateConfirmationRequest_def Let_def case_prod_beta del: fold_simps)
  have b: "buf_ok (new_buffer (replicate 28 0) 28)" "room (new_buffer (replicate 28 0) 28) = unat (28 :: u32)"
    by (simp_all add: new_buffer_def buf_ok_def room_def)
  have i: "\<forall>i \<in> set [5, 9, 5 :: int]. is_int64 i" by (simp add: is_int64_def)
  have s0: "messagesIdsForConfirmation new_session = []" by (simp add: new_session_def)
  from confirmation_round_trip [OF s0 refl _ i _ g b, of None] g show ?thesis by auto
qed

text \<open>
  Where \<open>size_t\<close> has 32 bits, the test of the number of ids can be passed by a number that is far too large, because its product
  with 8 wraps to 0: from a message of twelve bytes the parser makes 2^29 ids, four gigabytes; with 64 bits it refuses the message.
\<close>

theorem msgs_ack_overflow:
  assumes "buf_ok b" "rest b = enc32 0x1cb5c415 @ enc32 0x20000000 @ ys"
  shows "length (fst (read_msgs_ack 32 error b)) = 2 ^ 29 \<and> fst (read_msgs_ack 64 error b) = []"
proof -
  have ids: "length (fst (read_ids n e c)) = n" for n e c
    by (induction n arbitrary: e c) (simp_all add: case_prod_beta Let_def)
  note rd = int32.get_enc [OF _ TrueI, simplified]
  have room: "8 \<le> room b" using length_rest [OF assms(1)] assms(2) by simp
  then have room': "4 \<le> room b" by simp
  note a1 = advance_ok [OF assms(1) room'] and a2 = advance_ok [OF assms(1) room]
  have g1: "readInt32 error b = (0x1cb5c415, error, advance 4 b)" by (rule rd [OF assms])
  have "rest (advance 4 b) = enc32 0x20000000 @ ys" using a1(3) assms(2) by simp
  from rd [OF a1(1) this] have g2: "readInt32 error (advance 4 b) = (0x20000000, error, advance 8 b)" by (simp add: advance_advance)
  have lim: "unat (buf_position (advance 8 b)) \<le> unat (buf_limit b)" "unat (buf_limit b) < 2 ^ 31"
    using a2(4) room buf_okD [OF assms(1)] by simp_all
  have "(unat (0x20000000 :: u32) * 8 + unat (buf_position (advance 8 b))) mod 2 ^ 32 = unat (buf_position (advance 8 b))"
    using lim by simp
  then have "read_msgs_ack 32 error b = read_ids (unat (0x20000000 :: u32)) error (advance 8 b)"
    using lim(1) by (simp add: read_msgs_ack_def g1 g2 del: unat_numeral)
  then have "length (fst (read_msgs_ack 32 error b)) = unat (0x20000000 :: u32)" by (simp only: ids)
  moreover have "(unat (0x20000000 :: u32) * 8 + unat (buf_position (advance 8 b))) mod 2 ^ 64 > unat (buf_limit b)"
    using lim by simp
  then have "fst (read_msgs_ack 64 error b) = []" by (simp add: read_msgs_ack_def g1 g2)
  ultimately show ?thesis by simp
qed

theorem msgs_ack_overflow_witness:
  "length (fst (read_msgs_ack 32 None (new_buffer (enc32 0x1cb5c415 @ enc32 0x20000000) 8))) = 2 ^ 29"
proof -
  let ?b = "new_buffer (enc32 0x1cb5c415 @ enc32 0x20000000) 8"
  have b: "buf_ok ?b" by (simp add: new_buffer_def buf_ok_def)
  have "rest ?b = enc32 0x1cb5c415 @ enc32 0x20000000 @ []" by (simp add: new_buffer_def rest_def room_def rd_def enc32_def)
  from msgs_ack_overflow [OF b this, of None] show ?thesis by simp
qed

end
