(* ===== verification/ConfigFile.thy ===== *)
theory ConfigFile
  imports BuffersStorage
begin

text \<open>
  The configuration files of the network code, \<^verbatim>\<open>app/jni/tgnet/Config.cpp\<close>: a new version is written
  while the old one waits under the name of the backup, and the next start takes the backup when there is one.  The
  disk is modelled with its states at every moment at which the process can die.
\<close>

section \<open>The disk\<close>

record disk =
  config_file :: "bytes option"
  backup_file :: "bytes option"

text \<open>
  What the file operations do: whether they succeed, and how many bytes the two \<open>fwrite\<close> calls store.  The first two fields say
  whether a file that is there can be opened for reading; in \<open>readConfig\<close>, which changes nothing, it can.
\<close>

record file_io =
  can_read_config :: bool
  can_read_backup :: bool
  can_rename :: bool
  can_remove :: bool
  can_open :: bool
  size_stored :: nat
  data_stored :: nat
  can_flush :: bool
  has_fileno :: bool
  can_sync :: bool
  can_close :: bool

section \<open>Reading\<close>

text \<open>
  The constructor: a backup means that the last write did not come to its end.  Where the process dies after the old file was removed,
  the disk is as after a rename that fails.
\<close>

definition open_config :: "file_io \<Rightarrow> disk \<Rightarrow> disk" where
  "open_config io d =
     (case (if can_read_backup io then backup_file d else None) of None \<Rightarrow> d
      | Some b \<Rightarrow>
          let d = (if can_remove io then d\<lparr>config_file := None\<rparr> else d)
          in if can_rename io then d\<lparr>config_file := Some b, backup_file := None\<rparr> else d)"

definition readConfig :: "(nat \<Rightarrow> bytes) \<Rightarrow> disk \<Rightarrow> buffers_storage \<Rightarrow> native_buffer option \<times> buffers_storage" where
  "readConfig fresh d st =
     (case config_file d of None \<Rightarrow> (None, st)
      | Some file \<Rightarrow>
          let fileSize = length file;
              (bytesRead, sz) = (if 4 \<le> length file then (1, pack (file ! 3) (file ! 2) (file ! 1) (file ! 0)) else (0 :: nat, 0))
          in if bytesRead > 0 \<and> sz > 0 \<and> sint sz < int fileSize
             then let (b, st) = getFreeBuffer fresh sz st
                  in if length (take (unat sz) (drop 4 file)) \<noteq> unat sz then (None, reuse b st)
                     else (Some (b\<lparr>buffer := wr 0 (take (unat sz) (drop 4 file)) (buffer b)\<rparr>), st)
             else (None, st))"

section \<open>Writing\<close>

text \<open>
  The states of the disk one after the other, the last one at the head.  While the file is written it holds a part of the
  bytes that were stored.
\<close>

definition written :: "bytes \<Rightarrow> disk list \<Rightarrow> disk list" where
  "written bs ds = rev (map (\<lambda>n. (hd ds)\<lparr>config_file := Some (take n bs)\<rparr>) [0..<Suc (length bs)]) @ ds"

text \<open>The old file is renamed, or removed where there is a backup already; one that cannot be opened counts as missing.  The error, \<open>hasBackupFile\<close> and the states.\<close>

definition put_aside :: "file_io \<Rightarrow> disk \<Rightarrow> bool \<times> bool \<times> disk list" where
  "put_aside io d =
     (case (if can_read_config io then config_file d else None) of
        None \<Rightarrow> (False, False, [d])
      | Some file \<Rightarrow>
          (case (if can_read_backup io then backup_file d else None) of
             None \<Rightarrow> if \<not> can_rename io then (True, False, [d])
                     else (False, True, [d\<lparr>config_file := None, backup_file := Some file\<rparr>, d])
           | Some _ \<Rightarrow> (False, False, if can_remove io then [d\<lparr>config_file := None\<rparr>, d] else [d])))"

text \<open>The length and the bytes of the buffer go to the file: the error, and what was stored.\<close>

definition store_config :: "file_io \<Rightarrow> native_buffer \<Rightarrow> bool \<times> bytes" where
  "store_config io b =
     (let sz = buf_position b;
          sizeBytes = take (size_stored io) [b0 sz, b1 sz, b2 sz, b3 sz];
          (error, stored) = (if length sizeBytes = 4
                             then let dataBytes = take (data_stored io) (take (unat sz) (buffer b))
                                  in (length dataBytes \<noteq> unat sz, sizeBytes @ dataBytes)
                             else (True, sizeBytes));
          error = (error \<or> \<not> can_flush io);
          error = (error \<or> \<not> has_fileno io);
          error = (error \<or> has_fileno io \<and> \<not> can_sync io);
          error = (error \<or> \<not> can_close io)
      in (error, stored))"

definition writeConfig :: "file_io \<Rightarrow> native_buffer \<Rightarrow> disk \<Rightarrow> disk list" where
  "writeConfig io b d =
     (let (error, hasBackupFile, ds) = put_aside io d
      in if error then ds
         else if \<not> can_open io then ds
         else let (error, stored) = store_config io b;
                  ds = written stored ds
              in if error then (if can_remove io then (hd ds)\<lparr>config_file := None\<rparr> # ds else ds)
                 else if hasBackupFile \<and> can_remove io then (hd ds)\<lparr>backup_file := None\<rparr> # ds else ds)"

section \<open>What is read\<close>

text \<open>The configuration that a file holds.\<close>

definition config_of :: "bytes option \<Rightarrow> bytes option" where
  "config_of f =
     (case f of None \<Rightarrow> None
      | Some file \<Rightarrow>
          if 4 \<le> length file \<and> 0 < unat (pack (file ! 3) (file ! 2) (file ! 1) (file ! 0)) \<and>
             unat (pack (file ! 3) (file ! 2) (file ! 1) (file ! 0)) \<le> length file - 4
          then Some (take (unat (pack (file ! 3) (file ! 2) (file ! 1) (file ! 0))) (drop 4 file)) else None)"

text \<open>What the next start finds, when its operations work; starts where they fail change nothing of it.\<close>

definition working :: file_io where
  "working = \<lparr>can_read_config = True, can_read_backup = True, can_rename = True, can_remove = True, can_open = True, size_stored = 4,
     data_stored = 100, can_flush = True, has_fileno = True, can_sync = True, can_close = True\<rparr>"

definition after_restart :: "disk \<Rightarrow> bytes option" where
  "after_restart d = config_of (config_file (open_config working d))"

lemma after_restart: "after_restart d = config_of (case backup_file d of None \<Rightarrow> config_file d | Some b \<Rightarrow> Some b)"
  by (simp add: after_restart_def open_config_def working_def Let_def split: option.splits)

lemma after_start [simp]: "after_restart (open_config io d) = after_restart d"
  by (simp add: after_restart open_config_def Let_def split: option.splits)

lemma after_starts [simp]: "after_restart (fold open_config ios d) = after_restart d"
  by (induction ios arbitrary: d) simp_all

text \<open>\<open>readConfig\<close> gives what the file holds (of less than 2 GiB), in a buffer of its size.\<close>

lemma huge_reuse:
  assumes "160000 < unat sz" "getFreeBuffer fresh sz st = (b, st')"
  shows "reuse b st' = st"
proof -
  have le: "\<not> sz \<le> c" if "unat c \<le> 160000" for c using assms(1) that by (simp add: word_le_nat_alt)
  have "pool_to_get_from sz = None" by (simp add: pool_to_get_from_def le)
  then have b: "b = rewind (set_limit sz (new_buffer (fresh (unat sz)) sz))" "st' = st"
    using assms(2) by (simp_all add: getFreeBuffer_def)
  have "buf_capacity b = sz" by (simp add: b rewind_def set_limit_def new_buffer_def)
  moreover have "sz \<noteq> c" if "unat c \<le> 160000" for c using assms(1) that by auto
  then have "pool_to_reuse sz = None" by (simp add: pool_to_reuse_def)
  ultimately show ?thesis by (simp add: reuse_def reuseFreeBuffer_def b(2))
qed

lemma readConfig_config:
  assumes "storage_ok st" "\<And>n. length (fresh n) = n" "\<And>f. config_file d = Some f \<Longrightarrow> length f < 2 ^ 31"
    and r: "readConfig fresh d st = (r, st')"
  shows "storage_ok st' \<and>
    (case r of None \<Rightarrow> config_of (config_file d) = None
     | Some b \<Rightarrow> buf_ok b \<and> buf_position b = 0 \<and> config_of (config_file d) = Some (rest b))"
proof (cases "config_file d")
  case None
  then show ?thesis using r assms(1) by (simp add: readConfig_def config_of_def)
next
  case (Some f)
  define sz where "sz = pack (f ! 3) (f ! 2) (f ! 1) (f ! 0)"
  have len: "length f < 2 ^ 31" using assms(3) Some by simp
  have c: "config_of (config_file d) = (if 4 \<le> length f \<and> 0 < unat sz \<and> unat sz \<le> length f - 4 then Some (take (unat sz) (drop 4 f)) else None)"
    by (simp add: Some config_of_def sz_def)
  show ?thesis
  proof (cases "4 \<le> length f \<and> 0 < sz \<and> sint sz < int (length f)")
    case False
    have "sint sz < int (length f)" if "4 \<le> length f" "unat sz \<le> length f - 4"
    proof -
      have u: "uint sz = int (unat sz)" by simp
      have "length f < 2147483648" using len by simp
      then have "int (unat sz) < 2147483648" using that by linarith
      then have "uint sz < 2 ^ 31" unfolding u by (rule order.strict_trans2) simp
      moreover have "- (2 ^ 31) \<le> uint sz" by (rule order.trans [OF _ unsigned_greater_eq]) simp
      ultimately have "sint sz = uint sz" by (simp add: sint_uint signed_take_bit_int_eq_self)
      then have "sint sz = int (unat sz)" unfolding u .
      then show ?thesis using that by linarith
    qed
    then have "config_of (config_file d) = None" using False by (auto simp: c word_greater_zero_iff unat_gt_0)
    then show ?thesis using r assms(1) False Some by (auto simp: readConfig_def sz_def split: if_splits)
  next
    case True
    obtain b st1 where g: "getFreeBuffer fresh sz st = (b, st1)" by fastforce
    have nz: "0 < unat sz" using True by (simp add: word_greater_zero_iff unat_gt_0)
    define data where "data = take (unat sz) (drop 4 f)"
    have whole: "length data = unat sz \<longleftrightarrow> unat sz \<le> length f - 4" by (auto simp: data_def)
    have rd: "readConfig fresh d st =
        (if length data \<noteq> unat sz then (None, reuse b st1) else (Some (b\<lparr>buffer := wr 0 data (buffer b)\<rparr>), st1))"
      using True unfolding readConfig_def Some option.case Let_def sz_def [symmetric] by (simp add: g data_def)
    have conf: "config_of (config_file d) = (if length data = unat sz then Some data else None)"
      using True nz by (simp add: c whole data_def)
    show ?thesis
    proof (cases "unat sz < 2 ^ 31")
      case small: True
      from getFreeBuffer_ok [OF assms(1) small assms(2) g] have b: "storage_ok st1" "buf_ok b" "buf_position b = 0" "room b = unat sz" by simp_all
      show ?thesis
      proof (cases "length data = unat sz")
        case True
        let ?b = "b\<lparr>buffer := wr 0 data (buffer b)\<rparr>"
        have "rest ?b = data" "buf_ok ?b" using True b buf_okD [OF b(2)] by (simp_all add: rest_def room_def buf_ok_def rd_wr_same)
        moreover have "r = Some ?b" "st' = st1" using True r rd by simp_all
        ultimately show ?thesis using True b conf by simp
      next
        case False
        then have "r = None" "st' = reuse b st1" using r rd by simp_all
        then show ?thesis using False conf reuse_ok [OF b(1,2)] by simp
      qed
    next
      case False
      then have "length data \<noteq> unat sz" using whole len by simp
      moreover from this have "r = None" "st' = reuse b st1" using r rd by simp_all
      ultimately show ?thesis using huge_reuse [OF _ g] False conf assms(1) by simp
    qed
  qed
qed

section \<open>A crash loses nothing\<close>

text \<open>The bytes of the file for a buffer that was filled up to its position.\<close>

definition file_of :: "native_buffer \<Rightarrow> bytes" where
  "file_of b = [b0 (buf_position b), b1 (buf_position b), b2 (buf_position b), b3 (buf_position b)] @ behind b"

definition all_ok :: "file_io \<Rightarrow> native_buffer \<Rightarrow> bool" where
  "all_ok io b \<longleftrightarrow> can_read_config io \<and> can_read_backup io \<and> can_rename io \<and> can_remove io \<and> can_open io \<and> 4 \<le> size_stored io \<and> unat (buf_position b) \<le> data_stored io \<and>
     can_flush io \<and> has_fileno io \<and> can_sync io \<and> can_close io"

text \<open>A part of the new file reads as nothing, unless it is the whole.\<close>

lemma config_of_prefix:
  assumes "buf_ok b"
  shows "config_of (Some (take n (file_of b))) = None \<or> config_of (Some (take n (file_of b))) = Some (behind b) \<and> take n (file_of b) = file_of b"
proof (cases "4 \<le> n")
  case True
  have len: "length (behind b) = unat (buf_position b)" using buf_okD [OF assms] by (simp add: behind_def)
  then have l: "length (file_of b) = 4 + unat (buf_position b)" by (simp add: file_of_def)
  have t: "take n (file_of b) = [b0 (buf_position b), b1 (buf_position b), b2 (buf_position b), b3 (buf_position b)] @ take (n - 4) (behind b)"
    unfolding file_of_def take_append using True by (simp add: numeral_eq_Suc)
  have "config_of (Some (take n (file_of b))) =
      (if 0 < unat (buf_position b) \<and> unat (buf_position b) \<le> length (take (n - 4) (behind b)) then Some (take (unat (buf_position b)) (take (n - 4) (behind b))) else None)"
    unfolding t config_of_def by simp
  then show ?thesis using len l by (auto simp: min_def split: if_splits)
qed (auto simp: config_of_def)

lemma written_states:
  assumes "ds \<noteq> []"
  shows "hd (written bs ds) = (hd ds)\<lparr>config_file := Some bs\<rparr>" "written bs ds \<noteq> []"
    and "t \<in> set (written bs ds) \<Longrightarrow> t \<in> set ds \<or> (\<exists>n. t = (hd ds)\<lparr>config_file := Some (take n bs)\<rparr>)"
proof -
  show "hd (written bs ds) = (hd ds)\<lparr>config_file := Some bs\<rparr>" "written bs ds \<noteq> []" by (simp_all add: written_def)
  show "t \<in> set ds \<or> (\<exists>n. t = (hd ds)\<lparr>config_file := Some (take n bs)\<rparr>)" if "t \<in> set (written bs ds)"
    using that by (auto simp: written_def simp del: upt_Suc)
qed

text \<open>What is stored is a part of the file, and the whole of it if there was no error.\<close>

lemma store_config_prefix:
  assumes "buf_ok b" and st: "store_config io b = (error, stored)"
  shows "(\<exists>k. stored = take k (file_of b)) \<and> (\<not> error \<longrightarrow> stored = file_of b)"
proof -
  let ?h = "[b0 (buf_position b), b1 (buf_position b), b2 (buf_position b), b3 (buf_position b)]"
  have data: "take (unat (buf_position b)) (buffer b) = behind b" and len: "length (behind b) = unat (buf_position b)"
    using buf_okD [OF assms(1)] by (simp_all add: behind_def)
  show ?thesis
  proof (cases "4 \<le> size_stored io")
    case True
    then have h: "take (size_stored io) ?h = ?h" by simp
    have "store_config io b = (length (take (data_stored io) (behind b)) \<noteq> unat (buf_position b) \<or> \<not> can_flush io \<or> \<not> has_fileno io \<or>
        has_fileno io \<and> \<not> can_sync io \<or> \<not> can_close io, ?h @ take (data_stored io) (behind b))"
      by (simp only: store_config_def Let_def h data) auto
    then have s: "stored = ?h @ take (data_stored io) (behind b)" and e: "\<not> error \<Longrightarrow> length (take (data_stored io) (behind b)) = unat (buf_position b)"
      using st by (simp_all del: length_take)
    have "stored = take (4 + data_stored io) (file_of b)" unfolding s file_of_def take_append by simp
    moreover have "stored = file_of b" if "\<not> error" using e [OF that] len by (simp add: s file_of_def)
    ultimately show ?thesis by blast
  next
    case False
    then have "(length (take (size_stored io) ?h) = 4) = False" by simp
    then have "store_config io b = (True, take (size_stored io) ?h)" by (simp only: store_config_def Let_def if_False) simp
    then have "error" "stored = take (size_stored io) ?h" using st by simp_all
    moreover have "take (size_stored io) (file_of b) = take (size_stored io) ?h" unfolding file_of_def take_append using False by simp
    ultimately show ?thesis by metis
  qed
qed

lemma config_of_file: "buf_ok b \<Longrightarrow> buf_position b \<noteq> 0 \<Longrightarrow> config_of (Some (file_of b)) = Some (behind b)"
  using buf_okD [of b] by (simp add: config_of_def file_of_def behind_def unat_gt_0 pack_bytes)

lemma part_of_file:
  assumes "buf_ok b"
  shows "config_of (Some (take n (take k (file_of b)))) = None \<or> config_of (Some (take n (take k (file_of b)))) = Some (behind b)"
  using config_of_prefix [OF assms, of "min n k"] by (simp add: take_take) blast

text \<open>The configuration that the next start would read can be opened: the file itself, or the backup where there is one.\<close>

definition readable :: "file_io \<Rightarrow> disk \<Rightarrow> bool" where
  "readable io d \<longleftrightarrow> (if backup_file d = None then config_file d = None \<or> can_read_config io else can_read_backup io)"

lemma put_aside_old:
  "readable io d \<Longrightarrow> put_aside io d = (error, hasBackup, ds) \<Longrightarrow> t \<in> set ds \<Longrightarrow> ds \<noteq> [] \<and> after_restart t = after_restart d"
  by (auto simp: put_aside_def readable_def after_restart split: option.splits if_splits)

text \<open>With the old file as the backup, or with no old file, what is in the new file so far does no harm.\<close>

lemma put_aside_written:
  assumes "readable io d" "put_aside io d = (False, hasBackup, ds)" "buf_ok b"
  shows "after_restart ((hd ds)\<lparr>config_file := Some (take n (take k (file_of b)))\<rparr>) \<in> {after_restart d, Some (behind b)}"
    and "after_restart ((hd ds)\<lparr>config_file := None\<rparr>) = after_restart d"
  using assms(1,2) part_of_file [OF assms(3), of n k]
  by (auto simp: put_aside_def readable_def after_restart config_of_def [of None] split: option.splits if_splits)

lemma crash_states:
  assumes "buf_ok b" "buf_position b \<noteq> 0" "readable io d" "t \<in> set (writeConfig io b d)"
  shows "after_restart t = after_restart d \<or> after_restart t = Some (behind b)"
proof -
  obtain error hasBackup ds where p: "put_aside io d = (error, hasBackup, ds)" by (metis prod_cases3)
  note old = put_aside_old [OF assms(3) p]
  show ?thesis
  proof (cases "error \<or> \<not> can_open io")
    case True
    then have "writeConfig io b d = ds" by (auto simp: writeConfig_def p)
    then show ?thesis using assms(4) old by simp
  next
    case False
    obtain failed stored where st: "store_config io b = (failed, stored)" by fastforce
    obtain k where k: "stored = take k (file_of b)" and whole: "\<not> failed \<Longrightarrow> stored = file_of b"
      using store_config_prefix [OF assms(1) st] by blast
    have ne: "ds \<noteq> []" using p by (auto simp: put_aside_def split: option.splits if_splits)
    have p': "put_aside io d = (False, hasBackup, ds)" using p False by simp
    note ok = put_aside_written [OF assms(3) p' assms(1)]
    have t: "t \<in> set (if failed then (if can_remove io then (hd (written stored ds))\<lparr>config_file := None\<rparr> # written stored ds else written stored ds)
        else if hasBackup \<and> can_remove io then (hd (written stored ds))\<lparr>backup_file := None\<rparr> # written stored ds else written stored ds)"
      using assms(4) False by (simp add: writeConfig_def p Let_def st)
    consider "t \<in> set (written stored ds)" | "t = (hd ds)\<lparr>config_file := None\<rparr>"
      | "\<not> failed" "t = (hd ds)\<lparr>config_file := Some stored, backup_file := None\<rparr>"
      using t by (auto simp: written_states(1) [OF ne] split: if_splits)
    then show ?thesis
    proof cases
      case 1
      then show ?thesis using written_states(3) [OF ne] old ok(1) unfolding k by blast
    next
      case 2
      then show ?thesis using ok(2) by simp
    next
      case 3
      then show ?thesis using whole config_of_file [OF assms(1,2)] by (simp add: after_restart)
    qed
  qed
qed

text \<open>
  C26. If the configuration that the next start would read can be opened: whichever of the other operations fail while a new
  configuration is written, whenever the process dies, and whatever fails in the starts that follow, the first start whose operations work
  reads the old configuration or the new one, whole.
\<close>

theorem writeConfig_crash_safe:
  assumes "buf_ok b" "buf_position b \<noteq> 0" "readable io d" "t \<in> set (writeConfig io b d)"
  shows "after_restart (fold open_config ios t) = after_restart d \<or> after_restart (fold open_config ios t) = Some (behind b)"
  using crash_states [OF assms] by simp

definition sample_config :: "u8 \<Rightarrow> native_buffer" where
  "sample_config x = new_buffer [x, 2, 3, 0] 4\<lparr>buf_position := 3\<rparr>"

lemma sample_config_ok: "buf_ok (sample_config x)" "buf_position (sample_config x) \<noteq> 0" "behind (sample_config x) = [x, 2, 3]"
  by (simp_all add: sample_config_def new_buffer_def buf_ok_def behind_def)

theorem writeConfig_crash_safe_witness:
  "list_all (\<lambda>t. after_restart (open_config (working\<lparr>can_rename := False\<rparr>) t) = Some [1, 2, 3] \<or>
       after_restart (open_config (working\<lparr>can_rename := False\<rparr>) t) = Some [9, 2, 3])
     (writeConfig (working\<lparr>data_stored := 2\<rparr>) (sample_config 9) \<lparr>config_file = Some (file_of (sample_config 1)), backup_file = None\<rparr>)"
  unfolding list_all_iff
proof
  fix t
  let ?d = "\<lparr>config_file = Some (file_of (sample_config 1)), backup_file = None\<rparr>" and ?io = "working\<lparr>can_rename := False\<rparr>"
  assume t: "t \<in> set (writeConfig (working\<lparr>data_stored := 2\<rparr>) (sample_config 9) ?d)"
  have "readable (working\<lparr>data_stored := 2\<rparr>) ?d" by (simp add: readable_def working_def)
  from writeConfig_crash_safe [OF sample_config_ok(1,2) this t, of "[?io]"]
  have "after_restart (open_config ?io t) = after_restart ?d \<or> after_restart (open_config ?io t) = Some [9, 2, 3]"
    by (simp only: fold_simps sample_config_ok)
  moreover have "after_restart ?d = Some [1, 2, 3]"
    using config_of_file [OF sample_config_ok(1,2)] by (simp add: after_restart sample_config_ok)
  ultimately show "after_restart (open_config ?io t) = Some [1, 2, 3] \<or> after_restart (open_config ?io t) = Some [9, 2, 3]" by simp
qed

text \<open>
  The hypothesis is needed: where the old file is there and cannot be opened for reading, it counts as missing, no backup is made, and
  opening it for writing cuts it off; a process that dies then leaves nothing.
\<close>

theorem unreadable_config_lost:
  assumes "config_file d = Some old" "backup_file d = None" "\<not> can_read_config io" "can_open io"
  shows "\<exists>t \<in> set (writeConfig io b d). after_restart t = None"
proof
  let ?t = "d\<lparr>config_file := Some []\<rparr>"
  obtain failed stored where st: "store_config io b = (failed, stored)" by fastforce
  have "?t \<in> set (written stored [d])" by (force simp: written_def simp del: upt_Suc)
  then show "?t \<in> set (writeConfig io b d)" using assms by (simp add: writeConfig_def put_aside_def st Let_def)
  show "after_restart ?t = None" using assms(2) by (simp add: after_restart config_of_def)
qed

text \<open>Several configurations written one after the other by the same process.\<close>

fun write_configs :: "(file_io \<times> native_buffer) list \<Rightarrow> disk \<Rightarrow> disk" where
  "write_configs [] d = d"
| "write_configs ((io, b) # ws) d = write_configs ws (hd (writeConfig io b d))"

lemma writeConfig_ne: "writeConfig io b d \<noteq> []"
  by (auto simp: writeConfig_def put_aside_def written_def Let_def split: option.splits prod.splits)

lemma backup_stays:
  assumes "backup_file d = Some old" "can_read_backup io"
  shows "backup_file (hd (writeConfig io b d)) = Some old"
proof -
  obtain error hasBackup ds where p: "put_aside io d = (error, hasBackup, ds)" by (metis prod_cases3)
  have ds: "ds \<noteq> []" "backup_file (hd ds) = Some old" "\<not> hasBackup" using p assms
    by (auto simp: put_aside_def split: option.splits if_splits)
  obtain failed stored where st: "store_config io b = (failed, stored)" by fastforce
  show ?thesis using ds written_states(1,2) [OF ds(1), of stored]
    by (auto simp: writeConfig_def p st Let_def)
qed

text \<open>
  C27. After a write that failed, nothing that the process writes later is read again, although all these writes succeed: the
  backup that the failed write left is never removed, as long as it can be opened, and the next start takes it back.
\<close>

theorem failed_write_wins:
  assumes "config_file d = Some old" "backup_file d = None" "can_read_config io" "can_rename io" "can_remove io" "\<not> can_sync io" "has_fileno io"
    and "\<forall>w \<in> set ws. can_read_backup (fst w)"
  shows "after_restart (write_configs ((io, b) # ws) d) = after_restart d"
proof -
  obtain failed stored where st: "store_config io b = (failed, stored)" by fastforce
  then have "failed" using assms(6,7) by (auto simp: store_config_def Let_def split: prod.splits if_splits)
  have "backup_file (hd (writeConfig io b d)) = Some old"
    using assms(1-5) st \<open>failed\<close> written_states(1,2) [of "[d\<lparr>config_file := None, backup_file := Some old\<rparr>, d]" stored]
    by (auto simp: writeConfig_def put_aside_def Let_def)
  then have "backup_file (write_configs ws (hd (writeConfig io b d))) = Some old"
    using assms(8)
  proof (induction ws arbitrary: io b d)
    case (Cons w ws)
    then show ?case using backup_stays [OF Cons.prems(1), of "fst w" "snd w"] by (cases w) auto
  qed simp
  then show ?thesis using assms(1,2) by (simp add: after_restart)
qed

theorem failed_write_wins_witness:
  "after_restart (write_configs [(working\<lparr>can_sync := False\<rparr>, sample_config 5), (working, sample_config 9)]
     \<lparr>config_file = Some (file_of (sample_config 1)), backup_file = None\<rparr>) = Some [1, 2, 3]"
  using failed_write_wins [of "\<lparr>config_file = Some (file_of (sample_config 1)), backup_file = None\<rparr>" "file_of (sample_config 1)"
      "working\<lparr>can_sync := False\<rparr>" "[(working, sample_config 9)]" "sample_config 5"]
    config_of_file [OF sample_config_ok(1,2), of 1]
  by (simp add: working_def after_restart sample_config_ok del: write_configs.simps)

text \<open>
  C29. Without a failure, what was written last is what the next start reads, in a buffer that holds it from its start to its limit.
\<close>

theorem config_round_trip:
  assumes "buf_ok b" "buf_position b \<noteq> 0" "all_ok io b" "backup_file d = None"
    and "storage_ok st" "\<And>n. length (fresh n) = n" "unat (buf_position b) < 2 ^ 30"
    and "readConfig fresh (open_config io2 (hd (writeConfig io b d))) st = (r, st')"
  shows "\<exists>c. r = Some c \<and> buf_position c = 0 \<and> rest c = behind b \<and> storage_ok st'"
proof -
  obtain failed stored where st: "store_config io b = (failed, stored)" by fastforce
  have "length (take (unat (buf_position b)) (buffer b)) = unat (buf_position b)" using buf_okD [OF assms(1)] by simp
  then have "\<not> failed" using assms(3) st by (simp add: all_ok_def store_config_def Let_def)
  then have stored: "stored = file_of b" using store_config_prefix [OF assms(1) st] by blast
  have "config_file (hd (writeConfig io b d)) = Some stored \<and> backup_file (hd (writeConfig io b d)) = None"
  proof (cases "config_file d")
    case None
    then show ?thesis using st \<open>\<not> failed\<close> assms(3,4) written_states(1) [of "[d]" stored]
      by (simp add: writeConfig_def put_aside_def Let_def all_ok_def)
  next
    case (Some f)
    then show ?thesis using st \<open>\<not> failed\<close> assms(3,4)
        written_states(1) [of "[d\<lparr>config_file := None, backup_file := Some f\<rparr>, d]" stored]
      by (simp add: writeConfig_def put_aside_def Let_def all_ok_def)
  qed
  then have o: "config_file (open_config io2 (hd (writeConfig io b d))) = Some (file_of b)" by (simp add: open_config_def stored)
  have "length (file_of b) < 2 ^ 31" using assms(7) buf_okD [OF assms(1)] by (simp add: file_of_def behind_def)
  then have len: "length f < 2 ^ 31" if "config_file (open_config io2 (hd (writeConfig io b d))) = Some f" for f using that o by simp
  from readConfig_config [OF assms(5,6) len assms(8)] show ?thesis
    using config_of_file [OF assms(1,2)] o by (auto split: option.splits)
qed

theorem config_round_trip_witness:
  "\<exists>c st'. readConfig zeros (open_config working (hd (writeConfig working (sample_config 9)
       \<lparr>config_file = Some (file_of (sample_config 1)), backup_file = None\<rparr>))) (new_storage zeros) = (Some c, st') \<and> rest c = [9, 2, 3]"
proof -
  let ?d = "\<lparr>config_file = Some (file_of (sample_config 1)), backup_file = None\<rparr>"
  obtain r st' where r: "readConfig zeros (open_config working (hd (writeConfig working (sample_config 9) ?d))) (new_storage zeros) = (r, st')" by fastforce
  have ok: "all_ok working (sample_config 9)" by (simp add: all_ok_def working_def sample_config_def)
  have z: "\<And>n. length (zeros n) = n" by (simp add: zeros_def)
  have p: "unat (buf_position (sample_config 9)) < 2 ^ 30" by (simp add: sample_config_def)
  from config_round_trip [OF sample_config_ok(1,2) ok _ zeros_storage z p r] r show ?thesis by (auto simp: sample_config_ok)
qed

end
