(* ===== verification/PacketStream.thy ===== *)
theory PacketStream
  imports Socket BlockModes
begin

text \<open>
  The packets of a connection, \<open>Connection::onReceivedData\<close> of \<^verbatim>\<open>app/jni/tgnet/Connection.cpp\<close>: the bytes that the
  socket hands over are decrypted, put together with what an earlier call left, and taken apart into quick
  acknowledgements and packets.  What the code does to the buffer through \<open>buffer\<close> it does to \<open>restOfTheData\<close> as well
  while both point to the same object; the flag \<open>aliased\<close> says that they do.  The timeouts are left out.
\<close>

unbundle bit_operations_syntax

section \<open>The state\<close>

datatype protocol = ProtocolTypeEF | ProtocolTypeEE | ProtocolTypeDD | ProtocolTypeTLS

text \<open>What the rest of the program is told: \<open>onConnectionQuickAckReceived\<close>, \<open>onConnectionDataReceived\<close>, \<open>reconnect\<close>.\<close>

datatype packet_event = QuickAck u32 | Packet bytes | Reconnect

record packet_state =
  restOfTheData :: "native_buffer option"
  lastPacketLength :: u32
  pools :: buffers_storage

section \<open>Putting together\<close>

text \<open>
  The start of \<open>onReceivedData\<close>: nothing more to do, or the buffer to read from, whether it is \<open>restOfTheData\<close>, the buffer
  that is read after it, and the state.
\<close>

definition join_rest ::
    "(nat \<Rightarrow> bytes) \<Rightarrow> native_buffer \<Rightarrow> packet_state \<Rightarrow> packet_state + native_buffer \<times> bool \<times> native_buffer option \<times> packet_state" where
  "join_rest fresh b s =
     (case restOfTheData s of
        None \<Rightarrow> Inr (b, False, None, s)
      | Some r \<Rightarrow>
          if lastPacketLength s = 0
          then if buf_capacity r - buf_position r \<ge> buf_limit b
               then let r = set_limit (buf_position r + buf_limit b) r;
                        (_, r, b) = writeBytes_buffer b None r
                    in Inr (r, True, None, s\<lparr>restOfTheData := Some r\<rparr>)
               else let (newBuffer, st) = getFreeBuffer fresh (buf_limit r + buf_limit b) (pools s);
                        r = rewind r;
                        (_, newBuffer, r) = writeBytes_buffer r None newBuffer;
                        (_, newBuffer, b) = writeBytes_buffer b None newBuffer;
                        st = reuse r st
                    in Inr (newBuffer, True, None, s\<lparr>restOfTheData := Some newBuffer, pools := st\<rparr>)
          else let len = (if lastPacketLength s - buf_position r \<le> buf_limit b then lastPacketLength s - buf_position r else buf_limit b);
                   oldLimit = buf_limit b;
                   b = set_limit len b;
                   (_, r, b) = writeBytes_buffer b None r;
                   b = set_limit oldLimit b
               in if buf_position r = lastPacketLength s
                  then Inr (r, True, if hasRemaining b then Some b else None, s\<lparr>restOfTheData := Some r\<rparr>)
                  else Inl (s\<lparr>restOfTheData := Some r\<rparr>))"

section \<open>Taking apart\<close>

text \<open>
  The header of the next packet: too short (and whether it begins an acknowledgement), an acknowledgement, or the length of the packet
  without and with its header.
\<close>

datatype packet_header = Short bool | Ack u32 | Length u32 u32

definition read_header :: "protocol \<Rightarrow> native_buffer \<Rightarrow> packet_header \<times> native_buffer" where
  "read_header currentProtocolType b =
     (let mark = buf_position b
      in if currentProtocolType = ProtocolTypeEF
         then let (fByte, _, b) = readByte None b
              in if fByte AND push_bit 7 1 \<noteq> 0
                 then let b = set_position mark b
                      in if remaining b < 4 then (Short True, b)
                         else let (a, _, b) = readBigInt32 None b in (Ack (a AND NOT (push_bit 31 1)), b)
                 else if fByte \<noteq> 0x7f then (Length (ucast fByte * 4) (ucast fByte * 4 + 1), b)
                 else let b = set_position mark b
                      in if remaining b < 4 then (Short False, b)
                         else let (n, _, b) = readInt32 None b
                              in (Length (drop_bit 8 n * 4) (drop_bit 8 n * 4 + 4), b)
         else if remaining b < 4 then (Short False, b)
         else let (fInt, _, b) = readInt32 None b
              in if fInt AND 0x80000000 \<noteq> 0 then (Ack (fInt AND NOT (push_bit 31 1)), b)
                 else (Length fInt (fInt + 4), b))"

text \<open>What was done to \<open>buffer\<close> is done to \<open>restOfTheData\<close> when they are the same.\<close>

definition sync :: "bool \<Rightarrow> native_buffer \<Rightarrow> packet_state \<Rightarrow> packet_state" where
  "sync aliased b s = (if aliased then s\<lparr>restOfTheData := Some b\<rparr> else s)"

text \<open>A header that is too short waits for its end; one of an acknowledgement always in a new buffer.\<close>

definition keep_header :: "(nat \<Rightarrow> bytes) \<Rightarrow> bool \<Rightarrow> native_buffer \<Rightarrow> bool \<Rightarrow> packet_state \<Rightarrow> packet_state" where
  "keep_header fresh always b aliased s =
     (if always \<or> restOfTheData s = None \<or> buf_position (the (restOfTheData s)) \<noteq> 0
      then let (r, st) = getFreeBuffer fresh 16384 (pools s);
               (_, r, b) = writeBytes_buffer b None r;
               s = sync aliased b s;
               reuseLater = restOfTheData s;
               r = set_limit (buf_position r) r;
               st = (case reuseLater of None \<Rightarrow> st | Some old \<Rightarrow> reuse old st)
           in s\<lparr>restOfTheData := Some r, lastPacketLength := 0, pools := st\<rparr>
      else let r = the (restOfTheData s) in s\<lparr>restOfTheData := Some (set_position (buf_limit r) r)\<rparr>)"

text \<open>A packet that has not come as a whole; the buffer stands behind its header, which is at \<open>mark\<close>.\<close>

definition keep_packet :: "(nat \<Rightarrow> bytes) \<Rightarrow> u32 \<Rightarrow> u32 \<Rightarrow> native_buffer \<Rightarrow> bool \<Rightarrow> packet_state \<Rightarrow> packet_state" where
  "keep_packet fresh mark len b aliased s =
     (let small = (case restOfTheData s of None \<Rightarrow> False | Some r \<Rightarrow> buf_capacity r < len)
      in if restOfTheData s = None \<or> small
         then let b = set_position mark b;
                  (r, st) = getFreeBuffer fresh len (pools s);
                  (_, r, b) = writeBytes_buffer b None r;
                  s = sync aliased b s;
                  st = (case restOfTheData s of None \<Rightarrow> st | Some old \<Rightarrow> reuse old st)
              in s\<lparr>restOfTheData := Some r, lastPacketLength := len, pools := st\<rparr>
         else let r = the (restOfTheData s);
                  r = set_limit len (set_position (buf_limit r) r)
              in s\<lparr>restOfTheData := Some r, lastPacketLength := len\<rparr>)"

text \<open>After a packet: \<open>restOfTheData\<close> is given back, or its rest is moved to its start.\<close>

definition after_packet :: "native_buffer \<Rightarrow> bool \<Rightarrow> packet_state \<Rightarrow> native_buffer \<times> bool \<times> packet_state" where
  "after_packet b aliased s =
     (case restOfTheData s of
        None \<Rightarrow> (b, aliased, s)
      | Some r \<Rightarrow>
          if lastPacketLength s \<noteq> 0 \<and> buf_position r = lastPacketLength s \<or> lastPacketLength s = 0 \<and> \<not> hasRemaining r
          then (b, False, s\<lparr>restOfTheData := None, pools := reuse r (pools s)\<rparr>)
          else let r = compact r;
                   r = set_limit (buf_position r) r;
                   r = set_position 0 r
               in (if aliased then r else b, aliased, s\<lparr>restOfTheData := Some r\<rparr>))"

text \<open>\<open>reconnect\<close>, as far as these fields go.\<close>

definition drop_rest :: "packet_state \<Rightarrow> packet_state" where
  "drop_rest s =
     (case restOfTheData s of None \<Rightarrow> s\<lparr>lastPacketLength := 0\<rparr>
      | Some r \<Rightarrow> s\<lparr>restOfTheData := None, lastPacketLength := 0, pools := reuse r (pools s)\<rparr>)"

partial_function (option) packet_loop ::
    "(nat \<Rightarrow> bytes) \<Rightarrow> protocol \<Rightarrow> native_buffer \<Rightarrow> bool \<Rightarrow> native_buffer option \<Rightarrow> packet_state \<Rightarrow> packet_event list \<Rightarrow>
       (packet_event list \<times> packet_state) option" where
  "packet_loop fresh p b aliased parseLaterBuffer s out =
     (if \<not> hasRemaining b then Some (out, s)
      else
        let mark = buf_position b;
            (h, b) = read_header p b;
            s = sync aliased b s
        in case h of
             Short always \<Rightarrow> Some (out, keep_header fresh always b aliased s)
           | Ack ackId \<Rightarrow> packet_loop fresh p b aliased parseLaterBuffer s (out @ [QuickAck ackId])
           | Length currentPacketLength len \<Rightarrow>
               if p \<noteq> ProtocolTypeDD \<and> p \<noteq> ProtocolTypeTLS \<and> (currentPacketLength mod 4 \<noteq> 0 \<or> currentPacketLength > 2 * 1024 * 1024)
               then Some (out @ [Reconnect], drop_rest s)
               else if currentPacketLength > remaining b
               then Some (out, keep_packet fresh mark len b aliased s)
               else
                 let old = buf_limit b;
                     b = set_limit (buf_position b + currentPacketLength) b;
                     out = out @ [Packet (rest b)];
                     b = set_position (buf_limit b) b;
                     b = set_limit old b;
                     s = sync aliased b s;
                     (b, aliased, s) = after_packet b aliased s
                 in case parseLaterBuffer of
                      None \<Rightarrow> packet_loop fresh p b aliased None s out
                    | Some later \<Rightarrow> packet_loop fresh p later False None s out)"

text \<open>The bytes that were decrypted, and \<open>onReceivedData\<close> with the decryption.\<close>

definition process_data ::
    "(nat \<Rightarrow> bytes) \<Rightarrow> protocol \<Rightarrow> native_buffer \<Rightarrow> packet_state \<Rightarrow> (packet_event list \<times> packet_state) option" where
  "process_data fresh p b s =
     (case join_rest fresh b s of
        Inl s \<Rightarrow> Some ([], s)
      | Inr (b, aliased, parseLaterBuffer, s) \<Rightarrow>
          let b = rewind b; s = sync aliased b s in packet_loop fresh p b aliased parseLaterBuffer s [])"

type_synonym ctr_state = "bytes \<times> bytes \<times> nat"

definition onReceivedData ::
    "aes_platform \<Rightarrow> aes_key \<Rightarrow> (nat \<Rightarrow> bytes) \<Rightarrow> protocol \<Rightarrow> native_buffer \<Rightarrow> ctr_state \<times> packet_state \<Rightarrow>
       (packet_event list \<times> ctr_state \<times> packet_state) option" where
  "onReceivedData pf decryptKey fresh p b cs =
     (let ((decryptIv, decryptCount, decryptNum), s) = cs;
          (mem, decryptIv, decryptCount, decryptNum) =
            AES_ctr128_encrypt pf 0 0 (unat (buf_limit b)) decryptKey decryptIv decryptCount decryptNum (buffer b);
          b = b\<lparr>buffer := mem\<rparr>
      in case process_data fresh p b s of
           None \<Rightarrow> None
         | Some (out, s) \<Rightarrow> Some (out, (decryptIv, decryptCount, decryptNum), s))"

end
