(* ===== verification/PacketFraming.thy ===== *)
theory PacketFraming
  imports PacketStream
begin

text \<open>
  The packets in a stream of bytes, and the proof that the connection finds them however the stream is cut, as long as
  it holds no quick acknowledgements; and what goes wrong with one that is cut.
\<close>

unbundle bit_operations_syntax

section \<open>The packets of a stream\<close>

text \<open>The first header: not complete, an acknowledgement, or the length of the packet and of the header.\<close>

datatype stream_head = More | IsAck u32 | Len nat nat

definition int_of_head :: "bytes \<Rightarrow> u32" where
  "int_of_head bs = pack (bs ! 3) (bs ! 2) (bs ! 1) (bs ! 0)"

definition first_header :: "protocol \<Rightarrow> bytes \<Rightarrow> stream_head" where
  "first_header p bs =
     (if p = ProtocolTypeEF
      then if bs = [] then More
           else if 128 \<le> unat (hd bs) then (if length bs < 4 then More else IsAck (pack (bs ! 0) (bs ! 1) (bs ! 2) (bs ! 3) AND NOT 0x80000000))
           else if unat (hd bs) \<noteq> 127 then Len (4 * unat (hd bs)) 1
           else if length bs < 4 then More else Len (4 * (unat (int_of_head bs) div 256)) 4
      else if length bs < 4 then More
      else if 2147483648 \<le> unat (int_of_head bs) then IsAck (int_of_head bs AND NOT 0x80000000)
      else Len (unat (int_of_head bs)) 4)"

text \<open>What is left: the start of a packet, nothing because of a wrong length, or a packet of two gigabytes and more.\<close>

datatype left = Left bytes | Closed | Huge

definition wrong_length :: "protocol \<Rightarrow> nat \<Rightarrow> bool" where
  "wrong_length p n \<longleftrightarrow> p \<noteq> ProtocolTypeDD \<and> p \<noteq> ProtocolTypeTLS \<and> (n mod 4 \<noteq> 0 \<or> 2 * 1024 * 1024 < n)"

lemma header_length: "first_header p bs = Len n h \<Longrightarrow> 0 < h \<and> h \<le> 4 \<and> h \<le> length bs"
  by (auto simp: first_header_def Suc_le_eq split: if_splits)

function unframe :: "protocol \<Rightarrow> bytes \<Rightarrow> packet_event list \<times> left" where
  "unframe p bs =
     (case first_header p bs of
        More \<Rightarrow> ([], Left bs)
      | IsAck a \<Rightarrow> (let (es, l) = unframe p (drop 4 bs) in (QuickAck a # es, l))
      | Len n h \<Rightarrow>
          if wrong_length p n then ([Reconnect], Closed)
          else if 2 ^ 31 \<le> n + h then ([], Huge)
          else if length bs < h + n then ([], Left bs)
          else (let (es, l) = unframe p (drop (h + n) bs) in (Packet (take n (drop h bs)) # es, l)))"
  by pat_completeness auto
termination
proof (relation "measure (\<lambda>(p, bs). length bs)", goal_cases)
  case (2 p bs a)
  then show ?case by (auto simp: first_header_def split: if_splits)
next
  case (3 p bs n h)
  then show ?case using header_length [of p bs n h] by auto
qed simp

declare unframe.simps [simp del]

section \<open>Reading a header\<close>

lemma high_half: "n < 2 * k \<Longrightarrow> odd (n div k) \<longleftrightarrow> \<not> n < k" for n k :: nat
proof (cases "n < k")
  case False
  assume "n < 2 * k"
  then have "n div k = 1" using False by (intro div_nat_eqI) auto
  then show ?thesis using False by simp
qed simp

lemma high_bit8: "x AND 128 = 0 \<longleftrightarrow> unat (x :: u8) < 128"
proof -
  have "x AND 128 \<noteq> 0 \<longleftrightarrow> bit (unat x) 7" using and_exp_eq_0_iff_not_bit [of x 7] by (simp add: bit_unsigned_iff)
  then show ?thesis using high_half [of "unat x" 128] byte_less [of x] by (simp add: bit_iff_odd)
qed

lemma high_bit32: "w AND 0x80000000 = 0 \<longleftrightarrow> unat (w :: u32) < 2147483648"
proof -
  have "w AND 0x80000000 \<noteq> 0 \<longleftrightarrow> bit (unat w) 31" using and_exp_eq_0_iff_not_bit [of w 31] by (simp add: bit_unsigned_iff)
  then show ?thesis using high_half [of "unat w" 2147483648] unsigned_less [of w, where 'a = nat] by (simp add: bit_iff_odd)
qed

lemma read32:
  assumes "buf_ok b" "4 \<le> room b"
  shows "readInt32 None b = (int_of_head (rest b), None, advance 4 b)"
    and "readBigInt32 None b = (pack (rest b ! 0) (rest b ! 1) (rest b ! 2) (rest b ! 3), None, advance 4 b)"
proof -
  have at: "at b 0 = rest b ! 0" "at b 1 = rest b ! 1" "at b 2 = rest b ! 2" "at b 3 = rest b ! 3"
    using rest_nth [OF assms(1), of 0] rest_nth [OF assms(1), of 1] rest_nth [OF assms(1), of 2] rest_nth [OF assms(1), of 3] assms(2)
    by simp_all
  have o: "\<not> buf_position b + 4 > buf_limit b" using over_limit [OF assms(1), of 4] assms(2) by simp
  show "readInt32 None b = (int_of_head (rest b), None, advance 4 b)"
    unfolding readInt32_def at int_of_head_def pack_def using o by (simp add: advance_def ac_simps)
  show "readBigInt32 None b = (pack (rest b ! 0) (rest b ! 1) (rest b ! 2) (rest b ! 3), None, advance 4 b)"
    unfolding readBigInt32_def at pack_def using o by (simp add: advance_def)
qed

lemma short_remaining: "buf_ok b \<Longrightarrow> remaining b < 4 \<longleftrightarrow> length (rest b) < 4"
  using unat_remaining [of b] length_rest [of b] by (simp add: word_less_nat_alt)

lemma back_to_mark: "buf_ok b \<Longrightarrow> set_position (buf_position b) (advance n b) = b"
  using buf_okD [of b] by (simp add: set_position_def advance_def word_less_nat_alt)

lemma length_words:
  "(w * 4 :: u32) = of_nat (4 * unat w)" "(ucast x * 4 :: u32) = of_nat (4 * unat (x :: u8))"
  by (simp_all add: mult.commute)

lemma read_header_EF:
  assumes b: "buf_ok b" and ne: "rest b \<noteq> []"
  shows "read_header ProtocolTypeEF b =
    (let x = hd (rest b); n = 4 * (unat (int_of_head (rest b)) div 256)
     in if 128 \<le> unat x
        then if length (rest b) < 4 then (Short True, b)
             else (Ack (pack (rest b ! 0) (rest b ! 1) (rest b ! 2) (rest b ! 3) AND NOT (push_bit 31 1)), advance 4 b)
        else if unat x \<noteq> 127 then (Length (of_nat (4 * unat x)) (of_nat (4 * unat x) + 1), advance 1 b)
        else if length (rest b) < 4 then (Short False, b)
        else (Length (of_nat n) (of_nat n + 4), advance 4 b))"
proof -
  define x where "x = hd (rest b)"
  have room: "length (rest b) = room b" "1 \<le> room b" using length_rest [OF b] ne by (cases "rest b"; simp)+
  have "at b 0 = x" using rest_nth [OF b, of 0] room ne by (simp add: x_def hd_conv_nth)
  then have rb: "readByte None b = (x, None, advance 1 b)"
    using over_limit [OF b, of 1] room by (simp add: readByte_def advance_def)
  have p7: "push_bit 7 1 = (128 :: u8)" by simp
  have x7f: "x = 0x7f \<longleftrightarrow> unat x = 127" by (simp add: word_unat_eq_iff)
  have d: "drop_bit 8 w = (of_nat (unat w div 256) :: u32)" for w :: u32
  proof -
    have "unat w div 256 < 2 ^ 32" using unsigned_less [of w, where 'a = nat] by (intro le_less_trans [OF div_le_dividend]) simp
    from unat_small [OF this] show ?thesis by (simp add: word_unat_eq_iff drop_bit_eq_div unat_div)
  qed
  have len: "drop_bit 8 w * 4 = (of_nat (4 * (unat w div 256)) :: u32)" for w :: u32 by (simp add: d)
  show ?thesis
  proof (cases "length (rest b) < 4")
    case True
    then show ?thesis unfolding read_header_def Let_def rb prod.case p7 high_bit8 back_to_mark [OF b] short_remaining [OF b] x_def [symmetric] x7f
      by (simp add: not_less)
  next
    case False
    then have "4 \<le> room b" using room by simp
    note r = read32 [OF b this]
    show ?thesis using False
      unfolding read_header_def Let_def rb prod.case p7 high_bit8 back_to_mark [OF b] short_remaining [OF b] x_def [symmetric] x7f r len
      by (simp add: not_less)
  qed
qed

lemma read_header_first:
  assumes b: "buf_ok b" and ne: "rest b \<noteq> []"
  shows "read_header p b =
    (case first_header p (rest b) of
       More \<Rightarrow> (Short (p = ProtocolTypeEF \<and> 128 \<le> unat (hd (rest b))), b)
     | IsAck a \<Rightarrow> (Ack a, advance 4 b)
     | Len n h \<Rightarrow> (Length (of_nat n) (of_nat (n + h)), advance h b))"
proof (cases "p = ProtocolTypeEF")
  case True
  then show ?thesis using ne read_header_EF [OF b ne] by (simp add: first_header_def Let_def)
next
  case False
  show ?thesis
  proof (cases "length (rest b) < 4")
    case True
    then show ?thesis using False by (simp add: read_header_def first_header_def short_remaining [OF b])
  next
    case more: False
    then have "4 \<le> room b" using length_rest [OF b] by simp
    from read32(1) [OF b this] more False show ?thesis
      unfolding read_header_def first_header_def Let_def by (simp add: short_remaining [OF b] high_bit32 not_less)
  qed
qed

section \<open>What is kept for the next time\<close>

definition held :: "packet_state \<Rightarrow> bytes" where
  "held s = (case restOfTheData s of None \<Rightarrow> [] | Some r \<Rightarrow> behind r)"

text \<open>
  Between two calls: nothing is kept, or the start of a header, or the start of a packet whose length is known.  \<open>held_ok\<close> is the
  condition on the buffer.
\<close>

definition held_ok :: "protocol \<Rightarrow> u32 \<Rightarrow> native_buffer \<Rightarrow> bool" where
  "held_ok p len r \<longleftrightarrow> buf_ok r \<and>
     (if len = 0 then buf_limit r = buf_position r \<and> behind r \<noteq> [] \<and> length (behind r) < 4 \<and> first_header p (behind r) = More
      else (\<exists>n h. first_header p (behind r) = Len n h \<and> \<not> wrong_length p n \<and> length (behind r) < h + n \<and>
          h + n = unat len \<and> buf_limit r = len))"

definition between :: "protocol \<Rightarrow> packet_state \<Rightarrow> bool" where
  "between p s \<longleftrightarrow> storage_ok (pools s) \<and> (case restOfTheData s of None \<Rightarrow> True | Some r \<Rightarrow> held_ok p (lastPacketLength s) r)"

lemma new_copy:
  assumes b: "buf_ok b" and st: "storage_ok st" and fresh: "\<And>n. length (fresh n) = n"
    and sz: "unat sz < 2 ^ 31" "room b \<le> unat sz" and g: "getFreeBuffer fresh sz st = (r, st')"
  shows "writeBytes_buffer b None r = (None, append_bytes (rest b) r, advance (room b) b)" "storage_ok st'"
    "buf_ok (append_bytes (rest b) r)" "behind (append_bytes (rest b) r) = rest b" "buf_limit (append_bytes (rest b) r) = sz"
    "unat (buf_position (append_bytes (rest b) r)) = room b"
proof -
  from getFreeBuffer_ok [OF st sz(1) fresh g]
  have r: "storage_ok st'" "buf_ok r" "buf_position r = 0" "buf_limit r = sz" "room r = unat sz" by simp_all
  have fit: "length (rest b) \<le> room r" using r(5) sz(2) b by simp
  show "writeBytes_buffer b None r = (None, append_bytes (rest b) r, advance (room b) b)"
    using writeBytes_buffer_fits [OF b r(2)] r(5) sz(2) by simp
  show "buf_ok (append_bytes (rest b) r)" "behind (append_bytes (rest b) r) = rest b" "buf_limit (append_bytes (rest b) r) = sz"
    "unat (buf_position (append_bytes (rest b) r)) = room b" "storage_ok st'"
    using append_bytes_ok [OF r(2) fit] r b by (simp_all add: behind_def)
qed

lemma at_position:
  assumes "buf_ok r"
  shows "buf_ok (set_limit (buf_position r) r)" "behind (set_limit (buf_position r) r) = behind r"
    "buf_limit (set_limit (buf_position r) r) = buf_position r" "buf_position (set_limit (buf_position r) r) = buf_position r"
  using assms by (auto simp: set_limit_def buf_ok_def behind_def Let_def)

text \<open>A buffer that is not used any more, when it was taken from the pools.\<close>

lemma reuse_old: "storage_ok st \<Longrightarrow> (\<And>r. o1 = Some r \<Longrightarrow> buf_ok r) \<Longrightarrow> storage_ok (case o1 of None \<Rightarrow> st | Some old \<Rightarrow> reuse old st)"
  by (cases o1) (simp_all add: reuse_ok)

lemma sync_fields [simp]:
  "pools (sync aliased b s) = pools s" "lastPacketLength (sync aliased b s) = lastPacketLength s"
  "sync aliased b (sync aliased c s) = sync aliased b s" "sync False b s = s"
  "restOfTheData (sync True b s) = Some b"
  by (simp_all add: sync_def)

text \<open>The buffer that is read is not \<open>restOfTheData\<close>, or it is and starts with the next packet.\<close>

definition reading :: "bool \<Rightarrow> native_buffer \<Rightarrow> packet_state \<Rightarrow> bool" where
  "reading aliased b s \<longleftrightarrow> buf_ok b \<and> storage_ok (pools s) \<and>
     (if aliased then restOfTheData s = Some b \<and> lastPacketLength s = 0 \<and> buf_position b = 0 else restOfTheData s = None)"

lemma keep_header_between:
  assumes rd: "reading aliased b s" and fresh: "\<And>n. length (fresh n) = n"
    and hdr: "first_header p (rest b) = More" "rest b \<noteq> []" "length (rest b) < 4"
  shows "between p (keep_header fresh always b aliased s)" "held (keep_header fresh always b aliased s) = rest b"
proof -
  have b: "buf_ok b" "storage_ok (pools s)" using rd by (simp_all add: reading_def)
  let ?again = "aliased \<and> \<not> always"
  have "between p (keep_header fresh always b aliased s) \<and> held (keep_header fresh always b aliased s) = rest b"
  proof (cases ?again)
    case True
    then have s: "restOfTheData s = Some b" "lastPacketLength s = 0" "buf_position b = 0" using rd by (simp_all add: reading_def)
    let ?r = "set_position (buf_limit b) b"
    have "behind ?r = rest b" using s(3) by (simp add: set_position_def behind_def rest_def room_def rd_def)
    moreover have "buf_ok ?r" "buf_limit ?r = buf_position ?r" using b(1) by (simp_all add: set_position_def buf_ok_def)
    moreover have "keep_header fresh always b aliased s = s\<lparr>restOfTheData := Some ?r\<rparr>" using True s by (simp add: keep_header_def)
    ultimately show ?thesis using hdr b(2) s(2) by (simp add: between_def held_ok_def held_def)
  next
    case False
    obtain r st where g: "getFreeBuffer fresh 16384 (pools s) = (r, st)" by fastforce
    have "room b \<le> unat (16384 :: u32)" using hdr(3) b by simp
    note c = new_copy [OF b fresh _ this g, simplified]
    let ?r = "append_bytes (rest b) r"
    note l = at_position [OF c(3)]
    have "storage_ok (case restOfTheData (sync aliased (advance (room b) b) s) of None \<Rightarrow> st | Some old \<Rightarrow> reuse old st)"
    proof (rule reuse_old [OF c(2)])
      fix q assume "restOfTheData (sync aliased (advance (room b) b) s) = Some q"
      then show "buf_ok q" using rd advance_ok(1) [OF b(1), of "room b"] by (cases aliased) (auto simp: reading_def)
    qed
    moreover have "always \<or> restOfTheData s = None" using False rd by (auto simp: reading_def)
    then have "keep_header fresh always b aliased s = s\<lparr>restOfTheData := Some (set_limit (buf_position ?r) ?r), lastPacketLength := 0,
        pools := case restOfTheData (sync aliased (advance (room b) b) s) of None \<Rightarrow> st | Some old \<Rightarrow> reuse old st\<rparr>"
      by (auto simp: keep_header_def g c(1) sync_def)
    ultimately show ?thesis using hdr l c(4) by (simp add: between_def held_ok_def held_def)
  qed
  then show "between p (keep_header fresh always b aliased s)" "held (keep_header fresh always b aliased s) = rest b" by simp_all
qed

lemma keep_packet_between:
  assumes rd: "reading aliased b s" and fresh: "\<And>n. length (fresh n) = n"
    and hdr: "first_header p (rest b) = Len n h" "\<not> wrong_length p n" "n + h < 2 ^ 31" "length (rest b) < h + n"
  defines "s' \<equiv> keep_packet fresh (buf_position b) (of_nat (n + h)) (advance h b) aliased (sync aliased (advance h b) s)"
  shows "between p s' \<and> held s' = rest b"
proof -
  have b: "buf_ok b" "storage_ok (pools s)" using rd by (simp_all add: reading_def)
  let ?len = "of_nat (n + h) :: u32"
  have len: "unat ?len = n + h" "?len \<noteq> 0"
    using hdr(3) header_length [OF hdr(1)] unat_small [of "n + h"] by (auto simp: unat_eq_0 [symmetric] simp del: of_nat_add)
  have h: "h \<le> room b" "length (rest b) = room b" using header_length [OF hdr(1)] length_rest [OF b(1)] by simp_all
  show ?thesis
  proof (cases "aliased \<and> \<not> buf_capacity b < ?len")
    case True
    let ?r = "set_limit ?len (set_position (buf_limit b) (advance h b))"
    have s: "restOfTheData (sync aliased (advance h b) s) = Some (advance h b)" "buf_position b = 0"
      using True rd by (simp_all add: reading_def)
    have lim: "unat (buf_limit b) = room b" using buf_okD(6) [OF b(1)] s(2) by simp
    then have "buf_limit b \<le> ?len" using hdr(4) h(2) len(1) by (simp add: word_le_nat_alt)
    then have r: "?r = b\<lparr>buf_position := buf_limit b, buf_limit := ?len\<rparr>"
      using True by (auto simp: set_limit_def set_position_def advance_def Let_def simp del: of_nat_add)
    have "buf_ok ?r" "behind ?r = rest b" unfolding r
      using True \<open>buf_limit b \<le> ?len\<close> b(1) s(2) lim by (simp_all add: buf_ok_def behind_def rest_def rd_def not_less del: of_nat_add)
    moreover have "s' = s\<lparr>restOfTheData := Some ?r, lastPacketLength := ?len\<rparr>"
      using True s(1) unfolding s'_def by (simp add: keep_packet_def Let_def sync_def)
    moreover have "buf_limit ?r = ?len" unfolding r by simp
    ultimately show ?thesis using hdr len b(2) by (simp add: between_def held_ok_def held_def del: of_nat_add)
  next
    case False
    obtain r st where g: "getFreeBuffer fresh ?len (pools s) = (r, st)" by fastforce
    have "unat ?len < 2 ^ 31" "room b \<le> unat ?len" using hdr(3,4) len(1) h(2) by simp_all
    note c = new_copy [OF b fresh this g]
    let ?r = "append_bytes (rest b) r"
    let ?old = "restOfTheData (sync aliased (advance (room b) b) s)"
    have "storage_ok (case ?old of None \<Rightarrow> st | Some old \<Rightarrow> reuse old st)"
    proof (rule reuse_old [OF c(2)])
      fix q assume "?old = Some q"
      then show "buf_ok q" using rd advance_ok(1) [OF b(1), of "room b"] by (cases aliased) (auto simp: reading_def)
    qed
    moreover have "s' = s\<lparr>restOfTheData := Some ?r, lastPacketLength := ?len, pools := case ?old of None \<Rightarrow> st | Some old \<Rightarrow> reuse old st\<rparr>"
    proof -
      have m: "set_position (buf_position b) (advance h b) = b" by (rule back_to_mark [OF b(1)])
      show ?thesis using False rd m unfolding s'_def keep_packet_def
        by (cases aliased) (auto simp: Let_def sync_def reading_def g c(1) simp del: of_nat_add)
    qed
    ultimately show ?thesis using hdr len c by (simp add: between_def held_ok_def held_def del: of_nat_add)
  qed
qed

text \<open>Behind a packet in \<open>restOfTheData\<close>: its rest moves to the start.\<close>

lemma after_packet_moved:
  assumes b: "buf_ok b" "0 < room b" and s: "restOfTheData s = Some b" "lastPacketLength s = 0" "storage_ok (pools s)"
    and a: "after_packet b True s = (b', aliased', s')"
  shows "reading aliased' b' s' \<and> rest b' = rest b"
proof -
  define r where "r = set_position 0 (set_limit (buf_position (compact b)) (compact b))"
  have ne: "buf_position b \<noteq> buf_limit b" using b by (auto simp: room_def)
  have n: "unat (buf_limit b - buf_position b) = room b" by (rule buf_room_limit [OF b(1)])
  have le: "buf_limit b - buf_position b \<le> buf_capacity b" using n buf_okD [OF b(1)] by (simp add: word_le_nat_alt)
  have r: "r = b\<lparr>buffer := wr 0 (rest b) (buffer b), buf_position := 0, buf_limit := buf_limit b - buf_position b\<rparr>"
    using ne le by (simp add: r_def compact_def set_limit_def set_position_def Let_def n rest_def)
  have "after_packet b True s = (r, True, s\<lparr>restOfTheData := Some r\<rparr>)"
    using s hasRemaining_room [OF b(1)] b(2) by (simp add: after_packet_def r_def Let_def)
  moreover have "rest r = rest b" using b buf_okD [OF b(1)] n by (simp add: r rest_def room_def rd_wr_same)
  moreover have "buf_ok r" using b(1) le buf_okD [OF b(1)] by (simp add: r buf_ok_def)
  moreover have "buf_position r = 0" by (simp add: r)
  ultimately show ?thesis using a s by (simp add: reading_def)
qed

section \<open>The loop over the packets\<close>

lemma rest_ne: "buf_ok b \<Longrightarrow> hasRemaining b \<longleftrightarrow> rest b \<noteq> []"
  using hasRemaining_room [of b] length_rest [of b] by (simp flip: length_greater_0_conv)

lemma wrong_length_word:
  assumes "n < 2 ^ 32"
  shows "p \<noteq> ProtocolTypeDD \<and> p \<noteq> ProtocolTypeTLS \<and> ((of_nat n :: u32) mod 4 \<noteq> 0 \<or> (of_nat n :: u32) > 2 * 1024 * 1024) \<longleftrightarrow> wrong_length p n"
proof -
  have "unat (of_nat n :: u32) = n" using assms by (rule unat_small)
  then show ?thesis by (simp add: wrong_length_def word_unat_eq_iff unat_mod word_less_nat_alt)
qed

lemma loop_end: "buf_ok b \<Longrightarrow> rest b = [] \<Longrightarrow> packet_loop fresh p b aliased later s out = Some (out, s)"
  by (simp add: packet_loop.simps rest_ne)

lemma loop_more:
  assumes "buf_ok b" "rest b \<noteq> []" "first_header p (rest b) = More" "aliased \<Longrightarrow> restOfTheData s = Some b"
  shows "\<exists>always. packet_loop fresh p b aliased later s out = Some (out, keep_header fresh always b aliased s)"
proof -
  have "sync aliased b s = s" using assms(4) by (cases aliased) (simp_all add: sync_def)
  then show ?thesis using assms by (subst packet_loop.simps) (simp add: rest_ne read_header_first, blast)
qed

lemma loop_wrong:
  assumes "buf_ok b" "first_header p (rest b) = Len n h" "wrong_length p n" "n < 2 ^ 32"
  shows "\<exists>s'. packet_loop fresh p b aliased later s out = Some (out @ [Reconnect], s')"
proof -
  have "rest b \<noteq> []" using header_length [OF assms(2)] by auto
  then show ?thesis using assms wrong_length_word [OF assms(4), of p]
    by (subst packet_loop.simps) (simp add: rest_ne read_header_first Let_def)
qed

lemma more_than_remaining:
  assumes "buf_ok b" "h \<le> room b" "n < 2 ^ 32"
  shows "(of_nat n :: u32) > remaining (advance h b) \<longleftrightarrow> length (rest b) < h + n"
  using unat_remaining [OF advance_ok(1) [OF assms(1,2)]] advance_ok(2) [OF assms(1,2)] length_rest [OF assms(1)] assms(2) unat_small [OF assms(3)]
  by (auto simp: word_less_nat_alt)

lemma loop_partial:
  assumes b: "buf_ok b" and h: "first_header p (rest b) = Len n h" "\<not> wrong_length p n" "n < 2 ^ 32" "length (rest b) < h + n"
  shows "packet_loop fresh p b aliased later s out =
    Some (out, keep_packet fresh (buf_position b) (of_nat (n + h)) (advance h b) aliased (sync aliased (advance h b) s))"
proof -
  have hl: "rest b \<noteq> []" "h \<le> room b" using header_length [OF h(1)] length_rest [OF b] by auto
  show ?thesis using b h hl wrong_length_word [OF h(3), of p] more_than_remaining [OF b hl(2) h(3)]
    by (subst packet_loop.simps) (simp add: rest_ne read_header_first Let_def)
qed

lemma loop_packet:
  assumes b: "buf_ok b" and h: "first_header p (rest b) = Len n h" "\<not> wrong_length p n" "n < 2 ^ 32" "h + n \<le> length (rest b)"
  shows "packet_loop fresh p b aliased later s out =
    (let (b', aliased', s') = after_packet (advance (h + n) b) aliased (sync aliased (advance (h + n) b) s);
         out' = out @ [Packet (take n (drop h (rest b)))]
     in case later of None \<Rightarrow> packet_loop fresh p b' aliased' None s' out' | Some l \<Rightarrow> packet_loop fresh p l False None s' out')"
proof -
  have hl: "rest b \<noteq> []" "h \<le> room b" using header_length [OF h(1)] length_rest [OF b] by auto
  let ?b = "advance h b"
  note a = advance_ok [OF b hl(2)]
  have n: "n \<le> room ?b" using a(2) h(4) length_rest [OF b] by simp
  note l = limited [OF a(1) n]
  define lim where "lim = set_limit (buf_position ?b + of_nat n) ?b"
  have "unat (buf_position ?b + of_nat n) \<le> unat (buf_limit b)"
    using unat_advance [OF a(1) n] a(2,4) n hl(2) buf_okD(6) [OF b] by linarith
  then have cap: "\<not> buf_capacity b < buf_limit b" "\<not> buf_limit b < buf_position ?b + of_nat n"
    using buf_okD(3) [OF b] by (simp_all only: word_less_nat_alt not_less)
  have restored: "set_limit (buf_limit ?b) (set_position (buf_limit lim) lim) = advance (h + n) b"
    using cap unfolding lim_def l(4) by (simp add: set_limit_def set_position_def advance_def Let_def add.assoc)
  have lim: "rest lim = take n (drop h (rest b))" using l(3) a(3) unfolding lim_def l(4) by simp
  have nm: "\<not> (of_nat n :: u32) > remaining ?b" using more_than_remaining [OF b hl(2) h(3)] h(4) by simp
  have w: "(p \<noteq> ProtocolTypeDD \<and> p \<noteq> ProtocolTypeTLS \<and> ((of_nat n :: u32) mod 4 \<noteq> 0 \<or> (of_nat n :: u32) > 2 * 1024 * 1024)) = False"
    using wrong_length_word [OF h(3), of p] h(2) by simp
  have hr: "hasRemaining b" using rest_ne [OF b] hl(1) by simp
  have rh: "read_header p b = (Length (of_nat n) (of_nat (n + h)), ?b)" using read_header_first [OF b hl(1)] h(1) by simp
  show ?thesis
    unfolding packet_loop.simps [of fresh p b] Let_def rh prod.case packet_header.case w lim_def [symmetric] restored lim sync_fields
    using hr nm by simp
qed

section \<open>The loop finds the packets of the stream\<close>

fun is_ack :: "packet_event \<Rightarrow> bool" where
  "is_ack (QuickAck a) = True"
| "is_ack _ = False"

abbreviation no_acks :: "packet_event list \<Rightarrow> bool" where
  "no_acks es \<equiv> list_all (\<lambda>e. \<not> is_ack e) es"

text \<open>What is left of the stream is what is kept.\<close>

definition outcome :: "protocol \<Rightarrow> left \<Rightarrow> packet_state \<Rightarrow> bool" where
  "outcome p l s \<longleftrightarrow> (case l of Left r \<Rightarrow> between p s \<and> held s = r | Closed \<Rightarrow> True | Huge \<Rightarrow> False)"

lemma header_more: "first_header p bs = More \<Longrightarrow> length bs < 4"
  by (auto simp: first_header_def split: if_splits)

lemma header_bound: "first_header p bs = Len n h \<Longrightarrow> n < 2 ^ 31"
proof -
  have "4 * (unat w div 256) < 2147483648" for w :: u32
    using unsigned_less [of w, where 'a = nat] by simp
  then show "first_header p bs = Len n h \<Longrightarrow> n < 2 ^ 31"
    using byte_less [of "hd bs"] by (auto simp: first_header_def split: if_splits)
qed

lemma after_packet_none: "restOfTheData s = None \<Longrightarrow> after_packet b aliased s = (b, aliased, s)"
  by (simp add: after_packet_def)

lemma loop_unframe:
  assumes fresh: "\<And>n. length (fresh n) = n"
  shows "reading aliased b s \<Longrightarrow> (aliased \<Longrightarrow> rest b \<noteq> []) \<Longrightarrow> unframe p (rest b) = (es, l) \<Longrightarrow> no_acks es \<Longrightarrow> l \<noteq> Huge \<Longrightarrow>
    \<exists>s'. packet_loop fresh p b aliased None s out = Some (out @ es, s') \<and> outcome p l s'"
proof (induction "length (rest b)" arbitrary: b aliased s es out rule: less_induct)
  case less
  note rd = less.prems(1) and un = less.prems(3)
  have b: "buf_ok b" "storage_ok (pools s)" using rd by (simp_all add: reading_def)
  have al: "aliased \<Longrightarrow> restOfTheData s = Some b" using rd by (simp add: reading_def)
  show ?case
  proof (cases "first_header p (rest b)")
    case More
    then have e: "es = []" "l = Left (rest b)" using un by (simp_all add: unframe.simps [of p "rest b"])
    show ?thesis
    proof (cases "rest b = []")
      case True
      then have "restOfTheData s = None" using rd less.prems(2) by (cases aliased) (simp_all add: reading_def)
      then show ?thesis using True b e by (simp add: loop_end outcome_def between_def held_def)
    next
      case False
      from loop_more [OF b(1) this More al] obtain always
        where "packet_loop fresh p b aliased None s out = Some (out, keep_header fresh always b aliased s)" by blast
      then show ?thesis using keep_header_between [OF rd fresh More False header_more [OF More]] e by (simp add: outcome_def)
    qed
  next
    case (IsAck a)
    then show ?thesis using un less.prems(4) by (auto simp: unframe.simps [of p "rest b"] split: prod.splits)
  next
    case (Len n h)
    have n: "n < 2 ^ 32" using header_bound [OF Len] by simp
    show ?thesis
    proof (cases "wrong_length p n")
      case True
      then show ?thesis using loop_wrong [OF b(1) Len True n] un Len by (auto simp: unframe.simps [of p "rest b"] outcome_def)
    next
      case ok: False
      have small: "n + h < 2 ^ 31" using un Len ok less.prems(5) by (auto simp: unframe.simps [of p "rest b"] split: if_splits)
      show ?thesis
      proof (cases "length (rest b) < h + n")
        case True
        then have "es = []" "l = Left (rest b)" using un Len ok small by (simp_all add: unframe.simps [of p "rest b"])
        then show ?thesis using loop_partial [OF b(1) Len ok n True] keep_packet_between [OF rd fresh Len ok small True]
          by (simp add: outcome_def)
      next
        case False
        let ?b = "advance (h + n) b"
        have le: "h + n \<le> room b" using False length_rest [OF b(1)] by simp
        note a = advance_ok [OF b(1) le]
        obtain es' where es': "unframe p (rest ?b) = (es', l)" "es = Packet (take n (drop h (rest b))) # es'"
          using un Len ok small False a(3) by (auto simp: unframe.simps [of p "rest b"] split: prod.splits)
        have shorter: "length (rest ?b) < length (rest b)" unfolding a(3) length_drop using header_length [OF Len] by linarith
        let ?s = "sync aliased ?b s"
        obtain b' aliased' s' where ap: "after_packet ?b aliased ?s = (b', aliased', s')" by (cases "after_packet ?b aliased ?s") auto
        have nx: "reading aliased' b' s' \<and> rest b' = rest ?b \<and> (aliased' \<longrightarrow> rest b' \<noteq> [])"
        proof (cases "aliased \<and> 0 < room ?b")
          case True
          then have s: "restOfTheData ?s = Some ?b" "lastPacketLength ?s = 0" "storage_ok (pools ?s)" "0 < room ?b" "aliased = True"
            using rd by (simp_all add: reading_def)
          have "rest ?b \<noteq> []" using s(4) length_rest [OF a(1)] by (cases "rest ?b") simp_all
          moreover have "after_packet ?b True ?s = (b', aliased', s')" using ap s(5) by simp
          ultimately show ?thesis using after_packet_moved [OF a(1) s(4,1,2,3)] by simp
        next
          case no: False
          show ?thesis
          proof (cases aliased)
            case True
            then have "\<not> hasRemaining ?b" using no hasRemaining_room [OF a(1)] by simp
            moreover have "lastPacketLength s = 0" using True rd by (simp add: reading_def)
            ultimately have "after_packet ?b aliased ?s = (?b, False, ?s\<lparr>restOfTheData := None, pools := reuse ?b (pools s)\<rparr>)"
              using True by (simp add: after_packet_def)
            from trans [OF sym [OF ap] this]
            have "b' = ?b" "\<not> aliased'" "s' = ?s\<lparr>restOfTheData := None, pools := reuse ?b (pools s)\<rparr>"
              by (simp_all only: prod.inject simp_thms)
            then show ?thesis using a(1) reuse_ok [OF b(2) a(1)] by (simp add: reading_def)
          next
            case False
            then have "restOfTheData s = None" using rd by (simp add: reading_def)
            then show ?thesis using False ap a(1) b(2) by (simp add: reading_def after_packet_none)
          qed
        qed
        have "packet_loop fresh p b aliased None s out = packet_loop fresh p b' aliased' None s' (out @ [Packet (take n (drop h (rest b)))])"
          using loop_packet [OF b(1) Len ok n, of fresh aliased None s out] False ap by simp
        moreover have "length (rest b') < length (rest b)" "unframe p (rest b') = (es', l)" using nx shorter es'(1) by simp_all
        from less.hyps [OF this(1) _ _ this(2), of aliased' s' "out @ [Packet (take n (drop h (rest b)))]"]
        have "\<exists>s''. packet_loop fresh p b' aliased' None s' (out @ [Packet (take n (drop h (rest b)))]) =
            Some ((out @ [Packet (take n (drop h (rest b)))]) @ es', s'') \<and> outcome p l s''"
          using nx less.prems(4,5) es'(2) by auto
        ultimately show ?thesis using es'(2) by simp
      qed
    qed
  qed
qed

text \<open>A packet that was waited for is complete: the rest of the chunk is read after it.\<close>

lemma loop_waited:
  assumes fresh: "\<And>n. length (fresh n) = n" and b: "buf_ok b" "buf_position b = 0"
    and s: "restOfTheData s = Some b" "lastPacketLength s = buf_limit b" "storage_ok (pools s)"
    and h: "first_header p (rest b) = Len n h" "\<not> wrong_length p n" "length (rest b) = h + n"
    and later: "case later of None \<Rightarrow> c = [] | Some l \<Rightarrow> buf_ok l \<and> rest l = c"
    and un: "unframe p c = (es, l)" "no_acks es" "l \<noteq> Huge"
  shows "\<exists>s'. packet_loop fresh p b True later s [] = Some (Packet (take n (drop h (rest b))) # es, s') \<and> outcome p l s'"
proof -
  let ?b = "advance (h + n) b" and ?s = "sync True (advance (h + n) b) s"
  have le: "h + n \<le> room b" using h(3) length_rest [OF b(1)] by simp
  note a = advance_ok [OF b(1) le]
  have "unat (buf_position ?b) = unat (buf_limit b)" using a(4) b(2) h(3) length_rest [OF b(1)] buf_okD(6) [OF b(1)] by simp
  then have pos: "buf_position ?b = buf_limit b" by (simp add: word_unat_eq_iff)
  have "h + n \<noteq> 0" using header_length [OF h(1)] by simp
  then have "buf_limit b \<noteq> 0" using h(3) length_rest [OF b(1)] by (auto simp: room_def)
  then have ap: "after_packet ?b True ?s = (?b, False, ?s\<lparr>restOfTheData := None, pools := reuse ?b (pools s)\<rparr>)"
    using s(2) pos by (simp add: after_packet_def)
  let ?t = "?s\<lparr>restOfTheData := None, pools := reuse ?b (pools s)\<rparr>"
  have next_read: "reading False l ?t" if "buf_ok l" for l using that reuse_ok [OF s(3) a(1)] by (simp add: reading_def)
  have n: "n < 2 ^ 32" using header_bound [OF h(1)] by simp
  have step: "packet_loop fresh p b True later s [] =
      (case later of None \<Rightarrow> packet_loop fresh p ?b False None ?t [Packet (take n (drop h (rest b)))]
       | Some l \<Rightarrow> packet_loop fresh p l False None ?t [Packet (take n (drop h (rest b)))])"
    using loop_packet [OF b(1) h(1,2) n eq_refl [OF h(3) [symmetric]], of fresh True later s "[]"] by (simp add: ap Let_def split: option.splits)
  show ?thesis
  proof (cases later)
    case None
    then have "rest ?b = c" using later a(3) h(3) by simp
    then show ?thesis using loop_unframe [OF fresh next_read [OF a(1)], of p es l "[Packet (take n (drop h (rest b)))]"] un step None by simp
  next
    case (Some q)
    then have "buf_ok q" "rest q = c" using later by simp_all
    then show ?thesis using loop_unframe [OF fresh next_read [of q], of p es l "[Packet (take n (drop h (rest b)))]"] un step Some by simp
  qed
qed

section \<open>One chunk\<close>

lemma header_append:
  assumes "first_header p xs \<noteq> More"
  shows "first_header p (xs @ ys) = first_header p xs"
proof -
  have ne: "xs \<noteq> []" using assms by (auto simp: first_header_def split: if_splits)
  have four: "int_of_head (xs @ ys) = int_of_head xs" "(xs @ ys) ! 0 = xs ! 0" "(xs @ ys) ! 1 = xs ! 1" "(xs @ ys) ! 2 = xs ! 2" "(xs @ ys) ! 3 = xs ! 3"
    if "\<not> length xs < 4" using that ne by (simp_all add: int_of_head_def nth_append)
  show ?thesis using assms ne four unfolding first_header_def by (auto split: if_splits)
qed

text \<open>The buffers for what was kept and a chunk behind it.\<close>

lemma rewound:
  assumes "buf_ok r"
  shows "buf_ok (rewind r)" "buf_position (rewind r) = 0" "buf_limit r = buf_position r \<Longrightarrow> rest (rewind r) = behind r"
  using assms by (auto simp: buf_ok_def rewind_def rest_def room_def behind_def rd_def)

lemma written_behind:
  assumes "buf_ok b" "buf_ok r" "room b \<le> room r"
  shows "writeBytes_buffer b None r = (None, append_bytes (rest b) r, advance (room b) b)" "buf_ok (append_bytes (rest b) r)"
    "behind (append_bytes (rest b) r) = behind r @ rest b" "room (append_bytes (rest b) r) = room r - room b"
    "unat (buf_position (append_bytes (rest b) r)) = unat (buf_position r) + room b"
  using writeBytes_buffer_fits [OF assms] append_bytes_ok [OF assms(2), of "rest b"] assms(1,3) by simp_all

text \<open>Behind the start of a header: one buffer, as it is or a new one, holds both.\<close>

lemma join_header:
  assumes fresh: "\<And>n. length (fresh n) = n" and b: "buf_ok b" "buf_position b = 0" "room b \<le> 2 ^ 21"
    and s: "restOfTheData s = Some r" "lastPacketLength s = 0" "storage_ok (pools s)" "held_ok p 0 r"
  shows "\<exists>q s'. join_rest fresh b s = Inr (q, True, None, s') \<and> buf_ok q \<and> rest (rewind q) = behind r @ rest b \<and>
    lastPacketLength s' = 0 \<and> storage_ok (pools s') \<and> unat (buf_capacity r) \<le> unat (buf_capacity q)"
proof -
  have r: "buf_ok r" "buf_limit r = buf_position r" "length (behind r) < 4" using s(4) by (simp_all add: held_ok_def)
  have pos: "unat (buf_position r) < 4" using r(3) behind_position [OF r(1)] by simp
  have lim: "unat (buf_limit b) = room b" using buf_okD(6) [OF b(1)] b(2) by simp
  show ?thesis
  proof (cases "buf_capacity r - buf_position r \<ge> buf_limit b")
    case True
    let ?r = "set_limit (buf_position r + buf_limit b) r"
    have "unat (buf_capacity r - buf_position r) = unat (buf_capacity r) - unat (buf_position r)"
      using buf_okD [OF r(1)] r(2) by (simp add: unat_sub word_le_nat_alt)
    then have le: "unat (buf_position r) + room b \<le> unat (buf_capacity r)"
      using True lim buf_okD [OF r(1)] r(2) by (simp add: word_le_nat_alt)
    have u: "unat (buf_position r + buf_limit b) = unat (buf_position r) + room b"
      using unat_add_small [of "buf_position r" "buf_limit b"] le lim buf_okD(4) [OF r(1)] by simp
    have e: "?r = r\<lparr>buf_limit := buf_position r + buf_limit b\<rparr>"
      using le u by (simp add: set_limit_def Let_def word_less_nat_alt)
    have q: "buf_ok ?r" "room ?r = room b" "behind ?r = behind r" unfolding e
      using r(1) u le by (simp_all add: buf_ok_def room_def behind_def word_le_nat_alt)
    note w = written_behind [OF b(1) q(1), unfolded q(2), OF order_refl]
    let ?q = "append_bytes (rest b) ?r"
    have "rest (rewind ?q) = behind r @ rest b" using rewind_full(2) [OF w(2)] w(3,4) q(3) by simp
    moreover have "join_rest fresh b s = Inr (?q, True, None, s\<lparr>restOfTheData := Some ?q\<rparr>)"
      using True s(1,2) w(1) by (simp add: join_rest_def Let_def)
    moreover have "buf_capacity ?q = buf_capacity r" by (simp add: e)
    ultimately show ?thesis using w(2) s(2,3) by simp
  next
    case False
    let ?sz = "buf_limit r + buf_limit b"
    have u: "unat ?sz = unat (buf_position r) + room b"
      using unat_add_small [of "buf_limit r" "buf_limit b"] r(2) lim pos b(3) by simp
    obtain nb st where g: "getFreeBuffer fresh ?sz (pools s) = (nb, st)" by fastforce
    note rw = rewound [OF r(1)]
    have old: "rest (rewind r) = behind r" by (rule rw(3) [OF r(2)])
    have lr: "room (rewind r) = unat (buf_position r)" using length_rest [OF rw(1)] old behind_position [OF r(1)] by simp
    have sz: "unat ?sz < 2 ^ 31" "room (rewind r) \<le> unat ?sz" using u lr pos b(3) by simp_all
    note c = new_copy [OF rw(1) s(3) fresh sz g]
    have "room (append_bytes (rest (rewind r)) nb) = room b" using c(5,6) lr u by (simp add: room_def)
    note w = written_behind [OF b(1) c(3), unfolded this, OF order_refl]
    let ?q = "append_bytes (rest b) (append_bytes (rest (rewind r)) nb)"
    have "rest (rewind ?q) = behind r @ rest b" using rewind_full(2) [OF w(2)] w(3,4) c(4) old by simp
    moreover have "join_rest fresh b s = Inr (?q, True, None,
        s\<lparr>restOfTheData := Some ?q, pools := reuse (advance (room (rewind r)) (rewind r)) st\<rparr>)"
      using False s(1,2) w(1) c(1) g by (simp add: join_rest_def Let_def)
    moreover have "storage_ok (reuse (advance (room (rewind r)) (rewind r)) st)"
      by (rule reuse_ok [OF c(2) advance_ok(1) [OF rw(1) order_refl]])
    moreover have "unat (buf_capacity r - buf_position r) = unat (buf_capacity r) - unat (buf_position r)"
      using buf_okD [OF r(1)] r(2) by (simp add: unat_sub word_le_nat_alt)
    then have "unat (buf_capacity r) < unat (buf_position r) + room b" using False lim by (simp add: word_le_nat_alt)
    then have "unat (buf_capacity r) \<le> unat (buf_capacity ?q)" using buf_okD(3) [OF c(3)] c(5) u by simp
    ultimately show ?thesis using w(2) s(2) by simp
  qed
qed

text \<open>Behind the start of a packet: the packet goes on, and is complete or still not.\<close>

lemma join_packet:
  assumes b: "buf_ok b" "buf_position b = 0"
    and s: "restOfTheData s = Some r" "lastPacketLength s = len" "len \<noteq> 0" "held_ok p len r"
  defines "need \<equiv> unat len - length (behind r)"
  shows "room b < need \<Longrightarrow> \<exists>r'. join_rest fresh b s = Inl (s\<lparr>restOfTheData := Some r'\<rparr>) \<and> buf_ok r' \<and> behind r' = behind r @ rest b \<and> buf_limit r' = len"
    and "need \<le> room b \<Longrightarrow> \<exists>r' later. join_rest fresh b s = Inr (r', True, later, s\<lparr>restOfTheData := Some r'\<rparr>) \<and> buf_ok r' \<and>
      behind r' = behind r @ take need (rest b) \<and> buf_limit r' = len \<and> buf_position r' = len \<and>
      (case later of None \<Rightarrow> drop need (rest b) = [] | Some l \<Rightarrow> buf_ok l \<and> rest l = drop need (rest b))"
proof -
  have r: "buf_ok r" "buf_limit r = len" "length (behind r) < unat len" using s(3,4) by (auto simp: held_ok_def)
  have pos: "length (behind r) = unat (buf_position r)" by (rule behind_position [OF r(1)])
  have lim: "unat (buf_limit b) = room b" using buf_okD(6) [OF b(1)] b(2) by simp
  have room: "room r = need" using r(2) pos by (simp add: need_def room_def)
  have left: "unat (len - buf_position r) = need" using r(3) pos by (simp add: need_def unat_sub word_le_nat_alt)
  define k where "k = min need (room b)"
  define b1 where "b1 = set_limit (of_nat k) b"
  have kb: "k \<le> room b" by (simp add: k_def)
  have k32: "k < 2 ^ 32" using kb lim unsigned_less [of "buf_limit b", where 'a = nat] by simp
  have len: "(if len - buf_position r \<le> buf_limit b then len - buf_position r else buf_limit b) = of_nat k"
    using left lim unat_small [OF k32] by (simp add: word_unat_eq_iff word_le_nat_alt k_def min_def)
  note l = limited [OF b(1) kb, unfolded b(2) add_0]
  have b1: "buf_ok b1" "room b1 = k" "rest b1 = take k (rest b)" "b1 = b\<lparr>buf_limit := of_nat k\<rparr>"
    unfolding b1_def l(4) using l(1,2,3) by simp_all
  have fit: "room b1 \<le> room r" using b1(2) room by (simp add: k_def)
  note w = written_behind [OF b1(1) r(1) fit]
  let ?r = "append_bytes (take k (rest b)) r"
  have "buf_limit b \<le> buf_capacity b" using buf_okD(3) [OF b(1)] by (simp add: word_le_nat_alt)
  moreover have "of_nat k \<le> buf_limit b" using unat_small [OF k32] lim kb by (simp add: word_le_nat_alt)
  ultimately have restored: "set_limit (buf_limit b) (advance k b1) = advance k b"
    using b(2) by (simp add: b1(4) set_limit_def advance_def Let_def not_less)
  note a = advance_ok [OF b(1) kb]
  have here: "buf_position ?r = len \<longleftrightarrow> need \<le> room b"
    using w(5) b1(2,3) pos r(3) by (auto simp: word_unat_eq_iff k_def need_def min_def)
  have join: "join_rest fresh b s =
      (if need \<le> room b then Inr (?r, True, if hasRemaining (advance k b) then Some (advance k b) else None, s\<lparr>restOfTheData := Some ?r\<rparr>)
       else Inl (s\<lparr>restOfTheData := Some ?r\<rparr>))"
    unfolding join_rest_def s(1,2) option.case Let_def len b1_def [symmetric] w(1) [unfolded b1(2,3)] prod.case restored here
    using s(3) by simp
  have ok: "buf_ok ?r" "behind ?r = behind r @ take k (rest b)" "buf_limit ?r = len" using w(2,3) b1(3) r(2) by simp_all
  show "\<exists>r'. join_rest fresh b s = Inl (s\<lparr>restOfTheData := Some r'\<rparr>) \<and> buf_ok r' \<and> behind r' = behind r @ rest b \<and> buf_limit r' = len"
    if "room b < need"
    using that join ok length_rest [OF b(1)] by (intro exI [of _ ?r]) (simp add: k_def)
  show "\<exists>r' later. join_rest fresh b s = Inr (r', True, later, s\<lparr>restOfTheData := Some r'\<rparr>) \<and> buf_ok r' \<and>
      behind r' = behind r @ take need (rest b) \<and> buf_limit r' = len \<and> buf_position r' = len \<and>
      (case later of None \<Rightarrow> drop need (rest b) = [] | Some l \<Rightarrow> buf_ok l \<and> rest l = drop need (rest b))"
    if "need \<le> room b"
  proof -
    have k: "k = need" using that by (simp add: k_def)
    then show ?thesis using that join ok here a rest_ne [OF a(1)]
      by (intro exI [of _ ?r] exI [of _ "if hasRemaining (advance k b) then Some (advance k b) else None"]) simp
  qed
qed

lemma process_unframe:
  assumes fresh: "\<And>n. length (fresh n) = n" and w: "between p s" and b: "buf_ok b" "buf_position b = 0" "room b \<le> 2 ^ 21"
    and un: "unframe p (held s @ rest b) = (es, l)" "no_acks es" "l \<noteq> Huge"
  shows "\<exists>s'. process_data fresh p b s = Some (es, s') \<and> outcome p l s'"
proof -
  have st: "storage_ok (pools s)" using w by (simp add: between_def)
  consider "restOfTheData s = None" | r where "restOfTheData s = Some r" "lastPacketLength s = 0" "held_ok p 0 r"
    | r where "restOfTheData s = Some r" "lastPacketLength s \<noteq> 0" "held_ok p (lastPacketLength s) r"
    using w by (cases "restOfTheData s"; cases "lastPacketLength s = 0") (auto simp: between_def)
  then show ?thesis
  proof cases
    case 1
    have "rewind b = b" using b(2) by (cases b) (simp add: rewind_def)
    then have "process_data fresh p b s = packet_loop fresh p b False None s []"
      using 1 by (simp add: process_data_def join_rest_def)
    moreover have "reading False b s" "unframe p (rest b) = (es, l)" using 1 b st un(1) by (simp_all add: reading_def held_def)
    ultimately show ?thesis using loop_unframe [OF fresh, of False b s p es l "[]"] un(2,3) by simp
  next
    case (2 r)
    from join_header [OF fresh b 2(1,2) st 2(3)] obtain q s' where q: "join_rest fresh b s = Inr (q, True, None, s')" "buf_ok q"
      "rest (rewind q) = behind r @ rest b" "lastPacketLength s' = 0" "storage_ok (pools s')" by blast
    let ?s = "sync True (rewind q) s'"
    have "process_data fresh p b s = packet_loop fresh p (rewind q) True None ?s []" using q(1) by (simp add: process_data_def Let_def)
    moreover have "reading True (rewind q) ?s" using rewound [OF q(2)] q(4,5) by (simp add: reading_def)
    moreover have "rest (rewind q) \<noteq> []" using q(3) 2(3) by (auto simp: held_ok_def)
    moreover have "unframe p (rest (rewind q)) = (es, l)" using un(1) q(3) 2(1) by (simp add: held_def)
    ultimately show ?thesis using loop_unframe [OF fresh, of True "rewind q" ?s p es l "[]"] un(2,3) by simp
  next
    case (3 r)
    let ?len = "lastPacketLength s"
    define need where "need = unat ?len - length (behind r)"
    obtain n h where k: "first_header p (behind r) = Len n h" "\<not> wrong_length p n" "length (behind r) < h + n" "h + n = unat ?len" "buf_ok r"
      using 3(2,3) by (auto simp: held_ok_def)
    have hd: "first_header p (behind r @ bs) = Len n h" for bs using header_append [of p "behind r" bs] k(1) by simp
    have held: "held s = behind r" using 3(1) by (simp add: held_def)
    have small: "n + h < 2 ^ 31" using 3(2,3) k(4) buf_okD(3,4) [OF k(5)] by (auto simp: held_ok_def)
    note j = join_packet [OF b(1,2) 3(1) refl 3(2,3), of fresh, folded need_def]
    have u: "unframe p (behind r @ rest b) = (if room b < need then ([], Left (behind r @ rest b)) else
        (let (es, l) = unframe p (drop need (rest b)) in (Packet (take n (drop h (behind r @ rest b))) # es, l)))"
    proof -
      have "length (behind r @ rest b) < h + n \<longleftrightarrow> room b < need" "drop (h + n) (behind r @ rest b) = drop need (rest b)"
        using k(3,4) length_rest [OF b(1)] by (auto simp: need_def)
      then show ?thesis unfolding unframe.simps [of p "behind r @ rest b"] using hd [of "rest b"] k(2) small by simp
    qed
    show ?thesis
    proof (cases "room b < need")
      case True
      from j(1) [OF this] obtain r' where "join_rest fresh b s = Inl (s\<lparr>restOfTheData := Some r'\<rparr>)" "buf_ok r'"
        "behind r' = behind r @ rest b" "buf_limit r' = ?len" by blast
      moreover have "es = []" "l = Left (behind r @ rest b)" using True un(1) u held by simp_all
      ultimately show ?thesis using True hd [of "rest b"] k(2,4) st 3(2) length_rest [OF b(1)]
        by (simp add: process_data_def outcome_def between_def held_def held_ok_def need_def)
    next
      case False
      then have "need \<le> room b" by simp
      from j(2) [OF this] obtain r' later where r': "join_rest fresh b s = Inr (r', True, later, s\<lparr>restOfTheData := Some r'\<rparr>)" "buf_ok r'"
        "behind r' = behind r @ take need (rest b)" "buf_limit r' = ?len" "buf_position r' = ?len"
        "case later of None \<Rightarrow> drop need (rest b) = [] | Some l \<Rightarrow> buf_ok l \<and> rest l = drop need (rest b)" by blast
      let ?s = "sync True (rewind r') (s\<lparr>restOfTheData := Some r'\<rparr>)"
      note rw = rewound [OF r'(2)]
      have rest: "rest (rewind r') = behind r @ take need (rest b)" using rw(3) r'(3,4,5) by simp
      have all: "length (rest (rewind r')) = h + n" using rest length_rest [OF b(1)] False k(3,4) by (simp add: need_def)
      obtain es' where es': "unframe p (drop need (rest b)) = (es', l)" "es = Packet (take n (drop h (behind r @ rest b))) # es'"
        using un(1) u held False by (auto split: prod.splits)
      have "take n (drop h (rest (rewind r'))) = take n (drop h (behind r @ rest b))"
      proof -
        have "behind r @ rest b = rest (rewind r') @ drop need (rest b)" by (simp add: rest)
        then show ?thesis using all by simp
      qed
      moreover have "buf_limit (rewind r') = ?len" using r'(4) by (simp add: rewind_def)
      moreover note loop_waited [OF fresh rw(1,2), of ?s p n h "drop need (rest b)" later es' l]
      ultimately show ?thesis
        using r' rest all hd k(2) st es' un(2,3) by (simp add: process_data_def Let_def)
    qed
  qed
qed

section \<open>A stream in chunks\<close>

lemma unframe_append:
  "unframe p xs = (es, l) \<Longrightarrow> unframe p (xs @ ys) =
    (case l of Left r \<Rightarrow> (let (es', l') = unframe p (r @ ys) in (es @ es', l')) | _ \<Rightarrow> (es, l))"
proof (induction p xs arbitrary: es l rule: unframe.induct)
  case (1 p xs)
  show ?case
  proof (cases "first_header p xs")
    case More
    then have "es = []" "l = Left xs" using "1.prems" by (simp_all add: unframe.simps [of p xs])
    then show ?thesis by simp
  next
    case (IsAck a)
    then have long: "4 \<le> length xs" by (auto simp: first_header_def split: if_splits)
    obtain es' l' where r: "unframe p (drop 4 xs) = (es', l')" by fastforce
    then have e: "es = QuickAck a # es'" "l = l'" using "1.prems" IsAck by (simp_all add: unframe.simps [of p xs])
    have "unframe p (xs @ ys) = (let (es, l) = unframe p (drop 4 xs @ ys) in (QuickAck a # es, l))"
      using IsAck header_append [of p xs ys] long by (simp add: unframe.simps [of p "xs @ ys"])
    then show ?thesis using "1.IH"(1) [OF IsAck r] e by (auto split: left.splits prod.splits)
  next
    case (Len n h)
    then have hd: "first_header p (xs @ ys) = Len n h" using header_append [of p xs ys] by simp
    consider "wrong_length p n" | "\<not> wrong_length p n" "2 ^ 31 \<le> n + h" | "\<not> wrong_length p n" "\<not> 2 ^ 31 \<le> n + h" "length xs < h + n"
      | "\<not> wrong_length p n" "\<not> 2 ^ 31 \<le> n + h" "\<not> length xs < h + n" by blast
    then show ?thesis
    proof cases
      case 3
      then have "es = []" "l = Left xs" using "1.prems" Len by (simp_all add: unframe.simps [of p xs])
      then show ?thesis by simp
    next
      case 4
      obtain es' l' where r: "unframe p (drop (h + n) xs) = (es', l')" by fastforce
      then have e: "es = Packet (take n (drop h xs)) # es'" "l = l'" using "1.prems" Len 4 by (simp_all add: unframe.simps [of p xs])
      have "unframe p (xs @ ys) = (let (es, l) = unframe p (drop (h + n) xs @ ys) in (Packet (take n (drop h xs)) # es, l))"
        using hd 4 by (simp add: unframe.simps [of p "xs @ ys"])
      then show ?thesis using "1.IH"(2) [OF Len 4 r] e by (auto split: left.splits prod.splits)
    qed (use hd Len "1.prems" in \<open>simp_all add: unframe.simps [of p xs] unframe.simps [of p "xs @ ys"]\<close>)
  qed
qed

lemma unframe_closed: "unframe p xs = (es, l) \<Longrightarrow> Reconnect \<in> set es \<longleftrightarrow> l = Closed"
proof (induction p xs arbitrary: es l rule: unframe.induct)
  case (1 p xs)
  show ?case
  proof (cases "first_header p xs")
    case (IsAck a)
    obtain es' l' where r: "unframe p (drop 4 xs) = (es', l')" by fastforce
    then show ?thesis using "1.prems" IsAck "1.IH"(1) [OF IsAck r] by (auto simp: unframe.simps [of p xs])
  next
    case (Len n h)
    obtain es' l' where r: "unframe p (drop (h + n) xs) = (es', l')" by fastforce
    then show ?thesis using "1.prems" Len "1.IH"(2) [OF Len _ _ _ r] by (auto simp: unframe.simps [of p xs] split: if_splits)
  qed (use "1.prems" in \<open>auto simp: unframe.simps [of p xs]\<close>)
qed

lemma unframe_rest: "unframe p xs = (es, Left r) \<Longrightarrow> unframe p r = ([], Left r)"
proof (induction p xs arbitrary: es rule: unframe.induct)
  case (1 p xs)
  show ?case
  proof (cases "first_header p xs")
    case More
    then have "es = []" "r = xs" using "1.prems" by (simp_all add: unframe.simps [of p xs])
    then show ?thesis using "1.prems" by simp
  next
    case (IsAck a)
    obtain es' l' where e: "unframe p (drop 4 xs) = (es', l')" by fastforce
    then show ?thesis using "1.prems" IsAck "1.IH"(1) [OF IsAck] by (auto simp: unframe.simps [of p xs])
  next
    case (Len n h)
    obtain es' l' where e: "unframe p (drop (h + n) xs) = (es', l')" by fastforce
    then show ?thesis using "1.prems" Len "1.IH"(2) [OF Len] unframe.simps [of p r] by (auto simp: unframe.simps [of p xs] split: if_splits)
  qed
qed

text \<open>The decryption of a chunk goes on in the key stream where the last one ended.\<close>

lemma aes_ctr_run:
  assumes "ctr_at (\<lambda>b. AES_encrypt pf b key) iv a ivec ecount n" "portable pf" "apart inp out len"
    and "inp + len \<le> length mem" "out + len \<le> length mem"
  shows "\<exists>ivec' ecount' n'. AES_ctr128_encrypt pf inp out len key ivec ecount n mem =
      (wr out (ctr_text (\<lambda>b. AES_encrypt pf b key) iv a (rd inp len mem)) mem, ivec', ecount', n') \<and>
    ctr_at (\<lambda>b. AES_encrypt pf b key) iv (a + len) ivec' ecount' n'"
  using aes.encf.ctr_encrypt_text [of key iv a ivec ecount n inp out len mem aes_nohw_encrypt key] assms
  by (simp add: AES_ctr128_encrypt_def)

abbreviation chunk_ok :: "native_buffer \<Rightarrow> bool" where
  "chunk_ok b \<equiv> buf_ok b \<and> buf_position b = 0 \<and> room b \<le> 2 ^ 21"

lemma decrypted_chunk:
  assumes ctr: "ctr_at (\<lambda>b. AES_encrypt pf b key) iv a ivec ecount n" "portable pf" and b: "chunk_ok b"
  shows "\<exists>c'. \<exists>b'. chunk_ok b' \<and> rest b' = ctr_text (\<lambda>b. AES_encrypt pf b key) iv a (rest b) \<and>
    (\<exists>ivec' ecount' n'. c' = (ivec', ecount', n') \<and> ctr_at (\<lambda>b. AES_encrypt pf b key) iv (a + length (rest b)) ivec' ecount' n') \<and>
    onReceivedData pf key fresh p b ((ivec, ecount, n), s) =
      (case process_data fresh p b' s of None \<Rightarrow> None | Some (out, s) \<Rightarrow> Some (out, c', s))"
proof -
  let ?E = "\<lambda>b. AES_encrypt pf b key" and ?len = "unat (buf_limit b)"
  let ?b = "b\<lparr>buffer := wr 0 (ctr_text ?E iv a (rest b)) (buffer b)\<rparr>"
  have ok: "buf_ok b" "buf_position b = 0" using b by simp_all
  have len: "?len = room b" "0 + ?len \<le> length (buffer b)" using buf_okD [OF ok(1)] ok(2) by simp_all
  have r: "rd 0 ?len (buffer b) = rest b" by (simp add: rest_def ok(2) len(1))
  have "apart 0 0 ?len" by (simp add: apart_def)
  from aes_ctr_run [OF ctr this len(2,2)] obtain ivec' ecount' n' where
    e: "AES_ctr128_encrypt pf 0 0 ?len key ivec ecount n (buffer b) = (wr 0 (ctr_text ?E iv a (rest b)) (buffer b), ivec', ecount', n')"
      "ctr_at ?E iv (a + ?len) ivec' ecount' n'" unfolding r by blast
  have fit: "length (ctr_text ?E iv a (rest b)) \<le> room b" using length_rest [OF ok(1)] by simp
  have "buf_ok ?b" "rest ?b = ctr_text ?E iv a (rest b)"
    using overwritten [OF ok(1) fit] ok(2) length_rest [OF ok(1)] by simp_all
  moreover have "buf_position ?b = 0" "room ?b \<le> 2 ^ 21" using b by (auto simp: room_def)
  moreover have "onReceivedData pf key fresh p b ((ivec, ecount, n), s) =
      (case process_data fresh p ?b s of None \<Rightarrow> None | Some (out, s) \<Rightarrow> Some (out, (ivec', ecount', n'), s))"
    by (simp add: onReceivedData_def e(1))
  ultimately show ?thesis using e(2) len(1) length_rest [OF ok(1)]
    by (intro exI [of _ "(ivec', ecount', n')"] exI [of _ ?b]) simp
qed

text \<open>The chunks of a connection one after the other, until it is closed.\<close>

fun receive_chunks ::
    "aes_platform \<Rightarrow> aes_key \<Rightarrow> (nat \<Rightarrow> bytes) \<Rightarrow> protocol \<Rightarrow> native_buffer list \<Rightarrow> ctr_state \<times> packet_state \<Rightarrow>
       (packet_event list \<times> ctr_state \<times> packet_state) option" where
  "receive_chunks pf key fresh p [] cs = Some ([], cs)"
| "receive_chunks pf key fresh p (b # bs) cs =
     (case onReceivedData pf key fresh p b cs of
        None \<Rightarrow> None
      | Some (out, cs) \<Rightarrow>
          if Reconnect \<in> set out then Some (out, cs)
          else case receive_chunks pf key fresh p bs cs of None \<Rightarrow> None | Some (out', cs) \<Rightarrow> Some (out @ out', cs))"

text \<open>The connection is a reader of the encrypted packets: \<open>reader_at\<close> is its state at place \<open>a\<close> of the key stream, with \<open>q\<close> kept.\<close>

definition reader_at ::
    "aes_platform \<Rightarrow> aes_key \<Rightarrow> (nat \<Rightarrow> bytes) \<Rightarrow> protocol \<Rightarrow> bytes \<Rightarrow> nat \<Rightarrow> ctr_state \<times> packet_state \<Rightarrow> bytes \<Rightarrow> bool" where
  "reader_at pf key fresh p iv a cs q \<longleftrightarrow>
     (case cs of ((ivec, ecount, n), s) \<Rightarrow> portable pf \<and> (\<forall>n. length (fresh n) = n) \<and>
        ctr_at (\<lambda>b. AES_encrypt pf b key) iv a ivec ecount n \<and> between p s \<and> held s = q \<and> unframe p q = ([], Left q))"

definition open_end :: "left \<Rightarrow> bytes option" where
  "open_end l = (case l of Left r \<Rightarrow> Some r | _ \<Rightarrow> None)"

lemma received_unframe:
  assumes r: "reader_at pf key fresh p iv a cs q" and b: "chunk_ok b"
    and un: "unframe p (q @ ctr_text (\<lambda>b. AES_encrypt pf b key) iv a (rest b)) = (es, l)" "no_acks es" "l \<noteq> Huge"
  shows "\<exists>cs'. onReceivedData pf key fresh p b cs = Some (es, cs') \<and>
    (case open_end l of Some r \<Rightarrow> reader_at pf key fresh p iv (a + length (rest b)) cs' r | None \<Rightarrow> True)"
proof -
  obtain ivec ecount n s where cs: "cs = ((ivec, ecount, n), s)" by (cases cs) auto
  have h: "portable pf" "\<And>n. length (fresh n) = n" "ctr_at (\<lambda>b. AES_encrypt pf b key) iv a ivec ecount n" "between p s" "held s = q"
    using r unfolding reader_at_def cs prod.case by blast+
  from decrypted_chunk [OF h(3,1) b, of fresh p s] obtain b' ivec' ecount' n' where
    d: "chunk_ok b'" "rest b' = ctr_text (\<lambda>b. AES_encrypt pf b key) iv a (rest b)"
      "ctr_at (\<lambda>b. AES_encrypt pf b key) iv (a + length (rest b)) ivec' ecount' n'"
      "onReceivedData pf key fresh p b cs = (case process_data fresh p b' s of None \<Rightarrow> None | Some (out, s) \<Rightarrow> Some (out, (ivec', ecount', n'), s))"
    unfolding cs by blast
  have "unframe p (held s @ rest b') = (es, l)" using un(1) h(5) d(2) by simp
  from process_unframe [OF h(2,4) _ _ _ this un(2,3)] d(1) obtain s1 where "process_data fresh p b' s = Some (es, s1)" "outcome p l s1" by blast
  moreover have "unframe p r = ([], Left r)" if "l = Left r" for r using un(1) that by (intro unframe_rest) simp
  ultimately show ?thesis using d(3,4) h(1,2) by (cases l) (auto simp: reader_at_def open_end_def outcome_def)
qed

interpretation connection: stream_reader "\<lambda>cs b. onReceivedData pf key fresh p b cs" "\<lambda>out _. Reconnect \<in> set out"
    rest chunk_ok "ctr_text (\<lambda>b. AES_encrypt pf b key) iv" "unframe p" open_end "\<lambda>(es, l). no_acks es \<and> l \<noteq> Huge"
    "reader_at pf key fresh p iv"
  for pf :: aes_platform and key :: aes_key and fresh :: "nat \<Rightarrow> bytes" and p :: protocol and iv :: bytes
proof (unfold_locales, goal_cases)
  case (1 a xs ys)
  then show ?case by (rule ctr_text_append)
next
  case (2 xs es l ys)
  then show ?case using unframe_append [OF 2] by (cases l) (simp_all add: open_end_def)
next
  case (3 xs es l ys)
  then show ?case using unframe_append [OF 3(1), of ys] by (cases l) (auto simp: open_end_def split: prod.splits)
next
  case (4 a cs q es l)
  then show ?case by (auto simp: reader_at_def open_end_def)
next
  case (5 a cs q b es l)
  then have "no_acks es" "l \<noteq> Huge" by simp_all
  from received_unframe [OF 5(1,2,3) this] show ?case
    using unframe_closed [OF 5(3)] \<open>l \<noteq> Huge\<close> by (cases l) (auto simp: open_end_def)
qed

lemma receive_chunks_read:
  "receive_chunks pf key fresh p bs cs = read_chunks (\<lambda>cs b. onReceivedData pf key fresh p b cs) (\<lambda>out _. Reconnect \<in> set out) bs cs"
  by (induction bs arbitrary: cs) (auto split: option.splits)

lemma chunks_unframe:
  assumes "\<And>n. length (fresh n) = n" "portable pf" "between p s" "\<forall>b \<in> set bs. chunk_ok b" "unframe p (held s) = ([], Left (held s))"
    and "ctr_at (\<lambda>b. AES_encrypt pf b key) iv a ivec ecount n"
    and u: "unframe p (held s @ ctr_text (\<lambda>b. AES_encrypt pf b key) iv a (stream_bytes bs)) = (es, l)" "no_acks es" "l \<noteq> Huge"
  shows "\<exists>c' s'. receive_chunks pf key fresh p bs ((ivec, ecount, n), s) = Some (es, c', s') \<and> outcome p l s'"
proof -
  have "reader_at pf key fresh p iv a ((ivec, ecount, n), s) (held s)" using assms(1-3,5,6) by (simp add: reader_at_def)
  from connection.any_chunks [OF this assms(4), of es l] u obtain cs'
    where r: "receive_chunks pf key fresh p bs ((ivec, ecount, n), s) = Some (es, cs')"
      "case open_end l of Some r \<Rightarrow> reader_at pf key fresh p iv (a + length (stream_bytes bs)) cs' r | None \<Rightarrow> True"
    unfolding receive_chunks_read by (auto simp: open_end_def stream_bytes_def split: left.splits)
  obtain c' s' where "cs' = (c', s')" by fastforce
  then show ?thesis using r u(3) by (cases c'; cases l) (auto simp: reader_at_def open_end_def outcome_def)
qed

text \<open>
  C16. However the network cuts the encrypted stream, the connection decrypts it and hands on the packets of the whole stream, each
  once, complete and in order, and keeps the start of the next one; or it closes at the first wrong length.  (No quick
  acknowledgements are in the stream, and the packet that was begun is smaller than 2 GiB.)
\<close>

theorem packets_any_chunks:
  assumes "portable pf" "\<And>n. length (fresh n) = n" "\<forall>b \<in> set chunks. chunk_ok b"
    and "storage_ok (pools s)" "restOfTheData s = None"
    and "ctr_at (\<lambda>b. AES_encrypt pf b key) iv a ivec ecount n"
    and "unframe p (ctr_text (\<lambda>b. AES_encrypt pf b key) iv a (stream_bytes chunks)) = (es, l)" "no_acks es" "l \<noteq> Huge"
  shows "\<exists>c' s'. receive_chunks pf key fresh p chunks ((ivec, ecount, n), s) = Some (es, c', s') \<and>
    (case l of Left r \<Rightarrow> held s' = r | Closed \<Rightarrow> Reconnect \<in> set es | Huge \<Rightarrow> False)"
proof -
  have "between p s" "held s = []" using assms(4,5) by (simp_all add: between_def held_def)
  moreover have "unframe p [] = ([], Left [])" by (simp add: unframe.simps first_header_def)
  ultimately obtain c' s' where r: "receive_chunks pf key fresh p chunks ((ivec, ecount, n), s) = Some (es, c', s')" "outcome p l s'"
    using chunks_unframe [OF assms(2,1) _ assms(3) _ assms(6), of p s es l] assms(7-9) by auto
  then show ?thesis using unframe_closed [OF assms(7)] by (cases c'; cases l) (auto simp: outcome_def)
qed

definition sample_chunk :: "bytes \<Rightarrow> native_buffer" where
  "sample_chunk bs = new_buffer bs (of_nat (length bs))"

lemma sample_chunk: "length bs < 2 ^ 20 \<Longrightarrow> chunk_ok (sample_chunk bs) \<and> rest (sample_chunk bs) = bs"
proof -
  assume l: "length bs < 2 ^ 20"
  then have "unat (of_nat (length bs) :: u32) = length bs" by (intro unat_small) simp
  then show ?thesis using l by (simp add: sample_chunk_def new_buffer_def buf_ok_def rest_def room_def rd_def)
qed

definition sample_packets :: packet_state where
  "sample_packets = \<lparr>restOfTheData = None, lastPacketLength = 0, pools = new_storage zeros\<rparr>"

definition sample_key_text :: "bytes \<Rightarrow> bytes" where
  "sample_key_text = ctr_text (\<lambda>b. AES_encrypt portable_platform b blank_aes_key) (replicate 16 255) 0"

theorem packets_any_chunks_witness:
  "\<exists>c' s'. receive_chunks portable_platform blank_aes_key zeros ProtocolTypeEF
      (map sample_chunk [take 3 (sample_key_text [1, 10, 20, 30, 40, 0, 2, 7, 8]), take 1 (drop 3 (sample_key_text [1, 10, 20, 30, 40, 0, 2, 7, 8])),
         drop 4 (sample_key_text [1, 10, 20, 30, 40, 0, 2, 7, 8])])
      ((replicate 16 255, [], 0), sample_packets) = Some ([Packet [10, 20, 30, 40], Packet []], c', s') \<and> held s' = [2, 7, 8]"
proof -
  let ?c = "sample_key_text [1, 10, 20, 30, 40, 0, 2, 7, 8]"
  let ?chunks = "map sample_chunk [take 3 ?c, take 1 (drop 3 ?c), drop 4 ?c]"
  have len: "length ?c = 9" by (simp add: sample_key_text_def)
  have z: "length (zeros n) = n" for n by (simp add: zeros_def)
  have c: "\<forall>b \<in> set ?chunks. chunk_ok b"
    using sample_chunk [of "take 3 ?c"] sample_chunk [of "take 1 (drop 3 ?c)"] sample_chunk [of "drop 4 ?c"] len by auto
  have "stream_bytes ?chunks = take 3 ?c @ take 1 (drop 3 ?c) @ drop 4 ?c"
    using sample_chunk [of "take 3 ?c"] sample_chunk [of "take 1 (drop 3 ?c)"] sample_chunk [of "drop 4 ?c"] len by simp
  also have "\<dots> = ?c" using append_take_drop_id [of 1 "drop 3 ?c"] append_take_drop_id [of 3 ?c] by (simp del: append_take_drop_id)
  finally have "ctr_text (\<lambda>b. AES_encrypt portable_platform b blank_aes_key) (replicate 16 255) 0 (stream_bytes ?chunks) =
      [1, 10, 20, 30, 40, 0, 2, 7, 8]" by (simp add: sample_key_text_def ctr_text_involution)
  then have u: "unframe ProtocolTypeEF (ctr_text (\<lambda>b. AES_encrypt portable_platform b blank_aes_key) (replicate 16 255) 0 (stream_bytes ?chunks)) =
      ([Packet [10, 20, 30, 40], Packet []], Left [2, 7, 8])"
    by (simp add: unframe.simps first_header_def wrong_length_def)
  have "\<exists>c' s'. receive_chunks portable_platform blank_aes_key zeros ProtocolTypeEF ?chunks ((replicate 16 255, [], 0), sample_packets) =
      Some ([Packet [10, 20, 30, 40], Packet []], c', s') \<and>
      (case Left [2, 7, 8] of Left r \<Rightarrow> held s' = r | Closed \<Rightarrow> Reconnect \<in> set [Packet [10, 20, 30, 40], Packet []] | Huge \<Rightarrow> False)"
    by (rule packets_any_chunks [OF portable_platform _ c _ _ _ u])
      (simp_all add: z sample_packets_def zeros_storage ctr_at_def)
  then show ?thesis by simp
qed

end
