(* ===== verification/QuickAck.thy ===== *)
theory QuickAck
  imports PacketFraming
begin

text \<open>
  A quick acknowledgement that is cut by the network, with the start of a packet behind it:  \<open>Connection::onReceivedData\<close> of
  \<^verbatim>\<open>app/jni/tgnet/Connection.cpp\<close> keeps the bytes of the acknowledgement in front of the packet, and no chunk that comes later is
  read any more.
\<close>

unbundle bit_operations_syntax

lemma loop_ack:
  assumes b: "buf_ok b" and h: "first_header p (rest b) = IsAck a"
  shows "packet_loop fresh p b aliased later s out =
    packet_loop fresh p (advance 4 b) aliased later (sync aliased (advance 4 b) s) (out @ [QuickAck a])"
proof -
  have ne: "rest b \<noteq> []" using h by (auto simp: first_header_def split: if_splits)
  show ?thesis
    unfolding packet_loop.simps [of fresh p b] using read_header_first [OF b ne] h by (simp add: rest_ne [OF b] ne Let_def)
qed

text \<open>The acknowledgement and half of a packet of eight bytes, from the start of \<open>restOfTheData\<close>.\<close>

definition ack_and_half :: "u8 \<Rightarrow> u8 \<Rightarrow> u8 \<Rightarrow> u8 \<Rightarrow> bytes \<Rightarrow> bytes" where
  "ack_and_half x y z w c = [x, y, z, w, 2] @ c"

lemma stuck_loop:
  assumes b: "buf_ok b" "buf_position b = 0" "9 \<le> unat (buf_capacity b)"
    and r: "rest b = ack_and_half x y z w c" "128 \<le> unat x" "length c = 4"
  shows "packet_loop fresh ProtocolTypeEF b True later s [] =
    Some ([QuickAck (pack x y z w AND NOT 0x80000000)], s\<lparr>restOfTheData := Some (b\<lparr>buf_position := 9\<rparr>), lastPacketLength := 9\<rparr>)"
proof -
  have nine: "room b = 9" using length_rest [OF b(1)] r(1,3) by (simp add: ack_and_half_def)
  then have lim: "buf_limit b = 9" using buf_okD(6) [OF b(1)] b(2) by (simp add: word_unat_eq_iff)
  have four: "4 \<le> room b" using nine by simp
  note a = advance_ok [OF b(1) four]
  let ?b = "advance 4 b"
  have h1: "first_header ProtocolTypeEF (rest b) = IsAck (pack x y z w AND NOT 0x80000000)"
    using r(2) by (simp add: r(1) ack_and_half_def first_header_def)
  have rest: "rest ?b = 2 # c" using a(3) by (simp add: r(1) ack_and_half_def numeral_eq_Suc)
  have h2: "first_header ProtocolTypeEF (rest ?b) = Len 8 1" by (simp add: rest first_header_def)
  have partial: "length (rest ?b) < 1 + 8" "\<not> wrong_length ProtocolTypeEF 8" "(8 :: nat) < 2 ^ 32"
    using r(3) by (simp_all add: rest wrong_length_def)
  have "packet_loop fresh ProtocolTypeEF b True later s [] = packet_loop fresh ProtocolTypeEF ?b True later (sync True ?b s)
      [QuickAck (pack x y z w AND NOT 0x80000000)]"
    using loop_ack [OF b(1) h1, of fresh True later s "[]"] by simp
  also have "\<dots> = Some ([QuickAck (pack x y z w AND NOT 0x80000000)],
      keep_packet fresh (buf_position ?b) 9 (advance 1 ?b) True (sync True (advance 1 ?b) s))"
    using loop_partial [OF a(1) h2 partial(2,3,1), of fresh True later "sync True ?b s"] by simp
  also have "keep_packet fresh (buf_position ?b) 9 (advance 1 ?b) True (sync True (advance 1 ?b) s) =
      s\<lparr>restOfTheData := Some (b\<lparr>buf_position := 9\<rparr>), lastPacketLength := 9\<rparr>"
  proof -
    have cap: "\<not> buf_capacity b < 9" using b(3) by (simp add: word_less_nat_alt)
    have "set_limit 9 (set_position (buf_limit b) (advance 1 ?b)) = b\<lparr>buf_position := 9\<rparr>"
      using cap lim by (cases b) (simp add: set_limit_def set_position_def advance_def)
    then show ?thesis using cap lim by (simp add: keep_packet_def sync_def advance_advance Let_def)
  qed
  finally show ?thesis .
qed

text \<open>The start of the acknowledgement waits in a new buffer.\<close>

lemma first_kept:
  assumes fresh: "\<And>n. length (fresh n) = n" and b: "chunk_ok b" and s: "storage_ok (pools s)" "restOfTheData s = None"
    and h: "first_header p (rest b) = More" "rest b \<noteq> []"
  shows "\<exists>r s'. process_data fresh p b s = Some ([], s') \<and> restOfTheData s' = Some r \<and> lastPacketLength s' = 0 \<and>
    storage_ok (pools s') \<and> held_ok p 0 r \<and> behind r = rest b \<and> 16384 \<le> unat (buf_capacity r)"
proof -
  have ok: "buf_ok b" "buf_position b = 0" "room b < 4" using b header_more [OF h(1)] length_rest [of b] by simp_all
  have "rewind b = b" using ok(2) by (cases b) (simp add: rewind_def)
  then have "process_data fresh p b s = packet_loop fresh p b False None s []"
    using s(2) by (simp add: process_data_def join_rest_def)
  then obtain always where p: "process_data fresh p b s = Some ([], keep_header fresh always b False s)"
    using loop_more [OF ok(1) h(2,1), of False s fresh None "[]"] by auto
  have rd: "reading False b s" using ok s by (simp add: reading_def)
  note w = keep_header_between [OF rd fresh h header_more [OF h(1)], of always]
  obtain r0 st where g: "getFreeBuffer fresh 16384 (pools s) = (r0, st)" by fastforce
  note c = new_copy [OF ok(1) s(1) fresh _ _ g, simplified]
  let ?r = "set_limit (buf_position (append_bytes (rest b) r0)) (append_bytes (rest b) r0)"
  have k: "keep_header fresh always b False s = s\<lparr>restOfTheData := Some ?r, lastPacketLength := 0, pools := st\<rparr>"
    using s(2) ok(3) c(1) by (simp add: keep_header_def g sync_def)
  have "buf_capacity ?r = buf_capacity (append_bytes (rest b) r0)" by (simp add: set_limit_def Let_def)
  moreover have "16384 \<le> unat (buf_capacity (append_bytes (rest b) r0))" using buf_okD(3) [OF c(3)] c(5) ok(3) by simp
  ultimately have "16384 \<le> unat (buf_capacity ?r)" by simp
  moreover have "held_ok p 0 ?r" "storage_ok st" "behind ?r = rest b" using w by (simp_all add: k between_def held_def)
  ultimately show ?thesis by (intro exI [of _ ?r] exI [of _ "keep_header fresh always b False s"]) (simp add: p k)
qed

text \<open>A chunk that finds \<open>restOfTheData\<close> full is not written to it.\<close>

lemma join_full:
  assumes "restOfTheData s = Some r" "lastPacketLength s = buf_position r" "buf_position r \<noteq> 0" "chunk_ok b"
  shows "\<exists>later. join_rest fresh b s = Inr (r, True, later, s\<lparr>restOfTheData := Some r\<rparr>)"
proof -
  have "buf_limit (set_limit 0 b) = 0" "buf_position (set_limit 0 b) = 0" using assms(4) by (simp_all add: set_limit_def Let_def)
  then have "writeBytes_buffer (set_limit 0 b) None r = (None, r, set_limit 0 b)" by (simp add: writeBytes_buffer_def)
  then show ?thesis using assms(1-3) by (simp add: join_rest_def Let_def)
qed

text \<open>
  C25. A quick acknowledgement cut in two: the first part waits, the second comes with the first half of a packet.  The
  acknowledgement is reported and its bytes stay in front of the packet; from then on every chunk, whatever it holds, only makes the
  acknowledgement be reported again and is lost, so the packet never comes.  The stream has one acknowledgement and the packet.
\<close>

theorem quick_ack_stuck:
  assumes "\<And>n. length (fresh n) = n" "chunk_ok u" "chunk_ok v" "chunk_ok t" "storage_ok (pools s)" "restOfTheData s = None"
    and "128 \<le> unat x" "rest u = [x, y]" "rest v = [z, w, 2] @ c" "length c = 4"
  defines "a \<equiv> pack x y z w AND NOT 0x80000000"
  shows "(\<exists>s1 s2. process_data fresh ProtocolTypeEF u s = Some ([], s1) \<and>
      process_data fresh ProtocolTypeEF v s1 = Some ([QuickAck a], s2) \<and>
      process_data fresh ProtocolTypeEF t s2 = Some ([QuickAck a], s2)) \<and>
    (length (rest t) = 4 \<longrightarrow>
      unframe ProtocolTypeEF (rest u @ rest v @ rest t) = ([QuickAck a, Packet (c @ rest t)], Left []))"
proof -
  let ?EF = ProtocolTypeEF
  have "first_header ?EF (rest u) = More" "rest u \<noteq> []" using assms(7,8) by (simp_all add: first_header_def)
  from first_kept [OF assms(1,2,5,6) this] obtain r s1 where s1: "process_data fresh ?EF u s = Some ([], s1)" "restOfTheData s1 = Some r"
    "lastPacketLength s1 = 0" "storage_ok (pools s1)" "held_ok ?EF 0 r" "behind r = [x, y]" "16384 \<le> unat (buf_capacity r)"
    unfolding assms(8) by blast
  have v: "buf_ok v" "buf_position v = 0" "room v \<le> 2 ^ 21" using assms(3) by simp_all
  from join_header [OF assms(1) v s1(2-5)] obtain q s' where q: "join_rest fresh v s1 = Inr (q, True, None, s')" "buf_ok q"
    "rest (rewind q) = behind r @ rest v" "unat (buf_capacity r) \<le> unat (buf_capacity q)" by blast
  let ?q = "rewind q"
  have "9 \<le> unat (buf_capacity ?q)" using q(4) s1(7) by (simp add: rewind_def)
  moreover have "rest ?q = ack_and_half x y z w c" using q(3) assms(9) s1(6) by (simp add: ack_and_half_def)
  ultimately have loop: "packet_loop fresh ?EF ?q True later t0 [] =
      Some ([QuickAck a], t0\<lparr>restOfTheData := Some (?q\<lparr>buf_position := 9\<rparr>), lastPacketLength := 9\<rparr>)" for later t0
    unfolding a_def using rewound(1,2) [OF q(2)] assms(7,10) by (intro stuck_loop) simp_all
  let ?r = "?q\<lparr>buf_position := 9\<rparr>"
  let ?s2 = "s'\<lparr>restOfTheData := Some ?r, lastPacketLength := 9\<rparr>"
  have "process_data fresh ?EF v s1 = Some ([QuickAck a], ?s2)" using loop q(1) by (simp add: process_data_def sync_def Let_def)
  moreover have "rewind ?r = ?q" by (simp add: rewind_def)
  then have "process_data fresh ?EF t ?s2 = Some ([QuickAck a], ?s2)"
    using join_full [of ?s2 ?r t fresh] assms(4) loop by (auto simp: process_data_def sync_def Let_def)
  ultimately have "\<exists>s1 s2. process_data fresh ?EF u s = Some ([], s1) \<and> process_data fresh ?EF v s1 = Some ([QuickAck a], s2) \<and>
      process_data fresh ?EF t s2 = Some ([QuickAck a], s2)" using s1(1) by blast
  moreover have "unframe ?EF (rest u @ rest v @ rest t) = ([QuickAck a, Packet (c @ rest t)], Left [])" if "length (rest t) = 4"
    using assms(7-10) that by (simp add: unframe.simps first_header_def wrong_length_def a_def)
  ultimately show ?thesis by blast
qed

theorem quick_ack_stuck_witness:
  "\<exists>s1 s2. process_data zeros ProtocolTypeEF (sample_chunk [0x81, 2]) sample_packets = Some ([], s1) \<and>
    process_data zeros ProtocolTypeEF (sample_chunk [3, 4, 2, 10, 20, 30, 40]) s1 = Some ([QuickAck 0x01020304], s2) \<and>
    process_data zeros ProtocolTypeEF (sample_chunk [50, 60, 70, 80]) s2 = Some ([QuickAck 0x01020304], s2)"
proof -
  have z: "length (zeros n) = n" for n by (simp add: zeros_def)
  have c: "chunk_ok (sample_chunk [0x81, 2])" "chunk_ok (sample_chunk [3, 4, 2, 10, 20, 30, 40])" "chunk_ok (sample_chunk [50, 60, 70, 80])"
    "rest (sample_chunk [0x81, 2]) = [0x81, 2]" "rest (sample_chunk [3, 4, 2, 10, 20, 30, 40]) = [3, 4, 2] @ [10, 20, 30, 40]"
    using sample_chunk [of "[0x81, 2]"] sample_chunk [of "[3, 4, 2, 10, 20, 30, 40]"] sample_chunk [of "[50, 60, 70, 80]"] by simp_all
  have s: "storage_ok (pools sample_packets)" "restOfTheData sample_packets = None" by (simp_all add: sample_packets_def zeros_storage)
  have "pack 0x81 2 3 4 AND NOT 0x80000000 = 0x01020304" by (simp add: pack_def)
  then show ?thesis using quick_ack_stuck [OF z c(1-3) s _ c(4,5)] by simp
qed

end
