(* ===== verification/SendData.thy ===== *)
theory SendData
  imports PacketStream
begin

text \<open>
  How a connection sends, \<open>Connection::sendData\<close> of \<^verbatim>\<open>app/jni/tgnet/Connection.cpp\<close>: the 64 random bytes in front of the first
  packet, which the keys of both directions are made of, the header of a packet, its padding, and the encryption of all of it
  in one key stream.  SHA-256 and \<open>RAND_bytes\<close> are parameters.
\<close>

unbundle bit_operations_syntax

section \<open>The state\<close>

record connection_settings =
  overrideProxyAddress :: bytes
  overrideProxySecret :: bytes
  conn_secret :: bytes
  proxyAddress :: bytes
  proxySecret :: bytes
  isMediaConnection :: bool
  datacenterId :: u32

record out_state =
  firstPacketSent :: bool
  currentProtocolType :: protocol
  encryptKey :: aes_key
  encrypt_state :: ctr_state
  decryptKey :: aes_key
  decrypt_state :: ctr_state
  outgoing :: byte_stream
  send_pools :: buffers_storage

text \<open>What \<open>RAND_bytes\<close> gives during a call: for the start, time after time, for the size of the padding, and for the padding.\<close>

record randomness =
  starts :: "bytes list"
  size_random :: u32
  padding_random :: bytes

section \<open>The protocol and the secret\<close>

definition use_secret :: "connection_settings \<Rightarrow> nat" where
  "use_secret cfg =
     (if overrideProxyAddress cfg \<noteq> []
      then if overrideProxySecret cfg \<noteq> [] then 1 else if conn_secret cfg \<noteq> [] then 2 else 0
      else if proxyAddress cfg \<noteq> [] \<and> proxySecret cfg \<noteq> [] then 1
      else if conn_secret cfg \<noteq> [] then 2 else 0)"

definition getCurrentSecret :: "nat \<Rightarrow> connection_settings \<Rightarrow> bytes" where
  "getCurrentSecret secretType cfg =
     (if secretType = 2 then conn_secret cfg
      else if overrideProxySecret cfg \<noteq> [] then overrideProxySecret cfg else proxySecret cfg)"

definition choose_protocol :: "nat \<Rightarrow> connection_settings \<Rightarrow> protocol" where
  "choose_protocol useSecret cfg =
     (if useSecret \<noteq> 0
      then let currentSecret = getCurrentSecret useSecret cfg
           in if length currentSecret \<ge> 17 \<and> currentSecret ! 0 = 0xdd then ProtocolTypeDD
              else if length currentSecret > 17 \<and> currentSecret ! 0 = 0xee then ProtocolTypeTLS
              else ProtocolTypeEF
      else ProtocolTypeEF)"

definition encryptKeyWithSecret :: "(bytes \<Rightarrow> bytes) \<Rightarrow> nat \<Rightarrow> connection_settings \<Rightarrow> bytes \<Rightarrow> bytes" where
  "encryptKeyWithSecret sha256 secretType cfg bs =
     (if secretType = 0 then bs
      else let currentSecret = getCurrentSecret secretType cfg;
               (a, n) = (if length currentSecret \<ge> 17 \<and> (currentSecret ! 0 = 0xdd \<or> currentSecret ! 0 = 0xee)
                         then (1, 17) else (0, min 16 (length currentSecret)))
           in wr 0 (sha256 (take 32 bs @ rd a (n - a) currentSecret)) bs)"

section \<open>The sizes of a packet\<close>

text \<open>The length that goes into the header, the size of the padding, and the size of the header.\<close>

definition packet_sizes :: "protocol \<Rightarrow> u32 \<Rightarrow> u32 \<Rightarrow> bool \<Rightarrow> u32 \<times> u32 \<times> u32" where
  "packet_sizes p lim random encrypted =
     (if p = ProtocolTypeEF then let packetLength = lim div 4 in (packetLength, 0, if packetLength < 0x7f then 1 else 4)
      else let additionalPacketSize =
             (if p = ProtocolTypeDD \<or> p = ProtocolTypeTLS then if \<not> encrypted then random mod 257 else random mod 16
              else if \<not> encrypted
              then let additionalPacketSize = random mod 257; additionalSize = additionalPacketSize mod 4
                   in if additionalSize \<noteq> 0 then additionalPacketSize + (4 - additionalSize) else additionalPacketSize
              else random)
           in (lim + additionalPacketSize, additionalPacketSize, 4))"

section \<open>The start of a connection\<close>

text \<open>The random bytes must not look like the start of another protocol; as long as they do they are drawn again.\<close>

definition acceptable :: "protocol \<Rightarrow> bytes \<Rightarrow> bool" where
  "acceptable p bs =
     (let val = pack (bs ! 3) (bs ! 2) (bs ! 1) (bs ! 0);
          val2 = pack (bs ! 7) (bs ! 6) (bs ! 5) (bs ! 4)
      in p = ProtocolTypeTLS \<or>
         bs ! 0 \<noteq> 0xef \<and> val \<noteq> 0x44414548 \<and> val \<noteq> 0x54534f50 \<and> val \<noteq> 0x20544547 \<and> val \<noteq> 0x4954504f \<and> val \<noteq> 0xeeeeeeee \<and>
         val \<noteq> 0xdddddddd \<and> val \<noteq> 0x02010316 \<and> val2 \<noteq> 0)"

fun random_start :: "protocol \<Rightarrow> bytes list \<Rightarrow> bytes option" where
  "random_start p [] = None"
| "random_start p (bs # rs) = (if acceptable p bs then Some bs else random_start p rs)"

definition protocol_tag :: "protocol \<Rightarrow> u8" where
  "protocol_tag p =
     (if p = ProtocolTypeEF then 0xef else if p = ProtocolTypeDD \<or> p = ProtocolTypeTLS then 0xdd else 0xee)"

definition mark_start :: "protocol \<Rightarrow> nat \<Rightarrow> connection_settings \<Rightarrow> bytes \<Rightarrow> bytes" where
  "mark_start p useSecret cfg bs =
     (let t = protocol_tag p;
          bs = bs[56 := t, 57 := t, 58 := t, 59 := t]
      in if useSecret \<noteq> 0
         then let n = (if isMediaConnection cfg then - ucast (datacenterId cfg) else ucast (datacenterId cfg) :: 16 word)
              in bs[60 := ucast n, 61 := ucast (drop_bit 8 n)]
         else bs)"

text \<open>
  The keys and vectors of both directions and the start as it is sent: its last eight bytes are encrypted.  \<open>None\<close> is \<open>exit(1)\<close>.
\<close>

definition set_keys ::
    "aes_platform \<Rightarrow> (bytes \<Rightarrow> bytes) \<Rightarrow> nat \<Rightarrow> connection_settings \<Rightarrow> bytes \<Rightarrow> out_state \<Rightarrow> (bytes \<times> out_state) option" where
  "set_keys pf sha256 useSecret cfg bs st =
     (let temp = map (\<lambda>a. bs ! (a + 8)) [0..<48];
          temp = encryptKeyWithSecret sha256 useSecret cfg temp
      in case AES_set_encrypt_key pf (Some temp) 256 (Some (encryptKey st)) of
           Inl _ \<Rightarrow> None
         | Inr ek \<Rightarrow>
             let encryptIv = rd 32 16 temp;
                 temp = map (\<lambda>a. bs ! (55 - a)) [0..<48];
                 temp = encryptKeyWithSecret sha256 useSecret cfg temp
             in case AES_set_encrypt_key pf (Some temp) 256 (Some (decryptKey st)) of
                  Inl _ \<Rightarrow> None
                | Inr dk \<Rightarrow>
                    let decryptIv = rd 32 16 temp;
                        (mem, encryptIv, encryptCount, encryptNum) =
                          AES_ctr128_encrypt pf 0 64 64 ek encryptIv (replicate 16 0) 0 (bs @ replicate 64 0);
                        bs = wr 56 (rd (64 + 56) 8 mem) bs
                    in Some (bs, st\<lparr>encryptKey := ek, encrypt_state := (encryptIv, encryptCount, encryptNum),
                         decryptKey := dk, decrypt_state := (decryptIv, replicate 16 0, 0), firstPacketSent := True\<rparr>))"

definition first_packet ::
    "aes_platform \<Rightarrow> (bytes \<Rightarrow> bytes) \<Rightarrow> bytes list \<Rightarrow> nat \<Rightarrow> connection_settings \<Rightarrow> native_buffer \<Rightarrow> out_state \<Rightarrow>
       (native_buffer \<times> out_state) option" where
  "first_packet pf sha256 rs useSecret cfg b st =
     (let b = set_position 64 b
      in case random_start (currentProtocolType st) rs of
           None \<Rightarrow> None
         | Some bs \<Rightarrow>
             (case set_keys pf sha256 useSecret cfg (mark_start (currentProtocolType st) useSecret cfg bs) st of
                None \<Rightarrow> None
              | Some (bs, st) \<Rightarrow> Some (b\<lparr>buffer := wr 0 bs (buffer b)\<rparr>, st)))"

section \<open>Sending\<close>

text \<open>\<open>len\<close> bytes from \<open>offset\<close> on are encrypted where they are.\<close>

definition encrypt_at :: "aes_platform \<Rightarrow> aes_key \<Rightarrow> nat \<Rightarrow> nat \<Rightarrow> native_buffer \<times> ctr_state \<Rightarrow> native_buffer \<times> ctr_state" where
  "encrypt_at pf key offset len bc =
     (let (b, encryptIv, encryptCount, encryptNum) = bc;
          (mem, encryptIv, encryptCount, encryptNum) =
            AES_ctr128_encrypt pf offset offset len key encryptIv encryptCount encryptNum (buffer b)
      in (b\<lparr>buffer := mem\<rparr>, encryptIv, encryptCount, encryptNum))"

definition write_header ::
    "aes_platform \<Rightarrow> aes_key \<Rightarrow> protocol \<Rightarrow> u32 \<Rightarrow> bool \<Rightarrow> native_buffer \<times> ctr_state \<Rightarrow> native_buffer \<times> ctr_state" where
  "write_header pf key p packetLength reportAck bc =
     (let (b, cs) = bc
      in if p = ProtocolTypeEF
         then if packetLength < 0x7f
              then let packetLength = (if reportAck then packetLength OR push_bit 7 1 else packetLength);
                       (_, b) = writeByte (ucast packetLength) None b
                   in encrypt_at pf key (unat (buf_limit b) - 1) 1 (b, cs)
              else let packetLength = push_bit 8 packetLength + 0x7f;
                       packetLength = (if reportAck then packetLength OR push_bit 7 1 else packetLength);
                       (_, b) = writeInt32 packetLength None b
                   in encrypt_at pf key (unat (buf_limit b) - 4) 4 (b, cs)
         else let packetLength = (if reportAck then packetLength OR 0x80000000 else packetLength);
                  (_, b) = writeInt32 packetLength None b
              in encrypt_at pf key (unat (buf_limit b) - 4) 4 (b, cs))"

text \<open>The buffers for the header and for the padding, which is drawn at once.\<close>

definition get_buffers ::
    "(nat \<Rightarrow> bytes) \<Rightarrow> u32 \<Rightarrow> u32 \<Rightarrow> bytes \<Rightarrow> buffers_storage \<Rightarrow> native_buffer \<times> native_buffer option \<times> buffers_storage" where
  "get_buffers fresh bufferLen additionalPacketSize random ps =
     (let (b, ps) = getFreeBuffer fresh bufferLen ps
      in if additionalPacketSize > 0
         then let (pb, ps) = getFreeBuffer fresh additionalPacketSize ps
              in (b, Some (pb\<lparr>buffer := wr 0 (take (unat additionalPacketSize) random) (buffer pb)\<rparr>), ps)
         else (b, None, ps))"

text \<open>The header, the packet and the padding are encrypted one after the other and go to the queue of the socket.\<close>

definition send_packet ::
    "aes_platform \<Rightarrow> aes_key \<Rightarrow> protocol \<Rightarrow> u32 \<Rightarrow> bool \<Rightarrow> native_buffer \<Rightarrow> native_buffer \<Rightarrow> native_buffer option \<Rightarrow>
       ctr_state \<Rightarrow> byte_stream \<Rightarrow> ctr_state \<times> byte_stream" where
  "send_packet pf key p packetLength reportAck b buff buffer2 cs queue =
     (let (b, cs) = write_header pf key p packetLength reportAck (b, cs);
          queue = append_buffer (Some (rewind b)) queue;
          (buff, cs) = encrypt_at pf key 0 (unat (buf_limit buff)) (rewind buff, cs);
          queue = append_buffer (Some buff) queue
      in case buffer2 of
           None \<Rightarrow> (cs, queue)
         | Some pb \<Rightarrow> let (pb, cs) = encrypt_at pf key 0 (unat (buf_limit pb)) (pb, cs) in (cs, append_buffer (Some pb) queue))"

definition sendData ::
    "aes_platform \<Rightarrow> (bytes \<Rightarrow> bytes) \<Rightarrow> (nat \<Rightarrow> bytes) \<Rightarrow> connection_settings \<Rightarrow> randomness \<Rightarrow> bool \<Rightarrow>
       native_buffer option \<Rightarrow> bool \<Rightarrow> bool \<Rightarrow> out_state \<Rightarrow> out_state option" where
  "sendData pf sha256 fresh cfg rnd isDisconnected buff reportAck encrypted st =
     (case buff of
        None \<Rightarrow> Some st
      | Some buff \<Rightarrow>
          let buff = rewind buff
          in if isDisconnected then Some (st\<lparr>send_pools := reuse buff (send_pools st)\<rparr>)
             else
               let first = (\<not> firstPacketSent st);
                   useSecret = (if first then use_secret cfg else 0);
                   st = (if first then st\<lparr>currentProtocolType := choose_protocol useSecret cfg\<rparr> else st);
                   p = currentProtocolType st;
                   (packetLength, additionalPacketSize, bufferLen) = packet_sizes p (buf_limit buff) (size_random rnd) encrypted;
                   bufferLen = (if first then bufferLen + 64 else bufferLen);
                   (b, buffer2, ps) = get_buffers fresh bufferLen additionalPacketSize (padding_random rnd) (send_pools st);
                   st = st\<lparr>send_pools := ps\<rparr>
               in case (if first then first_packet pf sha256 (starts rnd) useSecret cfg b st else Some (b, st)) of
                    None \<Rightarrow> None
                  | Some (b, st) \<Rightarrow>
                      let (cs, queue) =
                            send_packet pf (encryptKey st) p packetLength reportAck b buff buffer2 (encrypt_state st) (outgoing st)
                      in Some (st\<lparr>encrypt_state := cs, outgoing := queue\<rparr>))"

end
