(* ===== verification/Transmission.thy ===== *)
theory Transmission
  imports SendData PacketFraming
begin

text \<open>
  From one connection to the other: the stream that \<open>Connection::sendData\<close> makes is taken apart by the side that receives it into the
  packets that were sent, by the receiving code of \<open>PacketStream\<close>, in whatever chunks it comes.
\<close>

unbundle bit_operations_syntax

section \<open>What is sent\<close>

text \<open>The packet as it stands in the stream before the encryption, with no acknowledgement asked for.\<close>

definition packet_head :: "protocol \<Rightarrow> nat \<Rightarrow> nat \<Rightarrow> bytes" where
  "packet_head p len pad =
     (if p = ProtocolTypeEF
      then if len div 4 < 127 then [of_nat (len div 4)] else enc32 (of_nat (256 * (len div 4) + 127))
      else enc32 (of_nat (len + pad)))"

definition frame_packet :: "protocol \<Rightarrow> bytes \<Rightarrow> bytes \<Rightarrow> bytes" where
  "frame_packet p payload pad = packet_head p (length payload) (length pad) @ payload @ pad"

text \<open>The encryption stands at byte \<open>a\<close> of the key stream.\<close>

definition stands :: "(bytes \<Rightarrow> bytes) \<Rightarrow> bytes \<Rightarrow> nat \<Rightarrow> ctr_state \<Rightarrow> bool" where
  "stands E iv a cs \<longleftrightarrow> (case cs of (ivec, ecount, n) \<Rightarrow> ctr_at E iv a ivec ecount n)"

lemma encrypt_at:
  assumes cs: "stands (\<lambda>b. AES_encrypt pf b key) iv a cs" "portable pf" "offset + len \<le> length (buffer b)"
  shows "\<exists>cs'. encrypt_at pf key offset len (b, cs) =
      (b\<lparr>buffer := wr offset (ctr_text (\<lambda>b. AES_encrypt pf b key) iv a (rd offset len (buffer b))) (buffer b)\<rparr>, cs') \<and>
    stands (\<lambda>b. AES_encrypt pf b key) iv (a + len) cs'"
proof -
  obtain ivec ecount n where c: "cs = (ivec, ecount, n)" by (cases cs)
  have at: "ctr_at (\<lambda>b. AES_encrypt pf b key) iv a ivec ecount n" using cs(1) by (simp add: stands_def c)
  have "apart offset offset len" by (simp add: apart_def)
  from aes_ctr_run [OF at cs(2) this cs(3,3)] show ?thesis by (auto simp: encrypt_at_def c stands_def)
qed

text \<open>All of a buffer.\<close>

lemma encrypt_all:
  assumes cs: "stands (\<lambda>b. AES_encrypt pf b key) iv a cs" "portable pf" and b: "buf_ok b" "buf_position b = 0"
  shows "\<exists>b' cs'. encrypt_at pf key 0 (unat (buf_limit b)) (b, cs) = (b', cs') \<and> buf_ok b' \<and>
    rest b' = ctr_text (\<lambda>b. AES_encrypt pf b key) iv a (rest b) \<and> stands (\<lambda>b. AES_encrypt pf b key) iv (a + length (rest b)) cs'"
proof -
  let ?E = "\<lambda>b. AES_encrypt pf b key" and ?len = "unat (buf_limit b)"
  have len: "?len = room b" "0 + ?len \<le> length (buffer b)" using buf_okD [OF b(1)] b(2) by simp_all
  have r: "rd 0 ?len (buffer b) = rest b" by (simp add: rest_def b(2) len(1))
  have fit: "length (ctr_text ?E iv a (rest b)) \<le> room b" using length_rest [OF b(1)] by simp
  from encrypt_at [OF cs len(2)] obtain cs' where e: "encrypt_at pf key 0 ?len (b, cs) =
      (b\<lparr>buffer := wr 0 (ctr_text ?E iv a (rest b)) (buffer b)\<rparr>, cs')" "stands ?E iv (a + ?len) cs'"
    unfolding r by blast
  have "buf_ok (b\<lparr>buffer := wr 0 (ctr_text ?E iv a (rest b)) (buffer b)\<rparr>)"
    "rest (b\<lparr>buffer := wr 0 (ctr_text ?E iv a (rest b)) (buffer b)\<rparr>) = ctr_text ?E iv a (rest b)"
    using overwritten [OF b(1) fit] b(2) length_rest [OF b(1)] by simp_all
  then show ?thesis using e len(1) length_rest [OF b(1)] by auto
qed

text \<open>A header at the end of a buffer: written, encrypted, and the buffer rewound.\<close>

lemma encrypt_header:
  assumes cs: "stands (\<lambda>b. AES_encrypt pf b key) iv a cs" "portable pf" and b: "buf_ok b" "room b = length bs" "bs \<noteq> []"
  defines "bc \<equiv> encrypt_at pf key (unat (buf_limit b) - length bs) (length bs) (append_bytes bs b, cs)"
  shows "buf_ok (rewind (fst bc)) \<and> rest (rewind (fst bc)) = behind b @ ctr_text (\<lambda>b. AES_encrypt pf b key) iv a bs \<and>
    stands (\<lambda>b. AES_encrypt pf b key) iv (a + length bs) (snd bc)"
proof -
  let ?E = "\<lambda>b. AES_encrypt pf b key" and ?pos = "unat (buf_position b)"
  have pos: "unat (buf_limit b) - length bs = ?pos" "?pos + length bs \<le> length (buffer b)" using buf_okD [OF b(1)] b(2) by linarith+
  have c: "length (buffer (append_bytes bs b)) = length (buffer b)" "rd ?pos (length bs) (buffer (append_bytes bs b)) = bs"
    using pos(2) by (simp_all add: append_bytes_def rd_wr_same)
  have l: "?pos + length bs \<le> length (buffer (append_bytes bs b))" using pos(2) c(1) by simp
  from encrypt_at [OF cs l] obtain cs' where e: "encrypt_at pf key ?pos (length bs) (append_bytes bs b, cs) =
      ((append_bytes bs b)\<lparr>buffer := wr ?pos (ctr_text ?E iv a bs) (buffer (append_bytes bs b))\<rparr>, cs')" "stands ?E iv (a + length bs) cs'"
    unfolding c(2) by blast
  let ?t = "ctr_text ?E iv a bs"
  have "wr ?pos ?t (wr ?pos bs (buffer b)) = wr ?pos ?t (buffer b)" using pos(2) by (intro wr_wr_same) simp_all
  then have t: "(append_bytes bs b)\<lparr>buffer := wr ?pos ?t (buffer (append_bytes bs b))\<rparr> = append_bytes ?t b"
    by (simp add: append_bytes_def)
  have "length ?t \<le> room b" using b(2) by simp
  from append_bytes_ok [OF b(1) this] b(2) have "buf_ok (append_bytes ?t b)" "room (append_bytes ?t b) = 0" "behind (append_bytes ?t b) = behind b @ ?t"
    by simp_all
  then show ?thesis using rewind_full [of "append_bytes ?t b"] e unfolding bc_def pos(1) t by simp
qed

text \<open>The header for the lengths, and the three parts of a packet.\<close>

definition length_field :: "protocol \<Rightarrow> nat \<Rightarrow> nat \<Rightarrow> u32" where
  "length_field p len pad = (if p = ProtocolTypeEF then of_nat (len div 4) else of_nat (len + pad))"

lemma header_written:
  assumes b: "buf_ok b" "room b = length (packet_head p len pad)" and len: "len < 2 ^ 26 \<or> p \<noteq> ProtocolTypeEF"
  shows "write_header pf key p (length_field p len pad) False (b, cs) =
    encrypt_at pf key (unat (buf_limit b) - length (packet_head p len pad)) (length (packet_head p len pad))
      (append_bytes (packet_head p len pad) b, cs)"
proof (cases "p = ProtocolTypeEF")
  case True
  let ?n = "len div 4"
  have n: "?n < 2 ^ 24" using len True by auto
  then have u: "unat (of_nat ?n :: u32) = ?n" by (intro unat_small) simp
  show ?thesis
  proof (cases "?n < 127")
    case small: True
    have "ucast (of_nat ?n :: u32) = (of_nat ?n :: u8)" using byte_of_nat [of ?n 0] n by simp
    moreover have "writeByte (of_nat ?n) None b = (None, append_bytes [of_nat ?n] b)"
      using byte.put_fits [OF b(1) TrueI, of "of_nat ?n" None] b(2) True small by (simp add: packet_head_def)
    ultimately show ?thesis using True small u
      by (simp add: write_header_def length_field_def packet_head_def word_less_nat_alt)
  next
    case False
    have "push_bit 8 (of_nat ?n) + 0x7f = (of_nat (256 * ?n + 127) :: u32)" by (simp add: push_bit_eq_mult mult.commute)
    moreover have "writeInt32 (of_nat (256 * ?n + 127)) None b = (None, append_bytes (enc32 (of_nat (256 * ?n + 127))) b)"
      using int32.put_fits [OF b(1) TrueI, of "of_nat (256 * ?n + 127)" None] b(2) True False by (simp add: packet_head_def)
    ultimately show ?thesis using True False u
      by (simp add: write_header_def length_field_def packet_head_def word_less_nat_alt del: of_nat_add of_nat_mult)
  qed
next
  case False
  have "writeInt32 (of_nat (len + pad)) None b = (None, append_bytes (enc32 (of_nat (len + pad))) b)"
    using int32.put_fits [OF b(1) TrueI, of "of_nat (len + pad)" None] b(2) False by (simp add: packet_head_def)
  then show ?thesis using False by (simp add: write_header_def length_field_def packet_head_def del: of_nat_add)
qed

lemma packet_head_ne: "packet_head p len pad \<noteq> []"
  by (simp add: packet_head_def enc32_def)

lemma send_packet:
  assumes cs: "stands (\<lambda>b. AES_encrypt pf b key) iv a cs" "portable pf"
    and b: "buf_ok b" "room b = length (packet_head p (length (rest buff)) (length pad))"
    and buff: "buf_ok buff" "buf_position buff = 0" "length (rest buff) < 2 ^ 26 \<or> p \<noteq> ProtocolTypeEF"
    and pb: "case buffer2 of None \<Rightarrow> pad = [] | Some pb \<Rightarrow> buf_ok pb \<and> buf_position pb = 0 \<and> rest pb = pad"
  defines "packet \<equiv> frame_packet p (rest buff) pad"
  shows "\<exists>cs' queue'. send_packet pf key p (length_field p (length (rest buff)) (length pad)) False b buff buffer2 cs queue = (cs', queue') \<and>
    stream_bytes queue' = stream_bytes queue @ behind b @ ctr_text (\<lambda>b. AES_encrypt pf b key) iv a packet \<and>
    stands (\<lambda>b. AES_encrypt pf b key) iv (a + length packet) cs'"
proof -
  let ?E = "\<lambda>b. AES_encrypt pf b key" and ?hd = "packet_head p (length (rest buff)) (length pad)"
  have "rewind buff = buff" using buff(2) by (cases buff) (simp add: rewind_def)
  note w = header_written [OF b buff(3), of pf key cs]
  obtain hb cs1 where h: "encrypt_at pf key (unat (buf_limit b) - length ?hd) (length ?hd) (append_bytes ?hd b, cs) = (hb, cs1)"
    by (cases "encrypt_at pf key (unat (buf_limit b) - length ?hd) (length ?hd) (append_bytes ?hd b, cs)")
  have h': "buf_ok (rewind hb)" "rest (rewind hb) = behind b @ ctr_text ?E iv a ?hd" "stands ?E iv (a + length ?hd) cs1"
    using encrypt_header [OF cs b packet_head_ne] h by simp_all
  from encrypt_all [OF h'(3) cs(2) buff(1,2)] obtain pl cs2 where p: "encrypt_at pf key 0 (unat (buf_limit buff)) (buff, cs1) = (pl, cs2)"
    "rest pl = ctr_text ?E iv (a + length ?hd) (rest buff)" "stands ?E iv (a + length ?hd + length (rest buff)) cs2" by blast
  show ?thesis
  proof (cases buffer2)
    case None
    then show ?thesis using pb h h' p w \<open>rewind buff = buff\<close>
      by (simp add: send_packet_def append_buffer_def packet_def frame_packet_def ctr_text_append add.assoc)
  next
    case (Some q)
    then have q: "buf_ok q" "buf_position q = 0" "rest q = pad" using pb by simp_all
    from encrypt_all [OF p(3) cs(2) q(1,2)] obtain q' cs3 where "encrypt_at pf key 0 (unat (buf_limit q)) (q, cs2) = (q', cs3)"
      "rest q' = ctr_text ?E iv (a + length ?hd + length (rest buff)) pad" "stands ?E iv (a + length ?hd + length (rest buff) + length pad) cs3"
      unfolding q(3) by blast
    then show ?thesis using Some h h' p w \<open>rewind buff = buff\<close>
      by (simp add: send_packet_def append_buffer_def packet_def frame_packet_def ctr_text_append add.assoc)
  qed
qed

text \<open>The sizes and the buffers of a packet.\<close>

lemma packet_sizes:
  assumes "p \<noteq> ProtocolTypeEE" "len < 2 ^ 26" "p = ProtocolTypeEF \<longrightarrow> len mod 4 = 0"
  shows "\<exists>n. packet_sizes p (of_nat len) random encrypted = (length_field p len n, of_nat n, of_nat (length (packet_head p len n))) \<and> n \<le> 256 \<and>
    (p = ProtocolTypeEF \<longrightarrow> n = 0)"
proof (cases "p = ProtocolTypeEF")
  case True
  have u: "unat (of_nat len :: u32) = len" using assms(2) by (intro unat_small) simp
  have "unat (of_nat (len div 4) :: u32) = len div 4" using assms(2) by (intro unat_small) simp
  with u have d: "(of_nat len :: u32) div 4 = of_nat (len div 4)" "unat (of_nat len div 4 :: u32) = len div 4"
    by (simp_all add: word_unat_eq_iff unat_div)
  have "(of_nat len :: u32) div 4 < 0x7f \<longleftrightarrow> len div 4 < 127" by (simp add: word_less_nat_alt d(2))
  then show ?thesis using True d(1) by (intro exI [of _ 0]) (simp add: packet_sizes_def length_field_def packet_head_def)
next
  case False
  define m :: u32 where "m = (if \<not> encrypted then random mod 257 else random mod 16)"
  have "unat m \<le> 256" using mod_less_divisor [of 257 "unat random"] mod_less_divisor [of 16 "unat random"] by (auto simp: m_def unat_mod)
  moreover have "packet_sizes p (of_nat len) random encrypted = (of_nat len + m, m, 4)"
    using False assms(1) by (cases p) (simp_all add: packet_sizes_def m_def Let_def)
  ultimately show ?thesis using False by (intro exI [of _ "unat m"]) (simp add: length_field_def packet_head_def)
qed

lemma get_buffers:
  assumes fresh: "\<And>n. length (fresh n) = n" and ps: "storage_ok ps" "unat bl < 2 ^ 31" "n \<le> 256" "256 \<le> length random"
    and g: "get_buffers fresh bl (of_nat n) random ps = (b, buffer2, ps')"
  shows "buf_ok b" "buf_position b = 0" "buf_limit b = bl" "room b = unat bl" "storage_ok ps'"
    "case buffer2 of None \<Rightarrow> take n random = [] | Some pb \<Rightarrow> buf_ok pb \<and> buf_position pb = 0 \<and> rest pb = take n random"
proof -
  obtain b0 ps0 where g0: "getFreeBuffer fresh bl ps = (b0, ps0)" by fastforce
  from getFreeBuffer_ok [OF ps(1,2) fresh g0]
  have ok0: "storage_ok ps0" "buf_ok b0" "buf_position b0 = 0" "buf_limit b0 = bl" "room b0 = unat bl" by simp_all
  obtain pb ps1 where g1: "getFreeBuffer fresh (of_nat n) ps0 = (pb, ps1)" by fastforce
  have u: "unat (of_nat n :: u32) = n" using ps(3) by (intro unat_small) simp
  then have "unat (of_nat n :: u32) < 2 ^ 31" using ps(3) by simp
  from getFreeBuffer_ok [OF ok0(1) this fresh g1]
  have ok1: "storage_ok ps1" "buf_ok pb" "buf_position pb = 0" "room pb = n" by (simp_all add: u)
  let ?pb = "pb\<lparr>buffer := wr 0 (take n random) (buffer pb)\<rparr>"
  have "length (take n random) \<le> room pb" using ok1(4) ps(3,4) by simp
  from overwritten [OF ok1(2) this] have p: "buf_ok ?pb" "rest ?pb = take n random"
    using ok1(3,4) length_rest [OF ok1(2)] ps(3,4) by simp_all
  have e: "(b, buffer2, ps') = (if n = 0 then (b0, None, ps0) else (b0, Some ?pb, ps1))"
    using g g0 g1 u by (cases "n = 0") (auto simp: get_buffers_def word_less_nat_alt)
  then show "buf_ok b" "buf_position b = 0" "buf_limit b = bl" "room b = unat bl" "storage_ok ps'"
    "case buffer2 of None \<Rightarrow> take n random = [] | Some pb \<Rightarrow> buf_ok pb \<and> buf_position pb = 0 \<and> rest pb = take n random"
    using ok0 ok1 p by (auto split: if_splits)
qed

section \<open>The packets in the stream\<close>

lemma int_of_enc [simp]: "int_of_head (enc32 w @ ys) = w"
  using dec32 [of w] by (simp add: int_of_head_def enc32_def pack_def ac_simps)

lemma first_header_frame:
  assumes p: "p \<noteq> ProtocolTypeEE" and len: "length payload \<le> 2 ^ 21" "length pad \<le> 256"
    and EF: "p = ProtocolTypeEF \<longrightarrow> length payload mod 4 = 0 \<and> pad = []"
  shows "first_header p (frame_packet p payload pad @ ys) =
    Len (length payload + length pad) (length (packet_head p (length payload) (length pad)))"
proof (cases "p = ProtocolTypeEF")
  case True
  let ?n = "length payload div 4"
  have n: "?n \<le> 2 ^ 19" "4 * ?n = length payload" "pad = []" using len EF True by auto
  show ?thesis
  proof (cases "?n < 127")
    case small: True
    then have "unat (of_nat ?n :: u8) = ?n" by (simp add: unat_of_nat take_bit_nat_eq_self)
    then show ?thesis using True small n by (simp add: first_header_def frame_packet_def packet_head_def)
  next
    case False
    let ?w = "of_nat (256 * ?n + 127) :: u32"
    have u: "unat ?w = 256 * ?n + 127" using n(1) by (intro unat_small) simp
    have "unat (ucast ?w :: u8) = unat ?w mod 256" by (simp add: unsigned_ucast_eq take_bit_eq_mod)
    also have "\<dots> = 127" unfolding u by presburger
    finally have hd: "unat (hd (enc32 ?w @ zs)) = 127" for zs by (simp add: enc32_def)
    have "unat ?w div 256 = ?n" unfolding u by presburger
    moreover have "enc32 ?w \<noteq> []" "length (enc32 ?w) = 4" by (simp_all add: enc32_def)
    ultimately show ?thesis using True False n hd [of "payload @ ys"]
      by (simp add: first_header_def frame_packet_def packet_head_def del: of_nat_add of_nat_mult)
  qed
next
  case False
  let ?w = "of_nat (length payload + length pad) :: u32"
  have "unat ?w = length payload + length pad" using len by (intro unat_small) simp
  then show ?thesis using False len by (simp add: first_header_def frame_packet_def packet_head_def del: of_nat_add)
qed

lemma unframe_frame:
  assumes p: "p \<noteq> ProtocolTypeEE" and len: "length payload \<le> 2 ^ 21" "length pad \<le> 256"
    and EF: "p = ProtocolTypeEF \<longrightarrow> length payload mod 4 = 0 \<and> pad = []"
  shows "unframe p (frame_packet p payload pad @ ys) = (let (es, l) = unframe p ys in (Packet (payload @ pad) # es, l))"
proof -
  let ?h = "packet_head p (length payload) (length pad)"
  have "\<not> wrong_length p (length payload + length pad)" using p len EF by (cases p) (auto simp: wrong_length_def)
  moreover have "\<not> 2 ^ 31 \<le> length payload + length pad + length ?h" using len by (simp add: packet_head_def enc32_def)
  moreover have "take (length payload + length pad) (drop (length ?h) (frame_packet p payload pad @ ys)) = payload @ pad"
    "drop (length ?h + (length payload + length pad)) (frame_packet p payload pad @ ys) = ys"
    by (simp_all add: frame_packet_def)
  ultimately show ?thesis using first_header_frame [OF assms]
    by (subst unframe.simps) (simp add: frame_packet_def)
qed

section \<open>The start and the keys\<close>

text \<open>
  What the other side makes of the first 64 bytes: the key and the vector of the stream that it receives.  \<open>ak\<close> is the memory of its key.
\<close>

definition start_secret :: "(bytes \<Rightarrow> bytes) \<Rightarrow> nat \<Rightarrow> connection_settings \<Rightarrow> bytes \<Rightarrow> bytes" where
  "start_secret sha256 useSecret cfg start = encryptKeyWithSecret sha256 useSecret cfg (rd 8 48 start)"

definition peer_key ::
    "aes_platform \<Rightarrow> (bytes \<Rightarrow> bytes) \<Rightarrow> nat \<Rightarrow> connection_settings \<Rightarrow> aes_key \<Rightarrow> bytes \<Rightarrow> (int + aes_key) \<times> bytes" where
  "peer_key pf sha256 useSecret cfg ak start =
     (AES_set_encrypt_key pf (Some (start_secret sha256 useSecret cfg start)) 256 (Some ak), rd 32 16 (start_secret sha256 useSecret cfg start))"

lemma mark_start_fields:
  assumes "length bs = 64"
  shows "length (mark_start p useSecret cfg bs) = 64" "rd 56 4 (mark_start p useSecret cfg bs) = replicate 4 (protocol_tag p)"
  using assms by (simp_all add: mark_start_def Let_def rd_def list_eq_iff_nth_eq nth_list_update all_less_4)

lemma set_keys:
  assumes pf: "portable pf" and bs: "length bs = 64" and k: "k = start_secret sha256 useSecret cfg bs"
  shows "\<exists>start ek dk cs ds. set_keys pf sha256 useSecret cfg bs st =
      Some (start, st\<lparr>encryptKey := ek, encrypt_state := cs, decryptKey := dk, decrypt_state := ds, firstPacketSent := True\<rparr>) \<and>
    AES_set_encrypt_key pf (Some k) 256 (Some (encryptKey st)) = Inr ek \<and> stands (\<lambda>b. AES_encrypt pf b ek) (rd 32 16 k) 64 cs \<and>
    start = take 56 bs @ drop 56 (ctr_text (\<lambda>b. AES_encrypt pf b ek) (rd 32 16 k) 0 bs)"
proof -
  obtain ek where ek: "AES_set_encrypt_key pf (Some k) 256 (Some (encryptKey st)) = Inr ek" using key_exists [OF pf] by blast
  let ?E = "\<lambda>b. AES_encrypt pf b ek" and ?iv = "rd 32 16 k"
  define k2 where "k2 = encryptKeyWithSecret sha256 useSecret cfg (map (\<lambda>a. bs ! (55 - a)) [0..<48])"
  obtain dk where dk: "AES_set_encrypt_key pf (Some k2) 256 (Some (decryptKey st)) = Inr dk" using key_exists [OF pf] by blast
  have "map (\<lambda>a. bs ! (a + 8)) [0..<48] = rd 8 48 bs" using bs by (intro nth_equalityI) (simp_all add: rd_def add.commute)
  then have temp: "encryptKeyWithSecret sha256 useSecret cfg (map (\<lambda>a. bs ! (a + 8)) [0..<48]) = k" by (simp add: k start_secret_def)
  have "ctr_at ?E ?iv 0 ?iv (replicate 16 0) 0" by (simp add: ctr_at_def)
  from aes_ctr_run [OF this pf, of 0 64 64 "bs @ replicate 64 0"] bs obtain i e n where
    c: "AES_ctr128_encrypt pf 0 64 64 ek ?iv (replicate 16 0) 0 (bs @ replicate 64 0) =
        (wr 64 (ctr_text ?E ?iv 0 bs) (bs @ replicate 64 0), i, e, n)" "ctr_at ?E ?iv 64 i e n"
    by (auto simp: apart_def rd_def)
  let ?t = "ctr_text ?E ?iv 0 bs"
  have "rd (64 + 56) 8 (wr 64 ?t (bs @ replicate 64 0)) = drop 56 ?t" using bs by (simp add: rd_def wr_def)
  moreover have "wr 56 (drop 56 ?t) bs = take 56 bs @ drop 56 ?t" using bs by (simp add: wr_def)
  ultimately have "set_keys pf sha256 useSecret cfg bs st = Some (take 56 bs @ drop 56 ?t,
      st\<lparr>encryptKey := ek, encrypt_state := (i, e, n), decryptKey := dk, decrypt_state := (rd 32 16 k2, replicate 16 0, 0), firstPacketSent := True\<rparr>)"
    using ek dk c(1) by (simp add: set_keys_def temp k2_def [symmetric] Let_def)
  moreover have "stands ?E ?iv 64 (i, e, n)" using c(2) by (simp add: stands_def)
  ultimately show ?thesis using ek by blast
qed

section \<open>One packet after the other\<close>

definition sending_at :: "aes_platform \<Rightarrow> aes_key \<Rightarrow> bytes \<Rightarrow> nat \<Rightarrow> out_state \<Rightarrow> bool" where
  "sending_at pf key iv a st \<longleftrightarrow> firstPacketSent st \<and> encryptKey st = key \<and> storage_ok (send_pools st) \<and>
     stands (\<lambda>b. AES_encrypt pf b key) iv a (encrypt_state st)"

definition sendable :: "protocol \<Rightarrow> randomness \<Rightarrow> native_buffer \<Rightarrow> bool" where
  "sendable p rnd buff \<longleftrightarrow> buf_ok buff \<and> unat (buf_limit buff) \<le> 2 ^ 21 \<and> (p = ProtocolTypeEF \<longrightarrow> unat (buf_limit buff) mod 4 = 0) \<and>
     256 \<le> length (padding_random rnd)"

abbreviation payload_of :: "native_buffer \<Rightarrow> bytes" where
  "payload_of buff \<equiv> rest (rewind buff)"

text \<open>What \<open>RAND_bytes\<close> makes of the padding.\<close>

definition padding_ok :: "protocol \<Rightarrow> bytes \<Rightarrow> bool" where
  "padding_ok p pad \<longleftrightarrow> length pad \<le> 256 \<and> (p = ProtocolTypeEF \<longrightarrow> pad = [])"

text \<open>The preparations: the sizes are right and the buffers are there.\<close>

lemma prepared:
  assumes fresh: "\<And>n. length (fresh n) = n" and p: "p \<noteq> ProtocolTypeEE" and s: "sendable p rnd buff" and ps: "storage_ok ps"
    and extra: "unat extra \<le> 64"
  shows "\<exists>n b buffer2 ps'. packet_sizes p (buf_limit (rewind buff)) (size_random rnd) encrypted =
      (length_field p (length (payload_of buff)) n, of_nat n, of_nat (length (packet_head p (length (payload_of buff)) n))) \<and>
    get_buffers fresh (of_nat (length (packet_head p (length (payload_of buff)) n)) + extra) (of_nat n) (padding_random rnd) ps = (b, buffer2, ps') \<and>
    buf_ok b \<and> buf_position b = 0 \<and> unat (buf_limit b) = length (packet_head p (length (payload_of buff)) n) + unat extra \<and> storage_ok ps' \<and>
    (case buffer2 of None \<Rightarrow> take n (padding_random rnd) = [] | Some pb \<Rightarrow> buf_ok pb \<and> buf_position pb = 0 \<and> rest pb = take n (padding_random rnd)) \<and>
    length (take n (padding_random rnd)) = n \<and> padding_ok p (take n (padding_random rnd))"
proof -
  let ?len = "length (payload_of buff)"
  have ok: "buf_ok buff" "unat (buf_limit buff) \<le> 2 ^ 21" "p = ProtocolTypeEF \<longrightarrow> unat (buf_limit buff) mod 4 = 0"
    "256 \<le> length (padding_random rnd)" using s by (simp_all add: sendable_def)
  have len: "?len = unat (buf_limit buff)" using length_rest [OF rewound(1) [OF ok(1)]] by (simp add: room_def rewind_def)
  then have lim: "buf_limit (rewind buff) = of_nat ?len" by (simp add: rewind_def)
  obtain n where n: "packet_sizes p (of_nat ?len) (size_random rnd) encrypted = (length_field p ?len n, of_nat n, of_nat (length (packet_head p ?len n)))"
    "n \<le> 256" "p = ProtocolTypeEF \<longrightarrow> n = 0"
    using packet_sizes [OF p, of ?len "size_random rnd" encrypted] ok(2,3) len by auto
  let ?hd = "length (packet_head p ?len n)"
  have hd: "?hd \<le> 4" by (simp add: packet_head_def enc32_def)
  then have "unat (of_nat ?hd :: u32) = ?hd" by (intro unat_small) simp
  then have u: "unat (of_nat ?hd + extra) = ?hd + unat extra" using unat_add_small [of "of_nat ?hd" extra] hd extra by simp
  obtain b buffer2 ps' where g: "get_buffers fresh (of_nat ?hd + extra) (of_nat n) (padding_random rnd) ps = (b, buffer2, ps')"
    by (cases "get_buffers fresh (of_nat ?hd + extra) (of_nat n) (padding_random rnd) ps") auto
  have "unat (of_nat ?hd + extra) < 2 ^ 31" using u hd extra by simp
  note b = get_buffers [OF fresh ps this n(2) ok(4) g]
  show ?thesis using n g b u ok(4) lim by (intro exI [of _ n] exI [of _ b] exI [of _ buffer2] exI [of _ ps']) (simp add: padding_ok_def)
qed

lemma send_more:
  assumes pf: "portable pf" and fresh: "\<And>n. length (fresh n) = n"
    and st: "sending_at pf key iv a st" "currentProtocolType st \<noteq> ProtocolTypeEE" "sendable (currentProtocolType st) rnd buff"
  shows "\<exists>st' pad. sendData pf sha256 fresh cfg rnd False (Some buff) False encrypted st = Some st' \<and>
    padding_ok (currentProtocolType st) pad \<and> currentProtocolType st' = currentProtocolType st \<and>
    sending_at pf key iv (a + length (frame_packet (currentProtocolType st) (payload_of buff) pad)) st' \<and>
    stream_bytes (outgoing st') = stream_bytes (outgoing st) @
      ctr_text (\<lambda>b. AES_encrypt pf b key) iv a (frame_packet (currentProtocolType st) (payload_of buff) pad)"
proof -
  let ?p = "currentProtocolType st"
  have s: "firstPacketSent st" "encryptKey st = key" "storage_ok (send_pools st)" "stands (\<lambda>b. AES_encrypt pf b key) iv a (encrypt_state st)"
    using st(1) by (simp_all add: sending_at_def)
  from prepared [OF fresh st(2,3) s(3), of 0 encrypted] obtain n b buffer2 ps' where
    b: "packet_sizes ?p (buf_limit (rewind buff)) (size_random rnd) encrypted =
      (length_field ?p (length (payload_of buff)) n, of_nat n, of_nat (length (packet_head ?p (length (payload_of buff)) n)))"
    "get_buffers fresh (of_nat (length (packet_head ?p (length (payload_of buff)) n))) (of_nat n) (padding_random rnd) (send_pools st) = (b, buffer2, ps')"
    "buf_ok b" "buf_position b = 0" "unat (buf_limit b) = length (packet_head ?p (length (payload_of buff)) n)" "storage_ok ps'"
    "case buffer2 of None \<Rightarrow> take n (padding_random rnd) = [] | Some pb \<Rightarrow> buf_ok pb \<and> buf_position pb = 0 \<and> rest pb = take n (padding_random rnd)"
    "length (take n (padding_random rnd)) = n" "padding_ok ?p (take n (padding_random rnd))"
    by (auto simp del: length_take)
  let ?pad = "take n (padding_random rnd)"
  have room: "room b = length (packet_head ?p (length (payload_of buff)) (length ?pad))" using b(4,5,8) by (simp add: room_def)
  have buff: "buf_ok (rewind buff)" "buf_position (rewind buff) = 0" "length (payload_of buff) < 2 ^ 26 \<or> ?p \<noteq> ProtocolTypeEF"
    using st(3) rewound(1,2) [of buff] length_rest [OF rewound(1), of buff] by (auto simp: sendable_def room_def rewind_def)
  from send_packet [OF s(4) pf b(3) room buff b(7), of "outgoing st"] obtain cs' queue' where
    q: "send_packet pf key ?p (length_field ?p (length (payload_of buff)) n) False b (rewind buff) buffer2 (encrypt_state st) (outgoing st) = (cs', queue')"
      "stream_bytes queue' = stream_bytes (outgoing st) @ behind b @ ctr_text (\<lambda>b. AES_encrypt pf b key) iv a (frame_packet ?p (payload_of buff) ?pad)"
      "stands (\<lambda>b. AES_encrypt pf b key) iv (a + length (frame_packet ?p (payload_of buff) ?pad)) cs'"
    unfolding b(8) by blast
  have "sendData pf sha256 fresh cfg rnd False (Some buff) False encrypted st =
      Some (st\<lparr>send_pools := ps', encrypt_state := cs', outgoing := queue'\<rparr>)"
    using s(1,2) b(1,2) q(1) by (simp add: sendData_def Let_def)
  moreover have "behind b = []" using b(4) by (simp add: behind_def)
  ultimately show ?thesis using s q b(6,9)
    by (intro exI [of _ "st\<lparr>send_pools := ps', encrypt_state := cs', outgoing := queue'\<rparr>"] exI [of _ ?pad]) (simp add: sending_at_def)
qed

text \<open>The start as it is sent, for the random bytes that were taken: the last eight are encrypted.\<close>

definition start_of :: "aes_platform \<Rightarrow> aes_key \<Rightarrow> bytes \<Rightarrow> bytes \<Rightarrow> bytes" where
  "start_of pf key k bs = take 56 bs @ drop 56 (ctr_text (\<lambda>b. AES_encrypt pf b key) (rd 32 16 k) 0 bs)"

lemma first_packet_peer:
  assumes pf: "portable pf" and rs: "random_start (currentProtocolType st) rs = Some bs" "length bs = 64"
    and b: "buf_ok b" "64 \<le> unat (buf_limit b)"
    and m: "m = mark_start (currentProtocolType st) useSecret cfg bs" and k: "k = start_secret sha256 useSecret cfg m"
  shows "\<exists>b' ek dk cs ds. first_packet pf sha256 rs useSecret cfg b st =
      Some (b', st\<lparr>encryptKey := ek, encrypt_state := cs, decryptKey := dk, decrypt_state := ds, firstPacketSent := True\<rparr>) \<and>
    AES_set_encrypt_key pf (Some k) 256 (Some (encryptKey st)) = Inr ek \<and> stands (\<lambda>b. AES_encrypt pf b ek) (rd 32 16 k) 64 cs \<and>
    buf_ok b' \<and> behind b' = start_of pf ek k m \<and> room b' = unat (buf_limit b) - 64"
proof -
  have lm: "length m = 64" using mark_start_fields(1) [OF rs(2)] by (simp add: m)
  from set_keys [OF pf lm k, of st] obtain ek dk cs ds where
    keys: "set_keys pf sha256 useSecret cfg m st = Some (start_of pf ek k m,
        st\<lparr>encryptKey := ek, encrypt_state := cs, decryptKey := dk, decrypt_state := ds, firstPacketSent := True\<rparr>)"
      "AES_set_encrypt_key pf (Some k) 256 (Some (encryptKey st)) = Inr ek" "stands (\<lambda>b. AES_encrypt pf b ek) (rd 32 16 k) 64 cs"
    unfolding start_of_def by blast
  let ?start = "start_of pf ek k m"
  have ls: "length ?start = 64" using lm by (simp add: start_of_def)
  have pos: "set_position 64 b = b\<lparr>buf_position := 64\<rparr>" using b(2) by (simp add: set_position_def word_less_nat_alt not_less)
  let ?b = "b\<lparr>buf_position := 64, buffer := wr 0 ?start (buffer b)\<rparr>"
  have "64 \<le> length (buffer b)" using buf_okD [OF b(1)] b(2) by linarith
  then have "buf_ok ?b" "behind ?b = ?start" "room ?b = unat (buf_limit b) - 64"
    using b ls by (simp_all add: buf_ok_def behind_def room_def wr_def word_le_nat_alt)
  moreover have "first_packet pf sha256 rs useSecret cfg b st = Some (?b,
      st\<lparr>encryptKey := ek, encrypt_state := cs, decryptKey := dk, decrypt_state := ds, firstPacketSent := True\<rparr>)"
    using rs(1) keys(1) pos by (simp add: first_packet_def m)
  ultimately show ?thesis using keys(2,3) by blast
qed

lemma send_first:
  assumes pf: "portable pf" and fresh: "\<And>n. length (fresh n) = n"
    and st: "\<not> firstPacketSent st" "storage_ok (send_pools st)"
    and p: "p = choose_protocol (use_secret cfg) cfg" "sendable p rnd buff"
    and rs: "random_start p (starts rnd) = Some bs" "length bs = 64"
    and m: "m = mark_start p (use_secret cfg) cfg bs" and k: "k = start_secret sha256 (use_secret cfg) cfg m"
  shows "\<exists>st' pad ek. sendData pf sha256 fresh cfg rnd False (Some buff) False encrypted st = Some st' \<and>
    padding_ok p pad \<and> currentProtocolType st' = p \<and> AES_set_encrypt_key pf (Some k) 256 (Some (encryptKey st)) = Inr ek \<and>
    sending_at pf ek (rd 32 16 k) (64 + length (frame_packet p (payload_of buff) pad)) st' \<and>
    stream_bytes (outgoing st') = stream_bytes (outgoing st) @ start_of pf ek k m @
      ctr_text (\<lambda>b. AES_encrypt pf b ek) (rd 32 16 k) 64 (frame_packet p (payload_of buff) pad)"
proof -
  have np: "p \<noteq> ProtocolTypeEE" by (simp add: p(1) choose_protocol_def Let_def)
  let ?st = "st\<lparr>currentProtocolType := p\<rparr>"
  from prepared [OF fresh np p(2) st(2), of 64 encrypted] obtain n b buffer2 ps' where
    b: "packet_sizes p (buf_limit (rewind buff)) (size_random rnd) encrypted =
      (length_field p (length (payload_of buff)) n, of_nat n, of_nat (length (packet_head p (length (payload_of buff)) n)))"
    "get_buffers fresh (of_nat (length (packet_head p (length (payload_of buff)) n)) + 64) (of_nat n) (padding_random rnd) (send_pools st) = (b, buffer2, ps')"
    "buf_ok b" "unat (buf_limit b) = length (packet_head p (length (payload_of buff)) n) + 64" "storage_ok ps'"
    "case buffer2 of None \<Rightarrow> take n (padding_random rnd) = [] | Some pb \<Rightarrow> buf_ok pb \<and> buf_position pb = 0 \<and> rest pb = take n (padding_random rnd)"
    "length (take n (padding_random rnd)) = n" "padding_ok p (take n (padding_random rnd))"
    by (auto simp del: length_take)
  let ?pad = "take n (padding_random rnd)"
  let ?st = "st\<lparr>currentProtocolType := p, send_pools := ps'\<rparr>"
  have "64 \<le> unat (buf_limit b)" "random_start (currentProtocolType ?st) (starts rnd) = Some bs"
    "m = mark_start (currentProtocolType ?st) (use_secret cfg) cfg bs" using b(4) rs(1) m by simp_all
  from first_packet_peer [OF pf this(2) rs(2) b(3) this(1,3) k] obtain b' ek dk cs ds where
    f: "first_packet pf sha256 (starts rnd) (use_secret cfg) cfg b ?st =
        Some (b', ?st\<lparr>encryptKey := ek, encrypt_state := cs, decryptKey := dk, decrypt_state := ds, firstPacketSent := True\<rparr>)"
      "AES_set_encrypt_key pf (Some k) 256 (Some (encryptKey st)) = Inr ek" "stands (\<lambda>b. AES_encrypt pf b ek) (rd 32 16 k) 64 cs"
      "buf_ok b'" "behind b' = start_of pf ek k m" "room b' = length (packet_head p (length (payload_of buff)) (length ?pad))"
    using b(4,7) by (simp del: length_take) blast
  have buff: "buf_ok (rewind buff)" "buf_position (rewind buff) = 0" "length (payload_of buff) < 2 ^ 26 \<or> p \<noteq> ProtocolTypeEF"
    using p(2) rewound(1,2) [of buff] length_rest [OF rewound(1), of buff] by (auto simp: sendable_def room_def rewind_def)
  from send_packet [OF f(3) pf f(4,6) buff b(6), of "outgoing st"] obtain cs' queue' where
    q: "send_packet pf ek p (length_field p (length (payload_of buff)) n) False b' (rewind buff) buffer2 cs (outgoing st) = (cs', queue')"
      "stream_bytes queue' = stream_bytes (outgoing st) @ behind b' @ ctr_text (\<lambda>b. AES_encrypt pf b ek) (rd 32 16 k) 64 (frame_packet p (payload_of buff) ?pad)"
      "stands (\<lambda>b. AES_encrypt pf b ek) (rd 32 16 k) (64 + length (frame_packet p (payload_of buff) ?pad)) cs'"
    unfolding b(7) by blast
  let ?st' = "?st\<lparr>encryptKey := ek, encrypt_state := cs', decryptKey := dk, decrypt_state := ds, firstPacketSent := True, outgoing := queue'\<rparr>"
  have "sendData pf sha256 fresh cfg rnd False (Some buff) False encrypted st = Some ?st'"
    using st(1) p(1) b(1,2) f(1) q(1) by (simp add: sendData_def Let_def)
  then show ?thesis using b(5,8) f(2,5) q(2,3)
    by (intro exI [of _ ?st'] exI [of _ ?pad] exI [of _ ek]) (simp add: sending_at_def)
qed

type_synonym sending = "randomness \<times> native_buffer \<times> bool"

fun send_all ::
    "aes_platform \<Rightarrow> (bytes \<Rightarrow> bytes) \<Rightarrow> (nat \<Rightarrow> bytes) \<Rightarrow> connection_settings \<Rightarrow> sending list \<Rightarrow> out_state \<Rightarrow> out_state option" where
  "send_all pf sha256 fresh cfg [] st = Some st"
| "send_all pf sha256 fresh cfg ((rnd, buff, encrypted) # xs) st =
     (case sendData pf sha256 fresh cfg rnd False (Some buff) False encrypted st of
        None \<Rightarrow> None | Some st \<Rightarrow> send_all pf sha256 fresh cfg xs st)"

abbreviation sent_payload :: "sending \<Rightarrow> bytes" where
  "sent_payload x \<equiv> payload_of (fst (snd x))"

abbreviation frames :: "protocol \<Rightarrow> sending list \<Rightarrow> bytes list \<Rightarrow> bytes" where
  "frames p xs pads \<equiv> concat (map2 (\<lambda>x pad. frame_packet p (sent_payload x) pad) xs pads)"

lemma send_all_more:
  assumes pf: "portable pf" and fresh: "\<And>n. length (fresh n) = n" and p: "p \<noteq> ProtocolTypeEE"
  shows "sending_at pf key iv a st \<Longrightarrow> currentProtocolType st = p \<Longrightarrow> \<forall>(rnd, buff, e) \<in> set xs. sendable p rnd buff \<Longrightarrow>
    \<exists>st' pads. send_all pf sha256 fresh cfg xs st = Some st' \<and> length pads = length xs \<and> list_all (padding_ok p) pads \<and>
      stream_bytes (outgoing st') = stream_bytes (outgoing st) @ ctr_text (\<lambda>b. AES_encrypt pf b key) iv a (frames p xs pads)"
proof (induction xs arbitrary: st a)
  case Nil
  then show ?case by (intro exI [of _ st] exI [of _ "[]"]) simp
next
  case (Cons x xs)
  obtain rnd buff e where x: "x = (rnd, buff, e)" by (cases x)
  have ok: "sendable p rnd buff" "\<forall>(rnd, buff, e) \<in> set xs. sendable p rnd buff" using Cons.prems(3) by (auto simp: x)
  from send_more [OF pf fresh Cons.prems(1), of rnd buff sha256 cfg e] ok(1) p Cons.prems(2) obtain st1 pad where
    one: "sendData pf sha256 fresh cfg rnd False (Some buff) False e st = Some st1" "padding_ok p pad" "currentProtocolType st1 = p"
      "sending_at pf key iv (a + length (frame_packet p (payload_of buff) pad)) st1"
      "stream_bytes (outgoing st1) = stream_bytes (outgoing st) @ ctr_text (\<lambda>b. AES_encrypt pf b key) iv a (frame_packet p (payload_of buff) pad)"
    by auto
  from Cons.IH [OF one(4,3) ok(2)] obtain st' pads where
    "send_all pf sha256 fresh cfg xs st1 = Some st'" "length pads = length xs" "list_all (padding_ok p) pads"
    "stream_bytes (outgoing st') = stream_bytes (outgoing st1) @
       ctr_text (\<lambda>b. AES_encrypt pf b key) iv (a + length (frame_packet p (payload_of buff) pad)) (frames p xs pads)" by blast
  then show ?case using one by (intro exI [of _ st'] exI [of _ "pad # pads"]) (simp add: x ctr_text_append)
qed

lemma unframe_frames:
  assumes "p \<noteq> ProtocolTypeEE"
  shows "length pads = length xs \<Longrightarrow> list_all (padding_ok p) pads \<Longrightarrow> \<forall>(rnd, buff, e) \<in> set xs. sendable p rnd buff \<Longrightarrow>
    unframe p (frames p xs pads) = (map2 (\<lambda>x pad. Packet (sent_payload x @ pad)) xs pads, Left [])"
proof (induction xs pads rule: list_induct2')
  case 1
  then show ?case by (simp add: unframe.simps first_header_def)
next
  case (4 x xs pad pads)
  obtain rnd buff e where x: "x = (rnd, buff, e)" by (cases x)
  have s: "sendable p rnd buff" using 4 by (auto simp: x)
  then have len: "length (payload_of buff) = unat (buf_limit buff)" using length_rest [OF rewound(1), of buff] by (simp add: sendable_def room_def rewind_def)
  have "unframe p (frame_packet p (payload_of buff) pad @ frames p xs pads) =
      (let (es, l) = unframe p (frames p xs pads) in (Packet (payload_of buff @ pad) # es, l))"
    using s 4(3) len by (intro unframe_frame [OF assms]) (auto simp: sendable_def padding_ok_def)
  then show ?case using 4 by (simp add: x)
qed simp_all

section \<open>The other side\<close>

text \<open>
  It takes the keys out of the first 64 bytes, decrypts them and looks at the tag, and reads the rest as a connection reads, in the
  chunks that the network makes of it.
\<close>

definition peer_receive ::
    "aes_platform \<Rightarrow> (bytes \<Rightarrow> bytes) \<Rightarrow> (nat \<Rightarrow> bytes) \<Rightarrow> connection_settings \<Rightarrow> aes_key \<Rightarrow> (bytes \<Rightarrow> native_buffer list) \<Rightarrow>
       packet_state \<Rightarrow> bytes \<Rightarrow> bytes \<times> (packet_event list \<times> ctr_state \<times> packet_state) option" where
  "peer_receive pf sha256 fresh cfg ak chop s stream =
     (case peer_key pf sha256 (use_secret cfg) cfg ak (take 64 stream) of
        (Inr key, iv) \<Rightarrow>
          (let (mem, cs) = AES_ctr128_encrypt pf 0 0 64 key iv (replicate 16 0) 0 (take 64 stream)
           in (rd 56 4 mem, receive_chunks pf key fresh (choose_protocol (use_secret cfg) cfg) (chop (drop 64 stream)) (cs, s)))
      | (Inl _, _) \<Rightarrow> ([], None))"

text \<open>The decrypted start, and where the key stream then stands.\<close>

lemma peer_reads_start:
  assumes pf: "portable pf" and m: "length m = 64" and k: "k = start_secret sha256 useSecret cfg m"
    and sha: "\<And>x. length (sha256 x) = 32"
  shows "start_secret sha256 useSecret cfg (start_of pf key k m) = k" "length (start_of pf key k m) = 64"
    "\<exists>mem cs. AES_ctr128_encrypt pf 0 0 64 key (rd 32 16 k) (replicate 16 0) 0 (start_of pf key k m) = (mem, cs) \<and>
      rd 56 4 mem = rd 56 4 m \<and> stands (\<lambda>b. AES_encrypt pf b key) (rd 32 16 k) 64 cs"
proof -
  let ?E = "\<lambda>b. AES_encrypt pf b key" and ?iv = "rd 32 16 k" and ?start = "start_of pf key k m"
  show ls: "length ?start = 64" using m by (simp add: start_of_def)
  have "rd 8 48 ?start = rd 8 48 m" using m by (simp add: start_of_def rd_def take_drop)
  then show "start_secret sha256 useSecret cfg ?start = k" by (simp add: k start_secret_def)
  have "ctr_at ?E ?iv 0 ?iv (replicate 16 0) 0" by (simp add: ctr_at_def)
  from aes_ctr_run [OF this pf, of 0 0 64 ?start] ls obtain i e n where
    c: "AES_ctr128_encrypt pf 0 0 64 key ?iv (replicate 16 0) 0 ?start = (ctr_text ?E ?iv 0 ?start, i, e, n)" "ctr_at ?E ?iv 64 i e n"
    by (auto simp: apart_def rd_def wr_def)
  have "drop 56 (ctr_text ?E ?iv 0 ?start) = drop 56 m"
  proof (rule nth_equalityI)
    fix j assume "j < length (drop 56 (ctr_text ?E ?iv 0 ?start))"
    then have j: "j < 8" using ls by simp
    have "?start ! (56 + j) = ctr_text ?E ?iv 0 m ! (56 + j)" using m j by (simp add: start_of_def nth_append)
    then have "ctr_text ?E ?iv 0 ?start ! (56 + j) = ctr_text ?E ?iv 0 (ctr_text ?E ?iv 0 m) ! (56 + j)"
      using m j ls by (simp add: ctr_text_nth del: ctr_text_involution)
    then show "drop 56 (ctr_text ?E ?iv 0 ?start) ! j = drop 56 m ! j" using m j ls by (simp add: ctr_text_involution)
  qed (use m ls in simp)
  then have "rd 56 4 (ctr_text ?E ?iv 0 ?start) = rd 56 4 m" by (simp add: rd_def)
  then show "\<exists>mem cs. AES_ctr128_encrypt pf 0 0 64 key ?iv (replicate 16 0) 0 ?start = (mem, cs) \<and> rd 56 4 mem = rd 56 4 m \<and> stands ?E ?iv 64 cs"
    using c by (auto simp: stands_def)
qed

text \<open>
  C17. What a connection sends, the other side gets: from the first 64 bytes it finds the tag of the protocol and the keys, and in the rest,
  however the network cuts it, exactly the packets that were sent, in order, each with its padding behind it.  (None of them asks
  for an acknowledgement, and none is larger than 2 MiB.)
\<close>

theorem sent_packets_received:
  assumes "portable pf" "\<And>n. length (fresh n) = n" "\<And>x. length (sha256 x) = 32"
    and "\<not> firstPacketSent st" "outgoing st = []" "storage_ok (send_pools st)" "aes_key_storage (encryptKey st)" "aes_key_storage ak"
    and "p = choose_protocol (use_secret cfg) cfg" "\<forall>(rnd, buff, encrypted) \<in> set ((rnd, buff, encrypted) # xs). sendable p rnd buff"
    and "random_start p (starts rnd) = Some bs" "length bs = 64"
    and "\<And>stream. stream_bytes (chop stream) = stream" "\<And>stream. \<forall>b \<in> set (chop stream). chunk_ok b"
    and "storage_ok (pools s)" "restOfTheData s = None"
  shows "\<exists>st' pads c' s'. send_all pf sha256 fresh cfg ((rnd, buff, encrypted) # xs) st = Some st' \<and>
    length pads = Suc (length xs) \<and> list_all (padding_ok p) pads \<and>
    peer_receive pf sha256 fresh cfg ak chop s (stream_bytes (outgoing st')) =
      (replicate 4 (protocol_tag p),
       Some (map2 (\<lambda>x pad. Packet (sent_payload x @ pad)) ((rnd, buff, encrypted) # xs) pads, c', s')) \<and> held s' = []"
proof -
  let ?xs = "(rnd, buff, encrypted) # xs"
  have p: "p \<noteq> ProtocolTypeEE" by (simp add: assms(9) choose_protocol_def Let_def)
  have ok: "sendable p rnd buff" "\<forall>(rnd, buff, e) \<in> set xs. sendable p rnd buff" using assms(10) by auto
  define m where "m = mark_start p (use_secret cfg) cfg bs"
  define k where "k = start_secret sha256 (use_secret cfg) cfg m"
  note m = mark_start_fields [OF assms(12), of p "use_secret cfg" cfg, folded m_def]
  from send_first [OF assms(1,2,4,6,9) ok(1) assms(11,12) m_def k_def, of encrypted] obtain st1 pad ek where
    one: "sendData pf sha256 fresh cfg rnd False (Some buff) False encrypted st = Some st1" "padding_ok p pad" "currentProtocolType st1 = p"
      "AES_set_encrypt_key pf (Some k) 256 (Some (encryptKey st)) = Inr ek"
      "sending_at pf ek (rd 32 16 k) (64 + length (frame_packet p (payload_of buff) pad)) st1"
      "stream_bytes (outgoing st1) = start_of pf ek k m @ ctr_text (\<lambda>b. AES_encrypt pf b ek) (rd 32 16 k) 64 (frame_packet p (payload_of buff) pad)"
    using assms(5) by auto
  let ?E = "\<lambda>b. AES_encrypt pf b ek" and ?iv = "rd 32 16 k" and ?start = "start_of pf ek k m"
  from send_all_more [OF assms(1,2) p one(5,3) ok(2), of sha256 cfg] obtain st' pads where
    more: "send_all pf sha256 fresh cfg xs st1 = Some st'" "length pads = length xs" "list_all (padding_ok p) pads"
      "stream_bytes (outgoing st') = stream_bytes (outgoing st1) @
         ctr_text ?E ?iv (64 + length (frame_packet p (payload_of buff) pad)) (frames p xs pads)" by blast
  let ?pads = "pad # pads" and ?s = "stream_bytes (outgoing st')"
  have stream: "?s = ?start @ ctr_text ?E ?iv 64 (frames p ?xs ?pads)" using one(6) more(4) by (simp add: ctr_text_append)
  note peer = peer_reads_start [OF assms(1) m(1) k_def assms(3), of ek]
  have halves: "take 64 ?s = ?start" "drop 64 ?s = ctr_text ?E ?iv 64 (frames p ?xs ?pads)" using peer(2) stream by simp_all
  obtain ek' where ek': "AES_set_encrypt_key pf (Some k) 256 (Some ak) = Inr ek'" using key_exists [OF assms(1)] by blast
  with same_key [OF assms(1) one(4) ek' assms(7,8)]
  have key: "peer_key pf sha256 (use_secret cfg) cfg ak (take 64 ?s) = (Inr ek, ?iv)" unfolding halves(1) by (simp add: peer_key_def peer(1))
  obtain mem i e n where c: "AES_ctr128_encrypt pf 0 0 64 ek ?iv (replicate 16 0) 0 ?start = (mem, (i, e, n))"
    "rd 56 4 mem = rd 56 4 m" "ctr_at ?E ?iv 64 i e n" using peer(3) by (auto simp: stands_def)
  have pads: "length ?pads = length ?xs" "list_all (padding_ok p) ?pads" using more(2,3) one(2) by simp_all
  let ?es = "map2 (\<lambda>x pad. Packet (sent_payload x @ pad)) ?xs ?pads"
  have u: "unframe p (ctr_text ?E ?iv 64 (stream_bytes (chop (drop 64 ?s)))) = (?es, Left [])"
    unfolding assms(13) halves(2) ctr_text_involution by (rule unframe_frames [OF p pads assms(10)])
  have "between p s" "held s = []" using assms(15,16) by (simp_all add: between_def held_def)
  moreover have "unframe p [] = ([], Left [])" by (simp add: unframe.simps first_header_def)
  moreover have "no_acks ?es" by (auto simp: list_all_iff)
  ultimately obtain c' s' where r: "receive_chunks pf ek fresh p (chop (drop 64 ?s)) ((i, e, n), s) = Some (?es, c', s')" "outcome p (Left []) s'"
    using chunks_unframe [OF assms(2,1) _ assms(14) _ c(3), of p s "drop 64 ?s" ?es "Left []"] u by auto
  have "peer_receive pf sha256 fresh cfg ak chop s ?s = (replicate 4 (protocol_tag p), Some (?es, c', s'))"
    unfolding peer_receive_def halves(1) key [unfolded halves(1)] prod.case sum.case c(1) Let_def using r(1) c(2) m(2) assms(9) by simp
  moreover have "send_all pf sha256 fresh cfg ?xs st = Some st'" using one(1) more(1) by simp
  ultimately show ?thesis using pads r(2) by (intro exI [of _ st'] exI [of _ ?pads] exI [of _ c'] exI [of _ s']) (simp add: outcome_def)
qed

definition sample_settings :: connection_settings where
  "sample_settings = \<lparr>overrideProxyAddress = [], overrideProxySecret = [], conn_secret = 0xdd # replicate 16 7, proxyAddress = [],
     proxySecret = [], isMediaConnection = True, datacenterId = 2\<rparr>"

definition sample_out :: out_state where
  "sample_out = \<lparr>firstPacketSent = False, currentProtocolType = ProtocolTypeEE, encryptKey = blank_aes_key,
     encrypt_state = (replicate 16 0, replicate 16 0, 0), decryptKey = blank_aes_key, decrypt_state = (replicate 16 0, replicate 16 0, 0),
     outgoing = [], send_pools = new_storage zeros\<rparr>"

definition sample_randomness :: "u32 \<Rightarrow> randomness" where
  "sample_randomness r = \<lparr>starts = [replicate 64 0xdd, replicate 64 9], size_random = r, padding_random = replicate 256 5\<rparr>"

definition sample_sha :: "bytes \<Rightarrow> bytes" where
  "sample_sha bs = take 32 (bs @ replicate 32 0)"

theorem sent_packets_received_witness:
  "\<exists>st' pads c' s'. send_all portable_platform sample_sha zeros sample_settings
      [(sample_randomness 18, sample_chunk [1, 2, 3, 4], True), (sample_randomness 600, sample_chunk [5, 6, 7, 8], False)] sample_out = Some st' \<and>
    peer_receive portable_platform sample_sha zeros sample_settings blank_aes_key (map (\<lambda>x. sample_chunk [x])) sample_packets
      (stream_bytes (outgoing st')) = ([0xdd, 0xdd, 0xdd, 0xdd], Some ([Packet ([1, 2, 3, 4] @ pads ! 0), Packet ([5, 6, 7, 8] @ pads ! 1)], c', s')) \<and>
    held s' = []"
proof -
  let ?cfg = sample_settings and ?x = "(sample_randomness 600, sample_chunk [5, 6, 7, 8], False)"
  have z: "length (zeros n) = n" for n by (simp add: zeros_def)
  have sha: "length (sample_sha x) = 32" for x by (simp add: sample_sha_def)
  have p: "ProtocolTypeDD = choose_protocol (use_secret ?cfg) ?cfg"
    by (simp add: sample_settings_def choose_protocol_def use_secret_def getCurrentSecret_def)
  have start: "random_start ProtocolTypeDD (starts (sample_randomness 18)) = Some (replicate 64 9)"
    by (simp add: sample_randomness_def acceptable_def pack_def)
  have one: "chunk_ok (sample_chunk [x])" "rest (sample_chunk [x]) = [x]" for x using sample_chunk [of "[x]"] by simp_all
  have chop: "stream_bytes (map (\<lambda>x. sample_chunk [x]) stream) = stream" for stream by (induction stream) (simp_all add: one)
  have pay: "payload_of (sample_chunk bs) = bs" "buf_ok (sample_chunk bs)" "unat (buf_limit (sample_chunk bs)) = length bs" if "length bs = 4" for bs
    using sample_chunk [of bs] that rewound [of "sample_chunk bs"] length_rest [of "sample_chunk bs"]
    by (auto simp: sample_chunk_def new_buffer_def rewind_def)
  have ok: "\<forall>(rnd, buff, encrypted) \<in> set ((sample_randomness 18, sample_chunk [1, 2, 3, 4], True) # [?x]). sendable ProtocolTypeDD rnd buff"
    using pay [of "[1, 2, 3, 4]"] pay [of "[5, 6, 7, 8]"] by (simp add: sendable_def sample_randomness_def)
  have st: "\<not> firstPacketSent sample_out" "outgoing sample_out = []" "storage_ok (send_pools sample_out)" "aes_key_storage (encryptKey sample_out)"
    by (simp_all add: sample_out_def zeros_storage)
  have s: "storage_ok (pools sample_packets)" "restOfTheData sample_packets = None" by (simp_all add: sample_packets_def zeros_storage)
  have chunks: "\<forall>b \<in> set (map (\<lambda>x. sample_chunk [x]) stream). chunk_ok b" for stream using one(1) by simp
  from sent_packets_received [where ?sha256.0 = sample_sha and fresh = zeros and chop = "map (\<lambda>x. sample_chunk [x])",
      OF portable_platform z sha st blank_aes_key p ok start _ chop chunks s]
  obtain st' pads c' s' where r: "send_all portable_platform sample_sha zeros ?cfg ((sample_randomness 18, sample_chunk [1, 2, 3, 4], True) # [?x]) sample_out = Some st'"
    "length pads = Suc (length [?x])" "peer_receive portable_platform sample_sha zeros ?cfg blank_aes_key (map (\<lambda>x. sample_chunk [x])) sample_packets
      (stream_bytes (outgoing st')) = (replicate 4 (protocol_tag ProtocolTypeDD), Some (map2 (\<lambda>x pad. Packet (sent_payload x @ pad))
         ((sample_randomness 18, sample_chunk [1, 2, 3, 4], True) # [?x]) pads, c', s'))" "held s' = []"
    by (auto simp del: send_all.simps)
  obtain a b where "pads = [a, b]" using r(2) by (auto simp: length_Suc_conv)
  then have "map2 (\<lambda>x pad. Packet (sent_payload x @ pad)) ((sample_randomness 18, sample_chunk [1, 2, 3, 4], True) # [?x]) pads =
      [Packet ([1, 2, 3, 4] @ pads ! 0), Packet ([5, 6, 7, 8] @ pads ! 1)]"
    using pay(1) [of "[1, 2, 3, 4]"] pay(1) [of "[5, 6, 7, 8]"] by simp
  moreover have "replicate 4 (protocol_tag ProtocolTypeDD) = [0xdd, 0xdd, 0xdd, 0xdd]" by (simp add: protocol_tag_def numeral_eq_Suc)
  ultimately show ?thesis using r(1,3,4) by (intro exI [of _ st'] exI [of _ pads] exI [of _ c'] exI [of _ s']) (simp del: send_all.simps)
qed

end
