(* ===== verification/ServerSalts.thy ===== *)
theory ServerSalts
  imports Prelude
begin

text \<open>
  The salts of a datacenter, \<^verbatim>\<open>app/jni/tgnet/Datacenter.cpp\<close>: numbers that the server hands out, each for some time, and of
  which every message carries one that is valid.
\<close>

section \<open>The operations\<close>

record future_salt =
  valid_since :: int
  valid_until :: int
  salt :: u64

text \<open>The lists of the general and of the media connections.\<close>

record server_salts =
  serverSalts :: "future_salt list"
  mediaServerSalts :: "future_salt list"

definition salts_of :: "bool \<Rightarrow> server_salts \<Rightarrow> future_salt list" where
  "salts_of media d = (if media then mediaServerSalts d else serverSalts d)"

definition put_salts :: "bool \<Rightarrow> future_salt list \<Rightarrow> server_salts \<Rightarrow> server_salts" where
  "put_salts media salts d = (if media then d\<lparr>mediaServerSalts := salts\<rparr> else d\<lparr>serverSalts := salts\<rparr>)"

definition clearServerSalts :: "bool \<Rightarrow> server_salts \<Rightarrow> server_salts" where
  "clearServerSalts media d = put_salts media [] d"

text \<open>The loop that chooses: whether one has expired, the best so far, and how long that one is still valid.\<close>

definition choose_salt :: "int \<Rightarrow> bool \<times> u64 \<times> int \<Rightarrow> future_salt \<Rightarrow> bool \<times> u64 \<times> int" where
  "choose_salt date r s =
     (let (cleanupNeeded, result, maxRemainingInterval) = r
      in if valid_until s < date then (True, result, maxRemainingInterval)
         else if valid_since s \<le> date \<and> valid_until s > date \<and>
             (maxRemainingInterval = 0 \<or> \<bar>valid_until s - date\<bar> > maxRemainingInterval)
         then (cleanupNeeded, salt s, \<bar>valid_until s - date\<bar>)
         else r)"

fun erase_expired :: "int \<Rightarrow> future_salt list \<Rightarrow> future_salt list" where
  "erase_expired date [] = []"
| "erase_expired date (s # salts) = (if valid_until s < date then erase_expired date salts else s # erase_expired date salts)"

definition getServerSalt :: "int \<Rightarrow> bool \<Rightarrow> server_salts \<Rightarrow> u64 \<times> server_salts" where
  "getServerSalt date media d =
     (let salts = salts_of media d;
          (cleanupNeeded, result, _) = foldl (choose_salt date) (False, 0, 0) salts;
          salts = (if cleanupNeeded then erase_expired date salts else salts)
      in (result, put_salts media salts d))"

text \<open>\<open>std::sort\<close> leaves open how salts with the same start are ordered; here they keep their order.\<close>

definition mergeServerSalts :: "int \<Rightarrow> future_salt list \<Rightarrow> bool \<Rightarrow> server_salts \<Rightarrow> server_salts" where
  "mergeServerSalts date futureSalts media d =
     (if futureSalts = [] then d
      else let salts = salts_of media d;
               existingSalts = map salt salts;
               new = filter (\<lambda>s. salt s \<notin> set existingSalts \<and> valid_until s > date) futureSalts
           in if new = [] then d else put_salts media (sort_key valid_since (salts @ new)) d)"

definition containsServerSalt :: "u64 \<Rightarrow> bool \<Rightarrow> server_salts \<Rightarrow> bool" where
  "containsServerSalt value media d = list_ex (\<lambda>s. salt s = value) (salts_of media d)"

definition addServerSalt :: "future_salt \<Rightarrow> bool \<Rightarrow> server_salts \<Rightarrow> server_salts" where
  "addServerSalt serverSalt media d =
     (if containsServerSalt (salt serverSalt) media d then d
      else put_salts media (sort_key valid_since (salts_of media d @ [serverSalt])) d)"

section \<open>The choice\<close>

definition valid_at :: "int \<Rightarrow> future_salt \<Rightarrow> bool" where
  "valid_at date s \<longleftrightarrow> valid_since s \<le> date \<and> date < valid_until s"

text \<open>What the loop has found after some salts.\<close>

definition chosen :: "int \<Rightarrow> future_salt list \<Rightarrow> bool \<times> u64 \<times> int \<Rightarrow> bool" where
  "chosen date salts r \<longleftrightarrow>
     (case r of (cleanupNeeded, result, m) \<Rightarrow>
        (cleanupNeeded \<longleftrightarrow> (\<exists>s \<in> set salts. valid_until s < date)) \<and>
        (if \<exists>s \<in> set salts. valid_at date s
         then 0 < m \<and> (\<exists>s \<in> set salts. valid_at date s \<and> result = salt s \<and> m = valid_until s - date) \<and>
           (\<forall>t \<in> set salts. valid_at date t \<longrightarrow> valid_until t - date \<le> m)
         else result = 0 \<and> m = 0))"

lemma chosen_step: "chosen date salts r \<Longrightarrow> chosen date (salts @ [s]) (choose_salt date r s)"
  by (cases r; cases "\<exists>s \<in> set salts. valid_at date s"; cases "valid_at date s")
    (auto simp: chosen_def choose_salt_def valid_at_def)

lemma chosen_all: "chosen date done r \<Longrightarrow> chosen date (done @ salts) (foldl (choose_salt date) r salts)"
proof (induction salts arbitrary: "done" r)
  case (Cons s salts)
  from Cons.IH [OF chosen_step [OF Cons.prems, of s]] show ?case by simp
qed simp

lemma erase_expired_filter: "erase_expired date salts = filter (\<lambda>s. date \<le> valid_until s) salts"
  by (induction salts) auto

lemma salts_of_put [simp]: "salts_of m (put_salts m ss d) = ss" "salts_of (\<not> m) (put_salts m ss d) = salts_of (\<not> m) d"
  by (simp_all add: salts_of_def put_salts_def)

lemma getServerSalt_chosen:
  assumes "getServerSalt date media d = (result, d')"
  shows "if \<exists>s \<in> set (salts_of media d). valid_at date s
    then \<exists>s \<in> set (salts_of media d). valid_at date s \<and> result = salt s \<and> (\<forall>t \<in> set (salts_of media d). valid_at date t \<longrightarrow> valid_until t \<le> valid_until s)
    else result = 0"
    and "salts_of media d' = filter (\<lambda>s. date \<le> valid_until s) (salts_of media d)" "salts_of (\<not> media) d' = salts_of (\<not> media) d"
proof -
  let ?ss = "salts_of media d"
  obtain c r m where f: "foldl (choose_salt date) (False, 0, 0) ?ss = (c, r, m)" by (cases "foldl (choose_salt date) (False, 0, 0) ?ss") auto
  have "chosen date ?ss (c, r, m)" using chosen_all [of date "[]" "(False, 0, 0)" ?ss] by (simp add: f chosen_def)
  note h = this [unfolded chosen_def prod.case]
  have d': "result = r" "d' = put_salts media (if c then erase_expired date ?ss else ?ss) d"
    using assms by (auto simp: getServerSalt_def f Let_def)
  show "if \<exists>s \<in> set ?ss. valid_at date s
    then \<exists>s \<in> set ?ss. valid_at date s \<and> result = salt s \<and> (\<forall>t \<in> set ?ss. valid_at date t \<longrightarrow> valid_until t \<le> valid_until s)
    else result = 0" using h d'(1) by (auto split: if_splits)
  have "filter (\<lambda>s. date \<le> valid_until s) ?ss = ?ss" if "\<not> c" using h that by (auto simp: filter_id_conv)
  then show "salts_of media d' = filter (\<lambda>s. date \<le> valid_until s) ?ss" by (simp add: d'(2) erase_expired_filter)
  show "salts_of (\<not> media) d' = salts_of (\<not> media) d" by (simp add: d'(2))
qed

end
