(* ===== verification/EncryptedMessage.thy ===== *)
theory EncryptedMessage
  imports JniCrypto BuffersStorage MessageSession ServerSalts
begin

text \<open>
  The encrypted messages of the protocol, \<^verbatim>\<open>app/jni/tgnet/Datacenter.cpp\<close>: the choice of the key, \<open>createRequestsData\<close>, which
  packs requests into an encrypted packet, and \<open>decryptServerResponse\<close> with its caller in \<^verbatim>\<open>ConnectionsManager.cpp\<close>.
  SHA-1, SHA-256, random bytes and the clock are parameters.
\<close>

unbundle bit_operations_syntax

section \<open>Keys\<close>

text \<open>What a call finds: the CPU, the stack where \<open>akey\<close> is, the hash functions, and what the two thread-local arrays held.\<close>

record message_env =
  env_platform :: aes_platform
  env_fast :: bool
  env_stack_key :: aes_key
  SHA1 :: "bytes \<Rightarrow> bytes"
  SHA256 :: "bytes \<Rightarrow> bytes"
  old_sha :: bytes
  old_messageKey :: bytes

text \<open>Version 1 copies the parts into \<open>sha\<close> from byte 20 on, one after the other, and hashes them to its start.\<close>

fun copy_parts :: "nat \<Rightarrow> bytes list \<Rightarrow> bytes \<Rightarrow> bytes" where
  "copy_parts p [] sha = sha"
| "copy_parts p (bs # parts) sha = copy_parts (p + length bs) parts (wr p bs sha)"

definition hash_parts :: "message_env \<Rightarrow> bytes list \<Rightarrow> bytes \<Rightarrow> bytes" where
  "hash_parts env parts sha = (let sha = copy_parts 20 parts sha in wr 0 (SHA1 env (rd 20 48 sha)) sha)"

definition generateMessageKey :: "message_env \<Rightarrow> bytes \<Rightarrow> bytes \<Rightarrow> bytes \<Rightarrow> bool \<Rightarrow> nat \<Rightarrow> bytes" where
  "generateMessageKey env authKey messageKey result incoming mtProtoVersion =
     (let x = (if incoming then 8 else 0); sha = old_sha env
      in if mtProtoVersion = 2
         then let sha = wr 0 (SHA256 env (rd 0 16 messageKey @ rd x 36 authKey)) sha;
                  sha = wr 32 (SHA256 env (rd (40 + x) 36 authKey @ rd 0 16 messageKey)) sha;
                  result = wr 0 (rd 0 8 sha) result;
                  result = wr 8 (rd (32 + 8) 16 sha) result;
                  result = wr (8 + 16) (rd 24 8 sha) result;
                  result = wr 32 (rd 32 8 sha) result;
                  result = wr (32 + 8) (rd 8 16 sha) result
              in wr (32 + 8 + 16) (rd (32 + 24) 8 sha) result
         else let sha = hash_parts env [rd 0 16 messageKey, rd x 32 authKey] sha;
                  result = wr 0 (rd 0 8 sha) result;
                  result = wr 32 (rd 8 12 sha) result;
                  sha = hash_parts env [rd (32 + x) 16 authKey, rd 0 16 messageKey, rd (48 + x) 16 authKey] sha;
                  result = wr 8 (rd 8 12 sha) result;
                  result = wr (32 + 12) (rd 0 8 sha) result;
                  sha = hash_parts env [rd (64 + x) 32 authKey, rd 0 16 messageKey] sha;
                  result = wr (8 + 12) (rd 4 12 sha) result;
                  result = wr (32 + 12 + 8) (rd 16 4 sha) result;
                  sha = hash_parts env [rd 0 16 messageKey, rd (96 + x) 32 authKey] sha
              in wr (32 + 12 + 8 + 4) (rd 0 8 sha) result)"

text \<open>The buffer is the memory from \<open>pos\<close> on.\<close>

definition aesIgeEncryption_at ::
    "message_env \<Rightarrow> nat \<Rightarrow> bytes \<Rightarrow> bytes \<Rightarrow> bool \<Rightarrow> bool \<Rightarrow> u32 \<Rightarrow> bytes \<Rightarrow> bytes \<times> bytes" where
  "aesIgeEncryption_at env pos key iv encrypt changeIv len mem =
     (let ivBytes = rd 0 32 iv; akey = env_stack_key env;
          (mem, ivBytes) =
            (if \<not> encrypt
             then let akey = ignore_status akey (AES_set_decrypt_key (env_platform env) (Some key) (32 * 8) (Some akey))
                  in AES_ige_encrypt (env_platform env) (env_fast env) pos pos (unat len) akey ivBytes False mem
             else let akey = ignore_status akey (AES_set_encrypt_key (env_platform env) (Some key) (32 * 8) (Some akey))
                  in AES_ige_encrypt (env_platform env) (env_fast env) pos pos (unat len) akey ivBytes True mem)
      in (mem, if changeIv then wr 0 ivBytes iv else iv))"

datatype handshake_type = HandshakeTypePerm | HandshakeTypeTemp | HandshakeTypeMediaTemp | HandshakeTypeCurrent | HandshakeTypeAll

record pending_handshake =
  getType :: handshake_type
  getPendingAuthKey :: "bytes option"
  getPendingAuthKeyId :: u64

record auth_keys =
  isCdnDatacenter :: bool
  authKeyPerm :: "bytes option"
  authKeyPermId :: u64
  authKeyTemp :: "bytes option"
  authKeyTempId :: u64
  authKeyMediaTemp :: "bytes option"
  authKeyMediaTempId :: u64
  handshakes :: "pending_handshake list"
  hasMediaAddress :: bool

definition isMediaConnectionType :: "u32 \<Rightarrow> bool" where
  "isMediaConnectionType t \<longleftrightarrow> t AND 64 \<noteq> 0 \<or> t AND 2 \<noteq> 0"

text \<open>The key and its id; \<open>PFS_ENABLED\<close> is 1.\<close>

definition getAuthKey :: "auth_keys \<Rightarrow> u32 \<Rightarrow> bool \<Rightarrow> u32 \<Rightarrow> bytes option \<times> u64" where
  "getAuthKey dc connectionType perm allowPendingKey =
     (if isCdnDatacenter dc \<or> perm then (authKeyPerm dc, authKeyPermId dc)
      else let media = isMediaConnectionType connectionType \<and> hasMediaAddress dc;
               (authKeyPending, authKeyPendingId) =
                 (case find (\<lambda>h. media \<and> getType h = HandshakeTypeMediaTemp \<or> \<not> media \<and> getType h = HandshakeTypeTemp) (handshakes dc) of
                    None \<Rightarrow> (None, 0)
                  | Some h \<Rightarrow> (getPendingAuthKey h, getPendingAuthKeyId h))
           in if allowPendingKey AND 1 \<noteq> 0 \<and> authKeyPending \<noteq> None then (authKeyPending, authKeyPendingId)
              else if media then (authKeyMediaTemp dc, authKeyMediaTempId dc)
              else (authKeyTemp dc, authKeyTempId dc))"

section \<open>Receiving\<close>

text \<open>\<open>memcpy\<close> into a \<open>uint32_t\<close> on a little-endian CPU.\<close>

definition load32 :: "nat \<Rightarrow> bytes \<Rightarrow> u32" where
  "load32 p mem = pack (mem ! (p + 3)) (mem ! (p + 2)) (mem ! (p + 1)) (mem ! p)"

text \<open>\<open>key\<close> and \<open>data\<close> are addresses in one memory.\<close>

definition decryptServerResponse ::
    "message_env \<Rightarrow> auth_keys \<Rightarrow> u32 \<Rightarrow> u64 \<Rightarrow> nat \<Rightarrow> nat \<Rightarrow> u32 \<Rightarrow> bytes \<Rightarrow> bool \<times> bytes" where
  "decryptServerResponse env dc connectionType keyId key data len mem =
     (let (authKey, authKeyId) = getAuthKey dc connectionType False 1
      in case authKey of
           None \<Rightarrow> (False, mem)
         | Some authKey \<Rightarrow>
             let error = (authKeyId \<noteq> keyId);
                 messageKey = old_messageKey env;
                 messageKey = wr 32 (generateMessageKey env authKey (rd key 16 mem) (rd 32 64 messageKey) True 2) messageKey;
                 mem = fst (aesIgeEncryption_at env data (rd 32 32 messageKey) (rd 64 32 messageKey) False False len mem);
                 messageLength = load32 (data + 28) mem;
                 paddingLength = len - (messageLength + 32);
                 error = (error \<or> messageLength > len - 32);
                 error = (error \<or> paddingLength < 12);
                 error = (error \<or> paddingLength > 1024);
                 messageKey = wr 0 (SHA256 env (rd (88 + 8) 32 authKey @ rd data (unat len) mem)) messageKey;
                 error = foldl (\<lambda>error i. error \<or> messageKey ! (i + 8) \<noteq> mem ! (key + i)) error [0..<16]
             in (\<not> error, mem))"

text \<open>
  The part of \<open>ConnectionsManager::onConnectionDataReceived\<close> for an encrypted message: the length is checked, or cut to whole
  blocks where the protocol pads; the message is decrypted and its header read.
\<close>

datatype arrived =
    Refused \<comment> \<open>the connection is made anew\<close>
  | OtherSession
  | Arrived (messageServerSalt: u64) (messageId: u64) (messageSeqNo: u32) (messageLength: u32) (message_data: native_buffer)

definition read_message_header :: "session \<Rightarrow> native_buffer \<Rightarrow> arrived" where
  "read_message_header s data =
     (let (messageServerSalt, error, data) = readInt64 (Some False) data;
          (messageSessionId, error, data) = readInt64 error data
      in if sint messageSessionId \<noteq> sessionId s then OtherSession
         else let (messageId, error, data) = readInt64 error data;
                  (messageSeqNo, error, data) = readInt32 error data;
                  (messageLength, error, data) = readInt32 error data
         in Arrived messageServerSalt messageId messageSeqNo messageLength data)"

definition receive_encrypted ::
    "message_env \<Rightarrow> auth_keys \<Rightarrow> u32 \<Rightarrow> bool \<Rightarrow> session \<Rightarrow> u64 \<Rightarrow> u32 \<Rightarrow> u32 \<Rightarrow> native_buffer \<Rightarrow> arrived" where
  "receive_encrypted env dc connectionType allowsCustomPadding s keyId mark len data =
     (let len = (if allowsCustomPadding
                 then let padding = (len - 24) mod 16 in if padding \<noteq> 0 then len - padding else len
                 else len)
      in if len < 24 + 32 \<or> \<not> allowsCustomPadding \<and> (len - 24) mod 16 \<noteq> 0 then Refused
         else let (ok, mem) = decryptServerResponse env dc connectionType keyId (unat (mark + 8)) (unat (mark + 24)) (len - 24) (buffer data)
         in if \<not> ok then Refused
         else read_message_header s (set_position (mark + 24) (data\<lparr>buffer := mem\<rparr>)))"

text \<open>
  The packet from its start.  \<open>None\<close> stands for the other kinds of packets, which are not modelled: the short ones and the messages of
  the key exchange.  That the client is told of a new connection is left out.
\<close>

definition encrypted_packet_received ::
    "message_env \<Rightarrow> auth_keys \<Rightarrow> u32 \<Rightarrow> bool \<Rightarrow> session \<Rightarrow> u32 \<Rightarrow> native_buffer \<Rightarrow> arrived option" where
  "encrypted_packet_received env dc connectionType allowsCustomPadding s len data =
     (if len \<le> 24 + 32 then None
      else let mark = buf_position data; (keyId, error, data) = readInt64 (Some False) data
      in if error = Some True then Some Refused
      else if keyId = 0 then None
      else Some (receive_encrypted env dc connectionType allowsCustomPadding s keyId mark len data))"

section \<open>Sending\<close>

text \<open>A request that is to be sent, \<open>NetworkMessage\<close> with its \<open>TL_message\<close>; bodies are given by their fields.\<close>

record network_message =
  forceContainer :: bool
  request_msg_id :: int
  request_seqno :: u32
  request_bytes :: u32
  outgoingBody :: "tl_value list option"
  request_body :: "tl_value list"

definition body_of :: "network_message \<Rightarrow> tl_value list" where
  "body_of m = (case outgoingBody m of Some b \<Rightarrow> b | None \<Rightarrow> request_body m)"

definition message_values :: "network_message \<Rightarrow> tl_value list" where
  "message_values m = [Int64 (word_of_int (request_msg_id m)), Int32 (request_seqno m), Int32 (request_bytes m)] @ body_of m"

definition container_values :: "network_message list \<Rightarrow> tl_value list" where
  "container_values messages = [Int32 0x73f1f8dc, Int32 (of_nat (length messages))] @ concat (map message_values messages)"

text \<open>
  A \<open>double\<close> has 53 bits.  The division by \<open>2 ^ 32\<close> is exact, so it can be done after the other operations; the conversion to an
  integer cuts off.
\<close>

definition to_double :: "nat \<Rightarrow> nat" where
  "to_double n = (let e = bitlen n - 53 in round_div n (2 ^ e) * 2 ^ e)"

definition message_time :: "int \<Rightarrow> int" where
  "message_time i = sgn i * int (to_double (to_double (nat \<bar>i\<bar>) * 1000) div 2 ^ 32)"

text \<open>The clocks, the id that the clock gives, and the random bytes of a call.\<close>

record send_inputs =
  currentTimeMillis :: int
  timeDifference :: int
  clock_id :: int
  random_index :: u8
  random_salt :: u64
  random_session :: u64
  random_padding :: "nat \<Rightarrow> bytes"

definition getCurrentTime :: "send_inputs \<Rightarrow> int" where
  "getCurrentTime inp = sint (word_of_int (currentTimeMillis inp div 1000) + word_of_int (timeDifference inp) :: u32)"

record send_state =
  send_session :: session
  lastOutgoingMessageId :: int
  send_storage :: buffers_storage
  send_salts :: server_salts
  sizeCalculatorBuffer :: native_buffer

definition new_message_id :: "send_inputs \<Rightarrow> send_state \<Rightarrow> int \<times> send_state" where
  "new_message_id inp st =
     (let i = generateMessageId (clock_id inp) (lastOutgoingMessageId st) in (i, st\<lparr>lastOutgoingMessageId := i\<rparr>))"

definition new_seqno :: "send_state \<Rightarrow> u32 \<times> send_state" where
  "new_seqno st = (let (n, s) = generateMessageSeqNo False (send_session st) in (n, st\<lparr>send_session := s\<rparr>))"

text \<open>The id, the number and the fields of what is sent: one message, or a container.\<close>

definition choose_message ::
    "send_inputs \<Rightarrow> bool \<Rightarrow> network_message list \<Rightarrow> send_state \<Rightarrow> int \<times> u32 \<times> tl_value list \<times> send_state" where
  "choose_message inp pfsInit requests st =
     (let alone = (case requests of
              [m] \<Rightarrow> (let messageTime = message_time (request_msg_id m); currentTime = currentTimeMillis inp + timeDifference inp * 1000
                      in \<not> (\<not> pfsInit \<and> (forceContainer m \<or> messageTime < currentTime - 30000 \<or> messageTime > currentTime + 25000)))
            | _ \<Rightarrow> False)
      in if alone then (request_msg_id (hd requests), request_seqno (hd requests), body_of (hd requests), st)
         else let (messageId, st) = new_message_id inp st; (messageSeqNo, st) = new_seqno st
              in (messageId, messageSeqNo, container_values requests, st))"

definition additional_size :: "nat \<Rightarrow> u8 \<Rightarrow> u32 \<Rightarrow> u32" where
  "additional_size mtProtoVersion index messageSize =
     (let additionalSize = (32 + messageSize) mod 16;
          additionalSize = (if additionalSize \<noteq> 0 then 16 - additionalSize else additionalSize)
      in if mtProtoVersion = 2 then additionalSize + (2 + ucast index mod 14) * 16 else additionalSize)"

text \<open>The key of the message in the array, and the id of the quick acknowledgement; then the keys are derived and the message is encrypted.\<close>

definition encrypt_message ::
    "message_env \<Rightarrow> nat \<Rightarrow> bytes \<Rightarrow> u32 \<Rightarrow> u32 \<Rightarrow> native_buffer \<Rightarrow> u32 \<times> native_buffer" where
  "encrypt_message env mtProtoVersion authKey messageSize additionalSize b =
     (let messageKey = old_messageKey env;
          (messageKey, quickAckId) =
            (if mtProtoVersion = 2
             then let messageKey = wr 0 (SHA256 env (rd 88 32 authKey @ rd 24 (unat (32 + messageSize + additionalSize)) (buffer b))) messageKey
                  in (messageKey, load32 0 messageKey AND 0x7fffffff)
             else let messageKey = wr 4 (SHA1 env (rd 24 (unat (32 + messageSize)) (buffer b))) messageKey
                  in (messageKey, load32 4 messageKey AND 0x7fffffff));
          b = b\<lparr>buffer := wr 8 (rd 8 16 messageKey) (buffer b)\<rparr>;
          messageKey = wr 32 (generateMessageKey env authKey (rd 8 16 messageKey) (rd 32 64 messageKey) False mtProtoVersion) messageKey;
          mem = fst (aesIgeEncryption_at env 24 (rd 32 32 messageKey) (rd 64 32 messageKey) True False (buf_limit b - 24) (buffer b))
      in (quickAckId, b\<lparr>buffer := mem\<rparr>))"

definition createRequestsData ::
    "message_env \<Rightarrow> (nat \<Rightarrow> bytes) \<Rightarrow> send_inputs \<Rightarrow> auth_keys \<Rightarrow> u32 \<Rightarrow> bool \<Rightarrow> network_message list \<Rightarrow> send_state \<Rightarrow>
       (u32 \<times> native_buffer) option \<times> send_state" where
  "createRequestsData env fresh inp dc connectionType pfsInit requests st =
     (let (authKey, authKeyId) = getAuthKey dc connectionType pfsInit 1
      in case authKey of
           None \<Rightarrow> (None, st)
         | Some authKey \<Rightarrow>
             let (messageId, messageSeqNo, messageBody, st) = choose_message inp pfsInit requests st;
                 mtProtoVersion = (if pfsInit then 1 else 2);
                 (messageSize, c) = getObjectSize (serialize_values messageBody) (sizeCalculatorBuffer st);
                 additionalSize = additional_size mtProtoVersion (random_index inp) messageSize;
                 (b, storage) = getFreeBuffer fresh (24 + 32 + messageSize + additionalSize) (send_storage st);
                 st = st\<lparr>sizeCalculatorBuffer := c, send_storage := storage\<rparr>;
                 b = set_position 24 (snd (writeInt64 authKeyId None b));
                 (server_salt, session_id, st) =
                   (if pfsInit then (random_salt inp, random_session inp, st)
                    else let (server_salt, d) = getServerSalt (getCurrentTime inp) (isMediaConnectionType connectionType) (send_salts st)
                         in (server_salt, word_of_int (sessionId (send_session st)), st\<lparr>send_salts := d\<rparr>));
                 b = snd (writeInt64 session_id None (snd (writeInt64 server_salt None b)));
                 b = snd (writeInt64 (word_of_int messageId) None b);
                 b = snd (writeInt32 messageSeqNo None b);
                 b = snd (writeInt32 messageSize None b);
                 b = serialize_values messageBody b;
                 b = (if additionalSize \<noteq> 0
                      then b\<lparr>buffer := wr (24 + 32 + unat messageSize) (random_padding inp (unat additionalSize)) (buffer b)\<rparr> else b)
             in (Some (encrypt_message env mtProtoVersion authKey messageSize additionalSize b), st))"

section \<open>The scheme\<close>

text \<open>
  The scheme of the protocol, on which both sides agree: \<open>x\<close> is 0 for messages of the client and 8 for those of the server, version 1
  is for the message that binds a temporary key.  First the 64 bytes of key and initialisation vector.
\<close>

definition key_material :: "message_env \<Rightarrow> nat \<Rightarrow> nat \<Rightarrow> bytes \<Rightarrow> bytes \<Rightarrow> bytes" where
  "key_material env version x authKey mk =
     (if version = 2
      then let a = SHA256 env (mk @ rd x 36 authKey); b = SHA256 env (rd (40 + x) 36 authKey @ mk)
           in (rd 0 8 a @ rd 8 16 b @ rd 24 8 a) @ (rd 0 8 b @ rd 8 16 a @ rd 24 8 b)
      else let a = SHA1 env (mk @ rd x 32 authKey);
               b = SHA1 env (rd (32 + x) 16 authKey @ mk @ rd (48 + x) 16 authKey);
               c = SHA1 env (rd (64 + x) 32 authKey @ mk);
               d = SHA1 env (mk @ rd (96 + x) 32 authKey)
           in (rd 0 8 a @ rd 8 12 b @ rd 4 12 c) @ (rd 8 12 a @ rd 0 8 b @ rd 16 4 c @ rd 0 8 d))"

text \<open>The key of a message; version 1 leaves out the padding.\<close>

definition message_key :: "message_env \<Rightarrow> nat \<Rightarrow> nat \<Rightarrow> bytes \<Rightarrow> bytes \<Rightarrow> bytes" where
  "message_key env version x authKey text =
     (if version = 2 then rd 8 16 (SHA256 env (rd (88 + x) 32 authKey @ text))
      else rd 4 16 (SHA1 env (take (32 + unat (load32 28 text)) text)))"

definition key_of :: "int + aes_key \<Rightarrow> aes_key" where
  "key_of r = (case r of Inl e \<Rightarrow> blank_aes_key | Inr k \<Rightarrow> k)"

definition ige_seal :: "bytes \<Rightarrow> bytes \<Rightarrow> bytes \<Rightarrow> bytes" where
  "ige_seal key iv text =
     ige_enc_text (\<lambda>b. aes_nohw_encrypt b (key_of (aes_nohw_set_encrypt_key (Some key) 256 (Some blank_aes_key))))
       (length text div 16) (rd 0 16 iv) (rd 16 16 iv) text"

definition ige_open :: "bytes \<Rightarrow> bytes \<Rightarrow> bytes \<Rightarrow> bytes" where
  "ige_open key iv c =
     ige_dec_text (\<lambda>b. aes_nohw_decrypt b (key_of (aes_nohw_set_decrypt_key portable_platform (Some key) 256 (Some blank_aes_key))))
       (length c div 16) (rd 0 16 iv) (rd 16 16 iv) c"

definition sealed :: "message_env \<Rightarrow> nat \<Rightarrow> nat \<Rightarrow> bytes \<Rightarrow> u64 \<Rightarrow> bytes \<Rightarrow> bytes" where
  "sealed env version x authKey keyId text =
     (let mk = message_key env version x authKey text; k = key_material env version x authKey mk
      in enc64 keyId @ mk @ ige_seal (rd 0 32 k) (rd 32 32 k) text)"

definition open_message :: "message_env \<Rightarrow> nat \<Rightarrow> nat \<Rightarrow> bytes \<Rightarrow> u64 \<Rightarrow> bytes \<Rightarrow> bytes option" where
  "open_message env version x authKey keyId packet =
     (let mk = rd 8 16 packet; k = key_material env version x authKey mk; text = ige_open (rd 0 32 k) (rd 32 32 k) (drop 24 packet)
      in if take 8 packet = enc64 keyId \<and> mk = message_key env version x authKey text then Some text else None)"

text \<open>The hash functions give 20 and 32 bytes, and the CPU is one on which the portable cipher runs.\<close>

definition message_env_ok :: "message_env \<Rightarrow> bool" where
  "message_env_ok env \<longleftrightarrow> (\<forall>x. length (SHA1 env x) = 20 \<and> length (SHA256 env x) = 32) \<and> length (old_sha env) = 68 \<and>
     length (old_messageKey env) = 96 \<and> portable (env_platform env) \<and> aes_key_storage (env_stack_key env)"

lemma message_env_okD [simp]:
  assumes "message_env_ok env"
  shows "length (SHA1 env x) = 20" "length (SHA256 env x) = 32" "length (old_sha env) = 68" "length (old_messageKey env) = 96"
    "portable (env_platform env)" "aes_key_storage (env_stack_key env)"
  using assms by (simp_all add: message_env_ok_def)

text \<open>Writes that are sorted by their place and joined.\<close>

lemma wr_swap:
  assumes "p + length bs \<le> q" "q \<le> length mem"
  shows "wr p bs (wr q cs mem) = wr q cs (wr p bs mem)"
proof (cases bs)
  case (Cons b bs')
  then have "p < q" "p < length mem" using assms by simp_all
  then show ?thesis using assms by (simp add: wr_def drop_take min_def)
qed simp

lemma wr_join: "q = p + length bs \<Longrightarrow> q + length cs \<le> length mem \<Longrightarrow> wr q cs (wr p bs mem) = wr p (bs @ cs) mem"
  by (simp add: wr_append)

lemma wr_all: "length bs = length mem \<Longrightarrow> wr 0 bs mem = bs"
  by (simp add: wr_def)

lemma rd_within: "p \<le> q \<Longrightarrow> q + n \<le> p + length bs \<Longrightarrow> p \<le> length mem \<Longrightarrow> rd q n (wr p bs mem) = rd (q - p) n bs"
  by (simp add: rd_def wr_def)

lemma rd_rd: "q + n \<le> m \<Longrightarrow> rd q n (rd p m mem) = rd (p + q) n mem"
  by (simp add: rd_def drop_take min_def add.commute)

lemma length_key_material [simp]: "message_env_ok env \<Longrightarrow> length (key_material env version x authKey mk) = 64"
  by (simp add: key_material_def Let_def)

lemma copy_parts_concat: "p + length (concat parts) \<le> length sha \<Longrightarrow> copy_parts p parts sha = wr p (concat parts) sha"
  by (induction parts arbitrary: p sha) (simp_all add: wr_append)

lemma hash_parts:
  assumes "message_env_ok env" "length sha = 68" "length (concat parts) = 48"
  shows "length (hash_parts env parts sha) = 68" "p + n \<le> 20 \<Longrightarrow> rd p n (hash_parts env parts sha) = rd p n (SHA1 env (concat parts))"
  using assms by (simp_all add: hash_parts_def Let_def copy_parts_concat rd_wr_same rd_within)

lemma generateMessageKey_1:
  assumes env: "message_env_ok env" and mk: "length mk = 16" and r: "length r = 64" and key: "136 \<le> length authKey" and v: "version \<noteq> 2"
  shows "generateMessageKey env authKey mk r incoming version = key_material env version (if incoming then 8 else 0) authKey mk"
proof -
  define x :: nat where "x = (if incoming then 8 else 0)"
  have x: "x \<le> 8" by (simp add: x_def)
  have mk16: "rd 0 16 mk = mk" using mk by (simp add: rd_def)
  let ?p1 = "[mk, rd x 32 authKey]" and ?p2 = "[rd (32 + x) 16 authKey, mk, rd (48 + x) 16 authKey]"
    and ?p3 = "[rd (64 + x) 32 authKey, mk]" and ?p4 = "[mk, rd (96 + x) 32 authKey]"
  have len: "length (concat ?p1) = 48" "length (concat ?p2) = 48" "length (concat ?p3) = 48" "length (concat ?p4) = 48"
    using key mk x by simp_all
  define s1 where "s1 = hash_parts env ?p1 (old_sha env)"
  define s2 where "s2 = hash_parts env ?p2 s1"
  define s3 where "s3 = hash_parts env ?p3 s2"
  define s4 where "s4 = hash_parts env ?p4 s3"
  note s1 = hash_parts [OF env message_env_okD(3) [OF env] len(1), folded s1_def]
  note s2 = hash_parts [OF env s1(1) len(2), folded s2_def]
  note s3 = hash_parts [OF env s2(1) len(3), folded s3_def]
  note s4 = hash_parts [OF env s3(1) len(4), folded s4_def]
  have "generateMessageKey env authKey mk r incoming version =
      wr 56 (rd 0 8 s4) (wr 52 (rd 16 4 s3) (wr 20 (rd 4 12 s3) (wr 44 (rd 0 8 s2) (wr 8 (rd 8 12 s2) (wr 32 (rd 8 12 s1) (wr 0 (rd 0 8 s1) r))))))"
    using v by (simp add: generateMessageKey_def Let_def mk16 s1_def s2_def s3_def s4_def flip: x_def)
  also have "\<dots> = (rd 0 8 s1 @ rd 8 12 s2 @ rd 4 12 s3) @ (rd 8 12 s1 @ rd 0 8 s2 @ rd 16 4 s3 @ rd 0 8 s4)"
    using s1(1) s2(1) s3(1) s4(1) r
    by (simp add: wr_swap [where p = 20 and q = 44] wr_swap [where p = 20 and q = 32] wr_swap [where p = 8 and q = 32] wr_join wr_all)
  finally show ?thesis using v by (simp add: key_material_def Let_def s1(2) s2(2) s3(2) s4(2) flip: x_def)
qed

lemma generateMessageKey_material:
  assumes "message_env_ok env" "length mk = 16" "length r = 64" "136 \<le> length authKey"
  shows "generateMessageKey env authKey mk r incoming version = key_material env version (if incoming then 8 else 0) authKey mk"
proof (cases "version = 2")
  case True
  define x :: nat where "x = (if incoming then 8 else 0)"
  have x: "x \<le> 8" by (simp add: x_def)
  have mk: "rd 0 16 mk = mk" using assms(2) by (simp add: rd_def)
  define a where "a = SHA256 env (mk @ rd x 36 authKey)"
  define b where "b = SHA256 env (rd (40 + x) 36 authKey @ mk)"
  define s where "s = wr 32 b (wr 0 a (old_sha env))"
  have l: "length a = 32" "length b = 32" "length s = 68" using assms(1) by (simp_all add: a_def b_def s_def)
  have rds: "rd p n s = rd p n a" if "p + n \<le> 32" for p n using that assms(1) l by (simp add: s_def rd_wr_before rd_within)
  have rdb: "rd 40 16 s = rd 8 16 b" "rd 32 8 s = rd 0 8 b" "rd 56 8 s = rd 24 8 b" using assms(1) l by (simp_all add: s_def rd_within)
  have "generateMessageKey env authKey mk r incoming version =
      wr 56 (rd 56 8 s) (wr 40 (rd 8 16 s) (wr 32 (rd 32 8 s) (wr 24 (rd 24 8 s) (wr 8 (rd 40 16 s) (wr 0 (rd 0 8 s) r)))))"
    using True by (simp add: generateMessageKey_def Let_def mk s_def a_def b_def flip: x_def)
  also have "\<dots> = (rd 0 8 a @ rd 8 16 b @ rd 24 8 a) @ (rd 0 8 b @ rd 8 16 a @ rd 24 8 b)"
    using l assms(3) by (simp add: rds rdb wr_join wr_all)
  finally show ?thesis using True by (simp add: key_material_def Let_def a_def b_def flip: x_def)
qed (rule generateMessageKey_1 [OF assms])

text \<open>IGE in place is sealing and opening; the stack under \<open>akey\<close> does not matter.\<close>

lemma keys_of:
  assumes env: "message_env_ok env"
  obtains ek dk dk' where "aes_nohw_set_encrypt_key (Some key) 256 (Some (env_stack_key env)) = Inr ek"
    "aes_nohw_set_decrypt_key (env_platform env) (Some key) 256 (Some (env_stack_key env)) = Inr dk"
    "aes_nohw_set_encrypt_key (Some key) 256 (Some blank_aes_key) = Inr ek"
    "aes_nohw_set_decrypt_key portable_platform (Some key) 256 (Some blank_aes_key) = Inr dk'"
    "aes_key_pair ek dk" "aes_key_pair ek dk'"
proof -
  let ?ak = "env_stack_key env"
  have pf: "portable (env_platform env)" and ak: "aes_key_storage ?ak" using env by simp_all
  obtain ek dk where k: "AES_set_encrypt_key (env_platform env) (Some key) 256 (Some ?ak) = Inr ek"
    "AES_set_decrypt_key (env_platform env) (Some key) 256 (Some ?ak) = Inr dk" "aes_key_pair ek dk"
    using key_setup [OF pf ak ak] .
  obtain ek' dk' where k': "AES_set_encrypt_key portable_platform (Some key) 256 (Some blank_aes_key) = Inr ek'"
    "AES_set_decrypt_key portable_platform (Some key) 256 (Some blank_aes_key) = Inr dk'" "aes_key_pair ek' dk'"
    using key_setup [OF portable_platform blank_aes_key blank_aes_key] .
  have "AES_set_encrypt_key portable_platform (Some key) 256 (Some ?ak) = Inr ek"
    using k(1) unfolding portable_aes(3) [OF pf] portable_aes(3) [OF portable_platform] .
  from same_key [OF portable_platform this k'(1) ak blank_aes_key] have "ek' = ek" .
  then show ?thesis using that [OF _ _ _ _ k(3)] k k' pf by simp
qed

lemma ige_encrypt_at:
  assumes env: "message_env_ok env" and "pos + unat len \<le> length mem" "unat len mod 16 = 0" "32 \<le> length iv"
  shows "fst (aesIgeEncryption_at env pos key iv True False len mem) = wr pos (ige_seal key iv (rd pos (unat len) mem)) mem"
proof -
  obtain ek dk dk' where k: "aes_nohw_set_encrypt_key (Some key) 256 (Some (env_stack_key env)) = Inr ek"
    "aes_nohw_set_encrypt_key (Some key) 256 (Some blank_aes_key) = Inr ek" using keys_of [OF env] .
  have "apart pos pos (unat len)" by (simp add: apart_def)
  from aes.ige_encrypt_mem(1) [OF this assms(2,2,3), of "rd 0 32 iv" "env_fast env" ek] show ?thesis
    using env assms(2,4) by (simp add: aesIgeEncryption_at_def Let_def k AES_ige_encrypt_def ige_seal_def key_of_def rd_rd case_prod_beta)
qed

text \<open>Keys of one encryption key decrypt alike.\<close>

lemma same_opening:
  assumes "aes_key_pair ek dk" "aes_key_pair ek dk'" "length c = 16 * n" "length iv = 16" "length iv2 = 16"
  shows "ige_dec_text (\<lambda>b. aes_nohw_decrypt b dk) n iv iv2 c = ige_dec_text (\<lambda>b. aes_nohw_decrypt b dk') n iv iv2 c"
proof -
  let ?p = "ige_dec_text (\<lambda>b. aes_nohw_decrypt b dk') n iv iv2 c"
  have "ige_enc_text (\<lambda>b. aes_nohw_encrypt b ek) n iv iv2 ?p = c" by (rule aes.ige_enc_dec_text [OF assms(2-5)])
  moreover have "length ?p = 16 * n" using assms(3-5) by simp
  note aes.ige_dec_enc_text [OF assms(1) this assms(4,5)]
  ultimately show ?thesis by simp
qed

lemma ige_decrypt_at:
  assumes env: "message_env_ok env" and "pos + unat len \<le> length mem" "unat len mod 16 = 0" "32 \<le> length iv"
  shows "fst (aesIgeEncryption_at env pos key iv False False len mem) = wr pos (ige_open key iv (rd pos (unat len) mem)) mem"
proof -
  obtain ek dk dk' where k: "aes_nohw_set_decrypt_key (env_platform env) (Some key) 256 (Some (env_stack_key env)) = Inr dk"
    "aes_nohw_set_decrypt_key portable_platform (Some key) 256 (Some blank_aes_key) = Inr dk'"
    "aes_key_pair ek dk" "aes_key_pair ek dk'" using keys_of [OF env] .
  have "16 * (unat len div 16) = unat len" using assms(3) by (rule whole_blocks)
  then have "ige_dec_text (\<lambda>b. aes_nohw_decrypt b dk) (unat len div 16) (rd 0 16 iv) (rd 16 16 iv) (rd pos (unat len) mem) =
      ige_open key iv (rd pos (unat len) mem)"
    using same_opening [OF k(3,4), of "rd pos (unat len) mem" "unat len div 16" "rd 0 16 iv" "rd 16 16 iv"] assms(2,4)
    by (simp add: ige_open_def key_of_def k(2))
  moreover have "apart pos pos (unat len)" by (simp add: apart_def)
  note aes.ige_encrypt_mem(2) [OF this assms(2,2,3), of "rd 0 32 iv" "env_fast env" dk]
  ultimately show ?thesis
    using env assms(2,4) by (simp add: aesIgeEncryption_at_def Let_def k(1) AES_ige_encrypt_def rd_rd case_prod_beta)
qed

lemma ige_open_seal:
  assumes "length text mod 16 = 0" "32 \<le> length iv"
  shows "ige_open key iv (ige_seal key iv text) = text" "length (ige_seal key iv text) = length text"
    and "ige_seal key iv (ige_open key iv text) = text" "length (ige_open key iv text) = length text"
proof -
  obtain ek dk where k: "AES_set_encrypt_key portable_platform (Some key) 256 (Some blank_aes_key) = Inr ek"
    "AES_set_decrypt_key portable_platform (Some key) 256 (Some blank_aes_key) = Inr dk" "aes_key_pair ek dk"
    using key_setup [OF portable_platform blank_aes_key blank_aes_key] .
  have n: "length text = 16 * (length text div 16)" using whole_blocks [OF assms(1)] by simp
  have iv: "length (rd 0 16 iv) = 16" "length (rd 16 16 iv) = 16" using assms(2) by simp_all
  show l: "length (ige_seal key iv text) = length text" "length (ige_open key iv text) = length text"
    using n iv by (simp_all add: ige_seal_def ige_open_def)
  show "ige_open key iv (ige_seal key iv text) = text" "ige_seal key iv (ige_open key iv text) = text"
    using aes.ige_dec_enc_text [OF k(3) n iv] aes.ige_enc_dec_text [OF k(3) n iv] l k(1,2)
    by (simp_all add: ige_seal_def ige_open_def key_of_def)
qed

lemma length_message_key [simp]: "message_env_ok env \<Longrightarrow> length (message_key env version x authKey text) = 16"
  by (simp add: message_key_def)

lemma open_sealed:
  assumes "message_env_ok env" "length text mod 16 = 0"
  shows "open_message env version x authKey keyId (sealed env version x authKey keyId text) = Some text"
    and "length (sealed env version x authKey keyId text) = 24 + length text"
proof -
  let ?mk = "message_key env version x authKey text"
  let ?k = "key_material env version x authKey ?mk"
  have l: "32 \<le> length (rd 32 32 ?k)" using assms(1) by simp
  note o = ige_open_seal [OF assms(2) l, of "rd 0 32 ?k"]
  have p: "sealed env version x authKey keyId text = enc64 keyId @ ?mk @ ige_seal (rd 0 32 ?k) (rd 32 32 ?k) text"
    by (simp add: sealed_def Let_def)
  have "rd 8 16 (sealed env version x authKey keyId text) = ?mk" "drop 24 (sealed env version x authKey keyId text) = ige_seal (rd 0 32 ?k) (rd 32 32 ?k) text"
    "take 8 (sealed env version x authKey keyId text) = enc64 keyId"
    using assms(1) by (simp_all add: p rd_def)
  then show "open_message env version x authKey keyId (sealed env version x authKey keyId text) = Some text"
    by (simp add: open_message_def Let_def o)
  show "length (sealed env version x authKey keyId text) = 24 + length text" using assms(1) by (simp add: p o)
qed

lemma sealed_open:
  assumes env: "message_env_ok env" and len: "24 \<le> length packet" "(length packet - 24) mod 16 = 0"
    and o: "open_message env version x authKey keyId packet = Some text"
  shows "packet = sealed env version x authKey keyId text" "length text = length packet - 24"
proof -
  let ?mk = "rd 8 16 packet"
  let ?k = "key_material env version x authKey ?mk"
  have l: "32 \<le> length (rd 32 32 ?k)" using env by simp
  have h: "text = ige_open (rd 0 32 ?k) (rd 32 32 ?k) (drop 24 packet)" "take 8 packet = enc64 keyId" "?mk = message_key env version x authKey text"
    using o by (auto simp: open_message_def Let_def split: if_splits)
  have "length (drop 24 packet) mod 16 = 0" using len by simp
  note s = ige_open_seal [OF this l, of "rd 0 32 ?k"]
  show "length text = length packet - 24" using s(4) by (simp add: h(1))
  have "packet = take 8 packet @ ?mk @ drop 24 packet"
    using append_take_drop_id [of 16 "drop 8 packet"] by (simp add: rd_def)
  then show "packet = sealed env version x authKey keyId text"
    unfolding sealed_def Let_def h(3) [symmetric] using s(3) h(1,2) by simp
qed

lemma foldl_or: "foldl (\<lambda>e i. e \<or> P i) e [0..<n] \<longleftrightarrow> e \<or> (\<exists>i<n. P i)"
  by (induction n) (auto simp: less_Suc_eq)

lemma load32_enc32: "length h = p \<Longrightarrow> load32 p (h @ enc32 n @ r) = n"
  using dec32 [of n] by (simp add: load32_def enc32_def nth_append pack_def ac_simps)

lemma enc32_load32: "p + 4 \<le> length mem \<Longrightarrow> enc32 (load32 p mem) = rd p 4 mem"
proof -
  have e: "enc32 (pack d c b a) = [a, b, c, d]" for a b c d
    by (simp add: enc32_def) (intro conjI; rule bit_eqI; auto simp: bit_pack bit_simps dest: bit_imp_le_length)
  assume "p + 4 \<le> length mem"
  then show ?thesis unfolding load32_def e by (intro nth_equalityI) (auto simp: rd_def less_Suc_eq numeral_eq_Suc)
qed

lemma enc64_inject: "enc64 x = enc64 y \<longleftrightarrow> x = y"
proof
  assume e: "enc64 x = enc64 y"
  let ?b = "new_buffer (enc64 x) 8"
  have b: "buf_ok ?b" by (intro new_buffer_ok) simp_all
  have "rest ?b = enc64 x" by (simp add: new_buffer_def rest_def room_def rd_def)
  then show "x = y" using int64.get_enc [OF b TrueI, of x "[]" None] int64.get_enc [OF b TrueI, of y "[]" None] e by simp
qed simp

section \<open>Receiving opens the sealed messages\<close>

text \<open>The padding of the server has 12 to 1024 bytes.\<close>

definition well_padded :: "bytes \<Rightarrow> bool" where
  "well_padded text \<longleftrightarrow> unat (load32 28 text) + 44 \<le> length text \<and> length text \<le> unat (load32 28 text) + 1056"

lemma padding_test:
  assumes "32 \<le> unat len" "length text = unat len"
  shows "\<not> (load32 28 text > len - 32 \<or> len - (load32 28 text + 32) < 12 \<or> len - (load32 28 text + 32) > 1024) \<longleftrightarrow> well_padded text"
proof -
  let ?m = "load32 28 text"
  have l: "unat (len - 32) = unat len - 32" using assms(1) by (simp add: unat_sub word_le_nat_alt)
  show ?thesis
  proof (cases "?m > len - 32")
    case True
    then have "unat len - 32 < unat ?m" using l by (simp add: word_less_nat_alt)
    then have "\<not> unat ?m + 44 \<le> unat len" by linarith
    then have "\<not> well_padded text" using assms by (simp add: well_padded_def)
    then show ?thesis using True by simp
  next
    case False
    then have m: "unat ?m + 32 \<le> unat len" using l assms(1) by (simp add: word_less_nat_alt not_less)
    moreover have "unat len < 2 ^ 32" using unsigned_less [of len] by simp
    ultimately have a: "unat (?m + 32) = unat ?m + 32" using unat_add_small [of ?m 32] by simp
    have "unat (len - (?m + 32)) = unat len - (unat ?m + 32)" using m a by (simp add: unat_sub word_le_nat_alt)
    then show ?thesis using False m assms(2) by (auto simp: well_padded_def word_less_nat_alt)
  qed
qed

lemma decryptServerResponse_opens:
  assumes env: "message_env_ok env" and key: "getAuthKey dc ct False 1 = (Some authKey, authKeyId)" "136 \<le> length authKey"
    and len: "32 \<le> unat len" "unat len mod 16 = 0" and mem: "pos + (24 + unat len) \<le> length mem" "rd pos 8 mem = enc64 keyId"
  defines "packet \<equiv> rd pos (24 + unat len) mem"
  shows "\<exists>plaintext. length plaintext = unat len \<and>
    decryptServerResponse env dc ct keyId (pos + 8) (pos + 24) len mem =
      (open_message env 2 8 authKey authKeyId packet = Some plaintext \<and> well_padded plaintext, wr (pos + 24) plaintext mem) \<and>
    open_message env 2 8 authKey authKeyId packet \<in> {None, Some plaintext}"
proof -
  let ?mk = "rd (pos + 8) 16 mem"
  let ?k = "key_material env 2 8 authKey ?mk"
  define plaintext where "plaintext = ige_open (rd 0 32 ?k) (rd 32 32 ?k) (rd (pos + 24) (unat len) mem)"
  define mem' where "mem' = wr (pos + 24) plaintext mem"
  have p: "rd 8 16 packet = ?mk" "drop 24 packet = rd (pos + 24) (unat len) mem" "take 8 packet = enc64 keyId"
    using mem by (simp_all add: packet_def rd_rd rd_drop rd_take)
  have tl: "length plaintext = unat len"
    using ige_open_seal(4) [of "rd (pos + 24) (unat len) mem" "rd 32 32 ?k"] len(2) mem(1) env by (simp add: plaintext_def)
  define mk1 where "mk1 = wr 32 ?k (old_messageKey env)"
  have gen: "generateMessageKey env authKey ?mk (rd 32 64 (old_messageKey env)) True 2 = ?k"
    using generateMessageKey_material [OF env _ _ key(2), of ?mk "rd 32 64 (old_messageKey env)" True 2] env mem(1) by simp
  have m1: "rd 32 32 mk1 = rd 0 32 ?k" "rd 64 32 mk1 = rd 32 32 ?k" "length mk1 = 96"
    using env by (simp_all add: mk1_def rd_within)
  have dec: "fst (aesIgeEncryption_at env (pos + 24) (rd 32 32 mk1) (rd 64 32 mk1) False False len mem) = mem'"
    using ige_decrypt_at [OF env, of "pos + 24" len mem "rd 64 32 mk1" "rd 32 32 mk1"] mem(1) len(2) m1 env
    by (simp add: mem'_def plaintext_def)
  have r: "rd (pos + 24) (unat len) mem' = plaintext" using mem(1) tl by (simp add: mem'_def rd_wr_same)
  have ml: "load32 (pos + 24 + 28) mem' = load32 28 plaintext"
  proof -
    have "mem' ! (pos + 24 + i) = plaintext ! i" if "i < unat len" for i
      using that mem(1) tl by (simp add: mem'_def wr_def nth_append)
    from this [of 28] this [of 29] this [of 30] this [of 31] show ?thesis using len(1) by (simp add: load32_def ac_simps)
  qed
  define hash where "hash = SHA256 env (rd 96 32 authKey @ plaintext)"
  have h: "length hash = 32" using env by (simp add: hash_def)
  have "(\<exists>i<16. wr 0 hash mk1 ! (i + 8) \<noteq> mem' ! (pos + 8 + i)) \<longleftrightarrow> rd 8 16 hash \<noteq> ?mk"
  proof -
    have "wr 0 hash mk1 ! (i + 8) = rd 8 16 hash ! i" "mem' ! (pos + 8 + i) = ?mk ! i" if "i < 16" for i
      using that h mem(1) by (simp_all add: wr_def rd_def mem'_def nth_append add.commute add.left_commute)
    then show ?thesis using h mem(1) by (auto simp: list_eq_iff_nth_eq)
  qed
  then have "foldl (\<lambda>error i. error \<or> wr 0 hash mk1 ! (i + 8) \<noteq> mem' ! (pos + 8 + i)) e [0..<16] \<longleftrightarrow> e \<or> rd 8 16 hash \<noteq> ?mk" for e
    by (simp only: foldl_or)
  note test = this
  have o: "open_message env 2 8 authKey authKeyId packet = (if keyId = authKeyId \<and> ?mk = rd 8 16 hash then Some plaintext else None)"
    unfolding open_message_def Let_def p plaintext_def [symmetric] message_key_def enc64_inject by (simp add: hash_def)
  have "decryptServerResponse env dc ct keyId (pos + 8) (pos + 24) len mem =
      (\<not> (((((authKeyId \<noteq> keyId \<or> load32 28 plaintext > len - 32) \<or> len - (load32 28 plaintext + 32) < 12) \<or> len - (load32 28 plaintext + 32) > 1024)) \<or>
        rd 8 16 hash \<noteq> ?mk), mem')"
    unfolding decryptServerResponse_def key(1) Let_def prod.case option.case gen mk1_def [symmetric] dec ml
    by (simp add: r test flip: hash_def)
  also have "\<dots> = (open_message env 2 8 authKey authKeyId packet = Some plaintext \<and> well_padded plaintext, mem')"
    unfolding o using padding_test [OF len(1) tl] by auto
  finally show ?thesis using tl o by (intro exI [of _ plaintext]) (simp add: mem'_def)
qed

lemma eight_bytes: "length xs = 8 \<Longrightarrow> \<exists>x. xs = enc64 x"
proof -
  assume "length xs = 8"
  then obtain a b c d e f g h where "xs = [a, b, c, d, e, f, g, h]" by (auto simp: length_Suc_conv numeral_eq_Suc)
  moreover have "enc64 (ucast a OR push_bit 8 (ucast b) OR push_bit 16 (ucast c) OR push_bit 24 (ucast d) OR push_bit 32 (ucast e) OR
      push_bit 40 (ucast f) OR push_bit 48 (ucast g) OR push_bit 56 (ucast h)) = [a, b, c, d, e, f, g, h]"
    by (simp add: enc64_def) (intro conjI; rule bit_eqI; auto simp: bit_simps dest: bit_imp_le_length)
  ultimately show ?thesis by metis
qed

text \<open>The header of a message, and that every text of 32 bytes begins with one.\<close>

definition message_header :: "u64 \<Rightarrow> u64 \<Rightarrow> u64 \<Rightarrow> u32 \<Rightarrow> u32 \<Rightarrow> bytes" where
  "message_header server_salt session_id i n len = enc64 server_salt @ enc64 session_id @ enc64 i @ enc32 n @ enc32 len"

lemma length_message_header [simp]: "length (message_header a b c d e) = 32"
  by (simp add: message_header_def)

lemma load32_header [simp]: "load32 28 (message_header a b c d e @ r) = e"
  using load32_enc32 [of "enc64 a @ enc64 b @ enc64 c @ enc32 d" 28 e r] by (simp add: message_header_def)

lemma begins_with_header:
  assumes "32 \<le> length t"
  obtains a b c d where "t = message_header a b c d (load32 28 t) @ drop 32 t"
proof -
  obtain a b c where x: "rd 0 8 t = enc64 a" "rd 8 8 t = enc64 b" "rd 16 8 t = enc64 c"
    using eight_bytes [of "rd 0 8 t"] eight_bytes [of "rd 8 8 t"] eight_bytes [of "rd 16 8 t"] assms by auto
  have y: "enc32 (load32 24 t) = rd 24 4 t" "enc32 (load32 28 t) = rd 28 4 t" using assms by (simp_all add: enc32_load32)
  have "take 32 t = rd 0 8 t @ rd 8 8 t @ rd 16 8 t @ rd 24 4 t @ rd 28 4 t"
    using rd_append [of 0 8 t 24] rd_append [of 8 8 t 16] rd_append [of 16 8 t 8] rd_append [of 24 4 t 4] by (simp add: rd_def)
  then have "t = message_header a b c (load32 24 t) (load32 28 t) @ drop 32 t"
    using append_take_drop_id [of 32 t] by (simp add: message_header_def x y)
  then show ?thesis by (rule that)
qed

text \<open>Whole blocks are decrypted, from byte 24 of the packet on.\<close>

lemma cut_blocks:
  fixes len :: u32
  assumes "56 < unat len"
  defines "n \<equiv> unat len - (unat len - 24) mod 16"
    and "len' \<equiv> (let padding = (len - 24) mod 16 in if padding \<noteq> 0 then len - padding else len)"
  shows "unat len' = n" "unat (len' - 24) = n - 24" "(n - 24) mod 16 = 0" "32 \<le> n - 24" "n \<le> unat len" "unat len < n + 16"
proof -
  have r: "unat ((len - 24) mod 16) = (unat len - 24) mod 16" using assms(1) by (simp add: unat_mod unat_sub word_le_nat_alt)
  have le: "(unat len - 24) mod 16 \<le> unat len - 24" by simp
  have "unat (len - (len - 24) mod 16) = n"
    using r le assms(1) unfolding n_def by (subst unat_sub) (simp_all add: word_le_nat_alt)
  then show n: "unat len' = n" using r by (simp add: len'_def n_def Let_def unat_eq_0 [symmetric])
  have "(unat len - 24) mod 16 < 16" by simp
  then show bounds: "n \<le> unat len" "unat len < n + 16" using le assms(1) unfolding n_def by linarith+
  show "32 \<le> n - 24"
  proof -
    have "unat len - 24 = 16 * ((unat len - 24) div 16) + (unat len - 24) mod 16" by simp
    moreover have "2 \<le> (unat len - 24) div 16" using assms(1) by simp
    ultimately show ?thesis unfolding n_def by linarith
  qed
  then show "unat (len' - 24) = n - 24" using n by (simp add: unat_sub word_le_nat_alt)
  have "n - 24 = (unat len - 24) - (unat len - 24) mod 16" using le assms(1) unfolding n_def by linarith
  then show "(n - 24) mod 16 = 0" by (simp only: minus_mod_eq_mult_div mod_mult_self1_is_0)
qed

definition whole :: "u32 \<Rightarrow> nat" where
  "whole len = unat len - (unat len - 24) mod 16"

lemma read_message_header_fields:
  assumes b: "buf_ok b" and r: "rest b = message_header a sid i q m @ r"
  shows "\<exists>b'. read_message_header s b = (if sint sid \<noteq> sessionId s then OtherSession else Arrived a i q m b') \<and> rest b' = r"
proof -
  have room: "room b = 32 + length r" using length_rest [OF b] r by simp
  have rest: "rest b = enc64 a @ enc64 sid @ enc64 i @ enc32 q @ enc32 m @ r" using r by (simp add: message_header_def)
  have adv: "buf_ok (advance k b)" "rest (advance k b) = drop k (rest b)" if "k \<le> 32" for k
    using advance_ok [OF b, of k] that room by simp_all
  have "readInt64 e b = (a, e, advance 8 b)" "readInt64 e (advance 8 b) = (sid, e, advance 16 b)" "readInt64 e (advance 16 b) = (i, e, advance 24 b)"
    "readInt32 e (advance 24 b) = (q, e, advance 28 b)" "readInt32 e (advance 28 b) = (m, e, advance 32 b)" for e
    using int64.get_enc [OF b TrueI rest] int64.get_enc [OF adv(1) [of 8] TrueI, of sid] int64.get_enc [OF adv(1) [of 16] TrueI, of i]
      int32.get_enc [OF adv(1) [of 24] TrueI, of q] int32.get_enc [OF adv(1) [of 28] TrueI, of m]
    by (simp_all add: adv(2) rest advance_advance)
  moreover have "rest (advance 32 b) = r" using adv(2) [of 32] by (simp add: rest)
  ultimately show ?thesis by (intro exI [of _ "advance 32 b"]) (simp add: read_message_header_def)
qed

lemma receive_encrypted_decrypts:
  assumes env: "message_env_ok env" and key: "getAuthKey dc ct False 1 = (Some authKey, authKeyId)" "136 \<le> length authKey"
    and data: "buf_ok data" "room data = unat len" "56 < unat len" "take 8 (rest data) = enc64 keyId"
    and blocks: "custom \<or> (unat len - 24) mod 16 = 0"
  shows "\<exists>t b. length t = whole len - 24 \<and> buf_ok b \<and> rest b = t @ drop (whole len) (rest data) \<and>
    open_message env 2 8 authKey authKeyId (take (whole len) (rest data)) \<in> {None, Some t} \<and>
    receive_encrypted env dc ct custom s keyId (buf_position data) len data =
      (if open_message env 2 8 authKey authKeyId (take (whole len) (rest data)) = Some t \<and> well_padded t then read_message_header s b else Refused)"
proof -
  let ?mark = "buf_position data" and ?mem = "buffer data"
  define len' where "len' = (let padding = (len - 24) mod 16 in if padding \<noteq> 0 then len - padding else len)"
  note c = cut_blocks [OF data(3), folded len'_def whole_def]
  have pos: "unat (?mark + 8) = unat ?mark + 8" "unat (?mark + 24) = unat ?mark + 24"
    using unat_advance [OF data(1), of 8] unat_advance [OF data(1), of 24] data(2,3) by simp_all
  have mem: "unat ?mark + unat len \<le> length ?mem" using buf_okD [OF data(1)] data(2) by linarith
  have m: "unat ?mark + (24 + unat (len' - 24)) \<le> length ?mem" "rd (unat ?mark) 8 ?mem = enc64 keyId"
    using mem c data(2-4) by (simp_all add: rest_def rd_take)
  have l: "32 \<le> unat (len' - 24)" "unat (len' - 24) mod 16 = 0" using c by simp_all
  from decryptServerResponse_opens [OF env key l m] obtain t where t: "length t = unat (len' - 24)"
    "decryptServerResponse env dc ct keyId (unat ?mark + 8) (unat ?mark + 24) (len' - 24) ?mem =
      (open_message env 2 8 authKey authKeyId (rd (unat ?mark) (24 + unat (len' - 24)) ?mem) = Some t \<and> well_padded t, wr (unat ?mark + 24) t ?mem)"
    "open_message env 2 8 authKey authKeyId (rd (unat ?mark) (24 + unat (len' - 24)) ?mem) \<in> {None, Some t}"
    by (elim exE conjE)
  have packet: "rd (unat ?mark) (24 + unat (len' - 24)) ?mem = take (whole len) (rest data)"
    using c data(2) by (simp add: rest_def rd_take)
  have tl: "length t = whole len - 24" using t(1) c by simp
  let ?a = "advance 24 data"
  have k: "24 \<le> room data" using data by simp
  note a = advance_ok [OF data(1) k]
  let ?b = "?a\<lparr>buffer := wr (unat (buf_position ?a)) t (buffer ?a)\<rparr>"
  have fit: "length t \<le> room ?a" using a(2) tl c data(2) by simp
  have b: "buf_ok ?b" "rest ?b = t @ drop (whole len) (rest data)"
    using overwritten [OF a(1) fit] a(3) tl c by simp_all
  have setpos: "set_position (?mark + 24) (data\<lparr>buffer := wr (unat ?mark + 24) t ?mem\<rparr>) = ?b"
    using pos buf_okD [OF data(1)] k by (simp add: set_position_def advance_def word_less_nat_alt)
  have "unat ((len - 24) mod 16) = (unat len - 24) mod 16" using data(3) by (simp add: unat_mod unat_sub word_le_nat_alt)
  then have z: "(len - 24) mod 16 = 0 \<longleftrightarrow> (unat len - 24) mod 16 = 0" by (simp add: unat_eq_0 [symmetric])
  have eff: "(if custom then len' else len) = len'" using blocks z by (auto simp: len'_def Let_def)
  have "\<not> len' < 24 + 32" using c by (simp add: word_less_nat_alt)
  moreover have "(len' - 24) mod 16 = 0" using c by (simp add: unat_eq_0 [symmetric] unat_mod)
  ultimately have "receive_encrypted env dc ct custom s keyId ?mark len data =
      (let (ok, mem) = decryptServerResponse env dc ct keyId (unat (?mark + 8)) (unat (?mark + 24)) (len' - 24) ?mem
       in if \<not> ok then Refused else read_message_header s (set_position (?mark + 24) (data\<lparr>buffer := mem\<rparr>)))"
    using blocks z unfolding receive_encrypted_def len'_def [symmetric] eff by (auto simp: Let_def)
  then show ?thesis using t(2,3) b tl unfolding pos packet by (intro exI [of _ t] exI [of _ ?b]) (simp add: setpos)
qed

lemma enc32_inject: "enc32 x = enc32 y \<longleftrightarrow> x = y"
proof
  assume e: "enc32 x = enc32 y"
  show "x = y" using load32_enc32 [of "[]" 0 x "[]"] load32_enc32 [of "[]" 0 y "[]"] unfolding e by simp
qed simp

lemma message_header_inject:
  "message_header a b c d e = message_header a' b' c' d' e' \<longleftrightarrow> a = a' \<and> b = b' \<and> c = c' \<and> d = d' \<and> e = e'"
  by (simp add: message_header_def enc64_inject enc32_inject)

text \<open>The position of the buffer that is handed on does not matter.\<close>

lemma received_later:
  assumes "buf_ok data" "24 \<le> room data"
  shows "receive_encrypted env dc ct custom s keyId (buf_position data) len (advance k data) =
    receive_encrypted env dc ct custom s keyId (buf_position data) len data"
proof -
  have "\<not> buf_limit data < buf_position data + 24"
    using unat_advance [OF assms(1), of 24] buf_okD [OF assms(1)] assms(2) by (simp add: word_less_nat_alt)
  then have "set_position (buf_position data + 24) ((advance k data)\<lparr>buffer := mem\<rparr>) = set_position (buf_position data + 24) (data\<lparr>buffer := mem\<rparr>)" for mem
    by (simp add: set_position_def advance_def)
  then show ?thesis unfolding receive_encrypted_def by (simp only: Let_def append_bytes_fields)
qed

lemma header_blocks: "(length bs + length cs) mod 16 = 0 \<Longrightarrow> length (message_header a b c d e @ bs @ cs) mod 16 = 0"
  by (simp add: mod_eq_0_iff_dvd)

lemma whole_sum: "unat len = 24 + n + j \<Longrightarrow> n mod 16 = 0 \<Longrightarrow> j < 16 \<Longrightarrow> whole len = 24 + n"
proof -
  assume len: "unat len = 24 + n + j" and n: "n mod 16 = 0" and j: "j < 16"
  have "(n + j) mod 16 = j" using mod_add_left_eq [of n 16 j, symmetric] n j by simp
  then show ?thesis by (simp add: whole_def len)
qed

text \<open>A packet arrives exactly if it can be opened, is padded, and names the session.\<close>

lemma opened_arrives:
  assumes "message_env_ok env" "getAuthKey dc ct False 1 = (Some authKey, authKeyId)" "136 \<le> length authKey"
    and "buf_ok data" "room data = unat len" "56 < unat len" "take 8 (rest data) = enc64 keyId" "keyId \<noteq> 0"
  shows "(\<exists>data'. encrypted_packet_received env dc ct custom s len data = Some (Arrived a i q m data') \<and> rest data' = follows) \<longleftrightarrow>
    (custom \<or> (unat len - 24) mod 16 = 0) \<and>
    (\<exists>sid d. open_message env 2 8 authKey authKeyId (take (whole len) (rest data)) = Some (message_header a sid i q m @ d) \<and>
       well_padded (message_header a sid i q m @ d) \<and> sint sid = sessionId s \<and> follows = d @ drop (whole len) (rest data))"
    (is "?arrives \<longleftrightarrow> ?blocks \<and> ?opened")
proof -
  have k: "rest data = enc64 keyId @ drop 8 (rest data)" using assms(7) by (metis append_take_drop_id)
  have "\<not> len \<le> 24 + 32" using assms(6) by (simp add: word_le_nat_alt)
  then have on: "encrypted_packet_received env dc ct custom s len data =
      Some (receive_encrypted env dc ct custom s keyId (buf_position data) len data)"
    using int64.get_enc [OF assms(4) TrueI k] assms(8) received_later [OF assms(4), of env dc ct custom s keyId len 8] assms(5,6)
    by (simp add: encrypted_packet_received_def)
  show ?thesis
  proof (cases ?blocks)
    case False
    then have "(len - 24) mod 16 \<noteq> 0" using assms(6) by (simp add: unat_eq_0 [symmetric] unat_mod unat_sub word_le_nat_alt)
    then have "receive_encrypted env dc ct custom s keyId (buf_position data) len data = Refused" using False by (simp add: receive_encrypted_def)
    then show ?thesis using False unfolding on by simp
  next
    case True
    let ?o = "open_message env 2 8 authKey authKeyId (take (whole len) (rest data))"
    obtain t b where t: "length t = whole len - 24" "buf_ok b" "rest b = t @ drop (whole len) (rest data)" "?o \<in> {None, Some t}"
      "receive_encrypted env dc ct custom s keyId (buf_position data) len data = (if ?o = Some t \<and> well_padded t then read_message_header s b else Refused)"
      using receive_encrypted_decrypts [OF assms(1-7) True] by blast
    have "32 \<le> length t" using cut_blocks(4) [OF assms(6), folded whole_def] t(1) by simp
    then obtain a' sid i' q' where h: "t = message_header a' sid i' q' (load32 28 t) @ drop 32 t" by (rule begins_with_header)
    define m' d where "m' = load32 28 t" and "d = drop 32 t"
    have td: "t = message_header a' sid i' q' m' @ d" using h by (simp only: m'_def d_def)
    have "rest b = message_header a' sid i' q' m' @ d @ drop (whole len) (rest data)" using t(3) td by simp
    from read_message_header_fields [OF t(2) this, of s] obtain b' where
      b': "read_message_header s b = (if sint sid \<noteq> sessionId s then OtherSession else Arrived a' i' q' m' b')" "rest b' = d @ drop (whole len) (rest data)" by blast
    have "?arrives \<longleftrightarrow> ?o = Some t \<and> well_padded t \<and> sint sid = sessionId s \<and> a' = a \<and> i' = i \<and> q' = q \<and> m' = m \<and>
        follows = d @ drop (whole len) (rest data)"
      unfolding on t(5) using b' by auto
    also have "\<dots> \<longleftrightarrow> ?opened"
    proof
      assume "?o = Some t \<and> well_padded t \<and> sint sid = sessionId s \<and> a' = a \<and> i' = i \<and> q' = q \<and> m' = m \<and> follows = d @ drop (whole len) (rest data)"
      then show ?opened unfolding td by blast
    next
      assume ?opened
      then obtain sid2 d2 where o: "?o = Some (message_header a sid2 i q m @ d2)" "well_padded (message_header a sid2 i q m @ d2)"
        "sint sid2 = sessionId s" "follows = d2 @ drop (whole len) (rest data)" by blast
      then have e: "t = message_header a sid2 i q m @ d2" using t(4) by auto
      then have "message_header a' sid i' q' m' = message_header a sid2 i q m" "d = d2" using td by (simp_all add: append_eq_append_conv)
      then show "?o = Some t \<and> well_padded t \<and> sint sid = sessionId s \<and> a' = a \<and> i' = i \<and> q' = q \<and> m' = m \<and>
          follows = d @ drop (whole len) (rest data)"
        using o e by (simp add: message_header_inject)
    qed
    finally show ?thesis using True by simp
  qed
qed

text \<open>
  C18. Of the packets that begin with a key id, the connection accepts exactly those that the owner of its key has made: packets
  that are sealed with the key of the connection and its id, name the session of the connection, and have a body of
  the length that they state and 12 to 1024 bytes of padding.  Anything else, also a length that would wrap around, is refused.
  (When the transport pads, up to 15 more bytes can follow.)
\<close>

theorem accepted_messages_are_sealed:
  assumes "message_env_ok env" "getAuthKey dc ct False 1 = (Some authKey, authKeyId)" "136 \<le> length authKey"
    and "buf_ok data" "room data = unat len" "56 < unat len" "take 8 (rest data) = enc64 keyId" "keyId \<noteq> 0"
  shows "(\<exists>data'. encrypted_packet_received env dc ct custom s len data = Some (Arrived a i q m data') \<and> rest data' = follows) \<longleftrightarrow>
    (\<exists>sid body padding junk. rest data = sealed env 2 8 authKey authKeyId (message_header a sid i q m @ body @ padding) @ junk \<and>
       follows = body @ padding @ junk \<and> sint sid = sessionId s \<and> length body = unat m \<and> 12 \<le> length padding \<and> length padding \<le> 1024 \<and>
       (length body + length padding) mod 16 = 0 \<and> length junk < 16 \<and> (custom \<or> junk = []))" (is "?arrives \<longleftrightarrow> ?made")
proof -
  let ?packet = "take (whole len) (rest data)"
  have len: "length (rest data) = unat len" using assms(4,5) by simp
  note c = cut_blocks [OF assms(6), folded whole_def]
  show ?thesis unfolding opened_arrives [OF assms]
  proof (intro iffI; elim conjE exE)
    fix sid d
    assume b: "custom \<or> (unat len - 24) mod 16 = 0" and w: "well_padded (message_header a sid i q m @ d)" and s: "sint sid = sessionId s"
      and o: "open_message env 2 8 authKey authKeyId ?packet = Some (message_header a sid i q m @ d)" and f: "follows = d @ drop (whole len) (rest data)"
    define junk where "junk = drop (whole len) (rest data)"
    have "length ?packet = whole len" "24 \<le> whole len" using len c(4,5) by simp_all
    note sl = sealed_open [OF assms(1) _ _ o, unfolded this(1), OF this(2) c(3)]
    have d: "d = take (unat m) d @ drop (unat m) d" by simp
    have "rest data = sealed env 2 8 authKey authKeyId (message_header a sid i q m @ take (unat m) d @ drop (unat m) d) @ junk"
      using sl(1) append_take_drop_id [of "whole len" "rest data"] by (simp add: junk_def)
    moreover have "follows = take (unat m) d @ drop (unat m) d @ junk" using f d by (metis append.assoc junk_def)
    moreover have "length (take (unat m) d) = unat m" "12 \<le> length (drop (unat m) d)" "length (drop (unat m) d) \<le> 1024"
      using w [unfolded well_padded_def] by auto
    moreover have "(length (take (unat m) d) + length (drop (unat m) d)) mod 16 = 0"
    proof -
      have "(32 + x) mod 16 = 0 \<Longrightarrow> x mod 16 = 0" for x :: nat by presburger
      from this [of "length d"] have "length d mod 16 = 0" using sl(2) c(3) by simp
      then show ?thesis using d by (metis length_append)
    qed
    moreover have "length junk < 16" "custom \<or> junk = []" using len c(6) b by (auto simp: whole_def junk_def)
    ultimately show ?made using s by (intro exI conjI)
  next
    fix sid body padding junk
    assume m: "rest data = sealed env 2 8 authKey authKeyId (message_header a sid i q m @ body @ padding) @ junk"
      "follows = body @ padding @ junk" "sint sid = sessionId s" "length body = unat m" "12 \<le> length padding" "length padding \<le> 1024"
      "(length body + length padding) mod 16 = 0" "length junk < 16" "custom \<or> junk = []"
    let ?t = "message_header a sid i q m @ body @ padding"
    note tm = header_blocks [OF m(7), of a sid i q m]
    note os = open_sealed [OF assms(1) tm]
    have l: "unat len = 24 + length ?t + length junk" using len m(1) os(2) by simp
    note w = whole_sum [OF l tm m(8)]
    have "?packet = sealed env 2 8 authKey authKeyId ?t" "drop (whole len) (rest data) = junk" using m(1) os(2) w by simp_all
    then show "(custom \<or> (unat len - 24) mod 16 = 0) \<and>
        (\<exists>sid d. open_message env 2 8 authKey authKeyId ?packet = Some (message_header a sid i q m @ d) \<and>
           well_padded (message_header a sid i q m @ d) \<and> sint sid = sessionId s \<and> follows = d @ drop (whole len) (rest data))"
      using os(1) m l tm by (intro conjI exI [of _ sid] exI [of _ "body @ padding"]) (auto simp: well_padded_def)
  qed
qed

section \<open>Sending seals a message\<close>

lemma encrypt_message_seals:
  assumes env: "message_env_ok env" and key: "136 \<le> length authKey" and L: "unat (32 + n + k) = L" "unat (32 + n) = 32 + unat n" "L mod 16 = 0" "32 \<le> L"
    and b: "buf_limit b = 24 + (32 + n + k)" "24 + L < 2 ^ 32" "24 + L \<le> length (buffer b)" "rd 0 8 (buffer b) = enc64 keyId"
    and n: "load32 28 (rd 24 L (buffer b)) = n" and le: "32 + unat n \<le> L"
  defines "t \<equiv> rd 24 L (buffer b)"
  shows "\<exists>mem. encrypt_message env version authKey n k b =
      (load32 0 (if version = 2 then SHA256 env (rd 88 32 authKey @ t) else SHA1 env (take (32 + unat n) t)) AND 0x7fffffff, b\<lparr>buffer := mem\<rparr>) \<and>
    length mem = length (buffer b) \<and> rd 0 (24 + L) mem = sealed env version 0 authKey keyId t"
proof -
  let ?h = "if version = 2 then SHA256 env (rd 88 32 authKey @ t) else SHA1 env (take (32 + unat n) t)"
  let ?p = "if version = 2 then 0 else 4 :: nat"
  define m1 where "m1 = wr ?p ?h (old_messageKey env)"
  have tl: "length t = L" using b(3) by (simp add: t_def)
  have t1: "rd 24 (32 + unat n) (buffer b) = take (32 + unat n) t" using le by (simp add: t_def rd_take)
  have h: "length ?h = (if version = 2 then 32 else 20)" using env by simp
  have m1: "length m1 = 96" using env h by (simp add: m1_def)
  have "load32 ?p m1 = load32 0 ?h" using h env by (simp add: m1_def load32_def wr_def nth_append, simp add: numeral_2_eq_2)
  moreover have "rd 8 16 m1 = message_key env version 0 authKey t"
    using h env n by (simp add: m1_def message_key_def rd_within t_def [symmetric])
  ultimately have first: "load32 ?p m1 = load32 0 ?h" "rd 8 16 m1 = message_key env version 0 authKey t" .
  let ?mk = "message_key env version 0 authKey t"
  let ?k = "key_material env version 0 authKey ?mk"
  define m2 where "m2 = wr 32 ?k m1"
  have gen: "generateMessageKey env authKey (rd 8 16 m1) (rd 32 64 m1) False version = ?k"
    using generateMessageKey_material [OF env _ _ key, of ?mk "rd 32 64 m1" False version] env m1 first(2) by simp
  have m2: "rd 32 32 m2 = rd 0 32 ?k" "rd 64 32 m2 = rd 32 32 ?k" using env m1 by (simp_all add: m2_def rd_within)
  define mem1 where "mem1 = wr 8 ?mk (buffer b)"
  have l1: "length mem1 = length (buffer b)" using env b(3) L(4) by (simp add: mem1_def)
  have t: "rd 24 L mem1 = t" using env b(3) by (simp add: mem1_def rd_wr_after t_def)
  define mem where "mem = wr 24 (ige_seal (rd 0 32 ?k) (rd 32 32 ?k) t) mem1"
  have lim: "unat (buf_limit b - 24) = L" by (simp only: b(1) add_diff_cancel_left' L(1))
  have enc: "fst (aesIgeEncryption_at env 24 (rd 32 32 m2) (rd 64 32 m2) True False (buf_limit b - 24) mem1) = mem"
    using ige_encrypt_at [OF env, of 24 "buf_limit b - 24" mem1 "rd 64 32 m2" "rd 32 32 m2"] b(3) L(3) m2 env l1
    by (simp add: lim mem_def t)
  have "encrypt_message env version authKey n k b = (load32 0 ?h AND 0x7fffffff, b\<lparr>buffer := mem\<rparr>)"
  proof (cases "version = 2")
    case True
    then have "m1 = wr 0 (SHA256 env (rd 88 32 authKey @ t)) (old_messageKey env)" by (simp add: m1_def)
    then show ?thesis using True first enc
      by (simp add: encrypt_message_def Let_def L(1) t_def [symmetric] mem1_def gen [unfolded True, symmetric] m2_def)
  next
    case False
    then have "m1 = wr 4 (SHA1 env (take (32 + unat n) t)) (old_messageKey env)" by (simp add: m1_def)
    then show ?thesis using False first enc
      by (simp add: encrypt_message_def Let_def L(2) t1 t_def [symmetric] mem1_def gen [symmetric] m2_def)
  qed
  moreover have "length mem = length (buffer b)" "rd 0 (24 + L) mem = sealed env version 0 authKey keyId t"
  proof -
    have s: "length (ige_seal (rd 0 32 ?k) (rd 32 32 ?k) t) = L" using ige_open_seal(2) [of t "rd 32 32 ?k"] tl L(3) env by simp
    then show "length mem = length (buffer b)" using l1 b(3) by (simp add: mem_def)
    have "rd 0 (24 + L) mem = rd 0 8 mem @ rd 8 16 mem @ rd 24 L mem"
      using rd_append [of 0 8 mem "16 + L"] rd_append [of 8 16 mem L] by simp
    moreover have "rd 0 8 mem = enc64 keyId" "rd 8 16 mem = ?mk" "rd 24 L mem = ige_seal (rd 0 32 ?k) (rd 32 32 ?k) t"
      using s l1 b(3,4) env by (simp_all add: mem_def mem1_def rd_wr_before rd_wr_same)
    ultimately show "rd 0 (24 + L) mem = sealed env version 0 authKey keyId t" by (simp add: sealed_def Let_def)
  qed
  ultimately show ?thesis by blast
qed

lemma fill_block: "(x + (16 - x mod 16)) mod 16 = (0 :: nat)"
proof -
  have "16 * q + r + (16 - r) = 16 * (q + 1)" if "r < 16" for q r :: nat using that by simp
  from this [of "x mod 16" "x div 16"] have "x + (16 - x mod 16) = 16 * (x div 16 + 1)" by simp
  then show ?thesis by (simp only: mod_mult_self1_is_0)
qed

lemma additional_size_bounds:
  assumes m: "unat m < 2 ^ 30"
  shows "(32 + unat m + unat (additional_size version i m)) mod 16 = 0" "unat (additional_size version i m) < 256"
    and "if version = 2 then 32 \<le> unat (additional_size version i m) else unat (additional_size version i m) < 16"
proof -
  let ?x = "32 + unat m"
  have x: "unat (32 + m) = ?x" using unat_add_small [of 32 m] m by simp
  define r where "r = (32 + m) mod 16"
  define k0 where "k0 = (if r \<noteq> 0 then 16 - r else r)"
  have r: "unat r = ?x mod 16" using x by (simp add: r_def unat_mod)
  have rl: "unat r < 16" unfolding r by simp
  have k0: "unat k0 < 16" "(?x + unat k0) mod 16 = 0"
  proof -
    have "r \<noteq> 0 \<Longrightarrow> unat k0 = 16 - unat r" using rl by (simp add: k0_def unat_sub word_le_nat_alt)
    then have k: "unat k0 = (if ?x mod 16 = 0 then 0 else 16 - ?x mod 16)" using r by (auto simp: k0_def unat_eq_0 [symmetric])
    show "unat k0 < 16" by (simp add: k)
    show "(?x + unat k0) mod 16 = 0" unfolding k using fill_block [of ?x] by simp
  qed
  define j where "j = unat (ucast i mod 14 :: u32)"
  have j: "j < 14" by (simp add: j_def unat_mod)
  have p: "unat ((2 + ucast i mod 14) * 16 :: u32) = (2 + j) * 16"
  proof -
    have h: "unat (2 + ucast i mod 14 :: u32) = 2 + j" using unat_add_small [of 2 "ucast i mod 14"] j by (simp add: j_def)
    have "unat ((2 + ucast i mod 14) * 16 :: u32) = (2 + j) * unat (16 :: u32) mod 2 ^ LENGTH(32)" by (simp only: unat_word_ariths(2) h)
    also have "\<dots> = (2 + j) * 16" using j by simp
    finally show ?thesis .
  qed
  have "unat (k0 + (2 + ucast i mod 14) * 16) = unat k0 + (2 + j) * 16"
    unfolding p [symmetric] by (rule unat_add_small) (use p k0(1) j in simp)
  moreover have "additional_size version i m = (if version = 2 then k0 + (2 + ucast i mod 14) * 16 else k0)"
    unfolding additional_size_def Let_def r_def [symmetric] k0_def [symmetric] by (rule refl)
  ultimately have k: "unat (additional_size version i m) = (if version = 2 then unat k0 + (2 + j) * 16 else unat k0)" by simp
  show "unat (additional_size version i m) < 256" "if version = 2 then 32 \<le> unat (additional_size version i m) else unat (additional_size version i m) < 16"
    unfolding k using k0(1) j by simp_all
  have "(?x + unat k0 + (2 + j) * 16) mod 16 = 0" by (simp only: mod_mult_self1 k0(2))
  then have "(?x + (unat k0 + (2 + j) * 16)) mod 16 = 0" by (simp only: add.assoc)
  then show "(?x + unat (additional_size version i m)) mod 16 = 0" unfolding k using k0(2) by (cases "version = 2") (simp_all only: if_True if_False refl)
qed

text \<open>The header and the body are written behind the place of the key.\<close>

lemma message_header_written:
  assumes "buf_ok b" "32 \<le> room b"
  shows "snd (writeInt32 m None (snd (writeInt32 q None (snd (writeInt64 i None (snd (writeInt64 sid None (snd (writeInt64 a None b))))))))) =
    append_bytes (message_header a sid i q m) b"
proof -
  have ok: "buf_ok (append_bytes bs b)" "room (append_bytes bs b) = room b - length bs" if "length bs \<le> 32" for bs
    using append_bytes_ok [OF assms(1), of bs] that assms(2) by simp_all
  have j: "append_bytes cs (append_bytes bs b) = append_bytes (bs @ cs) b" if "length bs + length cs \<le> 32" for bs cs
    using append_bytes_append [OF assms(1), of bs cs] that assms(2) by simp
  show ?thesis using assms by (simp add: int64.put_fits int32.put_fits ok j message_header_def)
qed

text \<open>The text of a packet is in its buffer before it is encrypted.\<close>

lemma text_written:
  fixes keyId a sid i :: u64 and q m :: u32
  assumes b: "buf_ok b" "buf_position b = 0" "room b = 24 + (32 + n + k)" and vs: "valid_values vs" "length (enc_values vs) = n"
    and pad: "length pad = k" and sz: "unat m = n"
  defines "c1 \<equiv> set_position 24 (snd (writeInt64 keyId None b))"
  defines "c2 \<equiv> serialize_values vs (append_bytes (message_header a sid i q m) c1)"
  defines "c3 \<equiv> c2\<lparr>buffer := wr (24 + 32 + n) pad (buffer c2)\<rparr>"
  shows "buf_ok c1" "32 \<le> room c1" "buf_ok c3" "buf_limit c3 = buf_limit b" "rd 0 8 (buffer c3) = enc64 keyId"
    and "rd 24 (32 + n + k) (buffer c3) = message_header a sid i q m @ enc_values vs @ pad" "24 + (32 + n + k) \<le> length (buffer c3)"
proof -
  let ?h = "message_header a sid i q m"
  have fit: "length (enc64 keyId) \<le> room b" using b(3) by simp
  have w: "snd (writeInt64 keyId None b) = append_bytes (enc64 keyId) b" using int64.put_fits [OF b(1) TrueI fit] by simp
  note e = append_bytes_ok [OF b(1) fit]
  have p8: "buf_position (append_bytes (enc64 keyId) b) = 8" by (simp add: append_bytes_def b(2))
  have "24 \<le> buf_limit b" using buf_okD(6) [OF b(1)] b(2,3) by (simp add: word_le_nat_alt)
  then have c1: "c1 = advance 16 (append_bytes (enc64 keyId) b)"
    unfolding c1_def w by (simp add: set_position_def advance_def p8 not_less)
  have r16: "16 \<le> room (append_bytes (enc64 keyId) b)" using e(2) b(3) by simp
  note a1 = advance_ok [OF e(1) r16]
  show ok1: "buf_ok c1" and "32 \<le> room c1" using a1(1,2) e(2) b(3) by (simp_all add: c1)
  have p1: "unat (buf_position c1) = 24" using a1(4) p8 by (simp add: c1)
  have room1: "room c1 = 32 + n + k" using a1(2) e(2) b(3) by (simp add: c1)
  have fh: "length ?h \<le> room c1" using room1 by simp
  note h = append_bytes_ok [OF ok1 fh]
  have fv: "length (enc_values vs) \<le> room (append_bytes ?h c1)" using h(2) room1 vs(2) by simp
  have c2: "c2 = append_bytes (?h @ enc_values vs) c1"
    using put_values_fits [OF h(1) vs(1) fv, of None] append_bytes_append [OF ok1, of ?h "enc_values vs"] room1 vs(2)
    by (simp add: c2_def serialize_values_def)
  have f2: "length (?h @ enc_values vs) \<le> room c1" using room1 vs(2) by simp
  note o2 = append_bytes_ok [OF ok1 f2, folded c2]
  have l1: "24 + (32 + n + k) \<le> length (buffer c1)" using buf_okD [OF ok1] p1 room1 by simp
  have m2: "buffer c2 = wr 24 (?h @ enc_values vs) (buffer c1)" by (simp add: c2 append_bytes_def p1)
  have m3: "buffer c3 = wr 24 (?h @ enc_values vs @ pad) (buffer c1)"
    using wr_join [of "24 + 32 + n" 24 "?h @ enc_values vs" pad "buffer c1"] vs(2) pad l1 by (simp add: c3_def m2)
  have len: "length (buffer c3) = length (buffer c1)" unfolding m3 using l1 vs(2) pad by simp
  then show "24 + (32 + n + k) \<le> length (buffer c3)" using l1 by simp
  show "rd 24 (32 + n + k) (buffer c3) = ?h @ enc_values vs @ pad" unfolding m3 using l1 vs(2) pad by (simp add: rd_wr_same)
  have "length (buffer c2) = length (buffer c1)" unfolding m2 using l1 vs(2) by simp
  then have "length (buffer c3) = length (buffer c2)" using len by simp
  then show "buf_ok c3" using o2(1) by (simp add: buf_ok_def c3_def)
  show "buf_limit c3 = buf_limit b" by (simp add: c3_def c2 c1)
  have "rd 0 8 (buffer c1) = enc64 keyId"
    using b fit buf_okD [OF b(1)] by (simp add: c1 append_bytes_def rd_wr_same)
  then show "rd 0 8 (buffer c3) = enc64 keyId" unfolding m3 using l1 by (simp add: rd_wr_before)
qed

lemma choose_message_state:
  assumes "choose_message inp pfsInit requests st = (i, n, vs, st1)"
  shows "send_storage st1 = send_storage st" "send_salts st1 = send_salts st" "sizeCalculatorBuffer st1 = sizeCalculatorBuffer st"
    "sessionId (send_session st1) = sessionId (send_session st)"
  using assms by (auto simp: choose_message_def new_message_id_def new_seqno_def generateMessageSeqNo_def Let_def split: if_splits)

text \<open>What the message is sealed with.\<close>

definition salt_and_session :: "send_inputs \<Rightarrow> u32 \<Rightarrow> bool \<Rightarrow> send_state \<Rightarrow> u64 \<times> u64" where
  "salt_and_session inp ct pfsInit st =
     (if pfsInit then (random_salt inp, random_session inp)
      else (fst (getServerSalt (getCurrentTime inp) (isMediaConnectionType ct) (send_salts st)), word_of_int (sessionId (send_session st))))"

lemma createRequestsData_seals:
  assumes env: "message_env_ok env" and key: "getAuthKey dc ct pfsInit 1 = (Some authKey, authKeyId)" "136 \<le> length authKey"
    and st: "storage_ok (send_storage st)" "\<And>n. length (fresh n) = n" "calculateSizeOnly (sizeCalculatorBuffer st)"
    and pad: "\<And>n. length (random_padding inp n) = n"
    and msg: "choose_message inp pfsInit requests st = (i, q, vs, st1)" "valid_values vs" "length (enc_values vs) < 2 ^ 30"
  defines "m \<equiv> of_nat (length (enc_values vs)) :: u32" and "version \<equiv> if pfsInit then 1 else 2 :: nat"
  defines "k \<equiv> additional_size version (random_index inp) m"
  defines "t \<equiv> (case salt_and_session inp ct pfsInit st of (a, sid) \<Rightarrow>
      message_header a sid (word_of_int i) q m @ enc_values vs @ random_padding inp (unat k))"
  shows "\<exists>b st'. createRequestsData env fresh inp dc ct pfsInit requests st =
      (Some (load32 0 (if version = 2 then SHA256 env (rd 88 32 authKey @ t) else SHA1 env (take (32 + unat m) t)) AND 0x7fffffff, b), st') \<and>
    take (unat (buf_limit b)) (buffer b) = sealed env version 0 authKey authKeyId t"
proof -
  have m: "unat m = length (enc_values vs)" unfolding m_def using msg(3) by (intro unat_small) simp
  then have m30: "unat m < 2 ^ 30" using msg(3) by simp
  note ks = additional_size_bounds [OF m30, of version "random_index inp", folded k_def]
  note cs = choose_message_state [OF msg(1)]
  obtain c' where size: "getObjectSize (serialize_values vs) (sizeCalculatorBuffer st1) = (m, c')"
    using getObjectSize_values [of "sizeCalculatorBuffer st1" vs] st(3) cs(3) msg(2)
    by (cases "getObjectSize (serialize_values vs) (sizeCalculatorBuffer st1)") (simp add: m_def)
  define L where "L = 32 + unat m + unat k"
  have sums: "unat (32 + m) = 32 + unat m" using unat_add_small [of 32 m] m30 by simp
  then have sum: "unat (32 + m + k) = L" using unat_add_small [of "32 + m" k] m30 ks(2) by (simp add: L_def)
  then have all: "unat (24 + (32 + m + k)) = 24 + L" using unat_add_small [of 24 "32 + m + k"] m30 ks(2) by (simp add: L_def)
  obtain b storage where g: "getFreeBuffer fresh (24 + (32 + m + k)) (send_storage st1) = (b, storage)" by fastforce
  have "unat (24 + (32 + m + k)) < 2 ^ 31" using all m30 ks(2) by (simp add: L_def)
  from getFreeBuffer_ok [OF _ this st(2) g] st(1) cs(1)
  have b: "buf_ok b" "buf_position b = 0" "room b = 24 + (32 + length (enc_values vs) + unat k)" "buf_limit b = 24 + (32 + m + k)"
    using all m by (simp_all add: L_def)
  obtain a sid where as: "salt_and_session inp ct pfsInit st = (a, sid)" by fastforce
  define c1 where "c1 = set_position 24 (snd (writeInt64 authKeyId None b))"
  define c2 where "c2 = serialize_values vs (append_bytes (message_header a sid (word_of_int i) q m) c1)"
  define c3 where "c3 = c2\<lparr>buffer := wr (24 + 32 + length (enc_values vs)) (random_padding inp (unat k)) (buffer c2)\<rparr>"
  have w: "buf_ok c1" "32 \<le> room c1" "buf_ok c3" "buf_limit c3 = buf_limit b" "rd 0 8 (buffer c3) = enc64 authKeyId"
      "rd 24 (32 + length (enc_values vs) + unat k) (buffer c3) =
        message_header a sid (word_of_int i) q m @ enc_values vs @ random_padding inp (unat k)"
      "24 + (32 + length (enc_values vs) + unat k) \<le> length (buffer c3)"
    unfolding c3_def c2_def c1_def by (rule text_written [OF b(1-3) msg(2) refl pad m])+
  have t: "rd 24 L (buffer c3) = t" using w(6) as m by (simp add: t_def L_def)
  have l: "load32 28 (rd 24 L (buffer c3)) = m" unfolding t using as by (simp add: t_def)
  have lim: "buf_limit c3 = 24 + (32 + m + k)" using w(4) b(4) by simp
  have L16: "L mod 16 = 0" "32 \<le> L" "24 + L < 2 ^ 32" "24 + L \<le> length (buffer c3)" "32 + unat m \<le> L"
    using ks(1,2) m30 w(7) m by (simp_all add: L_def)
  obtain mem where e: "encrypt_message env version authKey m k c3 =
      (load32 0 (if version = 2 then SHA256 env (rd 88 32 authKey @ t) else SHA1 env (take (32 + unat m) t)) AND 0x7fffffff, c3\<lparr>buffer := mem\<rparr>)"
    "length mem = length (buffer c3)" "rd 0 (24 + L) mem = sealed env version 0 authKey authKeyId t"
    using encrypt_message_seals [OF env key(2) sum sums L16(1,2) lim L16(3,4) w(5) l L16(5), of version] unfolding t by blast
  have c3': "(if k \<noteq> 0 then c2\<lparr>buffer := wr (24 + 32 + unat m) (random_padding inp (unat k)) (buffer c2)\<rparr> else c2) = c3"
    using pad [of 0] m by (cases "k = 0") (simp_all add: c3_def)
  have hw: "snd (writeInt32 m None (snd (writeInt32 q None (snd (writeInt64 (word_of_int i) None (snd (writeInt64 sid None (snd (writeInt64 a None c1))))))))) =
      append_bytes (message_header a sid (word_of_int i) q m) c1" by (rule message_header_written [OF w(1,2)])
  let ?st = "st1\<lparr>sizeCalculatorBuffer := c', send_storage := storage\<rparr>"
  obtain st2 where s: "(if pfsInit then (random_salt inp, random_session inp, ?st)
      else case getServerSalt (getCurrentTime inp) (isMediaConnectionType ct) (send_salts ?st) of
        (server_salt, d) \<Rightarrow> (server_salt, word_of_int (sessionId (send_session ?st)), ?st\<lparr>send_salts := d\<rparr>)) = (a, sid, st2)"
    using as cs by (auto simp: salt_and_session_def case_prod_beta split: if_splits)
  have g': "getFreeBuffer fresh (24 + 32 + m + k) (send_storage st1) = (b, storage)" using g by (simp only: add.assoc)
  have "\<exists>st'. createRequestsData env fresh inp dc ct pfsInit requests st = (Some (encrypt_message env version authKey m k c3), st')"
    by (intro exI [of _ st2]) (simp only: createRequestsData_def Let_def key(1) msg(1) size prod.case option.case g' s hw
        c2_def [symmetric] c1_def [symmetric] c3' version_def [symmetric] k_def [symmetric])
  then obtain st' where "createRequestsData env fresh inp dc ct pfsInit requests st = (Some (encrypt_message env version authKey m k c3), st')" ..
  moreover have "take (unat (buf_limit (c3\<lparr>buffer := mem\<rparr>))) mem = sealed env version 0 authKey authKeyId t"
    using e(3) lim all by (simp add: rd_def)
  ultimately show ?thesis unfolding e(1) by (intro exI [of _ "c3\<lparr>buffer := mem\<rparr>"] exI [of _ st']) simp
qed

text \<open>
  C19. What \<open>createRequestsData\<close> makes of requests, the server opens: with the same key, the packet up to its limit
  authenticates, names the key, and gives the salt and the session that were chosen, the id, the number and the size of the message, its
  fields as they are serialised, and a padding to whole blocks of fewer than 16 bytes for the binding of a temporary key, and
  of 32 to 255 otherwise.  The id of the quick acknowledgement is what the server computes from the text.
\<close>

theorem requests_reach_server:
  assumes "message_env_ok env" "getAuthKey dc ct pfsInit 1 = (Some authKey, authKeyId)" "136 \<le> length authKey"
    and "storage_ok (send_storage st)" "\<forall>n. length (fresh n) = n" "calculateSizeOnly (sizeCalculatorBuffer st)"
    and "\<forall>n. length (random_padding inp n) = n" "salt_and_session inp ct pfsInit st = (a, sid)"
    and "choose_message inp pfsInit requests st = (i, q, vs, st1)" "valid_values vs" "length (enc_values vs) < 2 ^ 30"
  shows "\<exists>b padding st'. let t = message_header a sid (word_of_int i) q (of_nat (length (enc_values vs))) @ enc_values vs @ padding in
    createRequestsData env fresh inp dc ct pfsInit requests st =
      (Some (load32 0 (if pfsInit then SHA1 env (take (32 + length (enc_values vs)) t) else SHA256 env (rd 88 32 authKey @ t)) AND 0x7fffffff, b), st') \<and>
    open_message env (if pfsInit then 1 else 2) 0 authKey authKeyId (take (unat (buf_limit b)) (buffer b)) = Some t \<and>
    length t mod 16 = 0 \<and> (if pfsInit then length padding < 16 else 32 \<le> length padding \<and> length padding < 256)"
proof -
  let ?m = "of_nat (length (enc_values vs)) :: u32" and ?v = "if pfsInit then 1 else 2 :: nat"
  let ?k = "additional_size ?v (random_index inp) ?m"
  let ?p = "random_padding inp (unat ?k)"
  let ?t = "message_header a sid (word_of_int i) q ?m @ enc_values vs @ ?p"
  have m: "unat ?m = length (enc_values vs)" using assms(11) by (intro unat_small) simp
  then have "unat ?m < 2 ^ 30" using assms(11) by simp
  note k = additional_size_bounds [OF this, of ?v "random_index inp"]
  have p: "length ?p = unat ?k" using assms(7) by simp
  have t: "length ?t mod 16 = 0" using k(1) m p by (simp add: add.assoc)
  from createRequestsData_seals [OF assms(1-4) _ assms(6) _ assms(9-11)] assms(5,7)
  obtain b st' where b: "createRequestsData env fresh inp dc ct pfsInit requests st =
      (Some (load32 0 (if ?v = 2 then SHA256 env (rd 88 32 authKey @ ?t) else SHA1 env (take (32 + unat ?m) ?t)) AND 0x7fffffff, b), st')"
    "take (unat (buf_limit b)) (buffer b) = sealed env ?v 0 authKey authKeyId ?t"
    unfolding assms(8) prod.case by (metis (no_types, lifting))
  have v: "?v = 2 \<longleftrightarrow> \<not> pfsInit" by simp
  have "open_message env ?v 0 authKey authKeyId (take (unat (buf_limit b)) (buffer b)) = Some ?t"
    unfolding b(2) by (rule open_sealed(1) [OF assms(1) t])
  moreover have "if pfsInit then length ?p < 16 else 32 \<le> length ?p \<and> length ?p < 256" using k(2,3) p by (simp split: if_splits)
  ultimately show ?thesis using b(1) t unfolding Let_def m v by (intro exI [of _ b] exI [of _ ?p] exI [of _ st']) (simp split: if_splits)
qed

section \<open>Witnesses\<close>

definition sample_message_env :: message_env where
  "sample_message_env = \<lparr>env_platform = portable_platform, env_fast = True, env_stack_key = blank_aes_key,
     SHA1 = (\<lambda>x. rd 0 20 (x @ zeros 20)), SHA256 = (\<lambda>x. rd 0 32 (x @ zeros 32)), old_sha = zeros 68, old_messageKey = zeros 96\<rparr>"

definition sample_keys :: auth_keys where
  "sample_keys = \<lparr>isCdnDatacenter = False, authKeyPerm = None, authKeyPermId = 0, authKeyTemp = Some (replicate 256 7), authKeyTempId = 99,
     authKeyMediaTemp = None, authKeyMediaTempId = 0, handshakes = [], hasMediaAddress = False\<rparr>"

definition sample_session :: session where
  "sample_session = \<lparr>sessionId = 5, nextSeqNo = 0, minProcessedMessageId = 0, processedMessageIds = [], messagesIdsForConfirmation = [],
     processedSessionChanges = []\<rparr>"

definition sample_packet :: bytes where
  "sample_packet = sealed sample_message_env 2 8 (replicate 256 7) 99 (message_header 1 5 8 1 4 @ [1, 2, 3, 4] @ zeros 12)"

definition sample_inputs :: send_inputs where
  "sample_inputs = \<lparr>currentTimeMillis = 0, timeDifference = 0, clock_id = 0, random_index = 3, random_salt = 0, random_session = 0,
     random_padding = zeros\<rparr>"

definition sample_request :: network_message where
  "sample_request = \<lparr>forceContainer = False, request_msg_id = 0, request_seqno = 1, request_bytes = 8, outgoingBody = None,
     request_body = [Int32 0xda9b0d0d, Int32 152]\<rparr>"

definition sample_state :: send_state where
  "sample_state = \<lparr>send_session = sample_session, lastOutgoingMessageId = 0, send_storage = new_storage zeros,
     send_salts = \<lparr>serverSalts = [\<lparr>valid_since = 0, valid_until = 9, salt = 77\<rparr>], mediaServerSalts = []\<rparr>,
     sizeCalculatorBuffer = new_calculator True\<rparr>"

lemma sample_message_env: "message_env_ok sample_message_env"
  by (simp add: message_env_ok_def sample_message_env_def zeros_def)

lemma sample_key: "getAuthKey sample_keys 1 False 1 = (Some (replicate 256 7), 99)"
  by (simp add: getAuthKey_def sample_keys_def isMediaConnectionType_def)

lemma sample_packet:
  "length sample_packet = 72" "take 8 sample_packet = enc64 99"
proof -
  have "length (message_header 1 5 8 1 4 @ [1, 2, 3, 4] @ zeros 12) mod 16 = 0" by (simp add: zeros_def)
  from open_sealed(2) [OF sample_message_env this] show "length sample_packet = 72" by (simp add: sample_packet_def zeros_def)
  show "take 8 sample_packet = enc64 99" by (simp add: sample_packet_def sealed_def Let_def)
qed

lemma sample_data: "buf_ok (new_buffer sample_packet 72)" "room (new_buffer sample_packet 72) = unat (72 :: u32)"
    "rest (new_buffer sample_packet 72) = sample_packet"
  using sample_packet(1) by (auto intro: new_buffer_ok, auto simp: new_buffer_def room_def rest_def rd_def)

theorem accepted_messages_are_sealed_witness:
  "\<exists>data. encrypted_packet_received sample_message_env sample_keys 1 False sample_session 72 (new_buffer sample_packet 72) = Some (Arrived 1 8 1 4 data) \<and>
     rest data = [1, 2, 3, 4] @ zeros 12"
proof -
  have "take 8 (rest (new_buffer sample_packet 72)) = enc64 99" by (simp only: sample_data sample_packet)
  note t = accepted_messages_are_sealed [OF sample_message_env sample_key _ sample_data(1,2) _ this, where custom = False and s = sample_session
      and a = 1 and i = 8 and q = 1 and m = 4 and follows = "[1, 2, 3, 4] @ zeros 12"]
  show ?thesis
    by (rule t [THEN iffD2]) (simp_all add: sample_data(3), intro exI [of _ 5] exI [of _ "[1, 2, 3, 4]"] exI [of _ "zeros 12"],
      simp add: sample_packet_def sample_session_def zeros_def)
qed

theorem requests_reach_server_witness:
  "\<exists>b padding st'. let t = message_header 77 5 0 1 8 @ enc32 0xda9b0d0d @ enc32 152 @ padding in
    createRequestsData sample_message_env zeros sample_inputs sample_keys 1 False [sample_request] sample_state =
      (Some (load32 0 (SHA256 sample_message_env (rd 88 32 (replicate 256 7) @ t)) AND 0x7fffffff, b), st') \<and>
    open_message sample_message_env 2 0 (replicate 256 7) 99 (take (unat (buf_limit b)) (buffer b)) = Some t \<and>
    length t mod 16 = 0 \<and> 32 \<le> length padding \<and> length padding < 256"
proof -
  have st: "storage_ok (send_storage sample_state)" "calculateSizeOnly (sizeCalculatorBuffer sample_state)"
    by (simp_all add: sample_state_def zeros_storage new_calculator_def)
  have z: "\<forall>n. length (zeros n) = n" "\<forall>n. length (random_padding sample_inputs n) = n" by (simp_all add: zeros_def sample_inputs_def)
  have salt: "salt_and_session sample_inputs 1 False sample_state = (77, 5)"
    by (simp add: salt_and_session_def sample_inputs_def sample_state_def sample_session_def getServerSalt_def isMediaConnectionType_def getCurrentTime_def
        salts_of_def choose_salt_def Let_def)
  have msg: "choose_message sample_inputs False [sample_request] sample_state = (0, 1, [Int32 0xda9b0d0d, Int32 152], sample_state)"
    by (simp add: choose_message_def sample_inputs_def sample_request_def message_time_def body_of_def)
  show ?thesis
    using requests_reach_server [OF sample_message_env sample_key _ st(1) z(1) st(2) z(2) salt msg] by simp
qed

end
