(* ===== verification/Spec2Isabelle.thy ===== *)
theory Spec2Isabelle
  imports JniCrypto FileTree VideoFrame Recording Waveform ProxyHandshake MessageSession ConfigFile QuickAck Transmission EncryptedMessage
begin

text \<open>
  A verification development for the native code of the Android messenger: the C and C++ sources under
  \<^verbatim>\<open>src/app/jni\<close>, built as one shared library that the Java side loads.  It models the parts that carry the
  application's own logic, and of the in-tree libraries the functions that these parts call directly.
\<close>

section \<open>The parts and how they interact\<close>

text \<open>
  Four groups of sources are modelled.  All paths are below \<^verbatim>\<open>app/jni\<close>.

  \<^bold>\<open>Crypto.\<close>  The entry points of \<^verbatim>\<open>jni.c\<close> (\<open>Utilities.aesIgeEncryption\<close> and so on) take Java arrays and direct
  buffers and call the AES modes of \<^verbatim>\<open>boringssl/crypto/fipsmodule\<close>; files on disk and the stream of a connection are encrypted
  with the counter mode, messages with IGE, the key store with CBC.

    \<^item> \<open>AesTables\<close>, \<open>Aes\<close>: the tables and the portable block cipher of \<^verbatim>\<open>aes/aes.c\<close>; a key is the record \<open>aes_key\<close>
      (\<open>struct aes_key_st\<close>), a block a list of 16 bytes.  Lemmas: the tables are those of the field, decryption inverts encryption
      for every key size, the key schedule is the one of FIPS 197.
    \<^item> \<open>BlockCipher\<close>: the locales \<open>block_fun\<close> and \<open>block_cipher\<close>, the contract between the modes and the cipher; \<open>Aes\<close>
      interprets them.
    \<^item> \<open>BlockModes\<close>: \<^verbatim>\<open>aes/aes_ige.c\<close>, \<^verbatim>\<open>modes/cbc.c\<close>, \<^verbatim>\<open>modes/ctr.c\<close> over one memory in which the two buffers may be
      the same (\<open>rd\<close>, \<open>wr\<close> at addresses), with the fast and the copying variants of the loops.  Lemmas: both variants compute the
      recursive definitions of the modes, round trips, and a text may be encrypted in pieces.
    \<^item> \<open>JniCrypto\<close>: the entry points, with copies or pins of the arrays and the unchecked status of the key setup.

  \<^bold>\<open>Audio.\<close>  \<^verbatim>\<open>audio.c\<close> records a voice message into an Ogg Opus file and draws its waveform.

    \<^item> \<open>OggPage\<close>, \<open>OggStream\<close>, \<open>OggSync\<close>, \<open>OggDecode\<close>: \<^verbatim>\<open>opus/ogg/framing.c\<close>.  \<open>ogg_stream_state\<close>, \<open>ogg_sync_state\<close>,
      \<open>ogg_page\<close> and \<open>ogg_packet\<close> are the structures of \<^verbatim>\<open>ogg.h\<close>.  Lemmas: the checksum is the remainder of a polynomial
      division; the invariants of both states; the pages of a stream, written with any grouping and read in any pieces,
      give its packets.  The locale \<open>segment_queue\<close> is the encoder as a queue of segments, \<open>framing\<close> extends it by the
      decoder; both are interpreted on the functions of the code.
    \<^item> \<open>OpusHeader\<close>, \<open>OpusInfo\<close>: the header and comment packets as \<^verbatim>\<open>audio.c\<close> writes and \<^verbatim>\<open>opus/opusfile/info.c\<close>
      reads them.  Lemmas: round trips, soundness of the parser, bounds of every length that is read from a file.
    \<^item> \<open>Recorder\<close>, \<open>Recording\<close>: \<open>initRecorder\<close>, \<open>writeFrame\<close>, \<open>cleanupRecorder\<close>, and what a whole recording leaves in the
      file; the encoder of libopus and the file are parameters (\<open>recorder_env\<close>).
    \<^item> \<open>Waveform\<close>: \<open>getWaveform\<close> and \<open>getWaveform2\<close> with the bit packing and the rounding of \<open>float\<close>.

  \<^bold>\<open>Network.\<close>  \<^verbatim>\<open>tgnet\<close> speaks the protocol of the servers.  A connection reads from its socket into a byte buffer and
  writes a queue of byte buffers to it; messages are serialised into byte buffers that come from pools.

    \<^item> \<open>ByteBuffer\<close>: \<^verbatim>\<open>NativeByteBuffer.cpp\<close>; positions and limits are 32-bit words.  The locale \<open>tl_field\<close> says what writing
      and reading a field promise each other; it is interpreted for each kind of field.  \<open>TlMessage\<close> builds messages of them.
    \<^item> \<open>BuffersStorage\<close>, \<open>ByteStream\<close>: the pools and the queue of outgoing buffers.
    \<^item> \<open>ChunkedStream\<close>: the locale \<open>stream_reader\<close>, the contract of a reader that is given a stream in chunks; \<open>Socket\<close>
      interprets it for TLS records, \<open>PacketFraming\<close> for encrypted packets.
    \<^item> \<open>Socket\<close>, \<open>SocketSend\<close>, \<open>ProxyHandshake\<close>: the event handler of \<^verbatim>\<open>ConnectionSocket.cpp\<close>: TLS records taken apart,
      the queue sent plainly and in records, and the SOCKS5 handshake as a step relation with its invariant.
    \<^item> \<open>PacketStream\<close>, \<open>PacketFraming\<close>, \<open>QuickAck\<close>: \<open>onReceivedData\<close> of \<^verbatim>\<open>Connection.cpp\<close> with the buffer that it keeps
      between calls (the flag \<open>aliased\<close> says when the buffer that is read and \<open>restOfTheData\<close> are one object).  \<open>unframe\<close> is the
      specification on the whole stream; the invariant \<open>between\<close> relates the state between two calls to what is left of the
      stream.  A quick acknowledgement that is cut is the exception, shown in \<open>QuickAck\<close>.
    \<^item> \<open>SendData\<close>, \<open>Transmission\<close>: \<open>sendData\<close> of the same file, and that the other side takes apart what it sends.
    \<^item> \<open>MessageSession\<close>: \<^verbatim>\<open>ConnectionSession.cpp\<close> and its callers: which messages of the server are processed, the ids of outgoing
      messages, and confirmations.  A run is a list of events, messages with the session that they name and what the rest of the
      client does with the session; new sessions start in the middle of it.
    \<^item> \<open>ServerSalts\<close>, \<open>EncryptedMessage\<close>: of \<^verbatim>\<open>Datacenter.cpp\<close> the salts, the choice of the key, \<open>createRequestsData\<close> and
      \<open>decryptServerResponse\<close> with its caller in \<^verbatim>\<open>ConnectionsManager.cpp\<close>.  \<open>sealed\<close> and \<open>open_message\<close> are the scheme of the
      protocol as functions on texts; the code in place, over its scratch arrays, is shown to compute them.  What the server seals and
      nothing else is accepted, and what the client packs the server opens.
    \<^item> \<open>ConfigFile\<close>: \<^verbatim>\<open>Config.cpp\<close>: the disk at every moment at which the process can die, with every operation that can fail.

  \<^bold>\<open>Files and frames.\<close>  \<open>FileTree\<close> has the directory scans of \<^verbatim>\<open>jni.c\<close>, over a tree of directories; \<open>VideoFrame\<close> the plane
  arithmetic of \<^verbatim>\<open>video.c\<close>, whose colour conversions (libyuv) are a parameter.

  \<open>Prelude\<close> holds the machine integers, the access to memory, and the lemma collections \<open>word_bytes\<close>, \<open>xor_bytes\<close>,
  \<open>buffer\<close> and \<open>blocks16\<close> that the other theories share.
\<close>

section \<open>Conventions and bounds\<close>

text \<open>
  Memory is a list of bytes; reads and writes behind its end are excluded by the hypotheses of the theorems or by
  invariants that are proved.  \<open>None\<close> as the result of a function is an error return where the code has one, and for the loops
  defined by \<^theory_text>\<open>partial_function\<close> (the receive loops and \<open>ogg_sync_pageout\<close>) that the loop does not end; the theorems about these loops
  prove that a result is there.  No fuel is used.

  The Ogg layer is modelled for the 32-bit ABI, on which \<open>long\<close> has 32 bits, and \<open>OpusInfo\<close> for a 64-bit \<open>size_t\<close>; \<open>MessageSession\<close>
  takes the width of \<open>size_t\<close> as an argument.  Signed C integers whose overflow would be undefined are integers with bounds in
  the hypotheses; in \<open>VideoFrame\<close> they wrap, so that the bounds are needed.  An array whose end matters is the start of a longer list in
  \<open>Aes\<close>, so that a write behind it would show.  The byte buffers of the network code are assumed to be smaller than 2 GiB.  In \<open>ConfigFile\<close> a crash
  leaves a prefix of the bytes that were written to the file that is open, and a rename is atomic.

  What the sources call outside of the modelled parts is a parameter: the Opus encoder, the reader of Opus files, libyuv,
  the file operations, \<open>send\<close> and \<open>recv\<close>, SHA-1 and SHA-256, random bytes, the clock, and the contents of fresh memory.
\<close>

section \<open>Not modelled\<close>

text \<open>
  Of \<^verbatim>\<open>tgnet\<close>: the choice of addresses, timers and reconnection (the rest of \<^verbatim>\<open>Connection.cpp\<close> and \<^verbatim>\<open>Datacenter.cpp\<close>), the key
  exchange (\<^verbatim>\<open>Handshake.cpp\<close>), the request queue, the generated schemes, name resolution and the TLS hello: event handlers over the object
  graph of the whole client, or big-number and hash functions of BoringSSL.  The reader \<^verbatim>\<open>opusfile.c\<close>, the Opus codec, libFLAC,
  ffmpeg, libwebp, libyuv, SQLite, lz4, rlottie, the voice and video calls and the rest of BoringSSL are vendored libraries.
  The image filters, the intro animation and the neural network are floating-point and graphics code with no exact specification.  The remaining
  JNI files convert arguments.
\<close>

end
